(* ===== verification/Prelude.thy ===== *)
theory Prelude
  imports Main "HOL-Library.Word" "HOL-Library.Monad_Syntax"
begin

text \<open>
  Shared vocabulary of the development: machine integers, addresses, the outcome of a C
  function, and the facts about maps and bit fields that the pointer proofs use.

  A C function that can fail is modelled in the option monad. \<open>None\<close> stands for every way
  in which the C program does not return normally: a load or store through a pointer that is
  not the address of a live object (NULL and the list poison values included), a failed
  \<open>BUG_ON\<close> (an \<open>assert\<close> in linux/bug.h, so the process aborts), or a loop that never
  ends. A theorem that states \<open>\<exists>s'. f s = Some s'\<close> therefore states memory safety,
  absence of assertion failures and termination at once.
\<close>

unbundle bit_operations_syntax

type_synonym u64 = "64 word"
type_synonym u32 = "32 word"

text \<open>C's \<open>int\<close>: 32 bits, read as signed by \<open>sint\<close>.\<close>

type_synonym i32 = "32 word"

text \<open>Pointers are 64-bit addresses; NULL is 0.\<close>

type_synonym addr = "64 word"

abbreviation NULL :: addr where
  "NULL \<equiv> 0"

abbreviation U64_MAX :: u64 where
  "U64_MAX \<equiv> - 1"

text \<open>The memory of the objects of one type: live addresses and their contents.\<close>

type_synonym 'a store = "addr \<rightharpoonup> 'a"

named_theorems c_defs \<open>definitions of the C operations, for symbolic execution\<close>
named_theorems rep_simps \<open>how the representation predicates read and survive updates\<close>

section \<open>linux/bug.h\<close>

definition BUG_ON :: "bool \<Rightarrow> unit option" where
  "BUG_ON c = (if c then None else Some ())"

lemma BUG_ON_False [simp]: "\<not> c \<Longrightarrow> BUG_ON c = Some ()"
  by (simp add: BUG_ON_def)

lemma BUG_ON_True [simp]: "c \<Longrightarrow> BUG_ON c = None"
  by (simp add: BUG_ON_def)

lemma BUG_ON_Some_iff [simp]: "BUG_ON c = Some u \<longleftrightarrow> \<not> c"
  by (simp add: BUG_ON_def)

text \<open>The C statement \<open>if (c) f;\<close>.\<close>

definition c_when :: "bool \<Rightarrow> ('s \<Rightarrow> 's option) \<Rightarrow> 's \<Rightarrow> 's option" where
  "c_when c f s = (if c then f s else Some s)"

section \<open>linux/kernel.h\<close>

definition is_power_of_2 :: "u64 \<Rightarrow> bool" where
  "is_power_of_2 n \<longleftrightarrow> n \<noteq> 0 \<and> n AND (n - 1) = 0"

definition c_min :: "u64 \<Rightarrow> u64 \<Rightarrow> u64" where
  "c_min a b = (if a < b then a else b)"

definition c_max :: "u64 \<Rightarrow> u64 \<Rightarrow> u64" where
  "c_max a b = (if a > b then a else b)"

text \<open>
  The remainder and the quotient; a zero divisor traps on the machines the program runs on.
\<close>

definition div64_u64_rem :: "u64 \<Rightarrow> u64 \<Rightarrow> (u64 \<times> u64) option" where
  "div64_u64_rem dividend divisor =
     (if divisor = 0 then None else Some (dividend div divisor, dividend mod divisor))"

lemma c_min_eq: "c_min a b = min a b"
  by (auto simp: c_min_def min_def)

lemma c_max_eq: "c_max a b = max a b"
  by (auto simp: c_max_def max_def)

section \<open>Facts about maps and the option monad\<close>

lemma bind_Some_ex: "(\<exists>y. m = Some y \<and> (\<exists>z. f y = Some z)) \<Longrightarrow> \<exists>z. Option.bind m f = Some z"
  by auto

lemma bind_eq_SomeI: "m = Some x \<Longrightarrow> f x = Some z \<Longrightarrow> Option.bind m f = Some z"
  by simp

lemma distinct_split_iff:
  "distinct (xs @ a # ys) \<longleftrightarrow>
     distinct xs \<and> distinct ys \<and> a \<notin> set xs \<and> a \<notin> set ys \<and> set xs \<inter> set ys = {}"
  by auto

lemma in_set_two_splits:
  assumes "a \<in> set xs" and "distinct xs"
  obtains us vs where "xs = us @ a # vs" and "a \<notin> set us" and "a \<notin> set vs"
  using assms by (metis disjoint_insert(1) distinct_append list.simps(15) split_list distinct.simps(2) insert_disjoint(2))

end
