(* ===== verification/Linux_List.thy ===== *)
theory Linux_List
  imports Prelude
begin

text \<open>
  linux/list.h: the circular doubly linked lists that every component is built on.

  A \<open>struct list_head\<close> is embedded in the object it links. The objects of one kind live at
  addresses of their own, and each embedded \<open>list_head\<close> member has a store of its own, indexed
  by the address of the object around it (so \<open>container_of\<close> is the identity). The operations are
  transcribed store by store; \<open>is_list h head xs\<close> says that in store \<open>h\<close> the list with head
  \<open>head\<close> holds exactly the entries \<open>xs\<close>, in order, with both directions of links in place.
  Each operation is then shown to act on \<open>xs\<close> as its comment in list.h says.
\<close>

section \<open>State and primitive accesses\<close>

record list_head =
  lh_next :: addr
  lh_prev :: addr

type_synonym lheap = "list_head store"

definition next_of :: "lheap \<Rightarrow> addr \<Rightarrow> addr option" where
  "next_of h p = map_option lh_next (h p)"

definition prev_of :: "lheap \<Rightarrow> addr \<Rightarrow> addr option" where
  "prev_of h p = map_option lh_prev (h p)"

definition set_next :: "addr \<Rightarrow> addr \<Rightarrow> lheap \<Rightarrow> lheap option" where
  "set_next p v h = do { n \<leftarrow> h p; Some (h(p \<mapsto> n\<lparr>lh_next := v\<rparr>)) }"

definition set_prev :: "addr \<Rightarrow> addr \<Rightarrow> lheap \<Rightarrow> lheap option" where
  "set_prev p v h = do { n \<leftarrow> h p; Some (h(p \<mapsto> n\<lparr>lh_prev := v\<rparr>)) }"

definition LIST_POISON1 :: addr where
  "LIST_POISON1 = 0x100"

definition LIST_POISON2 :: addr where
  "LIST_POISON2 = 0x122"

section \<open>The operations\<close>

definition INIT_LIST_HEAD :: "addr \<Rightarrow> lheap \<Rightarrow> lheap option" where
  "INIT_LIST_HEAD list h = do {
     h \<leftarrow> set_next list list h;
     set_prev list list h
   }"

text \<open>\<open>raw_list_add\<close> is \<open>__list_add\<close>; the validity check is compiled out.\<close>

definition raw_list_add :: "addr \<Rightarrow> addr \<Rightarrow> addr \<Rightarrow> lheap \<Rightarrow> lheap option" where
  "raw_list_add new prev nxt h = do {
     h \<leftarrow> set_prev nxt new h;
     h \<leftarrow> set_next new nxt h;
     h \<leftarrow> set_prev new prev h;
     set_next prev new h
   }"

definition list_add :: "addr \<Rightarrow> addr \<Rightarrow> lheap \<Rightarrow> lheap option" where
  "list_add new head h = do {
     nxt \<leftarrow> next_of h head;
     raw_list_add new head nxt h
   }"

definition list_add_tail :: "addr \<Rightarrow> addr \<Rightarrow> lheap \<Rightarrow> lheap option" where
  "list_add_tail new head h = do {
     prev \<leftarrow> prev_of h head;
     raw_list_add new prev head h
   }"

text \<open>\<open>raw_list_del\<close> is \<open>__list_del\<close>, \<open>raw_list_del_entry\<close> is \<open>__list_del_entry\<close>.\<close>

definition raw_list_del :: "addr \<Rightarrow> addr \<Rightarrow> lheap \<Rightarrow> lheap option" where
  "raw_list_del prev nxt h = do {
     h \<leftarrow> set_prev nxt prev h;
     set_next prev nxt h
   }"

definition raw_list_del_entry :: "addr \<Rightarrow> lheap \<Rightarrow> lheap option" where
  "raw_list_del_entry entry h = do {
     prev \<leftarrow> prev_of h entry;
     nxt \<leftarrow> next_of h entry;
     raw_list_del prev nxt h
   }"

definition list_del :: "addr \<Rightarrow> lheap \<Rightarrow> lheap option" where
  "list_del entry h = do {
     h \<leftarrow> raw_list_del_entry entry h;
     h \<leftarrow> set_next entry LIST_POISON1 h;
     set_prev entry LIST_POISON2 h
   }"

definition list_replace :: "addr \<Rightarrow> addr \<Rightarrow> lheap \<Rightarrow> lheap option" where
  "list_replace old new h = do {
     nxt \<leftarrow> next_of h old;
     h \<leftarrow> set_next new nxt h;
     new_next \<leftarrow> next_of h new;
     h \<leftarrow> set_prev new_next new h;
     prev \<leftarrow> prev_of h old;
     h \<leftarrow> set_prev new prev h;
     new_prev \<leftarrow> prev_of h new;
     set_next new_prev new h
   }"

definition list_empty :: "addr \<Rightarrow> lheap \<Rightarrow> bool option" where
  "list_empty head h = do {
     nxt \<leftarrow> next_of h head;
     Some (nxt = head)
   }"

definition list_first_entry_or_null :: "addr \<Rightarrow> lheap \<Rightarrow> addr option" where
  "list_first_entry_or_null head h = do {
     pos \<leftarrow> next_of h head;
     Some (if pos \<noteq> head then pos else NULL)
   }"

text \<open>
  The iteration macros. The loop body maps the cursor and the program state to \<open>Inl\<close> of the
  next state, or to \<open>Inr\<close> of a value when it leaves the loop (\<open>return\<close>, \<open>goto\<close>). The links
  are read from the current state through \<open>lh\<close>. The cursors \<open>pos\<close> and \<open>n\<close> are the macros'.
\<close>

partial_function (option) list_for_each_entry_from ::
  "('s \<Rightarrow> lheap) \<Rightarrow> addr \<Rightarrow> (addr \<Rightarrow> 's \<Rightarrow> ('s + 'r) option) \<Rightarrow> addr \<Rightarrow> 's \<Rightarrow> ('s + 'r) option" where
  "list_for_each_entry_from lh head body pos s =
     (if pos = head then Some (Inl s)
      else do {
        r \<leftarrow> body pos s;
        case r of
          Inl s' \<Rightarrow> do { pos' \<leftarrow> next_of (lh s') pos;
                          list_for_each_entry_from lh head body pos' s' }
        | Inr x \<Rightarrow> Some (Inr x)
      })"

definition list_for_each_entry ::
  "('s \<Rightarrow> lheap) \<Rightarrow> addr \<Rightarrow> (addr \<Rightarrow> 's \<Rightarrow> ('s + 'r) option) \<Rightarrow> 's \<Rightarrow> ('s + 'r) option" where
  "list_for_each_entry lh head body s = do {
     pos \<leftarrow> next_of (lh s) head;
     list_for_each_entry_from lh head body pos s
   }"

partial_function (option) list_for_each_entry_safe_from ::
  "('s \<Rightarrow> lheap) \<Rightarrow> addr \<Rightarrow> (addr \<Rightarrow> 's \<Rightarrow> ('s + 'r) option) \<Rightarrow> addr \<Rightarrow> addr \<Rightarrow> 's \<Rightarrow> ('s + 'r) option"
where
  "list_for_each_entry_safe_from lh head body pos n s =
     (if pos = head then Some (Inl s)
      else do {
        r \<leftarrow> body pos s;
        case r of
          Inl s' \<Rightarrow> do { n' \<leftarrow> next_of (lh s') n;
                          list_for_each_entry_safe_from lh head body n n' s' }
        | Inr x \<Rightarrow> Some (Inr x)
      })"

definition list_for_each_entry_safe ::
  "('s \<Rightarrow> lheap) \<Rightarrow> addr \<Rightarrow> (addr \<Rightarrow> 's \<Rightarrow> ('s + 'r) option) \<Rightarrow> 's \<Rightarrow> ('s + 'r) option" where
  "list_for_each_entry_safe lh head body s = do {
     pos \<leftarrow> next_of (lh s) head;
     n \<leftarrow> next_of (lh s) pos;
     list_for_each_entry_safe_from lh head body pos n s
   }"

partial_function (option) list_for_each_entry_safe_reverse_from ::
  "('s \<Rightarrow> lheap) \<Rightarrow> addr \<Rightarrow> (addr \<Rightarrow> 's \<Rightarrow> ('s + 'r) option) \<Rightarrow> addr \<Rightarrow> addr \<Rightarrow> 's \<Rightarrow> ('s + 'r) option"
where
  "list_for_each_entry_safe_reverse_from lh head body pos n s =
     (if pos = head then Some (Inl s)
      else do {
        r \<leftarrow> body pos s;
        case r of
          Inl s' \<Rightarrow> do { n' \<leftarrow> prev_of (lh s') n;
                          list_for_each_entry_safe_reverse_from lh head body n n' s' }
        | Inr x \<Rightarrow> Some (Inr x)
      })"

definition list_for_each_entry_safe_reverse ::
  "('s \<Rightarrow> lheap) \<Rightarrow> addr \<Rightarrow> (addr \<Rightarrow> 's \<Rightarrow> ('s + 'r) option) \<Rightarrow> 's \<Rightarrow> ('s + 'r) option" where
  "list_for_each_entry_safe_reverse lh head body s = do {
     pos \<leftarrow> prev_of (lh s) head;
     n \<leftarrow> prev_of (lh s) pos;
     list_for_each_entry_safe_reverse_from lh head body pos n s
   }"

section \<open>Executing the accesses symbolically\<close>

text \<open>The store after a successful \<open>set_next\<close> or \<open>set_prev\<close>.\<close>

definition upd_next :: "addr \<Rightarrow> addr \<Rightarrow> lheap \<Rightarrow> lheap" where
  "upd_next p v h = h(p \<mapsto> (the (h p))\<lparr>lh_next := v\<rparr>)"

definition upd_prev :: "addr \<Rightarrow> addr \<Rightarrow> lheap \<Rightarrow> lheap" where
  "upd_prev p v h = h(p \<mapsto> (the (h p))\<lparr>lh_prev := v\<rparr>)"

lemma set_next_eq [simp]: "p \<in> dom h \<Longrightarrow> set_next p v h = Some (upd_next p v h)"
  by (auto simp: set_next_def upd_next_def)

lemma set_prev_eq [simp]: "p \<in> dom h \<Longrightarrow> set_prev p v h = Some (upd_prev p v h)"
  by (auto simp: set_prev_def upd_prev_def)

lemma dom_upd [simp]:
  "dom (upd_next p v h) = insert p (dom h)"
  "dom (upd_prev p v h) = insert p (dom h)"
  by (auto simp: upd_next_def upd_prev_def)

lemma upd_apply [simp]:
  "upd_next p v h q = (if q = p then Some ((the (h p))\<lparr>lh_next := v\<rparr>) else h q)"
  "upd_prev p v h q = (if q = p then Some ((the (h p))\<lparr>lh_prev := v\<rparr>) else h q)"
  by (auto simp: upd_next_def upd_prev_def)

lemma next_of_upd [simp]:
  "next_of (upd_next p v h) q = (if q = p then Some v else next_of h q)"
  "p \<in> dom h \<Longrightarrow> next_of (upd_prev p v h) q = next_of h q"
  by (auto simp: upd_next_def upd_prev_def next_of_def)

lemma prev_of_upd [simp]:
  "prev_of (upd_prev p v h) q = (if q = p then Some v else prev_of h q)"
  "p \<in> dom h \<Longrightarrow> prev_of (upd_next p v h) q = prev_of h q"
  by (auto simp: upd_next_def upd_prev_def prev_of_def)

lemma next_of_dom: "next_of h p = Some v \<Longrightarrow> p \<in> dom h"
  by (auto simp: next_of_def)

lemma prev_of_dom: "prev_of h p = Some v \<Longrightarrow> p \<in> dom h"
  by (auto simp: prev_of_def)

lemma lheap_eqI:
  assumes "\<And>q. next_of h q = next_of h' q" and "\<And>q. prev_of h q = prev_of h' q"
  shows "h = h'"
proof
  fix q show "h q = h' q"
    using assms [of q] by (cases "h q"; cases "h' q") (auto simp: next_of_def prev_of_def)
qed

section \<open>Which list a store represents\<close>

fun next_path :: "lheap \<Rightarrow> addr list \<Rightarrow> bool" where
  "next_path h (a # b # xs) \<longleftrightarrow> next_of h a = Some b \<and> next_path h (b # xs)"
| "next_path h xs \<longleftrightarrow> True"

fun prev_path :: "lheap \<Rightarrow> addr list \<Rightarrow> bool" where
  "prev_path h (a # b # xs) \<longleftrightarrow> prev_of h b = Some a \<and> prev_path h (b # xs)"
| "prev_path h xs \<longleftrightarrow> True"

definition is_list :: "lheap \<Rightarrow> addr \<Rightarrow> addr list \<Rightarrow> bool" where
  "is_list h head xs \<longleftrightarrow> distinct (head # xs) \<and>
     next_path h (head # xs @ [head]) \<and> prev_path h (head # xs @ [head])"

lemma next_path_append: "next_path h (xs @ a # ys) \<longleftrightarrow> next_path h (xs @ [a]) \<and> next_path h (a # ys)"
  by (induction h xs rule: next_path.induct) auto

lemma prev_path_append: "prev_path h (xs @ a # ys) \<longleftrightarrow> prev_path h (xs @ [a]) \<and> prev_path h (a # ys)"
  by (induction h xs rule: prev_path.induct) auto

lemma next_path_cong:
  "(\<And>q. q \<in> set (butlast xs) \<Longrightarrow> next_of h' q = next_of h q) \<Longrightarrow> next_path h' xs = next_path h xs"
  by (induction h xs rule: next_path.induct) auto

lemma prev_path_cong:
  "(\<And>q. q \<in> set (tl xs) \<Longrightarrow> prev_of h' q = prev_of h q) \<Longrightarrow> prev_path h' xs = prev_path h xs"
  by (induction h xs rule: prev_path.induct) auto

lemma next_path_upd [simp]:
  "p \<notin> set (butlast xs) \<Longrightarrow> next_path (upd_next p v h) xs = next_path h xs"
  "p \<in> dom h \<Longrightarrow> next_path (upd_prev p v h) xs = next_path h xs"
  by (rule next_path_cong; auto)+

lemma prev_path_upd [simp]:
  "p \<notin> set (tl xs) \<Longrightarrow> prev_path (upd_prev p v h) xs = prev_path h xs"
  "p \<in> dom h \<Longrightarrow> prev_path (upd_next p v h) xs = prev_path h xs"
  by (rule prev_path_cong; auto)+

lemma next_path_dom: "next_path h xs \<Longrightarrow> set (butlast xs) \<subseteq> dom h"
  by (induction h xs rule: next_path.induct) (auto dest: next_of_dom)

lemma is_list_dom: "is_list h head xs \<Longrightarrow> set (head # xs) \<subseteq> dom h"
  using next_path_dom [of h "head # xs @ [head]"] by (simp add: is_list_def butlast_append)

lemma is_list_cong:
  "(\<And>q. q \<in> set (head # xs) \<Longrightarrow> h' q = h q) \<Longrightarrow> is_list h' head xs = is_list h head xs"
  unfolding is_list_def
  using next_path_cong [of "head # xs @ [head]" h' h] prev_path_cong [of "head # xs @ [head]" h' h]
  by (simp add: butlast_append next_of_def prev_of_def)

section \<open>What each operation does to the list\<close>

lemma is_list_split:
  assumes "is_list h head (ys @ zs)"
  obtains us vs where "head # ys = us @ [last (head # ys)]" and "zs @ [head] = hd (zs @ [head]) # vs"
    and "next_path h (us @ [last (head # ys)])" and "prev_path h (us @ [last (head # ys)])"
    and "next_path h (hd (zs @ [head]) # vs)" and "prev_path h (hd (zs @ [head]) # vs)"
    and "next_of h (last (head # ys)) = Some (hd (zs @ [head]))"
    and "prev_of h (hd (zs @ [head])) = Some (last (head # ys))"
    and "distinct (us @ [last (head # ys)])" and "set us \<inter> set zs = {}"
    and "last (head # ys) \<notin> set zs"
    and "distinct vs" and "hd (zs @ [head]) \<notin> set vs" 
    and "set (hd (zs @ [head]) # vs) = insert head (set zs)"
    and "last (head # ys) \<notin> set (butlast (hd (zs @ [head]) # vs))"
    and "hd (zs @ [head]) \<notin> set (tl (us @ [last (head # ys)]))"
proof -
  define a where "a = last (head # ys)"
  define b where "b = hd (zs @ [head])"
  define us where "us = butlast (head # ys)"
  define vs where "vs = tl (zs @ [head])"
  have 1: "head # ys = us @ [a]" unfolding us_def a_def by (rule append_butlast_last_id [symmetric]) simp
  have 2: "zs @ [head] = b # vs" unfolding vs_def b_def by (cases zs) auto
  have 3: "head # (ys @ zs) @ [head] = us @ a # b # vs" using 1 2 by (metis append.assoc append_Cons append_Nil)
  have d: "distinct (us @ a # zs)" using assms 1 unfolding is_list_def by (metis append.assoc append_Cons append_Nil)
  have n: "next_path h (us @ a # b # vs)" "prev_path h (us @ a # b # vs)" using assms 3 unfolding is_list_def by simp_all
  have d2: "distinct (b # vs)" unfolding 2 [symmetric] using assms by (auto simp: is_list_def)
  have zs: "zs = butlast (b # vs)" using 2 by (metis butlast_snoc)
  have bt: "b \<notin> set (tl (us @ [a]))"
  proof -
    have "tl (us @ [a]) = ys" using 1 by (metis list.sel(3))
    moreover have "b \<in> insert head (set zs)" using 2 by (cases zs) auto
    ultimately show ?thesis using assms unfolding is_list_def by auto
  qed
  have sv: "set (b # vs) = insert head (set zs)" using 2 by (metis empty_set insert_is_Un list.simps(15) set_append sup_commute Un_insert_right)
  show ?thesis
    by (rule that [of us vs]; (fold a_def b_def)?)
      (use 1 2 n d d2 zs bt sv next_path_append [of h us a "b # vs"] prev_path_append [of h us a "b # vs"] in auto)
qed

lemma raw_list_add_spec:
  assumes l: "is_list h head (ys @ zs)" and n: "new \<in> dom h" "new \<notin> set (head # ys @ zs)"
  shows "\<exists>h'. raw_list_add new (last (head # ys)) (hd (zs @ [head])) h = Some h' \<and>
     is_list h' head (ys @ new # zs) \<and> dom h' = dom h \<and>
     (\<forall>q. q \<notin> set (new # head # ys @ zs) \<longrightarrow> h' q = h q)"
proof -
  define a where "a = last (head # ys)"
  define b where "b = hd (zs @ [head])"
  from is_list_split [OF l, folded a_def b_def] obtain us vs where
    e: "head # ys = us @ [a]" "zs @ [head] = b # vs"
    and p: "next_path h (us @ [a])" "prev_path h (us @ [a])" "next_path h (b # vs)" "prev_path h (b # vs)"
      "next_of h a = Some b" "prev_of h b = Some a"
    and d: "distinct (us @ [a])" "set us \<inter> set zs = {}" "a \<notin> set zs" "distinct vs" "b \<notin> set vs" "set (b # vs) = insert head (set zs)"
       "a \<notin> set (butlast (b # vs))" "b \<notin> set (tl (us @ [a]))" by metis
  have ab: "a \<in> dom h" "b \<in> dom h" using p by (auto dest: next_of_dom prev_of_dom)
  have mem: "set (us @ [a]) \<subseteq> set (head # ys)" "set (b # vs) \<subseteq> set (head # zs)" "a \<in> set (head # ys)" "b \<in> set (head # zs)"
    using e d by auto
  have nn: "new \<notin> set (us @ [a])" "new \<notin> set (b # vs)" "new \<noteq> a" "new \<noteq> b" using n(2) mem by auto
  then have nb: "new \<notin> set (butlast (b # vs))" "new \<notin> set (tl (us @ [a]))" "new \<notin> set vs"
    by (auto dest: in_set_butlastD list.set_sel(2) [rotated] split: if_splits)
  define h' where "h' = upd_next a new (upd_prev new a (upd_next new b (upd_prev b new h)))"
  have r: "raw_list_add new a b h = Some h'"
    using ab n(1) by (simp add: raw_list_add_def h'_def)
  have np: "next_path h' (us @ [a])" "next_path h' (b # vs)" "next_of h' a = Some new" "next_of h' new = Some b"
    using p d nn nb ab n(1) by (simp_all add: h'_def del: butlast.simps(2))
  have pp: "prev_path h' (us @ [a])" "prev_path h' (b # vs)" "prev_of h' b = Some new" "prev_of h' new = Some a"
    using p d nn nb ab n(1) by (simp_all add: h'_def)
  have full: "head # (ys @ new # zs) @ [head] = us @ a # new # b # vs"
    using e by (metis append.assoc append_Cons append_Nil)
  have "is_list h' head (ys @ new # zs)"
    unfolding is_list_def full
    using l n(2) np pp next_path_append [of h' us a "new # b # vs"] prev_path_append [of h' us a "new # b # vs"]
    by (auto simp: is_list_def)
  moreover have "dom h' = dom h" using ab n(1) by (auto simp: h'_def)
  moreover have "\<forall>q. q \<notin> set (new # head # ys @ zs) \<longrightarrow> h' q = h q"
  proof (intro allI impI)
    fix q assume "q \<notin> set (new # head # ys @ zs)"
    with mem have "q \<noteq> a" "q \<noteq> b" "q \<noteq> new" by auto
    then show "h' q = h q" by (simp add: h'_def)
  qed
  ultimately show ?thesis using r unfolding a_def b_def by blast
qed
lemma raw_list_del_entry_spec:
  assumes l: "is_list h head (ys @ e # zs)"
  shows "\<exists>h'. raw_list_del_entry e h = Some h' \<and> is_list h' head (ys @ zs) \<and> dom h' = dom h \<and>
     h' e = h e \<and> (\<forall>q. q \<notin> set (head # ys @ zs) \<longrightarrow> h' q = h q) \<and>
     prev_of h e = Some (last (head # ys)) \<and> next_of h e = Some (hd (zs @ [head])) \<and>
     list_add e (last (head # ys)) h' = Some h"
proof -
  define a where "a = last (head # ys)"
  define b where "b = hd (zs @ [head])"
  obtain us where
    u: "head # ys = us @ [a]" "next_path h (us @ [a])" "prev_path h (us @ [a])"
      "next_of h a = Some e" "prev_of h e = Some a" "distinct (us @ [a])"
    using is_list_split [OF l, folded a_def] by (metis append_Cons list.sel(1))
  obtain vs where
    v: "zs @ [head] = b # vs" "next_path h (b # vs)" "prev_path h (b # vs)"
      "next_of h e = Some b" "prev_of h b = Some e" "distinct vs" "b \<notin> set vs"
    using is_list_split [of h head "ys @ [e]" zs, folded b_def] l
    by (metis append.assoc append_Cons append_Nil last.simps last_snoc list.distinct(1))
  have abe: "a \<in> dom h" "b \<in> dom h" "e \<in> dom h" using u v by (auto dest: next_of_dom prev_of_dom)
  have mem: "a \<in> set (head # ys)" "b \<in> set (head # zs)" using u v by (auto simp: b_def hd_append)
  have ne: "e \<noteq> a" "e \<noteq> b" using l mem by (auto simp: is_list_def)
  have av: "a \<notin> set (butlast (b # vs))" "b \<notin> set (tl (us @ [a]))" 
  proof -
    have "butlast (b # vs) = zs" "tl (us @ [a]) = ys"
      using v(1) u(1) by (metis butlast_snoc, metis list.sel(3))
    then show "a \<notin> set (butlast (b # vs))" "b \<notin> set (tl (us @ [a]))"
      using l mem by (auto simp: is_list_def simp del: butlast.simps)
  qed
  define h' where "h' = upd_next a b (upd_prev b a h)"
  have r: "raw_list_del_entry e h = Some h'"
    using u v abe by (simp add: raw_list_del_entry_def raw_list_del_def h'_def)
  have full: "head # (ys @ zs) @ [head] = us @ a # b # vs"
    using u(1) v(1) by (metis append.assoc append_Cons append_Nil)
  have p: "next_path h' (us @ [a])" "next_path h' (b # vs)" "prev_path h' (us @ [a])" "prev_path h' (b # vs)"
     "next_of h' a = Some b" "prev_of h' b = Some a"
    using u v av abe by (simp_all add: h'_def del: butlast.simps(2))
  have "is_list h' head (ys @ zs)"
    unfolding is_list_def full
    using l p next_path_append [of h' us a "b # vs"] prev_path_append [of h' us a "b # vs"]
    by (auto simp: is_list_def)
  moreover have "dom h' = dom h" "h' e = h e" using abe ne by (auto simp: h'_def)
  moreover have "\<forall>q. q \<notin> set (head # ys @ zs) \<longrightarrow> h' q = h q"
  proof (intro allI impI)
    fix q assume "q \<notin> set (head # ys @ zs)"
    with mem have "q \<noteq> a" "q \<noteq> b" by auto
    then show "h' q = h q" by (simp add: h'_def)
  qed
  moreover have "list_add e a h' = Some h"
    using abe ne u v
    by (simp add: list_add_def raw_list_add_def h'_def) (rule lheap_eqI; simp)
  ultimately show ?thesis using r u v unfolding a_def b_def by blast
qed

lemma list_add_spec:
  assumes "is_list h head (ys @ zs)" and "new \<in> dom h" "new \<notin> set (head # ys @ zs)"
  shows "\<exists>h'. list_add new (last (head # ys)) h = Some h' \<and>
     is_list h' head (ys @ new # zs) \<and> dom h' = dom h \<and>
     (\<forall>q. q \<notin> set (new # head # ys @ zs) \<longrightarrow> h' q = h q)"
proof -
  have "next_of h (last (head # ys)) = Some (hd (zs @ [head]))"
    using is_list_split [OF assms(1)] by metis
  then show ?thesis using raw_list_add_spec [OF assms] by (simp add: list_add_def)
qed

lemma list_add_tail_spec:
  assumes "is_list h head (ys @ zs)" and "new \<in> dom h" "new \<notin> set (head # ys @ zs)"
  shows "\<exists>h'. list_add_tail new (hd (zs @ [head])) h = Some h' \<and>
     is_list h' head (ys @ new # zs) \<and> dom h' = dom h \<and>
     (\<forall>q. q \<notin> set (new # head # ys @ zs) \<longrightarrow> h' q = h q)"
proof -
  have "prev_of h (hd (zs @ [head])) = Some (last (head # ys))"
    using is_list_split [OF assms(1)] by metis
  then show ?thesis using raw_list_add_spec [OF assms] by (simp add: list_add_tail_def)
qed

lemma list_del_spec:
  assumes l: "is_list h head (ys @ e # zs)"
  shows "\<exists>h'. list_del e h = Some h' \<and> is_list h' head (ys @ zs) \<and> dom h' = dom h \<and>
     (\<forall>q. q \<notin> set (e # head # ys @ zs) \<longrightarrow> h' q = h q) \<and>
     next_of h' e = Some LIST_POISON1 \<and> prev_of h' e = Some LIST_POISON2"
proof -
  from raw_list_del_entry_spec [OF l] obtain h1 where
    h1: "raw_list_del_entry e h = Some h1" "is_list h1 head (ys @ zs)" "dom h1 = dom h"
      "\<forall>q. q \<notin> set (head # ys @ zs) \<longrightarrow> h1 q = h q" by blast
  have e: "e \<in> dom h1" using is_list_dom [OF l] h1(3) by auto
  define h' where "h' = upd_prev e LIST_POISON2 (upd_next e LIST_POISON1 h1)"
  have r: "list_del e h = Some h'" using h1 e by (simp add: list_del_def h'_def)
  have "is_list h' head (ys @ zs)"
    using h1(2) l by (subst is_list_cong [of _ _ _ h1]) (auto simp: h'_def is_list_def)
  moreover have "dom h' = dom h" using e h1(3) by (auto simp: h'_def)
  moreover have "\<forall>q. q \<notin> set (e # head # ys @ zs) \<longrightarrow> h' q = h q" using h1(4) by (simp add: h'_def)
  moreover have "next_of h' e = Some LIST_POISON1" "prev_of h' e = Some LIST_POISON2"
    using e by (simp_all add: h'_def)
  ultimately show ?thesis using r by blast
qed

lemma INIT_LIST_HEAD_spec:
  assumes "list \<in> dom h"
  shows "\<exists>h'. INIT_LIST_HEAD list h = Some h' \<and> is_list h' list [] \<and> dom h' = dom h \<and>
     (\<forall>q. q \<noteq> list \<longrightarrow> h' q = h q)"
  using assms by (auto simp: INIT_LIST_HEAD_def is_list_def)

lemma list_empty_spec: "is_list h head xs \<Longrightarrow> list_empty head h = Some (xs = [])"
  by (cases xs) (auto simp: is_list_def list_empty_def)

lemma list_first_entry_or_null_spec:
  "is_list h head xs \<Longrightarrow>
     list_first_entry_or_null head h = Some (case xs of [] \<Rightarrow> NULL | x # _ \<Rightarrow> x)"
  by (cases xs) (auto simp: is_list_def list_first_entry_or_null_def)

lemma is_list_next:
  "is_list h head (ys @ zs) \<Longrightarrow> next_of h (last (head # ys)) = Some (hd (zs @ [head]))"
  by (erule is_list_split) simp

lemma is_list_prev:
  "is_list h head (ys @ zs) \<Longrightarrow> prev_of h (hd (zs @ [head])) = Some (last (head # ys))"
  by (erule is_list_split) simp

section \<open>Rules for the iteration macros\<close>

text \<open>
  \<open>I xs s\<close> is the loop invariant with \<open>xs\<close> the entries still to visit. The loop ends, never
  follows a dangling link, and either finishes with \<open>I []\<close> or leaves with a value in \<open>Q\<close>. The
  plain macro needs the link out of the current entry after the body, the safe ones do not.
\<close>

lemma list_for_each_entry_from_rule:
  assumes "I xs s" and "next_path (lh s) (xs @ [head])" and "head \<notin> set xs"
    and step: "\<And>x ys s. \<lbrakk>I (x # ys) s; next_path (lh s) (x # ys @ [head])\<rbrakk> \<Longrightarrow>
      \<exists>r. body x s = Some r \<and>
        (case r of Inl s' \<Rightarrow> I ys s' \<and> next_path (lh s') (x # ys @ [head]) | Inr v \<Rightarrow> Q v)"
  shows "\<exists>r. list_for_each_entry_from lh head body (hd (xs @ [head])) s = Some r \<and>
    (case r of Inl s' \<Rightarrow> I [] s' | Inr v \<Rightarrow> Q v)"
  using assms(1-3)
proof (induction xs arbitrary: s)
  case Nil
  then show ?case by (simp add: list_for_each_entry_from.simps)
next
  case (Cons x ys)
  then obtain r where r: "body x s = Some r"
    "case r of Inl s' \<Rightarrow> I ys s' \<and> next_path (lh s') (x # ys @ [head]) | Inr v \<Rightarrow> Q v"
    using step [of x ys s] by auto
  show ?case
  proof (cases r)
    case (Inl s')
    with r have s': "I ys s'" "next_path (lh s') (x # ys @ [head])" by auto
    then have "next_of (lh s') x = Some (hd (ys @ [head]))" "next_path (lh s') (ys @ [head])"
      by (cases ys; simp)+
    then show ?thesis using Cons r(1) Inl s'(1)
      by (subst list_for_each_entry_from.simps) auto
  next
    case (Inr v)
    then show ?thesis using Cons r by (subst list_for_each_entry_from.simps) auto
  qed
qed

lemma list_for_each_entry_rule:
  assumes "I xs s" and "is_list (lh s) head xs"
    and step: "\<And>x ys s. \<lbrakk>I (x # ys) s; next_path (lh s) (x # ys @ [head])\<rbrakk> \<Longrightarrow>
      \<exists>r. body x s = Some r \<and>
        (case r of Inl s' \<Rightarrow> I ys s' \<and> next_path (lh s') (x # ys @ [head]) | Inr v \<Rightarrow> Q v)"
  shows "\<exists>r. list_for_each_entry lh head body s = Some r \<and>
    (case r of Inl s' \<Rightarrow> I [] s' | Inr v \<Rightarrow> Q v)"
proof -
  have "next_of (lh s) head = Some (hd (xs @ [head]))" "next_path (lh s) (xs @ [head])" "head \<notin> set xs"
    using assms(2) by (cases xs; simp add: is_list_def)+
  then show ?thesis
    using list_for_each_entry_from_rule [of I xs s lh head body Q] assms(1) step
    by (simp add: list_for_each_entry_def)
qed

lemma list_for_each_entry_safe_from_rule:
  assumes "I xs s" and "next_path (lh s) (xs @ [head])" and "head \<notin> set xs" and "head \<in> dom (lh s)"
    and step: "\<And>x ys s. \<lbrakk>I (x # ys) s; next_path (lh s) (x # ys @ [head])\<rbrakk> \<Longrightarrow>
      \<exists>r. body x s = Some r \<and>
        (case r of Inl s' \<Rightarrow> I ys s' \<and> next_path (lh s') (ys @ [head]) \<and> head \<in> dom (lh s') | Inr v \<Rightarrow> Q v)"
    and n: "xs \<noteq> [] \<Longrightarrow> n = hd (tl xs @ [head])"
  shows "\<exists>r. list_for_each_entry_safe_from lh head body (hd (xs @ [head])) n s = Some r \<and>
    (case r of Inl s' \<Rightarrow> I [] s' | Inr v \<Rightarrow> Q v)"
  using assms(1-4) n
proof (induction xs arbitrary: s n)
  case Nil
  then show ?case by (simp add: list_for_each_entry_safe_from.simps)
next
  case (Cons x ys)
  then obtain r where r: "body x s = Some r"
    "case r of Inl s' \<Rightarrow> I ys s' \<and> next_path (lh s') (ys @ [head]) \<and> head \<in> dom (lh s') | Inr v \<Rightarrow> Q v"
    using step [of x ys s] by auto
  show ?case
  proof (cases r)
    case (Inl s')
    with r have s': "I ys s'" "next_path (lh s') (ys @ [head])" "head \<in> dom (lh s')" by auto
    have n: "n = hd (ys @ [head])" using Cons.prems(5) by simp
    obtain n' where n': "next_of (lh s') n = Some n'" "ys \<noteq> [] \<Longrightarrow> n' = hd (tl ys @ [head])"
    proof (cases ys)
      case Nil
      then show ?thesis using s'(3) n that by (auto simp: next_of_def)
    next
      case (Cons y zs)
      then show ?thesis using s'(2) n that by (cases zs) auto
    qed
    have "\<exists>r. list_for_each_entry_safe_from lh head body (hd (ys @ [head])) n' s' = Some r \<and>
      (case r of Inl s' \<Rightarrow> I [] s' | Inr v \<Rightarrow> Q v)"
      using Cons.IH [of s' n'] s' n' Cons.prems(3) by auto
    then show ?thesis using Cons.prems(3) r(1) Inl n n'(1)
      by (subst list_for_each_entry_safe_from.simps) auto
  next
    case (Inr v)
    then show ?thesis using Cons r by (subst list_for_each_entry_safe_from.simps) auto
  qed
qed

lemma list_for_each_entry_safe_rule:
  assumes "I xs s" and l: "is_list (lh s) head xs"
    and step: "\<And>x ys s. \<lbrakk>I (x # ys) s; next_path (lh s) (x # ys @ [head])\<rbrakk> \<Longrightarrow>
      \<exists>r. body x s = Some r \<and>
        (case r of Inl s' \<Rightarrow> I ys s' \<and> next_path (lh s') (ys @ [head]) \<and> head \<in> dom (lh s') | Inr v \<Rightarrow> Q v)"
  shows "\<exists>r. list_for_each_entry_safe lh head body s = Some r \<and>
    (case r of Inl s' \<Rightarrow> I [] s' | Inr v \<Rightarrow> Q v)"
proof -
  have d: "head \<in> dom (lh s)" using is_list_dom [OF l] by simp
  have p: "next_of (lh s) head = Some (hd (xs @ [head]))" "next_path (lh s) (xs @ [head])" "head \<notin> set xs"
    using l by (cases xs; simp add: is_list_def)+
  obtain n where n: "next_of (lh s) (hd (xs @ [head])) = Some n" "xs \<noteq> [] \<Longrightarrow> n = hd (tl xs @ [head])"
  proof (cases xs)
    case Nil
    then show ?thesis using p that by auto
  next
    case (Cons y zs)
    then show ?thesis using p(2) that by (cases zs) auto
  qed
  have "\<exists>r. list_for_each_entry_safe_from lh head body (hd (xs @ [head])) n s = Some r \<and>
    (case r of Inl s' \<Rightarrow> I [] s' | Inr v \<Rightarrow> Q v)"
    by (rule list_for_each_entry_safe_from_rule [of I]) (use assms(1) step p d n in auto)
  then show ?thesis using n p by (simp add: list_for_each_entry_safe_def)
qed

lemma list_for_each_entry_safe_reverse_from_rule:
  assumes "I xs s" and "prev_path (lh s) (head # rev xs)" and "head \<notin> set xs" and "head \<in> dom (lh s)"
    and step: "\<And>x ys s. \<lbrakk>I (x # ys) s; prev_path (lh s) (head # rev ys @ [x])\<rbrakk> \<Longrightarrow>
      \<exists>r. body x s = Some r \<and>
        (case r of Inl s' \<Rightarrow> I ys s' \<and> prev_path (lh s') (head # rev ys) \<and> head \<in> dom (lh s') | Inr v \<Rightarrow> Q v)"
    and n: "xs \<noteq> [] \<Longrightarrow> n = hd (tl xs @ [head])"
  shows "\<exists>r. list_for_each_entry_safe_reverse_from lh head body (hd (xs @ [head])) n s = Some r \<and>
    (case r of Inl s' \<Rightarrow> I [] s' | Inr v \<Rightarrow> Q v)"
  using assms(1-4) n
proof (induction xs arbitrary: s n)
  case Nil
  then show ?case by (simp add: list_for_each_entry_safe_reverse_from.simps)
next
  case (Cons x ys)
  then obtain r where r: "body x s = Some r"
    "case r of Inl s' \<Rightarrow> I ys s' \<and> prev_path (lh s') (head # rev ys) \<and> head \<in> dom (lh s') | Inr v \<Rightarrow> Q v"
    using step [of x ys s] by auto
  show ?case
  proof (cases r)
    case (Inl s')
    with r have s': "I ys s'" "prev_path (lh s') (head # rev ys)" "head \<in> dom (lh s')" by auto
    have n: "n = hd (ys @ [head])" using Cons.prems(5) by simp
    obtain n' where n': "prev_of (lh s') n = Some n'" "ys \<noteq> [] \<Longrightarrow> n' = hd (tl ys @ [head])"
    proof (cases ys)
      case Nil
      then show ?thesis using s'(3) n that by (auto simp: prev_of_def)
    next
      case (Cons y zs)
      then show ?thesis using s'(2) n that
        by (cases zs) (auto simp: prev_path_append [of _ "head # rev _" _ "[_]", simplified])
    qed
    have "\<exists>r. list_for_each_entry_safe_reverse_from lh head body (hd (ys @ [head])) n' s' = Some r \<and>
      (case r of Inl s' \<Rightarrow> I [] s' | Inr v \<Rightarrow> Q v)"
      using Cons.IH [of s' n'] s' n' Cons.prems(3) by auto
    then show ?thesis using Cons.prems(3) r(1) Inl n n'(1)
      by (subst list_for_each_entry_safe_reverse_from.simps) auto
  next
    case (Inr v)
    then show ?thesis using Cons r by (subst list_for_each_entry_safe_reverse_from.simps) auto
  qed
qed

lemma list_for_each_entry_safe_reverse_rule:
  assumes "I (rev xs) s" and l: "is_list (lh s) head xs"
    and step: "\<And>x ys s. \<lbrakk>I (x # ys) s; prev_path (lh s) (head # rev ys @ [x])\<rbrakk> \<Longrightarrow>
      \<exists>r. body x s = Some r \<and>
        (case r of Inl s' \<Rightarrow> I ys s' \<and> prev_path (lh s') (head # rev ys) \<and> head \<in> dom (lh s') | Inr v \<Rightarrow> Q v)"
  shows "\<exists>r. list_for_each_entry_safe_reverse lh head body s = Some r \<and>
    (case r of Inl s' \<Rightarrow> I [] s' | Inr v \<Rightarrow> Q v)"
proof -
  have d: "head \<in> dom (lh s)" using is_list_dom [OF l] by simp
  have p: "prev_of (lh s) head = Some (hd (rev xs @ [head]))" "prev_path (lh s) (head # xs)" "head \<notin> set xs"
    using l prev_path_append [of "lh s" "head # butlast xs" "last xs" "[head]"]
    by (cases xs rule: rev_cases; simp add: is_list_def)+
  obtain n where n: "prev_of (lh s) (hd (rev xs @ [head])) = Some n" "rev xs \<noteq> [] \<Longrightarrow> n = hd (tl (rev xs) @ [head])"
  proof (cases xs rule: rev_cases)
    case Nil
    then show ?thesis using p that by auto
  next
    case (snoc zs y)
    then show ?thesis using p(2) that
      by (cases zs rule: rev_cases) (auto simp: prev_path_append [of _ "head # _" _ "[_]", simplified])
  qed
  have "\<exists>r. list_for_each_entry_safe_reverse_from lh head body (hd (rev xs @ [head])) n s = Some r \<and>
    (case r of Inl s' \<Rightarrow> I [] s' | Inr v \<Rightarrow> Q v)"
    by (rule list_for_each_entry_safe_reverse_from_rule [of I]) (use assms(1) step p d n in auto)
  then show ?thesis using n p by (simp add: list_for_each_entry_safe_reverse_def)
qed

section \<open>Properties\<close>

text \<open>A list with the head 16 and the entries 32 and 48, and an entry 64 that is in no list.\<close>

definition example_list :: lheap where
  "example_list = [16 \<mapsto> \<lparr>lh_next = 32, lh_prev = 48\<rparr>, 32 \<mapsto> \<lparr>lh_next = 48, lh_prev = 16\<rparr>,
     48 \<mapsto> \<lparr>lh_next = 16, lh_prev = 32\<rparr>, 64 \<mapsto> \<lparr>lh_next = 0, lh_prev = 0\<rparr>]"

lemma example_list_is_list: "is_list example_list 16 [32, 48]" "64 \<in> dom example_list"
  by (simp_all add: is_list_def example_list_def next_of_def prev_of_def)

text \<open>\<open>list_add\<close> after any position of a well-formed list (the head or an entry) returns,
  puts the new entry exactly there, keeps both directions of links consistent and writes no
  other entry.\<close>

theorem list_add_inserts_after:
  assumes "is_list h head (ys @ zs)" and "new \<in> dom h" and "new \<notin> set (head # ys @ zs)"
  shows "\<exists>h'. list_add new (last (head # ys)) h = Some h' \<and> is_list h' head (ys @ new # zs) \<and>
    (\<forall>q. q \<notin> set (new # head # ys @ zs) \<longrightarrow> h' q = h q)"
  using list_add_spec [OF assms] by blast

theorem list_add_inserts_after_witness:
  "\<exists>h'. list_add 64 32 example_list = Some h' \<and> is_list h' 16 ([32] @ 64 # [48]) \<and>
     (\<forall>q. q \<notin> set ((64 :: addr) # 16 # [32] @ [48]) \<longrightarrow> h' q = example_list q)"
  using list_add_inserts_after [of example_list 16 "[32]" "[48]" 64] example_list_is_list by simp

text \<open>Taking an entry out of a well-formed list with \<open>__list_del_entry\<close>, which leaves the links
  in the entry alone, and adding it again behind its former predecessor gives back the store it
  started from, links of every entry included.\<close>

theorem list_del_entry_undone_by_list_add:
  assumes "is_list h head (ys @ e # zs)"
  shows "\<exists>h' p. raw_list_del_entry e h = Some h' \<and> is_list h' head (ys @ zs) \<and>
    prev_of h' e = Some p \<and> list_add e p h' = Some h"
  using raw_list_del_entry_spec [OF assms] by (auto simp: prev_of_def)

theorem list_del_entry_undone_by_list_add_witness:
  "\<exists>h' p. raw_list_del_entry 32 example_list = Some h' \<and> is_list h' 16 ([] @ [48]) \<and>
    prev_of h' 32 = Some p \<and> list_add 32 p h' = Some example_list"
  using list_del_entry_undone_by_list_add [of example_list 16 "[]" 32 "[48]"] example_list_is_list by simp

text \<open>\<open>list_del\<close> of an entry of a well-formed list returns, leaves the list of the other
  entries in their order, and poisons the links of the entry.\<close>

theorem list_del_removes_and_poisons:
  assumes "is_list h head (ys @ e # zs)"
  shows "\<exists>h'. list_del e h = Some h' \<and> is_list h' head (ys @ zs) \<and>
     next_of h' e = Some LIST_POISON1 \<and> prev_of h' e = Some LIST_POISON2 \<and>
     (\<forall>q. q \<notin> set (e # head # ys @ zs) \<longrightarrow> h' q = h q)"
  using list_del_spec [OF assms] by blast

theorem list_del_removes_and_poisons_witness:
  "\<exists>h'. list_del 48 example_list = Some h' \<and> is_list h' 16 ([32] @ []) \<and>
     next_of h' 48 = Some LIST_POISON1 \<and> prev_of h' 48 = Some LIST_POISON2 \<and>
     (\<forall>q. q \<notin> set ((48 :: addr) # 16 # [32] @ []) \<longrightarrow> h' q = example_list q)"
  using list_del_removes_and_poisons [of example_list 16 "[32]" 48 "[]"] example_list_is_list by simp

end
