(* ===== verification/Rbtree.thy ===== *)
theory Rbtree
  imports Prelude
begin

text \<open>
  linux/rbtree.h, linux/rbtree_augmented.h and rbtree.c: red-black trees of nodes that carry
  their parent pointer and colour in one word.

  A \<open>struct rb_node\<close> is embedded in the object it links; each embedded member has a store of
  its own, indexed by the address of the object around it (so \<open>rb_entry\<close> is the identity).
  \<open>struct rb_root\<close> with the nodes of its tree is the record \<open>rb_tree\<close>, and
  \<open>struct rb_root_cached\<close> extends it with the leftmost pointer. What an augmented tree stores
  besides (the interval tree's subtree maxima) extends the record further; the augmentation
  callbacks act on the extended record. \<open>WRITE_ONCE\<close> is a plain store (linux/kernel.h).
\<close>

section \<open>Nodes, roots, colours\<close>

record rb_node =
  rb_parent_color :: u64
  rb_right :: addr
  rb_left :: addr

record rb_tree =
  rb_mem :: "rb_node store"
  rb_root :: addr

record rb_root_cached = rb_tree +
  rb_leftmost :: addr

abbreviation RB_RED :: u64 where
  "RB_RED \<equiv> 0"

abbreviation RB_BLACK :: u64 where
  "RB_BLACK \<equiv> 1"

definition rb_parent :: "rb_node \<Rightarrow> addr" where
  "rb_parent n = rb_parent_color n AND NOT 3"

definition rb_red_parent :: "rb_node \<Rightarrow> addr" where
  "rb_red_parent n = rb_parent_color n"

definition rb_color :: "rb_node \<Rightarrow> u64" where
  "rb_color n = rb_parent_color n AND 1"

definition rb_is_red :: "rb_node \<Rightarrow> bool" where
  "rb_is_red n \<longleftrightarrow> rb_color n = 0"

definition rb_is_black :: "rb_node \<Rightarrow> bool" where
  "rb_is_black n \<longleftrightarrow> rb_color n \<noteq> 0"

section \<open>Stores into a node\<close>

definition rb_store :: "addr \<Rightarrow> (rb_node \<Rightarrow> rb_node) \<Rightarrow> 'm rb_tree_scheme \<Rightarrow> 'm rb_tree_scheme option" where
  "rb_store p f s = do {
     n \<leftarrow> rb_mem s p;
     Some (s\<lparr>rb_mem := (rb_mem s)(p \<mapsto> f n)\<rparr>)
   }"

definition rb_set_left :: "addr \<Rightarrow> addr \<Rightarrow> 'm rb_tree_scheme \<Rightarrow> 'm rb_tree_scheme option" where
  "rb_set_left p v = rb_store p (rb_left_update (\<lambda>_. v))"

definition rb_set_right :: "addr \<Rightarrow> addr \<Rightarrow> 'm rb_tree_scheme \<Rightarrow> 'm rb_tree_scheme option" where
  "rb_set_right p v = rb_store p (rb_right_update (\<lambda>_. v))"

definition rb_set_pc :: "addr \<Rightarrow> u64 \<Rightarrow> 'm rb_tree_scheme \<Rightarrow> 'm rb_tree_scheme option" where
  "rb_set_pc p v = rb_store p (rb_parent_color_update (\<lambda>_. v))"

definition rb_set_black :: "addr \<Rightarrow> 'm rb_tree_scheme \<Rightarrow> 'm rb_tree_scheme option" where
  "rb_set_black rb = rb_store rb (\<lambda>n. n\<lparr>rb_parent_color := rb_parent_color n OR RB_BLACK\<rparr>)"

definition rb_set_parent :: "addr \<Rightarrow> addr \<Rightarrow> 'm rb_tree_scheme \<Rightarrow> 'm rb_tree_scheme option" where
  "rb_set_parent rb p = rb_store rb (\<lambda>n. n\<lparr>rb_parent_color := rb_color n OR p\<rparr>)"

definition rb_set_parent_color ::
  "addr \<Rightarrow> addr \<Rightarrow> u64 \<Rightarrow> 'm rb_tree_scheme \<Rightarrow> 'm rb_tree_scheme option" where
  "rb_set_parent_color rb p color = rb_store rb (\<lambda>n. n\<lparr>rb_parent_color := p OR color\<rparr>)"

text \<open>\<open>__rb_change_child\<close>; its RCU variant stores the same pointers.\<close>

definition rb_change_child ::
  "addr \<Rightarrow> addr \<Rightarrow> addr \<Rightarrow> 'm rb_tree_scheme \<Rightarrow> 'm rb_tree_scheme option" where
  "rb_change_child old new parent s =
     (if parent \<noteq> NULL then do {
        pn \<leftarrow> rb_mem s parent;
        if rb_left pn = old then rb_set_left parent new s
        else rb_set_right parent new s
      } else Some (s\<lparr>rb_root := new\<rparr>))"

text \<open>\<open>__rb_rotate_set_parents\<close>.\<close>

definition rb_rotate_set_parents ::
  "addr \<Rightarrow> addr \<Rightarrow> u64 \<Rightarrow> 'm rb_tree_scheme \<Rightarrow> 'm rb_tree_scheme option" where
  "rb_rotate_set_parents old new color s = do {
     on \<leftarrow> rb_mem s old;
     let parent = rb_parent on;
     s \<leftarrow> rb_set_pc new (rb_parent_color on) s;
     s \<leftarrow> rb_set_parent_color old new color s;
     rb_change_child old new parent s
   }"

section \<open>Linking a new node\<close>

text \<open>The \<open>struct rb_node **link\<close> of an insertion: where the pointer to the new node goes.\<close>

datatype rb_link = Link_root | Link_left addr | Link_right addr

fun read_link :: "rb_link \<Rightarrow> 'm rb_tree_scheme \<Rightarrow> addr option" where
  "read_link Link_root s = Some (rb_root s)"
| "read_link (Link_left p) s = map_option rb_left (rb_mem s p)"
| "read_link (Link_right p) s = map_option rb_right (rb_mem s p)"

fun write_link :: "rb_link \<Rightarrow> addr \<Rightarrow> 'm rb_tree_scheme \<Rightarrow> 'm rb_tree_scheme option" where
  "write_link Link_root v s = Some (s\<lparr>rb_root := v\<rparr>)"
| "write_link (Link_left p) v s = rb_set_left p v s"
| "write_link (Link_right p) v s = rb_set_right p v s"

definition rb_link_node ::
  "addr \<Rightarrow> addr \<Rightarrow> rb_link \<Rightarrow> 'm rb_tree_scheme \<Rightarrow> 'm rb_tree_scheme option" where
  "rb_link_node node parent link s = do {
     s \<leftarrow> rb_set_pc node parent s;
     s \<leftarrow> rb_set_right node NULL s;
     s \<leftarrow> rb_set_left node NULL s;
     write_link link node s
   }"

section \<open>Augmentation callbacks\<close>

record 's rb_augment_callbacks =
  aug_propagate :: "addr \<Rightarrow> addr \<Rightarrow> 's \<Rightarrow> 's option"
  aug_copy :: "addr \<Rightarrow> addr \<Rightarrow> 's \<Rightarrow> 's option"
  aug_rotate :: "addr \<Rightarrow> addr \<Rightarrow> 's \<Rightarrow> 's option"

definition dummy_propagate :: "addr \<Rightarrow> addr \<Rightarrow> 's \<Rightarrow> 's option" where
  "dummy_propagate node stop s = Some s"

definition dummy_copy :: "addr \<Rightarrow> addr \<Rightarrow> 's \<Rightarrow> 's option" where
  "dummy_copy old new s = Some s"

definition dummy_rotate :: "addr \<Rightarrow> addr \<Rightarrow> 's \<Rightarrow> 's option" where
  "dummy_rotate old new s = Some s"

definition dummy_callbacks :: "'s rb_augment_callbacks" where
  "dummy_callbacks =
     \<lparr>aug_propagate = dummy_propagate, aug_copy = dummy_copy, aug_rotate = dummy_rotate\<rparr>"

section \<open>Rebalancing after an insertion: \<open>__rb_insert\<close>\<close>

text \<open>Cases 2 and 3 where the parent is the left child of the grandparent.\<close>

definition rb_insert_rotate_left_side ::
  "(addr \<Rightarrow> addr \<Rightarrow> 'm rb_tree_scheme \<Rightarrow> 'm rb_tree_scheme option) \<Rightarrow>
   addr \<Rightarrow> addr \<Rightarrow> addr \<Rightarrow> 'm rb_tree_scheme \<Rightarrow> 'm rb_tree_scheme option" where
  "rb_insert_rotate_left_side augment_rotate node parent gparent s = do {
     pn \<leftarrow> rb_mem s parent;
     let tmp = rb_right pn;
     (parent, tmp, s) \<leftarrow>
       (if node = tmp then do {
          nn \<leftarrow> rb_mem s node;
          let tmp = rb_left nn;
          s \<leftarrow> rb_set_right parent tmp s;
          s \<leftarrow> rb_set_left node parent s;
          s \<leftarrow> c_when (tmp \<noteq> NULL) (rb_set_parent_color tmp parent RB_BLACK) s;
          s \<leftarrow> rb_set_parent_color parent node RB_RED s;
          s \<leftarrow> augment_rotate parent node s;
          nn \<leftarrow> rb_mem s node;
          Some (node, rb_right nn, s)
        } else Some (parent, tmp, s));
     s \<leftarrow> rb_set_left gparent tmp s;
     s \<leftarrow> rb_set_right parent gparent s;
     s \<leftarrow> c_when (tmp \<noteq> NULL) (rb_set_parent_color tmp gparent RB_BLACK) s;
     s \<leftarrow> rb_rotate_set_parents gparent parent RB_RED s;
     augment_rotate gparent parent s
   }"

text \<open>The mirror image: the parent is the right child.\<close>

definition rb_insert_rotate_right_side ::
  "(addr \<Rightarrow> addr \<Rightarrow> 'm rb_tree_scheme \<Rightarrow> 'm rb_tree_scheme option) \<Rightarrow>
   addr \<Rightarrow> addr \<Rightarrow> addr \<Rightarrow> 'm rb_tree_scheme \<Rightarrow> 'm rb_tree_scheme option" where
  "rb_insert_rotate_right_side augment_rotate node parent gparent s = do {
     pn \<leftarrow> rb_mem s parent;
     let tmp = rb_left pn;
     (parent, tmp, s) \<leftarrow>
       (if node = tmp then do {
          nn \<leftarrow> rb_mem s node;
          let tmp = rb_right nn;
          s \<leftarrow> rb_set_left parent tmp s;
          s \<leftarrow> rb_set_right node parent s;
          s \<leftarrow> c_when (tmp \<noteq> NULL) (rb_set_parent_color tmp parent RB_BLACK) s;
          s \<leftarrow> rb_set_parent_color parent node RB_RED s;
          s \<leftarrow> augment_rotate parent node s;
          nn \<leftarrow> rb_mem s node;
          Some (node, rb_left nn, s)
        } else Some (parent, tmp, s));
     s \<leftarrow> rb_set_right gparent tmp s;
     s \<leftarrow> rb_set_left parent gparent s;
     s \<leftarrow> c_when (tmp \<noteq> NULL) (rb_set_parent_color tmp gparent RB_BLACK) s;
     s \<leftarrow> rb_rotate_set_parents gparent parent RB_RED s;
     augment_rotate gparent parent s
   }"

text \<open>Case 1, the same in both halves of the source: colour flips, then on to the grandparent.\<close>

definition rb_insert_color_flip ::
  "addr \<Rightarrow> addr \<Rightarrow> addr \<Rightarrow> 'm rb_tree_scheme \<Rightarrow> (addr \<times> addr \<times> 'm rb_tree_scheme) option" where
  "rb_insert_color_flip tmp parent gparent s = do {
     s \<leftarrow> rb_set_parent_color tmp gparent RB_BLACK s;
     s \<leftarrow> rb_set_parent_color parent gparent RB_BLACK s;
     let node = gparent;
     nn \<leftarrow> rb_mem s node;
     let parent = rb_parent nn;
     s \<leftarrow> rb_set_parent_color node parent RB_RED s;
     Some (node, parent, s)
   }"

definition rb_ptr_is_red :: "addr \<Rightarrow> 'm rb_tree_scheme \<Rightarrow> bool option" where
  "rb_ptr_is_red p s =
     (if p = NULL then Some False else do { n \<leftarrow> rb_mem s p; Some (rb_is_red n) })"

partial_function (option) rb_insert_loop ::
  "(addr \<Rightarrow> addr \<Rightarrow> 'm rb_tree_scheme \<Rightarrow> 'm rb_tree_scheme option) \<Rightarrow>
   addr \<Rightarrow> addr \<Rightarrow> 'm rb_tree_scheme \<Rightarrow> 'm rb_tree_scheme option" where
  "rb_insert_loop augment_rotate node parent s =
     (if parent = NULL then rb_set_parent_color node NULL RB_BLACK s
      else do {
        pn \<leftarrow> rb_mem s parent;
        if rb_is_black pn then Some s
        else do {
          let gparent = rb_red_parent pn;
          gn \<leftarrow> rb_mem s gparent;
          let tmp = rb_right gn;
          if parent \<noteq> tmp then do {
            uncle_red \<leftarrow> rb_ptr_is_red tmp s;
            if uncle_red then do {
              (node, parent, s) \<leftarrow> rb_insert_color_flip tmp parent gparent s;
              rb_insert_loop augment_rotate node parent s
            } else rb_insert_rotate_left_side augment_rotate node parent gparent s
          } else do {
            let tmp = rb_left gn;
            uncle_red \<leftarrow> rb_ptr_is_red tmp s;
            if uncle_red then do {
              (node, parent, s) \<leftarrow> rb_insert_color_flip tmp parent gparent s;
              rb_insert_loop augment_rotate node parent s
            } else rb_insert_rotate_right_side augment_rotate node parent gparent s
          }
        }
      })"

definition raw_rb_insert ::
  "addr \<Rightarrow> (addr \<Rightarrow> addr \<Rightarrow> 'm rb_tree_scheme \<Rightarrow> 'm rb_tree_scheme option) \<Rightarrow>
   'm rb_tree_scheme \<Rightarrow> 'm rb_tree_scheme option" where
  "raw_rb_insert node augment_rotate s = do {
     nn \<leftarrow> rb_mem s node;
     let parent = rb_red_parent nn;
     rb_insert_loop augment_rotate node parent s
   }"

definition rb_insert_color :: "addr \<Rightarrow> 'm rb_tree_scheme \<Rightarrow> 'm rb_tree_scheme option" where
  "rb_insert_color node s = raw_rb_insert node dummy_rotate s"

definition rb_insert_color_cached ::
  "addr \<Rightarrow> bool \<Rightarrow> 'm rb_root_cached_scheme \<Rightarrow> 'm rb_root_cached_scheme option" where
  "rb_insert_color_cached node leftmost s =
     rb_insert_color node (if leftmost then s\<lparr>rb_leftmost := node\<rparr> else s)"

definition rb_insert_augmented ::
  "addr \<Rightarrow> 'm rb_tree_scheme rb_augment_callbacks \<Rightarrow> 'm rb_tree_scheme \<Rightarrow> 'm rb_tree_scheme option" where
  "rb_insert_augmented node augment s = raw_rb_insert node (aug_rotate augment) s"

definition rb_insert_augmented_cached ::
  "addr \<Rightarrow> bool \<Rightarrow> 'm rb_root_cached_scheme rb_augment_callbacks \<Rightarrow>
   'm rb_root_cached_scheme \<Rightarrow> 'm rb_root_cached_scheme option" where
  "rb_insert_augmented_cached node newleft augment s =
     rb_insert_augmented node augment (if newleft then s\<lparr>rb_leftmost := node\<rparr> else s)"

section \<open>Rebalancing after an erasure: \<open>____rb_erase_color\<close>\<close>

text \<open>
  One turn of the loop with the node on the left of its parent. The result is \<open>Inl\<close> with the
  new \<open>node\<close> and \<open>parent\<close> for another turn, or \<open>Inr\<close> when the source breaks out.
\<close>

definition rb_erase_left_side ::
  "(addr \<Rightarrow> addr \<Rightarrow> 'm rb_tree_scheme \<Rightarrow> 'm rb_tree_scheme option) \<Rightarrow> addr \<Rightarrow> addr \<Rightarrow>
   'm rb_tree_scheme \<Rightarrow> ((addr \<times> addr \<times> 'm rb_tree_scheme) + 'm rb_tree_scheme) option" where
  "rb_erase_left_side augment_rotate parent sibling s = do {
     sn \<leftarrow> rb_mem s sibling;
     (sibling, s) \<leftarrow>
       (if rb_is_red sn then do {
          let tmp1 = rb_left sn;
          s \<leftarrow> rb_set_right parent tmp1 s;
          s \<leftarrow> rb_set_left sibling parent s;
          s \<leftarrow> rb_set_parent_color tmp1 parent RB_BLACK s;
          s \<leftarrow> rb_rotate_set_parents parent sibling RB_RED s;
          s \<leftarrow> augment_rotate parent sibling s;
          Some (tmp1, s)
        } else Some (sibling, s));
     sn \<leftarrow> rb_mem s sibling;
     let tmp1 = rb_right sn;
     tmp1_red \<leftarrow> rb_ptr_is_red tmp1 s;
     let tmp2 = rb_left sn;
     tmp2_red \<leftarrow> (if tmp1_red then Some False else rb_ptr_is_red tmp2 s);
     if \<not> tmp1_red \<and> \<not> tmp2_red then do {
       s \<leftarrow> rb_set_parent_color sibling parent RB_RED s;
       pn \<leftarrow> rb_mem s parent;
       if rb_is_red pn then do {
         s \<leftarrow> rb_set_black parent s;
         Some (Inr s)
       } else do {
         let node = parent;
         nn \<leftarrow> rb_mem s node;
         let parent = rb_parent nn;
         if parent \<noteq> NULL then Some (Inl (node, parent, s)) else Some (Inr s)
       }
     } else do {
       (tmp1, sibling, s) \<leftarrow>
         (if \<not> tmp1_red then do {
            tn \<leftarrow> rb_mem s tmp2;
            let tmp1 = rb_right tn;
            s \<leftarrow> rb_set_left sibling tmp1 s;
            s \<leftarrow> rb_set_right tmp2 sibling s;
            s \<leftarrow> rb_set_right parent tmp2 s;
            s \<leftarrow> c_when (tmp1 \<noteq> NULL) (rb_set_parent_color tmp1 sibling RB_BLACK) s;
            s \<leftarrow> augment_rotate sibling tmp2 s;
            Some (sibling, tmp2, s)
          } else Some (tmp1, sibling, s));
       sn \<leftarrow> rb_mem s sibling;
       let tmp2 = rb_left sn;
       s \<leftarrow> rb_set_right parent tmp2 s;
       s \<leftarrow> rb_set_left sibling parent s;
       s \<leftarrow> rb_set_parent_color tmp1 sibling RB_BLACK s;
       s \<leftarrow> c_when (tmp2 \<noteq> NULL) (rb_set_parent tmp2 parent) s;
       s \<leftarrow> rb_rotate_set_parents parent sibling RB_BLACK s;
       s \<leftarrow> augment_rotate parent sibling s;
       Some (Inr s)
     }
   }"

text \<open>The mirror image: the node is the right child.\<close>

definition rb_erase_right_side ::
  "(addr \<Rightarrow> addr \<Rightarrow> 'm rb_tree_scheme \<Rightarrow> 'm rb_tree_scheme option) \<Rightarrow> addr \<Rightarrow> addr \<Rightarrow>
   'm rb_tree_scheme \<Rightarrow> ((addr \<times> addr \<times> 'm rb_tree_scheme) + 'm rb_tree_scheme) option" where
  "rb_erase_right_side augment_rotate parent sibling s = do {
     sn \<leftarrow> rb_mem s sibling;
     (sibling, s) \<leftarrow>
       (if rb_is_red sn then do {
          let tmp1 = rb_right sn;
          s \<leftarrow> rb_set_left parent tmp1 s;
          s \<leftarrow> rb_set_right sibling parent s;
          s \<leftarrow> rb_set_parent_color tmp1 parent RB_BLACK s;
          s \<leftarrow> rb_rotate_set_parents parent sibling RB_RED s;
          s \<leftarrow> augment_rotate parent sibling s;
          Some (tmp1, s)
        } else Some (sibling, s));
     sn \<leftarrow> rb_mem s sibling;
     let tmp1 = rb_left sn;
     tmp1_red \<leftarrow> rb_ptr_is_red tmp1 s;
     let tmp2 = rb_right sn;
     tmp2_red \<leftarrow> (if tmp1_red then Some False else rb_ptr_is_red tmp2 s);
     if \<not> tmp1_red \<and> \<not> tmp2_red then do {
       s \<leftarrow> rb_set_parent_color sibling parent RB_RED s;
       pn \<leftarrow> rb_mem s parent;
       if rb_is_red pn then do {
         s \<leftarrow> rb_set_black parent s;
         Some (Inr s)
       } else do {
         let node = parent;
         nn \<leftarrow> rb_mem s node;
         let parent = rb_parent nn;
         if parent \<noteq> NULL then Some (Inl (node, parent, s)) else Some (Inr s)
       }
     } else do {
       (tmp1, sibling, s) \<leftarrow>
         (if \<not> tmp1_red then do {
            tn \<leftarrow> rb_mem s tmp2;
            let tmp1 = rb_left tn;
            s \<leftarrow> rb_set_right sibling tmp1 s;
            s \<leftarrow> rb_set_left tmp2 sibling s;
            s \<leftarrow> rb_set_left parent tmp2 s;
            s \<leftarrow> c_when (tmp1 \<noteq> NULL) (rb_set_parent_color tmp1 sibling RB_BLACK) s;
            s \<leftarrow> augment_rotate sibling tmp2 s;
            Some (sibling, tmp2, s)
          } else Some (tmp1, sibling, s));
       sn \<leftarrow> rb_mem s sibling;
       let tmp2 = rb_right sn;
       s \<leftarrow> rb_set_left parent tmp2 s;
       s \<leftarrow> rb_set_right sibling parent s;
       s \<leftarrow> rb_set_parent_color tmp1 sibling RB_BLACK s;
       s \<leftarrow> c_when (tmp2 \<noteq> NULL) (rb_set_parent tmp2 parent) s;
       s \<leftarrow> rb_rotate_set_parents parent sibling RB_BLACK s;
       s \<leftarrow> augment_rotate parent sibling s;
       Some (Inr s)
     }
   }"

partial_function (option) rb_erase_color_loop ::
  "(addr \<Rightarrow> addr \<Rightarrow> 'm rb_tree_scheme \<Rightarrow> 'm rb_tree_scheme option) \<Rightarrow> addr \<Rightarrow> addr \<Rightarrow>
   'm rb_tree_scheme \<Rightarrow> 'm rb_tree_scheme option" where
  "rb_erase_color_loop augment_rotate node parent s = do {
     pn \<leftarrow> rb_mem s parent;
     r \<leftarrow> (if node \<noteq> rb_right pn
          then rb_erase_left_side augment_rotate parent (rb_right pn) s
          else rb_erase_right_side augment_rotate parent (rb_left pn) s);
     case r of
       Inl (node, parent, s) \<Rightarrow> rb_erase_color_loop augment_rotate node parent s
     | Inr s \<Rightarrow> Some s
   }"

text \<open>\<open>rb_erase_color\<close> is \<open>__rb_erase_color\<close> and \<open>____rb_erase_color\<close>.\<close>

definition rb_erase_color ::
  "addr \<Rightarrow> (addr \<Rightarrow> addr \<Rightarrow> 'm rb_tree_scheme \<Rightarrow> 'm rb_tree_scheme option) \<Rightarrow>
   'm rb_tree_scheme \<Rightarrow> 'm rb_tree_scheme option" where
  "rb_erase_color parent augment_rotate s = rb_erase_color_loop augment_rotate NULL parent s"

section \<open>Unlinking a node: \<open>__rb_erase_augmented\<close>\<close>

text \<open>The loop of case 3: down to the leftmost node of the right subtree.\<close>

partial_function (option) rb_successor_loop ::
  "addr \<Rightarrow> addr \<Rightarrow> 'm rb_tree_scheme \<Rightarrow> (addr \<times> addr) option" where
  "rb_successor_loop successor tmp s = do {
     let parent = successor;
     let successor = tmp;
     sn \<leftarrow> rb_mem s successor;
     let tmp = rb_left sn;
     if tmp \<noteq> NULL then rb_successor_loop successor tmp s
     else Some (parent, successor)
   }"

text \<open>
  Cases 2 and 3: the node has two children. The successor is cut out of the right subtree; the
  result is \<open>parent\<close>, \<open>successor\<close> and \<open>child2\<close>.
\<close>

definition rb_erase_cut_successor ::
  "addr \<Rightarrow> addr \<Rightarrow> 'm rb_tree_scheme rb_augment_callbacks \<Rightarrow> 'm rb_tree_scheme \<Rightarrow>
   (addr \<times> addr \<times> addr \<times> 'm rb_tree_scheme) option" where
  "rb_erase_cut_successor node child augment s = do {
     let successor = child;
     cn \<leftarrow> rb_mem s child;
     let tmp = rb_left cn;
     if tmp = NULL then do {
       let parent = successor;
       sn \<leftarrow> rb_mem s successor;
       let child2 = rb_right sn;
       s \<leftarrow> aug_copy augment node successor s;
       Some (parent, successor, child2, s)
     } else do {
       (parent, successor) \<leftarrow> rb_successor_loop successor tmp s;
       sn \<leftarrow> rb_mem s successor;
       let child2 = rb_right sn;
       s \<leftarrow> rb_set_left parent child2 s;
       s \<leftarrow> rb_set_right successor child s;
       s \<leftarrow> rb_set_parent child successor s;
       s \<leftarrow> aug_copy augment node successor s;
       s \<leftarrow> aug_propagate augment parent successor s;
       Some (parent, successor, child2, s)
     }
   }"

text \<open>The successor takes the place and the colour of the node; the result is \<open>rebalance\<close>.\<close>

definition rb_erase_place_successor ::
  "addr \<Rightarrow> addr \<Rightarrow> addr \<Rightarrow> addr \<Rightarrow> 'm rb_tree_scheme \<Rightarrow> (addr \<times> 'm rb_tree_scheme) option" where
  "rb_erase_place_successor node parent successor child2 s = do {
     nn \<leftarrow> rb_mem s node;
     let tmp = rb_left nn;
     s \<leftarrow> rb_set_left successor tmp s;
     s \<leftarrow> rb_set_parent tmp successor s;
     let pc = rb_parent_color nn;
     let tmp = rb_parent nn;
     s \<leftarrow> rb_change_child node successor tmp s;
     if child2 \<noteq> NULL then do {
       s \<leftarrow> rb_set_pc successor pc s;
       s \<leftarrow> rb_set_parent_color child2 parent RB_BLACK s;
       Some (NULL, s)
     } else do {
       sn \<leftarrow> rb_mem s successor;
       s \<leftarrow> rb_set_pc successor pc s;
       Some (if rb_is_black sn then parent else NULL, s)
     }
   }"

definition raw_rb_erase_augmented ::
  "addr \<Rightarrow> 'm rb_tree_scheme rb_augment_callbacks \<Rightarrow> 'm rb_tree_scheme \<Rightarrow>
   (addr \<times> 'm rb_tree_scheme) option" where
  "raw_rb_erase_augmented node augment s = do {
     nn \<leftarrow> rb_mem s node;
     let child = rb_right nn;
     let tmp = rb_left nn;
     (tmp, rebalance, s) \<leftarrow>
       (if tmp = NULL then do {
          let pc = rb_parent_color nn;
          let parent = rb_parent nn;
          s \<leftarrow> rb_change_child node child parent s;
          if child \<noteq> NULL then do {
            s \<leftarrow> rb_set_pc child pc s;
            Some (parent, NULL, s)
          } else Some (parent, if rb_is_black nn then parent else NULL, s)
        } else if child = NULL then do {
          let pc = rb_parent_color nn;
          s \<leftarrow> rb_set_pc tmp pc s;
          let parent = rb_parent nn;
          s \<leftarrow> rb_change_child node tmp parent s;
          Some (parent, NULL, s)
        } else do {
          (parent, successor, child2, s) \<leftarrow> rb_erase_cut_successor node child augment s;
          (rebalance, s) \<leftarrow> rb_erase_place_successor node parent successor child2 s;
          Some (successor, rebalance, s)
        });
     s \<leftarrow> aug_propagate augment tmp NULL s;
     Some (rebalance, s)
   }"

definition rb_erase_augmented ::
  "addr \<Rightarrow> 'm rb_tree_scheme rb_augment_callbacks \<Rightarrow> 'm rb_tree_scheme \<Rightarrow> 'm rb_tree_scheme option" where
  "rb_erase_augmented node augment s = do {
     (rebalance, s) \<leftarrow> raw_rb_erase_augmented node augment s;
     if rebalance \<noteq> NULL then rb_erase_color rebalance (aug_rotate augment) s else Some s
   }"

definition rb_erase :: "addr \<Rightarrow> 'm rb_tree_scheme \<Rightarrow> 'm rb_tree_scheme option" where
  "rb_erase node s = do {
     (rebalance, s) \<leftarrow> raw_rb_erase_augmented node dummy_callbacks s;
     if rebalance \<noteq> NULL then rb_erase_color rebalance dummy_rotate s else Some s
   }"

section \<open>Walking the tree\<close>

partial_function (option) rb_down_left :: "addr \<Rightarrow> 'm rb_tree_scheme \<Rightarrow> addr option" where
  "rb_down_left n s = do {
     nn \<leftarrow> rb_mem s n;
     if rb_left nn \<noteq> NULL then rb_down_left (rb_left nn) s else Some n
   }"

partial_function (option) rb_down_right :: "addr \<Rightarrow> 'm rb_tree_scheme \<Rightarrow> addr option" where
  "rb_down_right n s = do {
     nn \<leftarrow> rb_mem s n;
     if rb_right nn \<noteq> NULL then rb_down_right (rb_right nn) s else Some n
   }"

definition rb_first :: "'m rb_tree_scheme \<Rightarrow> addr option" where
  "rb_first s = (if rb_root s = NULL then Some NULL else rb_down_left (rb_root s) s)"

definition rb_last :: "'m rb_tree_scheme \<Rightarrow> addr option" where
  "rb_last s = (if rb_root s = NULL then Some NULL else rb_down_right (rb_root s) s)"

definition rb_first_cached :: "'m rb_root_cached_scheme \<Rightarrow> addr" where
  "rb_first_cached s = rb_leftmost s"

partial_function (option) rb_up_right :: "addr \<Rightarrow> 'm rb_tree_scheme \<Rightarrow> addr option" where
  "rb_up_right node s = do {
     nn \<leftarrow> rb_mem s node;
     let parent = rb_parent nn;
     if parent = NULL then Some parent
     else do {
       pn \<leftarrow> rb_mem s parent;
       if node = rb_right pn then rb_up_right parent s else Some parent
     }
   }"

partial_function (option) rb_up_left :: "addr \<Rightarrow> 'm rb_tree_scheme \<Rightarrow> addr option" where
  "rb_up_left node s = do {
     nn \<leftarrow> rb_mem s node;
     let parent = rb_parent nn;
     if parent = NULL then Some parent
     else do {
       pn \<leftarrow> rb_mem s parent;
       if node = rb_left pn then rb_up_left parent s else Some parent
     }
   }"

definition RB_EMPTY_NODE :: "addr \<Rightarrow> 'm rb_tree_scheme \<Rightarrow> bool option" where
  "RB_EMPTY_NODE node s = do { nn \<leftarrow> rb_mem s node; Some (rb_parent_color nn = node) }"

definition rb_next :: "addr \<Rightarrow> 'm rb_tree_scheme \<Rightarrow> addr option" where
  "rb_next node s = do {
     empty \<leftarrow> RB_EMPTY_NODE node s;
     if empty then Some NULL
     else do {
       nn \<leftarrow> rb_mem s node;
       if rb_right nn \<noteq> NULL then rb_down_left (rb_right nn) s
       else rb_up_right node s
     }
   }"

definition rb_prev :: "addr \<Rightarrow> 'm rb_tree_scheme \<Rightarrow> addr option" where
  "rb_prev node s = do {
     empty \<leftarrow> RB_EMPTY_NODE node s;
     if empty then Some NULL
     else do {
       nn \<leftarrow> rb_mem s node;
       if rb_left nn \<noteq> NULL then rb_down_right (rb_left nn) s
       else rb_up_left node s
     }
   }"

definition rb_erase_cached :: "addr \<Rightarrow> 'm rb_root_cached_scheme \<Rightarrow> 'm rb_root_cached_scheme option" where
  "rb_erase_cached node s = do {
     s \<leftarrow> (if rb_leftmost s = node
          then do { n \<leftarrow> rb_next node s; Some (s\<lparr>rb_leftmost := n\<rparr>) }
          else Some s);
     rb_erase node s
   }"

definition rb_erase_augmented_cached ::
  "addr \<Rightarrow> 'm rb_root_cached_scheme rb_augment_callbacks \<Rightarrow>
   'm rb_root_cached_scheme \<Rightarrow> 'm rb_root_cached_scheme option" where
  "rb_erase_augmented_cached node augment s = do {
     s \<leftarrow> (if rb_leftmost s = node
          then do { n \<leftarrow> rb_next node s; Some (s\<lparr>rb_leftmost := n\<rparr>) }
          else Some s);
     rb_erase_augmented node augment s
   }"

text \<open>\<open>rb_replace_node\<close>; the RCU variant does the same stores.\<close>

definition rb_replace_node :: "addr \<Rightarrow> addr \<Rightarrow> 'm rb_tree_scheme \<Rightarrow> 'm rb_tree_scheme option" where
  "rb_replace_node victim new s = do {
     vn \<leftarrow> rb_mem s victim;
     let parent = rb_parent vn;
     s \<leftarrow> rb_store new (\<lambda>_. vn) s;
     s \<leftarrow> c_when (rb_left vn \<noteq> NULL) (rb_set_parent (rb_left vn) new) s;
     s \<leftarrow> c_when (rb_right vn \<noteq> NULL) (rb_set_parent (rb_right vn) new) s;
     rb_change_child victim new parent s
   }"

definition rb_replace_node_cached ::
  "addr \<Rightarrow> addr \<Rightarrow> 'm rb_root_cached_scheme \<Rightarrow> 'm rb_root_cached_scheme option" where
  "rb_replace_node_cached victim new s =
     rb_replace_node victim new (if rb_leftmost s = victim then s\<lparr>rb_leftmost := new\<rparr> else s)"

end
