(* ===== verification/Rbtree_Rep.thy ===== *)
theory Rbtree_Rep
  imports Rbtree
begin

text \<open>
  The abstraction of the red-black trees: coloured binary trees of addresses, zippers into
  them, and the predicates that say which tree a store of \<open>rb_node\<close>s represents.
  \<open>rb_rep s t\<close>: the root pointer, every child pointer, every parent pointer and every colour bit
  in \<open>s\<close> are those of \<open>t\<close>. \<open>zip_rep s t k\<close> is the same for the subtree \<open>t\<close> at position \<open>k\<close>,
  the form in which the loops of rbtree.c, which walk up from a node, are verified.
\<close>

section \<open>Coloured trees and zippers\<close>

datatype color = Red | Black

datatype rbt = Leaf | Node color rbt addr rbt

fun rootp :: "rbt \<Rightarrow> addr" where
  "rootp Leaf = NULL"
| "rootp (Node c l a r) = a"

fun inorder :: "rbt \<Rightarrow> addr list" where
  "inorder Leaf = []"
| "inorder (Node c l a r) = inorder l @ a # inorder r"

abbreviation set_rbt :: "rbt \<Rightarrow> addr set" where
  "set_rbt t \<equiv> set (inorder t)"

fun color_of :: "rbt \<Rightarrow> color" where
  "color_of Leaf = Black"
| "color_of (Node c l a r) = c"

fun paint :: "color \<Rightarrow> rbt \<Rightarrow> rbt" where
  "paint c Leaf = Leaf"
| "paint c (Node c' l a r) = Node c l a r"

text \<open>One step of a path from the root: the focus is the left, or the right, child of \<open>a\<close>.\<close>

datatype frame = FL color addr rbt | FR color rbt addr

type_synonym zipper = "frame list"

fun plug :: "rbt \<Rightarrow> zipper \<Rightarrow> rbt" where
  "plug t [] = t"
| "plug t (FL c a r # k) = plug (Node c t a r) k"
| "plug t (FR c l a # k) = plug (Node c l a t) k"

fun zpar :: "zipper \<Rightarrow> addr" where
  "zpar [] = NULL"
| "zpar (FL c a r # k) = a"
| "zpar (FR c l a # k) = a"

fun zleft :: "zipper \<Rightarrow> addr list" where
  "zleft [] = []"
| "zleft (FL c a r # k) = zleft k"
| "zleft (FR c l a # k) = zleft k @ inorder l @ [a]"

fun zright :: "zipper \<Rightarrow> addr list" where
  "zright [] = []"
| "zright (FL c a r # k) = a # inorder r @ zright k"
| "zright (FR c l a # k) = zright k"

abbreviation zset :: "zipper \<Rightarrow> addr set" where
  "zset k \<equiv> set (zleft k) \<union> set (zright k)"

lemma inorder_plug: "inorder (plug t k) = zleft k @ inorder t @ zright k"
  by (induction t k rule: plug.induct) auto

lemma inorder_paint [simp]: "inorder (paint c t) = inorder t"
  by (cases t) auto

lemma rootp_paint [simp]: "rootp (paint c t) = rootp t"
  by (cases t) auto

lemma paint_color_of [simp]: "paint (color_of t) t = t"
  by (cases t) auto

lemma color_of_paint: "color_of (paint c t) = (if t = Leaf then Black else c)"
  by (cases t) auto

lemma plug_append: "plug t (k @ k') = plug (plug t k) k'"
  by (induction t k rule: plug.induct) auto

lemma rootp_mem: "t \<noteq> Leaf \<Longrightarrow> rootp t \<in> set_rbt t"
  by (cases t) auto

section \<open>Pointers with a colour bit\<close>

fun colbit :: "color \<Rightarrow> u64" where
  "colbit Red = RB_RED"
| "colbit Black = RB_BLACK"

definition aligned :: "addr \<Rightarrow> bool" where
  "aligned p \<longleftrightarrow> p AND 3 = 0"

definition valid_ptr :: "addr \<Rightarrow> bool" where
  "valid_ptr p \<longleftrightarrow> p \<noteq> NULL \<and> aligned p"

lemma aligned_NULL [simp]: "aligned NULL"
  by (simp add: aligned_def)

lemma valid_ptr_aligned: "valid_ptr p \<Longrightarrow> aligned p"
  by (simp add: valid_ptr_def)

lemma aligned_bits: "aligned p \<Longrightarrow> \<not> bit p 0 \<and> \<not> bit p 1"
proof -
  assume "aligned p"
  then have "bit (p AND 3) n = bit 0 n" for n by (simp add: aligned_def)
  from this [of 0] this [of 1] show ?thesis by (simp add: bit_simps)
qed

lemma parent_of_or:
  assumes "aligned p" shows "(p OR colbit c) AND NOT 3 = p"
proof (rule bit_eqI)
  fix n assume "possible_bit TYPE(64 word) n"
  then show "bit ((p OR colbit c) AND NOT 3) n = bit p n"
    using aligned_bits [OF assms]
    by (cases c; cases n; cases "n - 1") (auto simp: bit_simps numeral_3_eq_3 bit_numeral_rec)
qed

lemma color_of_or:
  assumes "aligned p" shows "(p OR colbit c) AND 1 = colbit c"
proof (rule bit_eqI)
  fix n assume "possible_bit TYPE(64 word) n"
  then show "bit ((p OR colbit c) AND 1) n = bit (colbit c) n"
    using aligned_bits [OF assms] by (cases c; cases n) (auto simp: bit_simps)
qed

lemma colbit_eq_0 [simp]: "colbit c = 0 \<longleftrightarrow> c = Red"
  by (cases c) simp_all

lemma node_decode [simp]:
  assumes "aligned p"
  shows "rb_parent \<lparr>rb_parent_color = p OR colbit c, rb_right = r, rb_left = l\<rparr> = p"
    "rb_color \<lparr>rb_parent_color = p OR colbit c, rb_right = r, rb_left = l\<rparr> = colbit c"
    "rb_is_red \<lparr>rb_parent_color = p OR colbit c, rb_right = r, rb_left = l\<rparr> \<longleftrightarrow> c = Red"
    "rb_is_black \<lparr>rb_parent_color = p OR colbit c, rb_right = r, rb_left = l\<rparr> \<longleftrightarrow> c \<noteq> Red"
  unfolding rb_parent_def rb_color_def rb_is_red_def rb_is_black_def rb_node.simps
    parent_of_or [OF assms] color_of_or [OF assms]
  by simp_all

lemma node_decode_red [simp]:
  assumes "aligned p"
  shows "rb_parent \<lparr>rb_parent_color = p, rb_right = r, rb_left = l\<rparr> = p"
    "rb_color \<lparr>rb_parent_color = p, rb_right = r, rb_left = l\<rparr> = 0"
    "rb_is_red \<lparr>rb_parent_color = p, rb_right = r, rb_left = l\<rparr>"
    "\<not> rb_is_black \<lparr>rb_parent_color = p, rb_right = r, rb_left = l\<rparr>"
  using node_decode [OF assms, of Red r l] by simp_all

lemma node_decode_black [simp]:
  assumes "aligned p"
  shows "rb_parent \<lparr>rb_parent_color = p OR 1, rb_right = r, rb_left = l\<rparr> = p"
    "rb_color \<lparr>rb_parent_color = p OR 1, rb_right = r, rb_left = l\<rparr> = 1"
    "\<not> rb_is_red \<lparr>rb_parent_color = p OR 1, rb_right = r, rb_left = l\<rparr>"
    "rb_is_black \<lparr>rb_parent_color = p OR 1, rb_right = r, rb_left = l\<rparr>"
  using node_decode [OF assms, of Black r l] by simp_all

lemma colbit_0 [simp]: "p OR colbit Red = p"
  by simp

section \<open>Representation\<close>

fun tree_at :: "rb_node store \<Rightarrow> addr \<Rightarrow> rbt \<Rightarrow> bool" where
  "tree_at m p Leaf \<longleftrightarrow> True"
| "tree_at m p (Node c l a r) \<longleftrightarrow> valid_ptr a \<and>
     m a = Some \<lparr>rb_parent_color = p OR colbit c, rb_right = rootp r, rb_left = rootp l\<rparr> \<and>
     tree_at m a l \<and> tree_at m a r"

text \<open>\<open>q\<close> is the value of the pointer that leads to the focus.\<close>

fun zip_at :: "rb_node store \<Rightarrow> addr \<Rightarrow> addr \<Rightarrow> zipper \<Rightarrow> bool" where
  "zip_at m rt q [] \<longleftrightarrow> rt = q"
| "zip_at m rt q (FL c a r # k) \<longleftrightarrow> valid_ptr a \<and>
     m a = Some \<lparr>rb_parent_color = zpar k OR colbit c, rb_right = rootp r, rb_left = q\<rparr> \<and>
     tree_at m a r \<and> zip_at m rt a k"
| "zip_at m rt q (FR c l a # k) \<longleftrightarrow> valid_ptr a \<and>
     m a = Some \<lparr>rb_parent_color = zpar k OR colbit c, rb_right = q, rb_left = rootp l\<rparr> \<and>
     tree_at m a l \<and> zip_at m rt a k"

definition rb_rep :: "'m rb_tree_scheme \<Rightarrow> rbt \<Rightarrow> bool" where
  "rb_rep s t \<longleftrightarrow> rb_root s = rootp t \<and> tree_at (rb_mem s) NULL t \<and> distinct (inorder t)"

definition zip_rep :: "'m rb_tree_scheme \<Rightarrow> rbt \<Rightarrow> zipper \<Rightarrow> bool" where
  "zip_rep s t k \<longleftrightarrow> tree_at (rb_mem s) (zpar k) t \<and> zip_at (rb_mem s) (rb_root s) (rootp t) k \<and>
     distinct (inorder (plug t k))"

lemma plug_at:
  "tree_at m NULL (plug t k) \<and> rt = rootp (plug t k) \<longleftrightarrow>
     tree_at m (zpar k) t \<and> zip_at m rt (rootp t) k"
  by (induction t k rule: plug.induct) auto

lemma rb_rep_plug: "rb_rep s (plug t k) \<longleftrightarrow> zip_rep s t k"
  using plug_at [of "rb_mem s" t k "rb_root s"] by (auto simp: rb_rep_def zip_rep_def)

lemma zpar_valid: "zip_at m rt q k \<Longrightarrow> aligned (zpar k)"
  by (cases k rule: zpar.cases) (auto simp: valid_ptr_aligned)

lemma zpar_mem: "k \<noteq> [] \<Longrightarrow> zpar k \<in> zset k"
  by (cases k rule: zpar.cases) auto

subsection \<open>Frame rules\<close>

lemma tree_at_cong: "(\<And>a. a \<in> set_rbt t \<Longrightarrow> m' a = m a) \<Longrightarrow> tree_at m' p t = tree_at m p t"
  by (induction t arbitrary: p) auto

lemma zip_at_cong: "(\<And>a. a \<in> zset k \<Longrightarrow> m' a = m a) \<Longrightarrow> zip_at m' rt q k = zip_at m rt q k"
proof (induction m rt q k rule: zip_at.induct)
  case (2 m rt q c a r k)
  then show ?case using tree_at_cong [of r m' m a] by auto
next
  case (3 m rt q c l a k)
  then show ?case using tree_at_cong [of l m' m a] by auto
qed simp

lemma tree_at_upd [simp]: "a \<notin> set_rbt t \<Longrightarrow> tree_at (m(a \<mapsto> n)) p t = tree_at m p t"
  by (rule tree_at_cong) auto

lemma zip_at_upd [simp]: "a \<notin> zset k \<Longrightarrow> zip_at (m(a \<mapsto> n)) rt q k = zip_at m rt q k"
  by (rule zip_at_cong) auto

text \<open>Giving the root of a subtree another parent and colour.\<close>

fun reroot :: "addr \<Rightarrow> color \<Rightarrow> rbt \<Rightarrow> rb_node store \<Rightarrow> rb_node store" where
  "reroot p c Leaf m = m"
| "reroot p c (Node c' l a r) m =
     m(a \<mapsto> \<lparr>rb_parent_color = p OR colbit c, rb_right = rootp r, rb_left = rootp l\<rparr>)"

lemma reroot_other [simp]: "b \<notin> set_rbt t \<Longrightarrow> reroot p c t m b = m b"
  by (cases t) auto

lemma reroot_at [simp]:
  "tree_at m q t \<Longrightarrow> distinct (inorder t) \<Longrightarrow> tree_at (reroot p c t m) p (paint c t)"
  by (cases t) auto

lemma reroot_at_same [simp]:
  "tree_at m q t \<Longrightarrow> distinct (inorder t) \<Longrightarrow> tree_at (reroot p (color_of t) t m) p t"
  using reroot_at [of m q t p "color_of t"] by simp

lemma tree_at_reroot [simp]:
  "set_rbt t \<inter> set_rbt u = {} \<Longrightarrow> tree_at (reroot p c u m) q t = tree_at m q t"
  by (rule tree_at_cong) (metis disjoint_iff reroot_other)

lemma zip_at_reroot [simp]:
  "zset k \<inter> set_rbt u = {} \<Longrightarrow> zip_at (reroot p c u m) rt q k = zip_at m rt q k"
  by (rule zip_at_cong) (metis disjoint_iff reroot_other)

text \<open>Redirecting the pointer that leads to the focus.\<close>

fun zip_upd :: "addr \<Rightarrow> zipper \<Rightarrow> rb_node store \<Rightarrow> rb_node store" where
  "zip_upd q [] m = m"
| "zip_upd q (FL c a r # k) m =
     m(a \<mapsto> \<lparr>rb_parent_color = zpar k OR colbit c, rb_right = rootp r, rb_left = q\<rparr>)"
| "zip_upd q (FR c l a # k) m =
     m(a \<mapsto> \<lparr>rb_parent_color = zpar k OR colbit c, rb_right = q, rb_left = rootp l\<rparr>)"

fun zip_root :: "addr \<Rightarrow> zipper \<Rightarrow> addr \<Rightarrow> addr" where
  "zip_root q [] rt = q"
| "zip_root q (f # k) rt = rt"

lemma zip_upd_other [simp]: "b \<notin> zset k \<Longrightarrow> zip_upd q k m b = m b"
  by (cases k rule: zpar.cases) auto

lemma tree_at_zip_upd [simp]:
  "set_rbt t \<inter> zset k = {} \<Longrightarrow> tree_at (zip_upd q k m) p t = tree_at m p t"
  by (rule tree_at_cong) (metis disjoint_iff zip_upd_other)

lemma zip_at_zip_upd [simp]:
  assumes "zip_at m rt q' k" and "distinct (zleft k @ zright k)"
  shows "zip_at (zip_upd q k m) (zip_root q k rt) q k"
  using assms by (cases k rule: zpar.cases) auto

subsection \<open>The C primitives on represented trees\<close>

lemma rb_store_eq [simp]:
  "rb_mem s p = Some n \<Longrightarrow> rb_store p f s = Some (s\<lparr>rb_mem := (rb_mem s)(p \<mapsto> f n)\<rparr>)"
  by (simp add: rb_store_def)

lemma rb_set_eq [simp]:
  assumes "rb_mem s p = Some n"
  shows "rb_set_left p v s = Some (s\<lparr>rb_mem := (rb_mem s)(p \<mapsto> n\<lparr>rb_left := v\<rparr>)\<rparr>)"
    "rb_set_right p v s = Some (s\<lparr>rb_mem := (rb_mem s)(p \<mapsto> n\<lparr>rb_right := v\<rparr>)\<rparr>)"
    "rb_set_pc p x s = Some (s\<lparr>rb_mem := (rb_mem s)(p \<mapsto> n\<lparr>rb_parent_color := x\<rparr>)\<rparr>)"
    "rb_set_parent_color p q x s = Some (s\<lparr>rb_mem := (rb_mem s)(p \<mapsto> n\<lparr>rb_parent_color := q OR x\<rparr>)\<rparr>)"
    "rb_set_parent p q s = Some (s\<lparr>rb_mem := (rb_mem s)(p \<mapsto> n\<lparr>rb_parent_color := rb_color n OR q\<rparr>)\<rparr>)"
    "rb_set_black p s = Some (s\<lparr>rb_mem := (rb_mem s)(p \<mapsto> n\<lparr>rb_parent_color := rb_parent_color n OR RB_BLACK\<rparr>)\<rparr>)"
  using assms
  by (simp_all add: rb_set_left_def rb_set_right_def rb_set_pc_def rb_set_parent_color_def rb_set_parent_def rb_set_black_def)

lemma rb_set_parent_color_tree:
  assumes "tree_at (rb_mem s) q t"
  shows "c_when (rootp t \<noteq> NULL) (rb_set_parent_color (rootp t) p RB_BLACK) s =
    Some (s\<lparr>rb_mem := reroot p Black t (rb_mem s)\<rparr>)"
  using assms by (cases t) (auto simp: c_when_def rb_set_parent_color_def valid_ptr_def)

lemma rb_set_parent_tree:
  assumes "tree_at (rb_mem s) q t" and "aligned q"
  shows "c_when (rootp t \<noteq> NULL) (rb_set_parent (rootp t) p) s =
    Some (s\<lparr>rb_mem := reroot p (color_of t) t (rb_mem s)\<rparr>)"
  using assms by (cases t) (auto simp: c_when_def rb_set_parent_def valid_ptr_def or.commute)

lemma rb_change_child_zip:
  assumes "zip_at (rb_mem s) (rb_root s) old k" and "distinct (zleft k @ zright k)"
    and "old \<noteq> NULL" and "old \<notin> zset k"
  shows "rb_change_child old new (zpar k) s =
    Some (s\<lparr>rb_mem := zip_upd new k (rb_mem s), rb_root := zip_root new k (rb_root s)\<rparr>)"
proof (cases k rule: zpar.cases)
  case (3 c l a k')
  have "rootp l \<noteq> old" using assms(3,4) 3 rootp_mem [of l] by (cases l) auto
  then show ?thesis using assms 3
    by (auto simp: rb_change_child_def rb_set_right_def valid_ptr_def)
qed (use assms in \<open>auto simp: rb_change_child_def rb_set_left_def valid_ptr_def\<close>)

lemma rb_ptr_is_red_tree:
  assumes "tree_at (rb_mem s) q t" and "aligned q"
  shows "rb_ptr_is_red (rootp t) s = Some (color_of t = Red)"
  using assms by (cases t) (auto simp: rb_ptr_is_red_def valid_ptr_def)

section \<open>Augmented trees\<close>

text \<open>
  An augmented tree stores at every node a value computed from the node and from the values of
  its two subtrees: \<open>comb a x y\<close>, with \<open>x\<close> and \<open>y\<close> the values of the left and the right
  subtree, \<open>None\<close> for an empty one. \<open>good\<close> holds of the nodes the computation is defined for.
\<close>

fun aug_of :: "(addr \<Rightarrow> 'v option \<Rightarrow> 'v option \<Rightarrow> 'v) \<Rightarrow> rbt \<Rightarrow> 'v option" where
  "aug_of comb Leaf = None"
| "aug_of comb (Node c l a r) = Some (comb a (aug_of comb l) (aug_of comb r))"

fun aug_ok :: "(addr \<Rightarrow> 'v option \<Rightarrow> 'v option \<Rightarrow> 'v) \<Rightarrow> (addr \<Rightarrow> bool) \<Rightarrow> (addr \<Rightarrow> 'v option) \<Rightarrow> rbt \<Rightarrow> bool"
where
  "aug_ok comb good v Leaf \<longleftrightarrow> True"
| "aug_ok comb good v (Node c l a r) \<longleftrightarrow> good a \<and> v a = aug_of comb (Node c l a r) \<and>
     aug_ok comb good v l \<and> aug_ok comb good v r"

text \<open>The values along a path, given the value \<open>x\<close> of the focus.\<close>

fun zaug_ok ::
  "(addr \<Rightarrow> 'v option \<Rightarrow> 'v option \<Rightarrow> 'v) \<Rightarrow> (addr \<Rightarrow> bool) \<Rightarrow> (addr \<Rightarrow> 'v option) \<Rightarrow> 'v option \<Rightarrow> zipper \<Rightarrow> bool"
where
  "zaug_ok comb good v x [] \<longleftrightarrow> True"
| "zaug_ok comb good v x (FL c a r # k) \<longleftrightarrow> good a \<and> v a = Some (comb a x (aug_of comb r)) \<and>
     aug_ok comb good v r \<and> zaug_ok comb good v (Some (comb a x (aug_of comb r))) k"
| "zaug_ok comb good v x (FR c l a # k) \<longleftrightarrow> good a \<and> v a = Some (comb a (aug_of comb l) x) \<and>
     aug_ok comb good v l \<and> zaug_ok comb good v (Some (comb a (aug_of comb l) x)) k"

lemma aug_ok_plug:
  "aug_ok comb good v (plug t k) \<longleftrightarrow> aug_ok comb good v t \<and> zaug_ok comb good v (aug_of comb t) k"
  by (induction t k rule: plug.induct) auto

lemma aug_of_paint [simp]: "aug_of comb (paint c t) = aug_of comb t"
  by (cases t) auto

lemma aug_ok_paint [simp]: "aug_ok comb good v (paint c t) = aug_ok comb good v t"
  by (cases t) auto

lemma aug_ok_cong: "(\<And>a. a \<in> set_rbt t \<Longrightarrow> v' a = v a) \<Longrightarrow> aug_ok comb good v' t = aug_ok comb good v t"
  by (induction t) auto

lemma zaug_ok_cong:
  "(\<And>a. a \<in> zset k \<Longrightarrow> v' a = v a) \<Longrightarrow> zaug_ok comb good v' x k = zaug_ok comb good v x k"
proof (induction comb good v x k rule: zaug_ok.induct)
  case (2 comb good v x c a r k)
  then show ?case using aug_ok_cong [of r v' v comb good] by auto
next
  case (3 comb good v x c l a k)
  then show ?case using aug_ok_cong [of l v' v comb good] by auto
qed simp

lemma aug_ok_upd [simp]: "a \<notin> set_rbt t \<Longrightarrow> aug_ok comb good (v(a := x)) t = aug_ok comb good v t"
  by (rule aug_ok_cong) auto

lemma zaug_ok_upd [simp]: "a \<notin> zset k \<Longrightarrow> zaug_ok comb good (v(a := x)) y k = zaug_ok comb good v y k"
  by (rule zaug_ok_cong) auto

lemma aug_ok_root: "aug_ok comb good v t \<Longrightarrow> t \<noteq> Leaf \<Longrightarrow> v (rootp t) = aug_of comb t"
  by (cases t) auto

text \<open>The value behind a child pointer.\<close>

definition ptr_aug :: "(addr \<Rightarrow> 'v option) \<Rightarrow> addr \<Rightarrow> 'v option" where
  "ptr_aug v p = (if p = NULL then None else v p)"

lemma ptr_aug_tree:
  "tree_at m q t \<Longrightarrow> aug_ok comb good v t \<Longrightarrow> ptr_aug v (rootp t) = aug_of comb t"
  by (cases t) (auto simp: ptr_aug_def valid_ptr_def)

text \<open>
  What rbtree.c asks of the rotation callback: called after the pointers have been rotated, it
  gives \<open>new\<close> the value that \<open>old\<close> had and recomputes \<open>old\<close> from its children. \<open>keep\<close> is
  whatever else of the state the callback leaves alone.
\<close>

locale rb_augment =
  fixes rot :: "addr \<Rightarrow> addr \<Rightarrow> 'm rb_tree_scheme \<Rightarrow> 'm rb_tree_scheme option"
    and val :: "'m rb_tree_scheme \<Rightarrow> addr \<Rightarrow> 'v option"
    and comb :: "addr \<Rightarrow> 'v option \<Rightarrow> 'v option \<Rightarrow> 'v"
    and good :: "addr \<Rightarrow> bool"
    and keep :: "'m rb_tree_scheme \<Rightarrow> 'k"
  assumes val_mem [simp]: "val (s\<lparr>rb_mem := m\<rparr>) = val s"
    and val_root [simp]: "val (s\<lparr>rb_root := p\<rparr>) = val s"
    and keep_mem [simp]: "keep (s\<lparr>rb_mem := m\<rparr>) = keep s"
    and keep_root [simp]: "keep (s\<lparr>rb_root := p\<rparr>) = keep s"
    and rot_law: "\<lbrakk>rb_mem s old = Some n; good old; val s old = Some v; val s new \<noteq> None; new \<noteq> old;
        new \<noteq> rb_left n; new \<noteq> rb_right n;
        rb_left n = NULL \<or> val s (rb_left n) \<noteq> None; rb_right n = NULL \<or> val s (rb_right n) \<noteq> None\<rbrakk> \<Longrightarrow>
      \<exists>s'. rot old new s = Some s' \<and> rb_mem s' = rb_mem s \<and> rb_root s' = rb_root s \<and> keep s' = keep s \<and>
        val s' = (val s)(new := Some v,
          old := Some (comb old (ptr_aug (val s) (rb_left n)) (ptr_aug (val s) (rb_right n))))"
    and comb_rot: "comb p x (Some (comb g y z)) = comb g (Some (comb p x y)) z"
begin

abbreviation aug :: "rbt \<Rightarrow> 'v option" where
  "aug \<equiv> aug_of comb"

abbreviation ok :: "'m rb_tree_scheme \<Rightarrow> rbt \<Rightarrow> bool" where
  "ok s t \<equiv> aug_ok comb good (val s) t"

abbreviation zok :: "'m rb_tree_scheme \<Rightarrow> 'v option \<Rightarrow> zipper \<Rightarrow> bool" where
  "zok s x k \<equiv> zaug_ok comb good (val s) x k"

text \<open>The callback on a node whose children are the represented trees \<open>l\<close> and \<open>r\<close>.\<close>

lemma rot_tree:
  assumes "rb_mem s old = Some \<lparr>rb_parent_color = pc, rb_right = rootp r, rb_left = rootp l\<rparr>"
    and "good old" and v: "val s old = aug (Node c' l' a' r')" and "new \<noteq> old"
    and "new \<notin> set_rbt l" and "new \<notin> set_rbt r" and "new \<noteq> NULL"
    and "tree_at (rb_mem s) q l" and "tree_at (rb_mem s) q' r" and "ok s l" and "ok s r"
    and vn: "val s new \<noteq> None"
  shows "\<exists>s'. rot old new s = Some s' \<and> rb_mem s' = rb_mem s \<and> rb_root s' = rb_root s \<and> keep s' = keep s \<and>
    val s' = (val s)(new := aug (Node c' l' a' r'), old := aug (Node c l old r))"
proof -
  have l: "rootp l = NULL \<or> val s (rootp l) \<noteq> None" using aug_ok_root [OF assms(10)] by (cases l) auto
  have r: "rootp r = NULL \<or> val s (rootp r) \<noteq> None" using aug_ok_root [OF assms(11)] by (cases r) auto
  have n: "new \<noteq> rootp l" "new \<noteq> rootp r"
    using assms(5-7) rootp_mem by (cases l; cases r; auto)+
  show ?thesis
    using rot_law [OF assms(1,2) v [unfolded aug_of.simps] vn assms(4)] l r n
      ptr_aug_tree [OF assms(8,10)] ptr_aug_tree [OF assms(9,11)]
    by simp
qed

end

text \<open>Without augmentation: the dummy callbacks, and nothing stored.\<close>

definition no_val :: "'m rb_tree_scheme \<Rightarrow> addr \<Rightarrow> nat option" where
  "no_val s a = Some 0"

definition no_comb :: "addr \<Rightarrow> nat option \<Rightarrow> nat option \<Rightarrow> nat" where
  "no_comb a x y = 0"

interpretation dummy: rb_augment dummy_rotate no_val no_comb "\<lambda>_. True"
  "rb_tree.more :: 'm rb_tree_scheme \<Rightarrow> 'm"
proof (unfold_locales, goal_cases)
  case (5 s old n v new)
  then show ?case
    by (intro exI [of _ s]) (simp add: dummy_rotate_def fun_eq_iff no_val_def no_comb_def)
qed (simp_all add: fun_eq_iff no_val_def no_comb_def)

lemma dummy_ok [simp]: "dummy.ok s t"
  by (induction t) (simp_all add: no_val_def no_comb_def)

lemmas [rep_simps] = inorder_plug aug_ok_plug

end
