(* ===== verification/Rbtree_Fun.thy ===== *)
theory Rbtree_Fun
  imports Rbtree_Rep
begin

text \<open>
  The rebalancing loops of rbtree.c as functions on zippers, and the red-black invariants.
  \<open>ins_fix\<close> follows \<open>__rb_insert\<close> case by case. The refinement theorems of the following
  theories show that the pointer code computes these functions; here they are shown to keep the
  inorder sequence and to restore properties 1 to 5 of rbtree.c's opening comment.
\<close>

section \<open>The red-black invariants\<close>

fun bheight :: "rbt \<Rightarrow> nat" where
  "bheight Leaf = 0"
| "bheight (Node c l a r) = (if c = Black then Suc (bheight l) else bheight l)"

text \<open>Properties 4 (no red node has a red child) and 5 (equal black heights).\<close>

fun balanced :: "rbt \<Rightarrow> bool" where
  "balanced Leaf \<longleftrightarrow> True"
| "balanced (Node c l a r) \<longleftrightarrow>
     (c = Red \<longrightarrow> color_of l = Black \<and> color_of r = Black) \<and> bheight l = bheight r \<and>
     balanced l \<and> balanced r"

definition is_rbt :: "rbt \<Rightarrow> bool" where
  "is_rbt t \<longleftrightarrow> balanced t \<and> color_of t = Black"

fun zcolor :: "zipper \<Rightarrow> color" where
  "zcolor [] = Black"
| "zcolor (FL c a r # k) = c"
| "zcolor (FR c l a # k) = c"

text \<open>
  \<open>zbal k n\<close>: the tree around the focus is in order, once the focus is filled with a tree of
  black height \<open>n\<close> that does not put two red nodes in a row.
\<close>

fun zbal :: "zipper \<Rightarrow> nat \<Rightarrow> bool" where
  "zbal [] n \<longleftrightarrow> True"
| "zbal (FL c a r # k) n \<longleftrightarrow> balanced r \<and> bheight r = n \<and>
     (c = Red \<longrightarrow> color_of r = Black \<and> zcolor k = Black \<and> k \<noteq> []) \<and>
     zbal k (if c = Black then Suc n else n)"
| "zbal (FR c l a # k) n \<longleftrightarrow> balanced l \<and> bheight l = n \<and>
     (c = Red \<longrightarrow> color_of l = Black \<and> zcolor k = Black \<and> k \<noteq> []) \<and>
     zbal k (if c = Black then Suc n else n)"

lemma not_color [simp]: "c \<noteq> Red \<longleftrightarrow> c = Black" "c \<noteq> Black \<longleftrightarrow> c = Red"
  by (cases c; simp)+

lemma is_rbt_plug:
  "balanced t \<Longrightarrow> zbal k (bheight t) \<Longrightarrow> (color_of t = Red \<longrightarrow> k \<noteq> [] \<and> zcolor k = Black) \<Longrightarrow>
   is_rbt (plug t k)"
proof (induction t k rule: plug.induct)
  case (1 t)
  then show ?case by (cases "color_of t") (auto simp: is_rbt_def)
qed (auto split: if_splits)

text \<open>The other direction: any position of a red-black tree.\<close>

lemma is_rbt_plugD:
  "balanced (plug t k) \<Longrightarrow> color_of (plug t k) = Black \<Longrightarrow> 
   balanced t \<and> zbal k (bheight t) \<and> (color_of t = Red \<longrightarrow> k \<noteq> [] \<and> zcolor k = Black)"
  by (induction t k rule: plug.induct) (auto split: if_splits)

lemma bheight_paint_Black: "color_of t = Red \<Longrightarrow> bheight (paint Black t) = Suc (bheight t)"
  by (cases t) auto

lemma paint_Black_id: "color_of t = Black \<Longrightarrow> paint Black t = t"
  by (cases t) auto

lemma balanced_paint_Black: "balanced t \<Longrightarrow> balanced (paint Black t)"
  by (cases t) auto

section \<open>Insertion\<close>

text \<open>
  The focus is the red node that may have a red parent. Rotations paint the subtrees that the
  source paints black; in a red-black tree these are black already.
\<close>

fun ins_fix :: "rbt \<Rightarrow> zipper \<Rightarrow> rbt" where
  "ins_fix t [] = paint Black t"
| "ins_fix t (FL Black p b # k) = plug t (FL Black p b # k)"
| "ins_fix t (FR Black a p # k) = plug t (FR Black a p # k)"
| "ins_fix t (FL Red p b # FL gc g u # k) =
     (if color_of u = Red then ins_fix (Node Red (Node Black t p b) g (paint Black u)) k
      else plug (Node gc t p (Node Red (paint Black b) g u)) k)"
| "ins_fix t (FR Red a p # FL gc g u # k) =
     (if color_of u = Red then ins_fix (Node Red (Node Black a p t) g (paint Black u)) k
      else case t of
        Node tc l x r \<Rightarrow> plug (Node gc (Node Red a p (paint Black l)) x (Node Red (paint Black r) g u)) k
      | Leaf \<Rightarrow> plug t (FR Red a p # FL gc g u # k))"
| "ins_fix t (FR Red a p # FR gc u g # k) =
     (if color_of u = Red then ins_fix (Node Red (paint Black u) g (Node Black a p t)) k
      else plug (Node gc (Node Red u g (paint Black a)) p t) k)"
| "ins_fix t (FL Red p b # FR gc u g # k) =
     (if color_of u = Red then ins_fix (Node Red (paint Black u) g (Node Black t p b)) k
      else case t of
        Node tc l x r \<Rightarrow> plug (Node gc (Node Red u g (paint Black l)) x (Node Red (paint Black r) p b)) k
      | Leaf \<Rightarrow> plug t (FL Red p b # FR gc u g # k))"
| "ins_fix t [FL Red p b] = plug t [FL Red p b]"
| "ins_fix t [FR Red a p] = plug t [FR Red a p]"

lemma inorder_ins_fix: "inorder (ins_fix t k) = inorder (plug t k)"
  by (induction t k rule: ins_fix.induct) (auto simp: inorder_plug split: rbt.split)

text \<open>
  With a red focus in an otherwise balanced tree, the result is a red-black tree. The parent may
  be red as well, which is the only defect.
\<close>

lemma is_rbt_ins_fix:
  "\<lbrakk>t = Node Red l x r; balanced t; zbal k (bheight t)\<rbrakk> \<Longrightarrow> is_rbt (ins_fix t k)"
proof (induction t k arbitrary: l x r rule: ins_fix.induct)
  case (1 t)
  then show ?case by (simp add: is_rbt_def)
next
  case (4 t p b gc g u k)
  then show ?case
    by (auto simp: paint_Black_id bheight_paint_Black balanced_paint_Black color_of_paint
        intro!: is_rbt_plug "4.IH" split: if_splits)
next
  case (5 t a p gc g u k)
  then show ?case
    by (auto simp: paint_Black_id bheight_paint_Black balanced_paint_Black color_of_paint
        intro!: is_rbt_plug "5.IH" split: if_splits)
next
  case (6 t a p gc u g k)
  then show ?case
    by (auto simp: paint_Black_id bheight_paint_Black balanced_paint_Black color_of_paint
        intro!: is_rbt_plug "6.IH" split: if_splits)
next
  case (7 t p b gc u g k)
  then show ?case
    by (auto simp: paint_Black_id bheight_paint_Black balanced_paint_Black color_of_paint
        intro!: is_rbt_plug "7.IH" split: if_splits)
qed (auto intro!: is_rbt_plug split: if_splits simp del: plug.simps)

end
