(* ===== verification/Rbtree_Insert.thy ===== *)
theory Rbtree_Insert
  imports Rbtree_Fun
begin

text \<open>
  \<open>__rb_insert\<close> of rbtree.c on the pointer level computes \<open>ins_fix\<close>: it never dereferences
  NULL, it terminates, every parent pointer and colour bit ends up where the tree has it, and the
  augmented values are right for the new shape.
\<close>

section \<open>Rotations\<close>

lemma rb_rotate_set_parents_zip:
  assumes "rb_mem s old = Some \<lparr>rb_parent_color = zpar k OR colbit c, rb_right = r, rb_left = l\<rparr>"
    and "rb_mem s new = Some \<lparr>rb_parent_color = pc, rb_right = r', rb_left = l'\<rparr>"
    and "old \<noteq> new" and "old \<noteq> NULL" and z: "zip_at (rb_mem s) (rb_root s) old k"
    and "distinct (zleft k @ zright k)" and "old \<notin> zset k" and "new \<notin> zset k"
  shows "rb_rotate_set_parents old new col s =
    Some (s\<lparr>rb_mem := zip_upd new k ((rb_mem s)
        (new \<mapsto> \<lparr>rb_parent_color = zpar k OR colbit c, rb_right = r', rb_left = l'\<rparr>,
         old \<mapsto> \<lparr>rb_parent_color = new OR col, rb_right = r, rb_left = l\<rparr>)),
      rb_root := zip_root new k (rb_root s)\<rparr>)"
  using assms zpar_valid [OF z]
  by (simp add: rb_rotate_set_parents_def rb_set_pc_def rb_set_parent_color_def rb_change_child_zip)

context rb_augment
begin

lemma insert_case3_left:
  assumes rep: "zip_rep s (Node gc (Node Red t p b) g u) k" and t: "t \<noteq> Leaf"
    and ok: "ok s (plug (Node gc (Node Red t p b) g u) k)"
  shows "\<exists>s'. rb_insert_rotate_left_side rot (rootp t) p g s = Some s' \<and>
    rb_rep s' (plug (Node gc t p (Node Red (paint Black b) g u)) k) \<and>
    ok s' (plug (Node gc t p (Node Red (paint Black b) g u)) k) \<and> keep s' = keep s \<and>
    (\<forall>a. a \<notin> set_rbt (plug (Node gc (Node Red t p b) g u) k) \<longrightarrow> rb_mem s' a = rb_mem s a \<and> val s' a = val s a)"
proof -
  let ?m = "rb_mem s"
  have d: "distinct (zleft k @ inorder t @ p # inorder b @ g # inorder u @ zright k)"
    using rep by (simp add: zip_rep_def inorder_plug)
  have at: "tree_at ?m p t" "tree_at ?m p b" "tree_at ?m g u" "valid_ptr p" "valid_ptr g"
    "?m p = Some \<lparr>rb_parent_color = g OR colbit Red, rb_right = rootp b, rb_left = rootp t\<rparr>"
    "?m g = Some \<lparr>rb_parent_color = zpar k OR colbit gc, rb_right = rootp u, rb_left = p\<rparr>"
    "zip_at ?m (rb_root s) g k"
    using rep by (auto simp: zip_rep_def)
  have ne: "rootp t \<noteq> rootp b" using t rootp_mem [of t] rootp_mem [of b] d at by (cases b; cases t) (auto simp: valid_ptr_def)
  define m6 where "m6 = zip_upd p k ((reroot g Black b (?m
      (g \<mapsto> \<lparr>rb_parent_color = zpar k OR colbit gc, rb_right = rootp u, rb_left = rootp b\<rparr>,
       p \<mapsto> \<lparr>rb_parent_color = g OR colbit Red, rb_right = g, rb_left = rootp t\<rparr>)))
      (p \<mapsto> \<lparr>rb_parent_color = zpar k OR colbit gc, rb_right = g, rb_left = rootp t\<rparr>,
       g \<mapsto> \<lparr>rb_parent_color = p OR colbit Red, rb_right = rootp u, rb_left = rootp b\<rparr>))"
  define s6 where "s6 = s\<lparr>rb_mem := m6, rb_root := zip_root p k (rb_root s)\<rparr>"
  have dj: "zset k \<inter> set_rbt b = {}" "distinct (zleft k @ zright k)" "p \<notin> zset k" "g \<notin> zset k" "p \<noteq> g"
    "p \<notin> set_rbt b" "g \<notin> set_rbt b" "p \<notin> set_rbt t" "p \<notin> set_rbt u" "distinct (inorder b)"
    "g \<notin> set_rbt t" "g \<notin> set_rbt u" "set_rbt t \<inter> zset k = {}" "set_rbt b \<inter> zset k = {}" "set_rbt u \<inter> zset k = {}"
    "set_rbt t \<inter> set_rbt b = {}" "set_rbt u \<inter> set_rbt b = {}"
    using d by auto
  have run: "rb_insert_rotate_left_side rot (rootp t) p g s = rot g p s6"
    using dj at ne zpar_valid [OF at(8)]
    by (simp add: rb_insert_rotate_left_side_def
        rb_set_parent_color_tree [where t = b and q = p] rb_rotate_set_parents_zip [where k = k and c = gc]
        valid_ptr_def m6_def s6_def Let_def)
  have rep6: "rb_rep s6 (plug (Node gc t p (Node Red (paint Black b) g u)) k)"
    using dj at d by (simp add: rb_rep_plug zip_rep_def s6_def m6_def inorder_plug)
  have ok6: "good g" "val s g = aug (Node gc (Node Red t p b) g u)" "ok s u" "ok s b" "val s6 = val s" "keep s6 = keep s"
    using ok by (simp_all add: aug_ok_plug s6_def)
  have at6: "rb_mem s6 g = Some \<lparr>rb_parent_color = p OR colbit Red, rb_right = rootp u, rb_left = rootp (paint Black b)\<rparr>"
    "tree_at (rb_mem s6) g (paint Black b)" "tree_at (rb_mem s6) g u"
    using rep6 by (simp_all add: rb_rep_plug zip_rep_def)
  have "\<exists>s'. rot g p s6 = Some s' \<and> rb_mem s' = rb_mem s6 \<and> rb_root s' = rb_root s6 \<and> keep s' = keep s6 \<and>
    val s' = (val s6)(p := aug (Node gc (Node Red t p b) g u), g := aug (Node Red (paint Black b) g u))"
    by (rule rot_tree [OF at6(1) ok6(1) _ _ _ _ _ at6(2,3)]) (use ok ok6 dj at(4) in \<open>simp_all add: valid_ptr_def aug_ok_plug\<close>)
  then obtain s' where s': "rot g p s6 = Some s'" "rb_mem s' = rb_mem s6" "rb_root s' = rb_root s6" "keep s' = keep s"
    "val s' = (val s)(p := aug (Node gc (Node Red t p b) g u), g := aug (Node Red b g u))"
    using ok6 by auto
  have "rb_rep s' (plug (Node gc t p (Node Red (paint Black b) g u)) k)"
    using rep6 s' by (simp add: rb_rep_def)
  moreover have "ok s' (plug (Node gc t p (Node Red (paint Black b) g u)) k)"
    using ok dj d s'(5) by (auto simp: aug_ok_plug comb_rot)
  moreover have "\<forall>a. a \<notin> set_rbt (plug (Node gc (Node Red t p b) g u) k) \<longrightarrow> rb_mem s' a = rb_mem s a \<and> val s' a = val s a"
    by (auto simp: inorder_plug s' s6_def m6_def)
  ultimately show ?thesis using run s' by auto
qed

lemma insert_case2_left:
  assumes rep: "zip_rep s (Node gc (Node Red a p (Node Red l x r)) g u) k"
    and ok: "ok s (plug (Node gc (Node Red a p (Node Red l x r)) g u) k)"
  shows "\<exists>s'. rb_insert_rotate_left_side rot x p g s = Some s' \<and>
    rb_rep s' (plug (Node gc (Node Red a p (paint Black l)) x (Node Red (paint Black r) g u)) k) \<and>
    ok s' (plug (Node gc (Node Red a p (paint Black l)) x (Node Red (paint Black r) g u)) k) \<and> keep s' = keep s \<and>
    (\<forall>b. b \<notin> set_rbt (plug (Node gc (Node Red a p (Node Red l x r)) g u) k) \<longrightarrow> rb_mem s' b = rb_mem s b \<and> val s' b = val s b)"
proof -
  let ?m = "rb_mem s"
  have d: "distinct (zleft k @ inorder a @ p # inorder l @ x # inorder r @ g # inorder u @ zright k)"
    using rep by (simp add: zip_rep_def inorder_plug)
  have at: "tree_at ?m p a" "tree_at ?m x l" "tree_at ?m x r" "tree_at ?m g u" "valid_ptr p" "valid_ptr g" "valid_ptr x"
    "?m p = Some \<lparr>rb_parent_color = g OR colbit Red, rb_right = x, rb_left = rootp a\<rparr>"
    "?m x = Some \<lparr>rb_parent_color = p OR colbit Red, rb_right = rootp r, rb_left = rootp l\<rparr>"
    "?m g = Some \<lparr>rb_parent_color = zpar k OR colbit gc, rb_right = rootp u, rb_left = p\<rparr>"
    "zip_at ?m (rb_root s) g k"
    using rep by (auto simp: zip_rep_def)
  have dj: "zset k \<inter> set_rbt l = {}" "zset k \<inter> set_rbt r = {}" "set_rbt r \<inter> set_rbt l = {}" "set_rbt a \<inter> set_rbt l = {}"
    "distinct (zleft k @ zright k)" "p \<notin> zset k" "g \<notin> zset k" "x \<notin> zset k" "p \<noteq> g" "p \<noteq> x" "x \<noteq> g"
    "p \<notin> set_rbt l" "p \<notin> set_rbt r" "p \<notin> set_rbt a" "p \<notin> set_rbt u"
    "x \<notin> set_rbt l" "x \<notin> set_rbt r" "x \<notin> set_rbt a" "x \<notin> set_rbt u"
    "g \<notin> set_rbt l" "g \<notin> set_rbt r" "g \<notin> set_rbt a" "g \<notin> set_rbt u"
    "distinct (inorder l)" "distinct (inorder r)"
    "set_rbt a \<inter> zset k = {}" "set_rbt l \<inter> zset k = {}" "set_rbt r \<inter> zset k = {}" "set_rbt u \<inter> zset k = {}"
    "set_rbt a \<inter> set_rbt r = {}" "set_rbt l \<inter> set_rbt r = {}" "set_rbt u \<inter> set_rbt l = {}" "set_rbt u \<inter> set_rbt r = {}"
    using d by (simp_all add: Int_Un_distrib Int_Un_distrib2 Int_commute)
  define m1 where "m1 = (reroot p Black l (?m
      (p \<mapsto> \<lparr>rb_parent_color = g OR colbit Red, rb_right = rootp l, rb_left = rootp a\<rparr>,
       x \<mapsto> \<lparr>rb_parent_color = p OR colbit Red, rb_right = rootp r, rb_left = p\<rparr>)))
      (p \<mapsto> \<lparr>rb_parent_color = x OR colbit Red, rb_right = rootp l, rb_left = rootp a\<rparr>)"
  define s1 where "s1 = s\<lparr>rb_mem := m1\<rparr>"
  have ok1: "good p" "val s p = aug (Node Red a p (Node Red l x r))" "ok s a" "ok s l" "ok s r" "ok s u" "good g"
     "val s g = aug (Node gc (Node Red a p (Node Red l x r)) g u)" "val s1 = val s" "keep s1 = keep s"
    using ok by (simp_all add: aug_ok_plug s1_def)
  have at1: "rb_mem s1 p = Some \<lparr>rb_parent_color = x OR colbit Red, rb_right = rootp (paint Black l), rb_left = rootp a\<rparr>"
    "tree_at (rb_mem s1) p (paint Black l)" "tree_at (rb_mem s1) p a"
    using dj at by (simp_all add: s1_def m1_def)
  have "\<exists>s'. rot p x s1 = Some s' \<and> rb_mem s' = rb_mem s1 \<and> rb_root s' = rb_root s1 \<and> keep s' = keep s1 \<and>
    val s' = (val s1)(x := aug (Node Red a p (Node Red l x r)), p := aug (Node Red a p (paint Black l)))"
    by (rule rot_tree [OF at1(1) ok1(1) _ _ _ _ _ at1(3,2)]) (use ok ok1 dj at(7) in \<open>simp_all add: valid_ptr_def aug_ok_plug\<close>)
  then obtain s2 where s2: "rot p x s1 = Some s2" "rb_mem s2 = m1" "rb_root s2 = rb_root s" "keep s2 = keep s"
    "val s2 = (val s)(x := aug (Node Red a p (Node Red l x r)), p := aug (Node Red a p l))"
    using ok1 by (auto simp: s1_def)
  define m6 where "m6 = zip_upd x k ((reroot g Black r (m1
      (g \<mapsto> \<lparr>rb_parent_color = zpar k OR colbit gc, rb_right = rootp u, rb_left = rootp r\<rparr>,
       x \<mapsto> \<lparr>rb_parent_color = p OR colbit Red, rb_right = g, rb_left = p\<rparr>)))
      (x \<mapsto> \<lparr>rb_parent_color = zpar k OR colbit gc, rb_right = g, rb_left = p\<rparr>,
       g \<mapsto> \<lparr>rb_parent_color = x OR colbit Red, rb_right = rootp u, rb_left = rootp r\<rparr>))"
  define s6 where "s6 = s2\<lparr>rb_mem := m6, rb_root := zip_root x k (rb_root s)\<rparr>"
  have zx: "m1 x = Some \<lparr>rb_parent_color = p OR colbit Red, rb_right = rootp r, rb_left = p\<rparr>"
    "m1 g = ?m g" "tree_at m1 x r" "zip_at m1 (rb_root s) g k"
    using dj at by (simp_all add: m1_def)
  have run1: "rb_insert_rotate_left_side rot x p g s =
     do { s \<leftarrow> rb_set_left g (rootp r) s2; s \<leftarrow> rb_set_right x g s;
          s \<leftarrow> c_when (rootp r \<noteq> NULL) (rb_set_parent_color (rootp r) g RB_BLACK) s;
          s \<leftarrow> rb_rotate_set_parents g x RB_RED s; rot g x s }"
    using dj at s2(1,2) zx(1)
    by (simp add: rb_insert_rotate_left_side_def
        rb_set_parent_color_tree [where t = l and q = x]
        m1_def s1_def Let_def)
  have run2: "\<dots> = rot g x s6"
    using dj at zx s2 zpar_valid [OF at(11)]
    by (simp add: rb_set_parent_color_tree [where t = r and q = x] rb_rotate_set_parents_zip [where k = k and c = gc]
        valid_ptr_def m6_def s6_def)
  have rep6: "rb_rep s6 (plug (Node gc (Node Red a p (paint Black l)) x (Node Red (paint Black r) g u)) k)"
    using dj at d by (simp add: rb_rep_plug zip_rep_def s6_def m6_def m1_def inorder_plug)
  have at6: "rb_mem s6 g = Some \<lparr>rb_parent_color = x OR colbit Red, rb_right = rootp u, rb_left = rootp (paint Black r)\<rparr>"
    "tree_at (rb_mem s6) g (paint Black r)" "tree_at (rb_mem s6) g u"
    using rep6 by (simp_all add: rb_rep_plug zip_rep_def)
  have v: "val s6 = val s2" "keep s6 = keep s2" by (simp_all add: s6_def)
  have "\<exists>s'. rot g x s6 = Some s' \<and> rb_mem s' = rb_mem s6 \<and> rb_root s' = rb_root s6 \<and> keep s' = keep s6 \<and>
    val s' = (val s6)(x := aug (Node gc (Node Red a p (Node Red l x r)) g u), g := aug (Node Red (paint Black r) g u))"
    by (rule rot_tree [OF at6(1) ok1(7) _ _ _ _ _ at6(2,3)]) (use ok ok1 dj at(7) v s2(5) in \<open>simp_all add: valid_ptr_def aug_ok_plug\<close>)
  then obtain s' where s': "rot g x s6 = Some s'" "rb_mem s' = rb_mem s6" "rb_root s' = rb_root s6" "keep s' = keep s"
    "val s' = (val s6)(x := aug (Node gc (Node Red a p (Node Red l x r)) g u), g := aug (Node Red r g u))"
    using v s2 by auto
  have "rb_rep s' (plug (Node gc (Node Red a p (paint Black l)) x (Node Red (paint Black r) g u)) k)"
    using rep6 s' by (simp add: rb_rep_def)
  moreover have "ok s' (plug (Node gc (Node Red a p (paint Black l)) x (Node Red (paint Black r) g u)) k)"
    using ok dj d s'(5) v s2(5) by (auto simp: aug_ok_plug comb_rot)
  moreover have "\<forall>b. b \<notin> set_rbt (plug (Node gc (Node Red a p (Node Red l x r)) g u) k) \<longrightarrow> rb_mem s' b = rb_mem s b \<and> val s' b = val s b"
    by (auto simp: inorder_plug s' v s2(5) s6_def m6_def m1_def)
  ultimately show ?thesis using run1 run2 s' v s2 by auto
qed

lemma insert_case3_right:
  assumes rep: "zip_rep s (Node gc u g (Node Red b p t)) k" and t: "t \<noteq> Leaf"
    and ok: "ok s (plug (Node gc u g (Node Red b p t)) k)"
  shows "\<exists>s'. rb_insert_rotate_right_side rot (rootp t) p g s = Some s' \<and>
    rb_rep s' (plug (Node gc (Node Red u g (paint Black b)) p t) k) \<and>
    ok s' (plug (Node gc (Node Red u g (paint Black b)) p t) k) \<and> keep s' = keep s \<and>
    (\<forall>a. a \<notin> set_rbt (plug (Node gc u g (Node Red b p t)) k) \<longrightarrow> rb_mem s' a = rb_mem s a \<and> val s' a = val s a)"
proof -
  let ?m = "rb_mem s"
  have d: "distinct (zleft k @ inorder u @ g # inorder b @ p # inorder t @ zright k)"
    using rep by (simp add: zip_rep_def inorder_plug)
  have at: "tree_at ?m p t" "tree_at ?m p b" "tree_at ?m g u" "valid_ptr p" "valid_ptr g"
    "?m p = Some \<lparr>rb_parent_color = g OR colbit Red, rb_right = rootp t, rb_left = rootp b\<rparr>"
    "?m g = Some \<lparr>rb_parent_color = zpar k OR colbit gc, rb_right = p, rb_left = rootp u\<rparr>"
    "zip_at ?m (rb_root s) g k"
    using rep by (auto simp: zip_rep_def)
  have ne: "rootp t \<noteq> rootp b" using t rootp_mem [of t] rootp_mem [of b] d at by (cases b; cases t) (auto simp: valid_ptr_def)
  define m6 where "m6 = zip_upd p k ((reroot g Black b (?m
      (g \<mapsto> \<lparr>rb_parent_color = zpar k OR colbit gc, rb_right = rootp b, rb_left = rootp u\<rparr>,
       p \<mapsto> \<lparr>rb_parent_color = g OR colbit Red, rb_right = rootp t, rb_left = g\<rparr>)))
      (p \<mapsto> \<lparr>rb_parent_color = zpar k OR colbit gc, rb_right = rootp t, rb_left = g\<rparr>,
       g \<mapsto> \<lparr>rb_parent_color = p OR colbit Red, rb_right = rootp b, rb_left = rootp u\<rparr>))"
  define s6 where "s6 = s\<lparr>rb_mem := m6, rb_root := zip_root p k (rb_root s)\<rparr>"
  have dj: "zset k \<inter> set_rbt b = {}" "distinct (zleft k @ zright k)" "p \<notin> zset k" "g \<notin> zset k" "p \<noteq> g"
    "p \<notin> set_rbt b" "g \<notin> set_rbt b" "p \<notin> set_rbt t" "p \<notin> set_rbt u" "distinct (inorder b)"
    "g \<notin> set_rbt t" "g \<notin> set_rbt u" "set_rbt t \<inter> zset k = {}" "set_rbt b \<inter> zset k = {}" "set_rbt u \<inter> zset k = {}"
    "set_rbt t \<inter> set_rbt b = {}" "set_rbt u \<inter> set_rbt b = {}"
    using d by auto
  have run: "rb_insert_rotate_right_side rot (rootp t) p g s = rot g p s6"
    using dj at ne zpar_valid [OF at(8)]
    by (simp add: rb_insert_rotate_right_side_def
        rb_set_parent_color_tree [where t = b and q = p] rb_rotate_set_parents_zip [where k = k and c = gc]
        valid_ptr_def m6_def s6_def Let_def)
  have rep6: "rb_rep s6 (plug (Node gc (Node Red u g (paint Black b)) p t) k)"
    using dj at d by (simp add: rb_rep_plug zip_rep_def s6_def m6_def inorder_plug)
  have ok6: "good g" "val s g = aug (Node gc u g (Node Red b p t))" "ok s u" "ok s b" "val s6 = val s" "keep s6 = keep s"
    using ok by (simp_all add: aug_ok_plug s6_def)
  have at6: "rb_mem s6 g = Some \<lparr>rb_parent_color = p OR colbit Red, rb_right = rootp (paint Black b), rb_left = rootp u\<rparr>"
    "tree_at (rb_mem s6) g (paint Black b)" "tree_at (rb_mem s6) g u"
    using rep6 by (simp_all add: rb_rep_plug zip_rep_def)
  have "\<exists>s'. rot g p s6 = Some s' \<and> rb_mem s' = rb_mem s6 \<and> rb_root s' = rb_root s6 \<and> keep s' = keep s6 \<and>
    val s' = (val s6)(p := aug (Node gc u g (Node Red b p t)), g := aug (Node Red u g (paint Black b)))"
    by (rule rot_tree [OF at6(1) ok6(1) _ _ _ _ _ at6(3,2)]) (use ok ok6 dj at(4) in \<open>simp_all add: valid_ptr_def aug_ok_plug\<close>)
  then obtain s' where s': "rot g p s6 = Some s'" "rb_mem s' = rb_mem s6" "rb_root s' = rb_root s6" "keep s' = keep s"
    "val s' = (val s)(p := aug (Node gc u g (Node Red b p t)), g := aug (Node Red u g b))"
    using ok6 by auto
  have "rb_rep s' (plug (Node gc (Node Red u g (paint Black b)) p t) k)"
    using rep6 s' by (simp add: rb_rep_def)
  moreover have "ok s' (plug (Node gc (Node Red u g (paint Black b)) p t) k)"
    using ok dj d s'(5) by (auto simp: aug_ok_plug comb_rot)
  moreover have "\<forall>a. a \<notin> set_rbt (plug (Node gc u g (Node Red b p t)) k) \<longrightarrow> rb_mem s' a = rb_mem s a \<and> val s' a = val s a"
    by (auto simp: inorder_plug s' s6_def m6_def)
  ultimately show ?thesis using run s' by auto
qed

lemma insert_case2_right:
  assumes rep: "zip_rep s (Node gc u g (Node Red (Node Red r x l) p a)) k"
    and ok: "ok s (plug (Node gc u g (Node Red (Node Red r x l) p a)) k)"
  shows "\<exists>s'. rb_insert_rotate_right_side rot x p g s = Some s' \<and>
    rb_rep s' (plug (Node gc (Node Red u g (paint Black r)) x (Node Red (paint Black l) p a)) k) \<and>
    ok s' (plug (Node gc (Node Red u g (paint Black r)) x (Node Red (paint Black l) p a)) k) \<and> keep s' = keep s \<and>
    (\<forall>b. b \<notin> set_rbt (plug (Node gc u g (Node Red (Node Red r x l) p a)) k) \<longrightarrow> rb_mem s' b = rb_mem s b \<and> val s' b = val s b)"
proof -
  let ?m = "rb_mem s"
  have d: "distinct (zleft k @ inorder u @ g # inorder r @ x # inorder l @ p # inorder a @ zright k)"
    using rep by (simp add: zip_rep_def inorder_plug)
  have at: "tree_at ?m p a" "tree_at ?m x l" "tree_at ?m x r" "tree_at ?m g u" "valid_ptr p" "valid_ptr g" "valid_ptr x"
    "?m p = Some \<lparr>rb_parent_color = g OR colbit Red, rb_right = rootp a, rb_left = x\<rparr>"
    "?m x = Some \<lparr>rb_parent_color = p OR colbit Red, rb_right = rootp l, rb_left = rootp r\<rparr>"
    "?m g = Some \<lparr>rb_parent_color = zpar k OR colbit gc, rb_right = p, rb_left = rootp u\<rparr>"
    "zip_at ?m (rb_root s) g k"
    using rep by (auto simp: zip_rep_def)
  have dj: "zset k \<inter> set_rbt l = {}" "zset k \<inter> set_rbt r = {}" "set_rbt r \<inter> set_rbt l = {}" "set_rbt a \<inter> set_rbt l = {}"
    "distinct (zleft k @ zright k)" "p \<notin> zset k" "g \<notin> zset k" "x \<notin> zset k" "g \<noteq> p" "x \<noteq> p" "g \<noteq> x"
    "p \<notin> set_rbt l" "p \<notin> set_rbt r" "p \<notin> set_rbt a" "p \<notin> set_rbt u"
    "x \<notin> set_rbt l" "x \<notin> set_rbt r" "x \<notin> set_rbt a" "x \<notin> set_rbt u"
    "g \<notin> set_rbt l" "g \<notin> set_rbt r" "g \<notin> set_rbt a" "g \<notin> set_rbt u"
    "distinct (inorder l)" "distinct (inorder r)"
    "set_rbt a \<inter> zset k = {}" "set_rbt l \<inter> zset k = {}" "set_rbt r \<inter> zset k = {}" "set_rbt u \<inter> zset k = {}"
    "set_rbt a \<inter> set_rbt r = {}" "set_rbt l \<inter> set_rbt r = {}" "set_rbt u \<inter> set_rbt l = {}" "set_rbt u \<inter> set_rbt r = {}"
    using d by (simp_all add: Int_Un_distrib Int_Un_distrib2 Int_commute)
  define m1 where "m1 = (reroot p Black l (?m
      (p \<mapsto> \<lparr>rb_parent_color = g OR colbit Red, rb_right = rootp a, rb_left = rootp l\<rparr>,
       x \<mapsto> \<lparr>rb_parent_color = p OR colbit Red, rb_right = p, rb_left = rootp r\<rparr>)))
      (p \<mapsto> \<lparr>rb_parent_color = x OR colbit Red, rb_right = rootp a, rb_left = rootp l\<rparr>)"
  define s1 where "s1 = s\<lparr>rb_mem := m1\<rparr>"
  have ok1: "good p" "val s p = aug (Node Red (Node Red r x l) p a)" "ok s a" "ok s l" "ok s r" "ok s u" "good g"
     "val s g = aug (Node gc u g (Node Red (Node Red r x l) p a))" "val s1 = val s" "keep s1 = keep s"
    using ok by (simp_all add: aug_ok_plug s1_def)
  have at1: "rb_mem s1 p = Some \<lparr>rb_parent_color = x OR colbit Red, rb_right = rootp a, rb_left = rootp (paint Black l)\<rparr>"
    "tree_at (rb_mem s1) p (paint Black l)" "tree_at (rb_mem s1) p a"
    using dj at by (simp_all add: s1_def m1_def)
  have "\<exists>s'. rot p x s1 = Some s' \<and> rb_mem s' = rb_mem s1 \<and> rb_root s' = rb_root s1 \<and> keep s' = keep s1 \<and>
    val s' = (val s1)(x := aug (Node Red (Node Red r x l) p a), p := aug (Node Red (paint Black l) p a))"
    by (rule rot_tree [OF at1(1) ok1(1) _ _ _ _ _ at1(2,3)]) (use ok ok1 dj at(7) in \<open>simp_all add: valid_ptr_def aug_ok_plug\<close>)
  then obtain s2 where s2: "rot p x s1 = Some s2" "rb_mem s2 = m1" "rb_root s2 = rb_root s" "keep s2 = keep s"
    "val s2 = (val s)(x := aug (Node Red (Node Red r x l) p a), p := aug (Node Red l p a))"
    using ok1 by (auto simp: s1_def)
  define m6 where "m6 = zip_upd x k ((reroot g Black r (m1
      (g \<mapsto> \<lparr>rb_parent_color = zpar k OR colbit gc, rb_right = rootp r, rb_left = rootp u\<rparr>,
       x \<mapsto> \<lparr>rb_parent_color = p OR colbit Red, rb_right = p, rb_left = g\<rparr>)))
      (x \<mapsto> \<lparr>rb_parent_color = zpar k OR colbit gc, rb_right = p, rb_left = g\<rparr>,
       g \<mapsto> \<lparr>rb_parent_color = x OR colbit Red, rb_right = rootp r, rb_left = rootp u\<rparr>))"
  define s6 where "s6 = s2\<lparr>rb_mem := m6, rb_root := zip_root x k (rb_root s)\<rparr>"
  have zx: "m1 x = Some \<lparr>rb_parent_color = p OR colbit Red, rb_right = p, rb_left = rootp r\<rparr>"
    "m1 g = ?m g" "tree_at m1 x r" "zip_at m1 (rb_root s) g k"
    using dj at by (simp_all add: m1_def)
  have run1: "rb_insert_rotate_right_side rot x p g s =
     do { s \<leftarrow> rb_set_right g (rootp r) s2; s \<leftarrow> rb_set_left x g s;
          s \<leftarrow> c_when (rootp r \<noteq> NULL) (rb_set_parent_color (rootp r) g RB_BLACK) s;
          s \<leftarrow> rb_rotate_set_parents g x RB_RED s; rot g x s }"
    using dj at s2(1,2) zx(1)
    by (simp add: rb_insert_rotate_right_side_def
        rb_set_parent_color_tree [where t = l and q = x]
        m1_def s1_def Let_def)
  have run2: "\<dots> = rot g x s6"
    using dj at zx s2 zpar_valid [OF at(11)]
    by (simp add: rb_set_parent_color_tree [where t = r and q = x] rb_rotate_set_parents_zip [where k = k and c = gc]
        valid_ptr_def m6_def s6_def)
  have rep6: "rb_rep s6 (plug (Node gc (Node Red u g (paint Black r)) x (Node Red (paint Black l) p a)) k)"
    using dj at d by (simp add: rb_rep_plug zip_rep_def s6_def m6_def m1_def inorder_plug)
  have at6: "rb_mem s6 g = Some \<lparr>rb_parent_color = x OR colbit Red, rb_right = rootp (paint Black r), rb_left = rootp u\<rparr>"
    "tree_at (rb_mem s6) g (paint Black r)" "tree_at (rb_mem s6) g u"
    using rep6 by (simp_all add: rb_rep_plug zip_rep_def)
  have v: "val s6 = val s2" "keep s6 = keep s2" by (simp_all add: s6_def)
  have "\<exists>s'. rot g x s6 = Some s' \<and> rb_mem s' = rb_mem s6 \<and> rb_root s' = rb_root s6 \<and> keep s' = keep s6 \<and>
    val s' = (val s6)(x := aug (Node gc u g (Node Red (Node Red r x l) p a)), g := aug (Node Red u g (paint Black r)))"
    by (rule rot_tree [OF at6(1) ok1(7) _ _ _ _ _ at6(3,2)]) (use ok ok1 dj at(7) v s2(5) in \<open>simp_all add: valid_ptr_def aug_ok_plug\<close>)
  then obtain s' where s': "rot g x s6 = Some s'" "rb_mem s' = rb_mem s6" "rb_root s' = rb_root s6" "keep s' = keep s"
    "val s' = (val s6)(x := aug (Node gc u g (Node Red (Node Red r x l) p a)), g := aug (Node Red u g r))"
    using v s2 by auto
  have "rb_rep s' (plug (Node gc (Node Red u g (paint Black r)) x (Node Red (paint Black l) p a)) k)"
    using rep6 s' by (simp add: rb_rep_def)
  moreover have "ok s' (plug (Node gc (Node Red u g (paint Black r)) x (Node Red (paint Black l) p a)) k)"
    using ok dj d s'(5) v s2(5) by (auto simp: aug_ok_plug comb_rot)
  moreover have "\<forall>b. b \<notin> set_rbt (plug (Node gc u g (Node Red (Node Red r x l) p a)) k) \<longrightarrow> rb_mem s' b = rb_mem s b \<and> val s' b = val s b"
    by (auto simp: inorder_plug s' v s2(5) s6_def m6_def m1_def)
  ultimately show ?thesis using run1 run2 s' v s2 by auto
qed

end
section \<open>The loop\<close>

fun zroot_black :: "zipper \<Rightarrow> bool" where
  "zroot_black [] \<longleftrightarrow> True"
| "zroot_black [f] \<longleftrightarrow> zcolor [f] = Black"
| "zroot_black (f # g # k) \<longleftrightarrow> zroot_black (g # k)"

lemma zroot_black_plug: "k \<noteq> [] \<Longrightarrow> color_of (plug t k) = Black \<Longrightarrow> zroot_black k"
proof (induction k arbitrary: t rule: zroot_black.induct)
  case (2 f)
  then show ?case by (cases f) auto
next
  case (3 f g k)
  then show ?case by (cases f) auto
qed simp

lemma zroot_black_Cons [simp]: "zroot_black (f # g # k) \<Longrightarrow> zroot_black k"
  by (cases k) auto

lemma rb_insert_color_flip_eq:
  assumes "rb_mem s p = Some pn" and g: "rb_mem s g = Some \<lparr>rb_parent_color = q OR colbit gc, rb_right = r, rb_left = l\<rparr>"
    and "aligned q" and u: "tree_at (rb_mem s) g u" "u \<noteq> Leaf" and "p \<notin> set_rbt u" and "g \<notin> set_rbt u" and "p \<noteq> g"
  shows "rb_insert_color_flip (rootp u) p g s = Some (g, q, s\<lparr>rb_mem := (reroot g Black u (rb_mem s))
      (p \<mapsto> pn\<lparr>rb_parent_color := g OR RB_BLACK\<rparr>,
       g \<mapsto> \<lparr>rb_parent_color = q OR colbit Red, rb_right = r, rb_left = l\<rparr>)\<rparr>)"
  using assms by (cases u) (auto simp: rb_insert_color_flip_def Let_def)

context rb_augment
begin

lemma insert_case1:
  assumes rep: "rb_rep s (plug t (f # h # k))" and t: "t \<noteq> Leaf"
    and f: "f = FL Red p b \<and> sub = Node Black t p b \<or> f = FR Red b p \<and> sub = Node Black b p t"
    and h: "h = FL gc g u \<and> new = Node Red sub g (paint Black u) \<or>
            h = FR gc u g \<and> new = Node Red (paint Black u) g sub"
    and u: "color_of u = Red" and ok: "ok s (plug t (f # h # k))"
  shows "\<exists>s'. rb_insert_color_flip (rootp u) p g s = Some (g, zpar k, s') \<and>
     rb_rep s' (plug new k) \<and> ok s' (plug new k) \<and> keep s' = keep s \<and>
     set_rbt (plug new k) = set_rbt (plug t (f # h # k)) \<and>
     (\<forall>a. a \<notin> set_rbt (plug t (f # h # k)) \<longrightarrow> rb_mem s' a = rb_mem s a \<and> val s' a = val s a)"
proof -
  have d: "distinct (inorder (plug t (f # h # k)))" using rep by (simp add: rb_rep_def)
  have at: "zip_rep s t (f # h # k)" using rep by (simp add: rb_rep_plug)
  have uL: "u \<noteq> Leaf" using u by auto
  obtain r l where g: "rb_mem s g = Some \<lparr>rb_parent_color = zpar k OR colbit gc, rb_right = r, rb_left = l\<rparr>"
    and rl: "h = FL gc g u \<and> r = rootp u \<and> l = p \<or> h = FR gc u g \<and> r = p \<and> l = rootp u"
    using at f h by (auto simp: zip_rep_def)
  obtain r' l' where p: "rb_mem s p = Some \<lparr>rb_parent_color = g OR colbit Red, rb_right = r', rb_left = l'\<rparr>"
    and rl': "f = FL Red p b \<and> r' = rootp b \<and> l' = rootp t \<or> f = FR Red b p \<and> r' = rootp t \<and> l' = rootp b"
    using at f h by (auto simp: zip_rep_def)
  have z: "zip_at (rb_mem s) (rb_root s) g k" and vp: "valid_ptr p" "valid_ptr g" and tr: "tree_at (rb_mem s) p t"
    "tree_at (rb_mem s) p b" "tree_at (rb_mem s) g u"
    using at f h by (auto simp: zip_rep_def)
  have dj: "zset k \<inter> set_rbt u = {}" "p \<notin> zset k" "g \<notin> zset k" "p \<noteq> g"
    "p \<notin> set_rbt b" "g \<notin> set_rbt b" "p \<notin> set_rbt t" "g \<notin> set_rbt t" "p \<notin> set_rbt u" "g \<notin> set_rbt u" "distinct (inorder u)"
    "set_rbt t \<inter> set_rbt u = {}" "set_rbt b \<inter> set_rbt u = {}"
    using d f h by (auto simp: inorder_plug)
  define s' where "s' = s\<lparr>rb_mem := (reroot g Black u (rb_mem s))
      (p \<mapsto> \<lparr>rb_parent_color = g OR colbit Black, rb_right = r', rb_left = l'\<rparr>,
       g \<mapsto> \<lparr>rb_parent_color = zpar k OR colbit Red, rb_right = r, rb_left = l\<rparr>)\<rparr>"
  have run: "rb_insert_color_flip (rootp u) p g s = Some (g, zpar k, s')"
    using rb_insert_color_flip_eq [OF p g zpar_valid [OF z] tr(3) uL dj(9,10,4)] by (simp add: s'_def)
  have "distinct (inorder (plug new k))" using d f h by (auto simp: inorder_plug)
  then have "rb_rep s' (plug new k)"
    unfolding rb_rep_plug zip_rep_def
    using f h dj tr vp z rl rl' by (auto simp: s'_def)
  moreover have "ok s' (plug new k)"
    using ok f h by (auto simp: aug_ok_plug s'_def)
  moreover have "set_rbt (plug new k) = set_rbt (plug t (f # h # k))"
    using f h by (auto simp: inorder_plug)
  moreover have "\<forall>a. a \<notin> set_rbt (plug t (f # h # k)) \<longrightarrow> rb_mem s' a = rb_mem s a \<and> val s' a = val s a"
    using f h by (auto simp: inorder_plug s'_def)
  ultimately show ?thesis using run by (simp add: s'_def)
qed

end

lemma aligned_and_1 [simp]: "aligned p \<Longrightarrow> p AND 1 = 0"
  using color_of_or [of p Red] by simp

lemma aligned_and_not_3 [simp]: "aligned p \<Longrightarrow> p AND NOT 3 = p"
  using parent_of_or [of p Red] by simp

text \<open>One turn of the loop below a red parent, which is the left or the right child.\<close>

lemma rb_insert_loop_left:
  assumes "zip_rep s t (FL Red p b # FL gc g u # k) \<or> zip_rep s t (FR Red b p # FL gc g u # k)"
  shows "rb_insert_loop rot x p s =
     (if color_of u = Red then Option.bind (rb_insert_color_flip (rootp u) p g s) (\<lambda>(node, parent, s). rb_insert_loop rot node parent s)
      else rb_insert_rotate_left_side rot x p g s)"
proof -
  obtain r l where at: "rb_mem s p = Some \<lparr>rb_parent_color = g, rb_right = r, rb_left = l\<rparr>"
    "rb_mem s g = Some \<lparr>rb_parent_color = zpar k OR colbit gc, rb_right = rootp u, rb_left = p\<rparr>"
    "p \<noteq> NULL" "aligned g" "tree_at (rb_mem s) g u" "p \<notin> set_rbt u"
    using assms by (auto simp: zip_rep_def inorder_plug valid_ptr_def)
  have ne: "p \<noteq> rootp u" using at rootp_mem [of u] by (cases u) auto
  show ?thesis
    using at ne rb_ptr_is_red_tree [OF at(5,4)]
    by (simp add: rb_insert_loop.simps [of rot x p] rb_is_black_def rb_color_def rb_red_parent_def Let_def)
qed

lemma rb_insert_loop_right:
  assumes "zip_rep s t (FL Red p b # FR gc u g # k) \<or> zip_rep s t (FR Red b p # FR gc u g # k)"
  shows "rb_insert_loop rot x p s =
     (if color_of u = Red then Option.bind (rb_insert_color_flip (rootp u) p g s) (\<lambda>(node, parent, s). rb_insert_loop rot node parent s)
      else rb_insert_rotate_right_side rot x p g s)"
proof -
  obtain r l where at: "rb_mem s p = Some \<lparr>rb_parent_color = g, rb_right = r, rb_left = l\<rparr>"
    "rb_mem s g = Some \<lparr>rb_parent_color = zpar k OR colbit gc, rb_right = p, rb_left = rootp u\<rparr>"
    "p \<noteq> NULL" "aligned g" "tree_at (rb_mem s) g u"
    using assms by (auto simp: zip_rep_def valid_ptr_def)
  show ?thesis
    using at rb_ptr_is_red_tree [OF at(5,4)]
    by (simp add: rb_insert_loop.simps [of rot x p] rb_is_black_def rb_color_def rb_red_parent_def Let_def)
qed

lemma rb_insert_loop_black:
  assumes "zip_rep s t (FL Black p b # k) \<or> zip_rep s t (FR Black b p # k)"
  shows "rb_insert_loop rot x p s = Some s"
proof -
  obtain r l where at: "rb_mem s p = Some \<lparr>rb_parent_color = zpar k OR colbit Black, rb_right = r, rb_left = l\<rparr>"
    "p \<noteq> NULL" "zip_at (rb_mem s) (rb_root s) p k"
    using assms by (auto simp: zip_rep_def valid_ptr_def)
  show ?thesis
    using at zpar_valid [OF at(3)] by (simp add: rb_insert_loop.simps [of rot x p] del: colbit.simps)
qed

context rb_augment
begin

text \<open>What a run of the rebalancing code from \<open>s\<close> on the tree \<open>t\<close> to the tree \<open>t'\<close> establishes.\<close>

definition repaired :: "'m rb_tree_scheme \<Rightarrow> rbt \<Rightarrow> 'm rb_tree_scheme option \<Rightarrow> rbt \<Rightarrow> bool" where
  "repaired s t r t' \<longleftrightarrow> (\<exists>s'. r = Some s' \<and> rb_rep s' t' \<and> ok s' t' \<and> keep s' = keep s \<and>
     (\<forall>a. a \<notin> set_rbt t \<longrightarrow> rb_mem s' a = rb_mem s a \<and> val s' a = val s a))"

lemma repaired_loop:
  assumes f: "f = FL Red p b \<and> sub = Node Black t p b \<or> f = FR Red b p \<and> sub = Node Black b p t"
    and h: "h = FL gc g u \<and> new = Node Red sub g (paint Black u) \<or>
            h = FR gc u g \<and> new = Node Red (paint Black u) g sub"
    and rep: "rb_rep s (plug t (f # h # k))" "t \<noteq> Leaf" "color_of u = Red" "ok s (plug t (f # h # k))"
    and IH: "\<And>s. rb_rep s (plug new k) \<Longrightarrow> ok s (plug new k) \<Longrightarrow>
      repaired s (plug new k) (rb_insert_loop rot g (zpar k) s) t'"
  shows "repaired s (plug t (f # h # k)) (Option.bind (rb_insert_color_flip (rootp u) p g s) (\<lambda>(node, parent, s). rb_insert_loop rot node parent s)) t'"
proof -
  obtain s1 where s1: "rb_insert_color_flip (rootp u) p g s = Some (g, zpar k, s1)"
    "rb_rep s1 (plug new k)" "ok s1 (plug new k)" "keep s1 = keep s"
    "set_rbt (plug new k) = set_rbt (plug t (f # h # k))"
    "\<forall>a. a \<notin> set_rbt (plug t (f # h # k)) \<longrightarrow> rb_mem s1 a = rb_mem s a \<and> val s1 a = val s a"
    using insert_case1 [OF rep(1,2) f h rep(3,4)] by blast
  show ?thesis using IH [OF s1(2,3)] s1 by (simp add: repaired_def)
qed

lemma rb_insert_loop_ins_fix:
  assumes "t = Node Red l x r" and "rb_rep s (plug t k)" and "ok s (plug t k)" and "zroot_black k"
  shows "repaired s (plug t k) (rb_insert_loop rot x (zpar k) s) (ins_fix t k)"
  using assms
proof (induction t k arbitrary: l x r s rule: ins_fix.induct)
  case (1 t)
  have "rb_mem s x = Some \<lparr>rb_parent_color = NULL OR colbit Red, rb_right = rootp r, rb_left = rootp l\<rparr>"
    using 1 by (simp add: rb_rep_def)
  with 1 show ?case
    by (simp add: repaired_def rb_insert_loop.simps [of rot x NULL] rb_rep_def)
next
  case (2 t p b k)
  then show ?case
    using rb_insert_loop_black [of s t p b k rot x] by (simp add: repaired_def rb_rep_plug del: plug.simps)
next
  case (3 t a p k)
  then show ?case
    using rb_insert_loop_black [of s t p a k rot x] by (simp add: repaired_def rb_rep_plug del: plug.simps)
next
  case (4 t p b gc g u k)
  have step: "zip_rep s t (FL Red p b # FL gc g u # k)" using "4.prems" by (simp only: rb_rep_plug)
  show ?case
  proof (cases "color_of u = Red")
    case True
    then show ?thesis
      using "4.prems" "4.IH" rb_insert_loop_left [OF disjI1 [OF step]]
      by (simp add: repaired_loop del: plug.simps)
  next
    case False
    then show ?thesis
      using "4.prems" rb_insert_loop_left [OF disjI1 [OF step]] insert_case3_left [of s gc t p b g u k]
      by (simp add: repaired_def rb_rep_plug)
  qed
next
  case (5 t a p gc g u k)
  have step: "zip_rep s t (FR Red a p # FL gc g u # k)" using "5.prems" by (simp only: rb_rep_plug)
  show ?case
  proof (cases "color_of u = Red")
    case True
    then show ?thesis
      using "5.prems" "5.IH" rb_insert_loop_left [OF disjI2 [OF step]]
      by (simp add: repaired_loop del: plug.simps)
  next
    case False
    then show ?thesis
      using "5.prems" rb_insert_loop_left [OF disjI2 [OF step]] insert_case2_left [of s gc a p l x r g u k]
      by (simp add: repaired_def rb_rep_plug)
  qed
next
  case (6 t a p gc u g k)
  have step: "zip_rep s t (FR Red a p # FR gc u g # k)" using "6.prems" by (simp only: rb_rep_plug)
  show ?case
  proof (cases "color_of u = Red")
    case True
    then show ?thesis
      using "6.prems" "6.IH" rb_insert_loop_right [OF disjI2 [OF step]]
      by (simp add: repaired_loop del: plug.simps)
  next
    case False
    then show ?thesis
      using "6.prems" rb_insert_loop_right [OF disjI2 [OF step]] insert_case3_right [of s gc u g a p t k]
      by (simp add: repaired_def rb_rep_plug)
  qed
next
  case (7 t p b gc u g k)
  have step: "zip_rep s t (FL Red p b # FR gc u g # k)" using "7.prems" by (simp only: rb_rep_plug)
  show ?case
  proof (cases "color_of u = Red")
    case True
    then show ?thesis
      using "7.prems" "7.IH" rb_insert_loop_right [OF disjI1 [OF step]]
      by (simp add: repaired_loop del: plug.simps)
  next
    case False
    then show ?thesis
      using "7.prems" rb_insert_loop_right [OF disjI1 [OF step]] insert_case2_right [of s gc u g l x r p b k]
      by (simp add: repaired_def rb_rep_plug)
  qed
qed simp_all

end

section \<open>Linking and inserting a new node\<close>

text \<open>The link that a position of the tree stands for, and the tree after an insertion there.\<close>

fun zlink :: "zipper \<Rightarrow> rb_link" where
  "zlink [] = Link_root"
| "zlink (FL c a r # k) = Link_left a"
| "zlink (FR c l a # k) = Link_right a"

definition ins_at :: "addr \<Rightarrow> zipper \<Rightarrow> rbt" where
  "ins_at x k = ins_fix (Node Red Leaf x Leaf) k"

lemma inorder_ins_at: "inorder (ins_at x k) = zleft k @ x # zright k"
  by (simp add: ins_at_def inorder_ins_fix inorder_plug)

lemma is_rbt_ins_at: "is_rbt (plug Leaf k) \<Longrightarrow> is_rbt (ins_at x k)"
  using is_rbt_plugD [of Leaf k] by (simp add: ins_at_def is_rbt_def is_rbt_ins_fix [unfolded is_rbt_def])

lemma zroot_black_is_rbt: "is_rbt (plug t k) \<Longrightarrow> zroot_black k"
  by (cases k) (auto simp: is_rbt_def simp del: plug.simps intro: zroot_black_plug)

lemma read_link_zlink: "zip_rep s Leaf k \<Longrightarrow> read_link (zlink k) s = Some NULL"
  by (cases k rule: zpar.cases) (auto simp: zip_rep_def)

lemma rb_link_node_spec:
  assumes rep: "rb_rep s (plug Leaf k)" and x: "rb_mem s x = Some n" "x \<notin> zset k" "valid_ptr x"
  shows "\<exists>m. rb_link_node x (zpar k) (zlink k) s = Some (s\<lparr>rb_mem := m, rb_root := zip_root x k (rb_root s)\<rparr>) \<and>
    rb_rep (s\<lparr>rb_mem := m, rb_root := zip_root x k (rb_root s)\<rparr>) (plug (Node Red Leaf x Leaf) k) \<and>
    (\<forall>a. a \<notin> insert x (zset k) \<longrightarrow> m a = rb_mem s a)"
proof -
  define m1 where "m1 = (rb_mem s)(x \<mapsto> \<lparr>rb_parent_color = zpar k, rb_right = NULL, rb_left = NULL\<rparr>)"
  define m where "m = zip_upd x k m1"
  have z: "zip_at (rb_mem s) (rb_root s) NULL k" and d: "distinct (zleft k @ zright k)"
    using rep by (auto simp: rb_rep_plug zip_rep_def inorder_plug)
  have z1: "zip_at m1 (rb_root s) NULL k" using z x by (simp add: m1_def)
  have "rb_link_node x (zpar k) (zlink k) s =
      write_link (zlink k) x (s\<lparr>rb_mem := m1\<rparr>)"
    using x by (cases n) (simp add: rb_link_node_def m1_def)
  also have "\<dots> = Some (s\<lparr>rb_mem := m, rb_root := zip_root x k (rb_root s)\<rparr>)"
    using z1 by (cases k rule: zpar.cases) (auto simp: m_def)
  finally have "rb_link_node x (zpar k) (zlink k) s = Some (s\<lparr>rb_mem := m, rb_root := zip_root x k (rb_root s)\<rparr>)" .
  moreover have "rb_rep (s\<lparr>rb_mem := m, rb_root := zip_root x k (rb_root s)\<rparr>) (plug (Node Red Leaf x Leaf) k)"
    using z1 d x by (simp add: rb_rep_plug zip_rep_def m_def inorder_plug) (simp add: m1_def)
  ultimately show ?thesis by (intro exI [of _ m]) (auto simp: m_def m1_def)
qed

context rb_augment
begin

lemma raw_rb_insert_spec:
  assumes rep: "rb_rep s (plug (Node Red Leaf x Leaf) k)" and rbt: "is_rbt (plug Leaf k)"
    and ok: "ok s (plug (Node Red Leaf x Leaf) k)"
  shows "repaired s (plug (Node Red Leaf x Leaf) k) (raw_rb_insert x rot s) (ins_at x k)"
proof -
  have "rb_mem s x = Some \<lparr>rb_parent_color = zpar k, rb_right = NULL, rb_left = NULL\<rparr>"
    using rep by (simp add: rb_rep_plug zip_rep_def)
  then show ?thesis
    using rb_insert_loop_ins_fix [OF refl rep ok zroot_black_is_rbt [OF rbt]]
    by (simp add: raw_rb_insert_def rb_red_parent_def ins_at_def)
qed

end

section \<open>The cached leftmost pointer\<close>

definition first_of :: "addr list \<Rightarrow> addr" where
  "first_of xs = (if xs = [] then NULL else hd xs)"

definition cached_rep :: "'m rb_root_cached_scheme \<Rightarrow> rbt \<Rightarrow> bool" where
  "cached_rep s t \<longleftrightarrow> rb_rep s t \<and> rb_leftmost s = first_of (inorder t)"

text \<open>
  The unaugmented tree: \<open>rb_link_node\<close> at a NULL link of a red-black tree, then
  \<open>rb_insert_color_cached\<close> with the flag that no left child was left behind on the way down.
\<close>

lemma rb_insert_color_cached_spec:
  assumes rep: "cached_rep s (plug Leaf k)" and rbt: "is_rbt (plug Leaf k)"
    and x: "rb_mem s x = Some n" "x \<notin> zset k" "valid_ptr x"
  shows "\<exists>s'. do { s \<leftarrow> rb_link_node x (zpar k) (zlink k) s; rb_insert_color_cached x (zleft k = []) s } = Some s' \<and>
    cached_rep s' (ins_at x k) \<and> rb_root_cached.more s' = rb_root_cached.more s \<and>
    (\<forall>a. a \<notin> insert x (zset k) \<longrightarrow> rb_mem s' a = rb_mem s a)"
proof -
  have r: "rb_rep s (plug Leaf k)" using rep by (simp add: cached_rep_def)
  obtain m where link: "rb_link_node x (zpar k) (zlink k) s = Some (s\<lparr>rb_mem := m, rb_root := zip_root x k (rb_root s)\<rparr>)"
    and rep1: "rb_rep (s\<lparr>rb_mem := m, rb_root := zip_root x k (rb_root s)\<rparr>) (plug (Node Red Leaf x Leaf) k)"
    and m: "\<forall>a. a \<notin> insert x (zset k) \<longrightarrow> m a = rb_mem s a"
    using rb_link_node_spec [OF r x] by blast
  define s1 where "s1 = s\<lparr>rb_mem := m, rb_root := zip_root x k (rb_root s)\<rparr>"
  define s2 where "s2 = (if zleft k = [] then s1\<lparr>rb_leftmost := x\<rparr> else s1)"
  have rep2: "rb_rep s2 (plug (Node Red Leaf x Leaf) k)"
    using rep1 by (simp add: s2_def s1_def rb_rep_def)
  obtain s' where s': "raw_rb_insert x dummy_rotate s2 = Some s'" "rb_rep s' (ins_at x k)" "rb_tree.more s' = rb_tree.more s2"
    "\<forall>a. a \<notin> set_rbt (plug (Node Red Leaf x Leaf) k) \<longrightarrow> rb_mem s' a = rb_mem s2 a"
    using dummy.raw_rb_insert_spec [OF rep2 rbt dummy_ok] by (auto simp: dummy.repaired_def)
  have "rb_leftmost s' = rb_leftmost s2" "rb_root_cached.more s' = rb_root_cached.more s2"
    using s'(3) by (cases s'; cases s2; simp)+
  then have "cached_rep s' (ins_at x k)"
    using s'(2) rep by (auto simp: cached_rep_def first_of_def inorder_ins_at s2_def s1_def inorder_plug hd_append)
  moreover have "\<forall>a. a \<notin> insert x (zset k) \<longrightarrow> rb_mem s' a = rb_mem s a"
    using s'(4) m by (auto simp: inorder_plug s2_def s1_def)
  ultimately show ?thesis
    using s' link \<open>rb_root_cached.more s' = rb_root_cached.more s2\<close>
    by (simp add: rb_insert_color_cached_def rb_insert_color_def s2_def s1_def split: if_splits)
qed

end
