(* ===== verification/Rbtree_Erase.thy ===== *)
theory Rbtree_Erase
  imports Rbtree_Insert
begin

text \<open>
  Erasure in rbtree.c: \<open>____rb_erase_color\<close> computes \<open>del_fix\<close>, and \<open>__rb_erase_augmented\<close>
  followed by it turns a red-black tree into one without the erased node.
\<close>

section \<open>Rebalancing as a function on zippers\<close>

text \<open>
  The focus \<open>t\<close>, left child of \<open>p\<close>, has lost a black node. With a black sibling
  (\<open>fix_left\<close>, cases 2 to 4 of the source) the result says whether the whole subtree is still
  short of one; a red sibling (case 1) is rotated away first.
\<close>

fun fix_left :: "rbt \<Rightarrow> color \<Rightarrow> addr \<Rightarrow> rbt \<Rightarrow> rbt \<times> bool" where
  "fix_left t pc p Leaf = (Node pc t p Leaf, False)"
| "fix_left t pc p (Node c a y b) =
     (if color_of b = Red then (Node pc (Node Black t p a) y (paint Black b), False)
      else case a of
        Node Red a1 z a2 \<Rightarrow> (Node pc (Node Black t p a1) z (Node Black (paint Black a2) y b), False)
      | _ \<Rightarrow> (Node Black t p (Node Red a y b), pc = Black))"

fun fix_right :: "rbt \<Rightarrow> color \<Rightarrow> addr \<Rightarrow> rbt \<Rightarrow> rbt \<times> bool" where
  "fix_right t pc p Leaf = (Node pc Leaf p t, False)"
| "fix_right t pc p (Node c b y a) =
     (if color_of b = Red then (Node pc (paint Black b) y (Node Black a p t), False)
      else case a of
        Node Red a2 z a1 \<Rightarrow> (Node pc (Node Black b y (paint Black a2)) z (Node Black a1 p t), False)
      | _ \<Rightarrow> (Node Black (Node Red b y a) p t, pc = Black))"

fun bal_left :: "rbt \<Rightarrow> color \<Rightarrow> addr \<Rightarrow> rbt \<Rightarrow> rbt \<times> bool" where
  "bal_left t pc p (Node Red l y r) = (Node pc (fst (fix_left t Red p (paint Black l))) y r, False)"
| "bal_left t pc p sib = fix_left t pc p sib"

fun bal_right :: "rbt \<Rightarrow> color \<Rightarrow> addr \<Rightarrow> rbt \<Rightarrow> rbt \<times> bool" where
  "bal_right t pc p (Node Red r y l) = (Node pc r y (fst (fix_right t Red p (paint Black l))), False)"
| "bal_right t pc p sib = fix_right t pc p sib"

fun del_fix :: "rbt \<Rightarrow> zipper \<Rightarrow> rbt" where
  "del_fix t [] = t"
| "del_fix t (FL pc p sib # k) =
     (let r = bal_left t pc p sib in if snd r then del_fix (fst r) k else plug (fst r) k)"
| "del_fix t (FR pc sib p # k) =
     (let r = bal_right t pc p sib in if snd r then del_fix (fst r) k else plug (fst r) k)"

lemma inorder_fix [simp]:
  "inorder (fst (fix_left t pc p sib)) = inorder t @ p # inorder sib"
  "inorder (fst (fix_right t pc p sib)) = inorder sib @ p # inorder t"
  by (cases sib; auto split: rbt.split color.split)+

lemma inorder_bal [simp]:
  "inorder (fst (bal_left t pc p sib)) = inorder t @ p # inorder sib"
  "inorder (fst (bal_right t pc p sib)) = inorder sib @ p # inorder t"
  by (cases "(t, pc, p, sib)" rule: bal_left.cases; auto split: rbt.split color.split)
     (cases "(t, pc, p, sib)" rule: bal_right.cases; auto split: rbt.split color.split)

lemma inorder_del_fix: "inorder (del_fix t k) = inorder (plug t k)"
  by (induction t k rule: del_fix.induct) (auto simp: Let_def inorder_plug)

text \<open>With a sibling of black height one more, one step gives a balanced tree, short or not.\<close>

lemma fix_left_balanced:
  assumes "balanced t" "color_of t = Black" "balanced sib" "color_of sib = Black" "bheight sib = Suc (bheight t)"
  shows "balanced (fst (fix_left t pc p sib)) \<and>
    bheight (fst (fix_left t pc p sib)) = bheight t + (if snd (fix_left t pc p sib) then 1 else if pc = Black then 2 else 1) \<and>
    (snd (fix_left t pc p sib) \<longrightarrow> pc = Black) \<and>
    (color_of (fst (fix_left t pc p sib)) = Red \<longrightarrow> pc = Red \<and> \<not> snd (fix_left t pc p sib))"
  using assms
  by (cases sib; cases pc)
     (auto simp: bheight_paint_Black paint_Black_id balanced_paint_Black color_of_paint split: rbt.splits color.splits)

lemma fix_right_balanced:
  assumes "balanced t" "color_of t = Black" "balanced sib" "color_of sib = Black" "bheight sib = Suc (bheight t)"
  shows "balanced (fst (fix_right t pc p sib)) \<and>
    bheight (fst (fix_right t pc p sib)) = bheight t + (if snd (fix_right t pc p sib) then 1 else if pc = Black then 2 else 1) \<and>
    (snd (fix_right t pc p sib) \<longrightarrow> pc = Black) \<and>
    (color_of (fst (fix_right t pc p sib)) = Red \<longrightarrow> pc = Red \<and> \<not> snd (fix_right t pc p sib))"
  using assms
  by (cases sib; cases pc)
     (auto simp: bheight_paint_Black paint_Black_id balanced_paint_Black color_of_paint split: rbt.splits color.splits)

lemma fix_red_color:
  assumes "sib \<noteq> Leaf"
  shows "snd (fix_left t Red p sib) = False" and "snd (fix_right t Red p sib) = False"
  using assms by (cases sib; auto split: rbt.splits color.splits)+

lemma bal_left_balanced:
  assumes "balanced t" "color_of t = Black" "balanced sib" "bheight sib = Suc (bheight t)" "pc = Red \<longrightarrow> color_of sib = Black"
  shows "balanced (fst (bal_left t pc p sib)) \<and>
    bheight (fst (bal_left t pc p sib)) = bheight t + (if snd (bal_left t pc p sib) then 1 else if pc = Black then 2 else 1) \<and>
    (snd (bal_left t pc p sib) \<longrightarrow> pc = Black) \<and>
    (color_of (fst (bal_left t pc p sib)) = Red \<longrightarrow> pc = Red \<and> \<not> snd (bal_left t pc p sib))"
proof (cases "color_of sib")
  case Red
  then obtain l y r where sib: "sib = Node Red l y r" by (cases sib) auto
  have l: "l \<noteq> Leaf" using assms sib by auto
  have "paint Black l = l" using assms sib by (simp add: paint_Black_id)
  then show ?thesis
    using fix_left_balanced [of t l Red p] fix_red_color(1) [OF l, of t p] assms sib by auto
next
  case Black
  then have "bal_left t pc p sib = fix_left t pc p sib" by (cases "(t, pc, p, sib)" rule: bal_left.cases) auto
  then show ?thesis using fix_left_balanced [of t sib pc p] assms Black by simp
qed

lemma bal_right_balanced:
  assumes "balanced t" "color_of t = Black" "balanced sib" "bheight sib = Suc (bheight t)" "pc = Red \<longrightarrow> color_of sib = Black"
  shows "balanced (fst (bal_right t pc p sib)) \<and>
    bheight (fst (bal_right t pc p sib)) = bheight t + (if snd (bal_right t pc p sib) then 1 else if pc = Black then 2 else 1) \<and>
    (snd (bal_right t pc p sib) \<longrightarrow> pc = Black) \<and>
    (color_of (fst (bal_right t pc p sib)) = Red \<longrightarrow> pc = Red \<and> \<not> snd (bal_right t pc p sib))"
proof (cases "color_of sib")
  case Red
  then obtain l y r where sib: "sib = Node Red r y l" by (cases sib) auto
  have l: "l \<noteq> Leaf" using assms sib by auto
  have "paint Black l = l" using assms sib by (simp add: paint_Black_id)
  then show ?thesis
    using fix_right_balanced [of t l Red p] fix_red_color(2) [OF l, of t p] assms sib by auto
next
  case Black
  then have "bal_right t pc p sib = fix_right t pc p sib" by (cases "(t, pc, p, sib)" rule: bal_right.cases) auto
  then show ?thesis using fix_right_balanced [of t sib pc p] assms Black by simp
qed

lemma is_rbt_del_fix:
  "\<lbrakk>balanced t; color_of t = Black; zbal k (Suc (bheight t))\<rbrakk> \<Longrightarrow> is_rbt (del_fix t k)"
proof (induction t k rule: del_fix.induct)
  case (1 t)
  then show ?case by (simp add: is_rbt_def)
next
  case (2 t pc p sib k)
  let ?r = "bal_left t pc p sib"
  have b: "balanced (fst ?r)" "bheight (fst ?r) = bheight t + (if snd ?r then 1 else if pc = Black then 2 else 1)"
    "snd ?r \<longrightarrow> pc = Black" "color_of (fst ?r) = Red \<longrightarrow> pc = Red \<and> \<not> snd ?r"
    using bal_left_balanced [of t sib pc p] "2.prems" by auto
  show ?case
  proof (cases "snd ?r")
    case True
    then show ?thesis using "2.IH" "2.prems" b by (cases "color_of (fst ?r)") (auto simp: Let_def)
  next
    case False
    then show ?thesis using "2.prems" b by (auto simp: Let_def intro!: is_rbt_plug split: if_splits)
  qed
next
  case (3 t pc sib p k)
  let ?r = "bal_right t pc p sib"
  have b: "balanced (fst ?r)" "bheight (fst ?r) = bheight t + (if snd ?r then 1 else if pc = Black then 2 else 1)"
    "snd ?r \<longrightarrow> pc = Black" "color_of (fst ?r) = Red \<longrightarrow> pc = Red \<and> \<not> snd ?r"
    using bal_right_balanced [of t sib pc p] "3.prems" by auto
  show ?case
  proof (cases "snd ?r")
    case True
    then show ?thesis using "3.IH" "3.prems" b by (cases "color_of (fst ?r)") (auto simp: Let_def)
  next
    case False
    then show ?thesis using "3.prems" b by (auto simp: Let_def intro!: is_rbt_plug split: if_splits)
  qed
qed

section \<open>The loop on the pointers\<close>

context rb_augment
begin

lemma erase_case1_left:
  assumes rep: "zip_rep s (Node pc t p (Node Red l y r)) k" and l: "l \<noteq> Leaf"
    and ok: "ok s (plug (Node pc t p (Node Red l y r)) k)"
  shows "\<exists>s1. rb_erase_left_side rot p y s = rb_erase_left_side rot p (rootp l) s1 \<and>
    rb_rep s1 (plug (Node pc (Node Red t p (paint Black l)) y r) k) \<and>
    ok s1 (plug (Node pc (Node Red t p (paint Black l)) y r) k) \<and> keep s1 = keep s \<and>
    (\<forall>a. a \<notin> set_rbt (plug (Node pc t p (Node Red l y r)) k) \<longrightarrow> rb_mem s1 a = rb_mem s a \<and> val s1 a = val s a)"
proof -
  let ?m = "rb_mem s"
  have d: "distinct (zleft k @ inorder t @ p # inorder l @ y # inorder r @ zright k)"
    using rep by (simp add: zip_rep_def inorder_plug)
  have at: "tree_at ?m p t" "tree_at ?m y l" "tree_at ?m y r" "valid_ptr p" "valid_ptr y"
    "?m p = Some \<lparr>rb_parent_color = zpar k OR colbit pc, rb_right = y, rb_left = rootp t\<rparr>"
    "?m y = Some \<lparr>rb_parent_color = p OR colbit Red, rb_right = rootp r, rb_left = rootp l\<rparr>"
    "zip_at ?m (rb_root s) p k"
    using rep by (auto simp: zip_rep_def)
  have dj: "distinct (zleft k @ zright k)" "p \<notin> zset k" "y \<notin> zset k" "p \<noteq> y" "distinct (inorder l)"
    "p \<notin> set_rbt t" "p \<notin> set_rbt l" "p \<notin> set_rbt r" "y \<notin> set_rbt t" "y \<notin> set_rbt l" "y \<notin> set_rbt r"
    "set_rbt t \<inter> zset k = {}" "set_rbt l \<inter> zset k = {}" "set_rbt r \<inter> zset k = {}"
    "zset k \<inter> set_rbt l = {}" "set_rbt t \<inter> set_rbt l = {}" "set_rbt r \<inter> set_rbt l = {}"
    using d by (simp_all add: Int_Un_distrib Int_Un_distrib2 Int_commute)
  define m6 where "m6 = zip_upd y k ((reroot p Black l (?m
      (p \<mapsto> \<lparr>rb_parent_color = zpar k OR colbit pc, rb_right = rootp l, rb_left = rootp t\<rparr>,
       y \<mapsto> \<lparr>rb_parent_color = p OR colbit Red, rb_right = rootp r, rb_left = p\<rparr>)))
      (y \<mapsto> \<lparr>rb_parent_color = zpar k OR colbit pc, rb_right = rootp r, rb_left = p\<rparr>,
       p \<mapsto> \<lparr>rb_parent_color = y OR colbit Red, rb_right = rootp l, rb_left = rootp t\<rparr>))"
  define s6 where "s6 = s\<lparr>rb_mem := m6, rb_root := zip_root y k (rb_root s)\<rparr>"
  have col: "rb_set_parent_color (rootp l) p RB_BLACK s' = Some (s'\<lparr>rb_mem := reroot p Black l (rb_mem s')\<rparr>)"
    if "tree_at (rb_mem s') y l" for s' :: "'m rb_tree_scheme"
    using rb_set_parent_color_tree [OF that, of p] l that by (cases l) (auto simp: c_when_def valid_ptr_def)
  obtain s1 where s1: "rot p y s6 = Some s1" "rb_mem s1 = rb_mem s6" "rb_root s1 = rb_root s6" "keep s1 = keep s"
    "val s1 = (val s)(y := aug (Node pc t p (Node Red l y r)), p := aug (Node Red t p l))"
    and rep6: "rb_rep s6 (plug (Node pc (Node Red t p (paint Black l)) y r) k)"
  proof -
    have rep6: "rb_rep s6 (plug (Node pc (Node Red t p (paint Black l)) y r) k)"
      using dj at d by (simp add: rb_rep_plug zip_rep_def s6_def m6_def inorder_plug)
    have ok6: "good p" "val s p = aug (Node pc t p (Node Red l y r))" "ok s t" "ok s l" "val s6 = val s" "keep s6 = keep s"
      using ok by (simp_all add: aug_ok_plug s6_def)
    have at6: "rb_mem s6 p = Some \<lparr>rb_parent_color = y OR colbit Red, rb_right = rootp (paint Black l), rb_left = rootp t\<rparr>"
      "tree_at (rb_mem s6) p (paint Black l)" "tree_at (rb_mem s6) p t"
      using rep6 by (simp_all add: rb_rep_plug zip_rep_def)
    have "\<exists>s'. rot p y s6 = Some s' \<and> rb_mem s' = rb_mem s6 \<and> rb_root s' = rb_root s6 \<and> keep s' = keep s6 \<and>
      val s' = (val s6)(y := aug (Node pc t p (Node Red l y r)), p := aug (Node Red t p (paint Black l)))"
      by (rule rot_tree [OF at6(1) ok6(1) _ _ _ _ _ at6(3,2)]) (use ok ok6 dj at(5) in \<open>simp_all add: valid_ptr_def aug_ok_plug\<close>)
    then show ?thesis using that rep6 ok6 by auto
  qed
  have lm: "tree_at (rb_mem s1) p (paint Black l)"
    using rep6 s1 by (simp add: rb_rep_plug zip_rep_def)
  then obtain ln where ln: "rb_mem s1 (rootp l) = Some ln" "\<not> rb_is_red ln"
    using l at(4) by (cases l) (auto simp: valid_ptr_def simp del: colbit.simps)
  have "rb_erase_left_side rot p y s = rb_erase_left_side rot p (rootp l) s1"
    using dj at zpar_valid [OF at(8)] ln s1(1) [unfolded s6_def m6_def]
    by (simp add: rb_erase_left_side_def col rb_rotate_set_parents_zip [where k = k and c = pc]
        valid_ptr_def Let_def)
  moreover have "rb_rep s1 (plug (Node pc (Node Red t p (paint Black l)) y r) k)"
    using rep6 s1 by (simp add: rb_rep_def)
  moreover have "ok s1 (plug (Node pc (Node Red t p (paint Black l)) y r) k)"
    using ok dj d s1(5) by (auto simp: aug_ok_plug comb_rot)
  moreover have "\<forall>a. a \<notin> set_rbt (plug (Node pc t p (Node Red l y r)) k) \<longrightarrow> rb_mem s1 a = rb_mem s a \<and> val s1 a = val s a"
    by (auto simp: inorder_plug s1 s6_def m6_def)
  ultimately show ?thesis using s1 by auto
qed

lemma erase_case4_left:
  assumes rep: "zip_rep s (Node pc t p (Node Black a y b)) k" and b: "color_of b = Red"
    and ok: "ok s (plug (Node pc t p (Node Black a y b)) k)"
  shows "\<exists>s'. rb_erase_left_side rot p y s = Some (Inr s') \<and>
    rb_rep s' (plug (Node pc (Node Black t p a) y (paint Black b)) k) \<and>
    ok s' (plug (Node pc (Node Black t p a) y (paint Black b)) k) \<and> keep s' = keep s \<and>
    (\<forall>x. x \<notin> set_rbt (plug (Node pc t p (Node Black a y b)) k) \<longrightarrow> rb_mem s' x = rb_mem s x \<and> val s' x = val s x)"
proof -
  let ?m = "rb_mem s"
  have d: "distinct (zleft k @ inorder t @ p # inorder a @ y # inorder b @ zright k)"
    using rep by (simp add: zip_rep_def inorder_plug)
  have bL: "b \<noteq> Leaf" using b by auto
  have at: "tree_at ?m p t" "tree_at ?m y a" "tree_at ?m y b" "valid_ptr p" "valid_ptr y"
    "?m p = Some \<lparr>rb_parent_color = zpar k OR colbit pc, rb_right = y, rb_left = rootp t\<rparr>"
    "?m y = Some \<lparr>rb_parent_color = p OR colbit Black, rb_right = rootp b, rb_left = rootp a\<rparr>"
    "zip_at ?m (rb_root s) p k"
    using rep by (auto simp: zip_rep_def)
  have dj: "distinct (zleft k @ zright k)" "p \<notin> zset k" "y \<notin> zset k" "p \<noteq> y" "distinct (inorder a)" "distinct (inorder b)"
    "p \<notin> set_rbt t" "p \<notin> set_rbt a" "p \<notin> set_rbt b" "y \<notin> set_rbt t" "y \<notin> set_rbt a" "y \<notin> set_rbt b"
    "set_rbt t \<inter> zset k = {}" "set_rbt a \<inter> zset k = {}" "set_rbt b \<inter> zset k = {}"
    "zset k \<inter> set_rbt a = {}" "zset k \<inter> set_rbt b = {}" "set_rbt t \<inter> set_rbt a = {}" "set_rbt t \<inter> set_rbt b = {}"
    "set_rbt a \<inter> set_rbt b = {}" "set_rbt b \<inter> set_rbt a = {}"
    using d by (simp_all add: Int_Un_distrib Int_Un_distrib2 Int_commute)
  define m6 where "m6 = zip_upd y k ((reroot p (color_of a) a (reroot y Black b (?m
      (p \<mapsto> \<lparr>rb_parent_color = zpar k OR colbit pc, rb_right = rootp a, rb_left = rootp t\<rparr>,
       y \<mapsto> \<lparr>rb_parent_color = p OR colbit Black, rb_right = rootp b, rb_left = p\<rparr>))))
      (y \<mapsto> \<lparr>rb_parent_color = zpar k OR colbit pc, rb_right = rootp b, rb_left = p\<rparr>,
       p \<mapsto> \<lparr>rb_parent_color = y OR colbit Black, rb_right = rootp a, rb_left = rootp t\<rparr>))"
  define s6 where "s6 = s\<lparr>rb_mem := m6, rb_root := zip_root y k (rb_root s)\<rparr>"
  have col: "rb_set_parent_color (rootp b) y RB_BLACK s' = Some (s'\<lparr>rb_mem := reroot y Black b (rb_mem s')\<rparr>)"
    if "tree_at (rb_mem s') y b" for s' :: "'m rb_tree_scheme"
    using rb_set_parent_color_tree [OF that, of y] bL that by (cases b) (auto simp: c_when_def valid_ptr_def)
  have rep6: "rb_rep s6 (plug (Node pc (Node Black t p a) y (paint Black b)) k)"
    using dj at d by (simp add: rb_rep_plug zip_rep_def s6_def m6_def inorder_plug)
  have ok6: "good p" "val s p = aug (Node pc t p (Node Black a y b))" "ok s t" "ok s a" "val s6 = val s" "keep s6 = keep s"
    using ok by (simp_all add: aug_ok_plug s6_def)
  have at6: "rb_mem s6 p = Some \<lparr>rb_parent_color = y OR colbit Black, rb_right = rootp a, rb_left = rootp t\<rparr>"
    "tree_at (rb_mem s6) p a" "tree_at (rb_mem s6) p t"
    using rep6 by (simp_all add: rb_rep_plug zip_rep_def)
  have "\<exists>s'. rot p y s6 = Some s' \<and> rb_mem s' = rb_mem s6 \<and> rb_root s' = rb_root s6 \<and> keep s' = keep s6 \<and>
    val s' = (val s6)(y := aug (Node pc t p (Node Black a y b)), p := aug (Node Black t p a))"
    by (rule rot_tree [OF at6(1) ok6(1) _ _ _ _ _ at6(3,2)]) (use ok ok6 dj at(5) in \<open>simp_all add: valid_ptr_def aug_ok_plug\<close>)
  then obtain s' where s': "rot p y s6 = Some s'" "rb_mem s' = rb_mem s6" "rb_root s' = rb_root s6" "keep s' = keep s"
    "val s' = (val s)(y := aug (Node pc t p (Node Black a y b)), p := aug (Node Black t p a))"
    using ok6 by auto
  have "rb_erase_left_side rot p y s = Some (Inr s')"
    using dj at zpar_valid [OF at(8)] b s'(1) [unfolded s6_def m6_def] rb_ptr_is_red_tree [OF at(3)]
    by (simp add: rb_erase_left_side_def col rb_set_parent_tree [where t = a and q = y]
        rb_rotate_set_parents_zip [where k = k and c = pc] valid_ptr_def Let_def)
  moreover have "rb_rep s' (plug (Node pc (Node Black t p a) y (paint Black b)) k)"
    using rep6 s' by (simp add: rb_rep_def)
  moreover have "ok s' (plug (Node pc (Node Black t p a) y (paint Black b)) k)"
    using ok dj d s'(5) by (auto simp: aug_ok_plug comb_rot)
  moreover have "\<forall>x. x \<notin> set_rbt (plug (Node pc t p (Node Black a y b)) k) \<longrightarrow> rb_mem s' x = rb_mem s x \<and> val s' x = val s x"
    by (auto simp: inorder_plug s' s6_def m6_def)
  ultimately show ?thesis using s' by auto
qed

end

context rb_augment
begin

lemma erase_case2_left:
  assumes rep: "zip_rep s (Node pc t p (Node Black a y b)) k" and b: "color_of b = Black" "color_of a = Black"
    and ok: "ok s (plug (Node pc t p (Node Black a y b)) k)"
  shows "\<exists>s'. rb_erase_left_side rot p y s =
      Some (if pc = Black \<and> zpar k \<noteq> NULL then Inl (p, zpar k, s') else Inr s') \<and>
    rb_rep s' (plug (Node Black t p (Node Red a y b)) k) \<and>
    ok s' (plug (Node Black t p (Node Red a y b)) k) \<and> keep s' = keep s \<and>
    (\<forall>x. x \<notin> set_rbt (plug (Node pc t p (Node Black a y b)) k) \<longrightarrow> rb_mem s' x = rb_mem s x \<and> val s' x = val s x)"
proof -
  let ?m = "rb_mem s"
  have d: "distinct (zleft k @ inorder t @ p # inorder a @ y # inorder b @ zright k)"
    using rep by (simp add: zip_rep_def inorder_plug)
  have at: "tree_at ?m p t" "tree_at ?m y a" "tree_at ?m y b" "valid_ptr p" "valid_ptr y"
    "?m p = Some \<lparr>rb_parent_color = zpar k OR colbit pc, rb_right = y, rb_left = rootp t\<rparr>"
    "?m y = Some \<lparr>rb_parent_color = p OR colbit Black, rb_right = rootp b, rb_left = rootp a\<rparr>"
    "zip_at ?m (rb_root s) p k"
    using rep by (auto simp: zip_rep_def)
  have dj: "p \<noteq> y" "p \<notin> zset k" "y \<notin> zset k"
    "p \<notin> set_rbt t" "p \<notin> set_rbt a" "p \<notin> set_rbt b" "y \<notin> set_rbt t" "y \<notin> set_rbt a" "y \<notin> set_rbt b"
    using d by simp_all
  define m1 where "m1 = ?m(y \<mapsto> \<lparr>rb_parent_color = p OR colbit Red, rb_right = rootp b, rb_left = rootp a\<rparr>)"
  define s' where "s' = s\<lparr>rb_mem := if pc = Black then m1
     else m1(p \<mapsto> \<lparr>rb_parent_color = zpar k OR colbit Black, rb_right = y, rb_left = rootp t\<rparr>)\<rparr>"
  have "rb_erase_left_side rot p y s =
      Some (if pc = Black \<and> zpar k \<noteq> NULL then Inl (p, zpar k, s') else Inr s')"
    using dj at zpar_valid [OF at(8)] b rb_ptr_is_red_tree [OF at(3)] rb_ptr_is_red_tree [OF at(2)]
    by (cases pc) (simp_all add: rb_erase_left_side_def valid_ptr_def Let_def s'_def m1_def)
  moreover have "rb_rep s' (plug (Node Black t p (Node Red a y b)) k)"
    using dj at d by (cases pc) (simp_all add: rb_rep_plug zip_rep_def s'_def m1_def inorder_plug)
  moreover have "ok s' (plug (Node Black t p (Node Red a y b)) k)"
    using ok by (auto simp: aug_ok_plug s'_def)
  ultimately show ?thesis by (intro exI [of _ s']) (auto simp: s'_def m1_def inorder_plug)
qed

lemma erase_case3_left:
  assumes rep: "zip_rep s (Node pc t p (Node Black (Node Red a1 z a2) y b)) k" and b: "color_of b = Black"
    and ok: "ok s (plug (Node pc t p (Node Black (Node Red a1 z a2) y b)) k)"
  shows "\<exists>s'. rb_erase_left_side rot p y s = Some (Inr s') \<and>
    rb_rep s' (plug (Node pc (Node Black t p a1) z (Node Black (paint Black a2) y b)) k) \<and>
    ok s' (plug (Node pc (Node Black t p a1) z (Node Black (paint Black a2) y b)) k) \<and> keep s' = keep s \<and>
    (\<forall>x. x \<notin> set_rbt (plug (Node pc t p (Node Black (Node Red a1 z a2) y b)) k) \<longrightarrow> rb_mem s' x = rb_mem s x \<and> val s' x = val s x)"
proof -
  let ?m = "rb_mem s" and ?old = "Node pc t p (Node Black (Node Red a1 z a2) y b)"
    and ?new = "Node pc (Node Black t p a1) z (Node Black (paint Black a2) y b)"
  have d: "distinct (zleft k @ inorder t @ p # inorder a1 @ z # inorder a2 @ y # inorder b @ zright k)"
    using rep by (simp add: zip_rep_def inorder_plug)
  have at: "tree_at ?m p t" "tree_at ?m z a1" "tree_at ?m z a2" "tree_at ?m y b" "valid_ptr p" "valid_ptr y" "valid_ptr z"
    "?m p = Some \<lparr>rb_parent_color = zpar k OR colbit pc, rb_right = y, rb_left = rootp t\<rparr>"
    "?m y = Some \<lparr>rb_parent_color = p OR colbit Black, rb_right = rootp b, rb_left = z\<rparr>"
    "?m z = Some \<lparr>rb_parent_color = y OR colbit Red, rb_right = rootp a2, rb_left = rootp a1\<rparr>"
    "zip_at ?m (rb_root s) p k"
    using rep by (auto simp: zip_rep_def)
  have dj: "distinct (zleft k @ zright k)" "p \<notin> zset k" "y \<notin> zset k" "z \<notin> zset k" "p \<noteq> y" "p \<noteq> z" "z \<noteq> y"
    "distinct (inorder a1)" "distinct (inorder a2)"
    "p \<notin> set_rbt t" "p \<notin> set_rbt a1" "p \<notin> set_rbt a2" "p \<notin> set_rbt b"
    "y \<notin> set_rbt t" "y \<notin> set_rbt a1" "y \<notin> set_rbt a2" "y \<notin> set_rbt b"
    "z \<notin> set_rbt t" "z \<notin> set_rbt a1" "z \<notin> set_rbt a2" "z \<notin> set_rbt b"
    "set_rbt t \<inter> zset k = {}" "set_rbt a1 \<inter> zset k = {}" "set_rbt a2 \<inter> zset k = {}" "set_rbt b \<inter> zset k = {}"
    "zset k \<inter> set_rbt a1 = {}" "zset k \<inter> set_rbt a2 = {}" "set_rbt t \<inter> set_rbt a1 = {}" "set_rbt t \<inter> set_rbt a2 = {}"
    "set_rbt a1 \<inter> set_rbt a2 = {}" "set_rbt a2 \<inter> set_rbt a1 = {}" "set_rbt b \<inter> set_rbt a1 = {}" "set_rbt b \<inter> set_rbt a2 = {}"
    using d by (simp_all add: Int_Un_distrib Int_Un_distrib2 Int_commute)
  define m1 where "m1 = reroot y Black a2 (?m
      (y \<mapsto> \<lparr>rb_parent_color = p OR colbit Black, rb_right = rootp b, rb_left = rootp a2\<rparr>,
       z \<mapsto> \<lparr>rb_parent_color = y OR colbit Red, rb_right = y, rb_left = rootp a1\<rparr>,
       p \<mapsto> \<lparr>rb_parent_color = zpar k OR colbit pc, rb_right = z, rb_left = rootp t\<rparr>))"
  define s1 where "s1 = s\<lparr>rb_mem := m1\<rparr>"
  have ok1: "good y" "val s y = aug (Node Black (Node Red a1 z a2) y b)" "ok s t" "ok s a1" "ok s a2" "ok s b" "good p"
     "val s p = aug ?old" "val s1 = val s" "keep s1 = keep s"
    using ok by (simp_all add: aug_ok_plug s1_def)
  have at1: "rb_mem s1 y = Some \<lparr>rb_parent_color = p OR colbit Black, rb_right = rootp b, rb_left = rootp (paint Black a2)\<rparr>"
    "tree_at (rb_mem s1) y (paint Black a2)" "tree_at (rb_mem s1) y b"
    using dj at by (simp_all add: s1_def m1_def)
  have "\<exists>s'. rot y z s1 = Some s' \<and> rb_mem s' = rb_mem s1 \<and> rb_root s' = rb_root s1 \<and> keep s' = keep s1 \<and>
    val s' = (val s1)(z := aug (Node Black (Node Red a1 z a2) y b), y := aug (Node Black (paint Black a2) y b))"
    by (rule rot_tree [OF at1(1) ok1(1) _ _ _ _ _ at1(2,3)]) (use ok ok1 dj at(7) in \<open>simp_all add: valid_ptr_def aug_ok_plug\<close>)
  then obtain s2 where s2: "rot y z s1 = Some s2" "rb_mem s2 = m1" "rb_root s2 = rb_root s" "keep s2 = keep s"
    "val s2 = (val s)(z := aug (Node Black (Node Red a1 z a2) y b), y := aug (Node Black a2 y b))"
    using ok1 by (auto simp: s1_def)
  define m6 where "m6 = zip_upd z k ((reroot p (color_of a1) a1 (m1
      (p \<mapsto> \<lparr>rb_parent_color = zpar k OR colbit pc, rb_right = rootp a1, rb_left = rootp t\<rparr>,
       z \<mapsto> \<lparr>rb_parent_color = y OR colbit Red, rb_right = y, rb_left = p\<rparr>,
       y \<mapsto> \<lparr>rb_parent_color = z OR colbit Black, rb_right = rootp b, rb_left = rootp a2\<rparr>)))
      (z \<mapsto> \<lparr>rb_parent_color = zpar k OR colbit pc, rb_right = y, rb_left = p\<rparr>,
       p \<mapsto> \<lparr>rb_parent_color = z OR colbit Black, rb_right = rootp a1, rb_left = rootp t\<rparr>))"
  define s6 where "s6 = s2\<lparr>rb_mem := m6, rb_root := zip_root z k (rb_root s)\<rparr>"
  have zx: "m1 y = Some \<lparr>rb_parent_color = p OR colbit Black, rb_right = rootp b, rb_left = rootp a2\<rparr>"
    "m1 z = Some \<lparr>rb_parent_color = y OR colbit Red, rb_right = y, rb_left = rootp a1\<rparr>"
    "m1 p = Some \<lparr>rb_parent_color = zpar k OR colbit pc, rb_right = z, rb_left = rootp t\<rparr>"
    "tree_at m1 z a1" "zip_at m1 (rb_root s) p k"
    using dj at by (simp_all add: m1_def)
  have red: "rb_ptr_is_red z s = Some True"
    using at(6,7,10) by (simp add: rb_ptr_is_red_def valid_ptr_def)
  have run1: "rb_erase_left_side rot p y s =
     do { s \<leftarrow> rb_set_right p (rootp a1) s2; s \<leftarrow> rb_set_left z p s;
          s \<leftarrow> rb_set_parent_color y z RB_BLACK s;
          s \<leftarrow> c_when (rootp a1 \<noteq> NULL) (rb_set_parent (rootp a1) p) s;
          s \<leftarrow> rb_rotate_set_parents p z RB_BLACK s; s \<leftarrow> rot p z s; Some (Inr s) }"
    using dj at s2(1) [unfolded s1_def m1_def] s2(2) zx b rb_ptr_is_red_tree [OF at(4)] red
    by (simp add: rb_erase_left_side_def rb_set_parent_color_tree [where t = a2 and q = z]
        valid_ptr_def Let_def)
  have run2: "\<dots> = do { s \<leftarrow> rot p z s6; Some (Inr s) }"
    using dj at zx s2 zpar_valid [OF at(11)]
    by (simp add: rb_set_parent_tree [where t = a1 and q = z] rb_rotate_set_parents_zip [where k = k and c = pc]
        valid_ptr_def m6_def s6_def)
  have rep6: "rb_rep s6 (plug ?new k)"
    using dj at d by (simp add: rb_rep_plug zip_rep_def s6_def m6_def m1_def inorder_plug)
  have at6: "rb_mem s6 p = Some \<lparr>rb_parent_color = z OR colbit Black, rb_right = rootp a1, rb_left = rootp t\<rparr>"
    "tree_at (rb_mem s6) p a1" "tree_at (rb_mem s6) p t"
    using rep6 by (simp_all add: rb_rep_plug zip_rep_def)
  have v: "val s6 = val s2" "keep s6 = keep s2" by (simp_all add: s6_def)
  have "\<exists>s'. rot p z s6 = Some s' \<and> rb_mem s' = rb_mem s6 \<and> rb_root s' = rb_root s6 \<and> keep s' = keep s6 \<and>
    val s' = (val s6)(z := aug ?old, p := aug (Node Black t p a1))"
    by (rule rot_tree [OF at6(1) ok1(7) _ _ _ _ _ at6(3,2)]) (use ok ok1 dj at(7) v s2(5) in \<open>simp_all add: valid_ptr_def aug_ok_plug\<close>)
  then obtain s' where s': "rot p z s6 = Some s'" "rb_mem s' = rb_mem s6" "rb_root s' = rb_root s6" "keep s' = keep s"
    "val s' = (val s6)(z := aug ?old, p := aug (Node Black t p a1))"
    using v s2 by auto
  have "rb_rep s' (plug ?new k)"
    using rep6 s' by (simp add: rb_rep_def)
  moreover have "ok s' (plug ?new k)"
    using ok dj d s'(5) v s2(5) by (auto simp: aug_ok_plug comb_rot)
  moreover have "\<forall>x. x \<notin> set_rbt (plug ?old k) \<longrightarrow> rb_mem s' x = rb_mem s x \<and> val s' x = val s x"
    by (auto simp: inorder_plug s' v s2(5) s6_def m6_def m1_def)
  ultimately show ?thesis using run1 run2 s' by auto
qed

end

context rb_augment
begin

lemma erase_case1_right:
  assumes rep: "zip_rep s (Node pc (Node Red r y l) p t) k" and l: "l \<noteq> Leaf"
    and ok: "ok s (plug (Node pc (Node Red r y l) p t) k)"
  shows "\<exists>s1. rb_erase_right_side rot p y s = rb_erase_right_side rot p (rootp l) s1 \<and>
    rb_rep s1 (plug (Node pc r y (Node Red (paint Black l) p t)) k) \<and>
    ok s1 (plug (Node pc r y (Node Red (paint Black l) p t)) k) \<and> keep s1 = keep s \<and>
    (\<forall>a. a \<notin> set_rbt (plug (Node pc (Node Red r y l) p t) k) \<longrightarrow> rb_mem s1 a = rb_mem s a \<and> val s1 a = val s a)"
proof -
  let ?m = "rb_mem s"
  have d: "distinct (zleft k @ inorder r @ y # inorder l @ p # inorder t @ zright k)"
    using rep by (simp add: zip_rep_def inorder_plug)
  have at: "tree_at ?m p t" "tree_at ?m y l" "tree_at ?m y r" "valid_ptr p" "valid_ptr y"
    "?m p = Some \<lparr>rb_parent_color = zpar k OR colbit pc, rb_right = rootp t, rb_left = y\<rparr>"
    "?m y = Some \<lparr>rb_parent_color = p OR colbit Red, rb_right = rootp l, rb_left = rootp r\<rparr>"
    "zip_at ?m (rb_root s) p k"
    using rep by (auto simp: zip_rep_def)
  have dj: "distinct (zleft k @ zright k)" "p \<notin> zset k" "y \<notin> zset k" "y \<noteq> p" "distinct (inorder l)"
    "p \<notin> set_rbt t" "p \<notin> set_rbt l" "p \<notin> set_rbt r" "y \<notin> set_rbt t" "y \<notin> set_rbt l" "y \<notin> set_rbt r"
    "set_rbt t \<inter> zset k = {}" "set_rbt l \<inter> zset k = {}" "set_rbt r \<inter> zset k = {}"
    "zset k \<inter> set_rbt l = {}" "set_rbt t \<inter> set_rbt l = {}" "set_rbt r \<inter> set_rbt l = {}"
    using d by (simp_all add: Int_Un_distrib Int_Un_distrib2 Int_commute)
  define m6 where "m6 = zip_upd y k ((reroot p Black l (?m
      (p \<mapsto> \<lparr>rb_parent_color = zpar k OR colbit pc, rb_right = rootp t, rb_left = rootp l\<rparr>,
       y \<mapsto> \<lparr>rb_parent_color = p OR colbit Red, rb_right = p, rb_left = rootp r\<rparr>)))
      (y \<mapsto> \<lparr>rb_parent_color = zpar k OR colbit pc, rb_right = p, rb_left = rootp r\<rparr>,
       p \<mapsto> \<lparr>rb_parent_color = y OR colbit Red, rb_right = rootp t, rb_left = rootp l\<rparr>))"
  define s6 where "s6 = s\<lparr>rb_mem := m6, rb_root := zip_root y k (rb_root s)\<rparr>"
  have col: "rb_set_parent_color (rootp l) p RB_BLACK s' = Some (s'\<lparr>rb_mem := reroot p Black l (rb_mem s')\<rparr>)"
    if "tree_at (rb_mem s') y l" for s' :: "'m rb_tree_scheme"
    using rb_set_parent_color_tree [OF that, of p] l that by (cases l) (auto simp: c_when_def valid_ptr_def)
  obtain s1 where s1: "rot p y s6 = Some s1" "rb_mem s1 = rb_mem s6" "rb_root s1 = rb_root s6" "keep s1 = keep s"
    "val s1 = (val s)(y := aug (Node pc (Node Red r y l) p t), p := aug (Node Red l p t))"
    and rep6: "rb_rep s6 (plug (Node pc r y (Node Red (paint Black l) p t)) k)"
  proof -
    have rep6: "rb_rep s6 (plug (Node pc r y (Node Red (paint Black l) p t)) k)"
      using dj at d by (simp add: rb_rep_plug zip_rep_def s6_def m6_def inorder_plug)
    have ok6: "good p" "val s p = aug (Node pc (Node Red r y l) p t)" "ok s t" "ok s l" "val s6 = val s" "keep s6 = keep s"
      using ok by (simp_all add: aug_ok_plug s6_def)
    have at6: "rb_mem s6 p = Some \<lparr>rb_parent_color = y OR colbit Red, rb_right = rootp t, rb_left = rootp (paint Black l)\<rparr>"
      "tree_at (rb_mem s6) p (paint Black l)" "tree_at (rb_mem s6) p t"
      using rep6 by (simp_all add: rb_rep_plug zip_rep_def)
    have "\<exists>s'. rot p y s6 = Some s' \<and> rb_mem s' = rb_mem s6 \<and> rb_root s' = rb_root s6 \<and> keep s' = keep s6 \<and>
      val s' = (val s6)(y := aug (Node pc (Node Red r y l) p t), p := aug (Node Red (paint Black l) p t))"
      by (rule rot_tree [OF at6(1) ok6(1) _ _ _ _ _ at6(2,3)]) (use ok ok6 dj at(5) in \<open>simp_all add: valid_ptr_def aug_ok_plug\<close>)
    then show ?thesis using that rep6 ok6 by auto
  qed
  have lm: "tree_at (rb_mem s1) p (paint Black l)"
    using rep6 s1 by (simp add: rb_rep_plug zip_rep_def)
  then obtain ln where ln: "rb_mem s1 (rootp l) = Some ln" "\<not> rb_is_red ln"
    using l at(4) by (cases l) (auto simp: valid_ptr_def simp del: colbit.simps)
  have "rb_erase_right_side rot p y s = rb_erase_right_side rot p (rootp l) s1"
    using dj at zpar_valid [OF at(8)] ln s1(1) [unfolded s6_def m6_def]
    by (simp add: rb_erase_right_side_def col rb_rotate_set_parents_zip [where k = k and c = pc]
        valid_ptr_def Let_def)
  moreover have "rb_rep s1 (plug (Node pc r y (Node Red (paint Black l) p t)) k)"
    using rep6 s1 by (simp add: rb_rep_def)
  moreover have "ok s1 (plug (Node pc r y (Node Red (paint Black l) p t)) k)"
    using ok dj d s1(5) by (auto simp: aug_ok_plug comb_rot)
  moreover have "\<forall>a. a \<notin> set_rbt (plug (Node pc (Node Red r y l) p t) k) \<longrightarrow> rb_mem s1 a = rb_mem s a \<and> val s1 a = val s a"
    by (auto simp: inorder_plug s1 s6_def m6_def)
  ultimately show ?thesis using s1 by auto
qed

lemma erase_case4_right:
  assumes rep: "zip_rep s (Node pc (Node Black b y a) p t) k" and b: "color_of b = Red"
    and ok: "ok s (plug (Node pc (Node Black b y a) p t) k)"
  shows "\<exists>s'. rb_erase_right_side rot p y s = Some (Inr s') \<and>
    rb_rep s' (plug (Node pc (paint Black b) y (Node Black a p t)) k) \<and>
    ok s' (plug (Node pc (paint Black b) y (Node Black a p t)) k) \<and> keep s' = keep s \<and>
    (\<forall>x. x \<notin> set_rbt (plug (Node pc (Node Black b y a) p t) k) \<longrightarrow> rb_mem s' x = rb_mem s x \<and> val s' x = val s x)"
proof -
  let ?m = "rb_mem s"
  have d: "distinct (zleft k @ inorder b @ y # inorder a @ p # inorder t @ zright k)"
    using rep by (simp add: zip_rep_def inorder_plug)
  have bL: "b \<noteq> Leaf" using b by auto
  have at: "tree_at ?m p t" "tree_at ?m y a" "tree_at ?m y b" "valid_ptr p" "valid_ptr y"
    "?m p = Some \<lparr>rb_parent_color = zpar k OR colbit pc, rb_right = rootp t, rb_left = y\<rparr>"
    "?m y = Some \<lparr>rb_parent_color = p OR colbit Black, rb_right = rootp a, rb_left = rootp b\<rparr>"
    "zip_at ?m (rb_root s) p k"
    using rep by (auto simp: zip_rep_def)
  have dj: "distinct (zleft k @ zright k)" "p \<notin> zset k" "y \<notin> zset k" "y \<noteq> p" "distinct (inorder a)" "distinct (inorder b)"
    "p \<notin> set_rbt t" "p \<notin> set_rbt a" "p \<notin> set_rbt b" "y \<notin> set_rbt t" "y \<notin> set_rbt a" "y \<notin> set_rbt b"
    "set_rbt t \<inter> zset k = {}" "set_rbt a \<inter> zset k = {}" "set_rbt b \<inter> zset k = {}"
    "zset k \<inter> set_rbt a = {}" "zset k \<inter> set_rbt b = {}" "set_rbt t \<inter> set_rbt a = {}" "set_rbt t \<inter> set_rbt b = {}"
    "set_rbt a \<inter> set_rbt b = {}" "set_rbt b \<inter> set_rbt a = {}"
    using d by (simp_all add: Int_Un_distrib Int_Un_distrib2 Int_commute)
  define m6 where "m6 = zip_upd y k ((reroot p (color_of a) a (reroot y Black b (?m
      (p \<mapsto> \<lparr>rb_parent_color = zpar k OR colbit pc, rb_right = rootp t, rb_left = rootp a\<rparr>,
       y \<mapsto> \<lparr>rb_parent_color = p OR colbit Black, rb_right = p, rb_left = rootp b\<rparr>))))
      (y \<mapsto> \<lparr>rb_parent_color = zpar k OR colbit pc, rb_right = p, rb_left = rootp b\<rparr>,
       p \<mapsto> \<lparr>rb_parent_color = y OR colbit Black, rb_right = rootp t, rb_left = rootp a\<rparr>))"
  define s6 where "s6 = s\<lparr>rb_mem := m6, rb_root := zip_root y k (rb_root s)\<rparr>"
  have col: "rb_set_parent_color (rootp b) y RB_BLACK s' = Some (s'\<lparr>rb_mem := reroot y Black b (rb_mem s')\<rparr>)"
    if "tree_at (rb_mem s') y b" for s' :: "'m rb_tree_scheme"
    using rb_set_parent_color_tree [OF that, of y] bL that by (cases b) (auto simp: c_when_def valid_ptr_def)
  have rep6: "rb_rep s6 (plug (Node pc (paint Black b) y (Node Black a p t)) k)"
    using dj at d by (simp add: rb_rep_plug zip_rep_def s6_def m6_def inorder_plug)
  have ok6: "good p" "val s p = aug (Node pc (Node Black b y a) p t)" "ok s t" "ok s a" "val s6 = val s" "keep s6 = keep s"
    using ok by (simp_all add: aug_ok_plug s6_def)
  have at6: "rb_mem s6 p = Some \<lparr>rb_parent_color = y OR colbit Black, rb_right = rootp t, rb_left = rootp a\<rparr>"
    "tree_at (rb_mem s6) p a" "tree_at (rb_mem s6) p t"
    using rep6 by (simp_all add: rb_rep_plug zip_rep_def)
  have "\<exists>s'. rot p y s6 = Some s' \<and> rb_mem s' = rb_mem s6 \<and> rb_root s' = rb_root s6 \<and> keep s' = keep s6 \<and>
    val s' = (val s6)(y := aug (Node pc (Node Black b y a) p t), p := aug (Node Black a p t))"
    by (rule rot_tree [OF at6(1) ok6(1) _ _ _ _ _ at6(2,3)]) (use ok ok6 dj at(5) in \<open>simp_all add: valid_ptr_def aug_ok_plug\<close>)
  then obtain s' where s': "rot p y s6 = Some s'" "rb_mem s' = rb_mem s6" "rb_root s' = rb_root s6" "keep s' = keep s"
    "val s' = (val s)(y := aug (Node pc (Node Black b y a) p t), p := aug (Node Black a p t))"
    using ok6 by auto
  have "rb_erase_right_side rot p y s = Some (Inr s')"
    using dj at zpar_valid [OF at(8)] b s'(1) [unfolded s6_def m6_def] rb_ptr_is_red_tree [OF at(3)]
    by (simp add: rb_erase_right_side_def col rb_set_parent_tree [where t = a and q = y]
        rb_rotate_set_parents_zip [where k = k and c = pc] valid_ptr_def Let_def)
  moreover have "rb_rep s' (plug (Node pc (paint Black b) y (Node Black a p t)) k)"
    using rep6 s' by (simp add: rb_rep_def)
  moreover have "ok s' (plug (Node pc (paint Black b) y (Node Black a p t)) k)"
    using ok dj d s'(5) by (auto simp: aug_ok_plug comb_rot)
  moreover have "\<forall>x. x \<notin> set_rbt (plug (Node pc (Node Black b y a) p t) k) \<longrightarrow> rb_mem s' x = rb_mem s x \<and> val s' x = val s x"
    by (auto simp: inorder_plug s' s6_def m6_def)
  ultimately show ?thesis using s' by auto
qed

lemma erase_case2_right:
  assumes rep: "zip_rep s (Node pc (Node Black b y a) p t) k" and b: "color_of b = Black" "color_of a = Black"
    and ok: "ok s (plug (Node pc (Node Black b y a) p t) k)"
  shows "\<exists>s'. rb_erase_right_side rot p y s =
      Some (if pc = Black \<and> zpar k \<noteq> NULL then Inl (p, zpar k, s') else Inr s') \<and>
    rb_rep s' (plug (Node Black (Node Red b y a) p t) k) \<and>
    ok s' (plug (Node Black (Node Red b y a) p t) k) \<and> keep s' = keep s \<and>
    (\<forall>x. x \<notin> set_rbt (plug (Node pc (Node Black b y a) p t) k) \<longrightarrow> rb_mem s' x = rb_mem s x \<and> val s' x = val s x)"
proof -
  let ?m = "rb_mem s"
  have d: "distinct (zleft k @ inorder b @ y # inorder a @ p # inorder t @ zright k)"
    using rep by (simp add: zip_rep_def inorder_plug)
  have at: "tree_at ?m p t" "tree_at ?m y a" "tree_at ?m y b" "valid_ptr p" "valid_ptr y"
    "?m p = Some \<lparr>rb_parent_color = zpar k OR colbit pc, rb_right = rootp t, rb_left = y\<rparr>"
    "?m y = Some \<lparr>rb_parent_color = p OR colbit Black, rb_right = rootp a, rb_left = rootp b\<rparr>"
    "zip_at ?m (rb_root s) p k"
    using rep by (auto simp: zip_rep_def)
  have dj: "y \<noteq> p" "p \<notin> zset k" "y \<notin> zset k"
    "p \<notin> set_rbt t" "p \<notin> set_rbt a" "p \<notin> set_rbt b" "y \<notin> set_rbt t" "y \<notin> set_rbt a" "y \<notin> set_rbt b"
    using d by simp_all
  define m1 where "m1 = ?m(y \<mapsto> \<lparr>rb_parent_color = p OR colbit Red, rb_right = rootp a, rb_left = rootp b\<rparr>)"
  define s' where "s' = s\<lparr>rb_mem := if pc = Black then m1
     else m1(p \<mapsto> \<lparr>rb_parent_color = zpar k OR colbit Black, rb_right = rootp t, rb_left = y\<rparr>)\<rparr>"
  have "rb_erase_right_side rot p y s =
      Some (if pc = Black \<and> zpar k \<noteq> NULL then Inl (p, zpar k, s') else Inr s')"
    using dj at zpar_valid [OF at(8)] b rb_ptr_is_red_tree [OF at(3)] rb_ptr_is_red_tree [OF at(2)]
    by (cases pc) (simp_all add: rb_erase_right_side_def valid_ptr_def Let_def s'_def m1_def)
  moreover have "rb_rep s' (plug (Node Black (Node Red b y a) p t) k)"
    using dj at d by (cases pc) (simp_all add: rb_rep_plug zip_rep_def s'_def m1_def inorder_plug)
  moreover have "ok s' (plug (Node Black (Node Red b y a) p t) k)"
    using ok by (auto simp: aug_ok_plug s'_def)
  ultimately show ?thesis by (intro exI [of _ s']) (auto simp: s'_def m1_def inorder_plug)
qed

lemma erase_case3_right:
  assumes rep: "zip_rep s (Node pc (Node Black b y (Node Red a2 z a1)) p t) k" and b: "color_of b = Black"
    and ok: "ok s (plug (Node pc (Node Black b y (Node Red a2 z a1)) p t) k)"
  shows "\<exists>s'. rb_erase_right_side rot p y s = Some (Inr s') \<and>
    rb_rep s' (plug (Node pc (Node Black b y (paint Black a2)) z (Node Black a1 p t)) k) \<and>
    ok s' (plug (Node pc (Node Black b y (paint Black a2)) z (Node Black a1 p t)) k) \<and> keep s' = keep s \<and>
    (\<forall>x. x \<notin> set_rbt (plug (Node pc (Node Black b y (Node Red a2 z a1)) p t) k) \<longrightarrow> rb_mem s' x = rb_mem s x \<and> val s' x = val s x)"
proof -
  let ?m = "rb_mem s" and ?old = "Node pc (Node Black b y (Node Red a2 z a1)) p t"
    and ?new = "Node pc (Node Black b y (paint Black a2)) z (Node Black a1 p t)"
  have d: "distinct (zleft k @ inorder b @ y # inorder a2 @ z # inorder a1 @ p # inorder t @ zright k)"
    using rep by (simp add: zip_rep_def inorder_plug)
  have at: "tree_at ?m p t" "tree_at ?m z a1" "tree_at ?m z a2" "tree_at ?m y b" "valid_ptr p" "valid_ptr y" "valid_ptr z"
    "?m p = Some \<lparr>rb_parent_color = zpar k OR colbit pc, rb_right = rootp t, rb_left = y\<rparr>"
    "?m y = Some \<lparr>rb_parent_color = p OR colbit Black, rb_right = z, rb_left = rootp b\<rparr>"
    "?m z = Some \<lparr>rb_parent_color = y OR colbit Red, rb_right = rootp a1, rb_left = rootp a2\<rparr>"
    "zip_at ?m (rb_root s) p k"
    using rep by (auto simp: zip_rep_def)
  have dj: "distinct (zleft k @ zright k)" "p \<notin> zset k" "y \<notin> zset k" "z \<notin> zset k" "y \<noteq> p" "z \<noteq> p" "y \<noteq> z"
    "distinct (inorder a1)" "distinct (inorder a2)"
    "p \<notin> set_rbt t" "p \<notin> set_rbt a1" "p \<notin> set_rbt a2" "p \<notin> set_rbt b"
    "y \<notin> set_rbt t" "y \<notin> set_rbt a1" "y \<notin> set_rbt a2" "y \<notin> set_rbt b"
    "z \<notin> set_rbt t" "z \<notin> set_rbt a1" "z \<notin> set_rbt a2" "z \<notin> set_rbt b"
    "set_rbt t \<inter> zset k = {}" "set_rbt a1 \<inter> zset k = {}" "set_rbt a2 \<inter> zset k = {}" "set_rbt b \<inter> zset k = {}"
    "zset k \<inter> set_rbt a1 = {}" "zset k \<inter> set_rbt a2 = {}" "set_rbt t \<inter> set_rbt a1 = {}" "set_rbt t \<inter> set_rbt a2 = {}"
    "set_rbt a1 \<inter> set_rbt a2 = {}" "set_rbt a2 \<inter> set_rbt a1 = {}" "set_rbt b \<inter> set_rbt a1 = {}" "set_rbt b \<inter> set_rbt a2 = {}"
    using d by (simp_all add: Int_Un_distrib Int_Un_distrib2 Int_commute)
  define m1 where "m1 = reroot y Black a2 (?m
      (y \<mapsto> \<lparr>rb_parent_color = p OR colbit Black, rb_right = rootp a2, rb_left = rootp b\<rparr>,
       z \<mapsto> \<lparr>rb_parent_color = y OR colbit Red, rb_right = rootp a1, rb_left = y\<rparr>,
       p \<mapsto> \<lparr>rb_parent_color = zpar k OR colbit pc, rb_right = rootp t, rb_left = z\<rparr>))"
  define s1 where "s1 = s\<lparr>rb_mem := m1\<rparr>"
  have ok1: "good y" "val s y = aug (Node Black b y (Node Red a2 z a1))" "ok s t" "ok s a1" "ok s a2" "ok s b" "good p"
     "val s p = aug ?old" "val s1 = val s" "keep s1 = keep s"
    using ok by (simp_all add: aug_ok_plug s1_def)
  have at1: "rb_mem s1 y = Some \<lparr>rb_parent_color = p OR colbit Black, rb_right = rootp (paint Black a2), rb_left = rootp b\<rparr>"
    "tree_at (rb_mem s1) y (paint Black a2)" "tree_at (rb_mem s1) y b"
    using dj at by (simp_all add: s1_def m1_def)
  have "\<exists>s'. rot y z s1 = Some s' \<and> rb_mem s' = rb_mem s1 \<and> rb_root s' = rb_root s1 \<and> keep s' = keep s1 \<and>
    val s' = (val s1)(z := aug (Node Black b y (Node Red a2 z a1)), y := aug (Node Black b y (paint Black a2)))"
    by (rule rot_tree [OF at1(1) ok1(1) _ _ _ _ _ at1(3,2)]) (use ok ok1 dj at(7) in \<open>simp_all add: valid_ptr_def aug_ok_plug\<close>)
  then obtain s2 where s2: "rot y z s1 = Some s2" "rb_mem s2 = m1" "rb_root s2 = rb_root s" "keep s2 = keep s"
    "val s2 = (val s)(z := aug (Node Black b y (Node Red a2 z a1)), y := aug (Node Black b y a2))"
    using ok1 by (auto simp: s1_def)
  define m6 where "m6 = zip_upd z k ((reroot p (color_of a1) a1 (m1
      (p \<mapsto> \<lparr>rb_parent_color = zpar k OR colbit pc, rb_right = rootp t, rb_left = rootp a1\<rparr>,
       z \<mapsto> \<lparr>rb_parent_color = y OR colbit Red, rb_right = p, rb_left = y\<rparr>,
       y \<mapsto> \<lparr>rb_parent_color = z OR colbit Black, rb_right = rootp a2, rb_left = rootp b\<rparr>)))
      (z \<mapsto> \<lparr>rb_parent_color = zpar k OR colbit pc, rb_right = p, rb_left = y\<rparr>,
       p \<mapsto> \<lparr>rb_parent_color = z OR colbit Black, rb_right = rootp t, rb_left = rootp a1\<rparr>))"
  define s6 where "s6 = s2\<lparr>rb_mem := m6, rb_root := zip_root z k (rb_root s)\<rparr>"
  have zx: "m1 y = Some \<lparr>rb_parent_color = p OR colbit Black, rb_right = rootp a2, rb_left = rootp b\<rparr>"
    "m1 z = Some \<lparr>rb_parent_color = y OR colbit Red, rb_right = rootp a1, rb_left = y\<rparr>"
    "m1 p = Some \<lparr>rb_parent_color = zpar k OR colbit pc, rb_right = rootp t, rb_left = z\<rparr>"
    "tree_at m1 z a1" "zip_at m1 (rb_root s) p k"
    using dj at by (simp_all add: m1_def)
  have red: "rb_ptr_is_red z s = Some True"
    using at(6,7,10) by (simp add: rb_ptr_is_red_def valid_ptr_def)
  have run1: "rb_erase_right_side rot p y s =
     do { s \<leftarrow> rb_set_left p (rootp a1) s2; s \<leftarrow> rb_set_right z p s;
          s \<leftarrow> rb_set_parent_color y z RB_BLACK s;
          s \<leftarrow> c_when (rootp a1 \<noteq> NULL) (rb_set_parent (rootp a1) p) s;
          s \<leftarrow> rb_rotate_set_parents p z RB_BLACK s; s \<leftarrow> rot p z s; Some (Inr s) }"
    using dj at s2(1) [unfolded s1_def m1_def] s2(2) zx b rb_ptr_is_red_tree [OF at(4)] red
    by (simp add: rb_erase_right_side_def rb_set_parent_color_tree [where t = a2 and q = z]
        valid_ptr_def Let_def)
  have run2: "\<dots> = do { s \<leftarrow> rot p z s6; Some (Inr s) }"
    using dj at zx s2 zpar_valid [OF at(11)]
    by (simp add: rb_set_parent_tree [where t = a1 and q = z] rb_rotate_set_parents_zip [where k = k and c = pc]
        valid_ptr_def m6_def s6_def)
  have rep6: "rb_rep s6 (plug ?new k)"
    using dj at d by (simp add: rb_rep_plug zip_rep_def s6_def m6_def m1_def inorder_plug)
  have at6: "rb_mem s6 p = Some \<lparr>rb_parent_color = z OR colbit Black, rb_right = rootp t, rb_left = rootp a1\<rparr>"
    "tree_at (rb_mem s6) p a1" "tree_at (rb_mem s6) p t"
    using rep6 by (simp_all add: rb_rep_plug zip_rep_def)
  have v: "val s6 = val s2" "keep s6 = keep s2" by (simp_all add: s6_def)
  have "\<exists>s'. rot p z s6 = Some s' \<and> rb_mem s' = rb_mem s6 \<and> rb_root s' = rb_root s6 \<and> keep s' = keep s6 \<and>
    val s' = (val s6)(z := aug ?old, p := aug (Node Black a1 p t))"
    by (rule rot_tree [OF at6(1) ok1(7) _ _ _ _ _ at6(2,3)]) (use ok ok1 dj at(7) v s2(5) in \<open>simp_all add: valid_ptr_def aug_ok_plug\<close>)
  then obtain s' where s': "rot p z s6 = Some s'" "rb_mem s' = rb_mem s6" "rb_root s' = rb_root s6" "keep s' = keep s"
    "val s' = (val s6)(z := aug ?old, p := aug (Node Black a1 p t))"
    using v s2 by auto
  have "rb_rep s' (plug ?new k)"
    using rep6 s' by (simp add: rb_rep_def)
  moreover have "ok s' (plug ?new k)"
    using ok dj d s'(5) v s2(5) by (auto simp: aug_ok_plug comb_rot)
  moreover have "\<forall>x. x \<notin> set_rbt (plug ?old k) \<longrightarrow> rb_mem s' x = rb_mem s x \<and> val s' x = val s x"
    by (auto simp: inorder_plug s' v s2(5) s6_def m6_def m1_def)
  ultimately show ?thesis using run1 run2 s' by auto
qed

end

lemma zpar_NULL: "zip_at m rt q k \<Longrightarrow> zpar k = NULL \<longleftrightarrow> k = []"
  by (cases k rule: zpar.cases) (auto simp: valid_ptr_def)

lemma fix_left_rootp: "snd (fix_left t pc p sib) \<Longrightarrow> rootp (fst (fix_left t pc p sib)) = p"
  by (cases sib) (auto split: rbt.splits color.splits if_splits)

lemma fix_right_rootp: "snd (fix_right t pc p sib) \<Longrightarrow> rootp (fst (fix_right t pc p sib)) = p"
  by (cases sib) (auto split: rbt.splits color.splits if_splits)

lemma bal_left_rootp: "snd (bal_left t pc p sib) \<Longrightarrow> rootp (fst (bal_left t pc p sib)) = p"
  by (cases "(t, pc, p, sib)" rule: bal_left.cases) (auto simp del: fix_left.simps simp: fix_left_rootp)

lemma bal_right_rootp: "snd (bal_right t pc p sib) \<Longrightarrow> rootp (fst (bal_right t pc p sib)) = p"
  by (cases "(t, pc, p, sib)" rule: bal_right.cases) (auto simp del: fix_right.simps simp: fix_right_rootp)

context rb_augment
begin

text \<open>What one turn of the loop establishes, \<open>r\<close> being the functional result at \<open>p\<close>.\<close>

definition turned :: "'m rb_tree_scheme \<Rightarrow> rbt \<Rightarrow>
  ((addr \<times> addr \<times> 'm rb_tree_scheme) + 'm rb_tree_scheme) option \<Rightarrow> rbt \<times> bool \<Rightarrow> addr \<Rightarrow> zipper \<Rightarrow> bool" where
  "turned s t res r p k \<longleftrightarrow> (\<exists>s'. res = Some (if snd r \<and> zpar k \<noteq> NULL then Inl (p, zpar k, s') else Inr s') \<and>
     rb_rep s' (plug (fst r) k) \<and> ok s' (plug (fst r) k) \<and> keep s' = keep s \<and>
     (\<forall>a. a \<notin> set_rbt (plug t k) \<longrightarrow> rb_mem s' a = rb_mem s a \<and> val s' a = val s a))"

lemma turned_fix_left:
  assumes rep: "zip_rep s (Node pc t p (Node Black a y b)) k" and ok: "ok s (plug (Node pc t p (Node Black a y b)) k)"
  shows "turned s (Node pc t p (Node Black a y b)) (rb_erase_left_side rot p y s) (fix_left t pc p (Node Black a y b)) p k"
proof (cases "color_of b = Red")
  case True
  then show ?thesis using erase_case4_left [OF rep True ok] by (auto simp: turned_def)
next
  case False
  then have b: "color_of b = Black" by simp
  show ?thesis
  proof (cases "\<exists>a1 z a2. a = Node Red a1 z a2")
    case True
    then show ?thesis using rep ok b erase_case3_left [of s pc t p _ _ _ y b k] by (auto simp: turned_def)
  next
    case False
    then have a: "color_of a = Black" by (cases a) auto
    then have "fix_left t pc p (Node Black a y b) = (Node Black t p (Node Red a y b), pc = Black)"
      using b by (cases a) (auto split: color.split)
    then show ?thesis using erase_case2_left [OF rep b a ok] by (simp add: turned_def)
  qed
qed

lemma turned_fix_right:
  assumes rep: "zip_rep s (Node pc (Node Black b y a) p t) k" and ok: "ok s (plug (Node pc (Node Black b y a) p t) k)"
  shows "turned s (Node pc (Node Black b y a) p t) (rb_erase_right_side rot p y s) (fix_right t pc p (Node Black b y a)) p k"
proof (cases "color_of b = Red")
  case True
  then show ?thesis using erase_case4_right [OF rep True ok] by (auto simp: turned_def)
next
  case False
  then have b: "color_of b = Black" by simp
  show ?thesis
  proof (cases "\<exists>a1 z a2. a = Node Red a2 z a1")
    case True
    then show ?thesis using rep ok b erase_case3_right [of s pc b y _ _ _ p t k] by (auto simp: turned_def)
  next
    case False
    then have a: "color_of a = Black" by (cases a) auto
    then have "fix_right t pc p (Node Black b y a) = (Node Black (Node Red b y a) p t, pc = Black)"
      using b by (cases a) (auto split: color.split)
    then show ?thesis using erase_case2_right [OF rep b a ok] by (simp add: turned_def)
  qed
qed

lemma turned_bal_left:
  assumes rep: "zip_rep s (Node pc t p sib) k" and ok: "ok s (plug (Node pc t p sib) k)"
    and sib: "sib \<noteq> Leaf" "\<And>y r. sib \<noteq> Node Red Leaf y r"
  shows "turned s (Node pc t p sib) (rb_erase_left_side rot p (rootp sib) s) (bal_left t pc p sib) p k"
proof (cases sib rule: rbt.exhaust)
  case (Node c l y r)
  show ?thesis
  proof (cases c)
    case Black
    then show ?thesis using turned_fix_left [of s pc t p l y r k] rep ok Node by simp
  next
    case Red
    then have l: "l \<noteq> Leaf" using sib Node by auto
    have rep': "zip_rep s (Node pc t p (Node Red l y r)) k" and ok': "ok s (plug (Node pc t p (Node Red l y r)) k)"
      using rep ok Node Red by simp_all
    obtain s1 where s1: "rb_erase_left_side rot p y s = rb_erase_left_side rot p (rootp l) s1"
      "rb_rep s1 (plug (Node pc (Node Red t p (paint Black l)) y r) k)"
      "ok s1 (plug (Node pc (Node Red t p (paint Black l)) y r) k)" "keep s1 = keep s"
      "\<forall>a. a \<notin> set_rbt (plug (Node pc t p (Node Red l y r)) k) \<longrightarrow> rb_mem s1 a = rb_mem s a \<and> val s1 a = val s a"
      using erase_case1_left [OF rep' l ok'] by blast
    obtain l1 z l2 where l': "paint Black l = Node Black l1 z l2" "rootp l = z" using l by (cases l) auto
    have "turned s1 (Node Red t p (paint Black l)) (rb_erase_left_side rot p (rootp l) s1)
        (fix_left t Red p (paint Black l)) p (FL pc y r # k)"
      using turned_fix_left [of s1 Red t p l1 z l2 "FL pc y r # k"] s1(2,3) l' by (simp add: rb_rep_plug [symmetric] del: fix_left.simps)
    moreover have "set_rbt l = insert z (set_rbt l1 \<union> set_rbt l2)" using arg_cong [OF l'(1), of inorder] by simp
    ultimately show ?thesis
      using s1 Node Red fix_red_color(1) [of "paint Black l" t p] l'
      by (auto simp: turned_def inorder_plug simp del: fix_left.simps)
  qed
qed (use sib in simp)

lemma turned_bal_right:
  assumes rep: "zip_rep s (Node pc sib p t) k" and ok: "ok s (plug (Node pc sib p t) k)"
    and sib: "sib \<noteq> Leaf" "\<And>y r. sib \<noteq> Node Red r y Leaf"
  shows "turned s (Node pc sib p t) (rb_erase_right_side rot p (rootp sib) s) (bal_right t pc p sib) p k"
proof (cases sib rule: rbt.exhaust)
  case (Node c r y l)
  show ?thesis
  proof (cases c)
    case Black
    then show ?thesis using turned_fix_right [of s pc r y l p t k] rep ok Node by simp
  next
    case Red
    then have l: "l \<noteq> Leaf" using sib Node by auto
    have rep': "zip_rep s (Node pc (Node Red r y l) p t) k" and ok': "ok s (plug (Node pc (Node Red r y l) p t) k)"
      using rep ok Node Red by simp_all
    obtain s1 where s1: "rb_erase_right_side rot p y s = rb_erase_right_side rot p (rootp l) s1"
      "rb_rep s1 (plug (Node pc r y (Node Red (paint Black l) p t)) k)"
      "ok s1 (plug (Node pc r y (Node Red (paint Black l) p t)) k)" "keep s1 = keep s"
      "\<forall>a. a \<notin> set_rbt (plug (Node pc (Node Red r y l) p t) k) \<longrightarrow> rb_mem s1 a = rb_mem s a \<and> val s1 a = val s a"
      using erase_case1_right [OF rep' l ok'] by blast
    obtain l1 z l2 where l': "paint Black l = Node Black l2 z l1" "rootp l = z" using l by (cases l) auto
    have "turned s1 (Node Red (paint Black l) p t) (rb_erase_right_side rot p (rootp l) s1)
        (fix_right t Red p (paint Black l)) p (FR pc r y # k)"
      using turned_fix_right [of s1 Red l2 z l1 p t "FR pc r y # k"] s1(2,3) l' by (simp add: rb_rep_plug [symmetric] del: fix_right.simps)
    moreover have "set_rbt l = insert z (set_rbt l1 \<union> set_rbt l2)" using arg_cong [OF l'(1), of inorder] by auto
    ultimately show ?thesis
      using s1 Node Red fix_red_color(2) [of "paint Black l" t p] l'
      by (auto simp: turned_def inorder_plug simp del: fix_right.simps)
  qed
qed (use sib in simp)

lemma rb_erase_color_loop_del_fix:
  assumes "k \<noteq> []" and "rb_rep s (plug t k)" and "ok s (plug t k)"
    and "balanced t" "color_of t = Black" "zbal k (Suc (bheight t))"
  shows "repaired s (plug t k) (rb_erase_color_loop rot (rootp t) (zpar k) s) (del_fix t k)"
  using assms
proof (induction t k arbitrary: s rule: del_fix.induct)
  case (1 t)
  then show ?case by simp
next
  case (2 t pc p sib k)
  let ?r = "bal_left t pc p sib"
  have rep: "zip_rep s (Node pc t p sib) k" and ok: "ok s (plug (Node pc t p sib) k)"
    using "2.prems" by (simp_all add: rb_rep_plug)
  have at: "rb_mem s p = Some \<lparr>rb_parent_color = zpar k OR colbit pc, rb_right = rootp sib, rb_left = rootp t\<rparr>"
    "tree_at (rb_mem s) p sib" "tree_at (rb_mem s) p t" "zip_at (rb_mem s) (rb_root s) p k" and d: "distinct (inorder (plug (Node pc t p sib) k))"
    using rep by (auto simp: zip_rep_def)
  have sib: "sib \<noteq> Leaf" "\<And>y r. sib \<noteq> Node Red Leaf y r" using "2.prems" by auto
  have ne: "rootp t \<noteq> rootp sib"
    using sib(1) rootp_mem [of sib] rootp_mem [of t] d at(2)
    by (cases t; cases sib) (auto simp: inorder_plug valid_ptr_def)
  obtain s' where s': "rb_erase_left_side rot p (rootp sib) s = Some (if snd ?r \<and> zpar k \<noteq> NULL then Inl (p, zpar k, s') else Inr s')"
    "rb_rep s' (plug (fst ?r) k)" "ok s' (plug (fst ?r) k)" "keep s' = keep s"
    "\<forall>a. a \<notin> set_rbt (plug (Node pc t p sib) k) \<longrightarrow> rb_mem s' a = rb_mem s a \<and> val s' a = val s a"
    using turned_bal_left [OF rep ok sib] by (auto simp: turned_def)
  have run: "rb_erase_color_loop rot (rootp t) p s =
     (if snd ?r \<and> zpar k \<noteq> NULL then rb_erase_color_loop rot p (zpar k) s' else Some s')"
    using at(1) ne s'(1) by (simp add: rb_erase_color_loop.simps [of rot "rootp t" p])
  have b: "balanced (fst ?r)" "bheight (fst ?r) = bheight t + (if snd ?r then 1 else if pc = Black then 2 else 1)"
    "snd ?r \<longrightarrow> pc = Black" "color_of (fst ?r) = Red \<longrightarrow> pc = Red \<and> \<not> snd ?r"
    using bal_left_balanced [of t sib pc p] "2.prems" by auto
  have set: "set_rbt (plug (fst ?r) k) = set_rbt (plug (Node pc t p sib) k)" by (simp add: inorder_plug)
  show ?case
  proof (cases "snd ?r \<and> k \<noteq> []")
    case True
    then have "repaired s' (plug (fst ?r) k) (rb_erase_color_loop rot (rootp (fst ?r)) (zpar k) s') (del_fix (fst ?r) k)"
      using "2.IH" [OF refl] s' b "2.prems"(6) by (cases "color_of (fst ?r)") auto
    then show ?thesis
      using True run s' set zpar_NULL [OF at(4)] bal_left_rootp [of t pc p sib] by (simp add: repaired_def Let_def)
  next
    case False
    then have "\<not> (snd ?r \<and> zpar k \<noteq> NULL)" using zpar_NULL [OF at(4)] by auto
    then show ?thesis using False run s' by (auto simp: repaired_def Let_def)
  qed
next
  case (3 t pc sib p k)
  let ?r = "bal_right t pc p sib"
  have rep: "zip_rep s (Node pc sib p t) k" and ok: "ok s (plug (Node pc sib p t) k)"
    using "3.prems" by (simp_all add: rb_rep_plug)
  have at: "rb_mem s p = Some \<lparr>rb_parent_color = zpar k OR colbit pc, rb_right = rootp t, rb_left = rootp sib\<rparr>"
    "zip_at (rb_mem s) (rb_root s) p k"
    using rep by (auto simp: zip_rep_def)
  have sib: "sib \<noteq> Leaf" "\<And>y r. sib \<noteq> Node Red r y Leaf" using "3.prems" by auto
  obtain s' where s': "rb_erase_right_side rot p (rootp sib) s = Some (if snd ?r \<and> zpar k \<noteq> NULL then Inl (p, zpar k, s') else Inr s')"
    "rb_rep s' (plug (fst ?r) k)" "ok s' (plug (fst ?r) k)" "keep s' = keep s"
    "\<forall>a. a \<notin> set_rbt (plug (Node pc sib p t) k) \<longrightarrow> rb_mem s' a = rb_mem s a \<and> val s' a = val s a"
    using turned_bal_right [OF rep ok sib] by (auto simp: turned_def)
  have run: "rb_erase_color_loop rot (rootp t) p s =
     (if snd ?r \<and> zpar k \<noteq> NULL then rb_erase_color_loop rot p (zpar k) s' else Some s')"
    using at(1) s'(1) by (simp add: rb_erase_color_loop.simps [of rot "rootp t" p])
  have b: "balanced (fst ?r)" "bheight (fst ?r) = bheight t + (if snd ?r then 1 else if pc = Black then 2 else 1)"
    "snd ?r \<longrightarrow> pc = Black" "color_of (fst ?r) = Red \<longrightarrow> pc = Red \<and> \<not> snd ?r"
    using bal_right_balanced [of t sib pc p] "3.prems" by auto
  have set: "set_rbt (plug (fst ?r) k) = set_rbt (plug (Node pc sib p t) k)" by (simp add: inorder_plug)
  show ?case
  proof (cases "snd ?r \<and> k \<noteq> []")
    case True
    then have "repaired s' (plug (fst ?r) k) (rb_erase_color_loop rot (rootp (fst ?r)) (zpar k) s') (del_fix (fst ?r) k)"
      using "3.IH" [OF refl] s' b "3.prems"(6) by (cases "color_of (fst ?r)") auto
    then show ?thesis
      using True run s' set zpar_NULL [OF at(2)] bal_right_rootp [of t pc p sib] by (simp add: repaired_def Let_def)
  next
    case False
    then have "\<not> (snd ?r \<and> zpar k \<noteq> NULL)" using zpar_NULL [OF at(2)] by auto
    then show ?thesis using False run s' by (auto simp: repaired_def Let_def)
  qed
qed

end

end
