(* ===== verification/Rbtree_Unlink.thy ===== *)
theory Rbtree_Unlink
  imports Rbtree_Erase
begin

text \<open>
  \<open>__rb_erase_augmented\<close> (linux/rbtree_augmented.h), which takes a node out of the tree and
  says where the rebalancing has to start, and the functions composed of it and
  \<open>____rb_erase_color\<close>: \<open>rb_erase\<close>, \<open>rb_erase_augmented\<close> and their cached variants.
\<close>

section \<open>Segments of a path\<close>

text \<open>\<open>seg_at m tp q k\<close>: the path \<open>k\<close> hangs below \<open>tp\<close>; \<open>q\<close> is the pointer to its focus.\<close>

definition zpar_of :: "addr \<Rightarrow> zipper \<Rightarrow> addr" where
  "zpar_of tp k = (if k = [] then tp else zpar k)"

fun seg_at :: "rb_node store \<Rightarrow> addr \<Rightarrow> addr \<Rightarrow> zipper \<Rightarrow> bool" where
  "seg_at m tp q [] \<longleftrightarrow> True"
| "seg_at m tp q (FL c a r # k) \<longleftrightarrow> valid_ptr a \<and>
     m a = Some \<lparr>rb_parent_color = zpar_of tp k OR colbit c, rb_right = rootp r, rb_left = q\<rparr> \<and>
     tree_at m a r \<and> seg_at m tp a k"
| "seg_at m tp q (FR c l a # k) \<longleftrightarrow> valid_ptr a \<and>
     m a = Some \<lparr>rb_parent_color = zpar_of tp k OR colbit c, rb_right = q, rb_left = rootp l\<rparr> \<and>
     tree_at m a l \<and> seg_at m tp a k"

fun ztop :: "zipper \<Rightarrow> addr" where
  "ztop [] = NULL"
| "ztop [f] = zpar [f]"
| "ztop (f # g # k) = ztop (g # k)"

lemma zpar_of_simps [simp]:
  "zpar_of tp [] = tp" "zpar_of tp (f # k) = zpar (f # k)" "zpar_of NULL k = zpar k"
  by (auto simp: zpar_of_def)

lemma zip_at_seg: "zip_at m rt q k \<Longrightarrow> seg_at m NULL q k"
  by (induction m rt q k rule: zip_at.induct) auto

lemma tree_at_plug: "tree_at m tp (plug t k) \<longleftrightarrow> tree_at m (zpar_of tp k) t \<and> seg_at m tp (rootp t) k"
  by (induction t k rule: plug.induct) auto

lemma seg_at_cong: "(\<And>a. a \<in> zset k \<Longrightarrow> m' a = m a) \<Longrightarrow> seg_at m' tp q k = seg_at m tp q k"
proof (induction m tp q k rule: seg_at.induct)
  case (2 m tp q c a r k)
  then show ?case using tree_at_cong [of r m' m a] by auto
next
  case (3 m tp q c l a k)
  then show ?case using tree_at_cong [of l m' m a] by auto
qed simp

lemma seg_at_upd [simp]: "a \<notin> zset k \<Longrightarrow> seg_at (m(a \<mapsto> n)) tp q k = seg_at m tp q k"
  by (rule seg_at_cong) auto

lemma seg_at_reroot [simp]:
  "zset k \<inter> set_rbt u = {} \<Longrightarrow> seg_at (reroot p c u m) tp q k = seg_at m tp q k"
  by (rule seg_at_cong) (metis disjoint_iff reroot_other)

lemma seg_at_zip_upd [simp]:
  "zset k' \<inter> zset k = {} \<Longrightarrow> seg_at (zip_upd q' k m) tp q k' = seg_at m tp q k'"
  by (rule seg_at_cong) (metis disjoint_iff zip_upd_other)

lemma ztop_mem: "k \<noteq> [] \<Longrightarrow> ztop k \<in> zset k"
proof (induction k rule: ztop.induct)
  case (2 f)
  then show ?case by (cases f) auto
next
  case (3 f g k)
  then show ?case by (cases f) auto
qed simp

lemma ztop_append: "k' \<noteq> [] \<Longrightarrow> ztop (k @ k') = ztop k'"
  by (induction k rule: ztop.induct) (auto simp: neq_Nil_conv)

lemma rootp_plug: "rootp (plug t k) = (if k = [] then rootp t else ztop k)"
proof (induction k arbitrary: t rule: ztop.induct)
  case (2 f)
  then show ?case by (cases f) auto
next
  case (3 f g k)
  then show ?case by (cases f) auto
qed simp

text \<open>Another pointer at the lower end of a path along left children, another parent at its top.\<close>

lemma seg_at_bottom:
  assumes "seg_at m tp q k" and "zleft k = []" and "k \<noteq> []" and "distinct (zright k)"
  shows "\<exists>n. m (zpar k) = Some n \<and> rb_left n = q \<and> seg_at (m(zpar k \<mapsto> n\<lparr>rb_left := q'\<rparr>)) tp q' k"
  using assms by (cases k rule: zpar.cases) auto

lemma seg_at_top:
  assumes "seg_at m tp q k" and "k \<noteq> []" and "distinct (zleft k @ zright k)" and "aligned tp"
  shows "\<exists>n. m (ztop k) = Some n \<and>
    seg_at (m(ztop k \<mapsto> n\<lparr>rb_parent_color := rb_color n OR tp'\<rparr>)) tp' q k"
  using assms
proof (induction m tp q k rule: seg_at.induct)
  case (2 m tp q c a r k)
  show ?case
  proof (cases "k = []")
    case True
    let ?n = "\<lparr>rb_parent_color = tp OR colbit c, rb_right = rootp r, rb_left = q\<rparr>"
    have n: "?n\<lparr>rb_parent_color := rb_color ?n OR tp'\<rparr> = \<lparr>rb_parent_color = tp' OR colbit c, rb_right = rootp r, rb_left = q\<rparr>"
      using "2.prems"(4) by (simp add: or.commute)
    have "m a = Some ?n" "valid_ptr a" "tree_at m a r" "a \<notin> set_rbt r" using "2.prems" True by simp_all
    then have "m (ztop [FL c a r]) = Some ?n \<and> seg_at (m(ztop [FL c a r] \<mapsto> ?n\<lparr>rb_parent_color := rb_color ?n OR tp'\<rparr>)) tp' q [FL c a r]"
      unfolding n by simp
    then show ?thesis using True by blast
  next
    case False
    then obtain f k' where k: "k = f # k'" by (cases k) auto
    have "ztop k \<noteq> a" "ztop k \<notin> set_rbt r" using "2.prems"(3) ztop_mem [OF False] by auto
    obtain n where "m (ztop k) = Some n" "seg_at (m(ztop k \<mapsto> n\<lparr>rb_parent_color := rb_color n OR tp'\<rparr>)) tp' a k"
    proof -
      have "distinct (zleft k @ zright k)" "seg_at m tp a k" using "2.prems" by auto
      then show thesis using that "2.IH" "2.prems"(4) False by blast
    qed
    moreover define m' where "m' = m(ztop k \<mapsto> n\<lparr>rb_parent_color := rb_color n OR tp'\<rparr>)"
    moreover have "m' a = m a" "tree_at m' a r = tree_at m a r"
      using \<open>ztop k \<noteq> a\<close> \<open>ztop k \<notin> set_rbt r\<close> by (simp_all add: m'_def)
    ultimately have "m (ztop k) = Some n \<and> seg_at m' tp' q (FL c a r # k)"
      using "2.prems" k by simp
    moreover have "ztop (FL c a r # k) = ztop k" using k by simp
    ultimately show ?thesis unfolding m'_def by metis
  qed
next
  case (3 m tp q c l a k)
  show ?case
  proof (cases "k = []")
    case True
    let ?n = "\<lparr>rb_parent_color = tp OR colbit c, rb_right = q, rb_left = rootp l\<rparr>"
    have n: "?n\<lparr>rb_parent_color := rb_color ?n OR tp'\<rparr> = \<lparr>rb_parent_color = tp' OR colbit c, rb_right = q, rb_left = rootp l\<rparr>"
      using "3.prems"(4) by (simp add: or.commute)
    have "m a = Some ?n" "valid_ptr a" "tree_at m a l" "a \<notin> set_rbt l" using "3.prems" True by simp_all
    then have "m (ztop [FR c l a]) = Some ?n \<and> seg_at (m(ztop [FR c l a] \<mapsto> ?n\<lparr>rb_parent_color := rb_color ?n OR tp'\<rparr>)) tp' q [FR c l a]"
      unfolding n by simp
    then show ?thesis using True by blast
  next
    case False
    then obtain f k' where k: "k = f # k'" by (cases k) auto
    have "ztop k \<noteq> a" "ztop k \<notin> set_rbt l" using "3.prems"(3) ztop_mem [OF False] by auto
    obtain n where "m (ztop k) = Some n" "seg_at (m(ztop k \<mapsto> n\<lparr>rb_parent_color := rb_color n OR tp'\<rparr>)) tp' a k"
    proof -
      have "distinct (zleft k @ zright k)" "seg_at m tp a k" using "3.prems" by auto
      then show thesis using that "3.IH" "3.prems"(4) False by blast
    qed
    moreover define m' where "m' = m(ztop k \<mapsto> n\<lparr>rb_parent_color := rb_color n OR tp'\<rparr>)"
    moreover have "m' a = m a" "tree_at m' a l = tree_at m a l"
      using \<open>ztop k \<noteq> a\<close> \<open>ztop k \<notin> set_rbt l\<close> by (simp_all add: m'_def)
    ultimately have "m (ztop k) = Some n \<and> seg_at m' tp' q (FR c l a # k)"
      using "3.prems" k by simp
    moreover have "ztop (FR c l a # k) = ztop k" using k by simp
    ultimately show ?thesis unfolding m'_def by metis
  qed
qed simp

text \<open>The way down to the smallest node.\<close>

fun min_path :: "rbt \<Rightarrow> zipper \<Rightarrow> color \<times> addr \<times> rbt \<times> zipper" where
  "min_path (Node c l a r) k = (case l of Leaf \<Rightarrow> (c, a, r, k) | _ \<Rightarrow> min_path l (FL c a r # k))"
| "min_path Leaf k = (Red, NULL, Leaf, k)"

lemma min_path_plug:
  "min_path t k = (c, a, r, k') \<Longrightarrow> t \<noteq> Leaf \<Longrightarrow>
     \<exists>kz. k' = kz @ k \<and> t = plug (Node c Leaf a r) kz \<and> zleft kz = []"
proof (induction t arbitrary: k)
  case (Node cl l al r0)
  show ?case
  proof (cases l)
    case Leaf
    then show ?thesis using Node.prems by auto
  next
    case (Node c1 l1 a1 r1)
    then have "min_path l (FL cl al r0 # k) = (c, a, r, k')" using Node.prems by simp
    then obtain kz where "k' = kz @ FL cl al r0 # k" "l = plug (Node c Leaf a r) kz" "zleft kz = []"
      using Node.IH(1) Node by blast
    moreover have "zleft (kz @ [FL cl al r0]) = zleft kz"
      by (induction kz rule: zleft.induct) auto
    ultimately show ?thesis by (intro exI [of _ "kz @ [FL cl al r0]"]) (simp add: plug_append)
  qed
qed simp

lemma rb_successor_loop_spec:
  "\<lbrakk>tree_at (rb_mem s) p t; t \<noteq> Leaf; min_path t k = (c, a, r, kz)\<rbrakk> \<Longrightarrow>
   \<exists>kz'. kz = kz' @ k \<and> rb_successor_loop p (rootp t) s = Some (zpar_of p kz', a)"
proof (induction t arbitrary: p k)
  case (Node c1 l1 a1 r1)
  show ?case
  proof (cases l1)
    case Leaf
    then show ?thesis using Node.prems by (auto simp: rb_successor_loop.simps [of p a])
  next
    case (Node c2 l2 a2 r2)
    then obtain kz' where kz': "kz = kz' @ FL c1 a1 r1 # k" "rb_successor_loop a1 (rootp l1) s = Some (zpar_of a1 kz', a)"
      using Node.IH(1) [of a1 "FL c1 a1 r1 # k"] Node.prems by auto
    have "zpar_of p (kz' @ [FL c1 a1 r1]) = zpar_of a1 kz'"
      by (cases kz' rule: zpar.cases) auto
    then show ?thesis
      using kz' Node Node.prems by (intro exI [of _ "kz' @ [FL c1 a1 r1]"])
        (simp add: rb_successor_loop.simps [of p a1] valid_ptr_def)
  qed
qed simp

section \<open>The callbacks\<close>

text \<open>
  The values along a path when that of its lowest node is arbitrary: the state in which the
  source calls \<open>propagate\<close>, after the subtree at the lower end has changed.
\<close>

fun zaug_path ::
  "(addr \<Rightarrow> 'v option \<Rightarrow> 'v option \<Rightarrow> 'v) \<Rightarrow> (addr \<Rightarrow> bool) \<Rightarrow> (addr \<Rightarrow> 'v option) \<Rightarrow> zipper \<Rightarrow> bool"
where
  "zaug_path comb good v [] \<longleftrightarrow> True"
| "zaug_path comb good v (FL c a r # k) \<longleftrightarrow> good a \<and> aug_ok comb good v r \<and>
     (\<exists>y. v a = Some y \<and> zaug_ok comb good v (Some y) k)"
| "zaug_path comb good v (FR c l a # k) \<longleftrightarrow> good a \<and> aug_ok comb good v l \<and>
     (\<exists>y. v a = Some y \<and> zaug_ok comb good v (Some y) k)"

lemma zaug_ok_path: "zaug_ok comb good v x k \<Longrightarrow> zaug_path comb good v k"
  by (cases k rule: zpar.cases) auto

lemma zaug_path_cong:
  assumes "\<And>a. a \<in> zset k \<Longrightarrow> v' a = v a" shows "zaug_path comb good v' k = zaug_path comb good v k"
proof (cases k rule: zpar.cases)
  case (2 c a r k')
  have "aug_ok comb good v' r = aug_ok comb good v r" by (rule aug_ok_cong) (use assms 2 in auto)
  moreover have "zaug_ok comb good v' y k' = zaug_ok comb good v y k'" for y
    by (rule zaug_ok_cong) (use assms 2 in auto)
  ultimately show ?thesis using 2 assms [of a] by auto
next
  case (3 c l a k')
  have "aug_ok comb good v' l = aug_ok comb good v l" by (rule aug_ok_cong) (use assms 3 in auto)
  moreover have "zaug_ok comb good v' y k' = zaug_ok comb good v y k'" for y
    by (rule zaug_ok_cong) (use assms 3 in auto)
  ultimately show ?thesis using 3 assms [of a] by auto
qed simp

lemma aug_of_plug: "aug_of comb t = aug_of comb t' \<Longrightarrow> aug_of comb (plug t k) = aug_of comb (plug t' k)"
  by (induction t k arbitrary: t' rule: plug.induct) auto

text \<open>
  \<open>copy\<close> gives the new node the value of the old one; \<open>propagate\<close> recomputes the values from
  a node up to \<open>stop\<close>, and may leave off where nothing changes any more.
\<close>

locale rb_callbacks = rb_augment "aug_rotate cb" val comb good keep
  for cb :: "('m rb_tree_scheme) rb_augment_callbacks"
    and val :: "'m rb_tree_scheme \<Rightarrow> addr \<Rightarrow> 'v option"
    and comb :: "addr \<Rightarrow> 'v option \<Rightarrow> 'v option \<Rightarrow> 'v"
    and good :: "addr \<Rightarrow> bool"
    and keep :: "'m rb_tree_scheme \<Rightarrow> 'k" +
  assumes copy_law: "\<lbrakk>val s old = Some v; val s new \<noteq> None\<rbrakk> \<Longrightarrow>
      \<exists>s'. aug_copy cb old new s = Some s' \<and> rb_mem s' = rb_mem s \<and> rb_root s' = rb_root s \<and>
        keep s' = keep s \<and> val s' = (val s)(new := Some v)"
    and propagate_law: "\<lbrakk>seg_at (rb_mem s) tp q k; aligned tp; tp \<notin> zset k; distinct (zleft k @ zright k);
        q \<notin> zset k; q = NULL \<or> val s q \<noteq> None; ptr_aug (val s) q = x; zaug_path comb good (val s) k\<rbrakk> \<Longrightarrow>
      \<exists>s'. aug_propagate cb (zpar_of tp k) tp s = Some s' \<and> rb_mem s' = rb_mem s \<and>
        rb_root s' = rb_root s \<and> keep s' = keep s \<and> zaug_ok comb good (val s') x k \<and>
        (\<forall>a. a \<notin> zset k \<longrightarrow> val s' a = val s a)"

lemma zaug_ok_no_val: "aug_ok no_comb (\<lambda>_. True) (no_val s) t" "zaug_ok no_comb (\<lambda>_. True) (no_val s) x k"
proof -
  show t: "aug_ok no_comb (\<lambda>_. True) (no_val s) t" for t :: rbt
    by (induction t) (simp_all add: no_val_def no_comb_def)
  show "zaug_ok no_comb (\<lambda>_. True) (no_val s) x k"
    by (induction k arbitrary: x rule: zleft.induct) (simp_all add: no_val_def no_comb_def t [unfolded no_val_def])
qed

interpretation dummy_cb: rb_callbacks dummy_callbacks no_val no_comb "\<lambda>_. True"
  "rb_tree.more :: 'm rb_tree_scheme \<Rightarrow> 'm"
proof (unfold_locales, goal_cases)
  case (5 s old n v new)
  then show ?case
    by (intro exI [of _ s]) (simp add: dummy_callbacks_def dummy_rotate_def fun_eq_iff no_val_def no_comb_def)
next
  case (7 s old v new)
  then show ?case by (intro exI [of _ s]) (simp add: dummy_callbacks_def dummy_copy_def fun_eq_iff no_val_def)
next
  case (8 s tp q k x)
  show ?case by (intro exI [of _ s]) (simp add: dummy_callbacks_def dummy_propagate_def zaug_ok_no_val)
qed (simp_all add: fun_eq_iff no_val_def no_comb_def)

section \<open>Unlinking as a function\<close>

text \<open>
  The tree after the node \<open>Node c l x r\<close> at \<open>k\<close> has been unlinked, as a focus and a path, and
  whether the focus is short of a black node.
\<close>

definition unlink :: "color \<Rightarrow> rbt \<Rightarrow> rbt \<Rightarrow> zipper \<Rightarrow> rbt \<times> zipper \<times> bool" where
  "unlink c l r k =
     (if l = Leaf then (paint c r, k, r = Leaf \<and> c = Black)
      else if r = Leaf then (paint c l, k, False)
      else case min_path r [] of
        (sc, y, r2, kz) \<Rightarrow> (paint Black r2, kz @ FR c l y # k, r2 = Leaf \<and> sc = Black))"

definition del_at :: "color \<Rightarrow> rbt \<Rightarrow> rbt \<Rightarrow> zipper \<Rightarrow> rbt" where
  "del_at c l r k = (case unlink c l r k of (t, k', short) \<Rightarrow> if short then del_fix t k' else plug t k')"

lemma zleft_append: "zleft (k @ k') = zleft k' @ zleft k" and zright_append: "zright (k @ k') = zright k @ zright k'"
  by (induction k rule: zleft.induct) auto

lemma inorder_unlink:
  "unlink c l r k = (t, k', short) \<Longrightarrow> inorder (plug t k') = zleft k @ inorder l @ inorder r @ zright k"
proof (cases "l = Leaf \<or> r = Leaf")
  case True
  then show "unlink c l r k = (t, k', short) \<Longrightarrow> ?thesis" by (auto simp: unlink_def inorder_plug split: if_splits)
next
  case False
  obtain sc y r2 kz where m: "min_path r [] = (sc, y, r2, kz)" by (metis prod_cases4)
  then have "r = plug (Node sc Leaf y r2) kz" "zleft kz = []" using min_path_plug [OF m] False by auto
  then show "unlink c l r k = (t, k', short) \<Longrightarrow> ?thesis"
    using m False by (auto simp: unlink_def inorder_plug zleft_append zright_append)
qed

lemma inorder_del_at: "inorder (del_at c l r k) = zleft k @ inorder l @ inorder r @ zright k"
proof -
  obtain t k' short where "unlink c l r k = (t, k', short)" by (metis prod_cases3)
  then show ?thesis using inorder_unlink by (simp add: del_at_def inorder_del_fix)
qed

lemma zbal_append_addr: "zbal (kz @ FR c l x # k) n = zbal (kz @ FR c l y # k) n"
  and zcolor_append_addr: "zcolor (kz @ FR c l x # k) = zcolor (kz @ FR c l y # k)"
proof -
  show "zcolor (kz @ FR c l x # k) = zcolor (kz @ FR c l y # k)" for kz
    by (cases kz rule: zcolor.cases) auto
  then show "zbal (kz @ FR c l x # k) n = zbal (kz @ FR c l y # k) n"
    by (induction kz arbitrary: n rule: zleft.induct) auto
qed

lemma is_rbt_unlink_single:
  assumes "balanced (Node c Leaf x r)" "zbal k (bheight (Node c Leaf x r))" "c = Red \<longrightarrow> k \<noteq> [] \<and> zcolor k = Black"
  shows "r = Leaf \<Longrightarrow> c = Black \<Longrightarrow> is_rbt (del_fix Leaf k)"
    and "r = Leaf \<Longrightarrow> c = Red \<Longrightarrow> is_rbt (plug Leaf k)"
    and "r \<noteq> Leaf \<Longrightarrow> c = Black \<and> is_rbt (plug (paint Black r) k)"
proof -
  show "is_rbt (del_fix Leaf k)" if "r = Leaf" "c = Black" using assms that by (simp add: is_rbt_del_fix)
  show "is_rbt (plug Leaf k)" if "r = Leaf" "c = Red" using assms that by (simp add: is_rbt_plug)
  assume r: "r \<noteq> Leaf"
  have "bheight r = 0" "balanced r" using assms by auto
  with r obtain a y b where r': "r = Node Red a y b" by (cases r) (auto split: if_splits)
  with assms show "c = Black \<and> is_rbt (plug (paint Black r) k)"
    by (cases c) (auto intro: is_rbt_plug)
qed

lemma is_rbt_del_at:
  assumes "is_rbt (plug (Node c l x r) k)" shows "is_rbt (del_at c l r k)"
proof -
  have b: "balanced (Node c l x r)" "zbal k (bheight (Node c l x r))" "c = Red \<longrightarrow> k \<noteq> [] \<and> zcolor k = Black"
    using assms is_rbt_plugD [of "Node c l x r" k] by (auto simp: is_rbt_def)
  consider (L) "l = Leaf" | (R) "l \<noteq> Leaf" "r = Leaf" | (LR) "l \<noteq> Leaf" "r \<noteq> Leaf" by blast
  then show ?thesis
  proof cases
    case L
    show ?thesis
      using is_rbt_unlink_single [OF b [unfolded L]]
      by (cases c; cases "r = Leaf") (simp_all add: del_at_def unlink_def L del: zbal.simps)
  next
    case R
    then obtain a y b' where l: "l = Node Red a y b'" using b(1) by (cases l) (auto split: if_splits)
    then show ?thesis using R b by (cases c) (auto simp: del_at_def unlink_def intro: is_rbt_plug)
  next
    case LR
    obtain sc y r2 kz where m: "min_path r [] = (sc, y, r2, kz)" by (metis prod_cases4)
    then have r: "r = plug (Node sc Leaf y r2) kz" using min_path_plug [OF m LR(2)] by auto
    let ?k = "\<lambda>x. kz @ FR c l x # k"
    have "is_rbt (plug (Node sc Leaf y r2) (?k x))" using assms r by (simp add: plug_append)
    then have b': "balanced (Node sc Leaf y r2)" "zbal (?k y) (bheight (Node sc Leaf y r2))"
        "sc = Red \<longrightarrow> ?k y \<noteq> [] \<and> zcolor (?k y) = Black"
      using is_rbt_plugD [of "Node sc Leaf y r2" "?k x"] zbal_append_addr [of kz c l x k _ y]
        zcolor_append_addr [of kz c l x k y]
      by (auto simp: is_rbt_def simp del: zbal.simps bheight.simps)
    then show ?thesis
      using is_rbt_unlink_single [OF b'] LR m by (cases "r2 = Leaf"; cases sc) (auto simp: del_at_def unlink_def)
  qed
qed

lemma is_rbt_unlink_short:
  assumes "is_rbt (plug (Node c l x r) k)" and "unlink c l r k = (t, k', True)"
  shows "t = Leaf" and "zbal k' (Suc 0)"
proof -
  have b: "balanced (Node c l x r)" "zbal k (bheight (Node c l x r))"
    using assms is_rbt_plugD [of "Node c l x r" k] by (auto simp: is_rbt_def)
  have "t = Leaf \<and> zbal k' (Suc 0)"
  proof (cases "l = Leaf \<or> r = Leaf")
    case True
    then show ?thesis using assms(2) b by (auto simp: unlink_def split: if_splits)
  next
    case False
    obtain sc y r2 kz where m: "min_path r [] = (sc, y, r2, kz)" by (metis prod_cases4)
    then have r: "r = plug (Node sc Leaf y r2) kz" using min_path_plug [OF m] False by auto
    then have "is_rbt (plug (Node sc Leaf y r2) (kz @ FR c l x # k))" using assms by (simp add: plug_append)
    then have "zbal (kz @ FR c l y # k) (bheight (Node sc Leaf y r2))"
      using is_rbt_plugD [of "Node sc Leaf y r2" "kz @ FR c l x # k"] zbal_append_addr [of kz c l x k _ y]
      by (auto simp: is_rbt_def simp del: zbal.simps bheight.simps)
    then show ?thesis using assms(2) False m by (auto simp: unlink_def)
  qed
  then show "t = Leaf" "zbal k' (Suc 0)" by auto
qed

section \<open>Unlinking on the pointers\<close>

lemma tree_at_valid: "tree_at m p t \<Longrightarrow> a \<in> set_rbt t \<Longrightarrow> valid_ptr a"
  by (induction t arbitrary: p) auto

lemma zip_at_valid: "zip_at m rt q k \<Longrightarrow> a \<in> zset k \<Longrightarrow> valid_ptr a"
  by (induction m rt q k rule: zip_at.induct) (auto dest: tree_at_valid)

lemma tree_at_in_dom: "tree_at m p t \<Longrightarrow> a \<in> set_rbt t \<Longrightarrow> m a \<noteq> None"
  by (induction t arbitrary: p) auto

lemma zip_at_in_dom: "zip_at m rt q k \<Longrightarrow> a \<in> zset k \<Longrightarrow> m a \<noteq> None"
  by (induction m rt q k rule: zip_at.induct) (auto dest: tree_at_in_dom)

lemma rb_root_mem_comm: "s\<lparr>rb_root := p, rb_mem := m\<rparr> = s\<lparr>rb_mem := m, rb_root := p\<rparr>"
  by simp

context rb_callbacks
begin

lemma propagate_top:
  assumes rep: "zip_rep s t k" and ok: "ok s t" and path: "zaug_path comb good (val s) k"
  shows "\<exists>s'. aug_propagate cb (zpar k) NULL s = Some s' \<and> rb_mem s' = rb_mem s \<and> rb_root s' = rb_root s \<and>
    keep s' = keep s \<and> ok s' (plug t k) \<and> (\<forall>a. a \<notin> zset k \<longrightarrow> val s' a = val s a)"
proof -
  have z: "zip_at (rb_mem s) (rb_root s) (rootp t) k" and t: "tree_at (rb_mem s) (zpar k) t"
    and d: "distinct (zleft k @ inorder t @ zright k)"
    using rep by (auto simp: zip_rep_def inorder_plug)
  have "NULL \<notin> zset k" using zip_at_valid [OF z, of NULL] by (auto simp: valid_ptr_def)
  moreover from this have "rootp t \<notin> zset k" using d by (cases t) auto
  moreover have "distinct (zleft k @ zright k)" using d by auto
  moreover have "rootp t = NULL \<or> val s (rootp t) \<noteq> None" using aug_ok_root [OF ok] by (cases t) auto
  ultimately obtain s' where s': "aug_propagate cb (zpar k) NULL s = Some s'" "rb_mem s' = rb_mem s"
    "rb_root s' = rb_root s" "keep s' = keep s" "zaug_ok comb good (val s') (aug t) k" "\<forall>a. a \<notin> zset k \<longrightarrow> val s' a = val s a"
    using propagate_law [OF zip_at_seg [OF z] aligned_NULL _ _ _ _ ptr_aug_tree [OF t ok] path] by auto
  have "ok s' t = ok s t" by (rule aug_ok_cong) (use s'(6) d in auto)
  then show ?thesis using s' ok by (auto simp: aug_ok_plug)
qed

text \<open>What the unlinking establishes, \<open>u\<close> being the functional result.\<close>

definition unlinked :: "'m rb_tree_scheme \<Rightarrow> (addr \<times> 'm rb_tree_scheme) option \<Rightarrow> rbt \<times> zipper \<times> bool \<Rightarrow> bool" where
  "unlinked s res u \<longleftrightarrow> (case u of (t, k, short) \<Rightarrow>
     \<exists>s'. res = Some (if short then zpar k else NULL, s') \<and> rb_rep s' (plug t k) \<and> ok s' (plug t k) \<and>
       keep s' = keep s \<and> (\<forall>a. a \<notin> set_rbt (plug t k) \<longrightarrow> rb_mem s' a = rb_mem s a \<and> val s' a = val s a))"

lemma unlink_one_child:
  assumes rep: "zip_rep s (Node c l x r) k" and ok: "ok s (plug (Node c l x r) k)" and LR: "l = Leaf \<or> r = Leaf"
  shows "unlinked s (raw_rb_erase_augmented x cb s) (unlink c l r k)"
proof -
  let ?m = "rb_mem s"
  define t where "t = (if l = Leaf then r else l)"
  have d: "distinct (zleft k @ inorder l @ x # inorder r @ zright k)"
    using rep by (simp add: zip_rep_def inorder_plug)
  have at: "?m x = Some \<lparr>rb_parent_color = zpar k OR colbit c, rb_right = rootp r, rb_left = rootp l\<rparr>"
    "tree_at ?m x l" "tree_at ?m x r" "valid_ptr x" "zip_at ?m (rb_root s) x k"
    using rep by (auto simp: zip_rep_def)
  have al: "aligned (zpar k)" using zpar_valid [OF at(5)] .
  have tr: "tree_at ?m x t" "distinct (inorder t)" "x \<notin> zset k" "distinct (zleft k @ zright k)"
    "zset k \<inter> set_rbt t = {}" "set_rbt t \<inter> zset k = {}" "ok s t" "distinct (zleft k @ inorder t @ zright k)"
    using at d ok by (auto simp: t_def aug_ok_plug)
  define s1 where "s1 = s\<lparr>rb_mem := zip_upd (rootp t) k (reroot (zpar k) c t ?m), rb_root := zip_root (rootp t) k (rb_root s)\<rparr>"
  have comm: "reroot (zpar k) c t (zip_upd (rootp t) k m) = zip_upd (rootp t) k (reroot (zpar k) c t m)" for m
    using tr(5) by (cases t; cases k rule: zpar.cases) (auto simp: fun_upd_twist)
  have pc: "rb_set_pc (rootp t) (zpar k OR colbit c) s' = Some (s'\<lparr>rb_mem := reroot (zpar k) c t (rb_mem s')\<rparr>)"
    if "tree_at (rb_mem s') x t" "t \<noteq> Leaf" for s' :: "'m rb_tree_scheme"
    using that by (cases t) auto
  have z1: "zip_at (reroot (zpar k) c t ?m) (rb_root s) x k" using at(5) tr by simp
  have run: "raw_rb_erase_augmented x cb s =
      do { s \<leftarrow> aug_propagate cb (zpar k) NULL s1;
           Some (if t = Leaf \<and> c = Black then zpar k else NULL, s) }"
  proof (cases "l = Leaf")
    case True
    then have "t = r" by (simp add: t_def)
    show ?thesis
    proof (cases "r = Leaf")
      case rL: True
      show ?thesis using True rL al at
        by (simp add: raw_rb_erase_augmented_def rb_change_child_zip [OF at(5) tr(4) _ tr(3)] valid_ptr_def s1_def t_def Let_def)
    next
      case False
      then have "rootp r \<noteq> NULL" using at(3) by (cases r) (auto simp: valid_ptr_def)
      then show ?thesis using True False al at pc \<open>t = r\<close> tr comm
        by (simp add: rb_root_mem_comm raw_rb_erase_augmented_def rb_change_child_zip [OF at(5) tr(4) _ tr(3)] valid_ptr_def s1_def Let_def)
    qed
  next
    case False
    then have "t = l" "r = Leaf" using LR by (auto simp: t_def)
    moreover have "rootp l \<noteq> NULL" using False at(2) by (cases l) (auto simp: valid_ptr_def)
    ultimately show ?thesis using False al at pc tr z1
      by (simp add: raw_rb_erase_augmented_def rb_change_child_zip valid_ptr_def s1_def Let_def)
  qed
  have rep1: "zip_rep s1 (paint c t) k"
    using tr at by (simp add: zip_rep_def s1_def inorder_plug)
  have ok1: "ok s1 (paint c t)" "zaug_path comb good (val s1) k" "keep s1 = keep s"
    using ok tr zaug_ok_path by (auto simp: s1_def aug_ok_plug)
  obtain s' where s': "aug_propagate cb (zpar k) NULL s1 = Some s'" "rb_mem s' = rb_mem s1" "rb_root s' = rb_root s1"
    "keep s' = keep s" "ok s' (plug (paint c t) k)" "\<forall>a. a \<notin> zset k \<longrightarrow> val s' a = val s1 a"
    using propagate_top [OF rep1 ok1(1,2)] ok1(3) by auto
  have "rb_rep s' (plug (paint c t) k)" using rep1 s' by (simp add: rb_rep_plug zip_rep_def)
  moreover have "\<forall>a. a \<notin> set_rbt (plug (paint c t) k) \<longrightarrow> rb_mem s' a = rb_mem s a \<and> val s' a = val s a"
    using s'(6) by (auto simp: inorder_plug s'(2) s1_def)
  moreover have "unlink c l r k = (paint c t, k, t = Leaf \<and> c = Black)"
    using LR by (auto simp: unlink_def t_def)
  ultimately show ?thesis using run s' by (auto simp: unlinked_def)
qed

end

lemma zpar_snoc: "zpar (kz @ [FL c p r]) = zpar_of p kz"
  by (cases kz rule: zpar.cases) auto

context rb_callbacks
begin

lemma rb_erase_cut_successor_spec:
  assumes rep: "zip_rep s (Node c l x r) k" and ok: "ok s (plug (Node c l x r) k)"
    and r: "r \<noteq> Leaf" and m: "min_path r [] = (sc, y, r2, kz)"
  shows "\<exists>s1 pc. rb_erase_cut_successor x (rootp r) cb s = Some (zpar_of y kz, y, rootp r2, s1) \<and>
    rb_root s1 = rb_root s \<and> keep s1 = keep s \<and> aligned pc \<and>
    rb_mem s1 y = Some \<lparr>rb_parent_color = pc OR colbit sc, rb_right = rootp (plug r2 kz), rb_left = NULL\<rparr> \<and>
    seg_at (rb_mem s1) y (rootp r2) kz \<and> tree_at (rb_mem s1) y r2 \<and>
    (\<forall>a. a \<notin> insert y (zset kz) \<longrightarrow> rb_mem s1 a = rb_mem s a \<and> val s1 a = val s a) \<and>
    zaug_ok comb good (val s1) (aug r2) kz \<and> val s1 y = val s x \<and>
    (\<forall>a. a \<notin> insert y (zset kz) \<longrightarrow> val s1 a = val s a)"
proof -
  let ?m = "rb_mem s"
  have kz: "r = plug (Node sc Leaf y r2) kz" "zleft kz = []" using min_path_plug [OF m r] by auto
  have d: "distinct (zleft k @ inorder l @ x # (y # inorder r2 @ zright kz) @ zright k)"
    using rep kz by (simp add: zip_rep_def inorder_plug)
  have at: "?m x = Some \<lparr>rb_parent_color = zpar k OR colbit c, rb_right = rootp r, rb_left = rootp l\<rparr>"
    "tree_at ?m x r" "valid_ptr x"
    using rep by (auto simp: zip_rep_def)
  have y: "?m y = Some \<lparr>rb_parent_color = zpar_of x kz OR colbit sc, rb_right = rootp r2, rb_left = NULL\<rparr>"
    "valid_ptr y" "tree_at ?m y r2" "seg_at ?m x y kz"
    using at(2) by (simp_all add: kz tree_at_plug)
  have okr: "ok s (Node sc Leaf y r2)" "zok s (aug (Node sc Leaf y r2)) kz" "val s x = aug (Node c l x r)"
    using ok by (simp_all only: aug_ok_plug kz aug_ok.simps)
  obtain v where v: "val s x = Some v" using okr(3) by simp
  have vy: "val s y \<noteq> None" using okr(1) by simp
  have dj: "x \<noteq> y" "y \<notin> zset kz" "y \<notin> set_rbt r2" "distinct (zright kz)" "set_rbt r2 \<inter> zset kz = {}"
    using d kz by (auto simp: distinct_append)
  obtain cr lr ar rr where rn: "r = Node cr lr ar rr" using r by (cases r) auto
  have ar: "?m ar = Some \<lparr>rb_parent_color = x OR colbit cr, rb_right = rootp rr, rb_left = rootp lr\<rparr>"
    "tree_at ?m ar lr" using at(2) rn by auto
  show ?thesis
  proof (cases "lr = Leaf")
    case True
    then have e: "kz = []" "y = ar" "r2 = rr" "sc = cr" using m rn by auto
    obtain s1 where s1: "aug_copy cb x y s = Some s1" "rb_mem s1 = rb_mem s" "rb_root s1 = rb_root s"
      "keep s1 = keep s" "val s1 = (val s)(y := Some v)"
      using copy_law [OF v vy] by blast
    have "rb_erase_cut_successor x (rootp r) cb s = Some (y, y, rootp r2, s1)"
      using True rn ar s1 e by (simp add: rb_erase_cut_successor_def Let_def)
    then show ?thesis
      using e s1 y v valid_ptr_aligned [OF at(3)] by (intro exI [of _ s1] exI [of _ x]) simp
  next
    case False
    have "min_path lr [FL cr ar rr] = (sc, y, r2, kz)" using m rn False by (cases lr) auto
    then obtain kz' where kz': "kz = kz' @ [FL cr ar rr]" "rb_successor_loop ar (rootp lr) s = Some (zpar_of ar kz', y)"
      using rb_successor_loop_spec [OF ar(2) False] by blast
    have kzne: "kz \<noteq> []" and zp: "zpar_of ar kz' = zpar kz" and zt: "ztop kz = ar"
      using kz' by (simp_all add: zpar_snoc ztop_append)
    have lrN: "rootp lr \<noteq> NULL" using False ar(2) by (cases lr) (auto simp: valid_ptr_def)
    obtain n where n: "?m (zpar kz) = Some n"
      "seg_at (?m(zpar kz \<mapsto> n\<lparr>rb_left := rootp r2\<rparr>)) x (rootp r2) kz"
      using seg_at_bottom [OF y(4) kz(2) kzne dj(4), of "rootp r2"] by blast
    define mA where "mA = ?m(zpar kz \<mapsto> n\<lparr>rb_left := rootp r2\<rparr>)"
    have zy: "zpar kz \<noteq> y" "ar \<noteq> y" using zpar_mem [OF kzne] ztop_mem [OF kzne] zt dj(2) by auto
    have mAy: "mA y = ?m y" using zy by (simp add: mA_def)
    define mB where "mB = mA(y \<mapsto> \<lparr>rb_parent_color = zpar kz OR colbit sc, rb_right = ar, rb_left = NULL\<rparr>)"
    have segB: "seg_at mB x (rootp r2) kz" using n(2) dj(2) by (simp add: mB_def mA_def)
    obtain n' where n': "mB ar = Some n'"
      "seg_at (mB(ar \<mapsto> n'\<lparr>rb_parent_color := rb_color n' OR y\<rparr>)) y (rootp r2) kz"
      using seg_at_top [OF segB kzne _ valid_ptr_aligned [OF at(3)], of y] dj kz(2) zt by auto
    define mC where "mC = mB(ar \<mapsto> n'\<lparr>rb_parent_color := rb_color n' OR y\<rparr>)"
    have vC: "val (s\<lparr>rb_mem := mC\<rparr>) x = Some v" "val (s\<lparr>rb_mem := mC\<rparr>) y \<noteq> None" using v vy by simp_all
    obtain s0 where s0: "aug_copy cb x y (s\<lparr>rb_mem := mC\<rparr>) = Some s0" "rb_mem s0 = mC" "rb_root s0 = rb_root s"
      "keep s0 = keep s" "val s0 = (val s)(y := Some v)"
      using copy_law [OF vC] by auto
    have seg0: "seg_at (rb_mem s0) y (rootp r2) kz" using n'(2) s0(2) by (simp add: mC_def)
    have path: "zaug_path comb good (val s0) kz"
      by (subst zaug_path_cong [of kz _ "val s"]) (use zaug_ok_path [OF okr(2)] dj(2) s0(5) in auto)
    have q: "rootp r2 \<notin> zset kz"
    proof (cases r2)
      case Leaf
      have "a \<noteq> NULL" if "a \<in> zset kz" for a
        using tree_at_valid [OF at(2), of a] that by (auto simp: kz inorder_plug valid_ptr_def)
      then show ?thesis using Leaf by auto
    qed (use dj(5) in auto)
    have ok0: "ok s0 r2" using okr(1) dj(3) s0(5) by simp
    have pa: "ptr_aug (val s0) (rootp r2) = aug r2" using ptr_aug_tree [OF y(3) ok0] .
    have pn: "rootp r2 = NULL \<or> val s0 (rootp r2) \<noteq> None" using aug_ok_root [OF ok0] by (cases r2) auto
    have dk: "distinct (zleft kz @ zright kz)" using dj kz by simp
    obtain s1 where s1: "aug_propagate cb (zpar kz) y s0 = Some s1" "rb_mem s1 = mC" "rb_root s1 = rb_root s"
      "keep s1 = keep s" "zaug_ok comb good (val s1) (aug r2) kz" "\<forall>a. a \<notin> zset kz \<longrightarrow> val s1 a = val s0 a"
      using propagate_law [OF seg0 valid_ptr_aligned [OF y(2)] dj(2) dk q pn pa path] s0 kzne
      by (auto simp: zpar_of_def)
    have run: "rb_erase_cut_successor x (rootp r) cb s = Some (zpar_of y kz, y, rootp r2, s1)"
      using rn ar(1) lrN kz'(2) zp y(1) n(1) kzne mAy n' s0(1) s1(1)
      by (simp add: rb_erase_cut_successor_def Let_def mA_def [symmetric] zpar_of_def)
         (simp add: mB_def [symmetric] mC_def [symmetric])
    have yC: "mC y = Some \<lparr>rb_parent_color = zpar kz OR colbit sc, rb_right = rootp (plug r2 kz), rb_left = NULL\<rparr>"
      using zy kzne zt by (simp add: mC_def mB_def rootp_plug)
    have frame: "mC a = ?m a" if "a \<notin> insert y (zset kz)" for a
      using that zpar_mem [OF kzne] ztop_mem [OF kzne] zt by (auto simp: mC_def mB_def mA_def)
    have r2C: "tree_at mC y r2"
    proof -
      have "mC a = ?m a" if "a \<in> set_rbt r2" for a by (rule frame) (use that dj(3,5) in auto)
      then show ?thesis using tree_at_cong [of r2 mC ?m y] y(3) by simp
    qed
    have al: "aligned (zpar kz)" using y(4) kzne by (cases kz rule: zpar.cases) (auto simp: valid_ptr_aligned)
    show ?thesis
      using run s1 al yC seg0 s0(2,5) r2C frame dj(2) v by (intro exI [of _ s1] exI [of _ "zpar kz"]) auto
  qed
qed

lemma unlink_two_children:
  assumes rep: "zip_rep s (Node c l x r) k" and ok: "ok s (plug (Node c l x r) k)"
    and lr: "l \<noteq> Leaf" "r \<noteq> Leaf"
  shows "unlinked s (raw_rb_erase_augmented x cb s) (unlink c l r k)"
proof -
  let ?m = "rb_mem s"
  obtain sc y r2 kz where m: "min_path r [] = (sc, y, r2, kz)" by (metis prod_cases4)
  have kz: "r = plug (Node sc Leaf y r2) kz" "zleft kz = []" using min_path_plug [OF m lr(2)] by auto
  have d: "distinct (zleft k @ inorder l @ x # (y # inorder r2 @ zright kz) @ zright k)"
    using rep kz by (simp add: zip_rep_def inorder_plug)
  have at: "?m x = Some \<lparr>rb_parent_color = zpar k OR colbit c, rb_right = rootp r, rb_left = rootp l\<rparr>"
    "tree_at ?m x l" "tree_at ?m x r" "valid_ptr x" "zip_at ?m (rb_root s) x k"
    using rep by (auto simp: zip_rep_def)
  have al: "aligned (zpar k)" using zpar_valid [OF at(5)] .
  have vy: "valid_ptr y" using tree_at_valid [OF at(3), of y] by (simp add: kz inorder_plug)
  have N: "rootp l \<noteq> NULL" "rootp r \<noteq> NULL" using lr at by (cases l; cases r; auto simp: valid_ptr_def)+
  obtain s1 pc where s1: "rb_erase_cut_successor x (rootp r) cb s = Some (zpar_of y kz, y, rootp r2, s1)"
    "rb_root s1 = rb_root s" "keep s1 = keep s" "aligned pc"
    "rb_mem s1 y = Some \<lparr>rb_parent_color = pc OR colbit sc, rb_right = rootp (plug r2 kz), rb_left = NULL\<rparr>"
    "seg_at (rb_mem s1) y (rootp r2) kz" "tree_at (rb_mem s1) y r2"
    "\<And>a. a \<notin> insert y (zset kz) \<Longrightarrow> rb_mem s1 a = rb_mem s a"
    "zaug_ok comb good (val s1) (aug r2) kz" "val s1 y = val s x"
    "\<And>a. a \<notin> insert y (zset kz) \<Longrightarrow> val s1 a = val s a"
    using rb_erase_cut_successor_spec [OF rep ok lr(2) m] by blast
  have dj: "x \<noteq> y" "y \<notin> zset kz" "y \<notin> zset k" "y \<notin> set_rbt l" "y \<notin> set_rbt r2" "x \<notin> zset kz" "x \<notin> zset k" "x \<notin> set_rbt l"
    "distinct (inorder l)" "distinct (inorder r2)" "distinct (zleft k @ zright k)"
    "set_rbt l \<inter> zset kz = {}" "zset kz \<inter> set_rbt l = {}" "zset kz \<inter> set_rbt r2 = {}" "zset kz \<inter> zset k = {}"
    "set_rbt l \<inter> zset k = {}" "set_rbt r2 \<inter> zset k = {}" "zset k \<inter> set_rbt l = {}" "zset k \<inter> set_rbt r2 = {}"
    "set_rbt r2 \<inter> set_rbt l = {}" "set_rbt l \<inter> set_rbt r2 = {}" "zset k \<inter> zset kz = {}"
    using d by (simp_all add: kz(2) Int_Un_distrib Int_Un_distrib2 Int_commute)
  define m1 where "m1 = rb_mem s1"
  have at1: "m1 x = Some \<lparr>rb_parent_color = zpar k OR colbit c, rb_right = rootp r, rb_left = rootp l\<rparr>"
    "tree_at m1 x l" "zip_at m1 (rb_root s1) x k"
  proof -
    show "m1 x = Some \<lparr>rb_parent_color = zpar k OR colbit c, rb_right = rootp r, rb_left = rootp l\<rparr>"
      using s1(8) [of x] dj at by (simp add: m1_def)
    show "tree_at m1 x l" 
    proof -
      have "m1 a = ?m a" if "a \<in> set_rbt l" for a unfolding m1_def by (rule s1(8)) (use that dj(4,12) in auto)
      then show ?thesis using tree_at_cong [of l m1 ?m x] at(2) by simp
    qed
    show "zip_at m1 (rb_root s1) x k" 
    proof -
      have "m1 a = ?m a" if "a \<in> zset k" for a unfolding m1_def by (rule s1(8)) (use that dj(3,15) in auto)
      then show ?thesis using zip_at_cong [of k m1 ?m] s1(2) at(5) by simp
    qed
  qed
  define m2 where "m2 = reroot (zpar_of y kz) Black r2 ((zip_upd y k (reroot y (color_of l) l
      (m1(y \<mapsto> \<lparr>rb_parent_color = pc OR colbit sc, rb_right = rootp (plug r2 kz), rb_left = rootp l\<rparr>))))
      (y \<mapsto> \<lparr>rb_parent_color = zpar k OR colbit c, rb_right = rootp (plug r2 kz), rb_left = rootp l\<rparr>))"
  define s2 where "s2 = s1\<lparr>rb_mem := m2, rb_root := zip_root y k (rb_root s1)\<rparr>"
  have par: "rb_set_parent (rootp l) y s' = Some (s'\<lparr>rb_mem := reroot y (color_of l) l (rb_mem s')\<rparr>)"
    if "tree_at (rb_mem s') x l" for s' :: "'m rb_tree_scheme"
    using rb_set_parent_tree [OF that valid_ptr_aligned [OF at(4)], of y] N by (simp add: c_when_def)
  have col: "rb_set_parent_color (rootp r2) p RB_BLACK s' = Some (s'\<lparr>rb_mem := reroot p Black r2 (rb_mem s')\<rparr>)"
    if "tree_at (rb_mem s') y r2" "rootp r2 \<noteq> NULL" for p and s' :: "'m rb_tree_scheme"
    using rb_set_parent_color_tree [OF that(1), of p] that by (simp add: c_when_def)
  have r2N: "rootp r2 = NULL \<longleftrightarrow> r2 = Leaf" using s1(7) by (cases r2) (auto simp: valid_ptr_def)
  have place: "rb_erase_place_successor x (zpar_of y kz) y (rootp r2) s1 =
      Some (if r2 = Leaf \<and> sc = Black then zpar_of y kz else NULL, s2)"
    using at1 s1(5) s1(7) s1(4) dj al at(4) r2N
    by (cases "r2 = Leaf")
       (simp_all add: rb_erase_place_successor_def Let_def m1_def [symmetric] par col valid_ptr_def
         rb_change_child_zip rb_root_mem_comm s2_def m2_def)
  have root2: "rootp (plug (paint Black r2) kz) = rootp (plug r2 kz)" by (simp add: rootp_plug)
  have sub2: "tree_at m2 y (plug (paint Black r2) kz)"
    using s1(6,7) dj by (simp add: tree_at_plug m2_def m1_def)
  have rep2: "zip_rep s2 (plug (paint Black r2) kz) (FR c l y # k)"
    using sub2 at1 dj d kz vy by (simp add: zip_rep_def s2_def inorder_plug root2) (simp add: m2_def)
  have v2: "val s2 = val s1" "keep s2 = keep s" by (simp_all add: s2_def s1)
  have oks: "ok s r2" "ok s l" "zok s (aug (Node c l x r)) k" "good y" "val s x = aug (Node c l x r)"
    using ok by (simp_all add: aug_ok_plug kz)
  have "ok s1 r2 = ok s r2" by (rule aug_ok_cong, rule s1(11)) (use dj(5,14) in auto)
  moreover have okl: "ok s1 l = ok s l" by (rule aug_ok_cong, rule s1(11)) (use dj(4,12) in auto)
  moreover have okk: "zok s1 z k = zok s z k" for z
    by (rule zaug_ok_cong, rule s1(11)) (use dj(3,15) in auto)
  ultimately have ok2: "ok s2 (plug (paint Black r2) kz)" "zaug_path comb good (val s2) (FR c l y # k)"
    using oks s1(9,10) v2 by (auto simp: aug_ok_plug)
  obtain s' where s': "aug_propagate cb (zpar (FR c l y # k)) NULL s2 = Some s'" "rb_mem s' = rb_mem s2"
    "rb_root s' = rb_root s2" "keep s' = keep s2" "ok s' (plug (plug (paint Black r2) kz) (FR c l y # k))"
    "\<forall>a. a \<notin> zset (FR c l y # k) \<longrightarrow> val s' a = val s2 a"
    using propagate_top [OF rep2 ok2] by blast
  have zp: "zpar (kz @ FR c l y # k) = zpar_of y kz" by (cases kz rule: zpar.cases) auto
  have run: "raw_rb_erase_augmented x cb s = Some (if r2 = Leaf \<and> sc = Black then zpar_of y kz else NULL, s')"
    using at(1) N s1(1) place s'(1) by (simp add: raw_rb_erase_augmented_def Let_def)
  have "rb_rep s' (plug (paint Black r2) (kz @ FR c l y # k))"
    using rep2 s' by (simp add: plug_append rb_rep_plug zip_rep_def)
  moreover have "ok s' (plug (paint Black r2) (kz @ FR c l y # k))"
    using s'(5) by (simp add: plug_append)
  moreover have "\<forall>a. a \<notin> set_rbt (plug (paint Black r2) (kz @ FR c l y # k)) \<longrightarrow> rb_mem s' a = rb_mem s a \<and> val s' a = val s a"
    using s1(8,11) s'(6) v2(1) by (auto simp: inorder_plug zleft_append zright_append s'(2) s2_def m2_def m1_def)
  moreover have "unlink c l r k = (paint Black r2, kz @ FR c l y # k, r2 = Leaf \<and> sc = Black)"
    using lr m by (simp add: unlink_def)
  ultimately show ?thesis using run s'(4) v2(2) zp by (auto simp: unlinked_def)
qed

end

end
