(* ===== verification/Rbtree_Walk.thy ===== *)
theory Rbtree_Walk
  imports Rbtree_Unlink
begin

text \<open>
  The rest of rbtree.c on represented trees: erasure as a whole, the walks \<open>rb_first\<close>,
  \<open>rb_last\<close>, \<open>rb_next\<close>, \<open>rb_prev\<close> and \<open>rb_replace_node\<close>, and the cached variants.
\<close>

section \<open>Erasure\<close>

context rb_callbacks
begin

lemma rb_erase_augmented_spec:
  assumes rep: "rb_rep s (plug (Node c l x r) k)" and rbt: "is_rbt (plug (Node c l x r) k)"
    and ok: "ok s (plug (Node c l x r) k)"
  shows "\<exists>s'. rb_erase_augmented x cb s = Some s' \<and> rb_rep s' (del_at c l r k) \<and> ok s' (del_at c l r k) \<and>
    keep s' = keep s \<and> (\<forall>a. a \<notin> set_rbt (del_at c l r k) \<longrightarrow> rb_mem s' a = rb_mem s a \<and> val s' a = val s a)"
proof -
  have zrep: "zip_rep s (Node c l x r) k" using rep by (simp only: rb_rep_plug)
  obtain t k' short where u: "unlink c l r k = (t, k', short)" by (metis prod_cases3)
  have "unlinked s (raw_rb_erase_augmented x cb s) (unlink c l r k)"
    using unlink_one_child [OF zrep ok] unlink_two_children [OF zrep ok] by blast
  then obtain s1 where s1: "raw_rb_erase_augmented x cb s = Some (if short then zpar k' else NULL, s1)"
    "rb_rep s1 (plug t k')" "ok s1 (plug t k')" "keep s1 = keep s"
    "\<forall>a. a \<notin> set_rbt (plug t k') \<longrightarrow> rb_mem s1 a = rb_mem s a \<and> val s1 a = val s a"
    using u by (auto simp: unlinked_def)
  have z: "zip_at (rb_mem s1) (rb_root s1) (rootp t) k'" using s1(2) by (simp add: rb_rep_plug zip_rep_def)
  show ?thesis
  proof (cases "short \<and> k' \<noteq> []")
    case True
    then have tl: "t = Leaf" "zbal k' (Suc 0)" using is_rbt_unlink_short [OF rbt] u by auto
    have "repaired s1 (plug t k') (rb_erase_color_loop (aug_rotate cb) (rootp t) (zpar k') s1) (del_fix t k')"
      using rb_erase_color_loop_del_fix [of k' s1 t] True s1 tl by auto
    then show ?thesis
      using True s1 u tl(1) zpar_NULL [OF z]
      by (auto simp: repaired_def rb_erase_augmented_def rb_erase_color_def del_at_def inorder_del_fix)
  next
    case False
    have "del_at c l r k = plug t k'" using False u by (cases short; cases k') (auto simp: del_at_def)
    moreover have "(if short then zpar k' else NULL) = NULL" using False by auto
    ultimately show ?thesis using s1 by (auto simp: rb_erase_augmented_def simp del: if_split)
  qed
qed

end

lemma dummy_callbacks_rotate [simp]: "aug_rotate dummy_callbacks = dummy_rotate"
  by (simp add: dummy_callbacks_def)

lemma rb_erase_spec:
  assumes rep: "rb_rep s (plug (Node c l x r) k)" and rbt: "is_rbt (plug (Node c l x r) k)"
  shows "\<exists>s'. rb_erase x s = Some s' \<and> rb_rep s' (del_at c l r k) \<and> rb_tree.more s' = rb_tree.more s \<and>
    (\<forall>a. a \<notin> set_rbt (del_at c l r k) \<longrightarrow> rb_mem s' a = rb_mem s a)"
proof -
  have "rb_erase x s = rb_erase_augmented x dummy_callbacks s"
    by (simp add: rb_erase_def rb_erase_augmented_def cong: if_cong)
  then show ?thesis using dummy_cb.rb_erase_augmented_spec [OF rep rbt dummy_ok] by auto
qed

section \<open>Walks\<close>

definition last_of :: "addr list \<Rightarrow> addr" where
  "last_of xs = (if xs = [] then NULL else last xs)"

lemma rb_down_left_spec:
  "tree_at (rb_mem s) p t \<Longrightarrow> t \<noteq> Leaf \<Longrightarrow> rb_down_left (rootp t) s = Some (hd (inorder t))"
proof (induction t arbitrary: p)
  case (Node c l a r)
  show ?case
  proof (cases "l = Leaf")
    case True
    then show ?thesis using Node.prems by (simp add: rb_down_left.simps [of a])
  next
    case False
    then have "rootp l \<noteq> NULL" using Node.prems by (cases l) (auto simp: valid_ptr_def)
    moreover have "inorder l \<noteq> []" using False by (cases l) auto
    ultimately show ?thesis using Node.IH(1) [of a] Node.prems False by (simp add: rb_down_left.simps [of a])
  qed
qed simp

lemma rb_down_right_spec:
  "tree_at (rb_mem s) p t \<Longrightarrow> t \<noteq> Leaf \<Longrightarrow> rb_down_right (rootp t) s = Some (last (inorder t))"
proof (induction t arbitrary: p)
  case (Node c l a r)
  show ?case
  proof (cases "r = Leaf")
    case True
    then show ?thesis using Node.prems by (simp add: rb_down_right.simps [of a])
  next
    case False
    then have "rootp r \<noteq> NULL" using Node.prems by (cases r) (auto simp: valid_ptr_def)
    moreover have "inorder r \<noteq> []" using False by (cases r) auto
    ultimately show ?thesis using Node.IH(2) [of a] Node.prems False by (simp add: rb_down_right.simps [of a])
  qed
qed simp

lemma inorder_Nil [simp]: "inorder t = [] \<longleftrightarrow> t = Leaf" "[] = inorder t \<longleftrightarrow> t = Leaf"
  by (cases t; auto)+

lemma rootp_NULL: "tree_at m p t \<Longrightarrow> rootp t = NULL \<longleftrightarrow> t = Leaf"
  by (cases t) (auto simp: valid_ptr_def)

lemma rb_first_spec: "rb_rep s t \<Longrightarrow> rb_first s = Some (first_of (inorder t))"
  using rb_down_left_spec [of s NULL t] rootp_NULL [of "rb_mem s" NULL t]
  by (auto simp: rb_rep_def rb_first_def first_of_def)

lemma rb_last_spec: "rb_rep s t \<Longrightarrow> rb_last s = Some (last_of (inorder t))"
  using rb_down_right_spec [of s NULL t] rootp_NULL [of "rb_mem s" NULL t]
  by (auto simp: rb_rep_def rb_last_def last_of_def)

text \<open>Up from a node \<open>q\<close> at \<open>k\<close>, as long as it is the right child of its parent.\<close>

lemma rb_up_right_spec:
  "\<lbrakk>rb_mem s q = Some n; rb_parent n = zpar k; zip_at (rb_mem s) rt q k; q \<notin> zset k; q \<noteq> NULL;
    distinct (zleft k @ zright k)\<rbrakk> \<Longrightarrow> rb_up_right q s = Some (first_of (zright k))"
proof (induction k arbitrary: q n)
  case Nil
  then show ?case by (simp add: rb_up_right.simps [of q] first_of_def)
next
  case (Cons f k)
  show ?case
  proof (cases f)
    case (FL c a r)
    have "q \<noteq> rootp r" using Cons.prems FL by (cases r) auto
    then show ?thesis using Cons.prems FL by (simp add: rb_up_right.simps [of q] first_of_def valid_ptr_def)
  next
    case (FR c l a)
    have al: "aligned (zpar k)" using Cons.prems(3) FR zpar_valid by auto
    have "rb_up_right a s = Some (first_of (zright k))"
      by (rule Cons.IH) (use Cons.prems FR al in \<open>auto simp: valid_ptr_def\<close>)
    then show ?thesis using Cons.prems FR by (simp add: rb_up_right.simps [of q] valid_ptr_def)
  qed
qed

lemma rb_up_left_spec:
  "\<lbrakk>rb_mem s q = Some n; rb_parent n = zpar k; zip_at (rb_mem s) rt q k; q \<notin> zset k; q \<noteq> NULL;
    distinct (zleft k @ zright k)\<rbrakk> \<Longrightarrow> rb_up_left q s = Some (last_of (zleft k))"
proof (induction k arbitrary: q n)
  case Nil
  then show ?case by (simp add: rb_up_left.simps [of q] last_of_def)
next
  case (Cons f k)
  show ?case
  proof (cases f)
    case (FR c l a)
    have "q \<noteq> rootp l" using Cons.prems FR by (cases l) auto
    then show ?thesis using Cons.prems FR by (simp add: rb_up_left.simps [of q] last_of_def valid_ptr_def)
  next
    case (FL c a r)
    have al: "aligned (zpar k)" using Cons.prems(3) FL zpar_valid by auto
    have "rb_up_left a s = Some (last_of (zleft k))"
      by (rule Cons.IH) (use Cons.prems FL al in \<open>auto simp: valid_ptr_def\<close>)
    then show ?thesis using Cons.prems FL by (simp add: rb_up_left.simps [of q] valid_ptr_def)
  qed
qed

lemma RB_EMPTY_NODE_False:
  assumes "zip_rep s (Node c l x r) k" shows "RB_EMPTY_NODE x s = Some False"
proof -
  have at: "rb_mem s x = Some \<lparr>rb_parent_color = zpar k OR colbit c, rb_right = rootp r, rb_left = rootp l\<rparr>"
    "valid_ptr x" "zip_at (rb_mem s) (rb_root s) x k" "x \<notin> zset k"
    using assms by (auto simp: zip_rep_def inorder_plug)
  have "zpar k \<noteq> x" using at(2,4) zpar_mem [of k] by (cases k) (auto simp: valid_ptr_def)
  moreover have "zpar k OR 1 \<noteq> x"
  proof
    assume "zpar k OR 1 = x"
    then have "(zpar k OR 1) AND 1 = x AND 1" by simp
    then show False using at(2) color_of_or [OF zpar_valid [OF at(3)], of Black] by (simp add: valid_ptr_def)
  qed
  ultimately show ?thesis using at(1) by (cases c) (auto simp: RB_EMPTY_NODE_def)
qed

lemma rb_next_zip:
  assumes rep: "zip_rep s (Node c l x r) k"
  shows "rb_next x s = Some (first_of (inorder r @ zright k))"
proof -
  have at: "rb_mem s x = Some \<lparr>rb_parent_color = zpar k OR colbit c, rb_right = rootp r, rb_left = rootp l\<rparr>"
    "valid_ptr x" "zip_at (rb_mem s) (rb_root s) x k" "x \<notin> zset k" "tree_at (rb_mem s) x r"
    "distinct (zleft k @ zright k)"
    using rep by (auto simp: zip_rep_def inorder_plug)
  show ?thesis
  proof (cases "r = Leaf")
    case True
    then show ?thesis
      using rb_up_right_spec [OF at(1) _ at(3,4) _ at(6)] at RB_EMPTY_NODE_False [OF rep] zpar_valid [OF at(3)]
      by (simp add: rb_next_def valid_ptr_def)
  next
    case False
    then show ?thesis
      using rb_down_left_spec [OF at(5) False] at RB_EMPTY_NODE_False [OF rep] rootp_NULL [OF at(5)]
      by (simp add: rb_next_def first_of_def hd_append)
  qed
qed

lemma rb_prev_zip:
  assumes rep: "zip_rep s (Node c l x r) k"
  shows "rb_prev x s = Some (last_of (zleft k @ inorder l))"
proof -
  have at: "rb_mem s x = Some \<lparr>rb_parent_color = zpar k OR colbit c, rb_right = rootp r, rb_left = rootp l\<rparr>"
    "valid_ptr x" "zip_at (rb_mem s) (rb_root s) x k" "x \<notin> zset k" "tree_at (rb_mem s) x l"
    "distinct (zleft k @ zright k)"
    using rep by (auto simp: zip_rep_def inorder_plug)
  show ?thesis
  proof (cases "l = Leaf")
    case True
    then show ?thesis
      using rb_up_left_spec [OF at(1) _ at(3,4) _ at(6)] at RB_EMPTY_NODE_False [OF rep] zpar_valid [OF at(3)]
      by (simp add: rb_prev_def valid_ptr_def)
  next
    case False
    then show ?thesis
      using rb_down_right_spec [OF at(5) False] at RB_EMPTY_NODE_False [OF rep] rootp_NULL [OF at(5)]
      by (simp add: rb_prev_def last_of_def)
  qed
qed

text \<open>Every node of a tree has a position.\<close>

lemma tree_position:
  assumes "x \<in> set_rbt t" shows "\<exists>c l r k. t = plug (Node c l x r) k"
  using assms
proof (induction t)
  case (Node c l a r)
  then consider "x = a" | "x \<in> set_rbt l" | "x \<in> set_rbt r" by auto
  then show ?case
  proof cases
    case 1
    then show ?thesis by (metis plug.simps(1))
  next
    case 2
    then obtain c' l' r' k where "l = plug (Node c' l' x r') k" using Node.IH(1) by blast
    then have "Node c l a r = plug (Node c' l' x r') (k @ [FL c a r])" by (simp add: plug_append)
    then show ?thesis by blast
  next
    case 3
    then obtain c' l' r' k where "r = plug (Node c' l' x r') k" using Node.IH(2) by blast
    then have "Node c l a r = plug (Node c' l' x r') (k @ [FR c l a])" by (simp add: plug_append)
    then show ?thesis by blast
  qed
qed simp

lemma inorder_position:
  assumes "distinct (inorder t)" and "inorder t = us @ x # vs"
  shows "\<exists>c l r k. t = plug (Node c l x r) k \<and> zleft k @ inorder l = us \<and> inorder r @ zright k = vs"
proof -
  obtain c l r k where t: "t = plug (Node c l x r) k" using tree_position [of x t] assms(2) by auto
  then have e: "(zleft k @ inorder l) @ x # (inorder r @ zright k) = us @ x # vs" using assms(2) by (simp add: inorder_plug)
  have "x \<notin> set (zleft k @ inorder l)" "x \<notin> set (inorder r @ zright k)"
    using assms(1) t by (auto simp: inorder_plug)
  then have "zleft k @ inorder l = us \<and> inorder r @ zright k = vs"
    using e append_Cons_eq_iff by metis
  with t show ?thesis by blast
qed

lemma rb_next_spec:
  assumes "rb_rep s t" and "inorder t = us @ x # vs"
  shows "rb_next x s = Some (first_of vs)"
  using inorder_position [OF _ assms(2)] assms(1) rb_next_zip
  by (metis rb_rep_def rb_rep_plug)

lemma rb_prev_spec:
  assumes "rb_rep s t" and "inorder t = us @ x # vs"
  shows "rb_prev x s = Some (last_of us)"
  using inorder_position [OF _ assms(2)] assms(1) rb_prev_zip
  by (metis rb_rep_def rb_rep_plug)

section \<open>Replacing a node\<close>

lemma rb_replace_node_zip:
  assumes rep: "zip_rep s (Node c l x r) k" and y: "rb_mem s y \<noteq> None" "y \<notin> set_rbt (plug (Node c l x r) k)" "valid_ptr y"
  shows "\<exists>m. rb_replace_node x y s = Some (s\<lparr>rb_mem := m, rb_root := zip_root y k (rb_root s)\<rparr>) \<and>
    rb_rep (s\<lparr>rb_mem := m, rb_root := zip_root y k (rb_root s)\<rparr>) (plug (Node c l y r) k) \<and>
    (\<forall>a. a \<notin> insert y (set_rbt (plug (Node c l x r) k)) \<longrightarrow> m a = rb_mem s a)"
proof -
  let ?m = "rb_mem s"
  have d: "distinct (zleft k @ inorder l @ x # inorder r @ zright k)"
    using rep by (simp add: zip_rep_def inorder_plug)
  obtain yn where yn: "?m y = Some yn" using y(1) by blast
  have at: "?m x = Some \<lparr>rb_parent_color = zpar k OR colbit c, rb_right = rootp r, rb_left = rootp l\<rparr>"
    "tree_at ?m x l" "tree_at ?m x r" "valid_ptr x" "zip_at ?m (rb_root s) x k"
    using rep by (auto simp: zip_rep_def)
  have dj: "y \<noteq> x" "y \<notin> zset k" "y \<notin> set_rbt l" "y \<notin> set_rbt r" "x \<notin> zset k" "x \<notin> set_rbt l" "x \<notin> set_rbt r"
    "distinct (inorder l)" "distinct (inorder r)" "distinct (zleft k @ zright k)"
    "set_rbt l \<inter> zset k = {}" "set_rbt r \<inter> zset k = {}" "zset k \<inter> set_rbt l = {}" "zset k \<inter> set_rbt r = {}"
    "set_rbt l \<inter> set_rbt r = {}" "set_rbt r \<inter> set_rbt l = {}"
    using d y(2) by (simp_all add: inorder_plug Int_Un_distrib Int_Un_distrib2 Int_commute)
  define m where "m = zip_upd y k (reroot y (color_of r) r (reroot y (color_of l) l
      (?m(y \<mapsto> \<lparr>rb_parent_color = zpar k OR colbit c, rb_right = rootp r, rb_left = rootp l\<rparr>))))"
  have run: "rb_replace_node x y s = Some (s\<lparr>rb_mem := m, rb_root := zip_root y k (rb_root s)\<rparr>)"
    using at yn dj zpar_valid [OF at(5)] valid_ptr_aligned [OF at(4)]
    by (simp add: rb_replace_node_def Let_def rb_set_parent_tree [where t = l and q = x]
        rb_set_parent_tree [where t = r and q = x] rb_change_child_zip valid_ptr_def m_def)
  have "distinct (inorder (plug (Node c l y r) k))" using d dj by (auto simp: inorder_plug)
  then have "rb_rep (s\<lparr>rb_mem := m, rb_root := zip_root y k (rb_root s)\<rparr>) (plug (Node c l y r) k)"
    using at dj y(3) by (simp add: rb_rep_plug zip_rep_def m_def)
  moreover have "\<forall>a. a \<notin> insert y (set_rbt (plug (Node c l x r) k)) \<longrightarrow> m a = ?m a"
    by (auto simp: inorder_plug m_def)
  ultimately show ?thesis using run by blast
qed

lemma aug_plug_replace:
  assumes "aug_ok comb good v (plug (Node c l x r) k)" and "y \<notin> set_rbt (plug (Node c l x r) k)"
    and "v y = Some (comb y (aug_of comb l) (aug_of comb r))" and "good y"
    and "comb y (aug_of comb l) (aug_of comb r) = comb x (aug_of comb l) (aug_of comb r)"
  shows "aug_ok comb good v (plug (Node c l y r) k)"
  using assms by (auto simp: aug_ok_plug inorder_plug)

section \<open>The cached tree as a sequence\<close>

text \<open>
  What a client of the cached tree sees: a red-black tree whose nodes, from left to right, are
  \<open>xs\<close>, with the leftmost pointer in order.
\<close>

definition rb_seq :: "'m rb_root_cached_scheme \<Rightarrow> addr list \<Rightarrow> bool" where
  "rb_seq s xs \<longleftrightarrow> (\<exists>t. cached_rep s t \<and> is_rbt t \<and> inorder t = xs)"

lemma rb_tree_more_cached:
  "rb_tree.more s' = rb_tree.more s \<Longrightarrow>
   rb_leftmost s' = rb_leftmost s \<and> rb_root_cached.more s' = rb_root_cached.more s"
  by (cases s; cases s') simp

lemma rb_seq_empty: "rb_root s = NULL \<Longrightarrow> rb_leftmost s = NULL \<Longrightarrow> rb_seq s []"
  unfolding rb_seq_def by (rule exI [of _ Leaf]) (simp add: cached_rep_def rb_rep_def is_rbt_def first_of_def)

lemma rb_seq_valid: "rb_seq s xs \<Longrightarrow> x \<in> set xs \<Longrightarrow> valid_ptr x \<and> rb_mem s x \<noteq> None"
  using tree_at_valid tree_at_in_dom by (fastforce simp: rb_seq_def cached_rep_def rb_rep_def)

lemma rb_seq_distinct: "rb_seq s xs \<Longrightarrow> distinct xs"
  by (auto simp: rb_seq_def cached_rep_def rb_rep_def)

lemma rb_seq_first: "rb_seq s xs \<Longrightarrow> rb_first_cached s = first_of xs"
  by (auto simp: rb_seq_def cached_rep_def rb_first_cached_def)

lemma rb_seq_next: "rb_seq s (us @ x # vs) \<Longrightarrow> rb_next x s = Some (first_of vs)"
  by (auto simp: rb_seq_def cached_rep_def intro: rb_next_spec)

lemma rb_seq_prev: "rb_seq s (us @ x # vs) \<Longrightarrow> rb_prev x s = Some (last_of us)"
  by (auto simp: rb_seq_def cached_rep_def intro: rb_prev_spec)

lemma rb_seq_last: "rb_seq s xs \<Longrightarrow> rb_last s = Some (last_of xs)"
  by (auto simp: rb_seq_def cached_rep_def intro: rb_last_spec)

lemma rb_seq_cong:
  assumes "rb_seq s xs" and "\<And>a. a \<in> set xs \<Longrightarrow> rb_mem s' a = rb_mem s a"
    and "rb_root s' = rb_root s" and "rb_leftmost s' = rb_leftmost s"
  shows "rb_seq s' xs"
proof -
  obtain t where t: "rb_rep s t" "rb_leftmost s = first_of (inorder t)" "is_rbt t" "inorder t = xs"
    using assms(1) by (auto simp: rb_seq_def cached_rep_def)
  have "tree_at (rb_mem s') NULL t = tree_at (rb_mem s) NULL t"
    by (rule tree_at_cong) (use assms(2) t(4) in simp)
  then have "rb_rep s' t" using t(1) assms(3) by (simp add: rb_rep_def)
  then show ?thesis unfolding rb_seq_def cached_rep_def using t assms(4) by auto
qed

lemma rb_erase_cached_spec:
  assumes "rb_seq s (us @ x # vs)"
  shows "\<exists>s'. rb_erase_cached x s = Some s' \<and> rb_seq s' (us @ vs) \<and>
    rb_root_cached.more s' = rb_root_cached.more s \<and>
    (\<forall>a. a \<notin> set us \<union> set vs \<longrightarrow> rb_mem s' a = rb_mem s a)"
proof -
  obtain t where t: "cached_rep s t" "is_rbt t" "inorder t = us @ x # vs" using assms by (auto simp: rb_seq_def)
  have d: "distinct (inorder t)" using t by (simp add: cached_rep_def rb_rep_def)
  obtain c l r k where p: "t = plug (Node c l x r) k" "zleft k @ inorder l = us" "inorder r @ zright k = vs"
    using inorder_position [OF d t(3)] by blast
  define s1 where "s1 = (if rb_leftmost s = x then s\<lparr>rb_leftmost := first_of vs\<rparr> else s)"
  have "rb_rep s1 (plug (Node c l x r) k)" using t p by (simp add: s1_def cached_rep_def rb_rep_def)
  then obtain s' where s': "rb_erase x s1 = Some s'" "rb_rep s' (del_at c l r k)" "rb_tree.more s' = rb_tree.more s1"
    "\<forall>a. a \<notin> set_rbt (del_at c l r k) \<longrightarrow> rb_mem s' a = rb_mem s1 a"
    using rb_erase_spec t p by blast
  have i: "inorder (del_at c l r k) = us @ vs" using p by (auto simp: inorder_del_at)
  have run: "rb_erase_cached x s = Some s'"
    using s'(1) rb_seq_next [OF assms] by (simp add: rb_erase_cached_def s1_def split: if_splits)
  have "rb_leftmost s' = first_of (us @ vs)"
    using rb_tree_more_cached [OF s'(3)] t(1,3) d by (cases us) (auto simp: s1_def cached_rep_def first_of_def)
  then have "rb_seq s' (us @ vs)"
    using s'(2) i is_rbt_del_at [of c l x r k] t p by (auto simp: rb_seq_def cached_rep_def)
  then show ?thesis using run s'(4) i rb_tree_more_cached [OF s'(3)] by (auto simp: s1_def)
qed

lemma rb_replace_node_cached_spec:
  assumes "rb_seq s (us @ x # vs)" and y: "rb_mem s y \<noteq> None" "y \<notin> set (us @ x # vs)" "valid_ptr y"
  shows "\<exists>s'. rb_replace_node_cached x y s = Some s' \<and> rb_seq s' (us @ y # vs) \<and>
    rb_root_cached.more s' = rb_root_cached.more s \<and>
    (\<forall>a. a \<notin> insert y (set us \<union> insert x (set vs)) \<longrightarrow> rb_mem s' a = rb_mem s a)"
proof -
  obtain t where t: "cached_rep s t" "is_rbt t" "inorder t = us @ x # vs" using assms by (auto simp: rb_seq_def)
  have d: "distinct (inorder t)" using t by (simp add: cached_rep_def rb_rep_def)
  obtain c l r k where p: "t = plug (Node c l x r) k" "zleft k @ inorder l = us" "inorder r @ zright k = vs"
    using inorder_position [OF d t(3)] by blast
  define s1 where "s1 = (if rb_leftmost s = x then s\<lparr>rb_leftmost := y\<rparr> else s)"
  have rep: "zip_rep s1 (Node c l x r) k" using t p by (simp add: s1_def cached_rep_def rb_rep_plug zip_rep_def)
  obtain m where m: "rb_replace_node x y s1 = Some (s1\<lparr>rb_mem := m, rb_root := zip_root y k (rb_root s1)\<rparr>)"
    "rb_rep (s1\<lparr>rb_mem := m, rb_root := zip_root y k (rb_root s1)\<rparr>) (plug (Node c l y r) k)"
    "\<forall>a. a \<notin> insert y (set_rbt (plug (Node c l x r) k)) \<longrightarrow> m a = rb_mem s1 a"
  proof -
    have "rb_mem s1 y \<noteq> None" "y \<notin> set_rbt (plug (Node c l x r) k)"
      using y t(3) p(1) by (simp_all add: s1_def)
    from rb_replace_node_zip [OF rep this y(3)] show ?thesis using that by blast
  qed
  have "is_rbt (plug (Node c l y r) k)"
    using t(2) p is_rbt_plugD [of "Node c l x r" k] by (auto simp: is_rbt_def intro!: is_rbt_plug [unfolded is_rbt_def, THEN conjunct1] is_rbt_plug [unfolded is_rbt_def, THEN conjunct2])
  moreover have "inorder (plug (Node c l y r) k) = us @ y # vs" using p by (auto simp: inorder_plug)
  moreover have "rb_leftmost s1 = first_of (us @ y # vs)"
    using t(1,3) d by (cases us) (auto simp: s1_def cached_rep_def first_of_def)
  ultimately have "rb_seq (s1\<lparr>rb_mem := m, rb_root := zip_root y k (rb_root s1)\<rparr>) (us @ y # vs)"
    using m(2) unfolding rb_seq_def cached_rep_def by (intro exI [of _ "plug (Node c l y r) k"]) simp
  moreover have "set_rbt (plug (Node c l x r) k) = set us \<union> insert x (set vs)" using t(3) p(1) by simp
  moreover have "rb_replace_node_cached x y s = rb_replace_node x y s1"
    by (simp add: rb_replace_node_cached_def s1_def)
  moreover have "rb_root_cached.more s1 = rb_root_cached.more s" "rb_mem s1 = rb_mem s" by (simp_all add: s1_def)
  ultimately show ?thesis using m(1,3)
    by (intro exI [of _ "s1\<lparr>rb_mem := m, rb_root := zip_root y k (rb_root s1)\<rparr>"]) auto
qed

text \<open>An insertion at the place where the nodes before are \<open>us\<close> and those after are \<open>vs\<close>.\<close>

definition rb_hole :: "'m rb_root_cached_scheme \<Rightarrow> zipper \<Rightarrow> bool" where
  "rb_hole s k \<longleftrightarrow> cached_rep s (plug Leaf k) \<and> is_rbt (plug Leaf k)"

lemma rb_insert_color_cached_seq:
  assumes "rb_hole s k" and "rb_mem s x = Some n" "x \<notin> zset k" "valid_ptr x"
  shows "\<exists>s'. do { s \<leftarrow> rb_link_node x (zpar k) (zlink k) s; rb_insert_color_cached x (zleft k = []) s } = Some s' \<and>
    rb_seq s' (zleft k @ x # zright k) \<and> rb_root_cached.more s' = rb_root_cached.more s \<and>
    (\<forall>a. a \<notin> insert x (zset k) \<longrightarrow> rb_mem s' a = rb_mem s a)"
proof -
  obtain s' where s': "do { s \<leftarrow> rb_link_node x (zpar k) (zlink k) s; rb_insert_color_cached x (zleft k = []) s } = Some s'"
    "cached_rep s' (ins_at x k)" "rb_root_cached.more s' = rb_root_cached.more s"
    "\<forall>a. a \<notin> insert x (zset k) \<longrightarrow> rb_mem s' a = rb_mem s a"
    using rb_insert_color_cached_spec [of s k x n] assms by (auto simp: rb_hole_def)
  have "rb_seq s' (zleft k @ x # zright k)"
    unfolding rb_seq_def using s'(2) is_rbt_ins_at [of k x] assms(1)
    by (intro exI [of _ "ins_at x k"]) (simp add: rb_hole_def inorder_ins_at)
  then show ?thesis using s' by blast
qed

section \<open>Properties\<close>

text \<open>A cached tree of the nodes 16, 32, 48 with 32 at the root, and a node 64 outside of it.\<close>

definition example_tree :: rb_root_cached where
  "example_tree = \<lparr>rb_mem = [
       32 \<mapsto> \<lparr>rb_parent_color = 1, rb_right = 48, rb_left = 16\<rparr>,
       16 \<mapsto> \<lparr>rb_parent_color = 32, rb_right = 0, rb_left = 0\<rparr>,
       48 \<mapsto> \<lparr>rb_parent_color = 32, rb_right = 0, rb_left = 0\<rparr>,
       64 \<mapsto> \<lparr>rb_parent_color = 64, rb_right = 0, rb_left = 0\<rparr>],
     rb_root = 32, rb_leftmost = 16\<rparr>"

lemma example_tree_cached_rep:
  "cached_rep example_tree (Node Black (Node Red Leaf 16 Leaf) 32 (Node Red Leaf 48 Leaf))"
  by (simp add: cached_rep_def rb_rep_def first_of_def example_tree_def valid_ptr_def aligned_def)

lemma example_tree_seq: "rb_seq example_tree [16, 32, 48]"
  unfolding rb_seq_def
  by (rule exI [of _ "Node Black (Node Red Leaf 16 Leaf) 32 (Node Red Leaf 48 Leaf)"])
    (simp add: example_tree_cached_rep is_rbt_def)


text \<open>C22: linking a new node at any leaf position of a cached red-black tree and rebalancing with
  \<open>rb_insert_color_cached\<close> returns, gives a red-black tree again (root black, no two reds in a
  row, equal black heights) with the node at that position of the in-order sequence, keeps the
  leftmost pointer right and writes no node outside of the tree.\<close>

theorem rb_insert_keeps_red_black:
  assumes "cached_rep s (plug Leaf k)" and "is_rbt (plug Leaf k)"
    and "rb_mem s x = Some n" and "x \<notin> zset k" and "valid_ptr x"
  shows "\<exists>s' t. do { s \<leftarrow> rb_link_node x (zpar k) (zlink k) s; rb_insert_color_cached x (zleft k = []) s } = Some s' \<and>
    cached_rep s' t \<and> is_rbt t \<and> inorder t = zleft k @ x # zright k \<and>
    (\<forall>a. a \<notin> insert x (zset k) \<longrightarrow> rb_mem s' a = rb_mem s a)"
  using rb_insert_color_cached_seq [of s k x n] assms by (fastforce simp: rb_hole_def rb_seq_def)

theorem rb_insert_keeps_red_black_witness:
  "\<exists>s' t. do { s \<leftarrow> rb_link_node 64 48 (Link_right 48) example_tree; rb_insert_color_cached 64 False s } = Some s' \<and>
    cached_rep s' t \<and> is_rbt t \<and> inorder t = [16, 32, 48, 64] \<and>
    (\<forall>a. a \<notin> {64, 16, 32, 48} \<longrightarrow> rb_mem s' a = rb_mem example_tree a)"
  using rb_insert_keeps_red_black [of example_tree "[FR Red Leaf 48, FR Black (Node Red Leaf 16 Leaf) 32]" 64
      "\<lparr>rb_parent_color = 64, rb_right = 0, rb_left = 0\<rparr>"] example_tree_cached_rep
  by (simp add: is_rbt_def valid_ptr_def aligned_def example_tree_def insert_commute)

text \<open>C23: \<open>rb_erase_cached\<close> of any node of a cached red-black tree returns, removes exactly that
  node from the in-order sequence, gives a red-black tree with the right leftmost pointer, and
  writes no node outside of the remaining tree.\<close>

theorem rb_erase_keeps_red_black:
  assumes "cached_rep s t" and "is_rbt t" and "inorder t = us @ x # vs"
  shows "\<exists>s' t'. rb_erase_cached x s = Some s' \<and> cached_rep s' t' \<and> is_rbt t' \<and> inorder t' = us @ vs \<and>
    (\<forall>a. a \<notin> set us \<union> set vs \<longrightarrow> rb_mem s' a = rb_mem s a)"
  using rb_erase_cached_spec [of s us x vs] assms by (fastforce simp: rb_seq_def)

theorem rb_erase_keeps_red_black_witness:
  "\<exists>s' t'. rb_erase_cached 32 example_tree = Some s' \<and> cached_rep s' t' \<and> is_rbt t' \<and> inorder t' = [16] @ [48] \<and>
    (\<forall>a. a \<notin> set [16] \<union> set [48] \<longrightarrow> rb_mem s' a = rb_mem example_tree a)"
  using rb_erase_keeps_red_black [OF example_tree_cached_rep, of "[16]" 32 "[48]"] by (simp add: is_rbt_def)

text \<open>C35: \<open>rb_next\<close> and \<open>rb_prev\<close> of a node return the neighbours of the node in the in-order
  sequence, and NULL at its ends.\<close>

theorem rb_next_prev_neighbours:
  assumes "cached_rep s t" and "inorder t = us @ x # vs"
  shows "rb_next x s = Some (if vs = [] then NULL else hd vs) \<and>
    rb_prev x s = Some (if us = [] then NULL else last us)"
  using rb_next_spec [of s t us x vs] rb_prev_spec [of s t us x vs] assms
  by (simp add: cached_rep_def first_of_def last_of_def)

theorem rb_next_prev_neighbours_witness:
  "rb_next 32 example_tree = Some 48 \<and> rb_prev 32 example_tree = Some 16"
  using rb_next_prev_neighbours [OF example_tree_cached_rep, of "[16]" 32 "[48]"] by simp

end
