(* ===== verification/Rbtree_Search.thy ===== *)
theory Rbtree_Search
  imports Rbtree_Walk
begin

text \<open>
  The search that precedes an insertion. linux/rbtree.h leaves it to the client, and the
  clients here (\<open>INTERVAL_TREE_DEFINE\<close>, \<open>RB_INSERT\<close> and \<open>insert_hole_size\<close> of drm_mm.c) write
  the same loop: follow \<open>*link\<close> down to a NULL pointer, going left or right at every node and
  remembering whether only left turns were taken. \<open>visit\<close> is the body of the loop at a node.
\<close>

partial_function (option) rb_descend ::
  "(addr \<Rightarrow> 'm rb_tree_scheme \<Rightarrow> (bool \<times> 'm rb_tree_scheme) option) \<Rightarrow>
   rb_link \<Rightarrow> addr \<Rightarrow> bool \<Rightarrow> 'm rb_tree_scheme \<Rightarrow> (rb_link \<times> addr \<times> bool \<times> 'm rb_tree_scheme) option" where
  "rb_descend visit link rb first s = do {
     p \<leftarrow> read_link link s;
     if p = NULL then Some (link, rb, first, s)
     else do {
       (left, s) \<leftarrow> visit p s;
       if left then rb_descend visit (Link_left p) p first s
       else rb_descend visit (Link_right p) p False s
     }
   }"

text \<open>
  \<open>I t k s\<close> is the loop invariant at the subtree \<open>t\<close> at \<open>k\<close>; \<open>p\<close> says at which nodes the
  search goes left.
\<close>

locale rb_search =
  fixes visit :: "addr \<Rightarrow> 'm rb_tree_scheme \<Rightarrow> (bool \<times> 'm rb_tree_scheme) option"
    and p :: "addr \<Rightarrow> bool"
    and I :: "rbt \<Rightarrow> zipper \<Rightarrow> 'm rb_tree_scheme \<Rightarrow> bool"
  assumes rep: "I t k s \<Longrightarrow> zip_rep s t k"
    and visit_law: "I (Node c l a r) k s \<Longrightarrow> \<exists>s'. visit a s = Some (p a, s') \<and>
       (p a \<longrightarrow> I l (FL c a r # k) s') \<and> (\<not> p a \<longrightarrow> I r (FR c l a # k) s')"
begin

lemma descend:
  assumes "I t k s" and "inorder t = us @ vs" and "\<forall>a\<in>set us. \<not> p a" and "\<forall>a\<in>set vs. p a"
  shows "\<exists>k' s'. rb_descend visit (zlink k) (zpar k) f s = Some (zlink k', zpar k', f \<and> us = [], s') \<and>
    I Leaf k' s' \<and> zleft k' = zleft k @ us \<and> zright k' = vs @ zright k"
  using assms
proof (induction t arbitrary: k s us vs f)
  case Leaf
  then have "read_link (zlink k) s = Some NULL" using rep read_link_zlink by blast
  then show ?case using Leaf by (auto simp: rb_descend.simps [of _ "zlink k"])
next
  case (Node c l a r)
  obtain s1 where s1: "visit a s = Some (p a, s1)" "p a \<longrightarrow> I l (FL c a r # k) s1" "\<not> p a \<longrightarrow> I r (FR c l a # k) s1"
    using visit_law [OF Node.prems(1)] by blast
  have link: "read_link (zlink k) s = Some a" "a \<noteq> NULL"
    using rep [OF Node.prems(1)] by (cases k rule: zpar.cases; auto simp: zip_rep_def valid_ptr_def)+
  have e: "inorder l @ a # inorder r = us @ vs" using Node.prems(2) by simp
  show ?case
  proof (cases "p a")
    case True
    then have "a \<in> set vs" "a \<notin> set us" using e Node.prems(3) by (auto simp: append_eq_append_conv2 Cons_eq_append_conv)
    then obtain ws where ws: "inorder l = us @ ws" "vs = ws @ a # inorder r"
      using e by (auto simp: append_eq_append_conv2 Cons_eq_append_conv)
    then obtain k' s' where "rb_descend visit (zlink (FL c a r # k)) (zpar (FL c a r # k)) f s1 =
        Some (zlink k', zpar k', f \<and> us = [], s')" "I Leaf k' s'" "zleft k' = zleft k @ us" "zright k' = ws @ a # inorder r @ zright k"
      using Node.IH(1) [of "FL c a r # k" s1 us ws f] True s1 Node.prems by auto
    then show ?thesis using True s1 link ws by (auto simp add: rb_descend.simps [of _ "zlink k"])
  next
    case False
    then have "a \<in> set us" "a \<notin> set vs" using e Node.prems(4) by (auto simp: append_eq_append_conv2 Cons_eq_append_conv)
    then obtain ws where ws: "inorder r = ws @ vs" "us = inorder l @ a # ws"
      using e by (auto simp: append_eq_append_conv2 Cons_eq_append_conv)
    then obtain k' s' where "rb_descend visit (zlink (FR c l a # k)) (zpar (FR c l a # k)) False s1 =
        Some (zlink k', zpar k', False, s')" "I Leaf k' s'" "zleft k' = zleft k @ inorder l @ a # ws" "zright k' = vs @ zright k"
      using Node.IH(2) [of "FR c l a # k" s1 ws vs False] False s1 Node.prems by auto
    then show ?thesis using False s1 link ws by (auto simp add: rb_descend.simps [of _ "zlink k"])
  qed
qed

end

text \<open>A search that only reads keys: the state stays, and the key decides.\<close>

definition key_visit ::
  "(addr \<Rightarrow> u64 option) \<Rightarrow> (u64 \<Rightarrow> bool) \<Rightarrow> addr \<Rightarrow> 'm rb_tree_scheme \<Rightarrow> (bool \<times> 'm rb_tree_scheme) option" where
  "key_visit key goleft rb s = do { x \<leftarrow> key rb; Some (goleft x, s) }"

interpretation key_search: rb_search "key_visit key goleft" "\<lambda>a. goleft (the (key a))"
  "\<lambda>t k s. s = s0 \<and> zip_rep s t k \<and> plug t k = T \<and> (\<forall>a\<in>set_rbt T. key a \<noteq> None)"
  for key goleft s0 T
proof (unfold_locales, goal_cases)
  case (2 c l a r k s)
  then show ?case by (auto simp: key_visit_def zip_rep_def inorder_plug)
qed simp

end
