(* ===== verification/Interval_Tree.thy ===== *)
theory Interval_Tree
  imports Rbtree_Search
begin

text \<open>
  \<open>RB_DECLARE_CALLBACKS_MAX\<close> (linux/rbtree_augmented.h) and \<open>INTERVAL_TREE_DEFINE\<close>
  (linux/interval_tree_generic.h). The macros' \<open>ITSTART\<close> and \<open>ITLAST\<close> are the parameters
  \<open>itstart\<close> and \<open>itlast\<close>: partial functions on addresses, undefined where there is no node. The
  field \<open>ITSUBTREE\<close> is the store \<open>it_subtree\<close>.
\<close>

record itree = rb_root_cached +
  it_subtree :: "u64 store"

section \<open>The augmentation callbacks\<close>

definition it_write :: "addr \<Rightarrow> u64 \<Rightarrow> 'm itree_scheme \<Rightarrow> 'm itree_scheme option" where
  "it_write a v s = do {
     _ \<leftarrow> it_subtree s a;
     Some (s\<lparr>it_subtree := (it_subtree s)(a \<mapsto> v)\<rparr>)
   }"

definition max_with_child :: "addr \<Rightarrow> u64 \<Rightarrow> 'm itree_scheme \<Rightarrow> u64 option" where
  "max_with_child child mx s =
     (if child \<noteq> NULL then do {
        v \<leftarrow> it_subtree s child;
        Some (if v > mx then v else mx)
      } else Some mx)"

definition augment_compute_max ::
  "(addr \<Rightarrow> u64 option) \<Rightarrow> addr \<Rightarrow> bool \<Rightarrow> 'm itree_scheme \<Rightarrow> (bool \<times> 'm itree_scheme) option" where
  "augment_compute_max itlast node ex s = do {
     mx \<leftarrow> itlast node;
     nn \<leftarrow> rb_mem s node;
     mx \<leftarrow> max_with_child (rb_left nn) mx s;
     mx \<leftarrow> max_with_child (rb_right nn) mx s;
     cur \<leftarrow> it_subtree s node;
     if ex \<and> cur = mx then Some (True, s)
     else do { s \<leftarrow> it_write node mx s; Some (False, s) }
   }"

partial_function (option) augment_propagate ::
  "(addr \<Rightarrow> u64 option) \<Rightarrow> addr \<Rightarrow> addr \<Rightarrow> 'm itree_scheme \<Rightarrow> 'm itree_scheme option" where
  "augment_propagate itlast rb stop s =
     (if rb = stop then Some s
      else do {
        (fin, s) \<leftarrow> augment_compute_max itlast rb True s;
        if fin then Some s
        else do {
          nn \<leftarrow> rb_mem s rb;
          augment_propagate itlast (rb_parent nn) stop s
        }
      })"

definition augment_copy :: "addr \<Rightarrow> addr \<Rightarrow> 'm itree_scheme \<Rightarrow> 'm itree_scheme option" where
  "augment_copy old new s = do { v \<leftarrow> it_subtree s old; it_write new v s }"

definition augment_rotate ::
  "(addr \<Rightarrow> u64 option) \<Rightarrow> addr \<Rightarrow> addr \<Rightarrow> 'm itree_scheme \<Rightarrow> 'm itree_scheme option" where
  "augment_rotate itlast old new s = do {
     v \<leftarrow> it_subtree s old;
     s \<leftarrow> it_write new v s;
     (_, s) \<leftarrow> augment_compute_max itlast old False s;
     Some s
   }"

definition it_augment :: "(addr \<Rightarrow> u64 option) \<Rightarrow> 'm itree_scheme rb_augment_callbacks" where
  "it_augment itlast = \<lparr>aug_propagate = augment_propagate itlast, aug_copy = augment_copy,
     aug_rotate = augment_rotate itlast\<rparr>"

section \<open>Insertion and removal\<close>

definition it_visit ::
  "(addr \<Rightarrow> u64 option) \<Rightarrow> u64 \<Rightarrow> u64 \<Rightarrow> addr \<Rightarrow> 'm itree_scheme \<Rightarrow> (bool \<times> 'm itree_scheme) option" where
  "it_visit itstart start lst parent s = do {
     sub \<leftarrow> it_subtree s parent;
     s \<leftarrow> c_when (sub < lst) (it_write parent lst) s;
     ps \<leftarrow> itstart parent;
     Some (start < ps, s)
   }"

definition interval_tree_insert ::
  "(addr \<Rightarrow> u64 option) \<Rightarrow> (addr \<Rightarrow> u64 option) \<Rightarrow> addr \<Rightarrow> 'm itree_scheme \<Rightarrow> 'm itree_scheme option" where
  "interval_tree_insert itstart itlast node s = do {
     start \<leftarrow> itstart node;
     lst \<leftarrow> itlast node;
     (link, parent, leftmost, s) \<leftarrow> rb_descend (it_visit itstart start lst) Link_root NULL True s;
     s \<leftarrow> it_write node lst s;
     s \<leftarrow> rb_link_node node parent link s;
     rb_insert_augmented_cached node leftmost (it_augment itlast) s
   }"

definition interval_tree_remove ::
  "(addr \<Rightarrow> u64 option) \<Rightarrow> addr \<Rightarrow> 'm itree_scheme \<Rightarrow> 'm itree_scheme option" where
  "interval_tree_remove itlast node s = rb_erase_augmented_cached node (it_augment itlast) s"

section \<open>Search\<close>

text \<open>The test before going on into a child: it is there and \<open>start <= child->ITSUBTREE\<close>.\<close>

definition child_reaches :: "u64 \<Rightarrow> addr \<Rightarrow> 'm itree_scheme \<Rightarrow> bool option" where
  "child_reaches start child s =
     (if child \<noteq> NULL then do { sub \<leftarrow> it_subtree s child; Some (start \<le> sub) } else Some False)"

partial_function (option) subtree_search ::
  "(addr \<Rightarrow> u64 option) \<Rightarrow> (addr \<Rightarrow> u64 option) \<Rightarrow> addr \<Rightarrow> u64 \<Rightarrow> u64 \<Rightarrow> 'm itree_scheme \<Rightarrow> addr option" where
  "subtree_search itstart itlast node start lst s = do {
     nn \<leftarrow> rb_mem s node;
     into_left \<leftarrow> child_reaches start (rb_left nn) s;
     if into_left then subtree_search itstart itlast (rb_left nn) start lst s
     else do {
       ns \<leftarrow> itstart node;
       if ns \<le> lst then do {
         nl \<leftarrow> itlast node;
         if start \<le> nl then Some node
         else do {
           into_right \<leftarrow> child_reaches start (rb_right nn) s;
           if into_right then subtree_search itstart itlast (rb_right nn) start lst s
           else Some NULL
         }
       } else Some NULL
     }
   }"

definition interval_tree_iter_first ::
  "(addr \<Rightarrow> u64 option) \<Rightarrow> (addr \<Rightarrow> u64 option) \<Rightarrow> u64 \<Rightarrow> u64 \<Rightarrow> 'm itree_scheme \<Rightarrow> addr option" where
  "interval_tree_iter_first itstart itlast start lst s =
     (if rb_root s = NULL then Some NULL
      else do {
        let node = rb_root s;
        sub \<leftarrow> it_subtree s node;
        if sub < start then Some NULL
        else do {
          ls \<leftarrow> itstart (rb_leftmost s);
          if ls > lst then Some NULL
          else subtree_search itstart itlast node start lst s
        }
      })"

text \<open>
  The inner loop of \<open>iter_next\<close>, up until it comes from a left child, is that of \<open>rb_next\<close>.
\<close>

partial_function (option) iter_next_loop ::
  "(addr \<Rightarrow> u64 option) \<Rightarrow> (addr \<Rightarrow> u64 option) \<Rightarrow> addr \<Rightarrow> addr \<Rightarrow> u64 \<Rightarrow> u64 \<Rightarrow> 'm itree_scheme \<Rightarrow> addr option" where
  "iter_next_loop itstart itlast node rb start lst s = do {
     into_right \<leftarrow> child_reaches start rb s;
     if into_right then subtree_search itstart itlast rb start lst s
     else do {
       node \<leftarrow> rb_up_right node s;
       if node = NULL then Some NULL
       else do {
         nn \<leftarrow> rb_mem s node;
         let rb = rb_right nn;
         ns \<leftarrow> itstart node;
         if lst < ns then Some NULL
         else do {
           nl \<leftarrow> itlast node;
           if start \<le> nl then Some node
           else iter_next_loop itstart itlast node rb start lst s
         }
       }
     }
   }"

definition interval_tree_iter_next ::
  "(addr \<Rightarrow> u64 option) \<Rightarrow> (addr \<Rightarrow> u64 option) \<Rightarrow> addr \<Rightarrow> u64 \<Rightarrow> u64 \<Rightarrow> 'm itree_scheme \<Rightarrow> addr option" where
  "interval_tree_iter_next itstart itlast node start lst s = do {
     nn \<leftarrow> rb_mem s node;
     iter_next_loop itstart itlast node (rb_right nn) start lst s
   }"

section \<open>The callbacks keep the subtree maxima\<close>

definition max_opt :: "u64 \<Rightarrow> u64 option \<Rightarrow> u64" where
  "max_opt m x = (case x of None \<Rightarrow> m | Some v \<Rightarrow> if v > m then v else m)"

definition it_comb :: "(addr \<Rightarrow> u64 option) \<Rightarrow> addr \<Rightarrow> u64 option \<Rightarrow> u64 option \<Rightarrow> u64" where
  "it_comb itlast a x y = max_opt (max_opt (the (itlast a)) x) y"

definition it_good :: "(addr \<Rightarrow> u64 option) \<Rightarrow> addr \<Rightarrow> bool" where
  "it_good itlast a \<longleftrightarrow> itlast a \<noteq> None"

definition it_keep :: "'m itree_scheme \<Rightarrow> addr \<times> 'm" where
  "it_keep s = (rb_leftmost s, itree.more s)"

lemma max_with_child_eq:
  "child = NULL \<or> it_subtree s child \<noteq> None \<Longrightarrow>
   max_with_child child m s = Some (max_opt m (ptr_aug (it_subtree s) child))"
  by (auto simp: max_with_child_def max_opt_def ptr_aug_def)

lemma augment_compute_max_eq:
  assumes "rb_mem s node = Some n" and "itlast node \<noteq> None" and "it_subtree s node = Some cur"
    and "rb_left n = NULL \<or> it_subtree s (rb_left n) \<noteq> None"
    and "rb_right n = NULL \<or> it_subtree s (rb_right n) \<noteq> None"
  defines "c \<equiv> it_comb itlast node (ptr_aug (it_subtree s) (rb_left n)) (ptr_aug (it_subtree s) (rb_right n))"
  shows "augment_compute_max itlast node ex s =
     Some (if ex \<and> cur = c then (True, s) else (False, s\<lparr>it_subtree := (it_subtree s)(node \<mapsto> c)\<rparr>))"
  using assms by (auto simp: augment_compute_max_def max_with_child_eq it_comb_def it_write_def)

lemma seg_at_parent:
  "seg_at m tp q k \<Longrightarrow> aligned tp \<Longrightarrow> aligned (zpar_of tp k)"
  by (cases k rule: zpar.cases) (auto simp: valid_ptr_aligned)

lemma augment_propagate_law:
  assumes "seg_at (rb_mem s) tp q k" "aligned tp" "tp \<notin> zset k" "distinct (zleft k @ zright k)"
    "q \<notin> zset k" "ptr_aug (it_subtree s) q = x" "zaug_path (it_comb itlast) (it_good itlast) (it_subtree s) k"
    "q = NULL \<or> it_subtree s q \<noteq> None"
  shows "\<exists>v. augment_propagate itlast (zpar_of tp k) tp s = Some (s\<lparr>it_subtree := v\<rparr>) \<and>
     zaug_ok (it_comb itlast) (it_good itlast) v x k \<and> (\<forall>a. a \<notin> zset k \<longrightarrow> v a = it_subtree s a)"
  using assms
proof (induction k arbitrary: q x s)
  case Nil
  then show ?case by (intro exI [of _ "it_subtree s"]) (simp add: augment_propagate.simps)
next
  case (Cons f k)
  let ?good = "it_good itlast"
  have *: ?case
    if n: "rb_mem s a = Some n" "rb_parent n = zpar_of tp k" "zpar (f # k) = a"
      and c: "c = it_comb itlast a (ptr_aug (it_subtree s) (rb_left n)) (ptr_aug (it_subtree s) (rb_right n))"
        "rb_left n = NULL \<or> it_subtree s (rb_left n) \<noteq> None" "rb_right n = NULL \<or> it_subtree s (rb_right n) \<noteq> None"
      and good: "?good a" and y: "it_subtree s a = Some y" "zaug_ok (it_comb itlast) ?good (it_subtree s) (Some y) k"
      and set: "zset (f # k) = insert a (insert_sub \<union> zset k)" "a \<notin> zset k" "a \<noteq> tp" "a \<noteq> NULL"
      and seg: "seg_at (rb_mem s) tp a k" "tp \<notin> zset k" "distinct (zleft k @ zright k)"
      and up: "\<And>v. (\<forall>b. b \<notin> insert a (zset k) \<longrightarrow> v b = it_subtree s b) \<Longrightarrow> v a = Some c \<Longrightarrow>
          zaug_ok (it_comb itlast) ?good v (Some c) k \<Longrightarrow> zaug_ok (it_comb itlast) ?good v x (f # k)"
    for a n c y and insert_sub :: "addr set"
  proof -
    have cm: "augment_compute_max itlast a True s =
       Some (if y = c then (True, s) else (False, s\<lparr>it_subtree := (it_subtree s)(a \<mapsto> c)\<rparr>))"
      using augment_compute_max_eq [where ex = True, of s a n itlast y] n(1) good [unfolded it_good_def] y(1) c by simp
    show ?case
    proof (cases "y = c")
      case True
      have "augment_propagate itlast a tp s = Some s"
        using set(3) cm True by (simp add: augment_propagate.simps [of itlast a])
      moreover have "zaug_ok (it_comb itlast) ?good (it_subtree s) x (f # k)"
        by (rule up) (use y True in auto)
      ultimately show ?thesis using n(3) by (intro exI [of _ "it_subtree s"]) simp
    next
      case False
      define s1 where "s1 = s\<lparr>it_subtree := (it_subtree s)(a \<mapsto> c)\<rparr>"
      have path: "zaug_path (it_comb itlast) ?good (it_subtree s1) k"
        by (subst zaug_path_cong [of k _ "it_subtree s"]) (use zaug_ok_path [OF y(2)] set(2) in \<open>auto simp: s1_def\<close>)
      obtain v where v: "augment_propagate itlast (zpar_of tp k) tp s1 = Some (s1\<lparr>it_subtree := v\<rparr>)"
        "zaug_ok (it_comb itlast) ?good v (Some c) k" "\<forall>b. b \<notin> zset k \<longrightarrow> v b = it_subtree s1 b"
      proof -
        have "seg_at (rb_mem s1) tp a k" "ptr_aug (it_subtree s1) a = Some c" "a = NULL \<or> it_subtree s1 a \<noteq> None"
          using seg(1) set(4) by (simp_all add: s1_def ptr_aug_def)
        from Cons.IH [OF this(1) Cons.prems(2) seg(2,3) set(2) this(2) path this(3)] show thesis
          using that by blast
      qed
      have "augment_propagate itlast a tp s = Some (s\<lparr>it_subtree := v\<rparr>)"
        using set(3) cm False v(1) n by (simp add: augment_propagate.simps [of itlast a] s1_def)
      moreover have "zaug_ok (it_comb itlast) ?good v x (f # k)"
        by (rule up) (use v set(2) in \<open>auto simp: s1_def\<close>)
      ultimately show ?thesis using n(3) v(3) set(1) by (intro exI [of _ v]) (auto simp: s1_def)
    qed
  qed
  show ?case
  proof (cases f)
    case (FL cl a r)
    have al: "aligned (zpar_of tp k)" using seg_at_parent [of _ tp a k] Cons.prems(1,2) FL by auto
    have rr: "ptr_aug (it_subtree s) (rootp r) = aug_of (it_comb itlast) r"
      "rootp r = NULL \<or> it_subtree s (rootp r) \<noteq> None"
      using ptr_aug_tree [of "rb_mem s" a r] Cons.prems(1,7) FL aug_ok_root [of "it_comb itlast" ?good "it_subtree s" r]
      by (auto, cases r) auto
    obtain y where y: "it_subtree s a = Some y" "zaug_ok (it_comb itlast) ?good (it_subtree s) (Some y) k"
      using Cons.prems(7) FL by auto
    show ?thesis
    proof (rule * [where a = a and insert_sub = "set_rbt r" and y = y])
      fix v assume v: "\<forall>b. b \<notin> insert a (zset k) \<longrightarrow> v b = it_subtree s b" "v a = Some (it_comb itlast a x (aug_of (it_comb itlast) r))"
        "zaug_ok (it_comb itlast) ?good v (Some (it_comb itlast a x (aug_of (it_comb itlast) r))) k"
      have "aug_ok (it_comb itlast) ?good v r = aug_ok (it_comb itlast) ?good (it_subtree s) r"
        by (rule aug_ok_cong) (use v(1) Cons.prems(4) FL in auto)
      then show "zaug_ok (it_comb itlast) ?good v x (f # k)" using v Cons.prems(7) FL by auto
    qed (use Cons.prems FL al rr y in \<open>auto simp: valid_ptr_def\<close>)
  next
    case (FR cl l a)
    have al: "aligned (zpar_of tp k)" using seg_at_parent [of _ tp a k] Cons.prems(1,2) FR by auto
    have rr: "ptr_aug (it_subtree s) (rootp l) = aug_of (it_comb itlast) l"
      "rootp l = NULL \<or> it_subtree s (rootp l) \<noteq> None"
      using ptr_aug_tree [of "rb_mem s" a l] Cons.prems(1,7) FR aug_ok_root [of "it_comb itlast" ?good "it_subtree s" l]
      by (auto, cases l) auto
    obtain y where y: "it_subtree s a = Some y" "zaug_ok (it_comb itlast) ?good (it_subtree s) (Some y) k"
      using Cons.prems(7) FR by auto
    show ?thesis
    proof (rule * [where a = a and insert_sub = "set_rbt l" and y = y])
      fix v assume v: "\<forall>b. b \<notin> insert a (zset k) \<longrightarrow> v b = it_subtree s b" "v a = Some (it_comb itlast a (aug_of (it_comb itlast) l) x)"
        "zaug_ok (it_comb itlast) ?good v (Some (it_comb itlast a (aug_of (it_comb itlast) l) x)) k"
      have "aug_ok (it_comb itlast) ?good v l = aug_ok (it_comb itlast) ?good (it_subtree s) l"
        by (rule aug_ok_cong) (use v(1) Cons.prems(4) FR in auto)
      then show "zaug_ok (it_comb itlast) ?good v x (f # k)" using v Cons.prems(7) FR by auto
    qed (use Cons.prems FR al rr y in \<open>auto simp: valid_ptr_def\<close>)
  qed
qed

lemma max_opt_comm: "max_opt (max_opt m x) y = max_opt (max_opt m y) x"
  by (auto simp: max_opt_def split: option.splits)

lemma max_opt_assoc: "max_opt a (Some (max_opt b x)) = max_opt (max_opt a (Some b)) x"
  by (auto simp: max_opt_def split: option.splits)

lemma it_comb_rot: "it_comb itlast p x (Some (it_comb itlast g y z)) = it_comb itlast g (Some (it_comb itlast p x y)) z"
  unfolding it_comb_def by (cases x; cases y; cases z) (auto simp: max_opt_def)

lemma augment_rotate_law:
  assumes "rb_mem s old = Some n" "it_good itlast old" "it_subtree s old = Some v" "it_subtree s new \<noteq> None" "new \<noteq> old"
    "new \<noteq> rb_left n" "new \<noteq> rb_right n"
    "rb_left n = NULL \<or> it_subtree s (rb_left n) \<noteq> None" "rb_right n = NULL \<or> it_subtree s (rb_right n) \<noteq> None"
  shows "augment_rotate itlast old new s = Some (s\<lparr>it_subtree := (it_subtree s)(new := Some v,
     old := Some (it_comb itlast old (ptr_aug (it_subtree s) (rb_left n)) (ptr_aug (it_subtree s) (rb_right n))))\<rparr>)"
proof -
  have n: "itlast old \<noteq> None" using assms(2) by (simp add: it_good_def)
  have p: "ptr_aug ((it_subtree s)(new \<mapsto> v)) (rb_left n) = ptr_aug (it_subtree s) (rb_left n)"
    "ptr_aug ((it_subtree s)(new \<mapsto> v)) (rb_right n) = ptr_aug (it_subtree s) (rb_right n)"
    using assms(6,7) by (auto simp: ptr_aug_def)
  obtain w where obtain_new: "it_subtree s new = Some w" using assms(4) by blast
  show ?thesis
    using assms n obtain_new augment_compute_max_eq [of "s\<lparr>it_subtree := (it_subtree s)(new \<mapsto> v)\<rparr>" old n itlast v False] p
    by (simp add: augment_rotate_def it_write_def)
qed

interpretation it: rb_callbacks "it_augment itlast" it_subtree "it_comb itlast" "it_good itlast" it_keep for itlast
proof (unfold_locales, goal_cases)
  case (5 s old n v new)
  then show ?case
    using augment_rotate_law [OF 5(1,2,3,4,5,6,7,8,9)] by (simp add: it_augment_def it_keep_def)
next
  case (6 p x g y z)
  show ?case by (rule it_comb_rot)
next
  case (7 s old v new)
  then show ?case by (auto simp: it_augment_def augment_copy_def it_write_def it_keep_def)
next
  case (8 s tp q k x)
  then obtain v where "augment_propagate itlast (zpar_of tp k) tp s = Some (s\<lparr>it_subtree := v\<rparr>)"
     "zaug_ok (it_comb itlast) (it_good itlast) v x k" "\<forall>a. a \<notin> zset k \<longrightarrow> v a = it_subtree s a"
    using augment_propagate_law [OF 8(1,2,3,4,5,7,8,6)] by blast
  then show ?case by (auto simp: it_augment_def it_keep_def)
qed (simp_all add: it_keep_def)

section \<open>The tree as a sequence of intervals\<close>

definition it_tree :: "(addr \<Rightarrow> u64 option) \<Rightarrow> 'm itree_scheme \<Rightarrow> rbt \<Rightarrow> bool" where
  "it_tree itlast s t \<longleftrightarrow> cached_rep s t \<and> is_rbt t \<and> aug_ok (it_comb itlast) (it_good itlast) (it_subtree s) t"

definition it_seq :: "(addr \<Rightarrow> u64 option) \<Rightarrow> 'm itree_scheme \<Rightarrow> addr list \<Rightarrow> bool" where
  "it_seq itlast s xs \<longleftrightarrow> (\<exists>t. it_tree itlast s t \<and> inorder t = xs)"

text \<open>What insertion and removal leave alone outside the tree.\<close>

definition it_frame :: "addr set \<Rightarrow> 'm itree_scheme \<Rightarrow> 'm itree_scheme \<Rightarrow> bool" where
  "it_frame A s s' \<longleftrightarrow> (\<forall>a. a \<notin> A \<longrightarrow> rb_mem s' a = rb_mem s a \<and> it_subtree s' a = it_subtree s a) \<and>
     itree.more s' = itree.more s"

lemma it_frame_trans: "it_frame A s s1 \<Longrightarrow> it_frame A s1 s2 \<Longrightarrow> it_frame A s s2"
  by (auto simp: it_frame_def)

lemma it_seq_rb_seq: "it_seq itlast s xs \<Longrightarrow> rb_seq s xs"
  by (auto simp: it_seq_def it_tree_def rb_seq_def)

lemma it_seq_empty: "rb_root s = NULL \<Longrightarrow> rb_leftmost s = NULL \<Longrightarrow> it_seq itlast s []"
  unfolding it_seq_def by (rule exI [of _ Leaf]) (simp add: it_tree_def cached_rep_def rb_rep_def is_rbt_def first_of_def)

lemma aug_ok_comb_cong:
  assumes "\<And>a. a \<in> set_rbt t \<Longrightarrow> itlast' a = itlast a"
  shows "aug_of (it_comb itlast') t = aug_of (it_comb itlast) t"
    and "aug_ok (it_comb itlast') (it_good itlast') v t = aug_ok (it_comb itlast) (it_good itlast) v t"
  using assms by (induction t) (auto simp: it_comb_def it_good_def)

lemma it_seq_cong:
  assumes "it_seq itlast s xs" and "\<And>a. a \<in> set xs \<Longrightarrow> itlast' a = itlast a"
  shows "it_seq itlast' s xs"
proof -
  obtain t where t: "it_tree itlast s t" "inorder t = xs" using assms(1) by (auto simp: it_seq_def)
  have "it_tree itlast' s t"
    using t aug_ok_comb_cong(2) [of t itlast' itlast "it_subtree s"] assms(2) by (simp add: it_tree_def)
  then show ?thesis using t(2) by (auto simp: it_seq_def)
qed

lemma it_seq_subtree: "it_seq itlast s xs \<Longrightarrow> a \<in> set xs \<Longrightarrow> it_subtree s a \<noteq> None"
proof -
  have "aug_ok (it_comb itlast) (it_good itlast) v t \<Longrightarrow> a \<in> set_rbt t \<Longrightarrow> v a \<noteq> None" for v t
    by (induction t) auto
  then show "it_seq itlast s xs \<Longrightarrow> a \<in> set xs \<Longrightarrow> it_subtree s a \<noteq> None" by (auto simp: it_seq_def it_tree_def)
qed

lemma it_finish_insert:
  assumes rep: "zip_rep s Leaf k" "rb_leftmost s = first_of (zleft k @ zright k)" "is_rbt (plug Leaf k)"
    and path: "zaug_ok (it_comb itlast) (it_good itlast) (it_subtree s) (Some lst) k"
    and x: "rb_mem s x \<noteq> None" "x \<notin> zset k" "valid_ptr x" "itlast x = Some lst" "it_subtree s x = Some lst"
  shows "\<exists>s'. do { s \<leftarrow> rb_link_node x (zpar k) (zlink k) s;
      rb_insert_augmented_cached x (zleft k = []) (it_augment itlast) s } = Some s' \<and>
    it_seq itlast s' (zleft k @ x # zright k) \<and> it_frame (insert x (zset k)) s s'"
proof -
  obtain n where n: "rb_mem s x = Some n" using x(1) by blast
  obtain m where link: "rb_link_node x (zpar k) (zlink k) s = Some (s\<lparr>rb_mem := m, rb_root := zip_root x k (rb_root s)\<rparr>)"
    and rep1: "rb_rep (s\<lparr>rb_mem := m, rb_root := zip_root x k (rb_root s)\<rparr>) (plug (Node Red Leaf x Leaf) k)"
    and m: "\<forall>a. a \<notin> insert x (zset k) \<longrightarrow> m a = rb_mem s a"
    using rb_link_node_spec [OF _ n x(2,3)] rep(1) unfolding rb_rep_plug by blast
  define s1 where "s1 = s\<lparr>rb_mem := m, rb_root := zip_root x k (rb_root s)\<rparr>"
  define s2 where "s2 = (if zleft k = [] then s1\<lparr>rb_leftmost := x\<rparr> else s1)"
  have rep2: "rb_rep s2 (plug (Node Red Leaf x Leaf) k)" using rep1 by (simp add: s2_def s1_def rb_rep_def)
  have sub2: "it_subtree s2 = it_subtree s" "itree.more s2 = itree.more s" by (simp_all add: s2_def s1_def)
  have "it_comb itlast x None None = lst" using x(4) by (simp add: it_comb_def max_opt_def)
  then have ok2: "aug_ok (it_comb itlast) (it_good itlast) (it_subtree s2) (plug (Node Red Leaf x Leaf) k)"
    using path x(4,5) by (simp add: aug_ok_plug sub2 it_good_def)
  obtain s' where s': "raw_rb_insert x (aug_rotate (it_augment itlast)) s2 = Some s'" "rb_rep s' (ins_at x k)"
    "aug_ok (it_comb itlast) (it_good itlast) (it_subtree s') (ins_at x k)" "it_keep s' = it_keep s2"
    "\<forall>a. a \<notin> set_rbt (plug (Node Red Leaf x Leaf) k) \<longrightarrow> rb_mem s' a = rb_mem s2 a \<and> it_subtree s' a = it_subtree s2 a"
    using it.raw_rb_insert_spec [OF rep2 rep(3) ok2] by (auto simp: it.repaired_def)
  have "rb_leftmost s' = first_of (zleft k @ x # zright k)"
    using s'(4) rep(2) by (auto simp: it_keep_def s2_def s1_def first_of_def hd_append)
  then have "it_tree itlast s' (ins_at x k)"
    using s'(2,3) is_rbt_ins_at [OF rep(3)] by (simp add: it_tree_def cached_rep_def inorder_ins_at)
  then have "it_seq itlast s' (zleft k @ x # zright k)" unfolding it_seq_def using inorder_ins_at by blast
  moreover have "it_frame (insert x (zset k)) s s'"
    using s'(4,5) m sub2 by (auto simp: it_frame_def inorder_plug it_keep_def s2_def s1_def)
  moreover have "rb_insert_augmented_cached x (zleft k = []) (it_augment itlast) s1 = Some s'"
    using s'(1) by (auto simp: rb_insert_augmented_cached_def rb_insert_augmented_def s2_def)
  ultimately show ?thesis using link by (simp add: s1_def)
qed

text \<open>The maxima on the way down take the new interval in before it is linked.\<close>

lemma it_comb_insert:
  "it_comb itlast a (Some (max_opt lst x)) y = max_opt lst (Some (it_comb itlast a x y))"
  "it_comb itlast a x (Some (max_opt lst y)) = max_opt lst (Some (it_comb itlast a x y))"
  unfolding it_comb_def by (cases x; cases y; auto simp: max_opt_def)+

interpretation it_search: rb_search "it_visit itstart x lst" "\<lambda>a. x < the (itstart a)"
  "\<lambda>t k s. zip_rep s t k \<and> aug_ok (it_comb itlast) (it_good itlast) (it_subtree s) t \<and>
     zaug_ok (it_comb itlast) (it_good itlast) (it_subtree s) (Some (max_opt lst (aug_of (it_comb itlast) t))) k \<and>
     (\<forall>a\<in>set_rbt T. itstart a \<noteq> None) \<and> plug t k = T \<and>
     (\<exists>v. s = s0\<lparr>it_subtree := v\<rparr> \<and> (\<forall>a. a \<notin> set_rbt T \<longrightarrow> v a = it_subtree s0 a))"
  for itstart itlast x lst T s0
proof (unfold_locales, goal_cases)
  case (2 c l a r k s)
  let ?m = "it_comb itlast a (aug_of (it_comb itlast) l) (aug_of (it_comb itlast) r)"
  have v: "it_subtree s a = Some ?m" and d: "a \<notin> set_rbt l" "a \<notin> set_rbt r" "a \<notin> zset k" "a \<in> set_rbt T"
    and g: "it_good itlast a" and ps: "itstart a \<noteq> None"
    using 2 by (auto simp: zip_rep_def inorder_plug)
  define s' where "s' = s\<lparr>it_subtree := (it_subtree s)(a \<mapsto> max_opt lst (Some ?m))\<rparr>"
  have id: "s\<lparr>it_subtree := (it_subtree s)(a \<mapsto> ?m)\<rparr> = s" using v by (simp add: fun_upd_idem)
  have run: "it_visit itstart x lst a s = Some (x < the (itstart a), s')"
  proof (cases "?m < lst")
    case True
    then show ?thesis using v ps by (auto simp: it_visit_def c_when_def it_write_def s'_def max_opt_def)
  next
    case False
    then have "max_opt lst (Some ?m) = ?m" by (auto simp: max_opt_def)
    then have "s' = s" using id by (simp add: s'_def)
    then show ?thesis using v ps False by (auto simp: it_visit_def c_when_def)
  qed
  obtain w where w: "s = s0\<lparr>it_subtree := w\<rparr>" "\<forall>a. a \<notin> set_rbt T \<longrightarrow> w a = it_subtree s0 a" using 2 by blast
  have "\<exists>w'. s' = s0\<lparr>it_subtree := w'\<rparr> \<and> (\<forall>a. a \<notin> set_rbt T \<longrightarrow> w' a = it_subtree s0 a)"
    using w d(4) by (intro exI [of _ "w(a \<mapsto> max_opt lst (Some ?m))"]) (auto simp: s'_def)
  moreover have "distinct (inorder T)" using 2 by (auto simp: zip_rep_def)
  ultimately show ?case
    using run 2 d g by (intro exI [of _ s']) (simp add: s'_def zip_rep_def it_comb_insert)
qed blast

lemma filter_split_sorted:
  fixes key :: "'a \<Rightarrow> 'b :: linorder"
  assumes "sorted (map key xs)"
  shows "xs = filter (\<lambda>a. \<not> x < key a) xs @ filter (\<lambda>a. x < key a) xs"
  using assms
proof (induction xs)
  case (Cons a xs)
  show ?case
  proof (cases "x < key a")
    case True
    then have "\<forall>b\<in>set xs. x < key b" using Cons.prems by auto
    then show ?thesis using True by (simp add: filter_empty_conv)
  next
    case False
    then show ?thesis using Cons by simp
  qed
qed simp

lemma interval_tree_insert_spec:
  assumes seq: "it_seq itlast s xs" and starts: "\<forall>a\<in>set xs. itstart a \<noteq> None" and sorted: "sorted (map (\<lambda>a. the (itstart a)) xs)"
    and x: "rb_mem s x \<noteq> None" "x \<notin> set xs" "valid_ptr x" "itstart x = Some st" "itlast x = Some lst" "it_subtree s x \<noteq> None"
  shows "\<exists>s'. interval_tree_insert itstart itlast x s = Some s' \<and>
    it_seq itlast s' (filter (\<lambda>a. \<not> st < the (itstart a)) xs @ x # filter (\<lambda>a. st < the (itstart a)) xs) \<and>
    it_frame (insert x (set xs)) s s'"
proof -
  obtain t where t: "it_tree itlast s t" "inorder t = xs" using seq by (auto simp: it_seq_def)
  define us where "us = filter (\<lambda>a. \<not> st < the (itstart a)) xs"
  define vs where "vs = filter (\<lambda>a. st < the (itstart a)) xs"
  have xs: "xs = us @ vs" unfolding us_def vs_def by (rule filter_split_sorted [OF sorted])
  obtain k s1 where k: "rb_descend (it_visit itstart st lst) Link_root NULL True s = Some (zlink k, zpar k, us = [], s1)"
    and I: "zip_rep s1 Leaf k" "zaug_ok (it_comb itlast) (it_good itlast) (it_subtree s1) (Some lst) k"
      "plug Leaf k = t" "\<exists>v. s1 = s\<lparr>it_subtree := v\<rparr> \<and> (\<forall>a. a \<notin> set xs \<longrightarrow> v a = it_subtree s a)"
    and z: "zleft k = us" "zright k = vs"
  proof -
    have "\<exists>k' s'. rb_descend (it_visit itstart st lst) (zlink []) (zpar []) True s = Some (zlink k', zpar k', True \<and> us = [], s') \<and>
       (zip_rep s' Leaf k' \<and> aug_ok (it_comb itlast) (it_good itlast) (it_subtree s') Leaf \<and>
        zaug_ok (it_comb itlast) (it_good itlast) (it_subtree s') (Some (max_opt lst (aug_of (it_comb itlast) Leaf))) k' \<and>
        (\<forall>a\<in>set_rbt t. itstart a \<noteq> None) \<and> plug Leaf k' = t \<and>
        (\<exists>v. s' = s\<lparr>it_subtree := v\<rparr> \<and> (\<forall>a. a \<notin> set_rbt t \<longrightarrow> v a = it_subtree s a))) \<and>
       zleft k' = zleft [] @ us \<and> zright k' = vs @ zright []"
    proof (rule it_search.descend)
      show "zip_rep s t [] \<and> aug_ok (it_comb itlast) (it_good itlast) (it_subtree s) t \<and>
        zaug_ok (it_comb itlast) (it_good itlast) (it_subtree s) (Some (max_opt lst (aug_of (it_comb itlast) t))) [] \<and>
        (\<forall>a\<in>set_rbt t. itstart a \<noteq> None) \<and> plug t [] = t \<and>
        (\<exists>v. s = s\<lparr>it_subtree := v\<rparr> \<and> (\<forall>a. a \<notin> set_rbt t \<longrightarrow> v a = it_subtree s a))"
        using t starts by (auto simp: it_tree_def cached_rep_def rb_rep_plug [symmetric] intro: exI [of _ "it_subtree s"])
      show "inorder t = us @ vs" using t(2) xs by simp
    qed (auto simp: us_def vs_def)
    then show thesis using that t(2) by (auto simp: max_opt_def)
  qed
  obtain v where v: "s1 = s\<lparr>it_subtree := v\<rparr>" "\<forall>a. a \<notin> set xs \<longrightarrow> v a = it_subtree s a" using I(4) by blast
  define s2 where "s2 = s1\<lparr>it_subtree := v(x \<mapsto> lst)\<rparr>"
  have w: "it_write x lst s1 = Some s2" using x(2,6) v by (auto simp: it_write_def s2_def)
  have xk: "x \<notin> zset k" using x(2) xs z by simp
  have rb: "is_rbt (plug Leaf k)" using I(3) t(1) by (simp add: it_tree_def)
  obtain s' where s': "do { s \<leftarrow> rb_link_node x (zpar k) (zlink k) s2;
      rb_insert_augmented_cached x (zleft k = []) (it_augment itlast) s } = Some s'"
    "it_seq itlast s' (zleft k @ x # zright k)" "it_frame (insert x (zset k)) s2 s'"
    using it_finish_insert [of s2 k itlast lst x] I xk x(1,3,5) rb z xs t v
    by (auto simp: s2_def zip_rep_def it_tree_def cached_rep_def)
  have "interval_tree_insert itstart itlast x s = Some s'"
    using k w s'(1) x z by (simp add: interval_tree_insert_def)
  moreover have "it_frame (insert x (set xs)) s s'"
    using s'(3) z xs v by (auto simp: it_frame_def s2_def)
  ultimately show ?thesis
    using s'(2) z unfolding us_def [symmetric] vs_def [symmetric] by blast
qed

lemma interval_tree_remove_spec:
  assumes "it_seq itlast s (us @ x # vs)"
  shows "\<exists>s'. interval_tree_remove itlast x s = Some s' \<and> it_seq itlast s' (us @ vs) \<and>
    it_frame (set us \<union> set vs) s s'"
proof -
  obtain t where t: "it_tree itlast s t" "inorder t = us @ x # vs" using assms by (auto simp: it_seq_def)
  have d: "distinct (inorder t)" using t by (simp add: it_tree_def cached_rep_def rb_rep_def)
  obtain c l r k where p: "t = plug (Node c l x r) k" "zleft k @ inorder l = us" "inorder r @ zright k = vs"
    using inorder_position [OF d t(2)] by blast
  define s1 where "s1 = (if rb_leftmost s = x then s\<lparr>rb_leftmost := first_of vs\<rparr> else s)"
  have s1: "rb_rep s1 (plug (Node c l x r) k)" "it_subtree s1 = it_subtree s" "rb_mem s1 = rb_mem s" "itree.more s1 = itree.more s"
    using t p by (simp_all add: s1_def it_tree_def cached_rep_def rb_rep_def)
  obtain s' where s': "rb_erase_augmented x (it_augment itlast) s1 = Some s'" "rb_rep s' (del_at c l r k)"
    "aug_ok (it_comb itlast) (it_good itlast) (it_subtree s') (del_at c l r k)" "it_keep s' = it_keep s1"
    "\<forall>a. a \<notin> set_rbt (del_at c l r k) \<longrightarrow> rb_mem s' a = rb_mem s1 a \<and> it_subtree s' a = it_subtree s1 a"
    using it.rb_erase_augmented_spec [OF s1(1)] t(1) p(1) s1(2) by (auto simp: it_tree_def)
  have i: "inorder (del_at c l r k) = us @ vs" using p by (auto simp: inorder_del_at)
  have "rb_leftmost s' = first_of (us @ vs)"
    using s'(4) t d by (cases us) (auto simp: it_keep_def s1_def it_tree_def cached_rep_def first_of_def)
  then have "it_tree itlast s' (del_at c l r k)"
    using s'(2,3) i is_rbt_del_at [of c l x r k] t(1) p(1) by (simp add: it_tree_def cached_rep_def)
  then have "it_seq itlast s' (us @ vs)" using i by (auto simp: it_seq_def)
  moreover have "it_frame (set us \<union> set vs) s s'"
    using s'(4,5) i s1 by (auto simp: it_frame_def it_keep_def)
  moreover have "interval_tree_remove itlast x s = Some s'"
    using s'(1) rb_seq_next [OF it_seq_rb_seq [OF assms]]
    by (simp add: interval_tree_remove_def rb_erase_augmented_cached_def s1_def split: if_splits)
  ultimately show ?thesis by blast
qed

section \<open>Queries\<close>

text \<open>\<open>Cond1\<close> and \<open>Cond2\<close> of the source: the node's interval meets \<open>[start; lst]\<close>.\<close>

definition overlaps :: "(addr \<Rightarrow> u64 option) \<Rightarrow> (addr \<Rightarrow> u64 option) \<Rightarrow> u64 \<Rightarrow> u64 \<Rightarrow> addr \<Rightarrow> bool" where
  "overlaps itstart itlast start lst a \<longleftrightarrow> the (itstart a) \<le> lst \<and> start \<le> the (itlast a)"

lemma aug_of_None: "aug_of comb t = None \<longleftrightarrow> t = Leaf"
  by (cases t) auto

lemma it_comb_ge:
  "start \<le> it_comb itlast a x y \<longleftrightarrow>
   start \<le> the (itlast a) \<or> (\<exists>v. x = Some v \<and> start \<le> v) \<or> (\<exists>v. y = Some v \<and> start \<le> v)"
  by (cases x; cases y) (auto simp: it_comb_def max_opt_def)

lemma aug_of_ge:
  "aug_of (it_comb itlast) t = Some m \<Longrightarrow> start \<le> m \<longleftrightarrow> (\<exists>a\<in>set_rbt t. start \<le> the (itlast a))"
proof (induction t arbitrary: m)
  case (Node c l a r)
  have sub: "(\<exists>v. aug_of (it_comb itlast) u = Some v \<and> start \<le> v) \<longleftrightarrow> (\<exists>a\<in>set_rbt u. start \<le> the (itlast a))"
    if "\<And>m. aug_of (it_comb itlast) u = Some m \<Longrightarrow> start \<le> m \<longleftrightarrow> (\<exists>a\<in>set_rbt u. start \<le> the (itlast a))" for u
    using that by (cases "aug_of (it_comb itlast) u") (auto simp: aug_of_None)
  have m: "m = it_comb itlast a (aug_of (it_comb itlast) l) (aug_of (it_comb itlast) r)" using Node.prems by simp
  show ?case unfolding m it_comb_ge using sub [of l] sub [of r] Node.IH by auto
qed simp

lemma child_reaches_tree:
  assumes "tree_at (rb_mem s) p t" and "aug_ok (it_comb itlast) (it_good itlast) (it_subtree s) t"
  shows "child_reaches start (rootp t) s = Some (\<exists>a\<in>set_rbt t. start \<le> the (itlast a))"
proof (cases "t = Leaf")
  case False
  then obtain m where "it_subtree s (rootp t) = Some m" "aug_of (it_comb itlast) t = Some m"
    using aug_ok_root [OF assms(2)] by (cases t) auto
  then show ?thesis using False rootp_NULL [OF assms(1)] aug_of_ge [of itlast t m start] by (simp add: child_reaches_def)
qed (simp add: child_reaches_def)

lemma filter_overlaps_Nil:
  assumes "sorted (map (\<lambda>a. the (itstart a)) xs)" and "a \<in> set us" "xs = us @ vs"
    and "lst < the (itstart a)"
  shows "filter (overlaps itstart itlast start lst) vs = []"
  using assms by (auto simp: filter_empty_conv overlaps_def sorted_append not_le intro: less_le_trans)

lemma first_of_append: "first_of (xs @ ys) = (if xs = [] then first_of ys else first_of xs)"
  by (simp add: first_of_def)

text \<open>
  \<open>subtree_search\<close> is entered when \<open>Cond2\<close> holds somewhere in the subtree; it ends, and returns the
  leftmost node of the subtree that meets the range, or NULL.
\<close>

lemma subtree_search_spec:
  assumes "tree_at (rb_mem s) p t" and "aug_ok (it_comb itlast) (it_good itlast) (it_subtree s) t"
    and "\<forall>a\<in>set_rbt t. itstart a \<noteq> None" and "sorted (map (\<lambda>a. the (itstart a)) (inorder t))"
    and "\<exists>a\<in>set_rbt t. start \<le> the (itlast a)"
  shows "subtree_search itstart itlast (rootp t) start lst s =
    Some (first_of (filter (overlaps itstart itlast start lst) (inorder t)))"
  using assms
proof (induction t arbitrary: p)
  case (Node c l a r)
  let ?ov = "overlaps itstart itlast start lst"
  have at: "rb_mem s a = Some \<lparr>rb_parent_color = p OR colbit c, rb_right = rootp r, rb_left = rootp l\<rparr>"
    "tree_at (rb_mem s) a l" "tree_at (rb_mem s) a r" "valid_ptr a"
    using Node.prems(1) by auto
  have okl: "aug_ok (it_comb itlast) (it_good itlast) (it_subtree s) l"
    and okr: "aug_ok (it_comb itlast) (it_good itlast) (it_subtree s) r" and "it_good itlast a"
    using Node.prems(2) by auto
  then have good: "itlast a \<noteq> None" by (simp add: it_good_def)
  have ia: "itstart a \<noteq> None" using Node.prems(3) by simp
  have sl: "sorted (map (\<lambda>a. the (itstart a)) (inorder l))" and sr: "sorted (map (\<lambda>a. the (itstart a)) (inorder r))"
    using Node.prems(4) by (auto simp: sorted_append)
  let ?L = "\<exists>b\<in>set_rbt l. start \<le> the (itlast b)" and ?R = "\<exists>b\<in>set_rbt r. start \<le> the (itlast b)"
  have step: "subtree_search itstart itlast a start lst s =
      (if ?L then subtree_search itstart itlast (rootp l) start lst s
       else if the (itstart a) \<le> lst then
         if start \<le> the (itlast a) then Some a
         else if ?R then subtree_search itstart itlast (rootp r) start lst s else Some NULL
       else Some NULL)"
    using at(1) ia good child_reaches_tree [OF at(2) okl, of start] child_reaches_tree [OF at(3) okr, of start]
    by (subst subtree_search.simps) auto
  show ?case
  proof (cases ?L)
    case True
    have IH: "subtree_search itstart itlast (rootp l) start lst s = Some (first_of (filter ?ov (inorder l)))"
      using Node.IH(1) [OF at(2) okl] Node.prems(3) sl True by auto
    have "filter ?ov (a # inorder r) = []" if "filter ?ov (inorder l) = []"
    proof -
      obtain b where b: "b \<in> set_rbt l" "start \<le> the (itlast b)" using True by blast
      then have "lst < the (itstart b)" using that by (auto simp: filter_empty_conv overlaps_def)
      then show ?thesis
        using filter_overlaps_Nil [OF Node.prems(4) b(1), of "a # inorder r" lst itlast start] by simp
    qed
    then show ?thesis using step True IH by (simp add: first_of_append)
  next
    case False
    then have nl: "filter ?ov (inorder l) = []" by (auto simp: filter_empty_conv overlaps_def)
    consider "the (itstart a) \<le> lst" "start \<le> the (itlast a)" | "the (itstart a) \<le> lst" "\<not> start \<le> the (itlast a)"
      | "lst < the (itstart a)" by fastforce
    then show ?thesis
    proof cases
      case 1
      then show ?thesis using step False nl by (simp add: overlaps_def first_of_def)
    next
      case 2
      then have ?R using Node.prems(5) False by auto
      then have "subtree_search itstart itlast (rootp r) start lst s = Some (first_of (filter ?ov (inorder r)))"
        using Node.IH(2) [OF at(3) okr] Node.prems(3) sr by auto
      moreover have "\<not> ?ov a" using 2 by (simp add: overlaps_def)
      ultimately show ?thesis using 2 step False nl \<open>?R\<close> by simp
    next
      case 3
      have "filter ?ov (inorder r) = []"
        by (rule filter_overlaps_Nil [OF Node.prems(4), of a "inorder l @ [a]"]) (use 3 in auto)
      moreover have "\<not> ?ov a" using 3 by (simp add: overlaps_def not_le)
      ultimately show ?thesis using 3 step False nl by (simp add: first_of_def)
    qed
  qed
qed simp

text \<open>\<open>iter_first\<close> returns the first interval, in the order of the starts, that meets the range.\<close>

lemma interval_tree_iter_first_spec:
  assumes "it_seq itlast s xs" and "\<forall>a\<in>set xs. itstart a \<noteq> None" and "sorted (map (\<lambda>a. the (itstart a)) xs)"
  shows "interval_tree_iter_first itstart itlast start lst s =
    Some (first_of (filter (overlaps itstart itlast start lst) xs))"
proof -
  let ?ov = "overlaps itstart itlast start lst"
  obtain t where t: "it_tree itlast s t" "inorder t = xs" using assms(1) by (auto simp: it_seq_def)
  have at: "tree_at (rb_mem s) NULL t" "rb_root s = rootp t" "rb_leftmost s = first_of xs"
    and ok: "aug_ok (it_comb itlast) (it_good itlast) (it_subtree s) t"
    using t by (auto simp: it_tree_def cached_rep_def rb_rep_def)
  show ?thesis
  proof (cases "t = Leaf")
    case True
    then show ?thesis using at t(2) by (simp add: interval_tree_iter_first_def first_of_def)
  next
    case False
    then obtain m where m: "it_subtree s (rootp t) = Some m" "aug_of (it_comb itlast) t = Some m"
      using aug_ok_root [OF ok] by (cases t) auto
    have ge: "start \<le> m \<longleftrightarrow> (\<exists>a\<in>set xs. start \<le> the (itlast a))" using aug_of_ge [OF m(2)] t(2) by simp
    obtain b ys where xs: "xs = b # ys" using False t(2) by (cases xs) auto
    have nn: "rootp t \<noteq> NULL" using False rootp_NULL [OF at(1)] by simp
    show ?thesis
    proof (cases "m < start")
      case True
      then have "filter ?ov xs = []" using ge by (auto simp: filter_empty_conv overlaps_def)
      then show ?thesis using True m(1) nn at by (simp add: interval_tree_iter_first_def first_of_def)
    next
      case F1: False
      show ?thesis
      proof (cases "the (itstart b) > lst")
        case True
        have "filter ?ov ys = []"
          by (rule filter_overlaps_Nil [OF assms(3), of b "[b]"]) (use True xs in auto)
        moreover have "\<not> ?ov b" using True by (simp add: overlaps_def not_le)
        ultimately show ?thesis using True F1 m(1) nn at xs assms(2)
          by (auto simp: interval_tree_iter_first_def first_of_def)
      next
        case False
        have "subtree_search itstart itlast (rootp t) start lst s = Some (first_of (filter ?ov (inorder t)))"
          by (rule subtree_search_spec [OF at(1) ok]) (use assms t(2) ge F1 in auto)
        then show ?thesis using False F1 m(1) nn at xs assms(2) t(2)
          by (auto simp: interval_tree_iter_first_def first_of_def)
      qed
    qed
  qed
qed

text \<open>\<open>iter_next\<close> returns the next one.\<close>

lemma iter_next_loop_spec:
  assumes rep: "rb_rep s T" and ok: "aug_ok (it_comb itlast) (it_good itlast) (it_subtree s) T"
    and starts: "\<forall>a\<in>set_rbt T. itstart a \<noteq> None" and sorted: "sorted (map (\<lambda>a. the (itstart a)) (inorder T))"
    and T: "T = plug (Node c l a r) k"
  shows "iter_next_loop itstart itlast a (rootp r) start lst s =
    Some (first_of (filter (overlaps itstart itlast start lst) (inorder r @ zright k)))"
  using T
proof (induction "length (inorder r @ zright k)" arbitrary: c l a r k rule: less_induct)
  case less
  let ?ov = "overlaps itstart itlast start lst"
  have zrep: "zip_rep s (Node c l a r) k" using rep less.prems by (simp add: rb_rep_plug)
  have at: "tree_at (rb_mem s) a r" "valid_ptr a" "zip_at (rb_mem s) (rb_root s) a k" "a \<notin> zset k"
    "rb_mem s a = Some \<lparr>rb_parent_color = zpar k OR colbit c, rb_right = rootp r, rb_left = rootp l\<rparr>"
    "distinct (zleft k @ zright k)"
    using zrep by (auto simp: zip_rep_def inorder_plug)
  have inT: "inorder T = (zleft k @ inorder l @ [a]) @ inorder r @ zright k" using less.prems by (simp add: inorder_plug)
  have okr: "aug_ok (it_comb itlast) (it_good itlast) (it_subtree s) r" using ok less.prems by (simp add: aug_ok_plug)
  have str: "\<forall>a\<in>set_rbt r. itstart a \<noteq> None" "sorted (map (\<lambda>a. the (itstart a)) (inorder r))"
    using starts sorted inT by (auto simp: sorted_append)
  have up: "rb_up_right a s = Some (first_of (zright k))"
    by (rule rb_up_right_spec [OF at(5) _ at(3,4) _ at(6)])
      (use zpar_valid [OF at(3)] at(2) in \<open>auto simp: valid_ptr_def\<close>)
  let ?R = "\<exists>b\<in>set_rbt r. start \<le> the (itlast b)"
  have into: "child_reaches start (rootp r) s = Some ?R"
    by (rule child_reaches_tree [OF at(1) okr])
  show ?case
  proof (cases ?R)
    case True
    then obtain b where b: "b \<in> set_rbt r" "start \<le> the (itlast b)" by blast
    have run: "subtree_search itstart itlast (rootp r) start lst s = Some (first_of (filter ?ov (inorder r)))"
      by (rule subtree_search_spec [OF at(1) okr str]) (use b in blast)
    have "filter ?ov (zright k) = []" if "filter ?ov (inorder r) = []"
    proof -
      have "lst < the (itstart b)" using that b by (auto simp: filter_empty_conv overlaps_def)
      then show ?thesis
        using filter_overlaps_Nil [OF sorted, of b "zleft k @ inorder l @ a # inorder r" "zright k" lst itlast start] b inT by simp
    qed
    then show ?thesis using into True run by (subst iter_next_loop.simps) (simp add: first_of_append)
  next
    case False
    then have nr: "filter ?ov (inorder r) = []" by (auto simp: filter_empty_conv overlaps_def)
    show ?thesis
    proof (cases "zright k")
      case Nil
      then show ?thesis using into False nr up by (subst iter_next_loop.simps) (simp add: first_of_def)
    next
      case (Cons b ws)
      have d: "distinct (inorder T)" using rep by (simp add: rb_rep_def)
      have "inorder T = (zleft k @ inorder l @ a # inorder r) @ b # ws" using inT Cons by simp
      then obtain c' l' r' k' where b: "T = plug (Node c' l' b r') k'" "inorder r' @ zright k' = ws"
        using inorder_position [OF d] by blast
      have bat: "rb_mem s b = Some \<lparr>rb_parent_color = zpar k' OR colbit c', rb_right = rootp r', rb_left = rootp l'\<rparr>"
        "b \<noteq> NULL"
        using rep b(1) by (auto simp: rb_rep_plug zip_rep_def valid_ptr_def)
      have bi: "itstart b \<noteq> None" "itlast b \<noteq> None"
        using starts ok b(1) by (auto simp: inorder_plug aug_ok_plug it_good_def)
      have IH: "iter_next_loop itstart itlast b (rootp r') start lst s = Some (first_of (filter ?ov ws))"
        using less.hyps [OF _ b(1)] b(2) Cons by simp
      have step: "iter_next_loop itstart itlast a (rootp r) start lst s =
         (if lst < the (itstart b) then Some NULL else if start \<le> the (itlast b) then Some b
          else Some (first_of (filter ?ov ws)))"
        using into False up Cons bat bi IH by (subst iter_next_loop.simps) (auto simp: first_of_def)
      show ?thesis
      proof (cases "lst < the (itstart b)")
        case True
        have "filter ?ov (b # ws) = []"
        proof -
          have "filter ?ov ws = []"
            by (rule filter_overlaps_Nil [OF sorted, of b "zleft k @ inorder l @ a # inorder r @ [b]"]) (use inT Cons True in auto)
          then show ?thesis using True by (simp add: overlaps_def not_le)
        qed
        then show ?thesis using step True nr Cons by (simp add: first_of_def)
      next
        case F: False
        then show ?thesis using step nr Cons by (auto simp: overlaps_def first_of_def)
      qed
    qed
  qed
qed

lemma interval_tree_iter_next_spec:
  assumes "it_seq itlast s (us @ x # vs)" and "\<forall>a\<in>set (us @ x # vs). itstart a \<noteq> None"
    and "sorted (map (\<lambda>a. the (itstart a)) (us @ x # vs))"
  shows "interval_tree_iter_next itstart itlast x start lst s =
    Some (first_of (filter (overlaps itstart itlast start lst) vs))"
proof -
  obtain t where t: "it_tree itlast s t" "inorder t = us @ x # vs" using assms(1) by (auto simp: it_seq_def)
  have rep: "rb_rep s t" "distinct (inorder t)" using t by (auto simp: it_tree_def cached_rep_def rb_rep_def)
  obtain c l r k where p: "t = plug (Node c l x r) k" "inorder r @ zright k = vs"
    using inorder_position [OF rep(2) t(2)] by blast
  have "rb_mem s x = Some \<lparr>rb_parent_color = zpar k OR colbit c, rb_right = rootp r, rb_left = rootp l\<rparr>"
    using rep(1) p(1) by (simp add: rb_rep_plug zip_rep_def)
  then show ?thesis
    using iter_next_loop_spec [OF rep(1) _ _ _ p(1), of itlast itstart] t assms p(2)
    by (simp add: interval_tree_iter_next_def it_tree_def)
qed

section \<open>Properties\<close>

text \<open>The loop over all the intervals that meet a range: \<open>iter_first\<close>, then \<open>iter_next\<close> until NULL.\<close>

partial_function (option) iter_rest ::
  "(addr \<Rightarrow> u64 option) \<Rightarrow> (addr \<Rightarrow> u64 option) \<Rightarrow> addr \<Rightarrow> u64 \<Rightarrow> u64 \<Rightarrow> 'm itree_scheme \<Rightarrow> addr list option" where
  "iter_rest itstart itlast node start lst s =
     (if node = NULL then Some []
      else do {
        nxt \<leftarrow> interval_tree_iter_next itstart itlast node start lst s;
        rest \<leftarrow> iter_rest itstart itlast nxt start lst s;
        Some (node # rest)
      })"

definition iter_all ::
  "(addr \<Rightarrow> u64 option) \<Rightarrow> (addr \<Rightarrow> u64 option) \<Rightarrow> u64 \<Rightarrow> u64 \<Rightarrow> 'm itree_scheme \<Rightarrow> addr list option" where
  "iter_all itstart itlast start lst s = do {
     node \<leftarrow> interval_tree_iter_first itstart itlast start lst s;
     iter_rest itstart itlast node start lst s
   }"

lemma iter_rest_spec:
  assumes seq: "it_seq itlast s xs" and starts: "\<forall>a\<in>set xs. itstart a \<noteq> None"
    and sorted: "sorted (map (\<lambda>a. the (itstart a)) xs)" and "xs = us @ vs"
  shows "iter_rest itstart itlast (first_of (filter (overlaps itstart itlast start lst) vs)) start lst s =
    Some (filter (overlaps itstart itlast start lst) vs)"
  using assms(4)
proof (induction "length vs" arbitrary: us vs rule: less_induct)
  case less
  let ?ov = "overlaps itstart itlast start lst"
  show ?case
  proof (cases "filter ?ov vs")
    case Nil
    then show ?thesis by (subst iter_rest.simps) (simp add: first_of_def)
  next
    case (Cons x fs)
    then obtain ws zs where v: "vs = ws @ x # zs" "fs = filter ?ov zs"
      by (auto simp: filter_eq_Cons_iff)
    have "x \<noteq> NULL"
      using rb_seq_valid [OF it_seq_rb_seq [OF seq], of x] less.prems v(1) by (auto simp: valid_ptr_def)
    moreover have "interval_tree_iter_next itstart itlast x start lst s = Some (first_of (filter ?ov zs))"
      by (rule interval_tree_iter_next_spec [of itlast s "us @ ws"]) (use seq starts sorted less.prems v in auto)
    moreover have "iter_rest itstart itlast (first_of (filter ?ov zs)) start lst s = Some (filter ?ov zs)"
      by (rule less.hyps [of zs "us @ ws @ [x]"]) (use less.prems v in auto)
    ultimately show ?thesis using Cons v(2) by (subst iter_rest.simps) (simp add: first_of_def)
  qed
qed

text \<open>Three intervals [0;9], [10;29], [40;49] at the nodes 16, 32 and 48, and [20;59] at 64.\<close>

definition example_start :: "addr \<Rightarrow> u64 option" where
  "example_start = [16 \<mapsto> 0, 32 \<mapsto> 10, 48 \<mapsto> 40, 64 \<mapsto> 20]"

definition example_last :: "addr \<Rightarrow> u64 option" where
  "example_last = [16 \<mapsto> 9, 32 \<mapsto> 29, 48 \<mapsto> 49, 64 \<mapsto> 59]"

lemma example_interval_values:
  "example_start 16 = Some 0" "example_start 32 = Some 10" "example_start 48 = Some 40" "example_start 64 = Some 20"
  "example_last 16 = Some 9" "example_last 32 = Some 29" "example_last 48 = Some 49" "example_last 64 = Some 59"
  by (simp_all add: example_start_def example_last_def)

definition example_itree :: itree where
  "example_itree = \<lparr>rb_mem = [
       32 \<mapsto> \<lparr>rb_parent_color = 1, rb_right = 48, rb_left = 16\<rparr>,
       16 \<mapsto> \<lparr>rb_parent_color = 32, rb_right = 0, rb_left = 0\<rparr>,
       48 \<mapsto> \<lparr>rb_parent_color = 32, rb_right = 0, rb_left = 0\<rparr>,
       64 \<mapsto> \<lparr>rb_parent_color = 64, rb_right = 0, rb_left = 0\<rparr>],
     rb_root = 32, rb_leftmost = 16,
     it_subtree = [16 \<mapsto> 9, 32 \<mapsto> 49, 48 \<mapsto> 49, 64 \<mapsto> 0]\<rparr>"

lemma example_itree_seq: "it_seq example_last example_itree [16, 32, 48]"
  unfolding it_seq_def
  by (rule exI [of _ "Node Black (Node Red Leaf 16 Leaf) 32 (Node Red Leaf 48 Leaf)"])
    (simp add: it_tree_def is_rbt_def cached_rep_def rb_rep_def first_of_def example_itree_def valid_ptr_def
      aligned_def it_comb_def it_good_def max_opt_def example_last_def)

lemma example_itree_sorted:
  "\<forall>a\<in>set [16, 32, 48]. example_start a \<noteq> None" "sorted (map (\<lambda>a. the (example_start a)) [16, 32, 48])"
  by (simp_all add: example_start_def)

text \<open>C24: \<open>interval_tree_insert\<close> of a node outside of a well-formed interval tree returns, puts the
  node behind every interval with a start that is not greater, keeps the red-black balance, the
  leftmost pointer and the largest last of every subtree, and writes no node outside.\<close>

theorem interval_tree_insert_ordered:
  assumes "it_seq itlast s xs" and "\<forall>a\<in>set xs. itstart a \<noteq> None" and "sorted (map (\<lambda>a. the (itstart a)) xs)"
    and "rb_mem s x \<noteq> None" and "it_subtree s x \<noteq> None" and "x \<notin> set xs" and "valid_ptr x"
    and "itstart x = Some st" and "itlast x = Some lst"
  shows "\<exists>s'. interval_tree_insert itstart itlast x s = Some s' \<and>
    it_seq itlast s' (filter (\<lambda>a. \<not> st < the (itstart a)) xs @ x # filter (\<lambda>a. st < the (itstart a)) xs) \<and>
    it_frame (insert x (set xs)) s s'"
  using assms by (intro interval_tree_insert_spec) auto

theorem interval_tree_insert_ordered_witness:
  "\<exists>s'. interval_tree_insert example_start example_last 64 example_itree = Some s' \<and>
    it_seq example_last s' [16, 32, 64, 48] \<and> it_frame {64, 16, 32, 48} example_itree s'"
proof -
  have "\<exists>s'. interval_tree_insert example_start example_last 64 example_itree = Some s' \<and>
    it_seq example_last s' (filter (\<lambda>a. \<not> 20 < the (example_start a)) [16, 32, 48] @ 64 #
      filter (\<lambda>a. 20 < the (example_start a)) [16, 32, 48]) \<and>
    it_frame (insert 64 (set [16, 32, 48])) example_itree s'"
  proof (rule interval_tree_insert_ordered [OF example_itree_seq example_itree_sorted])
    show "rb_mem example_itree 64 \<noteq> None" "it_subtree example_itree 64 \<noteq> None" by (simp_all add: example_itree_def)
    show "(64 :: addr) \<notin> set [16, 32, 48]" "valid_ptr 64" by (simp_all add: valid_ptr_def aligned_def)
    show "example_start 64 = Some 20" "example_last 64 = Some 59" by (simp_all add: example_start_def example_last_def)
  qed
  moreover have "filter (\<lambda>a. \<not> 20 < the (example_start a)) [16, 32, 48] = [16, 32]"
    "filter (\<lambda>a. 20 < the (example_start a)) [16, 32, 48] = [48]"
    by (simp_all add: example_interval_values)
  ultimately show ?thesis by simp
qed

text \<open>C25: \<open>interval_tree_remove\<close> of a node of a well-formed interval tree returns, removes exactly
  that node, and keeps the balance, the leftmost pointer and the largest last of every subtree.\<close>

theorem interval_tree_remove_exact:
  assumes "it_seq itlast s (us @ x # vs)"
  shows "\<exists>s'. interval_tree_remove itlast x s = Some s' \<and> it_seq itlast s' (us @ vs) \<and>
    it_frame (set us \<union> set vs) s s'"
  using interval_tree_remove_spec [OF assms] .

theorem interval_tree_remove_exact_witness:
  "\<exists>s'. interval_tree_remove example_last 32 example_itree = Some s' \<and> it_seq example_last s' [16, 48] \<and>
    it_frame {16, 48} example_itree s'"
  using interval_tree_remove_exact [of example_last example_itree "[16]" 32 "[48]"] example_itree_seq
  by (simp add: insert_commute)

text \<open>C26: the iteration with \<open>iter_first\<close> and \<open>iter_next\<close> ends, and visits exactly the nodes whose
  interval meets the range, each once, in the order of their starts. The early exits on the
  leftmost start and on the subtree maxima lose nothing.\<close>

theorem interval_tree_iteration_complete:
  assumes "it_seq itlast s xs" and "\<forall>a\<in>set xs. itstart a \<noteq> None" and "sorted (map (\<lambda>a. the (itstart a)) xs)"
  shows "iter_all itstart itlast start lst s =
    Some (filter (\<lambda>a. the (itstart a) \<le> lst \<and> start \<le> the (itlast a)) xs)"
  using interval_tree_iter_first_spec [OF assms] iter_rest_spec [OF assms, of "[]" xs]
  by (simp add: iter_all_def overlaps_def [abs_def])

theorem interval_tree_iteration_complete_witness:
  "iter_all example_start example_last 25 45 example_itree = Some [32, 48]"
  using interval_tree_iteration_complete [OF example_itree_seq example_itree_sorted, of 25 45]
  by (simp add: example_interval_values)

end
