(* ===== verification/Drm_Mm.thy ===== *)
theory Drm_Mm
  imports Linux_List Interval_Tree
begin

text \<open>
  The range allocator: drm_mm.c and the inline functions of drm/drm_mm.h. There is one
  \<open>struct drm_mm\<close>. Its record holds the memory of all the \<open>struct drm_mm_node\<close>s, one store for
  every kind of embedded member, each indexed by the address of the node: the plain fields
  (\<open>mm_nodes\<close>), the list heads \<open>node_list\<close> and \<open>hole_stack\<close>, and the tree nodes \<open>rb\<close> (with
  \<open>__subtree_last\<close>), \<open>rb_hole_size\<close> and \<open>rb_hole_addr\<close>. \<open>mm_head_node\<close> is the address of the
  embedded \<open>head_node\<close>, \<open>mm_hole_stack\<close> that of the list head \<open>hole_stack\<close>, \<open>mm_self\<close> that of
  the struct itself. The callback \<open>color_adjust\<close> is a function of what it can read, and maps
  the bounds of a hole to the adjusted ones.
\<close>

record drm_mm_node =
  nd_color :: u64
  nd_start :: u64
  nd_size :: u64
  nd_mm :: addr
  nd_hole_size :: u64
  nd_allocated :: bool
  nd_scanned_block :: bool

type_synonym color_adjust = "drm_mm_node store \<Rightarrow> lheap \<Rightarrow> addr \<Rightarrow> u64 \<Rightarrow> u64 \<times> u64 \<Rightarrow> u64 \<times> u64"

record drm_mm =
  mm_self :: addr
  mm_color_adjust :: "color_adjust option"
  mm_hole_stack :: addr
  mm_head_node :: addr
  mm_nodes :: "drm_mm_node store"
  mm_node_list :: lheap
  mm_hole_list :: lheap
  mm_interval_tree :: itree
  mm_holes_size :: rb_root_cached
  mm_holes_addr :: rb_tree
  mm_scan_active :: u64

record drm_mm_scan =
  sc_mm :: addr
  sc_size :: u64
  sc_alignment :: u64
  sc_remainder_mask :: u64
  sc_range_start :: u64
  sc_range_end :: u64
  sc_hit_start :: u64
  sc_hit_end :: u64
  sc_color :: u64
  sc_mode :: u32

text \<open>\<open>enum drm_mm_insert_mode\<close>; the flag \<open>DRM_MM_INSERT_ONCE\<close> makes it a bit field.\<close>

definition DRM_MM_INSERT_BEST :: u32 where "DRM_MM_INSERT_BEST = 0"
definition DRM_MM_INSERT_LOW :: u32 where "DRM_MM_INSERT_LOW = 1"
definition DRM_MM_INSERT_HIGH :: u32 where "DRM_MM_INSERT_HIGH = 2"
definition DRM_MM_INSERT_EVICT :: u32 where "DRM_MM_INSERT_EVICT = 3"
definition DRM_MM_INSERT_ONCE :: u32 where "DRM_MM_INSERT_ONCE = push_bit 31 1"
definition DRM_MM_INSERT_HIGHEST :: u32 where "DRM_MM_INSERT_HIGHEST = DRM_MM_INSERT_HIGH OR DRM_MM_INSERT_ONCE"
definition DRM_MM_INSERT_LOWEST :: u32 where "DRM_MM_INSERT_LOWEST = DRM_MM_INSERT_LOW OR DRM_MM_INSERT_ONCE"

definition ENOSPC :: int where "ENOSPC = 28"

lemmas mode_defs = DRM_MM_INSERT_BEST_def DRM_MM_INSERT_LOW_def DRM_MM_INSERT_HIGH_def
  DRM_MM_INSERT_EVICT_def DRM_MM_INSERT_ONCE_def DRM_MM_INSERT_HIGHEST_def DRM_MM_INSERT_LOWEST_def

section \<open>Accesses\<close>

definition nd_write :: "addr \<Rightarrow> (drm_mm_node \<Rightarrow> drm_mm_node) \<Rightarrow> drm_mm \<Rightarrow> drm_mm option" where
  "nd_write a f s = do {
     n \<leftarrow> mm_nodes s a;
     Some (s\<lparr>mm_nodes := (mm_nodes s)(a \<mapsto> f n)\<rparr>)
   }"

definition on_node_list :: "(lheap \<Rightarrow> lheap option) \<Rightarrow> drm_mm \<Rightarrow> drm_mm option" where
  "on_node_list f s = do { h \<leftarrow> f (mm_node_list s); Some (s\<lparr>mm_node_list := h\<rparr>) }"

definition on_hole_list :: "(lheap \<Rightarrow> lheap option) \<Rightarrow> drm_mm \<Rightarrow> drm_mm option" where
  "on_hole_list f s = do { h \<leftarrow> f (mm_hole_list s); Some (s\<lparr>mm_hole_list := h\<rparr>) }"

definition on_interval_tree :: "(itree \<Rightarrow> itree option) \<Rightarrow> drm_mm \<Rightarrow> drm_mm option" where
  "on_interval_tree f s = do { t \<leftarrow> f (mm_interval_tree s); Some (s\<lparr>mm_interval_tree := t\<rparr>) }"

definition on_holes_size :: "(rb_root_cached \<Rightarrow> rb_root_cached option) \<Rightarrow> drm_mm \<Rightarrow> drm_mm option" where
  "on_holes_size f s = do { t \<leftarrow> f (mm_holes_size s); Some (s\<lparr>mm_holes_size := t\<rparr>) }"

definition on_holes_addr :: "(rb_tree \<Rightarrow> rb_tree option) \<Rightarrow> drm_mm \<Rightarrow> drm_mm option" where
  "on_holes_addr f s = do { t \<leftarrow> f (mm_holes_addr s); Some (s\<lparr>mm_holes_addr := t\<rparr>) }"

text \<open>\<open>node->mm\<close>, for the fields of the one \<open>struct drm_mm\<close> there is.\<close>

definition deref_mm :: "addr \<Rightarrow> drm_mm \<Rightarrow> unit option" where
  "deref_mm a s = do { n \<leftarrow> mm_nodes s a; if nd_mm n = mm_self s then Some () else None }"

section \<open>drm/drm_mm.h\<close>

definition drm_mm_node_allocated :: "addr \<Rightarrow> drm_mm \<Rightarrow> bool option" where
  "drm_mm_node_allocated a s = map_option nd_allocated (mm_nodes s a)"

definition drm_mm_initialized :: "drm_mm \<Rightarrow> bool option" where
  "drm_mm_initialized s = map_option (\<lambda>p. p \<noteq> NULL) (next_of (mm_hole_list s) (mm_hole_stack s))"

definition drm_mm_hole_follows :: "addr \<Rightarrow> drm_mm \<Rightarrow> bool option" where
  "drm_mm_hole_follows a s = map_option (\<lambda>n. nd_hole_size n \<noteq> 0) (mm_nodes s a)"

definition raw_hole_node_start :: "addr \<Rightarrow> drm_mm \<Rightarrow> u64 option" where
  "raw_hole_node_start a s = map_option (\<lambda>n. nd_start n + nd_size n) (mm_nodes s a)"

definition drm_mm_hole_node_start :: "addr \<Rightarrow> drm_mm \<Rightarrow> u64 option" where
  "drm_mm_hole_node_start a s = do {
     f \<leftarrow> drm_mm_hole_follows a s;
     _ \<leftarrow> BUG_ON (\<not> f);
     raw_hole_node_start a s
   }"

definition raw_hole_node_end :: "addr \<Rightarrow> drm_mm \<Rightarrow> u64 option" where
  "raw_hole_node_end a s = do {
     nxt \<leftarrow> next_of (mm_node_list s) a;
     map_option nd_start (mm_nodes s nxt)
   }"

definition drm_mm_hole_node_end :: "addr \<Rightarrow> drm_mm \<Rightarrow> u64 option" where
  "drm_mm_hole_node_end a s = raw_hole_node_end a s"

definition drm_mm_clean :: "drm_mm \<Rightarrow> bool option" where
  "drm_mm_clean s = list_empty (mm_head_node s) (mm_node_list s)"

section \<open>The interval tree of the nodes\<close>

definition START :: "drm_mm \<Rightarrow> addr \<Rightarrow> u64 option" where
  "START s a = map_option nd_start (mm_nodes s a)"

definition LAST :: "drm_mm \<Rightarrow> addr \<Rightarrow> u64 option" where
  "LAST s a = map_option (\<lambda>n. nd_start n + nd_size n - 1) (mm_nodes s a)"

definition drm_mm_interval_first :: "u64 \<Rightarrow> u64 \<Rightarrow> drm_mm \<Rightarrow> addr option" where
  "drm_mm_interval_first start lst s = do {
     n \<leftarrow> interval_tree_iter_first (START s) (LAST s) start lst (mm_interval_tree s);
     Some (if n \<noteq> NULL then n else mm_head_node s)
   }"

text \<open>The walk up from the node before the hole, which raises \<open>__subtree_last\<close> where it is smaller.\<close>

partial_function (option) raise_subtree_last :: "addr \<Rightarrow> u64 \<Rightarrow> itree \<Rightarrow> itree option" where
  "raise_subtree_last rb lst t =
     (if rb = NULL then Some t
      else do {
        sub \<leftarrow> it_subtree t rb;
        if sub \<ge> lst then Some t
        else do {
          t \<leftarrow> it_write rb lst t;
          n \<leftarrow> rb_mem t rb;
          raise_subtree_last (rb_parent n) lst t
        }
      })"

definition drm_mm_interval_tree_add_node :: "addr \<Rightarrow> addr \<Rightarrow> drm_mm \<Rightarrow> drm_mm option" where
  "drm_mm_interval_tree_add_node hole_node node s = do {
     _ \<leftarrow> deref_mm hole_node s;
     lst \<leftarrow> LAST s node;
     start \<leftarrow> START s node;
     hn \<leftarrow> mm_nodes s hole_node;
     on_interval_tree (\<lambda>t. do {
       t \<leftarrow> it_write node lst t;
       (link, rb, leftmost, t) \<leftarrow>
         (if nd_allocated hn then do {
            t \<leftarrow> raise_subtree_last hole_node lst t;
            rb_descend (it_visit (START s) start lst) (Link_right hole_node) hole_node False t
          } else rb_descend (it_visit (START s) start lst) Link_root NULL True t);
       t \<leftarrow> rb_link_node node rb link t;
       rb_insert_augmented_cached node leftmost (it_augment (LAST s)) t
     }) s
   }"

definition drm_mm_interval_tree_remove :: "addr \<Rightarrow> drm_mm \<Rightarrow> drm_mm option" where
  "drm_mm_interval_tree_remove node s = on_interval_tree (interval_tree_remove (LAST s) node) s"

section \<open>The holes\<close>

definition rb_to_hole_size :: "addr \<Rightarrow> drm_mm \<Rightarrow> u64 option" where
  "rb_to_hole_size a s = map_option nd_hole_size (mm_nodes s a)"

definition insert_hole_size :: "addr \<Rightarrow> drm_mm \<Rightarrow> drm_mm option" where
  "insert_hole_size node s = do {
     x \<leftarrow> rb_to_hole_size node s;
     on_holes_size (\<lambda>t. do {
       (link, rb, first, t) \<leftarrow> rb_descend (key_visit (\<lambda>a. rb_to_hole_size a s) (\<lambda>v. x > v)) Link_root NULL True t;
       t \<leftarrow> rb_link_node node rb link t;
       rb_insert_color_cached node first t
     }) s
   }"

text \<open>\<open>RB_INSERT(mm->holes_addr, rb_hole_addr, HOLE_ADDR)\<close>.\<close>

definition insert_hole_addr :: "addr \<Rightarrow> drm_mm \<Rightarrow> drm_mm option" where
  "insert_hole_addr node s = do {
     x \<leftarrow> raw_hole_node_start node s;
     on_holes_addr (\<lambda>t. do {
       (link, rb, first, t) \<leftarrow> rb_descend (key_visit (\<lambda>a. raw_hole_node_start a s) (\<lambda>v. x < v)) Link_root NULL True t;
       t \<leftarrow> rb_link_node node rb link t;
       rb_insert_color node t
     }) s
   }"

definition add_hole :: "addr \<Rightarrow> drm_mm \<Rightarrow> drm_mm option" where
  "add_hole node s = do {
     _ \<leftarrow> deref_mm node s;
     hole_end \<leftarrow> raw_hole_node_end node s;
     hole_start \<leftarrow> raw_hole_node_start node s;
     s \<leftarrow> nd_write node (\<lambda>n. n\<lparr>nd_hole_size := hole_end - hole_start\<rparr>) s;
     f \<leftarrow> drm_mm_hole_follows node s;
     _ \<leftarrow> BUG_ON (\<not> f);
     s \<leftarrow> insert_hole_size node s;
     s \<leftarrow> insert_hole_addr node s;
     on_hole_list (list_add node (mm_hole_stack s)) s
   }"

definition rm_hole :: "addr \<Rightarrow> drm_mm \<Rightarrow> drm_mm option" where
  "rm_hole node s = do {
     f \<leftarrow> drm_mm_hole_follows node s;
     _ \<leftarrow> BUG_ON (\<not> f);
     s \<leftarrow> on_hole_list (list_del node) s;
     _ \<leftarrow> deref_mm node s;
     s \<leftarrow> on_holes_size (rb_erase_cached node) s;
     s \<leftarrow> on_holes_addr (rb_erase node) s;
     s \<leftarrow> nd_write node (\<lambda>n. n\<lparr>nd_hole_size := 0\<rparr>) s;
     f \<leftarrow> drm_mm_hole_follows node s;
     _ \<leftarrow> BUG_ON f;
     Some s
   }"

section \<open>Choosing a hole\<close>

partial_function (option) best_hole_loop :: "u64 \<Rightarrow> drm_mm \<Rightarrow> addr \<Rightarrow> addr \<Rightarrow> addr option" where
  "best_hole_loop sz s rb best = do {
     hs \<leftarrow> rb_to_hole_size rb s;
     rn \<leftarrow> rb_mem (mm_holes_size s) rb;
     let (best, rb) = (if sz \<le> hs then (rb, rb_right rn) else (best, rb_left rn));
     if rb \<noteq> NULL then best_hole_loop sz s rb best else Some best
   }"

definition best_hole :: "u64 \<Rightarrow> drm_mm \<Rightarrow> addr option" where
  "best_hole sz s = best_hole_loop sz s (rb_root (mm_holes_size s)) NULL"

partial_function (option) find_hole_loop :: "u64 \<Rightarrow> drm_mm \<Rightarrow> addr \<Rightarrow> addr \<Rightarrow> addr option" where
  "find_hole_loop addr s rb node =
     (if rb = NULL then Some node
      else do {
        let node = rb;
        hole_start \<leftarrow> raw_hole_node_start node s;
        hole_size \<leftarrow> rb_to_hole_size node s;
        rn \<leftarrow> rb_mem (mm_holes_addr s) node;
        if addr < hole_start then find_hole_loop addr s (rb_left rn) node
        else if addr > hole_start + hole_size then find_hole_loop addr s (rb_right rn) node
        else Some node
      })"

definition find_hole :: "u64 \<Rightarrow> drm_mm \<Rightarrow> addr option" where
  "find_hole addr s = find_hole_loop addr s (rb_root (mm_holes_addr s)) NULL"

definition first_hole :: "u64 \<Rightarrow> u64 \<Rightarrow> u64 \<Rightarrow> u32 \<Rightarrow> drm_mm \<Rightarrow> addr option" where
  "first_hole start end sz mode s =
     (if mode = DRM_MM_INSERT_LOW then find_hole start s
      else if mode = DRM_MM_INSERT_HIGH then find_hole end s
      else if mode = DRM_MM_INSERT_EVICT then list_first_entry_or_null (mm_hole_stack s) (mm_hole_list s)
      else best_hole sz s)"

definition next_hole :: "addr \<Rightarrow> u32 \<Rightarrow> drm_mm \<Rightarrow> addr option" where
  "next_hole node mode s =
     (if mode = DRM_MM_INSERT_LOW then rb_next node (mm_holes_addr s)
      else if mode = DRM_MM_INSERT_HIGH then rb_prev node (mm_holes_addr s)
      else if mode = DRM_MM_INSERT_EVICT then do {
        node \<leftarrow> next_of (mm_hole_list s) node;
        Some (if node = mm_hole_stack s then NULL else node)
      }
      else rb_prev node (mm_holes_size s))"

section \<open>Insertion\<close>

definition rb_to_hole_size_or_zero :: "addr \<Rightarrow> drm_mm \<Rightarrow> u64 option" where
  "rb_to_hole_size_or_zero rb s = (if rb \<noteq> NULL then rb_to_hole_size rb s else Some 0)"

definition adjust_colour :: "addr \<Rightarrow> u64 \<Rightarrow> u64 \<times> u64 \<Rightarrow> drm_mm \<Rightarrow> u64 \<times> u64" where
  "adjust_colour hole color bounds s =
     (case mm_color_adjust s of None \<Rightarrow> bounds
      | Some f \<Rightarrow> f (mm_nodes s) (mm_node_list s) hole color bounds)"

text \<open>
  Where in a hole, after colour adjustment \<open>[col_start, col_end)\<close>, the block goes; \<open>Some None\<close> when
  it does not fit. \<open>drm_mm_insert_node_in_range\<close> (\<open>continue\<close>) and \<open>drm_mm_scan_add_block\<close>
  (\<open>return false\<close>) have the same code.
\<close>

definition fit_in_hole ::
  "u64 \<Rightarrow> u64 \<Rightarrow> u64 \<Rightarrow> u64 \<Rightarrow> u64 \<Rightarrow> u64 \<Rightarrow> u64 \<Rightarrow> u32 \<Rightarrow> u64 option option" where
  "fit_in_hole col_start col_end range_start range_end sz alignment remainder_mask mode = do {
     let adj_start = c_max col_start range_start;
     let adj_end = c_min col_end range_end;
     if adj_end \<le> adj_start \<or> adj_end - adj_start < sz then Some None
     else do {
       let adj_start = (if mode = DRM_MM_INSERT_HIGH then adj_end - sz else adj_start);
       if alignment \<noteq> 0 then do {
         rem \<leftarrow> (if remainder_mask \<noteq> 0 then Some (adj_start AND remainder_mask)
                 else map_option snd (div64_u64_rem adj_start alignment));
         if rem \<noteq> 0 then do {
           let adj_start = adj_start - rem;
           let adj_start = (if mode \<noteq> DRM_MM_INSERT_HIGH then adj_start + alignment else adj_start);
           if adj_start < c_max col_start range_start \<or> c_min col_end range_end - adj_start < sz then Some None
           else if adj_end \<le> adj_start \<or> adj_end - adj_start < sz then Some None
           else Some (Some adj_start)
         } else Some (Some adj_start)
       } else Some (Some adj_start)
     }
   }"

definition hole_remainder_mask :: "u64 \<Rightarrow> u64" where
  "hole_remainder_mask alignment = (if is_power_of_2 alignment then alignment - 1 else 0)"

text \<open>The block at \<open>adj_start\<close> is taken out of the hole \<open>[hole_start, hole_end)\<close>.\<close>

definition insert_into_hole ::
  "addr \<Rightarrow> addr \<Rightarrow> u64 \<Rightarrow> u64 \<Rightarrow> u64 \<Rightarrow> u64 \<Rightarrow> u64 \<Rightarrow> drm_mm \<Rightarrow> drm_mm option" where
  "insert_into_hole node hole sz color adj_start hole_start hole_end s = do {
     s \<leftarrow> nd_write node (\<lambda>n. n\<lparr>nd_mm := mm_self s, nd_size := sz, nd_start := adj_start,
            nd_color := color, nd_hole_size := 0\<rparr>) s;
     s \<leftarrow> on_node_list (list_add node hole) s;
     s \<leftarrow> drm_mm_interval_tree_add_node hole node s;
     s \<leftarrow> nd_write node (\<lambda>n. n\<lparr>nd_allocated := True\<rparr>) s;
     s \<leftarrow> rm_hole hole s;
     s \<leftarrow> c_when (adj_start > hole_start) (add_hole hole) s;
     c_when (adj_start + sz < hole_end) (add_hole node) s
   }"

partial_function (option) insert_hole_loop ::
  "addr \<Rightarrow> u64 \<Rightarrow> u64 \<Rightarrow> u64 \<Rightarrow> u64 \<Rightarrow> u64 \<Rightarrow> u64 \<Rightarrow> u32 \<Rightarrow> bool \<Rightarrow> addr \<Rightarrow> drm_mm \<Rightarrow> (int \<times> drm_mm) option" where
  "insert_hole_loop node sz alignment color range_start range_end remainder_mask mode once hole s =
     (if hole = NULL then Some (- ENOSPC, s)
      else do {
        hole_start \<leftarrow> raw_hole_node_start hole s;
        hole_size \<leftarrow> rb_to_hole_size hole s;
        let hole_end = hole_start + hole_size;
        if mode = DRM_MM_INSERT_LOW \<and> hole_start \<ge> range_end then Some (- ENOSPC, s)
        else if mode = DRM_MM_INSERT_HIGH \<and> hole_end \<le> range_start then Some (- ENOSPC, s)
        else do {
          let (col_start, col_end) = adjust_colour hole color (hole_start, hole_end) s;
          fit \<leftarrow> fit_in_hole col_start col_end range_start range_end sz alignment remainder_mask mode;
          case fit of
            Some adj_start \<Rightarrow> do {
              s \<leftarrow> insert_into_hole node hole sz color adj_start hole_start hole_end s;
              Some (0, s)
            }
          | None \<Rightarrow> do {
              hole \<leftarrow> (if once then Some NULL else next_hole hole mode s);
              insert_hole_loop node sz alignment color range_start range_end remainder_mask mode once hole s
            }
        }
      })"

definition drm_mm_insert_node_in_range ::
  "addr \<Rightarrow> u64 \<Rightarrow> u64 \<Rightarrow> u64 \<Rightarrow> u64 \<Rightarrow> u64 \<Rightarrow> u32 \<Rightarrow> drm_mm \<Rightarrow> (int \<times> drm_mm) option" where
  "drm_mm_insert_node_in_range node sz alignment color range_start range_end mode s = do {
     _ \<leftarrow> BUG_ON (range_start > range_end);
     if sz = 0 \<or> range_end - range_start < sz then Some (- ENOSPC, s)
     else do {
       biggest \<leftarrow> rb_to_hole_size_or_zero (rb_first_cached (mm_holes_size s)) s;
       if biggest < sz then Some (- ENOSPC, s)
       else do {
         let alignment = (if alignment \<le> 1 then 0 else alignment);
         let once = mode AND DRM_MM_INSERT_ONCE \<noteq> 0;
         let mode = mode AND NOT DRM_MM_INSERT_ONCE;
         let remainder_mask = hole_remainder_mask alignment;
         hole \<leftarrow> first_hole range_start range_end sz mode s;
         insert_hole_loop node sz alignment color range_start range_end remainder_mask mode once hole s
       }
     }
   }"

definition drm_mm_insert_node_generic :: "addr \<Rightarrow> u64 \<Rightarrow> u64 \<Rightarrow> u64 \<Rightarrow> u32 \<Rightarrow> drm_mm \<Rightarrow> (int \<times> drm_mm) option" where
  "drm_mm_insert_node_generic node sz alignment color mode s =
     drm_mm_insert_node_in_range node sz alignment color 0 U64_MAX mode s"

definition drm_mm_insert_node :: "addr \<Rightarrow> u64 \<Rightarrow> drm_mm \<Rightarrow> (int \<times> drm_mm) option" where
  "drm_mm_insert_node node sz s = drm_mm_insert_node_generic node sz 0 0 0 s"

definition drm_mm_reserve_node :: "addr \<Rightarrow> drm_mm \<Rightarrow> (int \<times> drm_mm) option" where
  "drm_mm_reserve_node node s = do {
     n \<leftarrow> mm_nodes s node;
     let end = nd_start n + nd_size n;
     if end \<le> nd_start n then Some (- ENOSPC, s)
     else do {
       hole \<leftarrow> find_hole (nd_start n) s;
       if hole = NULL then Some (- ENOSPC, s)
       else do {
         hole_start \<leftarrow> raw_hole_node_start hole s;
         hole_size \<leftarrow> rb_to_hole_size hole s;
         let hole_end = hole_start + hole_size;
         let (adj_start, adj_end) = adjust_colour hole (nd_color n) (hole_start, hole_end) s;
         if adj_start > nd_start n \<or> adj_end < end then Some (- ENOSPC, s)
         else do {
           s \<leftarrow> nd_write node (\<lambda>n. n\<lparr>nd_mm := mm_self s\<rparr>) s;
           s \<leftarrow> on_node_list (list_add node hole) s;
           s \<leftarrow> drm_mm_interval_tree_add_node hole node s;
           s \<leftarrow> nd_write node (\<lambda>n. n\<lparr>nd_allocated := True, nd_hole_size := 0\<rparr>) s;
           s \<leftarrow> rm_hole hole s;
           s \<leftarrow> c_when (nd_start n > hole_start) (add_hole hole) s;
           s \<leftarrow> c_when (end < hole_end) (add_hole node) s;
           Some (0, s)
         }
       }
     }
   }"

section \<open>Removal and replacement\<close>

definition drm_mm_remove_node :: "addr \<Rightarrow> drm_mm \<Rightarrow> drm_mm option" where
  "drm_mm_remove_node node s = do {
     n \<leftarrow> mm_nodes s node;
     _ \<leftarrow> BUG_ON (\<not> nd_allocated n);
     _ \<leftarrow> BUG_ON (nd_scanned_block n);
     prev_node \<leftarrow> prev_of (mm_node_list s) node;
     f \<leftarrow> drm_mm_hole_follows node s;
     s \<leftarrow> c_when f (rm_hole node) s;
     _ \<leftarrow> deref_mm node s;
     s \<leftarrow> drm_mm_interval_tree_remove node s;
     s \<leftarrow> on_node_list (list_del node) s;
     s \<leftarrow> nd_write node (\<lambda>n. n\<lparr>nd_allocated := False\<rparr>) s;
     f \<leftarrow> drm_mm_hole_follows prev_node s;
     s \<leftarrow> c_when f (rm_hole prev_node) s;
     add_hole prev_node s
   }"

text \<open>The assignment \<open>*new = *old\<close> copies every embedded member.\<close>

definition copy_entry :: "addr \<Rightarrow> addr \<Rightarrow> 'a store \<Rightarrow> 'a store option" where
  "copy_entry old new m = do { x \<leftarrow> m old; _ \<leftarrow> m new; Some (m(new \<mapsto> x)) }"

definition copy_node :: "addr \<Rightarrow> addr \<Rightarrow> drm_mm \<Rightarrow> drm_mm option" where
  "copy_node old new s = do {
     nodes \<leftarrow> copy_entry old new (mm_nodes s);
     nl \<leftarrow> copy_entry old new (mm_node_list s);
     hl \<leftarrow> copy_entry old new (mm_hole_list s);
     rb \<leftarrow> copy_entry old new (rb_mem (mm_interval_tree s));
     sub \<leftarrow> copy_entry old new (it_subtree (mm_interval_tree s));
     rs \<leftarrow> copy_entry old new (rb_mem (mm_holes_size s));
     ra \<leftarrow> copy_entry old new (rb_mem (mm_holes_addr s));
     Some (s\<lparr>mm_nodes := nodes, mm_node_list := nl, mm_hole_list := hl,
       mm_interval_tree := (mm_interval_tree s)\<lparr>rb_mem := rb, it_subtree := sub\<rparr>,
       mm_holes_size := (mm_holes_size s)\<lparr>rb_mem := rs\<rparr>,
       mm_holes_addr := (mm_holes_addr s)\<lparr>rb_mem := ra\<rparr>\<rparr>)
   }"

definition drm_mm_replace_node :: "addr \<Rightarrow> addr \<Rightarrow> drm_mm \<Rightarrow> drm_mm option" where
  "drm_mm_replace_node old new s = do {
     _ \<leftarrow> deref_mm old s;
     n \<leftarrow> mm_nodes s old;
     _ \<leftarrow> BUG_ON (\<not> nd_allocated n);
     s \<leftarrow> copy_node old new s;
     s \<leftarrow> on_node_list (list_replace old new) s;
     s \<leftarrow> on_interval_tree (rb_replace_node_cached old new) s;
     f \<leftarrow> drm_mm_hole_follows old s;
     s \<leftarrow> c_when f (\<lambda>s. do {
       s \<leftarrow> on_hole_list (list_replace old new) s;
       s \<leftarrow> on_holes_size (rb_replace_node_cached old new) s;
       on_holes_addr (rb_replace_node old new) s
     }) s;
     s \<leftarrow> nd_write old (\<lambda>n. n\<lparr>nd_allocated := False\<rparr>) s;
     nd_write new (\<lambda>n. n\<lparr>nd_allocated := True\<rparr>) s
   }"

section \<open>The eviction scan\<close>

definition drm_mm_scan_init_with_range ::
  "u64 \<Rightarrow> u64 \<Rightarrow> u64 \<Rightarrow> u64 \<Rightarrow> u64 \<Rightarrow> u32 \<Rightarrow> drm_mm \<Rightarrow> drm_mm_scan option" where
  "drm_mm_scan_init_with_range sz alignment color start end mode s = do {
     _ \<leftarrow> BUG_ON (start \<ge> end);
     _ \<leftarrow> BUG_ON (sz = 0 \<or> sz > end - start);
     _ \<leftarrow> BUG_ON (mm_scan_active s \<noteq> 0);
     let alignment = (if alignment \<le> 1 then 0 else alignment);
     _ \<leftarrow> BUG_ON (end \<le> start);
     Some \<lparr>sc_mm = mm_self s, sc_size = sz, sc_alignment = alignment,
       sc_remainder_mask = hole_remainder_mask alignment, sc_range_start = start, sc_range_end = end,
       sc_hit_start = U64_MAX, sc_hit_end = 0, sc_color = color, sc_mode = mode\<rparr>
   }"

definition drm_mm_scan_init :: "u64 \<Rightarrow> u64 \<Rightarrow> u64 \<Rightarrow> u32 \<Rightarrow> drm_mm \<Rightarrow> drm_mm_scan option" where
  "drm_mm_scan_init sz alignment color mode s =
     drm_mm_scan_init_with_range sz alignment color 0 U64_MAX mode s"

definition drm_mm_scan_add_block ::
  "addr \<Rightarrow> drm_mm_scan \<times> drm_mm \<Rightarrow> (bool \<times> drm_mm_scan \<times> drm_mm) option" where
  "drm_mm_scan_add_block node = (\<lambda>(scan, s). do {
     n \<leftarrow> mm_nodes s node;
     _ \<leftarrow> BUG_ON (nd_mm n \<noteq> sc_mm scan);
     _ \<leftarrow> BUG_ON (\<not> nd_allocated n);
     _ \<leftarrow> BUG_ON (nd_scanned_block n);
     s \<leftarrow> nd_write node (\<lambda>n. n\<lparr>nd_scanned_block := True\<rparr>) s;
     let s = s\<lparr>mm_scan_active := mm_scan_active s + 1\<rparr>;
     hole \<leftarrow> prev_of (mm_node_list s) node;
     nxt \<leftarrow> next_of (mm_node_list s) hole;
     _ \<leftarrow> BUG_ON (nxt \<noteq> node);
     s \<leftarrow> on_node_list (raw_list_del_entry node) s;
     hole_start \<leftarrow> raw_hole_node_start hole s;
     hole_end \<leftarrow> raw_hole_node_end hole s;
     let (col_start, col_end) = adjust_colour hole (sc_color scan) (hole_start, hole_end) s;
     fit \<leftarrow> fit_in_hole col_start col_end (sc_range_start scan) (sc_range_end scan) (sc_size scan)
        (sc_alignment scan) (sc_remainder_mask scan) (sc_mode scan);
     case fit of None \<Rightarrow> Some (False, scan, s)
     | Some adj_start \<Rightarrow> do {
         let scan = scan\<lparr>sc_hit_start := adj_start, sc_hit_end := adj_start + sc_size scan\<rparr>;
         _ \<leftarrow> BUG_ON (sc_hit_start scan \<ge> sc_hit_end scan);
         _ \<leftarrow> BUG_ON (sc_hit_start scan < hole_start);
         _ \<leftarrow> BUG_ON (sc_hit_end scan > hole_end);
         Some (True, scan, s)
       }
   })"

definition drm_mm_scan_remove_block :: "addr \<Rightarrow> drm_mm_scan \<times> drm_mm \<Rightarrow> (bool \<times> drm_mm) option" where
  "drm_mm_scan_remove_block node = (\<lambda>(scan, s). do {
     n \<leftarrow> mm_nodes s node;
     _ \<leftarrow> BUG_ON (nd_mm n \<noteq> sc_mm scan);
     _ \<leftarrow> BUG_ON (\<not> nd_scanned_block n);
     s \<leftarrow> nd_write node (\<lambda>n. n\<lparr>nd_scanned_block := False\<rparr>) s;
     _ \<leftarrow> deref_mm node s;
     _ \<leftarrow> BUG_ON (mm_scan_active s = 0);
     let s = s\<lparr>mm_scan_active := mm_scan_active s - 1\<rparr>;
     prev_node \<leftarrow> prev_of (mm_node_list s) node;
     pn \<leftarrow> next_of (mm_node_list s) prev_node;
     nn \<leftarrow> next_of (mm_node_list s) node;
     _ \<leftarrow> BUG_ON (pn \<noteq> nn);
     s \<leftarrow> on_node_list (list_add node prev_node) s;
     Some (nd_start n + nd_size n > sc_hit_start scan \<and> nd_start n < sc_hit_end scan, s)
   })"

text \<open>
  The cursor after the loop of \<open>drm_mm_scan_color_evict\<close> with the bounds of its hole, or the head
  of the list when the loop ran to its end.
\<close>

definition color_evict_body ::
  "drm_mm_scan \<Rightarrow> addr \<Rightarrow> drm_mm \<Rightarrow> (drm_mm + addr \<times> u64 \<times> u64) option" where
  "color_evict_body scan hole s = do {
     hole_start \<leftarrow> raw_hole_node_start hole s;
     hole_size \<leftarrow> rb_to_hole_size hole s;
     let hole_end = hole_start + hole_size;
     Some (if hole_start \<le> sc_hit_start scan \<and> hole_end \<ge> sc_hit_end scan
           then Inr (hole, hole_start, hole_end) else Inl s)
   }"

definition drm_mm_scan_color_evict :: "drm_mm_scan \<Rightarrow> drm_mm \<Rightarrow> addr option" where
  "drm_mm_scan_color_evict scan s = do {
     empty \<leftarrow> list_empty (mm_hole_stack s) (mm_hole_list s);
     _ \<leftarrow> BUG_ON empty;
     case mm_color_adjust s of None \<Rightarrow> Some NULL
     | Some f \<Rightarrow> do {
         r \<leftarrow> list_for_each_entry mm_hole_list (mm_hole_stack s) (color_evict_body scan) s;
         case r of Inl _ \<Rightarrow> None
         | Inr (hole, hole_start, hole_end) \<Rightarrow> do {
             _ \<leftarrow> BUG_ON (hole_start > sc_hit_start scan);
             _ \<leftarrow> BUG_ON (hole_end < sc_hit_end scan);
             let (hole_start, hole_end) = f (mm_nodes s) (mm_node_list s) hole (sc_color scan) (hole_start, hole_end);
             if hole_start > sc_hit_start scan then Some hole
             else if hole_end < sc_hit_end scan then next_of (mm_node_list s) hole
             else Some NULL
           }
       }
   }"

section \<open>Initialisation, takedown and printing\<close>

definition drm_mm_init :: "u64 \<Rightarrow> u64 \<Rightarrow> drm_mm \<Rightarrow> drm_mm option" where
  "drm_mm_init start sz s = do {
     _ \<leftarrow> BUG_ON (start + sz \<le> start);
     let s = s\<lparr>mm_color_adjust := None\<rparr>;
     s \<leftarrow> on_hole_list (INIT_LIST_HEAD (mm_hole_stack s)) s;
     let s = s\<lparr>mm_interval_tree := (mm_interval_tree s)\<lparr>rb_root := NULL, rb_leftmost := NULL\<rparr>,
       mm_holes_size := (mm_holes_size s)\<lparr>rb_root := NULL, rb_leftmost := NULL\<rparr>,
       mm_holes_addr := (mm_holes_addr s)\<lparr>rb_root := NULL\<rparr>\<rparr>;
     s \<leftarrow> on_node_list (INIT_LIST_HEAD (mm_head_node s)) s;
     s \<leftarrow> nd_write (mm_head_node s) (\<lambda>n. n\<lparr>nd_allocated := False, nd_mm := mm_self s,
            nd_start := start + sz, nd_size := - sz\<rparr>) s;
     s \<leftarrow> add_hole (mm_head_node s) s;
     Some (s\<lparr>mm_scan_active := 0\<rparr>)
   }"

text \<open>The result says whether the warning (and, in the kernel, the list of leaks) is printed.\<close>

definition drm_mm_takedown :: "drm_mm \<Rightarrow> bool option" where
  "drm_mm_takedown s = do { c \<leftarrow> drm_mm_clean s; Some (\<not> c) }"

text \<open>The lines that \<open>drm_mm_print\<close> writes, with the numbers in them.\<close>

datatype mm_line = Line_free u64 u64 u64 | Line_used u64 u64 u64 | Line_total u64 u64 u64

definition drm_mm_dump_hole :: "addr \<Rightarrow> drm_mm \<Rightarrow> (u64 \<times> mm_line list) option" where
  "drm_mm_dump_hole a s = do {
     sz \<leftarrow> rb_to_hole_size a s;
     if sz \<noteq> 0 then do {
       start \<leftarrow> drm_mm_hole_node_start a s;
       Some (sz, [Line_free start (start + sz) sz])
     } else Some (sz, [])
   }"

definition print_body ::
  "drm_mm \<Rightarrow> addr \<Rightarrow> u64 \<times> u64 \<times> mm_line list \<Rightarrow> (u64 \<times> u64 \<times> mm_line list + unit) option" where
  "print_body s entry = (\<lambda>(used, free, out). do {
     n \<leftarrow> mm_nodes s entry;
     (hs, line) \<leftarrow> drm_mm_dump_hole entry s;
     Some (Inl (used + nd_size n, free + hs,
       out @ Line_used (nd_start n) (nd_start n + nd_size n) (nd_size n) # line))
   })"

definition drm_mm_print :: "drm_mm \<Rightarrow> mm_line list option" where
  "drm_mm_print s = do {
     (total_free, out) \<leftarrow> drm_mm_dump_hole (mm_head_node s) s;
     r \<leftarrow> list_for_each_entry (\<lambda>_. mm_node_list s) (mm_head_node s) (print_body s) (0, total_free, out);
     case r of Inr _ \<Rightarrow> None
     | Inl (used, free, out) \<Rightarrow> Some (out @ [Line_total (free + used) used free])
   }"

end
