(* ===== verification/Drm_Mm_Fit.thy ===== *)
theory Drm_Mm_Fit
  imports Drm_Mm
begin

text \<open>
  The arithmetic of a placement: \<open>fit_in_hole\<close> against the statement of what it looks for, the
  lowest or the highest aligned block of the wanted size within bounds, wrap-around included.
\<close>

section \<open>Powers of two and remainders\<close>

lemma nat_power_of_2:
  fixes m :: nat
  assumes "0 < m" and "m AND (m - 1) = 0"
  shows "\<exists>k. m = 2 ^ k"
  using assms
proof (induction m rule: less_induct)
  case (less m)
  show ?case
  proof (cases "even m")
    case True
    then obtain j where j: "m = 2 * j" by auto
    then obtain i where i: "j = Suc i" using less.prems(1) by (cases j) auto
    have "m - 1 = Suc (2 * i)" using j i by simp
    then have "2 * (j AND i) = 0" using less.prems(2) and_nat_rec [of "2 * j" "Suc (2 * i)"] j by simp
    then obtain k where "j = 2 ^ k" using less.IH [of j] j i by auto
    then show ?thesis using j by (intro exI [of _ "Suc k"]) simp
  next
    case False
    then obtain j where j: "m = Suc (2 * j)" by (auto elim: oddE)
    then have "2 * (j AND j) = 0" using less.prems(2) and_nat_rec [of "Suc (2 * j)" "2 * j"] by simp
    then show ?thesis using j by (intro exI [of _ 0]) simp
  qed
qed

lemma is_power_of_2_iff: "is_power_of_2 n \<longleftrightarrow> (\<exists>k<64. n = 2 ^ k)"
proof
  assume p: "is_power_of_2 n"
  then have n: "n \<noteq> 0" "n AND (n - 1) = 0" by (simp_all add: is_power_of_2_def)
  have u: "unat (n - 1) = unat n - 1" using n(1) by (simp add: unat_minus_one)
  have "unat n AND (unat n - 1) = 0"
    using n(2) arg_cong [of _ _ unat] by (metis u unsigned_and_eq unat_0)
  moreover have "0 < unat n" using n(1) by (simp add: unat_gt_0)
  ultimately obtain k where k: "unat n = 2 ^ k" using nat_power_of_2 by blast
  have "unat n < 2 ^ 64" using unsigned_less [of n, where ?'a = nat] by simp
  then have "k < 64" using k power_strict_increasing_iff [of "2 :: nat" k 64] by simp
  moreover have "n = 2 ^ k"
  proof -
    have "n = word_of_nat (unat n)" by simp
    also have "\<dots> = 2 ^ k" unfolding k by simp
    finally show ?thesis .
  qed
  ultimately show "\<exists>k<64. n = 2 ^ k" by blast
next
  assume "\<exists>k<64. n = 2 ^ k"
  then obtain k where k: "k < 64" "n = 2 ^ k" by blast
  have "n \<noteq> 0" using k by simp
  moreover have "n AND (n - 1) = 0"
  proof -
    have "n AND (n - 1) = take_bit k n" unfolding k(2) by (simp add: take_bit_eq_mask mask_eq_exp_minus_1)
    also have "\<dots> = 0" unfolding k(2) by (simp add: take_bit_eq_mod)
    finally show ?thesis .
  qed
  ultimately show "is_power_of_2 n" by (simp add: is_power_of_2_def)
qed

lemma hole_remainder:
  assumes "1 < al"
  shows "(if hole_remainder_mask al \<noteq> 0 then Some (x AND hole_remainder_mask al)
      else map_option snd (div64_u64_rem x al)) = Some (x mod al)"
proof (cases "is_power_of_2 al")
  case True
  then obtain k where k: "al = 2 ^ k" using is_power_of_2_iff by blast
  have "hole_remainder_mask al = mask k" using True k by (simp add: hole_remainder_mask_def mask_eq_exp_minus_1)
  moreover have "x AND mask k = x mod al" unfolding k by (simp flip: take_bit_eq_mask take_bit_eq_mod)
  moreover have "mask k \<noteq> (0 :: u64)" using assms k mask_eq_exp_minus_1 [of k, where ?'a = "64 word"] by auto
  ultimately show ?thesis by simp
next
  case False
  then show ?thesis using assms by (auto simp: hole_remainder_mask_def div64_u64_rem_def)
qed

section \<open>What is looked for\<close>

definition place_ok :: "u64 \<Rightarrow> u64 \<Rightarrow> u64 \<Rightarrow> u64 \<Rightarrow> u64 \<Rightarrow> bool" where
  "place_ok lo hi sz al q \<longleftrightarrow> lo \<le> q \<and> q < q + sz \<and> q + sz \<le> hi \<and> (1 < al \<longrightarrow> q mod al = 0)"

definition best_place :: "u64 \<Rightarrow> u64 \<Rightarrow> u64 \<Rightarrow> u64 \<Rightarrow> bool \<Rightarrow> u64 option \<Rightarrow> bool" where
  "best_place lo hi sz al high r \<longleftrightarrow>
     (case r of None \<Rightarrow> \<forall>q. \<not> place_ok lo hi sz al q
      | Some p \<Rightarrow> place_ok lo hi sz al p \<and> (\<forall>q. place_ok lo hi sz al q \<longrightarrow> (if high then q \<le> p else p \<le> q)))"

lemma place_ok_nat:
  assumes "sz \<noteq> 0"
  shows "place_ok lo hi sz al q \<longleftrightarrow> unat lo \<le> unat q \<and> unat q + unat sz \<le> unat hi \<and> (1 < al \<longrightarrow> unat q mod unat al = 0)"
proof -
  have hi: "unat hi < 2 ^ 64" using unsigned_less [of hi, where ?'a = nat] by simp
  have s: "0 < unat sz" using assms by (simp add: unat_gt_0)
  have "q < q + sz \<and> q + sz \<le> hi \<longleftrightarrow> unat q + unat sz \<le> unat hi"
  proof (cases "unat q + unat sz < 2 ^ 64")
    case True
    then have "unat (q + sz) = unat q + unat sz" by (subst unat_add_lem [THEN iffD1]) simp_all
    then show ?thesis using s by (simp add: word_less_nat_alt word_le_nat_alt)
  next
    case False
    have "unat (q + sz) = unat q + unat sz - 2 ^ 64" using False unat_plus_if' [of q sz] by simp
    moreover have "unat sz < 2 ^ 64" using unsigned_less [of sz, where ?'a = nat] by simp
    ultimately have "unat (q + sz) \<le> unat q" by linarith
    then show ?thesis using False hi by (simp add: word_less_nat_alt)
  qed
  moreover have "q mod al = 0 \<longleftrightarrow> unat q mod unat al = 0" by (metis unat_eq_zero unat_mod)
  ultimately show ?thesis by (auto simp: place_ok_def word_le_nat_alt)
qed

lemma aligned_down:
  fixes q p a :: nat
  assumes "q \<le> p" and "q mod a = 0" shows "q \<le> p - p mod a"
proof -
  have "q = q div a * a" using assms(2) by auto
  also have "\<dots> \<le> p div a * a" using assms(1) by (simp add: div_le_mono)
  finally show ?thesis by (simp add: minus_mod_eq_div_mult)
qed

lemma aligned_up:
  fixes q l a :: nat
  assumes "l \<le> q" and "q mod a = 0" and "l mod a \<noteq> 0" shows "l - l mod a + a \<le> q"
proof -
  have e: "q = q div a * a" using assms(2) by auto
  have "l div a * a < l" using assms(3) by (metis add_less_same_cancel1 div_mult_mod_eq not_less_zero linorder_neqE_nat less_add_same_cancel1)
  then have "l div a * a < q div a * a" using assms(1) e by linarith
  then have "l div a < q div a" using mult_less_cancel2 by blast
  then have "Suc (l div a) * a \<le> q div a * a" by (intro mult_le_mono1) simp
  then show ?thesis using e by (simp add: minus_mod_eq_div_mult)
qed


lemma unat_sub_le: "(b :: u64) \<le> a \<Longrightarrow> unat (a - b) = unat a - unat b"
  by (simp add: unat_sub)

text \<open>The place tried first, and the aligned one tried after it.\<close>

definition first_place :: "u64 \<Rightarrow> u64 \<Rightarrow> u64 \<Rightarrow> bool \<Rightarrow> u64" where
  "first_place lo hi sz high = (if high then hi - sz else lo)"

definition realigned :: "u64 \<Rightarrow> u64 \<Rightarrow> bool \<Rightarrow> u64" where
  "realigned al p high = (if \<not> high then p - p mod al + al else p - p mod al)"

definition fit_result :: "u64 \<Rightarrow> u64 \<Rightarrow> u64 \<Rightarrow> u64 \<Rightarrow> bool \<Rightarrow> u64 option" where
  "fit_result lo hi sz al high =
     (let p0 = first_place lo hi sz high; p1 = realigned al p0 high in
      if hi \<le> lo \<or> hi - lo < sz then None
      else if al = 0 \<or> p0 mod al = 0 then Some p0
      else if p1 < lo \<or> hi - p1 < sz \<or> hi \<le> p1 then None else Some p1)"

lemma above_one: "(al :: u64) \<noteq> 0 \<Longrightarrow> al \<noteq> 1 \<Longrightarrow> 1 < al"
  by (metis word_gt_0 word_less_1 word_le_less_eq word_not_simps(1) linorder_neqE)

lemma fit_in_hole_eq:
  assumes al: "al \<noteq> 1"
  shows "fit_in_hole col_start col_end range_start range_end sz al (hole_remainder_mask al) mode =
    Some (fit_result (max col_start range_start) (min col_end range_end) sz al (mode = DRM_MM_INSERT_HIGH))"
proof (cases "al = 0")
  case True
  then show ?thesis
    unfolding fit_in_hole_def c_max_eq c_min_eq
    by (simp add: Let_def fit_result_def first_place_def)
next
  case False
  note r = hole_remainder [OF above_one [OF False al]]
  show ?thesis
    unfolding fit_in_hole_def c_max_eq c_min_eq r Let_def fit_result_def
    using False by (auto simp: first_place_def realigned_def)
qed

lemma first_place_best:
  fixes high :: bool
  assumes sz: "sz \<noteq> 0" and room: "\<not> (hi \<le> lo \<or> hi - lo < sz)"
  defines "p \<equiv> first_place lo hi sz high"
  shows "unat lo \<le> unat p" "unat p + unat sz \<le> unat hi"
    and "place_ok lo hi sz al q \<Longrightarrow> if high then unat q \<le> unat p else unat p \<le> unat q"
    and "\<not> high \<Longrightarrow> unat p = unat lo"
proof -
  have s: "0 < unat sz" using sz by (simp add: unat_gt_0)
  have "unat lo + unat sz \<le> unat hi" "sz \<le> hi"
    using s room by (auto simp: word_le_nat_alt word_less_nat_alt unat_sub_le not_le not_less)
  then have p: "unat p = (if high then unat hi - unat sz else unat lo)" "unat lo \<le> unat p" "unat p + unat sz \<le> unat hi"
    by (auto simp: p_def first_place_def unat_sub_le)
  then show "unat lo \<le> unat p" "unat p + unat sz \<le> unat hi" "\<not> high \<Longrightarrow> unat p = unat lo" by simp_all
  show "if high then unat q \<le> unat p else unat p \<le> unat q" if "place_ok lo hi sz al q"
    using that p(1) by (auto simp: place_ok_nat [OF sz])
qed

text \<open>Going down from the highest place to the aligned one below it.\<close>

lemma realigned_down:
  assumes sz: "sz \<noteq> 0" and al: "1 < al" "p mod al \<noteq> 0" and p: "unat p + unat sz \<le> unat hi"
    and opt: "\<And>q. place_ok lo hi sz al q \<Longrightarrow> unat q \<le> unat p"
  defines "p1 \<equiv> realigned al p True"
  shows "best_place lo hi sz al True (if p1 < lo \<or> hi - p1 < sz \<or> hi \<le> p1 then None else Some p1)"
proof -
  note ok = place_ok_nat [OF sz, of lo hi al]
  have s: "0 < unat sz" using sz by (simp add: unat_gt_0)
  define R where "R = unat p mod unat al"
  have um: "unat (p mod al) = R" by (simp add: R_def unat_mod)
  have R: "R \<noteq> 0" "R \<le> unat p" using al(2) um by (auto simp: R_def simp flip: unat_eq_zero)
  have p1: "unat p1 = unat p - R"
    using R(2) um by (simp add: p1_def realigned_def unat_sub_le word_le_nat_alt)
  have al1: "unat p1 mod unat al = 0" unfolding p1 R_def by (metis minus_mod_eq_mult_div mod_mult_self1_is_0)
  have h: "\<not> (hi - p1 < sz)" "\<not> hi \<le> p1"
    using p1 p s R(1) by (auto simp: word_le_nat_alt word_less_nat_alt unat_sub_le not_less)
  have best: "unat q \<le> unat p1" if "place_ok lo hi sz al q" for q
    using aligned_down [of "unat q" "unat p" "unat al"] opt [OF that] that al(1) by (simp add: p1 R_def ok)
  show ?thesis
  proof (cases "p1 < lo")
    case True
    have "\<not> place_ok lo hi sz al q" for q
    proof
      assume q: "place_ok lo hi sz al q"
      then have "unat lo \<le> unat q" by (simp add: ok)
      then show False using best [OF q] True by (simp add: word_less_nat_alt)
    qed
    then show ?thesis using True by (simp add: best_place_def)
  next
    case False
    have "place_ok lo hi sz al p1" using False al1 p p1 by (simp add: ok word_less_nat_alt)
    then show ?thesis using False h best by (auto simp: best_place_def word_le_nat_alt)
  qed
qed

text \<open>Going up from the lowest place to the aligned one above it, which may wrap around.\<close>

lemma realigned_up:
  assumes sz: "sz \<noteq> 0" and al: "1 < al" "p mod al \<noteq> 0" and p: "unat p = unat lo"
    and opt: "\<And>q. place_ok lo hi sz al q \<Longrightarrow> unat p \<le> unat q"
  defines "p1 \<equiv> realigned al p False"
  shows "best_place lo hi sz al False (if p1 < lo \<or> hi - p1 < sz \<or> hi \<le> p1 then None else Some p1)"
proof -
  note ok = place_ok_nat [OF sz, of lo hi al]
  have s: "0 < unat sz" "0 < unat al" using sz al by (auto simp: unat_gt_0)
  define R where "R = unat p mod unat al"
  have um: "unat (p mod al) = R" by (simp add: R_def unat_mod)
  have R: "R \<noteq> 0" "R \<le> unat p" "R < unat al" using al(2) um s(2) by (auto simp: R_def simp flip: unat_eq_zero)
  have sub: "unat (p - p mod al) = unat p - R" using R(2) um by (simp add: unat_sub_le word_le_nat_alt)
  define N where "N = unat p - R + unat al"
  have N: "unat p1 = (if N < 2 ^ 64 then N else N - 2 ^ 64)" "unat p < N"
    using R sub by (auto simp: p1_def realigned_def N_def unat_plus_if' split: if_splits)
  have best: "N \<le> unat q" if "place_ok lo hi sz al q" for q
    using aligned_up [of "unat p" "unat q" "unat al"] opt [OF that] that al(1) R(1) by (simp add: N_def R_def ok)
  have w: "unat hi < 2 ^ 64" "unat al < 2 ^ 64" "unat p < 2 ^ 64"
    using unsigned_less [of hi, where ?'a = nat] unsigned_less [of al, where ?'a = nat] unsigned_less [of p, where ?'a = nat]
    by simp_all
  show ?thesis
  proof (cases "N + unat sz \<le> unat hi")
    case True
    then have p1: "unat p1 = N" using N(1) w(1) by simp
    have "N mod unat al = 0" unfolding N_def R_def by (simp add: minus_mod_eq_mult_div)
    then have "place_ok lo hi sz al p1" using True p1 N(2) p by (simp add: ok)
    moreover have "\<not> p1 < lo" "\<not> hi - p1 < sz" "\<not> hi \<le> p1"
      using p1 True s N(2) p by (auto simp: word_le_nat_alt word_less_nat_alt unat_sub_le not_less)
    ultimately show ?thesis using best p1 by (auto simp: best_place_def word_le_nat_alt)
  next
    case False
    have none: "\<not> place_ok lo hi sz al q" for q
    proof
      assume q: "place_ok lo hi sz al q"
      then have "unat q + unat sz \<le> unat hi" by (simp add: ok)
      then show False using best [OF q] False by simp
    qed
    have "p1 < lo \<or> hi - p1 < sz \<or> hi \<le> p1"
    proof (cases "N < 2 ^ 64")
      case True
      then show ?thesis using N(1) False s by (auto simp: word_le_nat_alt word_less_nat_alt unat_sub_le not_le)
    next
      case wrap: False
      then have "unat p1 < unat p" using N w R by (simp add: N_def)
      then show ?thesis using p by (simp add: word_less_nat_alt)
    qed
    then show ?thesis using none by (auto simp: best_place_def)
  qed
qed

lemma fit_result_best:
  assumes sz: "sz \<noteq> 0" and al: "al \<noteq> 1"
  shows "best_place lo hi sz al high (fit_result lo hi sz al high)"
proof -
  note ok = place_ok_nat [OF sz, of lo hi al]
  have s: "0 < unat sz" using sz by (simp add: unat_gt_0)
  let ?p = "first_place lo hi sz high"
  consider (small) "hi \<le> lo \<or> hi - lo < sz" | (first) "\<not> (hi \<le> lo \<or> hi - lo < sz)" "al = 0 \<or> ?p mod al = 0"
    | (aligned) "\<not> (hi \<le> lo \<or> hi - lo < sz)" "al \<noteq> 0" "?p mod al \<noteq> 0" by blast
  then show ?thesis
  proof cases
    case small
    then have "unat hi < unat lo + unat sz"
      using s by (cases "hi \<le> lo") (auto simp: word_le_nat_alt word_less_nat_alt unat_sub_le)
    then show ?thesis using small by (auto simp: best_place_def fit_result_def Let_def ok)
  next
    case first
    note p = first_place_best [OF sz first(1), where high = high]
    have "unat ?p mod unat al = 0 \<or> \<not> 1 < al" using first(2) by (metis unat_eq_zero unat_mod not_less_zero word_not_simps(1))
    then have "place_ok lo hi sz al ?p" using p(1,2) by (auto simp: ok)
    then show ?thesis using first p(3) [of al] by (auto simp: best_place_def fit_result_def Let_def word_le_nat_alt)
  next
    case aligned
    note p = first_place_best [OF sz aligned(1), where high = high] and a = above_one [OF aligned(2) al]
    have e: "fit_result lo hi sz al high = (let p1 = realigned al ?p high in if p1 < lo \<or> hi - p1 < sz \<or> hi \<le> p1 then None else Some p1)"
      using aligned by (simp add: fit_result_def Let_def)
    show ?thesis
    proof (cases high)
      case True
      show ?thesis unfolding eqTrueI [OF True] e [unfolded Let_def eqTrueI [OF True]]
        by (rule realigned_down [OF sz a]) (use aligned(3) p(2) p(3) [of al] True in simp_all)
    next
      case False
      show ?thesis unfolding iffD2 [OF eq_False False] e [unfolded Let_def iffD2 [OF eq_False False]]
        by (rule realigned_up [OF sz a]) (use aligned(3) p(4) p(3) [of al] False in simp_all)
    qed
  qed
qed

lemma fit_in_hole_spec:
  assumes "sz \<noteq> 0" and "al \<noteq> 1"
  shows "\<exists>r. fit_in_hole col_start col_end range_start range_end sz al (hole_remainder_mask al) mode = Some r \<and>
    best_place (max col_start range_start) (min col_end range_end) sz al (mode = DRM_MM_INSERT_HIGH) r"
  using fit_in_hole_eq [OF assms(2)] fit_result_best [OF assms] by blast

end
