(* ===== verification/Drm_Mm_Interval.thy ===== *)
theory Drm_Mm_Interval
  imports Drm_Mm
begin

text \<open>
  \<open>drm_mm_interval_tree_add_node\<close> knows the node before the new one, and saves the search from
  the root: it raises \<open>__subtree_last\<close> from that node upwards, up to the first node where it is
  large enough, and looks for the place in the right subtree of that node only.
\<close>

lemma it_comb_raised:
  "lst \<le> it_comb itlast a x y \<Longrightarrow> it_comb itlast a (Some (max_opt lst x)) y = it_comb itlast a x y"
  "lst \<le> it_comb itlast a x y \<Longrightarrow> it_comb itlast a x (Some (max_opt lst y)) = it_comb itlast a x y"
  unfolding it_comb_insert by (auto simp: max_opt_def)

lemma raise_subtree_last_law:
  assumes "zip_at (rb_mem t) rt q k" and "zaug_ok (it_comb itlast) (it_good itlast) (it_subtree t) x k"
    and "distinct (zleft k @ zright k)"
  shows "\<exists>v. raise_subtree_last (zpar k) lst t = Some (t\<lparr>it_subtree := v\<rparr>) \<and>
    zaug_ok (it_comb itlast) (it_good itlast) v (Some (max_opt lst x)) k \<and>
    (\<forall>a. a \<notin> zset k \<longrightarrow> v a = it_subtree t a)"
  using assms
proof (induction k arbitrary: q x t)
  case Nil
  then show ?case
    by (intro exI [of _ "it_subtree t"]) (simp add: raise_subtree_last.simps)
next
  case (Cons f k)
  let ?ok = "zaug_ok (it_comb itlast) (it_good itlast)"
  have *: ?case
    if n: "rb_mem t a = Some n" "rb_parent n = zpar k" "zpar (f # k) = a" "a \<noteq> NULL"
      and z: "zip_at (rb_mem t) rt a k" "distinct (zleft k @ zright k)" "a \<notin> zset k"
        "a \<in> zset (f # k)" "zset k \<subseteq> zset (f # k)"
      and y: "it_subtree t a = Some y" "?ok (it_subtree t) (Some y) k"
      and same: "lst \<le> y \<Longrightarrow> ?ok (it_subtree t) (Some (max_opt lst x)) (f # k)"
      and up: "\<And>v. v a = Some (max_opt lst (Some y)) \<Longrightarrow> ?ok v (Some (max_opt lst (Some y))) k \<Longrightarrow>
        (\<And>b. b \<notin> insert a (zset k) \<Longrightarrow> v b = it_subtree t b) \<Longrightarrow> ?ok v (Some (max_opt lst x)) (f # k)"
    for a n y
  proof (cases "y \<ge> lst")
    case True
    then show ?thesis using n y(1) same
      by (intro exI [of _ "it_subtree t"]) (simp add: raise_subtree_last.simps [of a])
  next
    case False
    define t1 where "t1 = t\<lparr>it_subtree := (it_subtree t)(a \<mapsto> lst)\<rparr>"
    have m: "max_opt lst (Some y) = lst" using False by (auto simp: max_opt_def)
    obtain v where v: "raise_subtree_last (zpar k) lst t1 = Some (t1\<lparr>it_subtree := v\<rparr>)"
      "?ok v (Some (max_opt lst (Some y))) k" "\<forall>b. b \<notin> zset k \<longrightarrow> v b = it_subtree t1 b"
    proof -
      have "zip_at (rb_mem t1) rt a k" "?ok (it_subtree t1) (Some y) k" using z(1,3) y(2) by (simp_all add: t1_def)
      from Cons.IH [OF this z(2)] show thesis using that by blast
    qed
    have "raise_subtree_last a lst t = Some (t\<lparr>it_subtree := v\<rparr>)"
      using n y(1) False v(1) by (simp add: raise_subtree_last.simps [of a] it_write_def t1_def)
    moreover have "?ok v (Some (max_opt lst x)) (f # k)"
      by (rule up) (use v z m in \<open>auto simp: t1_def\<close>)
    moreover have "\<forall>b. b \<notin> zset (f # k) \<longrightarrow> v b = it_subtree t b" using v(3) z(4,5) by (auto simp: t1_def)
    ultimately show ?thesis using n(3) by blast
  qed
  show ?case
  proof (cases f)
    case (FL c a r)
    define y where "y = it_comb itlast a x (aug_of (it_comb itlast) r)"
    have dj: "a \<notin> zset k" "a \<notin> set_rbt r" "set_rbt r \<inter> zset k = {}" using Cons.prems(3) FL by auto
    have p: "valid_ptr a" "zip_at (rb_mem t) rt a k" "rb_mem t a = Some \<lparr>rb_parent_color = zpar k OR colbit c, rb_right = rootp r, rb_left = q\<rparr>"
      "it_good itlast a" "it_subtree t a = Some y" "aug_ok (it_comb itlast) (it_good itlast) (it_subtree t) r"
      "?ok (it_subtree t) (Some y) k"
      using Cons.prems(1,2) FL by (auto simp: y_def)
    show ?thesis
    proof (rule * [OF p(3)])
      show "rb_parent \<lparr>rb_parent_color = zpar k OR colbit c, rb_right = rootp r, rb_left = q\<rparr> = zpar k"
        using zpar_valid [OF p(2)] by simp
      show "?ok (it_subtree t) (Some (max_opt lst x)) (f # k)" if "lst \<le> y"
        using that p FL by (simp add: y_def it_comb_raised)
      show "?ok v (Some (max_opt lst x)) (f # k)"
        if v: "v a = Some (max_opt lst (Some y))" "?ok v (Some (max_opt lst (Some y))) k"
          "\<And>b. b \<notin> insert a (zset k) \<Longrightarrow> v b = it_subtree t b" for v
      proof -
        have "v b = it_subtree t b" if "b \<in> set_rbt r" for b using v(3) [of b] that dj by blast
        then have "aug_ok (it_comb itlast) (it_good itlast) v r" using p(6) aug_ok_cong [of r v "it_subtree t"] by blast
        then show ?thesis using v p FL by (simp add: y_def it_comb_insert)
      qed
    qed (use p dj FL Cons.prems(3) in \<open>auto simp: valid_ptr_def\<close>)
  next
    case (FR c l a)
    define y where "y = it_comb itlast a (aug_of (it_comb itlast) l) x"
    have dj: "a \<notin> zset k" "a \<notin> set_rbt l" "set_rbt l \<inter> zset k = {}" using Cons.prems(3) FR by auto
    have p: "valid_ptr a" "zip_at (rb_mem t) rt a k" "rb_mem t a = Some \<lparr>rb_parent_color = zpar k OR colbit c, rb_right = q, rb_left = rootp l\<rparr>"
      "it_good itlast a" "it_subtree t a = Some y" "aug_ok (it_comb itlast) (it_good itlast) (it_subtree t) l"
      "?ok (it_subtree t) (Some y) k"
      using Cons.prems(1,2) FR by (auto simp: y_def)
    show ?thesis
    proof (rule * [OF p(3)])
      show "rb_parent \<lparr>rb_parent_color = zpar k OR colbit c, rb_right = q, rb_left = rootp l\<rparr> = zpar k"
        using zpar_valid [OF p(2)] by simp
      show "?ok (it_subtree t) (Some (max_opt lst x)) (f # k)" if "lst \<le> y"
        using that p FR by (simp add: y_def it_comb_raised)
      show "?ok v (Some (max_opt lst x)) (f # k)"
        if v: "v a = Some (max_opt lst (Some y))" "?ok v (Some (max_opt lst (Some y))) k"
          "\<And>b. b \<notin> insert a (zset k) \<Longrightarrow> v b = it_subtree t b" for v
      proof -
        have "v b = it_subtree t b" if "b \<in> set_rbt l" for b using v(3) [of b] that dj by blast
        then have "aug_ok (it_comb itlast) (it_good itlast) v l" using p(6) aug_ok_cong [of l v "it_subtree t"] by blast
        then show ?thesis using v p FR by (simp add: y_def it_comb_insert)
      qed
    qed (use p dj FR Cons.prems(3) in \<open>auto simp: valid_ptr_def\<close>)
  qed
qed


text \<open>The whole insertion below the node before the hole, or from the root when there is none.\<close>

definition itree_add_after ::
  "(addr \<Rightarrow> u64 option) \<Rightarrow> (addr \<Rightarrow> u64 option) \<Rightarrow> bool \<Rightarrow> addr \<Rightarrow> addr \<Rightarrow> u64 \<Rightarrow> u64 \<Rightarrow> itree \<Rightarrow> itree option" where
  "itree_add_after itstart itlast below hole node start lst t = do {
     t \<leftarrow> it_write node lst t;
     (link, rb, leftmost, t) \<leftarrow>
       (if below then do {
          t \<leftarrow> raise_subtree_last hole lst t;
          rb_descend (it_visit itstart start lst) (Link_right hole) hole False t
        } else rb_descend (it_visit itstart start lst) Link_root NULL True t);
     t \<leftarrow> rb_link_node node rb link t;
     rb_insert_augmented_cached node leftmost (it_augment itlast) t
   }"

lemma itree_add_after_descend:
  assumes t: "it_tree itlast t T" "inorder T = us @ vs" and starts: "\<forall>a\<in>set (us @ vs). itstart a \<noteq> None"
    and right: "\<forall>a\<in>set vs. start < the (itstart a)"
    and hole: "below \<Longrightarrow> us \<noteq> [] \<and> last us = hole" "\<not> below \<Longrightarrow> us = []"
  shows "\<exists>k v. (if below then do {
          t \<leftarrow> raise_subtree_last hole lst t;
          rb_descend (it_visit itstart start lst) (Link_right hole) hole False t
        } else rb_descend (it_visit itstart start lst) Link_root NULL True t) =
      Some (zlink k, zpar k, zleft k = [], t\<lparr>it_subtree := v\<rparr>) \<and>
    zip_rep (t\<lparr>it_subtree := v\<rparr>) Leaf k \<and> zaug_ok (it_comb itlast) (it_good itlast) v (Some lst) k \<and>
    plug Leaf k = T \<and> (\<forall>a. a \<notin> set_rbt T \<longrightarrow> v a = it_subtree t a) \<and> zleft k = us \<and> zright k = vs"
proof -
  let ?I = "\<lambda>t0 t k s. zip_rep s t k \<and> aug_ok (it_comb itlast) (it_good itlast) (it_subtree s) t \<and>
     zaug_ok (it_comb itlast) (it_good itlast) (it_subtree s) (Some (max_opt lst (aug_of (it_comb itlast) t))) k \<and>
     (\<forall>a\<in>set_rbt T. itstart a \<noteq> None) \<and> plug t k = T \<and>
     (\<exists>v. s = t0\<lparr>it_subtree := v\<rparr> \<and> (\<forall>a. a \<notin> set_rbt T \<longrightarrow> v a = it_subtree t0 a))"
  have rep: "rb_rep t T" and ok: "aug_ok (it_comb itlast) (it_good itlast) (it_subtree t) T"
    using t by (auto simp: it_tree_def cached_rep_def)
  have d: "distinct (inorder T)" using rep by (simp add: rb_rep_def)
  have go: "\<exists>k s'. rb_descend (it_visit itstart start lst) (zlink k0) (zpar k0) f s = Some (zlink k, zpar k, f, s') \<and>
      ?I t Leaf k s' \<and> zleft k = zleft k0 \<and> zright k = inorder r @ zright k0"
    if "?I t r k0 s" "\<forall>a\<in>set_rbt r. start < the (itstart a)" for r k0 s f
  proof -
    have "inorder r = [] @ inorder r" "\<forall>a\<in>set []. \<not> start < the (itstart a)" by simp_all
    from it_search.descend [where f = f, OF that(1) this that(2)] show ?thesis by simp
  qed
  show ?thesis
  proof (cases below)
    case False
    have "?I t T [] t" using rep ok starts t(2) by (simp add: rb_rep_plug [symmetric] exI [of _ "it_subtree t"])
    from go [OF this, of True] obtain k s' where
      k: "rb_descend (it_visit itstart start lst) Link_root NULL True t = Some (zlink k, zpar k, True, s')"
      "?I t Leaf k s'" "zleft k = []" "zright k = inorder T"
      using right hole(2) [OF False] t(2) by auto
    then obtain v where "s' = t\<lparr>it_subtree := v\<rparr>" "\<forall>a. a \<notin> set_rbt T \<longrightarrow> v a = it_subtree t a" by blast
    then show ?thesis using k False hole(2) t(2) by (intro exI [of _ k] exI [of _ v]) (auto simp: max_opt_def)
  next
    case True
    then obtain us' where us: "us = us' @ [hole]" using hole(1) by (metis append_butlast_last_id)
    obtain c l r k0 where p: "T = plug (Node c l hole r) k0" "zleft k0 @ inorder l = us'" "inorder r @ zright k0 = vs"
      using inorder_position [OF d, of us' hole vs] t(2) us by auto
    have zr: "zip_rep t r (FR c l hole # k0)" "T = plug r (FR c l hole # k0)" using rep p(1) by (simp_all add: rb_rep_plug [symmetric])
    have okr: "aug_ok (it_comb itlast) (it_good itlast) (it_subtree t) r"
      "zaug_ok (it_comb itlast) (it_good itlast) (it_subtree t) (aug_of (it_comb itlast) r) (FR c l hole # k0)"
      using ok unfolding zr(2) aug_ok_plug by auto
    have za: "zip_at (rb_mem t) (rb_root t) (rootp r) (FR c l hole # k0)" using zr(1) by (simp add: zip_rep_def)
    have dz: "distinct (zleft (FR c l hole # k0) @ zright (FR c l hole # k0))" "set_rbt r \<inter> zset (FR c l hole # k0) = {}"
      using d unfolding zr(2) inorder_plug by auto
    obtain v where v: "raise_subtree_last hole lst t = Some (t\<lparr>it_subtree := v\<rparr>)"
      "zaug_ok (it_comb itlast) (it_good itlast) v (Some (max_opt lst (aug_of (it_comb itlast) r))) (FR c l hole # k0)"
      "\<forall>a. a \<notin> zset (FR c l hole # k0) \<longrightarrow> v a = it_subtree t a"
      using raise_subtree_last_law [OF za okr(2) dz(1), of lst] by auto
    have st: "set_rbt T = set_rbt r \<union> zset (FR c l hole # k0)" unfolding zr(2) by (auto simp: inorder_plug)
    have "v b = it_subtree t b" if "b \<in> set_rbt r" for b using v(3) that dz(2) by blast
    then have "aug_ok (it_comb itlast) (it_good itlast) v r" using okr(1) aug_ok_cong [of r v "it_subtree t"] by blast
    moreover have "\<forall>a. a \<notin> set_rbt T \<longrightarrow> v a = it_subtree t a" using v(3) st by auto
    moreover have "zip_rep (t\<lparr>it_subtree := v\<rparr>) r (FR c l hole # k0)" using zr(1) by (simp add: zip_rep_def)
    ultimately have I: "?I t r (FR c l hole # k0) (t\<lparr>it_subtree := v\<rparr>)"
      using v(2) zr(2) starts t(2) by auto
    have "\<forall>a\<in>set_rbt r. start < the (itstart a)" using right p(3) by auto
    from go [OF I this, of False] obtain k s' where
      k: "rb_descend (it_visit itstart start lst) (Link_right hole) hole False (t\<lparr>it_subtree := v\<rparr>) = Some (zlink k, zpar k, False, s')"
      "?I t Leaf k s'" "zleft k = zleft (FR c l hole # k0)" "zright k = inorder r @ zright (FR c l hole # k0)"
      by auto
    then obtain v' where "s' = t\<lparr>it_subtree := v'\<rparr>" "\<forall>a. a \<notin> set_rbt T \<longrightarrow> v' a = it_subtree t a" by blast
    then show ?thesis using k True v(1) us p(2,3) by (intro exI [of _ k] exI [of _ v']) (auto simp: max_opt_def)
  qed
qed

lemma itree_add_after_spec:
  assumes seq: "it_seq itlast t (us @ vs)" and starts: "\<forall>a\<in>set (us @ vs). itstart a \<noteq> None"
    and right: "\<forall>a\<in>set vs. start < the (itstart a)"
    and hole: "below \<Longrightarrow> us \<noteq> [] \<and> last us = hole" "\<not> below \<Longrightarrow> us = []"
    and x: "rb_mem t x \<noteq> None" "it_subtree t x \<noteq> None" "x \<notin> set (us @ vs)" "valid_ptr x" "itlast x = Some lst"
  shows "\<exists>t'. itree_add_after itstart itlast below hole x start lst t = Some t' \<and>
    it_seq itlast t' (us @ x # vs) \<and> it_frame (insert x (set us \<union> set vs)) t t'"
proof -
  obtain T where T: "it_tree itlast t T" "inorder T = us @ vs" using seq by (auto simp: it_seq_def)
  define t1 where "t1 = t\<lparr>it_subtree := (it_subtree t)(x \<mapsto> lst)\<rparr>"
  have w: "it_write x lst t = Some t1" using x(2) by (auto simp: it_write_def t1_def)
  have T1: "it_tree itlast t1 T"
    using T x(3) by (simp add: it_tree_def cached_rep_def rb_rep_def t1_def)
  obtain k v where k: "(if below then do {
          t \<leftarrow> raise_subtree_last hole lst t1;
          rb_descend (it_visit itstart start lst) (Link_right hole) hole False t
        } else rb_descend (it_visit itstart start lst) Link_root NULL True t1) =
      Some (zlink k, zpar k, zleft k = [], t1\<lparr>it_subtree := v\<rparr>)"
    "zip_rep (t1\<lparr>it_subtree := v\<rparr>) Leaf k" "zaug_ok (it_comb itlast) (it_good itlast) v (Some lst) k"
    "plug Leaf k = T" "\<forall>a. a \<notin> set_rbt T \<longrightarrow> v a = it_subtree t1 a" "zleft k = us" "zright k = vs"
    using itree_add_after_descend [OF T1 T(2) starts right hole] by blast
  define t2 where "t2 = t1\<lparr>it_subtree := v\<rparr>"
  obtain t' where t': "do { s \<leftarrow> rb_link_node x (zpar k) (zlink k) t2;
      rb_insert_augmented_cached x (zleft k = []) (it_augment itlast) s } = Some t'"
    "it_seq itlast t' (zleft k @ x # zright k)" "it_frame (insert x (zset k)) t2 t'"
  proof -
    have "zip_rep t2 Leaf k" "rb_leftmost t2 = first_of (zleft k @ zright k)" "is_rbt (plug Leaf k)"
      "zaug_ok (it_comb itlast) (it_good itlast) (it_subtree t2) (Some lst) k"
      "rb_mem t2 x \<noteq> None" "x \<notin> zset k" "it_subtree t2 x = Some lst"
      using k T x by (auto simp: t2_def t1_def it_tree_def cached_rep_def)
    from it_finish_insert [OF this(1-6) x(4,5) this(7)] show thesis using that by blast
  qed
  have "it_frame (insert x (set us \<union> set vs)) t t'"
    using t'(3) k(5-7) T(2) by (auto simp: it_frame_def t2_def t1_def)
  then show ?thesis
    using t'(1,2) w k(1,6,7) by (simp add: itree_add_after_def t2_def)
qed

end
