(* ===== verification/Rbtree_Sorted.thy ===== *)
theory Rbtree_Sorted
  imports Rbtree_Search
begin

text \<open>
  Trees that a client keeps sorted by a key it reads elsewhere: the search for the place, the
  insertion, and (for trees without the leftmost pointer) the view of a tree as a sequence.
\<close>

section \<open>Trees without a leftmost pointer as sequences\<close>

definition plain_seq :: "'m rb_tree_scheme \<Rightarrow> addr list \<Rightarrow> bool" where
  "plain_seq s xs \<longleftrightarrow> (\<exists>t. rb_rep s t \<and> is_rbt t \<and> inorder t = xs)"

lemma plain_seq_empty: "rb_root s = NULL \<Longrightarrow> plain_seq s []"
  unfolding plain_seq_def by (rule exI [of _ Leaf]) (simp add: rb_rep_def is_rbt_def)

lemma plain_seq_valid: "plain_seq s xs \<Longrightarrow> x \<in> set xs \<Longrightarrow> valid_ptr x \<and> rb_mem s x \<noteq> None"
  using tree_at_valid tree_at_in_dom by (fastforce simp: plain_seq_def rb_rep_def)

lemma plain_seq_distinct: "plain_seq s xs \<Longrightarrow> distinct xs"
  by (auto simp: plain_seq_def rb_rep_def)

lemma plain_seq_next: "plain_seq s (us @ x # vs) \<Longrightarrow> rb_next x s = Some (first_of vs)"
  by (auto simp: plain_seq_def intro: rb_next_spec)

lemma plain_seq_prev: "plain_seq s (us @ x # vs) \<Longrightarrow> rb_prev x s = Some (last_of us)"
  by (auto simp: plain_seq_def intro: rb_prev_spec)

lemma plain_seq_cong:
  assumes "plain_seq s xs" and "\<And>a. a \<in> set xs \<Longrightarrow> rb_mem s' a = rb_mem s a" and "rb_root s' = rb_root s"
  shows "plain_seq s' xs"
proof -
  obtain t where t: "rb_rep s t" "is_rbt t" "inorder t = xs"
    using assms(1) by (auto simp: plain_seq_def)
  have "tree_at (rb_mem s') NULL t = tree_at (rb_mem s) NULL t"
    by (rule tree_at_cong) (use assms(2) t(3) in simp)
  then have "rb_rep s' t" using t(1) assms(3) by (simp add: rb_rep_def)
  then show ?thesis unfolding plain_seq_def using t by auto
qed

lemma rb_erase_seq:
  assumes "plain_seq s (us @ x # vs)"
  shows "\<exists>s'. rb_erase x s = Some s' \<and> plain_seq s' (us @ vs) \<and> rb_tree.more s' = rb_tree.more s \<and>
    (\<forall>a. a \<notin> set us \<union> set vs \<longrightarrow> rb_mem s' a = rb_mem s a)"
proof -
  obtain t where t: "rb_rep s t" "is_rbt t" "inorder t = us @ x # vs" using assms by (auto simp: plain_seq_def)
  have d: "distinct (inorder t)" using t by (simp add: rb_rep_def)
  obtain c l r k where p: "t = plug (Node c l x r) k" "zleft k @ inorder l = us" "inorder r @ zright k = vs"
    using inorder_position [OF d t(3)] by blast
  have i: "inorder (del_at c l r k) = us @ vs" using p by (auto simp: inorder_del_at)
  obtain s' where s': "rb_erase x s = Some s'" "rb_rep s' (del_at c l r k)" "rb_tree.more s' = rb_tree.more s"
    "\<forall>a. a \<notin> set_rbt (del_at c l r k) \<longrightarrow> rb_mem s' a = rb_mem s a"
    using rb_erase_spec [of s c l x r k] t p by blast
  have "plain_seq s' (us @ vs)"
    unfolding plain_seq_def using s'(2) i is_rbt_del_at [of c l x r k] t(2) p(1) by blast
  then show ?thesis using s' i by auto
qed

lemma is_rbt_rename: "is_rbt (plug (Node c l x r) k) \<Longrightarrow> is_rbt (plug (Node c l y r) k)"
  using is_rbt_plugD [of "Node c l x r" k]
  by (auto simp: is_rbt_def intro!: is_rbt_plug [unfolded is_rbt_def, THEN conjunct1] is_rbt_plug [unfolded is_rbt_def, THEN conjunct2])

lemma rb_replace_node_seq:
  assumes "plain_seq s (us @ x # vs)" and y: "rb_mem s y \<noteq> None" "y \<notin> set (us @ x # vs)" "valid_ptr y"
  shows "\<exists>s'. rb_replace_node x y s = Some s' \<and> plain_seq s' (us @ y # vs) \<and> rb_tree.more s' = rb_tree.more s \<and>
    (\<forall>a. a \<notin> insert y (set us \<union> insert x (set vs)) \<longrightarrow> rb_mem s' a = rb_mem s a)"
proof -
  obtain t where t: "rb_rep s t" "is_rbt t" "inorder t = us @ x # vs" using assms by (auto simp: plain_seq_def)
  have d: "distinct (inorder t)" using t by (simp add: rb_rep_def)
  obtain c l r k where p: "t = plug (Node c l x r) k" "zleft k @ inorder l = us" "inorder r @ zright k = vs"
    using inorder_position [OF d t(3)] by blast
  have st: "set_rbt (plug (Node c l x r) k) = set us \<union> insert x (set vs)" using t(3) p(1) by simp
  obtain m where m: "rb_replace_node x y s = Some (s\<lparr>rb_mem := m, rb_root := zip_root y k (rb_root s)\<rparr>)"
    "rb_rep (s\<lparr>rb_mem := m, rb_root := zip_root y k (rb_root s)\<rparr>) (plug (Node c l y r) k)"
    "\<forall>a. a \<notin> insert y (set_rbt (plug (Node c l x r) k)) \<longrightarrow> m a = rb_mem s a"
  proof -
    have "zip_rep s (Node c l x r) k" "y \<notin> set_rbt (plug (Node c l x r) k)"
      using t(1) p(1) y(2) st by (auto simp: rb_rep_plug)
    from rb_replace_node_zip [OF this(1) y(1) this(2) y(3)] show ?thesis using that by blast
  qed
  have "is_rbt (plug (Node c l y r) k)" using is_rbt_rename t(2) p(1) by blast
  moreover have "inorder (plug (Node c l y r) k) = us @ y # vs" using p by (auto simp: inorder_plug)
  ultimately have "plain_seq (s\<lparr>rb_mem := m, rb_root := zip_root y k (rb_root s)\<rparr>) (us @ y # vs)"
    using m(2) unfolding plain_seq_def by blast
  then show ?thesis using m(1,3) st by auto
qed

section \<open>Insertion at the place that the search finds\<close>

lemma rb_insert_color_spec:
  assumes rep: "rb_rep s (plug Leaf k)" and rbt: "is_rbt (plug Leaf k)"
    and x: "rb_mem s x \<noteq> None" "x \<notin> zset k" "valid_ptr x"
  shows "\<exists>s'. do { s \<leftarrow> rb_link_node x (zpar k) (zlink k) s; rb_insert_color x s } = Some s' \<and>
    plain_seq s' (zleft k @ x # zright k) \<and> rb_tree.more s' = rb_tree.more s \<and>
    (\<forall>a. a \<notin> insert x (zset k) \<longrightarrow> rb_mem s' a = rb_mem s a)"
proof -
  obtain n where n: "rb_mem s x = Some n" using x(1) by blast
  obtain m where link: "rb_link_node x (zpar k) (zlink k) s = Some (s\<lparr>rb_mem := m, rb_root := zip_root x k (rb_root s)\<rparr>)"
    and rep1: "rb_rep (s\<lparr>rb_mem := m, rb_root := zip_root x k (rb_root s)\<rparr>) (plug (Node Red Leaf x Leaf) k)"
    and m: "\<forall>a. a \<notin> insert x (zset k) \<longrightarrow> m a = rb_mem s a"
    using rb_link_node_spec [OF rep n x(2,3)] by blast
  define s1 where "s1 = s\<lparr>rb_mem := m, rb_root := zip_root x k (rb_root s)\<rparr>"
  obtain s' where s': "raw_rb_insert x dummy_rotate s1 = Some s'" "rb_rep s' (ins_at x k)" "rb_tree.more s' = rb_tree.more s1"
    "\<forall>a. a \<notin> set_rbt (plug (Node Red Leaf x Leaf) k) \<longrightarrow> rb_mem s' a = rb_mem s1 a"
    using dummy.raw_rb_insert_spec [OF rep1 rbt dummy_ok] by (auto simp: dummy.repaired_def s1_def)
  have "plain_seq s' (zleft k @ x # zright k)"
    unfolding plain_seq_def using s'(2) is_rbt_ins_at [OF rbt] inorder_ins_at by blast
  moreover have "\<forall>a. a \<notin> insert x (zset k) \<longrightarrow> rb_mem s' a = rb_mem s a"
    using s'(4) m by (auto simp: inorder_plug s1_def)
  ultimately show ?thesis using s' link by (simp add: rb_insert_color_def s1_def)
qed

lemma key_descend:
  assumes "rb_rep s t" and "inorder t = us @ vs" and "\<forall>a\<in>set (us @ vs). key a \<noteq> None"
    and "\<forall>a\<in>set us. \<not> goleft (the (key a))" and "\<forall>a\<in>set vs. goleft (the (key a))"
  shows "\<exists>k. rb_descend (key_visit key goleft) Link_root NULL True s = Some (zlink k, zpar k, us = [], s) \<and>
    plug Leaf k = t \<and> zleft k = us \<and> zright k = vs"
proof -
  have I: "s = s \<and> zip_rep s t [] \<and> plug t [] = t \<and> (\<forall>a\<in>set_rbt t. key a \<noteq> None)"
    using assms(1-3) rb_rep_plug [of s t "[]"] by simp
  show ?thesis
    using key_search.descend [where t = t and k = "[]" and s = s and us = us and vs = vs and f = True, OF I assms(2) assms(4,5)]
    by auto
qed

lemma rb_key_insert_cached:
  assumes seq: "rb_seq s (us @ vs)" and "\<forall>a\<in>set (us @ vs). key a \<noteq> None"
    and "\<forall>a\<in>set us. \<not> goleft (the (key a))" and "\<forall>a\<in>set vs. goleft (the (key a))"
    and x: "rb_mem s x \<noteq> None" "x \<notin> set (us @ vs)" "valid_ptr x"
  shows "\<exists>s'. do { (link, rb, first, s) \<leftarrow> rb_descend (key_visit key goleft) Link_root NULL True s;
      s \<leftarrow> rb_link_node x rb link s; rb_insert_color_cached x first s } = Some s' \<and>
    rb_seq s' (us @ x # vs) \<and> rb_root_cached.more s' = rb_root_cached.more s \<and>
    (\<forall>a. a \<notin> insert x (set us \<union> set vs) \<longrightarrow> rb_mem s' a = rb_mem s a)"
proof -
  obtain t where t: "cached_rep s t" "is_rbt t" "inorder t = us @ vs" using seq by (auto simp: rb_seq_def)
  then obtain k where k: "rb_descend (key_visit key goleft) Link_root NULL True s = Some (zlink k, zpar k, us = [], s)"
    "plug Leaf k = t" "zleft k = us" "zright k = vs"
    using key_descend [of s t us vs key goleft] assms(2-4) by (auto simp: cached_rep_def)
  obtain n where n: "rb_mem s x = Some n" using x(1) by blast
  have "rb_hole s k" using t k(2) by (simp add: rb_hole_def)
  moreover have "x \<notin> zset k" using x(2) k(3,4) by simp
  ultimately show ?thesis using rb_insert_color_cached_seq [of s k x n] n x(3) k by simp
qed

lemma rb_key_insert:
  assumes seq: "plain_seq s (us @ vs)" and "\<forall>a\<in>set (us @ vs). key a \<noteq> None"
    and "\<forall>a\<in>set us. \<not> goleft (the (key a))" and "\<forall>a\<in>set vs. goleft (the (key a))"
    and x: "rb_mem s x \<noteq> None" "x \<notin> set (us @ vs)" "valid_ptr x"
  shows "\<exists>s'. do { (link, rb, first, s) \<leftarrow> rb_descend (key_visit key goleft) Link_root NULL True s;
      s \<leftarrow> rb_link_node x rb link s; rb_insert_color x s } = Some s' \<and>
    plain_seq s' (us @ x # vs) \<and> rb_tree.more s' = rb_tree.more s \<and>
    (\<forall>a. a \<notin> insert x (set us \<union> set vs) \<longrightarrow> rb_mem s' a = rb_mem s a)"
proof -
  obtain t where t: "rb_rep s t" "is_rbt t" "inorder t = us @ vs" using seq by (auto simp: plain_seq_def)
  then obtain k where k: "rb_descend (key_visit key goleft) Link_root NULL True s = Some (zlink k, zpar k, us = [], s)"
    "plug Leaf k = t" "zleft k = us" "zright k = vs"
    using key_descend [of s t us vs key goleft] assms(2-4) by auto
  have "x \<notin> zset k" using x(2) k(3,4) by simp
  then show ?thesis using rb_insert_color_spec [of s k x] t k x by simp
qed

end
