(* ===== verification/Drm_Mm_Holes.thy ===== *)
theory Drm_Mm_Holes
  imports Drm_Mm_Interval Rbtree_Sorted
begin

text \<open>
  The three structures that hold the holes: the stack \<open>hole_stack\<close>, the tree \<open>holes_size\<close> with
  the largest hole first, and the tree \<open>holes_addr\<close> in the order of the addresses. What
  \<open>add_hole\<close> and \<open>rm_hole\<close> do to them, and what the searches find in them.
\<close>

section \<open>The fields of a node\<close>

definition n_start :: "drm_mm_node store \<Rightarrow> addr \<Rightarrow> u64" where
  "n_start m a = nd_start (the (m a))"

definition n_size :: "drm_mm_node store \<Rightarrow> addr \<Rightarrow> u64" where
  "n_size m a = nd_size (the (m a))"

definition n_end :: "drm_mm_node store \<Rightarrow> addr \<Rightarrow> u64" where
  "n_end m a = nd_start (the (m a)) + nd_size (the (m a))"

definition n_hole :: "drm_mm_node store \<Rightarrow> addr \<Rightarrow> u64" where
  "n_hole m a = nd_hole_size (the (m a))"

text \<open>A node of which every embedded member is there.\<close>

definition live :: "drm_mm \<Rightarrow> addr \<Rightarrow> bool" where
  "live s a \<longleftrightarrow> mm_nodes s a \<noteq> None \<and> a \<in> dom (mm_node_list s) \<and> a \<in> dom (mm_hole_list s) \<and>
     rb_mem (mm_interval_tree s) a \<noteq> None \<and> it_subtree (mm_interval_tree s) a \<noteq> None \<and>
     rb_mem (mm_holes_size s) a \<noteq> None \<and> rb_mem (mm_holes_addr s) a \<noteq> None \<and>
     valid_ptr a \<and> a \<noteq> mm_hole_stack s"

lemma node_reads:
  assumes "mm_nodes s a \<noteq> None"
  shows "raw_hole_node_start a s = Some (n_end (mm_nodes s) a)" "rb_to_hole_size a s = Some (n_hole (mm_nodes s) a)"
    "drm_mm_hole_follows a s = Some (n_hole (mm_nodes s) a \<noteq> 0)" "START s a = Some (n_start (mm_nodes s) a)"
    "LAST s a = Some (n_end (mm_nodes s) a - 1)"
  using assms
  by (auto simp: raw_hole_node_start_def rb_to_hole_size_def drm_mm_hole_follows_def START_def LAST_def
      n_start_def n_end_def n_hole_def)

lemma on_eqs:
  "on_node_list f s = map_option (\<lambda>h. s\<lparr>mm_node_list := h\<rparr>) (f (mm_node_list s))"
  "on_hole_list f s = map_option (\<lambda>h. s\<lparr>mm_hole_list := h\<rparr>) (f (mm_hole_list s))"
  "on_interval_tree g s = map_option (\<lambda>t. s\<lparr>mm_interval_tree := t\<rparr>) (g (mm_interval_tree s))"
  "on_holes_size u s = map_option (\<lambda>t. s\<lparr>mm_holes_size := t\<rparr>) (u (mm_holes_size s))"
  "on_holes_addr v s = map_option (\<lambda>t. s\<lparr>mm_holes_addr := t\<rparr>) (v (mm_holes_addr s))"
  by (simp_all add: on_node_list_def on_hole_list_def on_interval_tree_def on_holes_size_def on_holes_addr_def
      map_conv_bind_option comp_def)

section \<open>What the structures hold\<close>

text \<open>\<open>hs\<close> is the stack, \<open>ss\<close> the tree by size and \<open>xs\<close> the tree by address.\<close>

definition holes_rep :: "drm_mm \<Rightarrow> addr list \<Rightarrow> addr list \<Rightarrow> addr list \<Rightarrow> bool" where
  "holes_rep s hs ss xs \<longleftrightarrow> is_list (mm_hole_list s) (mm_hole_stack s) hs \<and> set hs = set xs \<and>
     rb_seq (mm_holes_size s) ss \<and> set ss = set xs \<and>
     sorted_wrt (\<lambda>a b. n_hole (mm_nodes s) a \<ge> n_hole (mm_nodes s) b) ss \<and>
     plain_seq (mm_holes_addr s) xs \<and> (\<forall>a\<in>set xs. live s a)"

text \<open>What the operations on holes change of the rest: one \<open>hole_size\<close>.\<close>

definition hole_frame :: "addr \<Rightarrow> u64 \<Rightarrow> drm_mm \<Rightarrow> drm_mm \<Rightarrow> bool" where
  "hole_frame a h s s' \<longleftrightarrow> mm_nodes s' = (mm_nodes s)(a \<mapsto> (the (mm_nodes s a))\<lparr>nd_hole_size := h\<rparr>) \<and>
     mm_self s' = mm_self s \<and> mm_color_adjust s' = mm_color_adjust s \<and> mm_hole_stack s' = mm_hole_stack s \<and>
     mm_head_node s' = mm_head_node s \<and> mm_node_list s' = mm_node_list s \<and>
     mm_interval_tree s' = mm_interval_tree s \<and> mm_scan_active s' = mm_scan_active s \<and>
     (\<forall>b. live s' b = live s b)"

lemma n_upd_hole [simp]:
  "n_start (m(a \<mapsto> (the (m a))\<lparr>nd_hole_size := h\<rparr>)) b = n_start m b"
  "n_size (m(a \<mapsto> (the (m a))\<lparr>nd_hole_size := h\<rparr>)) b = n_size m b"
  "n_end (m(a \<mapsto> (the (m a))\<lparr>nd_hole_size := h\<rparr>)) b = n_end m b"
  "n_hole (m(a \<mapsto> (the (m a))\<lparr>nd_hole_size := h\<rparr>)) b = (if b = a then h else n_hole m b)"
  by (auto simp: n_start_def n_size_def n_end_def n_hole_def)

lemma hole_frame_n:
  assumes "hole_frame a h s s'"
  shows "n_start (mm_nodes s') b = n_start (mm_nodes s) b" "n_size (mm_nodes s') b = n_size (mm_nodes s) b"
    "n_end (mm_nodes s') b = n_end (mm_nodes s) b" "n_hole (mm_nodes s') b = (if b = a then h else n_hole (mm_nodes s) b)"
  using assms by (simp_all add: hole_frame_def)

lemma filter_split_desc:
  fixes key :: "addr \<Rightarrow> u64"
  assumes "sorted_wrt (\<lambda>a b. key a \<ge> key b) xs"
  shows "xs = filter (\<lambda>a. \<not> x > key a) xs @ filter (\<lambda>a. x > key a) xs"
  using assms
proof (induction xs)
  case (Cons a xs)
  show ?case
  proof (cases "x > key a")
    case True
    then have "\<forall>b\<in>set xs. x > key b" using Cons.prems by auto
    then show ?thesis using True by (simp add: filter_empty_conv)
  next
    case False
    then show ?thesis using Cons by simp
  qed
qed simp

lemma list_add_front:
  assumes "is_list h head xs" and "new \<in> dom h" "new \<notin> set (head # xs)"
  shows "\<exists>h'. list_add new head h = Some h' \<and> is_list h' head (new # xs) \<and> dom h' = dom h"
  using list_add_spec [of h head "[]" xs new] assms by auto

lemma insert_hole_size_spec:
  assumes ss: "rb_seq (mm_holes_size s) ss" "sorted_wrt (\<lambda>a b. n_hole (mm_nodes s) a \<ge> n_hole (mm_nodes s) b) ss"
    and m: "\<forall>a\<in>set ss. mm_nodes s a \<noteq> None" and a: "live s a" "a \<notin> set ss"
  shows "\<exists>t ss'. insert_hole_size a s = Some (s\<lparr>mm_holes_size := t\<rparr>) \<and> rb_seq t ss' \<and>
    set ss' = insert a (set ss) \<and> sorted_wrt (\<lambda>a b. n_hole (mm_nodes s) a \<ge> n_hole (mm_nodes s) b) ss' \<and>
    (\<forall>b. (rb_mem t b = None) = (rb_mem (mm_holes_size s) b = None))"
proof -
  let ?key = "\<lambda>a. rb_to_hole_size a s" and ?h = "n_hole (mm_nodes s)"
  define us where "us = filter (\<lambda>b. \<not> ?h a > ?h b) ss"
  define vs where "vs = filter (\<lambda>b. ?h a > ?h b) ss"
  have e: "ss = us @ vs" unfolding us_def vs_def by (rule filter_split_desc [OF ss(2)])
  have key: "?key b = Some (?h b)" if "b \<in> insert a (set ss)" for b
    using that m a(1) by (intro node_reads) (auto simp: live_def)
  have x: "rb_mem (mm_holes_size s) a \<noteq> None" "a \<notin> set (us @ vs)" "valid_ptr a"
    using a e by (auto simp: live_def)
  have k: "\<forall>b\<in>set (us @ vs). ?key b \<noteq> None" "\<forall>b\<in>set us. \<not> ?h a > the (?key b)" "\<forall>b\<in>set vs. ?h a > the (?key b)"
    using key by (auto simp: us_def vs_def)
  obtain t where t: "do { (link, rb, first, t) \<leftarrow> rb_descend (key_visit ?key (\<lambda>v. ?h a > v)) Link_root NULL True (mm_holes_size s);
      t \<leftarrow> rb_link_node a rb link t; rb_insert_color_cached a first t } = Some t" "rb_seq t (us @ a # vs)"
    "\<forall>b. b \<notin> insert a (set us \<union> set vs) \<longrightarrow> rb_mem t b = rb_mem (mm_holes_size s) b"
    using rb_key_insert_cached [where goleft = "\<lambda>v. ?h a > v", OF ss(1) [unfolded e] k x] by blast
  have "sorted_wrt (\<lambda>a b. ?h a \<ge> ?h b) (us @ vs)" using ss(2) e by simp
  moreover have "\<forall>b\<in>set us. ?h b \<ge> ?h a" "\<forall>b\<in>set vs. ?h a \<ge> ?h b" by (auto simp: us_def vs_def)
  ultimately have "sorted_wrt (\<lambda>a b. ?h a \<ge> ?h b) (us @ a # vs)" by (simp add: sorted_wrt_append)
  moreover have "(rb_mem t b = None) = (rb_mem (mm_holes_size s) b = None)" for b
  proof (cases "b \<in> set (us @ a # vs)")
    case True
    then have "rb_mem t b \<noteq> None" using rb_seq_valid [OF t(2)] by blast
    moreover have "rb_mem (mm_holes_size s) b \<noteq> None" using True x(1) rb_seq_valid [OF ss(1), of b] unfolding e by fastforce
    ultimately show ?thesis by blast
  next
    case False
    then show ?thesis using t(3) by auto
  qed
  moreover have "insert_hole_size a s = Some (s\<lparr>mm_holes_size := t\<rparr>)"
    using key [of a] t(1) by (simp add: insert_hole_size_def on_eqs)
  ultimately show ?thesis using t(2) e by (intro exI [of _ t] exI [of _ "us @ a # vs"]) auto
qed

lemma insert_hole_addr_spec:
  assumes seq: "plain_seq (mm_holes_addr s) (us @ vs)"
    and m: "\<forall>a\<in>set (us @ vs). mm_nodes s a \<noteq> None" and a: "live s a" "a \<notin> set (us @ vs)"
    and us: "\<forall>b\<in>set us. n_end (mm_nodes s) b \<le> n_end (mm_nodes s) a"
    and vs: "\<forall>b\<in>set vs. n_end (mm_nodes s) a < n_end (mm_nodes s) b"
  shows "\<exists>t. insert_hole_addr a s = Some (s\<lparr>mm_holes_addr := t\<rparr>) \<and> plain_seq t (us @ a # vs) \<and>
    (\<forall>b. (rb_mem t b = None) = (rb_mem (mm_holes_addr s) b = None))"
proof -
  let ?key = "\<lambda>a. raw_hole_node_start a s" and ?e = "n_end (mm_nodes s)"
  have key: "?key b = Some (?e b)" if "b \<in> insert a (set (us @ vs))" for b
    using that m a(1) by (intro node_reads) (auto simp: live_def)
  have x: "rb_mem (mm_holes_addr s) a \<noteq> None" "a \<notin> set (us @ vs)" "valid_ptr a"
    using a by (auto simp: live_def)
  have k: "\<forall>b\<in>set (us @ vs). ?key b \<noteq> None" "\<forall>b\<in>set us. \<not> ?e a < the (?key b)" "\<forall>b\<in>set vs. ?e a < the (?key b)"
    using key us vs by auto
  obtain t where t: "do { (link, rb, first, t) \<leftarrow> rb_descend (key_visit ?key (\<lambda>v. ?e a < v)) Link_root NULL True (mm_holes_addr s);
      t \<leftarrow> rb_link_node a rb link t; rb_insert_color a t } = Some t" "plain_seq t (us @ a # vs)"
    "\<forall>b. b \<notin> insert a (set us \<union> set vs) \<longrightarrow> rb_mem t b = rb_mem (mm_holes_addr s) b"
    using rb_key_insert [where goleft = "\<lambda>v. ?e a < v", OF seq k x] by blast
  have "(rb_mem t b = None) = (rb_mem (mm_holes_addr s) b = None)" for b
  proof (cases "b \<in> set (us @ a # vs)")
    case True
    then have "rb_mem t b \<noteq> None" using plain_seq_valid [OF t(2)] by blast
    moreover have "rb_mem (mm_holes_addr s) b \<noteq> None" using True x(1) plain_seq_valid [OF seq, of b] by fastforce
    ultimately show ?thesis by blast
  next
    case False
    then show ?thesis using t(3) by auto
  qed
  moreover have "insert_hole_addr a s = Some (s\<lparr>mm_holes_addr := t\<rparr>)"
    using key [of a] t(1) by (simp add: insert_hole_addr_def on_eqs)
  ultimately show ?thesis using t(2) by blast
qed


section \<open>add_hole and rm_hole\<close>

lemma live_upd:
  "mm_nodes s a \<noteq> None \<Longrightarrow> live (s\<lparr>mm_nodes := (mm_nodes s)(a \<mapsto> n)\<rparr>) b = live s b"
  "dom h = dom (mm_hole_list s) \<Longrightarrow> live (s\<lparr>mm_hole_list := h\<rparr>) b = live s b"
  "dom h = dom (mm_node_list s) \<Longrightarrow> live (s\<lparr>mm_node_list := h\<rparr>) b = live s b"
  "(rb_mem t b = None) = (rb_mem (mm_holes_size s) b = None) \<Longrightarrow> live (s\<lparr>mm_holes_size := t\<rparr>) b = live s b"
  "(rb_mem u b = None) = (rb_mem (mm_holes_addr s) b = None) \<Longrightarrow> live (s\<lparr>mm_holes_addr := u\<rparr>) b = live s b"
  "live (s\<lparr>mm_scan_active := k\<rparr>) b = live s b"
  by (auto simp: live_def)

lemma add_hole_spec:
  assumes rep: "holes_rep s hs ss (us @ vs)" and a: "live s a" "a \<notin> set (us @ vs)" "nd_mm (the (mm_nodes s a)) = mm_self s"
    and nxt: "next_of (mm_node_list s) a = Some b" "mm_nodes s b \<noteq> None"
    and h: "h = n_start (mm_nodes s) b - n_end (mm_nodes s) a" "h \<noteq> 0"
    and us: "\<forall>c\<in>set us. n_end (mm_nodes s) c \<le> n_end (mm_nodes s) a"
    and vs: "\<forall>c\<in>set vs. n_end (mm_nodes s) a < n_end (mm_nodes s) c"
  shows "\<exists>s' ss'. add_hole a s = Some s' \<and> holes_rep s' (a # hs) ss' (us @ a # vs) \<and> hole_frame a h s s'"
proof -
  let ?m = "(mm_nodes s)(a \<mapsto> (the (mm_nodes s a))\<lparr>nd_hole_size := h\<rparr>)"
  have na: "mm_nodes s a \<noteq> None" and rep': "is_list (mm_hole_list s) (mm_hole_stack s) hs" "set hs = set (us @ vs)"
      "rb_seq (mm_holes_size s) ss" "set ss = set (us @ vs)" "plain_seq (mm_holes_addr s) (us @ vs)"
      "\<forall>c\<in>set (us @ vs). live s c"
      "sorted_wrt (\<lambda>a b. n_hole (mm_nodes s) a \<ge> n_hole (mm_nodes s) b) ss"
    using a(1) rep by (auto simp: live_def holes_rep_def)
  obtain n where n: "mm_nodes s a = Some n" using na by blast
  have self: "deref_mm a s = Some ()" using n a(3) by (simp add: deref_mm_def)
  have ends: "raw_hole_node_end a s = Some (n_start (mm_nodes s) b)" "raw_hole_node_start a s = Some (n_end (mm_nodes s) a)"
    using nxt node_reads [OF na] by (auto simp: raw_hole_node_end_def n_start_def)
  define s1 where "s1 = s\<lparr>mm_nodes := ?m\<rparr>"
  have w: "nd_write a (\<lambda>n. n\<lparr>nd_hole_size := n_start (mm_nodes s) b - n_end (mm_nodes s) a\<rparr>) s = Some s1"
    using n h(1) by (simp add: nd_write_def s1_def)
  have f: "drm_mm_hole_follows a s1 = Some True" using h(2) by (simp add: drm_mm_hole_follows_def s1_def)
  have l1: "live s1 c = live s c" for c using na by (simp add: s1_def live_upd)
  have ss1: "sorted_wrt (\<lambda>c d. n_hole ?m c \<ge> n_hole ?m d) ss"
  proof (rule sorted_wrt_mono_rel [OF _ rep'(7)])
    fix c d assume "c \<in> set ss" "d \<in> set ss" "n_hole (mm_nodes s) d \<le> n_hole (mm_nodes s) c"
    then show "n_hole ?m d \<le> n_hole ?m c" using a(2) rep'(4) by auto
  qed
  have live1: "\<forall>c\<in>set (us @ vs). live s1 c" using rep'(6) l1 by blast
  have "\<exists>t ss'. insert_hole_size a s1 = Some (s1\<lparr>mm_holes_size := t\<rparr>) \<and> rb_seq t ss' \<and>
    set ss' = insert a (set ss) \<and> sorted_wrt (\<lambda>a b. n_hole (mm_nodes s1) a \<ge> n_hole (mm_nodes s1) b) ss' \<and>
    (\<forall>b. (rb_mem t b = None) = (rb_mem (mm_holes_size s1) b = None))"
  proof (rule insert_hole_size_spec)
    show "rb_seq (mm_holes_size s1) ss" "sorted_wrt (\<lambda>a b. n_hole (mm_nodes s1) a \<ge> n_hole (mm_nodes s1) b) ss"
      using rep'(3) ss1 by (simp_all add: s1_def)
    show "\<forall>c\<in>set ss. mm_nodes s1 c \<noteq> None" using live1 rep'(4) unfolding live_def by blast
    show "live s1 a" "a \<notin> set ss" using a(1,2) l1 rep'(4) by simp_all
  qed
  then obtain t ss' where t: "insert_hole_size a s1 = Some (s1\<lparr>mm_holes_size := t\<rparr>)" "rb_seq t ss'"
    "set ss' = insert a (set ss)" "sorted_wrt (\<lambda>a b. n_hole (mm_nodes s1) a \<ge> n_hole (mm_nodes s1) b) ss'"
    "\<forall>b. (rb_mem t b = None) = (rb_mem (mm_holes_size s1) b = None)" by blast
  define s2 where "s2 = s1\<lparr>mm_holes_size := t\<rparr>"
  have l2: "live s2 c = live s c" for c using t(5) l1 by (simp add: s2_def live_upd)
  have "\<exists>t. insert_hole_addr a s2 = Some (s2\<lparr>mm_holes_addr := t\<rparr>) \<and> plain_seq t (us @ a # vs) \<and>
    (\<forall>b. (rb_mem t b = None) = (rb_mem (mm_holes_addr s2) b = None))"
  proof (rule insert_hole_addr_spec)
    show "plain_seq (mm_holes_addr s2) (us @ vs)" using rep'(5) by (simp add: s2_def s1_def)
    show "\<forall>c\<in>set (us @ vs). mm_nodes s2 c \<noteq> None" using rep'(6) l2 unfolding live_def by blast
    show "live s2 a" "a \<notin> set (us @ vs)" using a(1,2) l2 by simp_all
    show "\<forall>c\<in>set us. n_end (mm_nodes s2) c \<le> n_end (mm_nodes s2) a"
      "\<forall>c\<in>set vs. n_end (mm_nodes s2) a < n_end (mm_nodes s2) c" using us vs by (simp_all add: s2_def s1_def)
  qed
  then obtain u where u: "insert_hole_addr a s2 = Some (s2\<lparr>mm_holes_addr := u\<rparr>)" "plain_seq u (us @ a # vs)"
    "\<forall>b. (rb_mem u b = None) = (rb_mem (mm_holes_addr s2) b = None)" by blast
  define s3 where "s3 = s2\<lparr>mm_holes_addr := u\<rparr>"
  have l3: "live s3 c = live s c" for c using u(3) l2 by (simp add: s3_def live_upd)
  obtain g where g: "list_add a (mm_hole_stack s) (mm_hole_list s) = Some g" "is_list g (mm_hole_stack s) (a # hs)"
    "dom g = dom (mm_hole_list s)"
  proof -
    have "a \<in> dom (mm_hole_list s)" "a \<notin> set (mm_hole_stack s # hs)" using a rep'(2) by (auto simp: live_def)
    from list_add_front [OF rep'(1) this] show thesis using that by blast
  qed
  define s' where "s' = s3\<lparr>mm_hole_list := g\<rparr>"
  have l: "live s' c = live s c" for c using g(3) l3 by (simp add: s'_def live_upd s3_def s2_def s1_def)
  have "add_hole a s = Some s'"
    using self ends w f t(1) u(1) g(1)
    by (simp add: add_hole_def on_eqs s2_def [symmetric] s3_def [symmetric])
      (simp add: s'_def s3_def s2_def s1_def)
  moreover have "hole_frame a h s s'" using l by (simp add: hole_frame_def s'_def s3_def s2_def s1_def)
  moreover have "holes_rep s' (a # hs) ss' (us @ a # vs)"
    using g(2) rep'(2,4) t(2,3,4) u(2) l a(1) rep'(6) by (auto simp: holes_rep_def s'_def s3_def s2_def s1_def)
  ultimately show ?thesis by blast
qed

lemma rm_hole_spec:
  assumes rep: "holes_rep s hs ss (us @ a # vs)" and self: "nd_mm (the (mm_nodes s a)) = mm_self s"
    and h: "n_hole (mm_nodes s) a \<noteq> 0"
  shows "\<exists>s' ss'. rm_hole a s = Some s' \<and> holes_rep s' (remove1 a hs) ss' (us @ vs) \<and> hole_frame a 0 s s'"
proof -
  have rep': "is_list (mm_hole_list s) (mm_hole_stack s) hs" "set hs = set (us @ a # vs)"
      "rb_seq (mm_holes_size s) ss" "set ss = set (us @ a # vs)" "plain_seq (mm_holes_addr s) (us @ a # vs)"
      "\<forall>c\<in>set (us @ a # vs). live s c"
      "sorted_wrt (\<lambda>a b. n_hole (mm_nodes s) a \<ge> n_hole (mm_nodes s) b) ss"
    using rep by (simp_all add: holes_rep_def)
  have d: "distinct (us @ a # vs)" "distinct hs" "distinct ss"
    using plain_seq_distinct [OF rep'(5)] rep'(1) rb_seq_distinct [OF rep'(3)] by (auto simp: is_list_def)
  have na: "mm_nodes s a \<noteq> None" using rep'(6) by (simp add: live_def)
  obtain n where n: "mm_nodes s a = Some n" using na by blast
  obtain hs1 hs2 where hs: "hs = hs1 @ a # hs2" "a \<notin> set hs1" "a \<notin> set hs2"
    using in_set_two_splits [of a hs] rep'(2) d(2) by auto
  obtain ss1 ss2 where ss: "ss = ss1 @ a # ss2" "a \<notin> set ss1" "a \<notin> set ss2"
    using in_set_two_splits [of a ss] rep'(4) d(3) by auto
  obtain g where g: "list_del a (mm_hole_list s) = Some g" "is_list g (mm_hole_stack s) (hs1 @ hs2)" "dom g = dom (mm_hole_list s)"
    using list_del_spec [of "mm_hole_list s" "mm_hole_stack s" hs1 a hs2] rep'(1) hs(1) by auto
  obtain t where t: "rb_erase_cached a (mm_holes_size s) = Some t" "rb_seq t (ss1 @ ss2)"
    "\<forall>c. c \<notin> set ss1 \<union> set ss2 \<longrightarrow> rb_mem t c = rb_mem (mm_holes_size s) c"
    using rb_erase_cached_spec [of "mm_holes_size s" ss1 a ss2] rep'(3) ss(1) by auto
  obtain u where u: "rb_erase a (mm_holes_addr s) = Some u" "plain_seq u (us @ vs)"
    "\<forall>c. c \<notin> set us \<union> set vs \<longrightarrow> rb_mem u c = rb_mem (mm_holes_addr s) c"
    using rb_erase_seq [OF rep'(5)] by auto
  have dt: "(rb_mem t c = None) = (rb_mem (mm_holes_size s) c = None)" for c
    using rb_seq_valid [OF t(2), of c] rb_seq_valid [OF rep'(3), of c] ss(1) t(3) by (cases "c \<in> set (ss1 @ ss2)") auto
  have du: "(rb_mem u c = None) = (rb_mem (mm_holes_addr s) c = None)" for c
    using plain_seq_valid [OF u(2), of c] plain_seq_valid [OF rep'(5), of c] u(3) by (cases "c \<in> set (us @ vs)") auto
  define s1 where "s1 = s\<lparr>mm_hole_list := g, mm_holes_size := t, mm_holes_addr := u\<rparr>"
  define s' where "s' = s1\<lparr>mm_nodes := (mm_nodes s)(a \<mapsto> (the (mm_nodes s a))\<lparr>nd_hole_size := 0\<rparr>)\<rparr>"
  have l: "live s' c = live s c" for c
    using g(3) dt [of c] du [of c] n by (auto simp: live_def s'_def s1_def)
  have "rm_hole a s = Some s'"
    using n h self g(1) t(1) u(1)
    by (simp add: rm_hole_def drm_mm_hole_follows_def n_hole_def on_eqs deref_mm_def nd_write_def s'_def s1_def)
  moreover have "hole_frame a 0 s s'" using l by (simp add: hole_frame_def s'_def s1_def)
  moreover have "holes_rep s' (remove1 a hs) (ss1 @ ss2) (us @ vs)"
  proof -
    have "sorted_wrt (\<lambda>c d. n_hole (mm_nodes s) c \<ge> n_hole (mm_nodes s) d) (ss1 @ ss2)"
      using rep'(7) ss(1) by (simp add: sorted_wrt_append)
    then have "sorted_wrt (\<lambda>c d. n_hole (mm_nodes s') c \<ge> n_hole (mm_nodes s') d) (ss1 @ ss2)"
    proof (rule sorted_wrt_mono_rel [rotated])
      fix c d assume "c \<in> set (ss1 @ ss2)" "d \<in> set (ss1 @ ss2)" "n_hole (mm_nodes s) d \<le> n_hole (mm_nodes s) c"
      then show "n_hole (mm_nodes s') d \<le> n_hole (mm_nodes s') c" using ss(2,3) by (auto simp: s'_def)
    qed
    moreover have "remove1 a hs = hs1 @ hs2" using hs by (simp add: remove1_append)
    moreover have "set (hs1 @ hs2) = set (us @ vs)" using rep'(2) hs d(1) by auto
    moreover have "set (ss1 @ ss2) = set (us @ vs)" using rep'(4) ss d(1) by auto
    ultimately show ?thesis
      using g(2) t(2) u(2) l rep'(6) by (simp add: holes_rep_def s'_def s1_def)
  qed
  ultimately show ?thesis by blast
qed

end
