(* ===== verification/Drm_Mm_Inv.thy ===== *)
theory Drm_Mm_Inv
  imports Drm_Mm_Holes
begin

text \<open>
  The invariant of the allocator between operations, and the step that insertion and
  reservation share: a block takes its place in a hole.
\<close>

section \<open>The blocks along the node list\<close>

text \<open>
  Along the list, which starts and ends at the head node, the blocks do not overlap, and
  \<open>hole_size\<close> is the distance from the end of a block to the start of the next one.
\<close>

fun laid :: "drm_mm_node store \<Rightarrow> addr list \<Rightarrow> bool" where
  "laid m (a # b # xs) \<longleftrightarrow> n_end m a \<le> n_start m b \<and> n_hole m a = n_start m b - n_end m a \<and> laid m (b # xs)"
| "laid m xs \<longleftrightarrow> True"

lemma laid_append: "laid m (us @ a # vs) \<longleftrightarrow> laid m (us @ [a]) \<and> laid m (a # vs)"
  by (induction m us rule: laid.induct) auto

lemma laid_cong:
  assumes "\<And>a. a \<in> set (butlast xs) \<Longrightarrow> n_end m' a = n_end m a \<and> n_hole m' a = n_hole m a"
    and "\<And>a. a \<in> set (tl xs) \<Longrightarrow> n_start m' a = n_start m a"
  shows "laid m' xs = laid m xs"
  using assms by (induction m xs rule: laid.induct) auto

lemma laid_order:
  assumes "laid m (a # xs @ [z])" and "\<forall>b\<in>set xs. n_start m b < n_end m b"
  shows "sorted_wrt (\<lambda>c d. n_end m c \<le> n_start m d) (a # xs @ [z])"
  using assms
proof (induction xs arbitrary: a)
  case (Cons b xs)
  have IH: "sorted_wrt (\<lambda>c d. n_end m c \<le> n_start m d) (b # xs @ [z])"
    by (rule Cons.IH) (use Cons.prems in auto)
  have "n_end m a \<le> n_start m b" "n_start m b < n_end m b" using Cons.prems by auto
  then have "\<forall>d\<in>set (xs @ [z]). n_end m a \<le> n_start m d" using IH by (auto intro: order_trans less_imp_le)
  then show ?case using IH \<open>n_end m a \<le> n_start m b\<close> by auto
qed simp

definition hole_nodes :: "drm_mm_node store \<Rightarrow> addr list \<Rightarrow> addr list" where
  "hole_nodes m xs = filter (\<lambda>a. n_hole m a \<noteq> 0) xs"

lemma hole_nodes_simps [simp]:
  "hole_nodes m [] = []" "hole_nodes m (xs @ ys) = hole_nodes m xs @ hole_nodes m ys"
  "hole_nodes m (a # xs) = (if n_hole m a \<noteq> 0 then a # hole_nodes m xs else hole_nodes m xs)"
  "set (hole_nodes m xs) = {a \<in> set xs. n_hole m a \<noteq> 0}"
  by (auto simp: hole_nodes_def)

lemma hole_nodes_cong: "(\<And>a. a \<in> set xs \<Longrightarrow> n_hole m' a = n_hole m a) \<Longrightarrow> hole_nodes m' xs = hole_nodes m xs"
  by (simp add: hole_nodes_def cong: filter_cong)

section \<open>The invariant\<close>

definition node_ok :: "drm_mm \<Rightarrow> addr \<Rightarrow> bool" where
  "node_ok s a \<longleftrightarrow> live s a \<and> nd_mm (the (mm_nodes s a)) = mm_self s"

definition block_ok :: "drm_mm \<Rightarrow> addr \<Rightarrow> bool" where
  "block_ok s a \<longleftrightarrow> node_ok s a \<and> nd_allocated (the (mm_nodes s a)) \<and> \<not> nd_scanned_block (the (mm_nodes s a)) \<and>
     n_start (mm_nodes s) a < n_end (mm_nodes s) a"

definition head_ok :: "drm_mm \<Rightarrow> bool" where
  "head_ok s \<longleftrightarrow> node_ok s (mm_head_node s) \<and> \<not> nd_allocated (the (mm_nodes s (mm_head_node s))) \<and>
     n_end (mm_nodes s) (mm_head_node s) < n_start (mm_nodes s) (mm_head_node s)"

text \<open>\<open>ns\<close> are the blocks in the order of their addresses, \<open>hs\<close> the holes as on the stack.\<close>

definition mm_inv :: "drm_mm \<Rightarrow> addr list \<Rightarrow> addr list \<Rightarrow> bool" where
  "mm_inv s ns hs \<longleftrightarrow> is_list (mm_node_list s) (mm_head_node s) ns \<and> head_ok s \<and> (\<forall>a\<in>set ns. block_ok s a) \<and>
     laid (mm_nodes s) (mm_head_node s # ns @ [mm_head_node s]) \<and>
     it_seq (LAST s) (mm_interval_tree s) ns \<and>
     (\<exists>ss. holes_rep s hs ss (hole_nodes (mm_nodes s) (mm_head_node s # ns))) \<and> mm_scan_active s = 0"

text \<open>What an operation on the nodes in \<open>A\<close> leaves alone.\<close>

definition mm_frame :: "addr set \<Rightarrow> drm_mm \<Rightarrow> drm_mm \<Rightarrow> bool" where
  "mm_frame A s s' \<longleftrightarrow> mm_self s' = mm_self s \<and> mm_color_adjust s' = mm_color_adjust s \<and>
     mm_hole_stack s' = mm_hole_stack s \<and> mm_head_node s' = mm_head_node s \<and> (\<forall>b. live s' b = live s b) \<and>
     (\<forall>b. b \<notin> A \<longrightarrow> map_option (nd_hole_size_update (\<lambda>_. 0)) (mm_nodes s' b) =
        map_option (nd_hole_size_update (\<lambda>_. 0)) (mm_nodes s b))"

lemma same_but_hole:
  "nd_hole_size_update (\<lambda>_. 0) x = nd_hole_size_update (\<lambda>_. 0) y \<Longrightarrow> nd_color x = nd_color y \<and> nd_start x = nd_start y \<and>
     nd_size x = nd_size y \<and> nd_mm x = nd_mm y \<and> nd_allocated x = nd_allocated y \<and> nd_scanned_block x = nd_scanned_block y"
  by (cases x; cases y) simp

lemma mm_frame_refl: "mm_frame A s s"
  by (simp add: mm_frame_def)

lemma mm_frame_trans:
  assumes "mm_frame A s s1" and "mm_frame B s1 s2" and "A \<union> B \<subseteq> C"
  shows "mm_frame C s s2"
proof -
  have "b \<notin> A" "b \<notin> B" if "b \<notin> C" for b using assms(3) that by auto
  then show ?thesis using assms(1,2) by (simp add: mm_frame_def)
qed

lemma mm_frame_step: "mm_frame {} s s1 \<Longrightarrow> mm_frame {} s1 s2 \<Longrightarrow> mm_frame {} s s2"
  by (rule mm_frame_trans) auto

lemma hole_frame_mm_frame: "hole_frame a h s s' \<Longrightarrow> mm_nodes s a \<noteq> None \<Longrightarrow> mm_frame {} s s'"
  by (auto simp: hole_frame_def mm_frame_def)

lemma mm_frame_fields:
  assumes "mm_frame A s s'" and "b \<notin> A"
  shows "n_start (mm_nodes s') b = n_start (mm_nodes s) b" "n_size (mm_nodes s') b = n_size (mm_nodes s) b"
    "n_end (mm_nodes s') b = n_end (mm_nodes s) b"
    "nd_mm (the (mm_nodes s' b)) = nd_mm (the (mm_nodes s b))"
    "nd_color (the (mm_nodes s' b)) = nd_color (the (mm_nodes s b))"
    "nd_allocated (the (mm_nodes s' b)) = nd_allocated (the (mm_nodes s b))"
    "nd_scanned_block (the (mm_nodes s' b)) = nd_scanned_block (the (mm_nodes s b))"
    "mm_nodes s' b = None \<longleftrightarrow> mm_nodes s b = None"
proof -
  have *: "map_option (nd_hole_size_update (\<lambda>_. 0)) (mm_nodes s' b) = map_option (nd_hole_size_update (\<lambda>_. 0)) (mm_nodes s b)"
    using assms by (simp add: mm_frame_def)
  show "n_start (mm_nodes s') b = n_start (mm_nodes s) b" "n_size (mm_nodes s') b = n_size (mm_nodes s) b"
    "n_end (mm_nodes s') b = n_end (mm_nodes s) b"
    "nd_mm (the (mm_nodes s' b)) = nd_mm (the (mm_nodes s b))"
    "nd_color (the (mm_nodes s' b)) = nd_color (the (mm_nodes s b))"
    "nd_allocated (the (mm_nodes s' b)) = nd_allocated (the (mm_nodes s b))"
    "nd_scanned_block (the (mm_nodes s' b)) = nd_scanned_block (the (mm_nodes s b))"
    "mm_nodes s' b = None \<longleftrightarrow> mm_nodes s b = None"
    using * by (cases "mm_nodes s' b"; cases "mm_nodes s b"; auto simp: n_start_def n_size_def n_end_def dest!: same_but_hole)+
qed

lemma mm_inv_order:
  assumes "mm_inv s ns hs"
  shows "sorted_wrt (\<lambda>c d. n_end (mm_nodes s) c \<le> n_start (mm_nodes s) d) (mm_head_node s # ns @ [mm_head_node s])"
  by (rule laid_order) (use assms in \<open>auto simp: mm_inv_def block_ok_def\<close>)


section \<open>A block takes its place\<close>

lemma hole_frame_refl: "mm_nodes s a \<noteq> None \<Longrightarrow> n_hole (mm_nodes s) a = 0 \<Longrightarrow> hole_frame a 0 s s"
  by (auto simp: hole_frame_def n_hole_def fun_eq_iff)

lemma add_hole_when:
  assumes rep: "holes_rep s hs ss (us @ vs)" and a: "node_ok s a" "a \<notin> set (us @ vs)" "n_hole (mm_nodes s) a = 0"
    and nxt: "next_of (mm_node_list s) a = Some b" "mm_nodes s b \<noteq> None"
    and h: "n_start (mm_nodes s) b - n_end (mm_nodes s) a = h"
    and us: "\<forall>c\<in>set us. n_end (mm_nodes s) c \<le> n_end (mm_nodes s) a"
    and vs: "\<forall>c\<in>set vs. n_end (mm_nodes s) a < n_end (mm_nodes s) c"
  shows "\<exists>s' ss'. c_when (h \<noteq> 0) (add_hole a) s = Some s' \<and>
    holes_rep s' (if h \<noteq> 0 then a # hs else hs) ss' (us @ (if h \<noteq> 0 then [a] else []) @ vs) \<and> hole_frame a h s s'"
proof (cases "h = 0")
  case True
  then show ?thesis using rep a hole_frame_refl [of s a]
    by (intro exI [of _ s] exI [of _ ss]) (simp add: c_when_def node_ok_def live_def)
next
  case False
  then show ?thesis
    using add_hole_spec [OF rep _ a(2) _ nxt h [symmetric] False us vs] a(1) by (simp add: c_when_def node_ok_def)
qed

lemma hole_frame_ok:
  assumes "hole_frame a h s s'" and "mm_nodes s a \<noteq> None"
  shows "node_ok s' b = node_ok s b" "block_ok s' b = block_ok s b" "head_ok s' = head_ok s" "LAST s' b = LAST s b"
    "START s' b = START s b"
proof -
  have m: "mm_nodes s' = (mm_nodes s)(a \<mapsto> (the (mm_nodes s a))\<lparr>nd_hole_size := h\<rparr>)" "live s' c = live s c"
    "mm_self s' = mm_self s" "mm_head_node s' = mm_head_node s" for c
    using assms(1) by (simp_all add: hole_frame_def)
  show n: "node_ok s' b = node_ok s b" for b using assms(2) m by (auto simp: node_ok_def)
  show "block_ok s' b = block_ok s b" using n [of b] m by (auto simp: block_ok_def n_start_def n_end_def)
  show "head_ok s' = head_ok s" using n [of "mm_head_node s"] m by (auto simp: head_ok_def n_start_def n_end_def)
  show "LAST s' b = LAST s b" "START s' b = START s b" using assms(2) m by (auto simp: LAST_def START_def)
qed

lemma list_order_ends:
  assumes "sorted_wrt (\<lambda>c d. n_end m c \<le> n_start m d) (us @ a # vs @ [z])" and "\<forall>c\<in>set (tl (us @ a # vs)). n_start m c < n_end m c"
  shows "\<forall>c\<in>set us. n_end m c \<le> n_end m a" and "\<forall>c\<in>set vs. n_end m a < n_end m c"
proof -
  have "us \<noteq> [] \<Longrightarrow> n_start m a < n_end m a" using assms(2) by (cases us) auto
  then show "\<forall>c\<in>set us. n_end m c \<le> n_end m a" using assms(1) by (force simp: sorted_wrt_append)
  have "set vs \<subseteq> set (tl (us @ a # vs))" by (cases us) auto
  then show "\<forall>c\<in>set vs. n_end m a < n_end m c" using assms by (fastforce simp: sorted_wrt_append)
qed

text \<open>Steps that change nothing but the holes.\<close>

definition only_holes :: "drm_mm \<Rightarrow> drm_mm \<Rightarrow> bool" where
  "only_holes s s' \<longleftrightarrow> mm_frame {} s s' \<and> mm_node_list s' = mm_node_list s \<and> mm_interval_tree s' = mm_interval_tree s \<and>
     mm_scan_active s' = mm_scan_active s"

lemma hole_frame_only: "hole_frame a h s s' \<Longrightarrow> mm_nodes s a \<noteq> None \<Longrightarrow> only_holes s s'"
  by (simp add: only_holes_def hole_frame_mm_frame) (simp add: hole_frame_def)

lemma only_holes_trans: "only_holes s s1 \<Longrightarrow> only_holes s1 s2 \<Longrightarrow> only_holes s s2"
  using mm_frame_step [of s s1 s2] by (simp add: only_holes_def)

lemma only_holes_same:
  assumes "only_holes s s'"
  shows "n_start (mm_nodes s') b = n_start (mm_nodes s) b" "n_end (mm_nodes s') b = n_end (mm_nodes s) b"
    "node_ok s' b = node_ok s b" "block_ok s' b = block_ok s b" "head_ok s' = head_ok s" "LAST s' b = LAST s b"
    "mm_nodes s' b = None \<longleftrightarrow> mm_nodes s b = None" "mm_head_node s' = mm_head_node s" "mm_self s' = mm_self s"
    "mm_node_list s' = mm_node_list s" "mm_interval_tree s' = mm_interval_tree s" "mm_scan_active s' = mm_scan_active s"
proof -
  have f: "mm_frame {} s s'" using assms by (simp add: only_holes_def)
  note g = mm_frame_fields [OF f]
  show k: "mm_head_node s' = mm_head_node s" "mm_self s' = mm_self s" using f by (simp_all add: mm_frame_def)
  show "n_start (mm_nodes s') b = n_start (mm_nodes s) b" "n_end (mm_nodes s') b = n_end (mm_nodes s) b"
    "mm_nodes s' b = None \<longleftrightarrow> mm_nodes s b = None" using g by simp_all
  show n: "node_ok s' b = node_ok s b" for b using f g(4) [of b] k by (simp add: node_ok_def mm_frame_def)
  show "block_ok s' b = block_ok s b" using n g by (simp add: block_ok_def)
  show "head_ok s' = head_ok s" using n g k by (simp add: head_ok_def)
  have "LAST s b = (if mm_nodes s b = None then None else Some (n_end (mm_nodes s) b - 1))" for s b
    using node_reads(5) [of s b] by (simp add: LAST_def)
  then show "LAST s' b = LAST s b" using g(3,8) [of b] by simp
  show "mm_node_list s' = mm_node_list s" "mm_interval_tree s' = mm_interval_tree s" "mm_scan_active s' = mm_scan_active s"
    using assms by (simp_all add: only_holes_def)
qed

text \<open>A block comes in between two others, or goes: what the sizes of the holes must be then.\<close>

lemma laid_parts:
  assumes same: "\<And>c. n_start m' c = n_start m c" "\<And>c. n_end m' c = n_end m c"
    and holes: "\<And>c. c \<noteq> a \<Longrightarrow> c \<noteq> x \<Longrightarrow> n_hole m' c = n_hole m c"
    and fresh: "{a, x} \<inter> set us = {}" "{a, x} \<inter> set (butlast w) = {}"
  shows "laid m' (us @ [d]) = laid m (us @ [d])" "laid m' w = laid m w"
proof -
  have h: "n_hole m' c = n_hole m c" if "c \<in> set us \<union> set (butlast w)" for c by (rule holes) (use fresh that in auto)
  show "laid m' (us @ [d]) = laid m (us @ [d])" by (rule laid_cong) (use same h in \<open>auto simp: butlast_append split: if_splits\<close>)
  show "laid m' w = laid m w" by (rule laid_cong) (use same h in auto)
qed

lemma laid_enter:
  assumes l: "laid m (us @ a # b # w)" and same: "\<And>c. n_start m' c = n_start m c" "\<And>c. n_end m' c = n_end m c"
    and holes: "\<And>c. c \<noteq> a \<Longrightarrow> c \<noteq> x \<Longrightarrow> n_hole m' c = n_hole m c"
    and fresh: "{a, x} \<inter> set us = {}" "{a, x} \<inter> set (butlast (b # w)) = {}"
    and a: "n_end m a \<le> n_start m x" "n_hole m' a = n_start m x - n_end m a"
    and x: "n_end m x \<le> n_start m b" "n_hole m' x = n_start m b - n_end m x"
  shows "laid m' (us @ a # x # b # w)"
proof -
  have "laid m (us @ [a])" "laid m (b # w)" using l laid_append [of m us a "b # w"] by simp_all
  then have "laid m' (us @ [a])" "laid m' (b # w)" using laid_parts [of m' m a x us "b # w", OF same holes fresh] by blast+
  then show ?thesis using a x same laid_append [of m' us a "x # b # w"] by simp
qed

lemma laid_leave:
  assumes l: "laid m (us @ a # x # b # w)" and same: "\<And>c. n_start m' c = n_start m c" "\<And>c. n_end m' c = n_end m c"
    and holes: "\<And>c. c \<noteq> a \<Longrightarrow> c \<noteq> x \<Longrightarrow> n_hole m' c = n_hole m c"
    and fresh: "{a, x} \<inter> set us = {}" "{a, x} \<inter> set (butlast (b # w)) = {}"
    and a: "n_end m a \<le> n_start m b" "n_hole m' a = n_start m b - n_end m a"
  shows "laid m' (us @ a # b # w)"
proof -
  have "laid m (us @ [a])" "laid m (b # w)" using l laid_append [of m us a "x # b # w"] by simp_all
  then have "laid m' (us @ [a])" "laid m' (b # w)" using laid_parts [of m' m a x us "b # w", OF same holes fresh] by blast+
  then show ?thesis using a same laid_append [of m' us a "b # w"] by simp
qed

text \<open>The hole behind \<open>a\<close> is replaced by the one between \<open>a\<close> and \<open>x\<close> and the one between \<open>x\<close> and \<open>b\<close>.\<close>

lemma split_hole:
  assumes rep: "holes_rep s hs ss (us @ a # vs)" and nodes: "node_ok s a" "node_ok s x" "mm_nodes s b \<noteq> None"
    and hole: "n_hole (mm_nodes s) a \<noteq> 0" "n_hole (mm_nodes s) x = 0"
    and fresh: "x \<noteq> a" "{a, x} \<inter> set (us @ vs) = {}"
    and nxt: "next_of (mm_node_list s) a = Some x" "next_of (mm_node_list s) x = Some b"
    and us: "\<forall>c\<in>set us. n_end (mm_nodes s) c \<le> n_end (mm_nodes s) a" and ax: "n_end (mm_nodes s) a \<le> n_end (mm_nodes s) x"
    and vs: "\<forall>c\<in>set vs. n_end (mm_nodes s) a < n_end (mm_nodes s) c \<and> n_end (mm_nodes s) x < n_end (mm_nodes s) c"
  defines "h1 \<equiv> n_start (mm_nodes s) x - n_end (mm_nodes s) a" and "h2 \<equiv> n_start (mm_nodes s) b - n_end (mm_nodes s) x"
  shows "\<exists>s' hs' ss'. do { s \<leftarrow> rm_hole a s; s \<leftarrow> c_when (h1 \<noteq> 0) (add_hole a) s; c_when (h2 \<noteq> 0) (add_hole x) s } = Some s' \<and>
    holes_rep s' hs' ss' (us @ (if h1 \<noteq> 0 then [a] else []) @ (if h2 \<noteq> 0 then [x] else []) @ vs) \<and> only_holes s s' \<and>
    (\<forall>c. n_hole (mm_nodes s') c = (if c = x then h2 else if c = a then h1 else n_hole (mm_nodes s) c))"
proof -
  have na: "mm_nodes s a \<noteq> None" "mm_nodes s x \<noteq> None" using nodes by (simp_all add: node_ok_def live_def)
  obtain s1 ss1 where s1: "rm_hole a s = Some s1" "holes_rep s1 (remove1 a hs) ss1 (us @ vs)" "hole_frame a 0 s s1"
    using rm_hole_spec [OF rep _ hole(1)] nodes(1) by (auto simp: node_ok_def)
  have o1: "only_holes s s1" by (rule hole_frame_only [OF s1(3) na(1)])
  note f1 = only_holes_same [OF o1] and h = hole_frame_n [OF s1(3)]
  have "\<exists>s2 ss2. c_when (h1 \<noteq> 0) (add_hole a) s1 = Some s2 \<and>
    holes_rep s2 (if h1 \<noteq> 0 then a # remove1 a hs else remove1 a hs) ss2 (us @ (if h1 \<noteq> 0 then [a] else []) @ vs) \<and> hole_frame a h1 s1 s2"
    by (rule add_hole_when [OF s1(2), where b = x]) (use f1 h nodes fresh nxt na us vs in \<open>simp_all add: h1_def\<close>)
  then obtain s2 hs2 ss2 where s2: "c_when (h1 \<noteq> 0) (add_hole a) s1 = Some s2"
    "holes_rep s2 hs2 ss2 ((us @ (if h1 \<noteq> 0 then [a] else [])) @ vs)" "hole_frame a h1 s1 s2" by auto
  have o2: "only_holes s1 s2" by (rule hole_frame_only [OF s2(3)]) (use na f1 in simp)
  note f2 = only_holes_same [OF o2] and h' = hole_frame_n [OF s2(3)]
  have "\<exists>s3 ss3. c_when (h2 \<noteq> 0) (add_hole x) s2 = Some s3 \<and>
    holes_rep s3 (if h2 \<noteq> 0 then x # hs2 else hs2) ss3 ((us @ (if h1 \<noteq> 0 then [a] else [])) @ (if h2 \<noteq> 0 then [x] else []) @ vs) \<and>
    hole_frame x h2 s2 s3"
    by (rule add_hole_when [OF s2(2), where b = b])
      (use f1 f2 h h' nodes hole fresh nxt us ax vs in \<open>auto simp: h2_def split: if_splits\<close>)
  then obtain s3 hs3 ss3 where s3: "c_when (h2 \<noteq> 0) (add_hole x) s2 = Some s3"
    "holes_rep s3 hs3 ss3 ((us @ (if h1 \<noteq> 0 then [a] else [])) @ (if h2 \<noteq> 0 then [x] else []) @ vs)" "hole_frame x h2 s2 s3" by blast
  have o3: "only_holes s2 s3" by (rule hole_frame_only [OF s3(3)]) (use na f1 f2 in simp)
  have "only_holes s s3" by (rule only_holes_trans [OF only_holes_trans [OF o1 o2] o3])
  moreover have "\<forall>c. n_hole (mm_nodes s3) c = (if c = x then h2 else if c = a then h1 else n_hole (mm_nodes s) c)"
    using h h' hole_frame_n [OF s3(3)] fresh(1) by auto
  ultimately show ?thesis using s1(1) s2(1) s3(1,2) by (intro exI [of _ s3] exI [of _ hs3] exI [of _ ss3]) simp
qed

lemma take_place:
  assumes L: "mm_head_node s # ns = us @ a # vs" "mm_head_node s # ns' = us @ a # x # vs"
    and nl: "is_list (mm_node_list s) (mm_head_node s) ns'" and ok: "head_ok s" "\<forall>c\<in>set ns'. block_ok s c"
    and laid: "laid (mm_nodes s) (mm_head_node s # ns @ [mm_head_node s])"
    and seq: "it_seq (LAST s) (mm_interval_tree s) ns'"
    and rep: "holes_rep s hs ss (hole_nodes (mm_nodes s) (mm_head_node s # ns))" and act: "mm_scan_active s = 0"
    and a: "n_hole (mm_nodes s) a \<noteq> 0" and x: "n_hole (mm_nodes s) x = 0"
    and fit: "n_end (mm_nodes s) a \<le> n_start (mm_nodes s) x" "n_end (mm_nodes s) x \<le> n_end (mm_nodes s) a + n_hole (mm_nodes s) a"
  shows "\<exists>s' hs'. do { s1 \<leftarrow> rm_hole a s;
      s2 \<leftarrow> c_when (n_start (mm_nodes s) x > n_end (mm_nodes s) a) (add_hole a) s1;
      c_when (n_end (mm_nodes s) x < n_end (mm_nodes s) a + n_hole (mm_nodes s) a) (add_hole x) s2 } = Some s' \<and>
    mm_inv s' ns' hs' \<and> mm_frame {} s s'"
proof -
  let ?m = "mm_nodes s" and ?H = "mm_head_node s"
  obtain b w where w: "vs @ [?H] = b # w" by (cases vs) auto
  have e: "us @ a # b # w = ?H # ns @ [?H]" "us @ a # x # b # w = ?H # ns' @ [?H]"
    using arg_cong [OF L(1), of "\<lambda>xs. xs @ [?H]"] arg_cong [OF L(2), of "\<lambda>xs. xs @ [?H]"] w by simp_all
  have d: "distinct (us @ a # x # vs)" using nl L(2) by (metis is_list_def)
  have ws: "set (butlast (b # w)) = set vs" using w by (metis butlast_snoc)
  have ns': "set ns' = set (tl (us @ a # x # vs))" using L(2) by (metis list.sel(3))
  then have "set (tl (us @ a # vs)) \<subseteq> set ns'" and xin: "x \<in> set ns'" by (cases us; auto)+
  then have pos: "\<forall>c\<in>set (tl (us @ a # vs)). n_start ?m c < n_end ?m c" using ok(2) by (auto simp: block_ok_def)
  then have npos: "\<forall>c\<in>set ns. n_start ?m c < n_end ?m c" using L(1) by (metis list.sel(3))
  have ord: "sorted_wrt (\<lambda>c d. n_end ?m c \<le> n_start ?m d) (us @ a # b # w)" unfolding e(1) by (rule laid_order [OF laid npos])
  note ends = list_order_ends [OF ord [folded w] pos]
  have xpos: "n_start ?m x < n_end ?m x" using ok(2) xin by (auto simp: block_ok_def)
  have he: "n_end ?m a + n_hole ?m a = n_start ?m b" using laid [folded e(1)] laid_append [of ?m us a "b # w"] by simp
  have xends: "n_end ?m x < n_end ?m c" if c: "c \<in> set vs" for c
  proof -
    have "n_start ?m c < n_end ?m c" using pos c by (cases us) auto
    moreover have "n_start ?m b \<le> n_start ?m c"
    proof (cases "c = b")
      case False
      then have "b \<in> set vs" "c \<in> set w" using c w by (cases vs; auto)+
      then have "n_start ?m b < n_end ?m b" "n_end ?m b \<le> n_start ?m c" using pos ord by (cases us; auto simp: sorted_wrt_append)+
      then show ?thesis by simp
    qed simp
    ultimately show ?thesis using fit(2) he by simp
  qed
  have nodes: "\<forall>c\<in>set (us @ a # x # vs). node_ok s c" using ok L(2) by (metis block_ok_def head_ok_def set_ConsD)
  moreover have "b \<in> set (vs @ [?H])" by (simp add: w)
  then have "node_ok s b" using nodes ok(1) by (auto simp: head_ok_def)
  then have bn: "?m b \<noteq> None" by (simp add: node_ok_def live_def)
  have "next_path (mm_node_list s) (us @ a # x # b # w)" unfolding e(2) using nl by (simp add: is_list_def)
  then have nxt: "next_of (mm_node_list s) a = Some x" "next_of (mm_node_list s) x = Some b"
    using next_path_append [of "mm_node_list s" us a "x # b # w"] by simp_all
  define h1 where "h1 = n_start ?m x - n_end ?m a"
  define h2 where "h2 = n_start ?m b - n_end ?m x"
  have rep0: "holes_rep s hs ss (hole_nodes ?m us @ a # hole_nodes ?m vs)" using rep L(1) a by simp
  have "\<exists>s' hs' ss'. do { s \<leftarrow> rm_hole a s; s \<leftarrow> c_when (h1 \<noteq> 0) (add_hole a) s; c_when (h2 \<noteq> 0) (add_hole x) s } = Some s' \<and>
    holes_rep s' hs' ss' (hole_nodes ?m us @ (if h1 \<noteq> 0 then [a] else []) @ (if h2 \<noteq> 0 then [x] else []) @ hole_nodes ?m vs) \<and>
    only_holes s s' \<and> (\<forall>c. n_hole (mm_nodes s') c = (if c = x then h2 else if c = a then h1 else n_hole ?m c))"
    unfolding h1_def h2_def
    by (rule split_hole [OF rep0]) (use nodes bn a x d nxt ends xends fit(1) xpos in auto)
  then obtain s' hs' ss' where s': "do { s \<leftarrow> rm_hole a s; s \<leftarrow> c_when (h1 \<noteq> 0) (add_hole a) s; c_when (h2 \<noteq> 0) (add_hole x) s } = Some s'"
    "holes_rep s' hs' ss' (hole_nodes ?m us @ (if h1 \<noteq> 0 then [a] else []) @ (if h2 \<noteq> 0 then [x] else []) @ hole_nodes ?m vs)"
    "only_holes s s'" and hole: "\<And>c. n_hole (mm_nodes s') c = (if c = x then h2 else if c = a then h1 else n_hole ?m c)" by blast
  note f = only_holes_same [OF s'(3)]
  have "n_end ?m x \<le> n_start ?m b" using fit(2) he by simp
  then have "laid (mm_nodes s') (us @ a # x # b # w)"
    by (intro laid_enter [where m = ?m]) (use laid [folded e(1)] f(1,2) hole d fit(1) in \<open>auto simp: ws h1_def h2_def simp del: butlast.simps\<close>)
  moreover have "hole_nodes (mm_nodes s') us = hole_nodes ?m us" "hole_nodes (mm_nodes s') vs = hole_nodes ?m vs"
    by (rule hole_nodes_cong; use hole d in auto)+
  then have "hole_nodes (mm_nodes s') (us @ a # x # vs) =
    hole_nodes ?m us @ (if h1 \<noteq> 0 then [a] else []) @ (if h2 \<noteq> 0 then [x] else []) @ hole_nodes ?m vs"
    using hole d by simp
  then have "holes_rep s' hs' ss' (hole_nodes (mm_nodes s') (?H # ns'))" unfolding L(2) using s'(2) by simp
  moreover have "it_seq (LAST s') (mm_interval_tree s') ns'" using it_seq_cong [OF seq, of "LAST s'"] f by simp
  ultimately have "mm_inv s' ns' hs'" unfolding mm_inv_def f(3-12) e(2) using nl ok act by auto
  moreover have "(n_start ?m x > n_end ?m a) = (h1 \<noteq> 0)" "(n_end ?m x < n_end ?m a + n_hole ?m a) = (h2 \<noteq> 0)"
    using fit he by (auto simp: h1_def h2_def)
  ultimately show ?thesis using s'(1,3) by (auto simp: only_holes_def)
qed

section \<open>A node of the list and the hole behind it\<close>

lemma mm_inv_at:
  assumes inv: "mm_inv s ns hs" and L: "mm_head_node s # ns = us @ a # vs"
  defines "m \<equiv> mm_nodes s" and "b \<equiv> hd (vs @ [mm_head_node s])"
  shows "n_end m a \<le> n_end m a + n_hole m a" and "n_end m a + n_hole m a = n_start m b"
    and "\<forall>c\<in>set (vs @ [mm_head_node s]). n_end m a + n_hole m a \<le> n_start m c"
    and "\<forall>c\<in>set us. n_end m c \<le> n_end m a" and "\<forall>c\<in>set vs. n_end m a < n_end m c"
    and "node_ok s a" and "next_of (mm_node_list s) a = Some b" and "nd_allocated (the (m a)) \<longleftrightarrow> us \<noteq> []"
proof -
  let ?H = "mm_head_node s"
  have e: "us @ a # vs @ [?H] = ?H # ns @ [?H]" using L by simp
  obtain w where w: "vs @ [?H] = b # w" by (cases vs) (auto simp: b_def)
  have blocks: "\<forall>c\<in>set ns. block_ok s c" and ok: "head_ok s" using inv by (auto simp: mm_inv_def)
  have tl: "set (tl (us @ a # vs)) = set ns" using L by (metis list.sel(3))
  have l: "laid m (us @ a # b # w)" using inv e w by (metis m_def mm_inv_def)
  have gap: "n_end m a \<le> n_start m b" "n_hole m a = n_start m b - n_end m a"
    using l laid_append [of m us a "b # w"] by simp_all
  then show h: "n_end m a \<le> n_end m a + n_hole m a" "n_end m a + n_hole m a = n_start m b" by simp_all
  have ord: "sorted_wrt (\<lambda>c d. n_end m c \<le> n_start m d) (us @ a # vs @ [?H])"
    unfolding e m_def by (rule mm_inv_order [OF inv])
  have pos: "\<forall>c\<in>set (tl (us @ a # vs)). n_start m c < n_end m c" using blocks tl by (simp add: block_ok_def m_def)
  from list_order_ends [OF ord pos] show "\<forall>c\<in>set us. n_end m c \<le> n_end m a" "\<forall>c\<in>set vs. n_end m a < n_end m c" .
  show "\<forall>c\<in>set (vs @ [?H]). n_end m a + n_hole m a \<le> n_start m c"
  proof
    fix c assume c: "c \<in> set (vs @ [?H])"
    have "c = b \<or> (n_start m b < n_end m b \<and> n_end m b \<le> n_start m c)"
    proof (cases vs)
      case (Cons b' vs')
      then have "b' = b" by (simp add: b_def)
      have "b \<in> set (tl (us @ a # vs))" using Cons \<open>b' = b\<close> by (cases us) auto
      then have "n_start m b < n_end m b" using pos by blast
      moreover have "c = b \<or> n_end m b \<le> n_start m c"
        using c ord Cons \<open>b' = b\<close> by (auto simp: sorted_wrt_append)
      ultimately show ?thesis by blast
    qed (use c in \<open>simp add: b_def\<close>)
    then show "n_end m a + n_hole m a \<le> n_start m c" unfolding h(2) by auto
  qed
  have "a = ?H \<and> us = [] \<or> a \<in> set ns \<and> us \<noteq> []" using L by (cases us) auto
  then show "node_ok s a" "nd_allocated (the (m a)) \<longleftrightarrow> us \<noteq> []"
    using blocks ok by (auto simp: block_ok_def head_ok_def m_def)
  have "next_path (mm_node_list s) (us @ a # b # w)"
    using inv unfolding w [symmetric] e by (simp add: mm_inv_def is_list_def)
  then show "next_of (mm_node_list s) a = Some b"
    using next_path_append [of "mm_node_list s" us a "b # w"] by simp
qed

lemma mm_inv_distinct: "mm_inv s ns hs \<Longrightarrow> distinct (mm_head_node s # ns)"
  by (simp add: mm_inv_def is_list_def)

section \<open>The new block enters the list and the interval tree\<close>

lemma add_node_eq:
  assumes "deref_mm hole s = Some ()" and "mm_nodes s node = Some n" and "mm_nodes s hole = Some hn"
  shows "drm_mm_interval_tree_add_node hole node s =
    map_option (\<lambda>t. s\<lparr>mm_interval_tree := t\<rparr>)
      (itree_add_after (START s) (LAST s) (nd_allocated hn) hole node (nd_start n) (nd_start n + nd_size n - 1) (mm_interval_tree s))"
  using assms by (simp add: drm_mm_interval_tree_add_node_def LAST_def START_def on_eqs itree_add_after_def)

lemma enter_block:
  assumes inv: "mm_inv s ns hs" and L: "mm_head_node s # ns = us @ a # vs" "mm_head_node s # ns' = us @ a # x # vs"
    and x: "live s x" "x \<notin> set (mm_head_node s # ns)"
    and n: "s1 = s\<lparr>mm_nodes := (mm_nodes s)(x \<mapsto> n)\<rparr>" "nd_start n < nd_start n + nd_size n"
      "nd_start n + nd_size n \<le> n_end (mm_nodes s) a + n_hole (mm_nodes s) a"
  shows "\<exists>nl t. do { s \<leftarrow> on_node_list (list_add x a) s1; drm_mm_interval_tree_add_node a x s } =
      Some (s1\<lparr>mm_node_list := nl, mm_interval_tree := t\<rparr>) \<and>
    is_list nl (mm_head_node s) ns' \<and> it_seq (LAST s1) t ns' \<and> 
    (\<forall>b. live (s1\<lparr>mm_node_list := nl, mm_interval_tree := t\<rparr>) b = live s b)"
proof -
  let ?H = "mm_head_node s"
  note at = mm_inv_at [OF inv L(1)]
  have xa: "x \<noteq> a" "x \<notin> set vs" "x \<notin> set us" using x(2) unfolding L(1) by simp_all
  have split: "ns = tl (us @ [a]) @ vs" "ns' = tl (us @ [a]) @ x # vs"
    using L by (cases us; simp)+
  have la: "last (?H # tl (us @ [a])) = a" using L(1) by (cases us) auto
  have nla: "is_list (mm_node_list s) ?H (tl (us @ [a]) @ vs)" using inv split(1) by (simp add: mm_inv_def)
  obtain nl where nl: "list_add x a (mm_node_list s) = Some nl" "is_list nl ?H ns'" "dom nl = dom (mm_node_list s)"
    using list_add_spec [OF nla, of x] x la split by (auto simp: live_def)
  obtain an where an: "mm_nodes s a = Some an" using at(6) by (auto simp: node_ok_def live_def)
  define s2 where "s2 = s1\<lparr>mm_node_list := nl\<rparr>"
  have S: "START s2 c = (if c = x then Some (nd_start n) else START s c)"
    "LAST s2 c = (if c = x then Some (nd_start n + nd_size n - 1) else LAST s c)" for c
    by (simp_all add: START_def LAST_def s2_def n(1))
  have seq: "it_seq (LAST s2) (mm_interval_tree s2) (tl (us @ [a]) @ vs)"
    unfolding split(1) [symmetric]
    by (rule it_seq_cong [of "LAST s"]) (use inv x(2) S in \<open>auto simp: mm_inv_def s2_def n(1)\<close>)
  have nodes: "\<forall>c\<in>set ns. mm_nodes s c \<noteq> None" using inv by (auto simp: mm_inv_def block_ok_def node_ok_def live_def)
  have "\<exists>t. itree_add_after (START s2) (LAST s2) (us \<noteq> []) a x (nd_start n) (nd_start n + nd_size n - 1) (mm_interval_tree s2) = Some t \<and>
    it_seq (LAST s2) t (tl (us @ [a]) @ x # vs) \<and> it_frame (insert x (set (tl (us @ [a])) \<union> set vs)) (mm_interval_tree s2) t"
  proof (rule itree_add_after_spec [OF seq])
    show "\<forall>c\<in>set (tl (us @ [a]) @ vs). START s2 c \<noteq> None"
      unfolding split(1) [symmetric] using nodes S by (auto simp: START_def)
    show "\<forall>c\<in>set vs. nd_start n < the (START s2 c)"
    proof
      fix c assume c: "c \<in> set vs"
      then have "nd_start n < n_start (mm_nodes s) c" using n(2,3) at(3) by force
      moreover have "mm_nodes s c \<noteq> None" "c \<noteq> x" using c nodes split(1) xa by auto
      ultimately show "nd_start n < the (START s2 c)" using S by (auto simp: START_def n_start_def)
    qed
    show "tl (us @ [a]) \<noteq> [] \<and> last (tl (us @ [a])) = a" if "us \<noteq> []" using that by (cases us) auto
    show "tl (us @ [a]) = []" if "\<not> us \<noteq> []" using that by simp
    show "rb_mem (mm_interval_tree s2) x \<noteq> None" "it_subtree (mm_interval_tree s2) x \<noteq> None" "valid_ptr x"
      using x(1) by (simp_all add: live_def s2_def n(1))
    show "x \<notin> set (tl (us @ [a]) @ vs)" unfolding split(1) [symmetric] using x(2) by simp
    show "LAST s2 x = Some (nd_start n + nd_size n - 1)" using S by simp
  qed
  then obtain t where t: "itree_add_after (START s2) (LAST s2) (us \<noteq> []) a x (nd_start n) (nd_start n + nd_size n - 1) (mm_interval_tree s2) = Some t"
    "it_seq (LAST s2) t ns'" "it_frame (set ns') (mm_interval_tree s2) t"
    unfolding split(2) by auto
  have "deref_mm a s2 = Some ()" "mm_nodes s2 x = Some n" "mm_nodes s2 a = Some an"
    using at(6) an xa by (simp_all add: deref_mm_def node_ok_def s2_def n(1))
  from add_node_eq [OF this] have run: "drm_mm_interval_tree_add_node a x s2 = Some (s2\<lparr>mm_interval_tree := t\<rparr>)"
    using t(1) at(8) an by simp
  have "live (s2\<lparr>mm_interval_tree := t\<rparr>) b = live s b" for b
  proof (cases "b \<in> set ns'")
    case True
    then have "rb_mem t b \<noteq> None" "it_subtree t b \<noteq> None"
      using rb_seq_valid [OF it_seq_rb_seq [OF t(2)]] it_seq_subtree [OF t(2)] by blast+
    moreover have "rb_mem (mm_interval_tree s2) b \<noteq> None" "it_subtree (mm_interval_tree s2) b \<noteq> None"
    proof -
      have "b = x \<or> b \<in> set ns" using True split by auto
      moreover have "live s b" if "b \<in> set ns" using that inv by (auto simp: mm_inv_def block_ok_def node_ok_def)
      ultimately have "live s b" using x(1) by blast
      then show "rb_mem (mm_interval_tree s2) b \<noteq> None" "it_subtree (mm_interval_tree s2) b \<noteq> None"
        by (simp_all add: live_def s2_def n(1))
    qed
    ultimately show ?thesis using nl(3) x(1) by (auto simp: live_def s2_def n(1))
  next
    case False
    then show ?thesis using t(3) nl(3) x(1) by (auto simp: live_def s2_def n(1) it_frame_def)
  qed
  moreover have "LAST s2 = LAST s1" by (rule ext) (simp add: LAST_def s2_def)
  moreover have "mm_node_list s1 = mm_node_list s" by (simp add: n(1))
  ultimately show ?thesis using nl(1,2) run t(2) by (auto simp: on_eqs s2_def)
qed

end
