(* ===== verification/Drm_Mm_Place.thy ===== *)
theory Drm_Mm_Place
  imports Drm_Mm_Inv
begin

text \<open>
  A block is put at a given place in a given hole: \<open>insert_into_hole\<close>, and the second half of
  \<open>drm_mm_reserve_node\<close>.
\<close>

text \<open>The steps after the node has been written, as both functions have them.\<close>

definition occupy :: "addr \<Rightarrow> addr \<Rightarrow> bool \<Rightarrow> bool \<Rightarrow> (drm_mm_node \<Rightarrow> drm_mm_node) \<Rightarrow> drm_mm \<Rightarrow> drm_mm option" where
  "occupy node hole before after f s = do {
     s \<leftarrow> on_node_list (list_add node hole) s;
     s \<leftarrow> drm_mm_interval_tree_add_node hole node s;
     s \<leftarrow> nd_write node f s;
     s \<leftarrow> rm_hole hole s;
     s \<leftarrow> c_when before (add_hole hole) s;
     c_when after (add_hole node) s
   }"

lemma occupy_spec:
  assumes inv: "mm_inv s ns hs" and L: "mm_head_node s # ns = us @ a # vs" "mm_head_node s # ns' = us @ a # x # vs"
    and x: "live s x" "x \<notin> set (mm_head_node s # ns)"
    and n: "s1 = s\<lparr>mm_nodes := (mm_nodes s)(x \<mapsto> n)\<rparr>" "nd_start n < nd_start n + nd_size n"
      "nd_start n + nd_size n \<le> n_end (mm_nodes s) a + n_hole (mm_nodes s) a"
    and a: "n_end (mm_nodes s) a \<le> nd_start n"
    and f: "nd_start (f n) = nd_start n" "nd_size (f n) = nd_size n" "nd_mm (f n) = mm_self s" "nd_allocated (f n)"
      "\<not> nd_scanned_block (f n)" "nd_hole_size (f n) = 0"
  shows "\<exists>s' hs'. occupy x a (nd_start n > n_end (mm_nodes s) a)
      (nd_start n + nd_size n < n_end (mm_nodes s) a + n_hole (mm_nodes s) a) f s1 = Some s' \<and>
    mm_inv s' ns' hs' \<and> mm_frame {x} s s' \<and>
    n_start (mm_nodes s') x = nd_start n \<and> n_size (mm_nodes s') x = nd_size n \<and>
    nd_color (the (mm_nodes s' x)) = nd_color (f n)"
proof -
  let ?H = "mm_head_node s"
  note at = mm_inv_at [OF inv L(1)]
  have xL: "x \<notin> set us" "x \<noteq> a" "x \<notin> set vs" using x(2) unfolding L(1) by simp_all
  obtain nl t where e: "do { s \<leftarrow> on_node_list (list_add x a) s1; drm_mm_interval_tree_add_node a x s } =
      Some (s1\<lparr>mm_node_list := nl, mm_interval_tree := t\<rparr>)"
    "is_list nl ?H ns'" "it_seq (LAST s1) t ns'"
    "\<forall>b. live (s1\<lparr>mm_node_list := nl, mm_interval_tree := t\<rparr>) b = live s b"
    using enter_block [OF inv L x n] by blast
  define s2 where "s2 = s1\<lparr>mm_node_list := nl, mm_interval_tree := t, mm_nodes := (mm_nodes s)(x \<mapsto> f n)\<rparr>"
  have w: "nd_write x f (s1\<lparr>mm_node_list := nl, mm_interval_tree := t\<rparr>) = Some s2"
    by (simp add: nd_write_def s2_def n(1))
  have live2: "live s2 b = live s b" for b
  proof -
    have "live s2 b = live (s1\<lparr>mm_node_list := nl, mm_interval_tree := t\<rparr>) b"
      by (simp add: live_def s2_def n(1))
    then show ?thesis using e(4) by blast
  qed
  have k: "mm_head_node s2 = ?H" "mm_node_list s2 = nl" "mm_interval_tree s2 = t" "mm_self s2 = mm_self s"
    "mm_scan_active s2 = mm_scan_active s" "mm_hole_list s2 = mm_hole_list s" "mm_hole_stack s2 = mm_hole_stack s"
    "mm_holes_size s2 = mm_holes_size s" "mm_holes_addr s2 = mm_holes_addr s" "mm_color_adjust s2 = mm_color_adjust s"
    "mm_nodes s2 = (mm_nodes s)(x \<mapsto> f n)"
    by (simp_all add: s2_def n(1))
  have F: "n_start (mm_nodes s2) c = (if c = x then nd_start n else n_start (mm_nodes s) c)"
    "n_end (mm_nodes s2) c = (if c = x then nd_start n + nd_size n else n_end (mm_nodes s) c)"
    "n_hole (mm_nodes s2) c = (if c = x then 0 else n_hole (mm_nodes s) c)" for c
    using f by (auto simp: k n_start_def n_end_def n_hole_def)
  have other: "node_ok s2 c = node_ok s c" "block_ok s2 c = block_ok s c" if "c \<noteq> x" for c
    using that live2 F by (simp_all add: node_ok_def block_ok_def k)
  have xok: "block_ok s2 x" using f n(2) live2 [of x] x(1) F by (simp add: block_ok_def node_ok_def k)
  have inv': "is_list (mm_node_list s) ?H ns" "head_ok s" "\<forall>c\<in>set ns. block_ok s c"
    "laid (mm_nodes s) (?H # ns @ [?H])" "it_seq (LAST s) (mm_interval_tree s) ns"
    "\<exists>ss. holes_rep s hs ss (hole_nodes (mm_nodes s) (?H # ns))" "mm_scan_active s = 0"
    using inv by (simp_all add: mm_inv_def)
  obtain ss where ss: "holes_rep s hs ss (hole_nodes (mm_nodes s) (?H # ns))" using inv'(6) by blast
  have H: "head_ok s2" using inv'(2) x(2) F other(1) [of ?H] by (auto simp: head_ok_def k)
  have split: "set ns' = insert x (set ns)" using L by (cases us) auto
  have blocks: "\<forall>c\<in>set ns'. block_ok s2 c" unfolding split using xok other(2) inv'(3) x(2) by (metis insert_iff list.set_intros(2))
  have laid2: "laid (mm_nodes s2) (?H # ns @ [?H])"
    by (subst laid_cong [of _ _ "mm_nodes s"]) (use F x(2) inv'(4) in \<open>auto simp: butlast_append split: if_splits\<close>)
  have ssx: "x \<notin> set ss" using ss x(2) by (auto simp: holes_rep_def)
  have hn: "hole_nodes (mm_nodes s2) (?H # ns) = hole_nodes (mm_nodes s) (?H # ns)"
    by (rule hole_nodes_cong) (use F x(2) in auto)
  have "sorted_wrt (\<lambda>c d. n_hole (mm_nodes s2) c \<ge> n_hole (mm_nodes s2) d) ss"
  proof (rule sorted_wrt_mono_rel)
    show "sorted_wrt (\<lambda>c d. n_hole (mm_nodes s) c \<ge> n_hole (mm_nodes s) d) ss" using ss by (simp add: holes_rep_def)
  qed (use F ssx in auto)
  then have rep2: "holes_rep s2 hs ss (hole_nodes (mm_nodes s2) (?H # ns))"
    unfolding hn using ss live2 by (simp add: holes_rep_def k)
  have "it_seq (LAST s2) t ns'"
    by (rule it_seq_cong [OF e(3)]) (use f in \<open>auto simp: LAST_def k n(1)\<close>)
  moreover have "n_hole (mm_nodes s) a \<noteq> 0" using n(2,3) a by auto
  ultimately have "\<exists>s' hs'. do { t1 \<leftarrow> rm_hole a s2;
      t2 \<leftarrow> c_when (n_start (mm_nodes s2) x > n_end (mm_nodes s2) a) (add_hole a) t1;
      c_when (n_end (mm_nodes s2) x < n_end (mm_nodes s2) a + n_hole (mm_nodes s2) a) (add_hole x) t2 } = Some s' \<and>
    mm_inv s' ns' hs' \<and> mm_frame {} s2 s'"
    by (intro take_place [where ns = ns and us = us and vs = vs and hs = hs and ss = ss])
      (use L e(2) H blocks laid2 rep2 inv'(7) F xL a n(3) in \<open>simp_all add: k\<close>)
  then obtain s' hs' where s': "do { t1 \<leftarrow> rm_hole a s2;
      t2 \<leftarrow> c_when (n_start (mm_nodes s2) x > n_end (mm_nodes s2) a) (add_hole a) t1;
      c_when (n_end (mm_nodes s2) x < n_end (mm_nodes s2) a + n_hole (mm_nodes s2) a) (add_hole x) t2 } = Some s'"
    "mm_inv s' ns' hs'" "mm_frame {} s2 s'" by blast
  have "mm_frame {x} s s2" using live2 by (simp add: mm_frame_def k)
  then have frame: "mm_frame {x} s s'" by (rule mm_frame_trans [OF _ s'(3)]) simp
  have fx: "n_start (mm_nodes s') x = nd_start n" "n_size (mm_nodes s') x = nd_size n"
    "nd_color (the (mm_nodes s' x)) = nd_color (f n)"
    using mm_frame_fields [OF s'(3), of x] f by (simp_all add: n_start_def n_size_def k)
  have "Option.bind (do { s \<leftarrow> on_node_list (list_add x a) s1; drm_mm_interval_tree_add_node a x s }) (\<lambda>s. do {
       s \<leftarrow> nd_write x f s; s \<leftarrow> rm_hole a s; 
       s \<leftarrow> c_when (nd_start n > n_end (mm_nodes s2) a) (add_hole a) s;
       c_when (nd_start n + nd_size n < n_end (mm_nodes s2) a + n_hole (mm_nodes s2) a) (add_hole x) s }) = Some s'"
    unfolding e(1) using w s'(1) F xL by simp
  then have "occupy x a (nd_start n > n_end (mm_nodes s) a)
      (nd_start n + nd_size n < n_end (mm_nodes s) a + n_hole (mm_nodes s) a) f s1 = Some s'"
    using F xL by (simp add: occupy_def)
  then show ?thesis using s'(2) frame fx by blast
qed

lemma insert_into_hole_spec:
  assumes inv: "mm_inv s ns hs" and L: "mm_head_node s # ns = us @ a # vs" "mm_head_node s # ns' = us @ a # x # vs"
    and x: "live s x" "x \<notin> set (mm_head_node s # ns)" "\<not> nd_scanned_block (the (mm_nodes s x))"
    and p: "n_end (mm_nodes s) a \<le> p" "p < p + sz" "p + sz \<le> n_end (mm_nodes s) a + n_hole (mm_nodes s) a"
  shows "\<exists>s' hs'. insert_into_hole x a sz color p (n_end (mm_nodes s) a) (n_end (mm_nodes s) a + n_hole (mm_nodes s) a) s = Some s' \<and>
    mm_inv s' ns' hs' \<and> mm_frame {x} s s' \<and>
    n_start (mm_nodes s') x = p \<and> n_size (mm_nodes s') x = sz \<and> nd_color (the (mm_nodes s' x)) = color"
proof -
  obtain n0 where n0: "mm_nodes s x = Some n0" using x(1) by (auto simp: live_def)
  let ?n = "n0\<lparr>nd_mm := mm_self s, nd_size := sz, nd_start := p, nd_color := color, nd_hole_size := 0\<rparr>"
  show ?thesis
    using occupy_spec [OF inv L x(1,2) refl, of ?n "nd_allocated_update (\<lambda>_. True)"] p x(3) n0
    by (simp add: insert_into_hole_def occupy_def nd_write_def)
qed

end
