(* ===== verification/Drm_Mm_Remove.thy ===== *)
theory Drm_Mm_Remove
  imports Drm_Mm_Place
begin

text \<open>\<open>drm_mm_init\<close> establishes the invariant and \<open>drm_mm_remove_node\<close> keeps it.\<close>

section \<open>drm_mm_init\<close>

lemma hole_tail_live: "hole_frame a h s s' \<Longrightarrow> live s' b = live s b"
  by (simp add: hole_frame_def)

lemma drm_mm_init_spec:
  assumes H: "live s (mm_head_node s)" "\<not> nd_scanned_block (the (mm_nodes s (mm_head_node s)))"
    and hs: "mm_hole_stack s \<in> dom (mm_hole_list s)" and range: "start < start + sz"
  shows "\<exists>s'. drm_mm_init start sz s = Some s' \<and> mm_inv s' [] [mm_head_node s] \<and> mm_color_adjust s' = None \<and>
    mm_head_node s' = mm_head_node s \<and> mm_hole_stack s' = mm_hole_stack s \<and>
    n_end (mm_nodes s') (mm_head_node s) = start \<and> n_start (mm_nodes s') (mm_head_node s) = start + sz \<and>
    (\<forall>b. live s' b = live s b) \<and> (\<forall>b. b \<noteq> mm_head_node s \<longrightarrow> mm_nodes s' b = mm_nodes s b)"
proof -
  let ?H = "mm_head_node s"
  obtain n0 where n0: "mm_nodes s ?H = Some n0" using H(1) by (auto simp: live_def)
  let ?n = "n0\<lparr>nd_allocated := False, nd_mm := mm_self s, nd_start := start + sz, nd_size := - sz\<rparr>"
  obtain hl where hl: "INIT_LIST_HEAD (mm_hole_stack s) (mm_hole_list s) = Some hl" "is_list hl (mm_hole_stack s) []"
    "dom hl = dom (mm_hole_list s)"
    using INIT_LIST_HEAD_spec [OF hs] by auto
  have "?H \<in> dom (mm_node_list s)" using H(1) by (simp add: live_def)
  then obtain nl where nl: "INIT_LIST_HEAD ?H (mm_node_list s) = Some nl" "is_list nl ?H []" "dom nl = dom (mm_node_list s)"
    using INIT_LIST_HEAD_spec by blast
  define s1 where "s1 = s\<lparr>mm_color_adjust := None, mm_hole_list := hl,
      mm_interval_tree := (mm_interval_tree s)\<lparr>rb_root := NULL, rb_leftmost := NULL\<rparr>,
      mm_holes_size := (mm_holes_size s)\<lparr>rb_root := NULL, rb_leftmost := NULL\<rparr>,
      mm_holes_addr := (mm_holes_addr s)\<lparr>rb_root := NULL\<rparr>, mm_node_list := nl,
      mm_nodes := (mm_nodes s)(?H \<mapsto> ?n)\<rparr>"
  have l1: "live s1 b = live s b" for b using n0 hl(3) nl(3) by (auto simp: live_def s1_def)
  have rep: "holes_rep s1 [] [] ([] @ [])"
    using hl(2) by (simp add: holes_rep_def s1_def rb_seq_empty plain_seq_empty)
  have fields: "n_start (mm_nodes s1) ?H = start + sz" "n_end (mm_nodes s1) ?H = start"
    by (simp_all add: s1_def n_start_def n_end_def)
  have "next_of nl ?H = Some ?H" using nl(2) by (simp add: is_list_def)
  then have "\<exists>s' ss'. add_hole ?H s1 = Some s' \<and> holes_rep s' [?H] ss' ([] @ [?H]) \<and> hole_frame ?H sz s1 s'"
    by (intro add_hole_spec [OF rep, where b = ?H]) (use H(1) l1 fields range in \<open>auto simp: s1_def\<close>)
  then obtain s2 ss2 where s2: "add_hole ?H s1 = Some s2" "holes_rep s2 [?H] ss2 [?H]" "hole_frame ?H sz s1 s2" by auto
  define s' where "s' = s2\<lparr>mm_scan_active := 0\<rparr>"
  have run: "drm_mm_init start sz s = Some s'"
    using range hl(1) nl(1) s2(1) n0
    by (simp add: drm_mm_init_def on_eqs nd_write_def s1_def s'_def not_le)
  have l: "live s' b = live s b" for b
  proof -
    have "live s' b = live s2 b" by (simp add: live_def s'_def)
    then show ?thesis using l1 [of b] hole_tail_live [OF s2(3)] by simp
  qed
  have k: "mm_nodes s' = (mm_nodes s1)(?H \<mapsto> (the (mm_nodes s1 ?H))\<lparr>nd_hole_size := sz\<rparr>)" "mm_head_node s' = ?H"
    "mm_self s' = mm_self s" "mm_node_list s' = nl" "mm_color_adjust s' = None" "mm_hole_stack s' = mm_hole_stack s"
    "mm_interval_tree s' = (mm_interval_tree s)\<lparr>rb_root := NULL, rb_leftmost := NULL\<rparr>"
    using s2(3) by (simp_all add: hole_frame_def s'_def s1_def)
  have F: "n_start (mm_nodes s') ?H = start + sz" "n_end (mm_nodes s') ?H = start" "n_hole (mm_nodes s') ?H = sz"
    unfolding k(1) using fields by simp_all
  have "head_ok s'" using l [of ?H] H(1) F range by (simp add: head_ok_def node_ok_def k s1_def)
  moreover have "it_seq (LAST s') (mm_interval_tree s') []" unfolding k by (rule it_seq_empty) simp_all
  moreover have "holes_rep s' [?H] ss2 (hole_nodes (mm_nodes s') [?H])"
  proof -
    have "holes_rep s' [?H] ss2 [?H]" using s2(2) by (simp add: holes_rep_def s'_def live_def)
    then show ?thesis using F(3) range by auto
  qed
  moreover have "mm_scan_active s' = 0" by (simp add: s'_def)
  ultimately have "mm_inv s' [] [?H]"
    using nl(2) F range by (auto simp: mm_inv_def k(2,4))
  then show ?thesis using run F k l by (intro exI [of _ s']) (simp add: s1_def)
qed

section \<open>drm_mm_remove_node\<close>

lemma rm_hole_when:
  assumes rep: "holes_rep s hs ss (us @ (if n_hole (mm_nodes s) a \<noteq> 0 then [a] else []) @ vs)" and ok: "node_ok s a"
  shows "\<exists>s' hs' ss'. c_when (n_hole (mm_nodes s) a \<noteq> 0) (rm_hole a) s = Some s' \<and> holes_rep s' hs' ss' (us @ vs) \<and>
    hole_frame a 0 s s'"
proof (cases "n_hole (mm_nodes s) a = 0")
  case True
  then show ?thesis using rep ok hole_frame_refl [of s a]
    by (intro exI [of _ s] exI [of _ hs] exI [of _ ss]) (simp add: c_when_def node_ok_def live_def)
next
  case False
  then show ?thesis using rm_hole_spec [of s hs ss us a vs] rep ok by (auto simp: c_when_def node_ok_def)
qed

text \<open>The block leaves the interval tree and the list of the nodes: all their links stay in valid memory.\<close>

lemma leave_lists:
  assumes nl: "is_list (mm_node_list s) (mm_head_node s) (us @ x # vs)" and ok: "\<forall>c\<in>set (us @ x # vs). block_ok s c"
    and seq: "it_seq (LAST s) (mm_interval_tree s) (us @ x # vs)" and n: "mm_nodes s x = Some n"
  shows "\<exists>t nl. interval_tree_remove (LAST s) x (mm_interval_tree s) = Some t \<and> list_del x (mm_node_list s) = Some nl \<and>
    is_list nl (mm_head_node s) (us @ vs) \<and> it_seq (LAST s) t (us @ vs) \<and>
    (\<forall>c. live (s\<lparr>mm_interval_tree := t, mm_node_list := nl, mm_nodes := (mm_nodes s)(x \<mapsto> n\<lparr>nd_allocated := False\<rparr>)\<rparr>) c = live s c)"
proof -
  obtain t where t: "interval_tree_remove (LAST s) x (mm_interval_tree s) = Some t" "it_seq (LAST s) t (us @ vs)"
    "it_frame (set us \<union> set vs) (mm_interval_tree s) t"
    using interval_tree_remove_spec [OF seq] by blast
  obtain nl where nl: "list_del x (mm_node_list s) = Some nl" "is_list nl (mm_head_node s) (us @ vs)" "dom nl = dom (mm_node_list s)"
    using list_del_spec [OF nl] by auto
  define s2 where "s2 = s\<lparr>mm_interval_tree := t, mm_node_list := nl, mm_nodes := (mm_nodes s)(x \<mapsto> n\<lparr>nd_allocated := False\<rparr>)\<rparr>"
  have "live s2 c = live s c" for c
  proof (cases "c \<in> set (us @ vs)")
    case True
    then have "rb_mem t c \<noteq> None" "it_subtree t c \<noteq> None"
      using rb_seq_valid [OF it_seq_rb_seq [OF t(2)]] it_seq_subtree [OF t(2)] by blast+
    moreover have "live s c" using True ok by (auto simp: block_ok_def node_ok_def)
    ultimately show ?thesis using nl(3) n by (auto simp: live_def s2_def)
  next
    case False
    then have "rb_mem t c = rb_mem (mm_interval_tree s) c" "it_subtree t c = it_subtree (mm_interval_tree s) c"
      using t(3) by (auto simp: it_frame_def)
    then show ?thesis using nl(3) n by (auto simp: live_def s2_def)
  qed
  then show ?thesis using t(1,2) nl(1,2) unfolding s2_def by blast
qed

lemma left_same:
  assumes n: "mm_nodes s x = Some n"
    and s2_def: "s2 = s\<lparr>mm_interval_tree := t, mm_node_list := nl, mm_nodes := (mm_nodes s)(x \<mapsto> n\<lparr>nd_allocated := False\<rparr>)\<rparr>"
    and l: "\<forall>c. live s2 c = live s c"
  shows "n_start (mm_nodes s2) c = n_start (mm_nodes s) c" "n_end (mm_nodes s2) c = n_end (mm_nodes s) c"
    "n_hole (mm_nodes s2) c = n_hole (mm_nodes s) c" "node_ok s2 c = node_ok s c" "c \<noteq> x \<Longrightarrow> block_ok s2 c = block_ok s c"
    "mm_head_node s \<noteq> x \<Longrightarrow> head_ok s2 = head_ok s" "LAST s2 c = LAST s c" "holes_rep s2 hs ss us = holes_rep s hs ss us"
    "mm_frame {x} s s2"
proof -
  have m: "mm_nodes s2 = (mm_nodes s)(x \<mapsto> n\<lparr>nd_allocated := False\<rparr>)" "mm_self s2 = mm_self s" "mm_head_node s2 = mm_head_node s"
    by (simp_all add: s2_def)
  show F: "n_start (mm_nodes s2) c = n_start (mm_nodes s) c" "n_end (mm_nodes s2) c = n_end (mm_nodes s) c"
    "n_hole (mm_nodes s2) c = n_hole (mm_nodes s) c" for c
    using n by (auto simp: m n_start_def n_end_def n_hole_def)
  show ok: "node_ok s2 c = node_ok s c" for c using l n by (auto simp: node_ok_def m)
  show "c \<noteq> x \<Longrightarrow> block_ok s2 c = block_ok s c" using ok F by (simp add: block_ok_def m)
  show "mm_head_node s \<noteq> x \<Longrightarrow> head_ok s2 = head_ok s" using ok F by (simp add: head_ok_def m)
  show "LAST s2 c = LAST s c" using n by (simp add: LAST_def m)
  show "holes_rep s2 hs ss us = holes_rep s hs ss us" using l F by (simp add: holes_rep_def) (simp add: s2_def)
  show "mm_frame {x} s s2" using l by (simp add: mm_frame_def m) (simp add: s2_def)
qed

text \<open>The hole behind \<open>a\<close>, if there is one, is replaced by the one up to \<open>b\<close>.\<close>

lemma widen_hole:
  assumes rep: "holes_rep s hs ss (us @ (if n_hole (mm_nodes s) a \<noteq> 0 then [a] else []) @ vs)" and a: "node_ok s a" "a \<notin> set (us @ vs)"
    and nxt: "next_of (mm_node_list s) a = Some b" "mm_nodes s b \<noteq> None"
    and us: "\<forall>c\<in>set us. n_end (mm_nodes s) c \<le> n_end (mm_nodes s) a"
    and vs: "\<forall>c\<in>set vs. n_end (mm_nodes s) a < n_end (mm_nodes s) c"
  defines "h \<equiv> n_start (mm_nodes s) b - n_end (mm_nodes s) a"
  assumes h0: "h \<noteq> 0"
  shows "\<exists>s' hs' ss'. do { s \<leftarrow> c_when (n_hole (mm_nodes s) a \<noteq> 0) (rm_hole a) s; add_hole a s } = Some s' \<and>
    holes_rep s' hs' ss' (us @ a # vs) \<and> only_holes s s' \<and>
    (\<forall>c. n_hole (mm_nodes s') c = (if c = a then h else n_hole (mm_nodes s) c))"
proof -
  have na: "mm_nodes s a \<noteq> None" using a(1) by (simp add: node_ok_def live_def)
  obtain s1 hs1 ss1 where s1: "c_when (n_hole (mm_nodes s) a \<noteq> 0) (rm_hole a) s = Some s1" "holes_rep s1 hs1 ss1 (us @ vs)"
    "hole_frame a 0 s s1" using rm_hole_when [OF rep a(1)] by blast
  have o1: "only_holes s s1" by (rule hole_frame_only [OF s1(3) na])
  note f = only_holes_same [OF o1] and n1 = hole_frame_n [OF s1(3)]
  have bn: "mm_nodes s1 b \<noteq> None" and na1: "mm_nodes s1 a \<noteq> None" using f nxt(2) na by simp_all
  have "node_ok s1 a" using f a(1) by simp
  then have ok1: "live s1 a" "nd_mm (the (mm_nodes s1 a)) = mm_self s1" by (simp_all add: node_ok_def)
  have "\<exists>s2 ss2. add_hole a s1 = Some s2 \<and> holes_rep s2 (a # hs1) ss2 (us @ a # vs) \<and> hole_frame a h s1 s2"
    by (rule add_hole_spec [OF s1(2) _ a(2) _ _ bn _ h0])
      (use ok1 nxt(1) us vs f in \<open>simp_all add: h_def\<close>)
  then obtain s2 ss2 where s2: "add_hole a s1 = Some s2" "holes_rep s2 (a # hs1) ss2 (us @ a # vs)" "hole_frame a h s1 s2" by blast
  have "only_holes s s2" by (rule only_holes_trans [OF o1 hole_frame_only [OF s2(3) na1]])
  moreover have "\<forall>c. n_hole (mm_nodes s2) c = (if c = a then h else n_hole (mm_nodes s) c)"
    using n1 hole_frame_n [OF s2(3)] by simp
  ultimately show ?thesis using s1(1) s2(1,2) by (intro exI [of _ s2] exI [of _ "a # hs1"] exI [of _ ss2]) simp
qed

lemma drm_mm_remove_node_spec:
  assumes inv: "mm_inv s (us @ x # vs) hs"
  shows "\<exists>s' hs'. drm_mm_remove_node x s = Some s' \<and> mm_inv s' (us @ vs) hs' \<and> mm_frame {x} s s' \<and>
    \<not> nd_allocated (the (mm_nodes s' x)) \<and> \<not> nd_scanned_block (the (mm_nodes s' x))"
proof -
  let ?H = "mm_head_node s" and ?m = "mm_nodes s"
  define a where "a = last (?H # us)"
  define us0 where "us0 = butlast (?H # us)"
  define b where "b = hd (vs @ [?H])"
  have La: "?H # us @ x # vs = us0 @ a # x # vs" unfolding a_def us0_def by (metis append_Cons append_assoc append_butlast_last_id append_Nil list.distinct(1))
  then have Lx: "?H # us @ x # vs = (us0 @ [a]) @ x # vs" and dLA: "?H # us @ vs = us0 @ a # vs" by (simp_all add: a_def us0_def)
  note ata = mm_inv_at [OF inv La] and atx = mm_inv_at [OF inv Lx]
  have "distinct (us0 @ a # x # vs)" using mm_inv_distinct [OF inv] unfolding La .
  then have dd: "x \<noteq> a" "x \<notin> set us0" "x \<notin> set vs" "a \<notin> set us0" "a \<notin> set vs" by auto
  have xs: "x \<notin> set (us @ vs)" "?H \<noteq> x" using mm_inv_distinct [OF inv] by auto
  have inv': "is_list (mm_node_list s) ?H (us @ x # vs)" "head_ok s" "\<forall>c\<in>set (us @ x # vs). block_ok s c"
    "laid ?m (?H # (us @ x # vs) @ [?H])" "it_seq (LAST s) (mm_interval_tree s) (us @ x # vs)" "mm_scan_active s = 0"
    using inv by (simp_all add: mm_inv_def)
  obtain ss where rep: "holes_rep s hs ss (hole_nodes ?m (?H # us @ x # vs))" using inv by (auto simp: mm_inv_def)
  have bx: "block_ok s x" using inv'(3) by simp
  then obtain n where n: "?m x = Some n" by (auto simp: block_ok_def node_ok_def live_def)
  have chk: "nd_allocated n" "\<not> nd_scanned_block n" using bx n by (simp_all add: block_ok_def)
  have prev: "prev_of (mm_node_list s) x = Some a" using is_list_prev [OF inv'(1)] by (simp add: a_def)
  (* the hole behind the block goes *)
  have rep1: "holes_rep s hs ss ((hole_nodes ?m us0 @ (if n_hole ?m a \<noteq> 0 then [a] else [])) @
      (if n_hole ?m x \<noteq> 0 then [x] else []) @ hole_nodes ?m vs)"
    using rep unfolding La by (simp split: if_splits)
  obtain s1 hs1 ss1 where s1: "c_when (n_hole ?m x \<noteq> 0) (rm_hole x) s = Some s1"
    "holes_rep s1 hs1 ss1 (hole_nodes ?m us0 @ (if n_hole ?m a \<noteq> 0 then [a] else []) @ hole_nodes ?m vs)" "hole_frame x 0 s s1"
    using rm_hole_when [OF rep1 atx(6)] by auto
  have o1: "only_holes s s1" by (rule hole_frame_only [OF s1(3)]) (simp add: n)
  note f1 = only_holes_same [OF o1] and n1 = hole_frame_n [OF s1(3)]
  obtain n' where n': "mm_nodes s1 x = Some n'" using f1(7) [of x] n by auto
  have dm: "deref_mm x s1 = Some ()" using f1(3) [of x] atx(6) n' by (simp add: deref_mm_def node_ok_def)
  (* the block leaves the interval tree and the list *)
  have "it_seq (LAST s1) (mm_interval_tree s1) (us @ x # vs)" unfolding f1(11) by (rule it_seq_cong [OF inv'(5)]) (use f1 in simp)
  then obtain t nl where t: "interval_tree_remove (LAST s1) x (mm_interval_tree s1) = Some t" "list_del x (mm_node_list s1) = Some nl"
    "is_list nl ?H (us @ vs)" "it_seq (LAST s1) t (us @ vs)" and
    l: "\<forall>c. live (s1\<lparr>mm_interval_tree := t, mm_node_list := nl, mm_nodes := (mm_nodes s1)(x \<mapsto> n'\<lparr>nd_allocated := False\<rparr>)\<rparr>) c = live s1 c"
    using leave_lists [of s1 us x vs n'] inv'(1,3) n' f1 by auto
  define s2 where "s2 = s1\<lparr>mm_interval_tree := t, mm_node_list := nl, mm_nodes := (mm_nodes s1)(x \<mapsto> n'\<lparr>nd_allocated := False\<rparr>)\<rparr>"
  note f2 = left_same [OF n' s2_def l [folded s2_def]]
  have k2: "mm_node_list s2 = nl" "mm_interval_tree s2 = t" "mm_head_node s2 = ?H" "mm_scan_active s2 = 0"
    using f1 inv'(6) by (simp_all add: s2_def)
  (* the hole before the block is made anew *)
  have gap: "n_end ?m a \<le> n_start ?m x" "n_start ?m x < n_end ?m x" "n_end ?m x \<le> n_start ?m b"
    using ata(1,2) atx(1,2) bx by (auto simp: block_ok_def b_def)
  have "node_ok s b" using inv'(2,3) by (cases vs) (auto simp: b_def block_ok_def head_ok_def)
  then have "node_ok s2 b" using f2 f1 by simp
  then have bn: "mm_nodes s2 b \<noteq> None" by (simp add: node_ok_def live_def)
  have nxt: "next_of (mm_node_list s2) a = Some b" using is_list_next [OF t(3)] by (simp add: a_def b_def k2)
  have nh: "n_hole (mm_nodes s2) c = (if c = x then 0 else n_hole ?m c)" for c using f2 n1 by simp
  have rep2: "holes_rep s2 hs1 ss1 (hole_nodes ?m us0 @ (if n_hole (mm_nodes s2) a \<noteq> 0 then [a] else []) @ hole_nodes ?m vs)"
    using s1(2) f2(8) nh dd by simp
  define h where "h = n_start ?m b - n_end ?m a"
  have h0: "h \<noteq> 0" using gap by (auto simp: h_def)
  have "\<exists>s' hs' ss'. do { s \<leftarrow> c_when (n_hole (mm_nodes s2) a \<noteq> 0) (rm_hole a) s2; add_hole a s } = Some s' \<and>
    holes_rep s' hs' ss' (hole_nodes ?m us0 @ a # hole_nodes ?m vs) \<and> only_holes s2 s' \<and>
    (\<forall>c. n_hole (mm_nodes s') c = (if c = a then n_start (mm_nodes s2) b - n_end (mm_nodes s2) a else n_hole (mm_nodes s2) c))"
    by (rule widen_hole [OF rep2 _ _ nxt bn]) (use f2 f1 ata(4-6) dd h0 in \<open>simp_all add: h_def\<close>)
  then obtain s3 hs3 ss3 where s3: "do { s \<leftarrow> c_when (n_hole (mm_nodes s2) a \<noteq> 0) (rm_hole a) s2; add_hole a s } = Some s3"
    "holes_rep s3 hs3 ss3 (hole_nodes ?m us0 @ a # hole_nodes ?m vs)" "only_holes s2 s3" and
    n3: "\<And>c. n_hole (mm_nodes s3) c = (if c = a then h else if c = x then 0 else n_hole ?m c)"
    using nh f2 f1 unfolding h_def by auto
  note f3 = only_holes_same [OF s3(3)]
  have F3: "n_start (mm_nodes s3) c = n_start ?m c" "n_end (mm_nodes s3) c = n_end ?m c" for c using f3 f2 f1 by simp_all
  have "node_ok s2 a" using f2 f1 ata(6) by simp
  then have "mm_nodes s2 a \<noteq> None" by (simp add: node_ok_def live_def)
  then have "drm_mm_hole_follows x s = Some (n_hole ?m x \<noteq> 0)" "drm_mm_hole_follows a s2 = Some (n_hole (mm_nodes s2) a \<noteq> 0)"
    using node_reads(3) n by simp_all
  then have "drm_mm_remove_node x s = Some s3"
    using n n' chk prev s1(1) dm t(1,2) s3(1) f1(10,11)
    by (simp add: drm_mm_remove_node_def drm_mm_interval_tree_remove_def on_eqs nd_write_def LAST_def s2_def)
  moreover have "mm_inv s3 (us @ vs) hs3"
  proof -
    obtain w where w: "vs @ [?H] = b # w" by (cases vs) (auto simp: b_def)
    then have ws: "set (butlast (b # w)) = set vs" by (metis butlast_snoc)
    have l: "laid ?m (us0 @ a # x # b # w)" using inv'(4) La w by (metis append_Cons append_assoc)
    have "n_end ?m a \<le> n_start ?m b" using gap by auto
    then have "laid (mm_nodes s3) (us0 @ a # b # w)"
      by (intro laid_leave [OF l]) (use F3 n3 dd in \<open>auto simp: ws h_def simp del: butlast.simps\<close>)
    then have "laid (mm_nodes s3) (?H # (us @ vs) @ [?H])" using dLA w by (metis append_Cons append_assoc)
    moreover have "hole_nodes (mm_nodes s3) (us0 @ a # vs) = hole_nodes ?m us0 @ a # hole_nodes ?m vs"
    proof -
      have "hole_nodes (mm_nodes s3) us0 = hole_nodes ?m us0" "hole_nodes (mm_nodes s3) vs = hole_nodes ?m vs"
        by (rule hole_nodes_cong; use n3 dd in auto)+
      then show ?thesis using n3 h0 by simp
    qed
    then have "holes_rep s3 hs3 ss3 (hole_nodes (mm_nodes s3) (?H # us @ vs))" unfolding dLA using s3(2) by simp
    moreover have "it_seq (LAST s3) t (us @ vs)" by (rule it_seq_cong [OF t(4)]) (use f3 f2 in simp)
    moreover have "head_ok s3" using inv'(2) f3 f2 f1 xs by simp
    moreover have "\<forall>c\<in>set (us @ vs). block_ok s3 c"
    proof
      fix c assume "c \<in> set (us @ vs)"
      then have "c \<noteq> x" "block_ok s c" using xs inv'(3) by auto
      then show "block_ok s3 c" using f3(4) f2(5) f1(4) by simp
    qed
    ultimately show ?thesis using t(3) by (auto simp: mm_inv_def f3 k2)
  qed
  moreover have "mm_frame {x} s s3 \<and> \<not> nd_allocated (the (mm_nodes s3 x)) \<and> \<not> nd_scanned_block (the (mm_nodes s3 x))"
  proof -
    have fr: "mm_frame {} s s1" "mm_frame {} s2 s3" using o1 s3(3) by (simp_all add: only_holes_def)
    have "mm_frame {x} s s2" by (rule mm_frame_trans [OF fr(1) f2(9)]) simp
    then have "mm_frame {x} s s3" by (rule mm_frame_trans [OF _ fr(2)]) simp
    then show ?thesis using mm_frame_fields [OF fr(2), of x] mm_frame_fields [OF fr(1), of x] chk(2) n n' by (simp add: s2_def)
  qed
  ultimately show ?thesis by blast
qed

end
