(* ===== verification/Drm_Mm_Search.thy ===== *)
theory Drm_Mm_Search
  imports Drm_Mm_Fit Drm_Mm_Remove
begin

text \<open>
  The search for a hole: what \<open>best_hole\<close> and \<open>find_hole\<close> return, in which order the holes are
  tried in each mode, and what the loop over them finds.
\<close>

section \<open>The two descents\<close>

lemma best_hole_loop_spec:
  assumes "tree_at (rb_mem (mm_holes_size s)) p t" and "t \<noteq> Leaf" and "\<forall>a\<in>set_rbt t. mm_nodes s a \<noteq> None"
    and "sorted_wrt (\<lambda>a b. n_hole (mm_nodes s) a \<ge> n_hole (mm_nodes s) b) (inorder t)"
  shows "best_hole_loop sz s (rootp t) best =
    Some (last (best # filter (\<lambda>a. sz \<le> n_hole (mm_nodes s) a) (inorder t)))"
  using assms
proof (induction t arbitrary: p best)
  case (Node c l a r)
  let ?h = "n_hole (mm_nodes s)"
  have at: "rb_mem (mm_holes_size s) a = Some \<lparr>rb_parent_color = p OR colbit c, rb_right = rootp r, rb_left = rootp l\<rparr>"
    "tree_at (rb_mem (mm_holes_size s)) a l" "tree_at (rb_mem (mm_holes_size s)) a r"
    using Node.prems(1) by auto
  have h: "rb_to_hole_size a s = Some (?h a)" using Node.prems(3) by (intro node_reads) simp
  have sl: "sorted_wrt (\<lambda>a b. ?h a \<ge> ?h b) (inorder l)" "sorted_wrt (\<lambda>a b. ?h a \<ge> ?h b) (inorder r)"
    "\<forall>b\<in>set_rbt r. ?h b \<le> ?h a"
    using Node.prems(4) by (auto simp: sorted_wrt_append)
  have step: "best_hole_loop sz s a best =
      (if sz \<le> ?h a then if rootp r \<noteq> NULL then best_hole_loop sz s (rootp r) a else Some a
       else if rootp l \<noteq> NULL then best_hole_loop sz s (rootp l) best else Some best)"
    using at(1) h by (subst best_hole_loop.simps) simp
  show ?case
  proof (cases "sz \<le> ?h a")
    case True
    show ?thesis
    proof (cases "r = Leaf")
      case False
      then have "best_hole_loop sz s (rootp r) a = Some (last (a # filter (\<lambda>a. sz \<le> ?h a) (inorder r)))"
        using Node.IH(2) [OF at(3)] Node.prems(3) sl by auto
      then show ?thesis using step True False rootp_NULL [OF at(3)] by simp
    qed (use step True in simp)
  next
    case F: False
    then have none: "filter (\<lambda>a. sz \<le> ?h a) (inorder r) = []" using sl(3) by (auto simp: filter_empty_conv)
    show ?thesis
    proof (cases "l = Leaf")
      case False
      then have "best_hole_loop sz s (rootp l) best = Some (last (best # filter (\<lambda>a. sz \<le> ?h a) (inorder l)))"
        using Node.IH(1) [OF at(2)] Node.prems(3) sl by auto
      then show ?thesis using step F False none rootp_NULL [OF at(2)] by simp
    qed (use step F none in simp)
  qed
qed simp

lemma best_hole_spec:
  assumes rep: "holes_rep s hs ss xs" and "xs \<noteq> []"
  shows "best_hole sz s = Some (last_of (filter (\<lambda>a. sz \<le> n_hole (mm_nodes s) a) ss))"
proof -
  obtain t where t: "rb_rep (mm_holes_size s) t" "inorder t = ss"
    using rep by (auto simp: holes_rep_def rb_seq_def cached_rep_def)
  have "ss \<noteq> []" using rep assms(2) by (auto simp: holes_rep_def)
  then have "t \<noteq> Leaf" using t(2) by auto
  moreover have "\<forall>a\<in>set_rbt t. mm_nodes s a \<noteq> None" using rep t(2) by (auto simp: holes_rep_def live_def)
  moreover have "sorted_wrt (\<lambda>a b. n_hole (mm_nodes s) a \<ge> n_hole (mm_nodes s) b) (inorder t)"
    using rep t(2) by (simp add: holes_rep_def)
  ultimately show ?thesis
    using best_hole_loop_spec [of s NULL t sz NULL] t by (auto simp: best_hole_def rb_rep_def last_of_def)
qed

text \<open>
  \<open>find_hole\<close> ends at the hole that contains the address, or else at the hole before or after
  it; the holes on either side of the result do not contain the address.
\<close>

definition apart :: "drm_mm_node store \<Rightarrow> addr list \<Rightarrow> bool" where
  "apart m xs \<longleftrightarrow> sorted_wrt (\<lambda>c d. n_end m c + n_hole m c < n_end m d) xs \<and> (\<forall>c\<in>set xs. n_end m c \<le> n_end m c + n_hole m c)"

lemma find_hole_loop_spec:
  assumes "tree_at (rb_mem (mm_holes_addr s)) p t" and "t \<noteq> Leaf" and "\<forall>a\<in>set_rbt t. mm_nodes s a \<noteq> None"
    and "apart (mm_nodes s) (inorder t)"
  shows "\<exists>us h vs. find_hole_loop addr s (rootp t) prev = Some h \<and> inorder t = us @ h # vs \<and>
    (\<forall>c\<in>set us. n_end (mm_nodes s) c + n_hole (mm_nodes s) c < addr) \<and> (\<forall>c\<in>set vs. addr < n_end (mm_nodes s) c)"
  using assms
proof (induction t arbitrary: p prev)
  case (Node c l a r)
  let ?e = "n_end (mm_nodes s)" and ?f = "\<lambda>c. n_end (mm_nodes s) c + n_hole (mm_nodes s) c"
  have at: "rb_mem (mm_holes_addr s) a = Some \<lparr>rb_parent_color = p OR colbit c, rb_right = rootp r, rb_left = rootp l\<rparr>"
    "tree_at (rb_mem (mm_holes_addr s)) a l" "tree_at (rb_mem (mm_holes_addr s)) a r" "a \<noteq> NULL"
    using Node.prems(1) by (auto simp: valid_ptr_def)
  have "mm_nodes s a \<noteq> None" using Node.prems(3) by simp
  note h = node_reads [OF this]
  have ap: "apart (mm_nodes s) (inorder l)" "apart (mm_nodes s) (inorder r)" "\<forall>b\<in>set_rbt l. ?f b < ?e a"
    "\<forall>b\<in>set_rbt r. ?f a < ?e b" "?e a \<le> ?f a"
    using Node.prems(4) by (auto simp: apart_def sorted_wrt_append)
  have step: "find_hole_loop addr s a prev =
      (if addr < ?e a then find_hole_loop addr s (rootp l) a
       else if addr > ?f a then find_hole_loop addr s (rootp r) a else Some a)"
    using at(1,4) h by (subst find_hole_loop.simps) simp
  have nl: "find_hole_loop addr s NULL a = Some a" by (simp add: find_hole_loop.simps)
  consider "addr < ?e a" | "?f a < addr" | "?e a \<le> addr" "addr \<le> ?f a" by fastforce
  then show ?case
  proof cases
    case 1
    have right: "\<forall>b\<in>set_rbt r. addr < ?e b"
    proof
      fix b assume "b \<in> set_rbt r"
      then have "?f a < ?e b" using ap(4) by blast
      then show "addr < ?e b" using 1 ap(5) by simp
    qed
    show ?thesis
    proof (cases "l = Leaf")
      case True
      then show ?thesis using step 1 nl right by (intro exI [of _ "[]"] exI [of _ a] exI [of _ "inorder r"]) simp
    next
      case False
      then obtain us h vs where "find_hole_loop addr s (rootp l) a = Some h" "inorder l = us @ h # vs"
        "\<forall>c\<in>set us. ?f c < addr" "\<forall>c\<in>set vs. addr < ?e c"
        using Node.IH(1) [OF at(2) False _ ap(1), of a] Node.prems(3) by auto
      then show ?thesis using step 1 right
        by (intro exI [of _ us] exI [of _ h] exI [of _ "vs @ a # inorder r"]) auto
    qed
  next
    case 2
    have na: "\<not> addr < ?e a" using 2 ap(5) by simp
    have left: "\<forall>b\<in>set_rbt l. ?f b < addr"
    proof
      fix b assume "b \<in> set_rbt l"
      then have "?f b < ?e a" using ap(3) by blast
      then show "?f b < addr" using na by simp
    qed
    show ?thesis
    proof (cases "r = Leaf")
      case True
      then show ?thesis using step 2 na nl left by (intro exI [of _ "inorder l"] exI [of _ a] exI [of _ "[]"]) simp
    next
      case False
      then obtain us h vs where "find_hole_loop addr s (rootp r) a = Some h" "inorder r = us @ h # vs"
        "\<forall>c\<in>set us. ?f c < addr" "\<forall>c\<in>set vs. addr < ?e c"
        using Node.IH(2) [OF at(3) False _ ap(2), of a] Node.prems(3) by auto
      then show ?thesis using step 2 na left
        by (intro exI [of _ "inorder l @ a # us"] exI [of _ h] exI [of _ vs]) auto
    qed
  next
    case 3
    have "\<forall>b\<in>set_rbt l. ?f b < addr" "\<forall>b\<in>set_rbt r. addr < ?e b"
      using 3 ap(3,4) by (auto intro: less_le_trans le_less_trans)
    moreover have "find_hole_loop addr s a prev = Some a" using step 3 by (simp add: linorder_not_le [symmetric])
    ultimately show ?thesis by auto
  qed
qed simp

lemma find_hole_spec:
  assumes rep: "holes_rep s hs ss xs" and "xs \<noteq> []" and "apart (mm_nodes s) xs"
  shows "\<exists>us h vs. find_hole addr s = Some h \<and> xs = us @ h # vs \<and>
    (\<forall>c\<in>set us. n_end (mm_nodes s) c + n_hole (mm_nodes s) c < addr) \<and> (\<forall>c\<in>set vs. addr < n_end (mm_nodes s) c)"
proof -
  obtain t where t: "rb_rep (mm_holes_addr s) t" "inorder t = xs"
    using rep by (auto simp: holes_rep_def plain_seq_def)
  have "t \<noteq> Leaf" using t(2) assms(2) by auto
  moreover have "\<forall>a\<in>set_rbt t. mm_nodes s a \<noteq> None" using rep t(2) by (auto simp: holes_rep_def live_def)
  moreover have "tree_at (rb_mem (mm_holes_addr s)) NULL t" "rb_root (mm_holes_addr s) = rootp t"
    using t(1) by (simp_all add: rb_rep_def)
  ultimately show ?thesis
    using find_hole_loop_spec [of s NULL t addr NULL] t(2) assms(3) by (simp add: find_hole_def)
qed

lemma sorted_wrt_splitI:
  "(\<And>us a vs c. xs = us @ a # vs \<Longrightarrow> c \<in> set vs \<Longrightarrow> R a c) \<Longrightarrow> sorted_wrt R xs"
proof (induction xs)
  case (Cons x xs)
  have "\<forall>c\<in>set xs. R x c" using Cons.prems [of "[]" x xs] by simp
  moreover have "sorted_wrt R xs"
    by (rule Cons.IH) (use Cons.prems in \<open>metis append_Cons\<close>)
  ultimately show ?case by simp
qed simp

lemma mm_inv_apart:
  assumes inv: "mm_inv s ns hs"
  shows "apart (mm_nodes s) (hole_nodes (mm_nodes s) (mm_head_node s # ns))"
proof -
  let ?m = "mm_nodes s" and ?H = "mm_head_node s"
  have gap: "n_end ?m c \<le> n_end ?m c + n_hole ?m c" if "c \<in> set (?H # ns)" for c
    using that mm_inv_at(1) [OF inv] by (metis split_list)
  have "sorted_wrt (\<lambda>c d. n_end ?m c + n_hole ?m c < n_end ?m d) (?H # ns)"
  proof (rule sorted_wrt_splitI)
    fix us a vs c assume L: "?H # ns = us @ a # vs" and c: "c \<in> set vs"
    have "c \<in> set ns" using L c by (cases us) auto
    then have "n_start ?m c < n_end ?m c" using inv by (auto simp: mm_inv_def block_ok_def)
    moreover have "n_end ?m a + n_hole ?m a \<le> n_start ?m c" using mm_inv_at(3) [OF inv L] c by auto
    ultimately show "n_end ?m a + n_hole ?m a < n_end ?m c" by simp
  qed
  then show ?thesis using gap by (auto simp: apart_def hole_nodes_def intro: sorted_wrt_filter)
qed

section \<open>The holes in the order they are tried\<close>

text \<open>The next hole of each of the \<open>zs\<close> is the next of them.\<close>

definition chain :: "u32 \<Rightarrow> drm_mm \<Rightarrow> addr list \<Rightarrow> bool" where
  "chain mode s zs \<longleftrightarrow> (\<forall>as c cs. zs = as @ c # cs \<longrightarrow>
     c \<noteq> NULL \<and> mm_nodes s c \<noteq> None \<and> next_hole c mode s = Some (first_of cs))"

lemma chain_tl: "chain mode s (c # cs) \<Longrightarrow> chain mode s cs"
  unfolding chain_def by (metis append_Cons)

lemma chain_hd: "chain mode s (c # cs) \<Longrightarrow> c \<noteq> NULL \<and> mm_nodes s c \<noteq> None \<and> next_hole c mode s = Some (first_of cs)"
  unfolding chain_def by (metis append_Nil)

lemma chainI:
  assumes "\<forall>c\<in>set zs. live s c" and "\<And>as c cs. zs = as @ c # cs \<Longrightarrow> next_hole c mode s = Some (first_of cs)"
  shows "chain mode s zs"
  using assms by (auto simp: chain_def live_def valid_ptr_def)

lemma holes_in_order:
  assumes rep: "holes_rep s hs ss xs" and ne: "xs \<noteq> []" and ap: "apart (mm_nodes s) xs"
  shows "\<exists>zs. first_hole start end sz mode s = Some (first_of zs) \<and> chain mode s zs \<and> set zs \<subseteq> set xs \<and>
    (if mode = DRM_MM_INSERT_LOW then \<exists>us h vs. zs = h # vs \<and> xs = us @ zs \<and>
       (\<forall>c\<in>set us. n_end (mm_nodes s) c + n_hole (mm_nodes s) c < start) \<and> (\<forall>c\<in>set vs. start < n_end (mm_nodes s) c)
     else if mode = DRM_MM_INSERT_HIGH then \<exists>us h vs. zs = h # us \<and> xs = rev zs @ vs \<and>
       (\<forall>c\<in>set us. n_end (mm_nodes s) c + n_hole (mm_nodes s) c < end) \<and> (\<forall>c\<in>set vs. end < n_end (mm_nodes s) c)
     else if mode = DRM_MM_INSERT_EVICT then zs = hs
     else zs = rev (filter (\<lambda>a. sz \<le> n_hole (mm_nodes s) a) ss))"
proof -
  have live: "\<forall>c\<in>set xs. live s c" and sets: "set hs = set xs" "set ss = set xs"
    and trees: "plain_seq (mm_holes_addr s) xs" "rb_seq (mm_holes_size s) ss" "is_list (mm_hole_list s) (mm_hole_stack s) hs"
    and sorted: "sorted_wrt (\<lambda>a b. n_hole (mm_nodes s) a \<ge> n_hole (mm_nodes s) b) ss"
    using rep by (simp_all add: holes_rep_def)
  consider "mode = DRM_MM_INSERT_LOW" | "mode = DRM_MM_INSERT_HIGH" | "mode = DRM_MM_INSERT_EVICT"
    | "mode \<noteq> DRM_MM_INSERT_LOW" "mode \<noteq> DRM_MM_INSERT_HIGH" "mode \<noteq> DRM_MM_INSERT_EVICT" by blast
  then show ?thesis
  proof cases
    case 1
    obtain us h vs where h: "find_hole start s = Some h" "xs = us @ h # vs"
      "\<forall>c\<in>set us. n_end (mm_nodes s) c + n_hole (mm_nodes s) c < start" "\<forall>c\<in>set vs. start < n_end (mm_nodes s) c"
      using find_hole_spec [OF rep ne ap] by blast
    have "chain mode s (h # vs)"
    proof (rule chainI)
      show "next_hole c mode s = Some (first_of cs)" if "h # vs = as @ c # cs" for as c cs
        using plain_seq_next [of "mm_holes_addr s" "us @ as" c cs] trees(1) h(2) that 1 by (simp add: next_hole_def)
    qed (use live h(2) in auto)
    then show ?thesis using 1 h by (intro exI [of _ "h # vs"]) (auto simp: first_hole_def first_of_def)
  next
    case 2
    obtain us h vs where h: "find_hole end s = Some h" "xs = us @ h # vs" "\<forall>c\<in>set vs. end < n_end (mm_nodes s) c"
      "\<forall>c\<in>set us. n_end (mm_nodes s) c + n_hole (mm_nodes s) c < end"
      using find_hole_spec [OF rep ne ap] by blast
    have m: "mode \<noteq> DRM_MM_INSERT_LOW" using 2 by (simp add: mode_defs)
    have "chain mode s (h # rev us)"
    proof (rule chainI)
      fix as c cs assume e: "h # rev us = as @ c # cs"
      then have "rev (h # rev us) = rev cs @ c # rev as" by simp
      then have "xs = rev cs @ c # rev as @ vs" using h(2) by simp
      then have "rb_prev c (mm_holes_addr s) = Some (last_of (rev cs))" using plain_seq_prev trees(1) by blast
      then show "next_hole c mode s = Some (first_of cs)"
        using 2 m by (simp add: next_hole_def last_of_def first_of_def last_rev)
    qed (use live h(2) in auto)
    then show ?thesis using 2 m h by (intro exI [of _ "h # rev us"]) (auto simp: first_hole_def first_of_def)
  next
    case 3
    have m: "mode \<noteq> DRM_MM_INSERT_LOW" "mode \<noteq> DRM_MM_INSERT_HIGH" using 3 by (simp_all add: mode_defs)
    have "chain mode s hs"
    proof (rule chainI)
      fix as c cs assume e: "hs = as @ c # cs"
      have "next_of (mm_hole_list s) c = Some (hd (cs @ [mm_hole_stack s]))"
        using is_list_next [of "mm_hole_list s" "mm_hole_stack s" "as @ [c]" cs] trees(3) e by simp
      moreover have "mm_hole_stack s \<notin> set hs" using trees(3) by (simp add: is_list_def)
      ultimately show "next_hole c mode s = Some (first_of cs)"
        using 3 m e by (cases cs) (auto simp: next_hole_def first_of_def)
    qed (use live sets in auto)
    moreover have "first_hole start end sz mode s = Some (first_of hs)"
      using list_first_entry_or_null_spec [OF trees(3)] 3 m by (cases hs) (simp_all add: first_hole_def first_of_def)
    ultimately show ?thesis using 3 m sets by auto
  next
    case 4
    define fs where "fs = filter (\<lambda>a. sz \<le> n_hole (mm_nodes s) a) ss"
    obtain gs where gs: "ss = fs @ gs"
    proof -
      have "fs = filter (\<lambda>a. \<not> sz > n_hole (mm_nodes s) a) ss" by (simp add: fs_def not_less)
      then show thesis using filter_split_desc [OF sorted, of sz] that by metis
    qed
    have "chain mode s (rev fs)"
    proof (rule chainI)
      fix as c cs assume e: "rev fs = as @ c # cs"
      then have "rev (rev fs) = rev cs @ c # rev as" by simp
      then have "ss = rev cs @ c # rev as @ gs" using gs by simp
      then have "rb_prev c (mm_holes_size s) = Some (last_of (rev cs))" using rb_seq_prev trees(2) by blast
      then show "next_hole c mode s = Some (first_of cs)"
        using 4 by (simp add: next_hole_def last_of_def first_of_def last_rev)
    next
      show "\<forall>c\<in>set (rev fs). live s c" using live sets gs by auto
    qed
    moreover have "first_hole start end sz mode s = Some (first_of (rev fs))"
      using best_hole_spec [OF rep ne, of sz] 4 by (simp add: first_hole_def fs_def last_of_def first_of_def hd_rev)
    ultimately show ?thesis using 4 sets gs unfolding fs_def [symmetric] by (intro exI [of _ "rev fs"]) auto
  qed
qed


section \<open>The loop over the holes\<close>

text \<open>The bounds of a hole after colour adjustment, and what fits into it.\<close>

definition hole_window :: "drm_mm \<Rightarrow> u64 \<Rightarrow> addr \<Rightarrow> u64 \<times> u64" where
  "hole_window s color c =
     adjust_colour c color (n_end (mm_nodes s) c, n_end (mm_nodes s) c + n_hole (mm_nodes s) c) s"

text \<open>The block of \<open>sz\<close> bytes at \<open>q\<close> lies in the hole behind \<open>c\<close> and in the range.\<close>

definition place_in :: "drm_mm \<Rightarrow> u64 \<Rightarrow> u64 \<Rightarrow> u64 \<Rightarrow> u64 \<Rightarrow> u64 \<Rightarrow> addr \<Rightarrow> u64 \<Rightarrow> bool" where
  "place_in s color range_start range_end sz al c q \<longleftrightarrow>
     place_ok (max (fst (hole_window s color c)) range_start) (min (snd (hole_window s color c)) range_end) sz al q"

text \<open>
  The documented contract of \<open>color_adjust\<close>: it further restricts a hole.
\<close>

definition colour_narrows :: "drm_mm \<Rightarrow> bool" where
  "colour_narrows s \<longleftrightarrow> (\<forall>c color b e. fst (adjust_colour c color (b, e) s) \<ge> b \<and> snd (adjust_colour c color (b, e) s) \<le> e)"

lemma place_in_hole:
  assumes "colour_narrows s" and "place_in s color rs re sz al c q"
  shows "n_end (mm_nodes s) c \<le> q" "q < q + sz" "q + sz \<le> n_end (mm_nodes s) c + n_hole (mm_nodes s) c"
    "rs \<le> q" "q + sz \<le> re" "1 < al \<Longrightarrow> q mod al = 0"
proof -
  have "n_end (mm_nodes s) c \<le> fst (hole_window s color c)"
    "snd (hole_window s color c) \<le> n_end (mm_nodes s) c + n_hole (mm_nodes s) c"
    using assms(1) by (simp_all add: colour_narrows_def hole_window_def)
  then show "n_end (mm_nodes s) c \<le> q" "q < q + sz" "q + sz \<le> n_end (mm_nodes s) c + n_hole (mm_nodes s) c"
    "rs \<le> q" "q + sz \<le> re" "1 < al \<Longrightarrow> q mod al = 0"
    using assms(2) unfolding place_in_def place_ok_def by auto
qed

text \<open>What the loop finds along the list of the holes it tries.\<close>

fun try_holes :: "(addr \<Rightarrow> bool) \<Rightarrow> (addr \<Rightarrow> u64 option) \<Rightarrow> bool \<Rightarrow> addr list \<Rightarrow> (addr \<times> u64) option" where
  "try_holes stop place once [] = None"
| "try_holes stop place once (c # cs) =
     (if stop c then None
      else case place c of Some p \<Rightarrow> Some (c, p) | None \<Rightarrow> if once then None else try_holes stop place once cs)"

lemma try_holes_SomeD:
  "try_holes stop place once zs = Some (c, p) \<Longrightarrow> \<exists>as cs. zs = as @ c # cs \<and> place c = Some p \<and> (\<forall>d\<in>set as. place d = None)"
proof (induction zs)
  case (Cons z zs)
  show ?case
  proof (cases "place z")
    case None
    then obtain as cs where "zs = as @ c # cs" "place c = Some p" "\<forall>d\<in>set as. place d = None"
      using Cons by (auto split: if_splits)
    then show ?thesis using None by (intro exI [of _ "z # as"] exI [of _ cs]) simp
  next
    case (Some q)
    then show ?thesis using Cons.prems by (intro exI [of _ "[]"] exI [of _ zs]) (simp split: if_splits)
  qed
qed simp

lemma try_holes_NoneD:
  "try_holes stop place False zs = None \<Longrightarrow> \<exists>as cs. zs = as @ cs \<and> (\<forall>d\<in>set as. place d = None) \<and> (cs = [] \<or> stop (hd cs))"
proof (induction zs)
  case (Cons z zs)
  show ?case
  proof (cases "stop z")
    case True
    then show ?thesis by (intro exI [of _ "[]"] exI [of _ "z # zs"]) simp
  next
    case False
    then obtain as cs where "zs = as @ cs" "\<forall>d\<in>set as. place d = None" "cs = [] \<or> stop (hd cs)" "place z = None"
      using Cons by (auto split: option.splits)
    then show ?thesis by (intro exI [of _ "z # as"] exI [of _ cs]) simp
  qed
qed simp

definition loop_stop :: "u32 \<Rightarrow> u64 \<Rightarrow> u64 \<Rightarrow> drm_mm \<Rightarrow> addr \<Rightarrow> bool" where
  "loop_stop mode rs re s c \<longleftrightarrow> mode = DRM_MM_INSERT_LOW \<and> n_end (mm_nodes s) c \<ge> re \<or>
     mode = DRM_MM_INSERT_HIGH \<and> n_end (mm_nodes s) c + n_hole (mm_nodes s) c \<le> rs"

definition loop_place :: "u32 \<Rightarrow> u64 \<Rightarrow> u64 \<Rightarrow> u64 \<Rightarrow> u64 \<Rightarrow> u64 \<Rightarrow> drm_mm \<Rightarrow> addr \<Rightarrow> u64 option" where
  "loop_place mode color rs re sz al s c = the (fit_in_hole (fst (hole_window s color c)) (snd (hole_window s color c))
     rs re sz al (hole_remainder_mask al) mode)"

lemma loop_place_best:
  assumes "sz \<noteq> 0" and "al \<noteq> 1"
  shows "fit_in_hole (fst (hole_window s color c)) (snd (hole_window s color c)) rs re sz al (hole_remainder_mask al) mode =
      Some (loop_place mode color rs re sz al s c)"
    and "loop_place mode color rs re sz al s c = None \<Longrightarrow> \<not> place_in s color rs re sz al c q"
    and "loop_place mode color rs re sz al s c = Some p \<Longrightarrow> place_in s color rs re sz al c p"
    and "loop_place mode color rs re sz al s c = Some p \<Longrightarrow> place_in s color rs re sz al c q \<Longrightarrow>
      (if mode = DRM_MM_INSERT_HIGH then q \<le> p else p \<le> q)"
proof -
  obtain r where r: "fit_in_hole (fst (hole_window s color c)) (snd (hole_window s color c)) rs re sz al (hole_remainder_mask al) mode = Some r"
    "best_place (max (fst (hole_window s color c)) rs) (min (snd (hole_window s color c)) re) sz al (mode = DRM_MM_INSERT_HIGH) r"
    using fit_in_hole_spec [OF assms] by blast
  have l: "loop_place mode color rs re sz al s c = r" using r(1) by (simp add: loop_place_def)
  show "fit_in_hole (fst (hole_window s color c)) (snd (hole_window s color c)) rs re sz al (hole_remainder_mask al) mode =
      Some (loop_place mode color rs re sz al s c)"
    "loop_place mode color rs re sz al s c = None \<Longrightarrow> \<not> place_in s color rs re sz al c q"
    "loop_place mode color rs re sz al s c = Some p \<Longrightarrow> place_in s color rs re sz al c p"
    "loop_place mode color rs re sz al s c = Some p \<Longrightarrow> place_in s color rs re sz al c q \<Longrightarrow>
      (if mode = DRM_MM_INSERT_HIGH then q \<le> p else p \<le> q)"
    using r(2) unfolding l r(1) by (auto simp: best_place_def place_in_def)
qed

lemma insert_hole_loop_spec:
  assumes "chain mode s zs" and sz: "sz \<noteq> 0" "al \<noteq> 1"
  shows "insert_hole_loop x sz al color rs re (hole_remainder_mask al) mode once (first_of zs) s =
    (case try_holes (loop_stop mode rs re s) (loop_place mode color rs re sz al s) once zs of
       None \<Rightarrow> Some (- ENOSPC, s)
     | Some (c, p) \<Rightarrow> do {
         s \<leftarrow> insert_into_hole x c sz color p (n_end (mm_nodes s) c) (n_end (mm_nodes s) c + n_hole (mm_nodes s) c) s;
         Some (0, s) })"
  using assms(1)
proof (induction zs)
  case Nil
  then show ?case by (simp add: first_of_def insert_hole_loop.simps)
next
  case (Cons c cs)
  note c = chain_hd [OF Cons.prems]
  note n = node_reads [OF c [THEN conjunct2, THEN conjunct1]]
  obtain ws we where hw: "hole_window s color c = (ws, we)" by (cases "hole_window s color c")
  have w: "adjust_colour c color (n_end (mm_nodes s) c, n_end (mm_nodes s) c + n_hole (mm_nodes s) c) s = (ws, we)"
    using hw by (simp add: hole_window_def)
  have fit: "fit_in_hole ws we rs re sz al (hole_remainder_mask al) mode = Some (loop_place mode color rs re sz al s c)"
    using loop_place_best(1) [OF sz, of s color c rs re mode] hw by simp
  have nil: "insert_hole_loop x sz al color rs re (hole_remainder_mask al) mode once NULL s = Some (- ENOSPC, s)"
    by (simp add: insert_hole_loop.simps)
  have f: "first_of (c # cs) = c" by (simp add: first_of_def)
  have IH: "insert_hole_loop x sz al color rs re (hole_remainder_mask al) mode once (first_of cs) s =
    (case try_holes (loop_stop mode rs re s) (loop_place mode color rs re sz al s) once cs of
       None \<Rightarrow> Some (- ENOSPC, s)
     | Some (c, p) \<Rightarrow> do {
         s \<leftarrow> insert_into_hole x c sz color p (n_end (mm_nodes s) c) (n_end (mm_nodes s) c + n_hole (mm_nodes s) c) s;
         Some (0, s) })"
    by (rule Cons.IH [OF chain_tl [OF Cons.prems]])
  show ?case
    unfolding f
    by (subst insert_hole_loop.simps, cases "loop_place mode color rs re sz al s c")
      (use c n(1,2) w fit nil IH in \<open>auto simp: loop_stop_def Let_def\<close>)
qed

end
