(* ===== verification/Drm_Mm_Insert.thy ===== *)
theory Drm_Mm_Insert
  imports Drm_Mm_Search
begin

text \<open>
  \<open>drm_mm_insert_node_in_range\<close> and \<open>drm_mm_reserve_node\<close> as a whole: where the block goes, and
  that there is no place for it when they return \<open>-ENOSPC\<close>.
\<close>

lemma in_hole_nodes: "c \<in> set (hole_nodes m xs) \<longleftrightarrow> c \<in> set xs \<and> n_hole m c \<noteq> 0"
  by (auto simp: hole_nodes_def)

lemma u64_fits:
  fixes a :: u64
  assumes "a \<le> q" "q < q + sz" "q + sz \<le> a + h" "a \<le> a + h"
  shows "sz \<le> h"
proof -
  have "unat (a + h) = unat a + unat h" "unat (q + sz) = unat q + unat sz"
    using assms(2,4) by (metis less_imp_le unat_plus_simple word_le_nat_alt)+
  then show ?thesis using assms(1,3) by (simp add: word_le_nat_alt)
qed

lemma hole_nodes_sub: "set (hole_nodes m xs) \<subseteq> set xs"
  by (auto simp: hole_nodes_def)

definition no_place :: "drm_mm \<Rightarrow> u64 \<Rightarrow> u64 \<Rightarrow> u64 \<Rightarrow> u64 \<Rightarrow> u64 \<Rightarrow> addr list \<Rightarrow> bool" where
  "no_place s color rs re sz al xs \<longleftrightarrow> (\<forall>c\<in>set xs. \<forall>q. \<not> place_in s color rs re sz al c q)"

text \<open>What the mode promises of the place \<open>p\<close> in the hole behind \<open>a\<close>.\<close>

definition mode_best :: "u32 \<Rightarrow> drm_mm \<Rightarrow> u64 \<Rightarrow> u64 \<Rightarrow> u64 \<Rightarrow> u64 \<Rightarrow> u64 \<Rightarrow> addr list \<Rightarrow> addr \<Rightarrow> u64 \<Rightarrow> bool" where
  "mode_best mode s color rs re sz al xs a p \<longleftrightarrow> (\<forall>c\<in>set xs. \<forall>q. place_in s color rs re sz al c q \<longrightarrow>
     (if mode = DRM_MM_INSERT_LOW then p \<le> q
      else if mode = DRM_MM_INSERT_HIGH then q \<le> p
      else if mode = DRM_MM_INSERT_EVICT then True
      else n_hole (mm_nodes s) a \<le> n_hole (mm_nodes s) c))"

lemma apart_append:
  "apart m (us @ c # vs) \<Longrightarrow> d \<in> set vs \<Longrightarrow> n_end m c + n_hole m c < n_end m d"
  "apart m (us @ c # vs) \<Longrightarrow> d \<in> set us \<Longrightarrow> n_end m d + n_hole m d < n_end m c"
  by (auto simp: apart_def sorted_wrt_append)

lemma apart_le:
  assumes ap: "apart m (us @ d # vs)"
  shows "c \<in> set (d # vs) \<Longrightarrow> n_end m d \<le> n_end m c"
    and "c \<in> set (d # us) \<Longrightarrow> n_end m c + n_hole m c \<le> n_end m d + n_hole m d"
proof -
  have d: "n_end m d \<le> n_end m d + n_hole m d" using ap by (simp add: apart_def)
  show "n_end m d \<le> n_end m c" if "c \<in> set (d # vs)"
    using apart_append(1) [OF ap, of c] that d by (cases "c = d") auto
  show "n_end m c + n_hole m c \<le> n_end m d + n_hole m d" if "c \<in> set (d # us)"
    using apart_append(2) [OF ap, of c] that d by (cases "c = d") auto
qed

text \<open>The order in which the loop tries the holes \<open>xs\<close>, by mode (lemma \<open>holes_in_order\<close>).\<close>

definition tried_in_order :: "u32 \<Rightarrow> u64 \<Rightarrow> u64 \<Rightarrow> u64 \<Rightarrow> drm_mm \<Rightarrow> addr list \<Rightarrow> addr list \<Rightarrow> addr list \<Rightarrow> addr list \<Rightarrow> bool" where
  "tried_in_order mode rs re sz s xs hs ss zs \<longleftrightarrow>
     (if mode = DRM_MM_INSERT_LOW then \<exists>us h vs. zs = h # vs \<and> xs = us @ zs \<and>
        (\<forall>c\<in>set us. n_end (mm_nodes s) c + n_hole (mm_nodes s) c < rs) \<and> (\<forall>c\<in>set vs. rs < n_end (mm_nodes s) c)
      else if mode = DRM_MM_INSERT_HIGH then \<exists>us h vs. zs = h # us \<and> xs = rev zs @ vs \<and>
        (\<forall>c\<in>set us. n_end (mm_nodes s) c + n_hole (mm_nodes s) c < re) \<and> (\<forall>c\<in>set vs. re < n_end (mm_nodes s) c)
      else if mode = DRM_MM_INSERT_EVICT then zs = hs
      else zs = rev (filter (\<lambda>a. sz \<le> n_hole (mm_nodes s) a) ss))"

text \<open>A hole with a place is among the holes that are tried.\<close>

lemma place_is_tried:
  assumes ord: "tried_in_order mode rs re sz s xs hs ss zs" and ap: "apart (mm_nodes s) xs" and cn: "colour_narrows s"
    and sets: "set hs = set xs" "set ss = set xs" and c: "c \<in> set xs" and q: "place_in s color rs re sz al c q"
  shows "c \<in> set zs" and "sz \<le> n_hole (mm_nodes s) c"
proof -
  note h = place_in_hole [OF cn q]
  have "n_end (mm_nodes s) c \<le> n_end (mm_nodes s) c + n_hole (mm_nodes s) c" using ap c by (auto simp: apart_def)
  then show big: "sz \<le> n_hole (mm_nodes s) c" by (rule u64_fits [OF h(1-3)])
  have "\<not> n_end (mm_nodes s) c + n_hole (mm_nodes s) c < rs" "\<not> re < n_end (mm_nodes s) c" using h by auto
  then show "c \<in> set zs" using ord c sets big unfolding tried_in_order_def by (fastforce split: if_splits)
qed

text \<open>Once the loop has stopped, no hole that it has not tried has a place.\<close>

lemma stopped_no_place:
  assumes ord: "tried_in_order mode rs re sz s xs hs ss (as @ d # ds)" and ap: "apart (mm_nodes s) xs" and cn: "colour_narrows s"
    and stop: "loop_stop mode rs re s d" and c: "c \<in> set (d # ds)"
  shows "\<not> place_in s color rs re sz al c q"
proof
  assume q: "place_in s color rs re sz al c q"
  note h = place_in_hole [OF cn q]
  have "DRM_MM_INSERT_HIGH \<noteq> DRM_MM_INSERT_LOW" by (simp add: mode_defs)
  then consider us where "xs = (us @ as) @ d # ds" "re \<le> n_end (mm_nodes s) d"
    | vs where "xs = rev ds @ d # rev as @ vs" "n_end (mm_nodes s) d + n_hole (mm_nodes s) d \<le> rs"
    using ord stop unfolding tried_in_order_def by (fastforce simp: loop_stop_def split: if_splits)
  then show False
  proof cases
    case 1
    then have "n_end (mm_nodes s) d \<le> n_end (mm_nodes s) c" using apart_le(1) [OF ap [unfolded 1(1)] c] by simp
    then show False using 1(2) h(1,2,5) by simp
  next
    case 2
    then have "n_end (mm_nodes s) c + n_hole (mm_nodes s) c \<le> n_end (mm_nodes s) d + n_hole (mm_nodes s) d"
      using apart_le(2) [OF ap [unfolded 2(1)], of c] c by simp
    then show False using 2(2) h(2-4) by simp
  qed
qed

text \<open>The first place that is found is the best one for the mode.\<close>

lemma taken_is_best:
  assumes ord: "tried_in_order mode rs re sz s xs hs ss (as @ a # cs)" and ap: "apart (mm_nodes s) xs" and cn: "colour_narrows s"
    and ss: "sorted_wrt (\<lambda>a b. n_hole (mm_nodes s) a \<ge> n_hole (mm_nodes s) b) ss"
    and p: "place_in s color rs re sz al a p" and c: "c \<in> set cs" and q: "place_in s color rs re sz al c q"
  shows "if mode = DRM_MM_INSERT_LOW then p \<le> q
    else if mode = DRM_MM_INSERT_HIGH then q \<le> p
    else if mode = DRM_MM_INSERT_EVICT then True
    else n_hole (mm_nodes s) a \<le> n_hole (mm_nodes s) c"
proof -
  let ?m = "mm_nodes s"
  note hp = place_in_hole [OF cn p] and hq = place_in_hole [OF cn q]
  consider (low) us where "mode = DRM_MM_INSERT_LOW" "xs = (us @ as) @ a # cs"
    | (high) vs where "mode = DRM_MM_INSERT_HIGH" "mode \<noteq> DRM_MM_INSERT_LOW" "xs = rev cs @ a # rev as @ vs"
    | (evict) "mode = DRM_MM_INSERT_EVICT" "mode \<noteq> DRM_MM_INSERT_LOW" "mode \<noteq> DRM_MM_INSERT_HIGH"
    | (best) "mode \<noteq> DRM_MM_INSERT_EVICT" "mode \<noteq> DRM_MM_INSERT_LOW" "mode \<noteq> DRM_MM_INSERT_HIGH"
        "as @ a # cs = rev (filter (\<lambda>a. sz \<le> n_hole ?m a) ss)"
    using ord unfolding tried_in_order_def by (fastforce split: if_splits)
  then show ?thesis
  proof cases
    case low
    then have "n_end ?m a + n_hole ?m a < n_end ?m c" using apart_append(1) [of ?m "us @ as" a cs c] ap c by simp
    then show ?thesis using low(1) hp(2,3) hq(1) by simp
  next
    case high
    then have "n_end ?m c + n_hole ?m c < n_end ?m a" using apart_append(2) [of ?m "rev cs" a "rev as @ vs" c] ap c by simp
    then show ?thesis using high(1,2) hq(2,3) hp(1) by simp
  next
    case best
    have "sorted_wrt (\<lambda>a b. n_hole ?m a \<ge> n_hole ?m b) (rev (as @ a # cs))"
      unfolding best(4) using ss by (simp add: sorted_wrt_filter)
    then show ?thesis using best(1-3) c by (simp add: sorted_wrt_append)
  qed simp
qed

text \<open>
  The hole that comes first: for \<open>DRM_MM_INSERT_LOW\<close> and \<open>DRM_MM_INSERT_HIGH\<close> the one at that end of the
  range, or a neighbour of it when it lies in no hole; for \<open>DRM_MM_INSERT_EVICT\<close> the top of the stack of
  holes; otherwise a smallest one that is large enough. With \<open>DRM_MM_INSERT_ONCE\<close> only this hole is tried.
\<close>

definition nearest :: "drm_mm_node store \<Rightarrow> addr list \<Rightarrow> u64 \<Rightarrow> addr \<Rightarrow> bool" where
  "nearest m xs p h \<longleftrightarrow>
     (\<forall>c\<in>set xs. (n_end m c < n_end m h \<longrightarrow> n_end m c + n_hole m c < p) \<and> (n_end m h < n_end m c \<longrightarrow> p < n_end m c))"

definition comes_first :: "u32 \<Rightarrow> u64 \<Rightarrow> u64 \<Rightarrow> u64 \<Rightarrow> drm_mm \<Rightarrow> addr list \<Rightarrow> addr list \<Rightarrow> addr \<Rightarrow> bool" where
  "comes_first mode rs re sz s hs xs h \<longleftrightarrow> h \<in> set xs \<and>
     (if mode = DRM_MM_INSERT_LOW then nearest (mm_nodes s) xs rs h
      else if mode = DRM_MM_INSERT_HIGH then nearest (mm_nodes s) xs re h
      else if mode = DRM_MM_INSERT_EVICT then h = hd hs
      else sz \<le> n_hole (mm_nodes s) h \<and> (\<forall>c\<in>set xs. sz \<le> n_hole (mm_nodes s) c \<longrightarrow> n_hole (mm_nodes s) h \<le> n_hole (mm_nodes s) c))"

definition holes_tried :: "u32 \<Rightarrow> bool \<Rightarrow> u64 \<Rightarrow> u64 \<Rightarrow> u64 \<Rightarrow> drm_mm \<Rightarrow> addr list \<Rightarrow> addr list \<Rightarrow> addr list \<Rightarrow> bool" where
  "holes_tried mode once rs re sz s hs xs tried \<longleftrightarrow>
     (if \<not> once then tried = xs
      else tried = [] \<and> (\<forall>h. \<not> comes_first mode rs re sz s hs xs h) \<or>
        (\<exists>h. tried = [h] \<and> comes_first mode rs re sz s hs xs h))"

lemma holes_tried_sub: "holes_tried mode once rs re sz s hs xs tried \<Longrightarrow> set tried \<subseteq> set xs"
  by (auto simp: holes_tried_def comes_first_def split: if_splits)

lemma nearest_split:
  assumes ap: "apart m (us @ h # vs)" and "\<forall>c\<in>set us. n_end m c + n_hole m c < p" "\<forall>c\<in>set vs. p < n_end m c"
  shows "nearest m (us @ h # vs) p h"
  unfolding nearest_def
proof
  fix c assume "c \<in> set (us @ h # vs)"
  then consider "c \<in> set us" | "c = h" | "c \<in> set vs" by auto
  then show "(n_end m c < n_end m h \<longrightarrow> n_end m c + n_hole m c < p) \<and> (n_end m h < n_end m c \<longrightarrow> p < n_end m c)"
  proof cases
    case 1
    have "n_end m c \<le> n_end m c + n_hole m c" using ap 1 by (auto simp: apart_def)
    then have "n_end m c < n_end m h" using apart_append(2) [OF ap 1] by simp
    then show ?thesis using 1 assms(2) by auto
  next
    case 3
    have "n_end m h \<le> n_end m c" using apart_le(1) [OF ap, of c] 3 by simp
    then show ?thesis using 3 assms(3) by auto
  qed simp
qed

lemma first_is_tried:
  assumes ord: "tried_in_order mode rs re sz s xs hs ss zs" and ap: "apart (mm_nodes s) xs" and ne: "xs \<noteq> []"
    and sets: "set hs = set xs" "set ss = set xs" and sorted: "sorted_wrt (\<lambda>a b. n_hole (mm_nodes s) a \<ge> n_hole (mm_nodes s) b) ss"
  shows "holes_tried mode True rs re sz s hs xs (take 1 zs)"
proof -
  let ?m = "mm_nodes s"
  have m: "DRM_MM_INSERT_HIGH \<noteq> DRM_MM_INSERT_LOW" "DRM_MM_INSERT_EVICT \<noteq> DRM_MM_INSERT_LOW" "DRM_MM_INSERT_EVICT \<noteq> DRM_MM_INSERT_HIGH"
    by (simp_all add: mode_defs)
  consider (low) us h vs where "mode = DRM_MM_INSERT_LOW" "zs = h # vs" "xs = us @ h # vs"
      "\<forall>c\<in>set us. n_end ?m c + n_hole ?m c < rs" "\<forall>c\<in>set vs. rs < n_end ?m c"
    | (high) us h vs where "mode = DRM_MM_INSERT_HIGH" "zs = h # us" "xs = rev us @ h # vs"
      "\<forall>c\<in>set (rev us). n_end ?m c + n_hole ?m c < re" "\<forall>c\<in>set vs. re < n_end ?m c"
    | (evict) "mode = DRM_MM_INSERT_EVICT" "zs = hs"
    | (best) "mode \<noteq> DRM_MM_INSERT_EVICT" "mode \<noteq> DRM_MM_INSERT_LOW" "mode \<noteq> DRM_MM_INSERT_HIGH"
        "rev zs = filter (\<lambda>a. sz \<le> n_hole ?m a) ss"
    using ord unfolding tried_in_order_def by (fastforce split: if_splits)
  then show ?thesis
  proof cases
    case low
    then show ?thesis using nearest_split [of ?m us h vs rs] ap by (simp add: holes_tried_def comes_first_def)
  next
    case high
    then show ?thesis using nearest_split [of ?m "rev us" h vs re] ap m by (simp add: holes_tried_def comes_first_def)
  next
    case evict
    then obtain h cs where "hs = h # cs" using ne sets(1) by (cases hs) auto
    then show ?thesis using evict m sets(1) by (auto simp: holes_tried_def comes_first_def)
  next
    case best
    have big: "set zs = {a \<in> set xs. sz \<le> n_hole ?m a}" using arg_cong [OF best(4), of set] sets(2) by simp
    show ?thesis
    proof (cases zs)
      case Nil
      then show ?thesis using best(1-3) big by (auto simp: holes_tried_def comes_first_def)
    next
      case (Cons h cs)
      have "sorted_wrt (\<lambda>a b. n_hole ?m a \<ge> n_hole ?m b) (rev zs)" unfolding best(4) using sorted by (simp add: sorted_wrt_filter)
      then have "\<forall>c\<in>set zs. n_hole ?m h \<le> n_hole ?m c" using Cons by (simp add: sorted_wrt_append)
      moreover have "h \<in> set xs" "sz \<le> n_hole ?m h" using big Cons by auto
      ultimately show ?thesis using best(1-3) big Cons by (auto simp: holes_tried_def comes_first_def)
    qed
  qed
qed

text \<open>The place within the hole, and for \<open>DRM_MM_INSERT_EVICT\<close> which hole.\<close>

definition hole_choice :: "u32 \<Rightarrow> drm_mm \<Rightarrow> u64 \<Rightarrow> u64 \<Rightarrow> u64 \<Rightarrow> u64 \<Rightarrow> u64 \<Rightarrow> addr list \<Rightarrow> addr \<Rightarrow> u64 \<Rightarrow> bool" where
  "hole_choice mode s color rs re sz al hs a p \<longleftrightarrow>
     (\<forall>q. place_in s color rs re sz al a q \<longrightarrow> (if mode = DRM_MM_INSERT_HIGH then q \<le> p else p \<le> q)) \<and>
     (mode = DRM_MM_INSERT_EVICT \<longrightarrow> no_place s color rs re sz al (takeWhile (\<lambda>c. c \<noteq> a) hs))"

lemma takeWhile_until: "a \<notin> set as \<Longrightarrow> takeWhile (\<lambda>c. c \<noteq> a) (as @ a # cs) = as"
  by (induction as) auto

text \<open>What the search over the holes \<open>zs\<close>, in that order, has found when it ends.\<close>

lemma search_failed:
  assumes ord: "tried_in_order mode rs re sz s xs hs ss zs" and ap: "apart (mm_nodes s) xs" and cn: "colour_narrows s"
    and sets: "set hs = set xs" "set ss = set xs" and sz: "sz \<noteq> 0" "al \<noteq> 1"
    and none: "try_holes (loop_stop mode rs re s) (loop_place mode color rs re sz al s) once zs = None"
  shows "no_place s color rs re sz al (if once then take 1 zs else xs)"
proof (cases once)
  case True
  have "\<not> place_in s color rs re sz al h q" if z: "zs = h # cs" for h cs q
  proof (cases "loop_stop mode rs re s h")
    case True
    then show ?thesis using stopped_no_place [of mode rs re sz s xs hs ss "[]" h cs h] ord ap cn z by simp
  next
    case False
    then have "loop_place mode color rs re sz al s h = None" using none z by (auto split: option.splits)
    then show ?thesis by (rule loop_place_best(2) [OF sz])
  qed
  then show ?thesis using True by (cases zs) (simp_all add: no_place_def)
next
  case once: False
  have "no_place s color rs re sz al xs"
    unfolding no_place_def
  proof (intro ballI allI notI)
    fix c q assume c: "c \<in> set xs" and q: "place_in s color rs re sz al c q"
    obtain as cs where z: "zs = as @ cs" "\<forall>d\<in>set as. loop_place mode color rs re sz al s d = None" "cs = [] \<or> loop_stop mode rs re s (hd cs)"
      using try_holes_NoneD [of "loop_stop mode rs re s" "loop_place mode color rs re sz al s" zs] none once by auto
    then have "c \<in> set cs" using place_is_tried(1) [OF ord ap cn sets c q] loop_place_best(2) [OF sz] q by auto
    then show False using stopped_no_place [of mode rs re sz s xs hs ss as "hd cs" "tl cs" c] z(1,3) ord ap cn q by (cases cs) auto
  qed
  then show ?thesis using once by simp
qed

lemma try_once: "try_holes stop place True zs = Some (c, p) \<Longrightarrow> c \<in> set (take 1 zs)"
  by (cases zs) (auto split: if_splits option.splits)

lemma search_found:
  assumes ord: "tried_in_order mode rs re sz s xs hs ss zs" and ap: "apart (mm_nodes s) xs" and cn: "colour_narrows s"
    and sets: "set hs = set xs" "set ss = set xs" "set zs \<subseteq> set xs" and sz: "sz \<noteq> 0" "al \<noteq> 1"
    and ss: "sorted_wrt (\<lambda>a b. n_hole (mm_nodes s) a \<ge> n_hole (mm_nodes s) b) ss"
    and found: "try_holes (loop_stop mode rs re s) (loop_place mode color rs re sz al s) once zs = Some (a, p)"
  shows "a \<in> set (if once then take 1 zs else xs)" "place_in s color rs re sz al a p"
    "mode_best mode s color rs re sz al xs a p" "hole_choice mode s color rs re sz al hs a p"
proof -
  note best = loop_place_best [where s = s and color = color and rs = rs and re = re and mode = mode, OF sz]
  obtain as cs where z: "zs = as @ a # cs" "loop_place mode color rs re sz al s a = Some p"
    "\<forall>d\<in>set as. loop_place mode color rs re sz al s d = None" using try_holes_SomeD [OF found] by blast
  have "a \<in> set xs" using z(1) sets(3) by auto
  then show "a \<in> set (if once then take 1 zs else xs)" using try_once [of _ _ zs a p] found by (cases once) simp_all
  show p: "place_in s color rs re sz al a p" by (rule best(3) [OF z(2)])
  show "mode_best mode s color rs re sz al xs a p"
    unfolding mode_best_def
  proof (intro ballI allI impI)
    fix c q assume c: "c \<in> set xs" and q: "place_in s color rs re sz al c q"
    then have "c = a \<or> c \<in> set cs" using place_is_tried(1) [OF ord ap cn sets(1,2) c q] best(2) q z(1,3) by auto
    then show "if mode = DRM_MM_INSERT_LOW then p \<le> q else if mode = DRM_MM_INSERT_HIGH then q \<le> p
       else if mode = DRM_MM_INSERT_EVICT then True else n_hole (mm_nodes s) a \<le> n_hole (mm_nodes s) c"
      using best(4) [OF z(2)] q taken_is_best [OF ord [unfolded z(1)] ap cn ss p _ q] by (auto simp: mode_defs split: if_splits)
  qed
  have "no_place s color rs re sz al (takeWhile (\<lambda>c. c \<noteq> a) hs)" if "mode = DRM_MM_INSERT_EVICT"
  proof -
    have "hs = as @ a # cs" using ord z(1) that by (simp add: tried_in_order_def mode_defs)
    moreover have "a \<notin> set as" using z(2,3) by auto
    ultimately show ?thesis using z(3) best(2) by (simp add: takeWhile_until no_place_def)
  qed
  then show "hole_choice mode s color rs re sz al hs a p" unfolding hole_choice_def using best(4) [OF z(2)] by blast
qed

lemma loop_search:
  assumes rep: "holes_rep s hs ss xs" and ne: "xs \<noteq> []" and ap: "apart (mm_nodes s) xs" and cn: "colour_narrows s"
    and sz: "sz \<noteq> 0" "al \<noteq> 1" and first: "first_hole rs re sz mode s = Some h"
    and r: "r = insert_hole_loop x sz al color rs re (hole_remainder_mask al) mode once h s"
  shows "\<exists>tried. holes_tried mode once rs re sz s hs xs tried \<and>
    (r = Some (- ENOSPC, s) \<and> no_place s color rs re sz al tried \<or>
     (\<exists>a p. a \<in> set tried \<and> place_in s color rs re sz al a p \<and> mode_best mode s color rs re sz al xs a p \<and>
        hole_choice mode s color rs re sz al hs a p \<and>
        r = do { s \<leftarrow> insert_into_hole x a sz color p (n_end (mm_nodes s) a) (n_end (mm_nodes s) a + n_hole (mm_nodes s) a) s;
                 Some (0, s) }))"
proof -
  let ?L = "loop_place mode color rs re sz al s" and ?stop = "loop_stop mode rs re s"
  obtain zs where h: "h = first_of zs" and zs: "chain mode s zs" "set zs \<subseteq> set xs"
    and ord: "tried_in_order mode rs re sz s xs hs ss zs"
    using holes_in_order [OF rep ne ap, of rs re sz mode] first unfolding tried_in_order_def by auto
  have sets: "set hs = set xs" "set ss = set xs" and ss: "sorted_wrt (\<lambda>a b. n_hole (mm_nodes s) a \<ge> n_hole (mm_nodes s) b) ss"
    using rep by (simp_all add: holes_rep_def)
  have tried: "holes_tried mode once rs re sz s hs xs (if once then take 1 zs else xs)"
    using first_is_tried [OF ord ap ne sets ss] by (simp add: holes_tried_def)
  have run: "r = (case try_holes ?stop ?L once zs of None \<Rightarrow> Some (- ENOSPC, s)
     | Some (c, p) \<Rightarrow> do { s \<leftarrow> insert_into_hole x c sz color p (n_end (mm_nodes s) c) (n_end (mm_nodes s) c + n_hole (mm_nodes s) c) s; Some (0, s) })"
    unfolding r h by (rule insert_hole_loop_spec [OF zs(1) sz])
  show ?thesis
  proof (cases "try_holes ?stop ?L once zs")
    case None
    then show ?thesis using run tried search_failed [OF ord ap cn sets sz None] by auto
  next
    case (Some cp)
    obtain a p where cp: "cp = (a, p)" by (cases cp)
    from search_found [OF ord ap cn sets zs(2) sz ss Some [unfolded cp]] tried run Some cp show ?thesis
      by (intro exI [of _ "if once then take 1 zs else xs"] conjI disjI2 exI [of _ a] exI [of _ p]) simp_all
  qed
qed

section \<open>drm_mm_insert_node_in_range\<close>

text \<open>The node \<open>x\<close> has come in as the block \<open>[p; p + sz)\<close> right after \<open>a\<close>.\<close>

definition block_inserted :: "drm_mm \<Rightarrow> addr list \<Rightarrow> addr \<Rightarrow> addr \<Rightarrow> u64 \<Rightarrow> u64 \<Rightarrow> u64 \<Rightarrow> drm_mm \<Rightarrow> addr list \<Rightarrow> bool" where
  "block_inserted s ns x a p sz color s' ns' \<longleftrightarrow>
     (\<exists>us vs. mm_head_node s # ns = us @ a # vs \<and> mm_head_node s # ns' = us @ a # x # vs) \<and>
     (\<exists>hs'. mm_inv s' ns' hs') \<and> mm_frame {x} s s' \<and>
     n_start (mm_nodes s') x = p \<and> n_size (mm_nodes s') x = sz \<and> nd_color (the (mm_nodes s' x)) = color"

lemma place_in_align: "place_in s color rs re sz (if al \<le> 1 then 0 else al) c q = place_in s color rs re sz al c q"
  by (auto simp: place_in_def place_ok_def)

lemma no_place_align: "no_place s color rs re sz (if al \<le> 1 then 0 else al) xs = no_place s color rs re sz al xs"
  unfolding no_place_def place_in_align ..

lemma mode_best_align:
  "mode_best mode s color rs re sz (if al \<le> 1 then 0 else al) xs a p = mode_best mode s color rs re sz al xs a p"
  unfolding mode_best_def place_in_align ..

lemma hole_choice_align:
  "hole_choice mode s color rs re sz (if al \<le> 1 then 0 else al) hs a p = hole_choice mode s color rs re sz al hs a p"
  unfolding hole_choice_def place_in_align no_place_align ..

lemma place_in_hole_size:
  assumes cn: "colour_narrows s" and inv: "mm_inv s ns hs" and c: "c \<in> set (mm_head_node s # ns)"
    and q: "place_in s color rs re sz al c q"
  shows "sz \<le> n_hole (mm_nodes s) c" "sz \<noteq> 0"
proof -
  have "n_end (mm_nodes s) c \<le> n_end (mm_nodes s) c + n_hole (mm_nodes s) c"
    using c mm_inv_at(1) [OF inv] by (metis split_list)
  then show "sz \<le> n_hole (mm_nodes s) c" using u64_fits [OF place_in_hole(1-3) [OF cn q]] by simp
  show "sz \<noteq> 0" using place_in_hole(2) [OF cn q] by auto
qed

lemma over_holes:
  assumes "colour_narrows s" and "mm_inv s ns hs"
  shows "no_place s color rs re sz al (hole_nodes (mm_nodes s) (mm_head_node s # ns)) \<Longrightarrow>
      no_place s color rs re sz al (mm_head_node s # ns)"
    and "mode_best mode s color rs re sz al (hole_nodes (mm_nodes s) (mm_head_node s # ns)) a p \<Longrightarrow>
      mode_best mode s color rs re sz al (mm_head_node s # ns) a p"
proof -
  have *: "c \<in> set (hole_nodes (mm_nodes s) (mm_head_node s # ns))"
    if "c \<in> set (mm_head_node s # ns)" "place_in s color rs re sz al c q" for c q
  proof -
    have "n_hole (mm_nodes s) c \<noteq> 0" using place_in_hole_size [OF assms that] by auto
    then show ?thesis using that(1) by (simp only: in_hole_nodes simp_thms)
  qed
  show "no_place s color rs re sz al (mm_head_node s # ns)"
    if "no_place s color rs re sz al (hole_nodes (mm_nodes s) (mm_head_node s # ns))"
    using that * unfolding no_place_def by blast
  show "mode_best mode s color rs re sz al (mm_head_node s # ns) a p"
    if "mode_best mode s color rs re sz al (hole_nodes (mm_nodes s) (mm_head_node s # ns)) a p"
    using that * unfolding mode_best_def by blast
qed

text \<open>The tests before the search refuse only what has no place.\<close>

lemma range_too_small:
  assumes inv: "mm_inv s ns hs" and cn: "colour_narrows s" and range: "rs \<le> re" and small: "sz = 0 \<or> re - rs < sz"
  shows "no_place s color rs re sz al (mm_head_node s # ns)"
  unfolding no_place_def
proof (intro ballI allI notI)
  fix c q assume c: "c \<in> set (mm_head_node s # ns)" and q: "place_in s color rs re sz al c q"
  have "sz \<le> re - rs" using u64_fits [of rs q sz "re - rs"] place_in_hole(2,4,5) [OF cn q] range by simp
  then show False using small place_in_hole_size(2) [OF cn inv c q] by auto
qed

definition biggest_hole :: "drm_mm \<Rightarrow> addr list \<Rightarrow> u64" where
  "biggest_hole s ss = (if ss = [] then 0 else n_hole (mm_nodes s) (hd ss))"

lemma biggest_hole:
  assumes "holes_rep s hs ss xs"
  shows "rb_to_hole_size_or_zero (first_of ss) s = Some (biggest_hole s ss)" and "c \<in> set xs \<Longrightarrow> n_hole (mm_nodes s) c \<le> biggest_hole s ss"
proof -
  have sets: "set ss = set xs" and sorted: "sorted_wrt (\<lambda>a b. n_hole (mm_nodes s) a \<ge> n_hole (mm_nodes s) b) ss"
    and live: "\<forall>c\<in>set ss. live s c" using assms by (simp_all add: holes_rep_def)
  show "rb_to_hole_size_or_zero (first_of ss) s = Some (biggest_hole s ss)"
  proof (cases ss)
    case (Cons c cs)
    then have "live s c" using live by simp
    then show ?thesis using Cons node_reads(2) [of s c]
      by (auto simp: rb_to_hole_size_or_zero_def first_of_def biggest_hole_def live_def valid_ptr_def)
  qed (simp add: rb_to_hole_size_or_zero_def first_of_def biggest_hole_def)
  show "n_hole (mm_nodes s) c \<le> biggest_hole s ss" if "c \<in> set xs"
    using that sorted unfolding sets [symmetric] by (cases ss) (auto simp: biggest_hole_def)
qed

lemma holes_too_small:
  assumes inv: "mm_inv s ns hs" and cn: "colour_narrows s" and rep: "holes_rep s hs ss (hole_nodes (mm_nodes s) (mm_head_node s # ns))"
    and small: "biggest_hole s ss < sz"
  shows "no_place s color rs re sz al (mm_head_node s # ns)"
proof (rule over_holes(1) [OF cn inv], unfold no_place_def, intro ballI allI notI)
  fix c q assume c: "c \<in> set (hole_nodes (mm_nodes s) (mm_head_node s # ns))" and q: "place_in s color rs re sz al c q"
  have "c \<in> set (mm_head_node s # ns)" using c unfolding in_hole_nodes by blast
  then have "sz \<le> n_hole (mm_nodes s) c" using place_in_hole_size(1) [OF cn inv _ q] by blast
  then show False using biggest_hole(2) [OF rep c] small by simp
qed

lemma insert_at_place:
  assumes inv: "mm_inv s ns hs" and cn: "colour_narrows s"
    and x: "live s x" "x \<notin> set (mm_head_node s # ns)" "\<not> nd_scanned_block (the (mm_nodes s x))"
    and a: "a \<in> set (mm_head_node s # ns)" and p: "place_in s color rs re sz al a p"
  shows "\<exists>s' ns'. insert_into_hole x a sz color p (n_end (mm_nodes s) a) (n_end (mm_nodes s) a + n_hole (mm_nodes s) a) s = Some s' \<and>
    block_inserted s ns x a p sz color s' ns'"
proof -
  obtain us vs where L: "mm_head_node s # ns = us @ a # vs" using a by (meson split_list)
  obtain ns' where L': "mm_head_node s # ns' = us @ a # x # vs" using L by (cases us) auto
  show ?thesis
    using insert_into_hole_spec [OF inv L L' x place_in_hole(1-3) [OF cn p], of color] L L' unfolding block_inserted_def by blast
qed

lemma holes_tried_exists:
  assumes inv: "mm_inv s ns hs"
  shows "\<exists>tried. holes_tried mode once rs re sz s hs (hole_nodes (mm_nodes s) (mm_head_node s # ns)) tried \<and>
    set tried \<subseteq> set (mm_head_node s # ns)"
proof -
  let ?xs = "hole_nodes (mm_nodes s) (mm_head_node s # ns)"
  have sub: "set ?xs \<subseteq> set (mm_head_node s # ns)" by (rule hole_nodes_sub)
  obtain ss where rep: "holes_rep s hs ss ?xs" using inv by (auto simp: mm_inv_def)
  then have sets: "set hs = set ?xs" "set ss = set ?xs" "sorted_wrt (\<lambda>a b. n_hole (mm_nodes s) a \<ge> n_hole (mm_nodes s) b) ss"
    by (simp_all add: holes_rep_def)
  consider "\<not> once" | "once" "?xs = []" | "once" "?xs \<noteq> []" by blast
  then show ?thesis
  proof cases
    case 1
    then show ?thesis using sub by (intro exI [of _ ?xs]) (simp add: holes_tried_def)
  next
    case 2
    then show ?thesis by (intro exI [of _ "[]"]) (simp add: holes_tried_def comes_first_def)
  next
    case 3
    obtain zs where "tried_in_order mode rs re sz s ?xs hs ss zs" "set zs \<subseteq> set ?xs"
      using holes_in_order [OF rep 3(2) mm_inv_apart [OF inv], of rs re sz mode] unfolding tried_in_order_def by auto
    then show ?thesis
      using first_is_tried [OF _ mm_inv_apart [OF inv] 3(2) sets] 3(1) sub set_take_subset [of 1 zs] by fastforce
  qed
qed

text \<open>What one call comes to: the holes that are tried, and what becomes of the block.\<close>

lemma drm_mm_insert_node_in_range_exact:
  assumes inv: "mm_inv s ns hs" and cn: "colour_narrows s" and range: "rs \<le> re"
    and x: "live s x" "x \<notin> set (mm_head_node s # ns)" "\<not> nd_scanned_block (the (mm_nodes s x))"
  shows "\<exists>tried. holes_tried (mode AND NOT DRM_MM_INSERT_ONCE) (mode AND DRM_MM_INSERT_ONCE \<noteq> 0) rs re sz s hs
      (hole_nodes (mm_nodes s) (mm_head_node s # ns)) tried \<and>
    (if no_place s color rs re sz al tried
     then drm_mm_insert_node_in_range x sz al color rs re mode s = Some (- ENOSPC, s)
     else \<exists>s' ns' a p. a \<in> set tried \<and> drm_mm_insert_node_in_range x sz al color rs re mode s = Some (0, s') \<and>
       block_inserted s ns x a p sz color s' ns' \<and> place_in s color rs re sz al a p \<and>
       mode_best (mode AND NOT DRM_MM_INSERT_ONCE) s color rs re sz al (mm_head_node s # ns) a p \<and>
       hole_choice (mode AND NOT DRM_MM_INSERT_ONCE) s color rs re sz al hs a p)"
proof -
  let ?L = "mm_head_node s # ns" and ?f = "drm_mm_insert_node_in_range x sz al color rs re mode s"
    and ?xs = "hole_nodes (mm_nodes s) (mm_head_node s # ns)" and ?mode = "mode AND NOT DRM_MM_INSERT_ONCE"
    and ?once = "mode AND DRM_MM_INSERT_ONCE \<noteq> 0"
  define al' where "al' = (if al \<le> 1 then 0 else al)"
  obtain ss where rep: "holes_rep s hs ss ?xs" using inv by (auto simp: mm_inv_def)
  then have sets: "set ss = set ?xs" and seq: "rb_seq (mm_holes_size s) ss" by (simp_all add: holes_rep_def)
  have ins: "?f = (if sz = 0 \<or> re - rs < sz \<or> biggest_hole s ss < sz then Some (- ENOSPC, s)
     else do {
       hole \<leftarrow> first_hole rs re sz ?mode s;
       insert_hole_loop x sz al' color rs re (hole_remainder_mask al') ?mode ?once hole s })"
    using range rb_seq_first [OF seq] biggest_hole(1) [OF rep]
    by (simp add: drm_mm_insert_node_in_range_def al'_def [symmetric] Let_def cong: if_cong)
  show ?thesis
  proof (cases "sz = 0 \<or> re - rs < sz \<or> biggest_hole s ss < sz")
    case True
    then have none: "no_place s color rs re sz al ?L"
      using range_too_small [OF inv cn range] holes_too_small [OF inv cn rep] by blast
    obtain tried where "holes_tried ?mode ?once rs re sz s hs ?xs tried" "set tried \<subseteq> set ?L" using holes_tried_exists [OF inv] by blast
    moreover from this(2) have "no_place s color rs re sz al tried" using none unfolding no_place_def by blast
    ultimately show ?thesis using ins True by (intro exI [of _ tried]) simp
  next
    case False
    have ne: "?xs \<noteq> []" using False sets by (auto simp: biggest_hole_def word_gt_0)
    have ap: "apart (mm_nodes s) ?xs" by (rule mm_inv_apart [OF inv])
    obtain h where h: "first_hole rs re sz ?mode s = Some h" using holes_in_order [OF rep ne ap] by blast
    have sz: "sz \<noteq> 0" "al' \<noteq> 1" using False by (auto simp: al'_def)
    have f: "?f = insert_hole_loop x sz al' color rs re (hole_remainder_mask al') ?mode ?once h s"
      using ins False h by simp
    obtain tried where tried: "holes_tried ?mode ?once rs re sz s hs ?xs tried" and cases: "?f = Some (- ENOSPC, s) \<and> no_place s color rs re sz al' tried \<or>
      (\<exists>a p. a \<in> set tried \<and> place_in s color rs re sz al' a p \<and> mode_best ?mode s color rs re sz al' ?xs a p \<and>
        hole_choice ?mode s color rs re sz al' hs a p \<and>
        ?f = do { s \<leftarrow> insert_into_hole x a sz color p (n_end (mm_nodes s) a) (n_end (mm_nodes s) a + n_hole (mm_nodes s) a) s; Some (0, s) })"
      using loop_search [OF rep ne ap cn sz h f] by blast
    have sub: "set tried \<subseteq> set ?L" using holes_tried_sub [OF tried] hole_nodes_sub by blast
    from cases show ?thesis
    proof (elim disjE exE conjE)
      assume "?f = Some (- ENOSPC, s)" "no_place s color rs re sz al' tried"
      then show ?thesis using tried no_place_align [of s color rs re sz al] by (intro exI [of _ tried]) (simp add: al'_def)
    next
      fix a p assume a: "a \<in> set tried" and p: "place_in s color rs re sz al' a p" and best: "mode_best ?mode s color rs re sz al' ?xs a p"
        and hc: "hole_choice ?mode s color rs re sz al' hs a p"
        and r: "?f = do { s \<leftarrow> insert_into_hole x a sz color p (n_end (mm_nodes s) a) (n_end (mm_nodes s) a + n_hole (mm_nodes s) a) s; Some (0, s) }"
      have p': "place_in s color rs re sz al a p" using p unfolding al'_def place_in_align .
      then have "\<not> no_place s color rs re sz al tried" using a unfolding no_place_def by blast
      moreover have "mode_best ?mode s color rs re sz al ?L a p"
        by (rule over_holes(2) [OF cn inv]) (use best in \<open>unfold al'_def mode_best_align\<close>)
      moreover have "hole_choice ?mode s color rs re sz al hs a p" using hc unfolding al'_def hole_choice_align .
      moreover have "a \<in> set ?L" using a sub by blast
      then obtain s' ns' where "?f = Some (0, s')" "block_inserted s ns x a p sz color s' ns'"
        using insert_at_place [OF inv cn x _ p'] r by auto
      ultimately show ?thesis using tried a p' by (intro exI [of _ tried]) auto
    qed
  qed
qed

lemma drm_mm_insert_node_in_range_spec:
  assumes inv: "mm_inv s ns hs" and cn: "colour_narrows s" and range: "rs \<le> re"
    and x: "live s x" "x \<notin> set (mm_head_node s # ns)" "\<not> nd_scanned_block (the (mm_nodes s x))"
  shows "drm_mm_insert_node_in_range x sz al color rs re mode s = Some (- ENOSPC, s) \<and>
      (mode AND DRM_MM_INSERT_ONCE = 0 \<longrightarrow> no_place s color rs re sz al (mm_head_node s # ns)) \<or>
    (\<exists>s' ns' a p. drm_mm_insert_node_in_range x sz al color rs re mode s = Some (0, s') \<and>
      block_inserted s ns x a p sz color s' ns' \<and> place_in s color rs re sz al a p \<and>
      mode_best (mode AND NOT DRM_MM_INSERT_ONCE) s color rs re sz al (mm_head_node s # ns) a p)"
proof -
  obtain tried where t: "holes_tried (mode AND NOT DRM_MM_INSERT_ONCE) (mode AND DRM_MM_INSERT_ONCE \<noteq> 0) rs re sz s hs
      (hole_nodes (mm_nodes s) (mm_head_node s # ns)) tried" and
    r: "if no_place s color rs re sz al tried
     then drm_mm_insert_node_in_range x sz al color rs re mode s = Some (- ENOSPC, s)
     else \<exists>s' ns' a p. a \<in> set tried \<and> drm_mm_insert_node_in_range x sz al color rs re mode s = Some (0, s') \<and>
       block_inserted s ns x a p sz color s' ns' \<and> place_in s color rs re sz al a p \<and>
       mode_best (mode AND NOT DRM_MM_INSERT_ONCE) s color rs re sz al (mm_head_node s # ns) a p \<and>
       hole_choice (mode AND NOT DRM_MM_INSERT_ONCE) s color rs re sz al hs a p"
    using drm_mm_insert_node_in_range_exact [OF assms, of mode sz color al] by blast
  show ?thesis
  proof (cases "no_place s color rs re sz al tried")
    case True
    have "no_place s color rs re sz al (mm_head_node s # ns)" if "mode AND DRM_MM_INSERT_ONCE = 0"
      by (rule over_holes(1) [OF cn inv]) (use t True that in \<open>simp add: holes_tried_def del: hole_nodes_simps\<close>)
    then show ?thesis using r True unfolding if_P [OF True] by blast
  next
    case False
    then show ?thesis using r unfolding if_not_P [OF False] by blast
  qed
qed

section \<open>drm_mm_reserve_node\<close>

text \<open>The block the caller has written into the node lies in a hole, after colour adjustment.\<close>

definition reservable :: "drm_mm \<Rightarrow> addr \<Rightarrow> addr \<Rightarrow> bool" where
  "reservable s x c \<longleftrightarrow> n_start (mm_nodes s) x < n_end (mm_nodes s) x \<and>
     fst (hole_window s (nd_color (the (mm_nodes s x))) c) \<le> n_start (mm_nodes s) x \<and>
     n_end (mm_nodes s) x \<le> snd (hole_window s (nd_color (the (mm_nodes s x))) c)"

lemma reservable_nd:
  assumes n: "mm_nodes s x = Some n" and w: "hole_window s (nd_color n) c = (b, e)"
  shows "reservable s x c \<longleftrightarrow> nd_start n < nd_start n + nd_size n \<and> b \<le> nd_start n \<and> nd_start n + nd_size n \<le> e"
  by (simp add: reservable_def n_start_def n_end_def n w)

lemma reservable_in_hole:
  assumes "colour_narrows s" and "reservable s x c"
  shows "n_end (mm_nodes s) c \<le> n_start (mm_nodes s) x" "n_start (mm_nodes s) x < n_end (mm_nodes s) x"
    "n_end (mm_nodes s) x \<le> n_end (mm_nodes s) c + n_hole (mm_nodes s) c"
proof -
  have "n_end (mm_nodes s) c \<le> fst (hole_window s col c)" "snd (hole_window s col c) \<le> n_end (mm_nodes s) c + n_hole (mm_nodes s) c" for col
    using assms(1) by (simp_all add: colour_narrows_def hole_window_def)
  then show "n_end (mm_nodes s) c \<le> n_start (mm_nodes s) x" "n_start (mm_nodes s) x < n_end (mm_nodes s) x"
    "n_end (mm_nodes s) x \<le> n_end (mm_nodes s) c + n_hole (mm_nodes s) c"
    using assms(2) unfolding reservable_def by (blast intro: order_trans)+
qed

lemma reservable_hole:
  assumes "colour_narrows s" and "c \<in> set (mm_head_node s # ns)" and "reservable s x c"
  shows "c \<in> set (hole_nodes (mm_nodes s) (mm_head_node s # ns))"
  using reservable_in_hole [OF assms(1,3)] assms(2) unfolding in_hole_nodes by auto

text \<open>Of the holes only the one that \<open>find_hole\<close> returns can take the block.\<close>

lemma reservable_only:
  assumes cn: "colour_narrows s" and h: "hole_nodes (mm_nodes s) (mm_head_node s # ns) = us @ h # vs"
      "\<forall>c\<in>set us. n_end (mm_nodes s) c + n_hole (mm_nodes s) c < n_start (mm_nodes s) x"
      "\<forall>c\<in>set vs. n_start (mm_nodes s) x < n_end (mm_nodes s) c"
    and c: "c \<in> set (mm_head_node s # ns)" "c \<noteq> h"
  shows "\<not> reservable s x c"
proof
  assume r: "reservable s x c"
  then have "c \<in> set us \<or> c \<in> set vs" using reservable_hole [OF cn c(1)] c(2) h(1) by auto
  then show False using reservable_in_hole [OF cn r] h(2,3) by fastforce
qed

lemma reserve_in_hole:
  assumes inv: "mm_inv s ns hs" and cn: "colour_narrows s"
    and x: "live s x" "x \<notin> set (mm_head_node s # ns)" "\<not> nd_scanned_block (the (mm_nodes s x))"
    and h: "h \<in> set (mm_head_node s # ns)" "live s h" "find_hole (n_start (mm_nodes s) x) s = Some h" and r: "reservable s x h"
  shows "\<exists>s' ns'. drm_mm_reserve_node x s = Some (0, s') \<and>
    block_inserted s ns x h (n_start (mm_nodes s) x) (n_size (mm_nodes s) x) (nd_color (the (mm_nodes s x))) s' ns'"
proof -
  let ?m = "mm_nodes s" and ?g = "\<lambda>n. n\<lparr>nd_allocated := True, nd_hole_size := 0\<rparr>"
  obtain n where n: "?m x = Some n" using x(1) by (auto simp: live_def)
  have F: "n_start ?m x = nd_start n" "n_size ?m x = nd_size n" "n_end ?m x = nd_start n + nd_size n"
    by (simp_all add: n_start_def n_size_def n_end_def n)
  note fit = reservable_in_hole [OF cn r, unfolded F]
  obtain b e where w: "hole_window s (nd_color n) h = (b, e)" by fastforce
  then have w': "adjust_colour h (nd_color n) (n_end ?m h, n_end ?m h + n_hole ?m h) s = (b, e)" by (simp add: hole_window_def)
  obtain us vs where L: "mm_head_node s # ns = us @ h # vs" using h(1) by (meson split_list)
  obtain ns' where L': "mm_head_node s # ns' = us @ h # x # vs" using L by (cases us) auto
  let ?n = "n\<lparr>nd_mm := mm_self s\<rparr>" and ?b = "nd_start n > n_end ?m h" and ?a = "nd_start n + nd_size n < n_end ?m h + n_hole ?m h"
  let ?s1 = "s\<lparr>mm_nodes := ?m(x \<mapsto> ?n)\<rparr>"
  have "\<exists>s' hs'. occupy x h (nd_start ?n > n_end ?m h) (nd_start ?n + nd_size ?n < n_end ?m h + n_hole ?m h) ?g ?s1 = Some s' \<and>
      mm_inv s' ns' hs' \<and> mm_frame {x} s s' \<and> n_start (mm_nodes s') x = nd_start ?n \<and>
      n_size (mm_nodes s') x = nd_size ?n \<and> nd_color (the (mm_nodes s' x)) = nd_color (?g ?n)"
    by (rule occupy_spec [OF inv L L' x(1,2) refl]) (use fit x(3) n in auto)
  then obtain s' hs' where s': "occupy x h ?b ?a ?g ?s1 = Some s'" "mm_inv s' ns' hs'" "mm_frame {x} s s'" "n_start (mm_nodes s') x = nd_start n"
    "n_size (mm_nodes s') x = nd_size n" "nd_color (the (mm_nodes s' x)) = nd_color n" by auto
  have hn: "h \<noteq> NULL" "mm_nodes s h \<noteq> None" using h(2) by (auto simp: live_def valid_ptr_def)
  have "\<not> (b > nd_start n \<or> e < nd_start n + nd_size n)" "\<not> nd_start n + nd_size n \<le> nd_start n"
    using r reservable_nd [OF n w] by auto
  then have "drm_mm_reserve_node x s = do { s \<leftarrow> occupy x h ?b ?a ?g ?s1; Some (0, s) }"
    using n h(3) hn w' node_reads [OF hn(2)] by (simp add: drm_mm_reserve_node_def occupy_def nd_write_def [of x _ s] Let_def F)
  then show ?thesis unfolding block_inserted_def using s' L L' F n by auto
qed

lemma drm_mm_reserve_node_spec:
  assumes inv: "mm_inv s ns hs" and cn: "colour_narrows s"
    and x: "live s x" "x \<notin> set (mm_head_node s # ns)" "\<not> nd_scanned_block (the (mm_nodes s x))"
  shows "drm_mm_reserve_node x s = Some (- ENOSPC, s) \<and> (\<forall>c\<in>set (mm_head_node s # ns). \<not> reservable s x c) \<or>
    (\<exists>s' ns' a. drm_mm_reserve_node x s = Some (0, s') \<and> reservable s x a \<and>
      block_inserted s ns x a (n_start (mm_nodes s) x) (n_size (mm_nodes s) x) (nd_color (the (mm_nodes s x))) s' ns')"
proof -
  let ?m = "mm_nodes s" and ?xs = "hole_nodes (mm_nodes s) (mm_head_node s # ns)"
  obtain n where n: "?m x = Some n" using x(1) by (auto simp: live_def)
  have F: "n_start ?m x = nd_start n" "n_end ?m x = nd_start n + nd_size n" by (simp_all add: n_start_def n_end_def n)
  obtain ss where rep: "holes_rep s hs ss ?xs" using inv by (auto simp: mm_inv_def)
  consider (wraps) "nd_start n + nd_size n \<le> nd_start n" | (full) "nd_start n < nd_start n + nd_size n" "?xs = []"
    | (holes) "nd_start n < nd_start n + nd_size n" "?xs \<noteq> []" by fastforce
  then show ?thesis
  proof cases
    case wraps
    then have "\<forall>c. \<not> reservable s x c" by (auto simp: reservable_def F)
    then show ?thesis using wraps n by (simp add: drm_mm_reserve_node_def)
  next
    case full
    obtain t where "rb_rep (mm_holes_addr s) t" "inorder t = []" using rep full(2) by (auto simp: holes_rep_def plain_seq_def)
    then have "find_hole (nd_start n) s = Some NULL" by (simp add: find_hole_def rb_rep_def find_hole_loop.simps)
    then have "drm_mm_reserve_node x s = Some (- ENOSPC, s)" using full(1) n by (simp add: drm_mm_reserve_node_def not_le Let_def)
    moreover have "\<forall>c\<in>set (mm_head_node s # ns). \<not> reservable s x c"
      using reservable_hole [OF cn, of _ ns x] unfolding full(2) by auto
    ultimately show ?thesis by blast
  next
    case holes
    obtain us h vs where h: "find_hole (nd_start n) s = Some h" "?xs = us @ h # vs"
      "\<forall>c\<in>set us. n_end ?m c + n_hole ?m c < nd_start n" "\<forall>c\<in>set vs. nd_start n < n_end ?m c"
      using find_hole_spec [OF rep holes(2) mm_inv_apart [OF inv]] by blast
    have hl: "h \<in> set ?xs" using h(2) by simp
    have "\<forall>c\<in>set ?xs. live s c" using rep unfolding holes_rep_def by blast
    then have hL: "h \<in> set (mm_head_node s # ns)" "live s h" using hl [unfolded in_hole_nodes] hl by blast+
    note only = reservable_only [OF cn h(2) h(3,4) [folded F(1)]]
    show ?thesis
    proof (cases "reservable s x h")
      case False
      have hn: "h \<noteq> NULL" "mm_nodes s h \<noteq> None" using hL(2) by (auto simp: live_def valid_ptr_def)
      obtain b e where w: "hole_window s (nd_color n) h = (b, e)" by fastforce
      then have "drm_mm_reserve_node x s = Some (- ENOSPC, s)"
        using holes(1) n h(1) hn node_reads [OF hn(2)] reservable_nd [OF n w] False
        by (auto simp: drm_mm_reserve_node_def Let_def hole_window_def)
      then show ?thesis using only False by blast
    next
      case True
      then show ?thesis using reserve_in_hole [OF inv cn x hL] h(1) F(1) by metis
    qed
  qed
qed

end
