(* ===== verification/Drm_Mm_Memory.thy ===== *)
theory Drm_Mm_Memory
  imports Drm_Mm_Insert
begin

text \<open>
  The memory the allocator works on: \<open>struct drm_mm\<close> after \<open>memset (0)\<close>, and the
  \<open>struct drm_mm_node\<close>s that callers allocate with \<open>calloc\<close> and release with \<open>free\<close>. Then a small
  allocator that the witnesses run on.
\<close>

section \<open>Zeroed objects\<close>

definition zero_node :: drm_mm_node where
  "zero_node = \<lparr>nd_color = 0, nd_start = 0, nd_size = 0, nd_mm = NULL, nd_hole_size = 0,
     nd_allocated = False, nd_scanned_block = False\<rparr>"

definition zero_list_head :: list_head where
  "zero_list_head = \<lparr>lh_next = NULL, lh_prev = NULL\<rparr>"

definition zero_rb_node :: rb_node where
  "zero_rb_node = \<lparr>rb_parent_color = 0, rb_right = NULL, rb_left = NULL\<rparr>"

text \<open>A zeroed \<open>struct drm_mm\<close> at \<open>self\<close>, with its list head \<open>hole_stack\<close> and its \<open>head_node\<close>.\<close>

definition zero_mm :: "addr \<Rightarrow> addr \<Rightarrow> addr \<Rightarrow> drm_mm" where
  "zero_mm self hole_stack head_node =
     \<lparr>mm_self = self, mm_color_adjust = None, mm_hole_stack = hole_stack, mm_head_node = head_node,
      mm_nodes = [head_node \<mapsto> zero_node], mm_node_list = [head_node \<mapsto> zero_list_head],
      mm_hole_list = [hole_stack \<mapsto> zero_list_head, head_node \<mapsto> zero_list_head],
      mm_interval_tree = \<lparr>rb_mem = [head_node \<mapsto> zero_rb_node], rb_root = NULL, rb_leftmost = NULL,
        it_subtree = [head_node \<mapsto> 0]\<rparr>,
      mm_holes_size = \<lparr>rb_mem = [head_node \<mapsto> zero_rb_node], rb_root = NULL, rb_leftmost = NULL\<rparr>,
      mm_holes_addr = \<lparr>rb_mem = [head_node \<mapsto> zero_rb_node], rb_root = NULL\<rparr>, mm_scan_active = 0\<rparr>"

text \<open>A node that comes into being, zeroed, at the address \<open>a\<close>, and one that ceases to be.\<close>

definition node_calloc :: "addr \<Rightarrow> drm_mm \<Rightarrow> drm_mm" where
  "node_calloc a s = s\<lparr>mm_nodes := (mm_nodes s)(a \<mapsto> zero_node),
     mm_node_list := (mm_node_list s)(a \<mapsto> zero_list_head), mm_hole_list := (mm_hole_list s)(a \<mapsto> zero_list_head),
     mm_interval_tree := (mm_interval_tree s)\<lparr>rb_mem := (rb_mem (mm_interval_tree s))(a \<mapsto> zero_rb_node),
       it_subtree := (it_subtree (mm_interval_tree s))(a \<mapsto> 0)\<rparr>,
     mm_holes_size := (mm_holes_size s)\<lparr>rb_mem := (rb_mem (mm_holes_size s))(a \<mapsto> zero_rb_node)\<rparr>,
     mm_holes_addr := (mm_holes_addr s)\<lparr>rb_mem := (rb_mem (mm_holes_addr s))(a \<mapsto> zero_rb_node)\<rparr>\<rparr>"

definition node_free :: "addr \<Rightarrow> drm_mm \<Rightarrow> drm_mm" where
  "node_free a s = s\<lparr>mm_nodes := (mm_nodes s)(a := None),
     mm_node_list := (mm_node_list s)(a := None), mm_hole_list := (mm_hole_list s)(a := None),
     mm_interval_tree := (mm_interval_tree s)\<lparr>rb_mem := (rb_mem (mm_interval_tree s))(a := None),
       it_subtree := (it_subtree (mm_interval_tree s))(a := None)\<rparr>,
     mm_holes_size := (mm_holes_size s)\<lparr>rb_mem := (rb_mem (mm_holes_size s))(a := None)\<rparr>,
     mm_holes_addr := (mm_holes_addr s)\<lparr>rb_mem := (rb_mem (mm_holes_addr s))(a := None)\<rparr>\<rparr>"

lemma it_seq_memcong:
  assumes "it_seq itlast s xs" and "\<And>a. a \<in> set xs \<Longrightarrow> rb_mem s' a = rb_mem s a \<and> it_subtree s' a = it_subtree s a"
    and "rb_root s' = rb_root s" "rb_leftmost s' = rb_leftmost s"
  shows "it_seq itlast s' xs"
proof -
  obtain t where t: "it_tree itlast s t" "inorder t = xs" using assms(1) by (auto simp: it_seq_def)
  have "tree_at (rb_mem s') NULL t = tree_at (rb_mem s) NULL t"
    by (rule tree_at_cong) (use assms(2) t(2) in auto)
  moreover have "aug_ok (it_comb itlast) (it_good itlast) (it_subtree s') t = aug_ok (it_comb itlast) (it_good itlast) (it_subtree s) t"
    by (rule aug_ok_cong) (use assms(2) t(2) in auto)
  ultimately have "it_tree itlast s' t"
    using t(1) assms(3,4) by (simp add: it_tree_def cached_rep_def rb_rep_def)
  then show ?thesis using t(2) by (auto simp: it_seq_def)
qed

section \<open>The invariant does not look at other nodes\<close>

definition same_at :: "addr \<Rightarrow> drm_mm \<Rightarrow> drm_mm \<Rightarrow> bool" where
  "same_at b s s' \<longleftrightarrow> mm_nodes s' b = mm_nodes s b \<and> mm_node_list s' b = mm_node_list s b \<and>
     mm_hole_list s' b = mm_hole_list s b \<and> rb_mem (mm_interval_tree s') b = rb_mem (mm_interval_tree s) b \<and>
     it_subtree (mm_interval_tree s') b = it_subtree (mm_interval_tree s) b \<and>
     rb_mem (mm_holes_size s') b = rb_mem (mm_holes_size s) b \<and> rb_mem (mm_holes_addr s') b = rb_mem (mm_holes_addr s) b"

definition same_roots :: "drm_mm \<Rightarrow> drm_mm \<Rightarrow> bool" where
  "same_roots s s' \<longleftrightarrow> mm_self s' = mm_self s \<and> mm_color_adjust s' = mm_color_adjust s \<and>
     mm_hole_stack s' = mm_hole_stack s \<and> mm_head_node s' = mm_head_node s \<and> mm_scan_active s' = mm_scan_active s \<and>
     rb_root (mm_interval_tree s') = rb_root (mm_interval_tree s) \<and>
     rb_leftmost (mm_interval_tree s') = rb_leftmost (mm_interval_tree s) \<and>
     rb_root (mm_holes_size s') = rb_root (mm_holes_size s) \<and> rb_leftmost (mm_holes_size s') = rb_leftmost (mm_holes_size s) \<and>
     rb_root (mm_holes_addr s') = rb_root (mm_holes_addr s) \<and> mm_hole_list s' (mm_hole_stack s) = mm_hole_list s (mm_hole_stack s)"

lemma same_live: "same_at b s s' \<Longrightarrow> same_roots s s' \<Longrightarrow> live s' b = live s b"
  by (simp add: same_at_def same_roots_def live_def dom_def)

lemma mm_inv_cong:
  assumes inv: "mm_inv s ns hs" and at: "\<forall>b\<in>set (mm_head_node s # ns). same_at b s s'" and roots: "same_roots s s'"
  shows "mm_inv s' ns hs"
proof -
  let ?L = "mm_head_node s # ns"
  obtain ss where holes: "holes_rep s hs ss (hole_nodes (mm_nodes s) ?L)" using inv by (auto simp: mm_inv_def)
  have I: "is_list (mm_node_list s) (mm_head_node s) ns" "head_ok s" "\<forall>a\<in>set ns. block_ok s a"
    "laid (mm_nodes s) (mm_head_node s # ns @ [mm_head_node s])" "it_seq (LAST s) (mm_interval_tree s) ns" "mm_scan_active s = 0"
    using inv by (auto simp: mm_inv_def)
  have H: "mm_head_node s' = mm_head_node s" "mm_hole_stack s' = mm_hole_stack s" "mm_self s' = mm_self s" using roots by (simp_all add: same_roots_def)
  have nodes: "mm_nodes s' b = mm_nodes s b" and nl: "mm_node_list s' b = mm_node_list s b"
    and hl: "mm_hole_list s' b = mm_hole_list s b"
    and it: "rb_mem (mm_interval_tree s') b = rb_mem (mm_interval_tree s) b \<and> it_subtree (mm_interval_tree s') b = it_subtree (mm_interval_tree s) b"
    and rs: "rb_mem (mm_holes_size s') b = rb_mem (mm_holes_size s) b" and ra: "rb_mem (mm_holes_addr s') b = rb_mem (mm_holes_addr s) b"
    if "b \<in> set ?L" for b using at that by (auto simp: same_at_def)
  have live: "live s' b = live s b" if "b \<in> set ?L" for b using same_live at roots that by blast
  have f: "n_start (mm_nodes s') b = n_start (mm_nodes s) b" "n_end (mm_nodes s') b = n_end (mm_nodes s) b"
    "n_hole (mm_nodes s') b = n_hole (mm_nodes s) b" if "b \<in> set ?L" for b
    using nodes [OF that] by (simp_all add: n_start_def n_end_def n_hole_def)
  have hn: "hole_nodes (mm_nodes s') ?L = hole_nodes (mm_nodes s) ?L" by (rule hole_nodes_cong) (use f in auto)
  have sub: "set hs \<subseteq> set ?L" "set ss \<subseteq> set ?L"
    using holes by (auto simp: holes_rep_def)
  have "is_list (mm_node_list s') (mm_head_node s') ns"
    unfolding H using I(1) is_list_cong [of "mm_head_node s" ns "mm_node_list s'" "mm_node_list s"] nl by blast
  moreover have "head_ok s'"
    using I(2) live [of "mm_head_node s"] f [of "mm_head_node s"] nodes [of "mm_head_node s"] H by (simp add: head_ok_def node_ok_def)
  moreover have "\<forall>b\<in>set ns. block_ok s' b"
    using I(3) live f nodes H by (simp add: block_ok_def node_ok_def)
  moreover have "laid (mm_nodes s') (mm_head_node s' # ns @ [mm_head_node s'])"
  proof -
    have "laid (mm_nodes s') (?L @ [mm_head_node s]) = laid (mm_nodes s) (?L @ [mm_head_node s])"
      by (rule laid_cong) (use f in \<open>auto simp: butlast_append\<close>)
    then show ?thesis using I(4) H by simp
  qed
  moreover have "it_seq (LAST s') (mm_interval_tree s') ns"
  proof -
    have "it_seq (LAST s) (mm_interval_tree s') ns"
      by (rule it_seq_memcong [OF I(5)]) (use it roots in \<open>auto simp: same_roots_def\<close>)
    then show ?thesis by (rule it_seq_cong) (use nodes in \<open>simp add: LAST_def\<close>)
  qed
  moreover have "holes_rep s' hs ss (hole_nodes (mm_nodes s') (mm_head_node s' # ns))"
  proof -
    have sets: "set hs = set (hole_nodes (mm_nodes s) ?L)" "set ss = set (hole_nodes (mm_nodes s) ?L)"
      "\<forall>b\<in>set (hole_nodes (mm_nodes s) ?L). b \<in> set ?L"
      using holes by (simp_all only: holes_rep_def in_hole_nodes) auto
    have k: "is_list (mm_hole_list s) (mm_hole_stack s) hs" "rb_seq (mm_holes_size s) ss"
      "plain_seq (mm_holes_addr s) (hole_nodes (mm_nodes s) ?L)" "\<forall>b\<in>set (hole_nodes (mm_nodes s) ?L). live s b"
      "sorted_wrt (\<lambda>a b. n_hole (mm_nodes s) a \<ge> n_hole (mm_nodes s) b) ss"
      using holes unfolding holes_rep_def by blast+
    have "is_list (mm_hole_list s') (mm_hole_stack s) hs = is_list (mm_hole_list s) (mm_hole_stack s) hs"
      by (rule is_list_cong) (use sub hl roots in \<open>auto simp: same_roots_def\<close>)
    moreover have "rb_seq (mm_holes_size s') ss"
      by (rule rb_seq_cong [OF k(2)]) (use sub rs roots in \<open>auto simp: same_roots_def\<close>)
    moreover have "plain_seq (mm_holes_addr s') (hole_nodes (mm_nodes s) ?L)"
      by (rule plain_seq_cong [OF k(3)]) (use sets(3) ra roots in \<open>auto simp: same_roots_def simp del: hole_nodes_simps\<close>)
    moreover have "sorted_wrt (\<lambda>a b. n_hole (mm_nodes s') a \<ge> n_hole (mm_nodes s') b) ss"
    proof (rule sorted_wrt_mono_rel [OF _ k(5)])
      fix c d assume "c \<in> set ss" "d \<in> set ss" and le: "n_hole (mm_nodes s) d \<le> n_hole (mm_nodes s) c"
      then have "c \<in> set ?L" "d \<in> set ?L" using sub(2) by blast+
      then show "n_hole (mm_nodes s') d \<le> n_hole (mm_nodes s') c" using f(3) le by simp
    qed
    moreover have "\<forall>b\<in>set (hole_nodes (mm_nodes s) ?L). live s' b" using k(4) sets(3) live by blast
    ultimately show ?thesis using k(1) sets(1,2) unfolding holes_rep_def H hn by blast
  qed
  ultimately show ?thesis using I(6) roots unfolding mm_inv_def by (auto simp: same_roots_def simp del: hole_nodes_simps)
qed


section \<open>calloc and free\<close>

lemma same_at_calloc: "b \<noteq> a \<Longrightarrow> same_at b s (node_calloc a s)"
  by (simp add: same_at_def node_calloc_def)

lemma same_at_free: "b \<noteq> a \<Longrightarrow> same_at b s (node_free a s)"
  by (simp add: same_at_def node_free_def)

lemma same_roots_calloc: "a \<noteq> mm_hole_stack s \<Longrightarrow> same_roots s (node_calloc a s)"
  by (simp add: same_roots_def node_calloc_def)

lemma same_roots_free: "a \<noteq> mm_hole_stack s \<Longrightarrow> same_roots s (node_free a s)"
  by (simp add: same_roots_def node_free_def)

lemma node_calloc_inv:
  assumes "mm_inv s ns hs" and "a \<notin> set (mm_head_node s # ns)" "a \<noteq> mm_hole_stack s" "valid_ptr a"
  shows "mm_inv (node_calloc a s) ns hs" "live (node_calloc a s) a"
    "\<And>b. b \<noteq> a \<Longrightarrow> live (node_calloc a s) b = live s b" "mm_nodes (node_calloc a s) a = Some zero_node"
    "mm_head_node (node_calloc a s) = mm_head_node s"
proof -
  have at: "\<forall>b\<in>set (mm_head_node s # ns). same_at b s (node_calloc a s)" using same_at_calloc assms(2) by metis
  show "mm_inv (node_calloc a s) ns hs" by (rule mm_inv_cong [OF assms(1) at same_roots_calloc [OF assms(3)]])
  show "live (node_calloc a s) a" "mm_nodes (node_calloc a s) a = Some zero_node" "mm_head_node (node_calloc a s) = mm_head_node s"
    using assms(3,4) by (simp_all add: live_def node_calloc_def)
  show "live (node_calloc a s) b = live s b" if "b \<noteq> a" for b
    by (rule same_live [OF same_at_calloc [OF that] same_roots_calloc [OF assms(3)]])
qed

lemma node_free_inv:
  assumes "mm_inv s ns hs" and "a \<notin> set (mm_head_node s # ns)" "a \<noteq> mm_hole_stack s"
  shows "mm_inv (node_free a s) ns hs" "\<And>b. b \<noteq> a \<Longrightarrow> live (node_free a s) b = live s b"
    "mm_head_node (node_free a s) = mm_head_node s"
proof -
  have at: "\<forall>b\<in>set (mm_head_node s # ns). same_at b s (node_free a s)" using same_at_free assms(2) by metis
  show "mm_inv (node_free a s) ns hs" by (rule mm_inv_cong [OF assms(1) at same_roots_free [OF assms(3)]])
  show "live (node_free a s) b = live s b" if "b \<noteq> a" for b
    by (rule same_live [OF same_at_free [OF that] same_roots_free [OF assms(3)]])
  show "mm_head_node (node_free a s) = mm_head_node s" by (simp add: node_free_def)
qed

section \<open>The allocator of the examples\<close>

text \<open>128 MB with the head node at 32, the hole stack at 24, and three free nodes.\<close>

definition example_memory :: drm_mm where
  "example_memory = node_calloc 72 (node_calloc 64 (node_calloc 48 (zero_mm 16 24 32)))"

definition example_mm :: drm_mm where
  "example_mm = the (drm_mm_init 0 0x8000000 example_memory)"

lemma example_memory_simps:
  "mm_head_node example_memory = 32" "mm_hole_stack example_memory = 24" "mm_self example_memory = 16"
  "mm_nodes example_memory = [32 \<mapsto> zero_node, 48 \<mapsto> zero_node, 64 \<mapsto> zero_node, 72 \<mapsto> zero_node]"
  "24 \<in> dom (mm_hole_list example_memory)" "dom (mm_node_list example_memory) = {32, 48, 64, 72}"
  by (auto simp: example_memory_def node_calloc_def zero_mm_def)

lemma example_memory_live: "a \<in> {32, 48, 64, 72} \<Longrightarrow> live example_memory a"
  by (auto simp: live_def example_memory_def node_calloc_def zero_mm_def valid_ptr_def aligned_def)

lemma example_mm:
  "drm_mm_init 0 0x8000000 example_memory = Some example_mm" "mm_inv example_mm [] [32]" "mm_color_adjust example_mm = None"
  "mm_head_node example_mm = 32" "n_end (mm_nodes example_mm) 32 = 0" "n_start (mm_nodes example_mm) 32 = 0x8000000"
  "n_hole (mm_nodes example_mm) 32 = 0x8000000"
  "a \<in> {32, 48, 64, 72} \<Longrightarrow> live example_mm a" "a \<in> {48, 64, 72} \<Longrightarrow> mm_nodes example_mm a = Some zero_node"
proof -
  have "\<exists>s'. drm_mm_init 0 0x8000000 example_memory = Some s' \<and> mm_inv s' [] [mm_head_node example_memory] \<and> mm_color_adjust s' = None \<and>
    mm_head_node s' = mm_head_node example_memory \<and> mm_hole_stack s' = mm_hole_stack example_memory \<and>
    n_end (mm_nodes s') (mm_head_node example_memory) = 0 \<and> n_start (mm_nodes s') (mm_head_node example_memory) = 0 + 0x8000000 \<and>
    (\<forall>b. live s' b = live example_memory b) \<and> (\<forall>b. b \<noteq> mm_head_node example_memory \<longrightarrow> mm_nodes s' b = mm_nodes example_memory b)"
    by (rule drm_mm_init_spec)
      (use example_memory_simps example_memory_live in \<open>simp_all add: zero_node_def\<close>)
  then obtain s' where s': "drm_mm_init 0 0x8000000 example_memory = Some s'" "mm_inv s' [] [32]" "mm_color_adjust s' = None"
    "mm_head_node s' = 32" "n_end (mm_nodes s') 32 = 0" "n_start (mm_nodes s') 32 = 0x8000000"
    "\<forall>b. live s' b = live example_memory b" "\<forall>b. b \<noteq> 32 \<longrightarrow> mm_nodes s' b = mm_nodes example_memory b"
    unfolding example_memory_simps by auto
  then have e: "example_mm = s'" by (simp add: example_mm_def)
  show "drm_mm_init 0 0x8000000 example_memory = Some example_mm" "mm_inv example_mm [] [32]" "mm_color_adjust example_mm = None"
    "mm_head_node example_mm = 32" "n_end (mm_nodes example_mm) 32 = 0" "n_start (mm_nodes example_mm) 32 = 0x8000000"
    unfolding e by (rule s')+
  show "n_hole (mm_nodes example_mm) 32 = 0x8000000"
    using s'(2,4,5,6) unfolding e by (simp add: mm_inv_def)
  show "a \<in> {32, 48, 64, 72} \<Longrightarrow> live example_mm a" unfolding e using s'(7) example_memory_live by blast
  show "a \<in> {48, 64, 72} \<Longrightarrow> mm_nodes example_mm a = Some zero_node" unfolding e
    using s'(8) by (auto simp: example_memory_simps)
qed

lemma example_mm_colour: "colour_narrows example_mm"
  using example_mm(3) by (simp add: colour_narrows_def adjust_colour_def)

end
