(* ===== verification/Linux_List_Ops.thy ===== *)
theory Linux_List_Ops
  imports Linux_List
begin

text \<open>
  linux/list.h beyond what the program calls: moving, swapping, replacing, rotating, cutting and splicing.

  Each operation is transcribed store by store and shown to rearrange the entries of the represented
  lists as its comment says, and to write nothing outside them. \<open>chain h xs\<close> says that neighbours of
  \<open>xs\<close> are linked in both directions.
\<close>

section \<open>The operations\<close>

text \<open>\<open>raw_list_del_clearprev\<close> is \<open>__list_del_clearprev\<close>.\<close>

definition raw_list_del_clearprev :: "addr \<Rightarrow> lheap \<Rightarrow> lheap option" where
  "raw_list_del_clearprev entry h = do {
     prev \<leftarrow> prev_of h entry;
     nxt \<leftarrow> next_of h entry;
     h \<leftarrow> raw_list_del prev nxt h;
     set_prev entry NULL h
   }"

definition list_replace_init :: "addr \<Rightarrow> addr \<Rightarrow> lheap \<Rightarrow> lheap option" where
  "list_replace_init old new h = do {
     h \<leftarrow> list_replace old new h;
     INIT_LIST_HEAD old h
   }"

definition list_swap :: "addr \<Rightarrow> addr \<Rightarrow> lheap \<Rightarrow> lheap option" where
  "list_swap entry1 entry2 h = do {
     pos \<leftarrow> prev_of h entry2;
     h \<leftarrow> list_del entry2 h;
     h \<leftarrow> list_replace entry1 entry2 h;
     let pos = (if pos = entry1 then entry2 else pos);
     list_add entry1 pos h
   }"

definition list_del_init :: "addr \<Rightarrow> lheap \<Rightarrow> lheap option" where
  "list_del_init entry h = do {
     h \<leftarrow> raw_list_del_entry entry h;
     INIT_LIST_HEAD entry h
   }"

definition list_move :: "addr \<Rightarrow> addr \<Rightarrow> lheap \<Rightarrow> lheap option" where
  "list_move list head h = do {
     h \<leftarrow> raw_list_del_entry list h;
     list_add list head h
   }"

definition list_move_tail :: "addr \<Rightarrow> addr \<Rightarrow> lheap \<Rightarrow> lheap option" where
  "list_move_tail list head h = do {
     h \<leftarrow> raw_list_del_entry list h;
     list_add_tail list head h
   }"

definition list_bulk_move_tail :: "addr \<Rightarrow> addr \<Rightarrow> addr \<Rightarrow> lheap \<Rightarrow> lheap option" where
  "list_bulk_move_tail head first lst h = do {
     fp \<leftarrow> prev_of h first;
     ln \<leftarrow> next_of h lst;
     h \<leftarrow> set_next fp ln h;
     ln \<leftarrow> next_of h lst;
     fp \<leftarrow> prev_of h first;
     h \<leftarrow> set_prev ln fp h;
     hp \<leftarrow> prev_of h head;
     h \<leftarrow> set_next hp first h;
     hp \<leftarrow> prev_of h head;
     h \<leftarrow> set_prev first hp h;
     h \<leftarrow> set_next lst head h;
     set_prev head lst h
   }"

definition list_is_first :: "addr \<Rightarrow> addr \<Rightarrow> lheap \<Rightarrow> bool option" where
  "list_is_first list head h = do { p \<leftarrow> prev_of h list; Some (p = head) }"

definition list_is_last :: "addr \<Rightarrow> addr \<Rightarrow> lheap \<Rightarrow> bool option" where
  "list_is_last list head h = do { n \<leftarrow> next_of h list; Some (n = head) }"

definition list_empty_careful :: "addr \<Rightarrow> lheap \<Rightarrow> bool option" where
  "list_empty_careful head h = do {
     nxt \<leftarrow> next_of h head;
     prev \<leftarrow> prev_of h head;
     Some (nxt = head \<and> nxt = prev)
   }"

definition list_rotate_left :: "addr \<Rightarrow> lheap \<Rightarrow> lheap option" where
  "list_rotate_left head h = do {
     e \<leftarrow> list_empty head h;
     if \<not> e then do {
       first \<leftarrow> next_of h head;
       list_move_tail first head h
     } else Some h
   }"

definition list_rotate_to_front :: "addr \<Rightarrow> addr \<Rightarrow> lheap \<Rightarrow> lheap option" where
  "list_rotate_to_front list head h = list_move_tail head list h"

definition list_is_singular :: "addr \<Rightarrow> lheap \<Rightarrow> bool option" where
  "list_is_singular head h = do {
     e \<leftarrow> list_empty head h;
     nxt \<leftarrow> next_of h head;
     prev \<leftarrow> prev_of h head;
     Some (\<not> e \<and> nxt = prev)
   }"

text \<open>\<open>raw_list_cut_position\<close> is \<open>__list_cut_position\<close>.\<close>

definition raw_list_cut_position :: "addr \<Rightarrow> addr \<Rightarrow> addr \<Rightarrow> lheap \<Rightarrow> lheap option" where
  "raw_list_cut_position list head entry h = do {
     new_first \<leftarrow> next_of h entry;
     hn \<leftarrow> next_of h head;
     h \<leftarrow> set_next list hn h;
     ln \<leftarrow> next_of h list;
     h \<leftarrow> set_prev ln list h;
     h \<leftarrow> set_prev list entry h;
     h \<leftarrow> set_next entry list h;
     h \<leftarrow> set_next head new_first h;
     set_prev new_first head h
   }"

definition list_cut_position :: "addr \<Rightarrow> addr \<Rightarrow> addr \<Rightarrow> lheap \<Rightarrow> lheap option" where
  "list_cut_position list head entry h = do {
     e \<leftarrow> list_empty head h;
     if e then Some h
     else do {
       s \<leftarrow> list_is_singular head h;
       hn \<leftarrow> next_of h head;
       if s \<and> (hn \<noteq> entry \<and> head \<noteq> entry) then Some h
       else if entry = head then INIT_LIST_HEAD list h
       else raw_list_cut_position list head entry h
     }
   }"

definition list_cut_before :: "addr \<Rightarrow> addr \<Rightarrow> addr \<Rightarrow> lheap \<Rightarrow> lheap option" where
  "list_cut_before list head entry h = do {
     hn \<leftarrow> next_of h head;
     if hn = entry then INIT_LIST_HEAD list h
     else do {
       h \<leftarrow> set_next list hn h;
       ln \<leftarrow> next_of h list;
       h \<leftarrow> set_prev ln list h;
       ep \<leftarrow> prev_of h entry;
       h \<leftarrow> set_prev list ep h;
       lp \<leftarrow> prev_of h list;
       h \<leftarrow> set_next lp list h;
       h \<leftarrow> set_next head entry h;
       set_prev entry head h
     }
   }"

text \<open>\<open>raw_list_splice\<close> is \<open>__list_splice\<close>.\<close>

definition raw_list_splice :: "addr \<Rightarrow> addr \<Rightarrow> addr \<Rightarrow> lheap \<Rightarrow> lheap option" where
  "raw_list_splice list prev nxt h = do {
     first \<leftarrow> next_of h list;
     lst \<leftarrow> prev_of h list;
     h \<leftarrow> set_prev first prev h;
     h \<leftarrow> set_next prev first h;
     h \<leftarrow> set_next lst nxt h;
     set_prev nxt lst h
   }"

definition list_splice :: "addr \<Rightarrow> addr \<Rightarrow> lheap \<Rightarrow> lheap option" where
  "list_splice list head h = do {
     e \<leftarrow> list_empty list h;
     if \<not> e then do { hn \<leftarrow> next_of h head; raw_list_splice list head hn h } else Some h
   }"

definition list_splice_tail :: "addr \<Rightarrow> addr \<Rightarrow> lheap \<Rightarrow> lheap option" where
  "list_splice_tail list head h = do {
     e \<leftarrow> list_empty list h;
     if \<not> e then do { hp \<leftarrow> prev_of h head; raw_list_splice list hp head h } else Some h
   }"

definition list_splice_init :: "addr \<Rightarrow> addr \<Rightarrow> lheap \<Rightarrow> lheap option" where
  "list_splice_init list head h = do {
     e \<leftarrow> list_empty list h;
     if \<not> e then do {
       hn \<leftarrow> next_of h head;
       h \<leftarrow> raw_list_splice list head hn h;
       INIT_LIST_HEAD list h
     } else Some h
   }"

definition list_splice_tail_init :: "addr \<Rightarrow> addr \<Rightarrow> lheap \<Rightarrow> lheap option" where
  "list_splice_tail_init list head h = do {
     e \<leftarrow> list_empty list h;
     if \<not> e then do {
       hp \<leftarrow> prev_of h head;
       h \<leftarrow> raw_list_splice list hp head h;
       INIT_LIST_HEAD list h
     } else Some h
   }"

section \<open>Chains of links\<close>

definition link :: "lheap \<Rightarrow> addr \<Rightarrow> addr \<Rightarrow> bool" where
  "link h a b \<longleftrightarrow> next_of h a = Some b \<and> prev_of h b = Some a"

definition chain :: "lheap \<Rightarrow> addr list \<Rightarrow> bool" where
  "chain h xs \<longleftrightarrow> next_path h xs \<and> prev_path h xs"

lemma chain_simps [simp]:
  "chain h []" "chain h [a]" "chain h (a # b # xs) \<longleftrightarrow> link h a b \<and> chain h (b # xs)"
  by (auto simp: chain_def link_def)

lemma chain_append: "chain h (us @ vs) \<longleftrightarrow> chain h us \<and> chain h vs \<and> (us \<noteq> [] \<and> vs \<noteq> [] \<longrightarrow> link h (last us) (hd vs))"
proof (induction us)
  case (Cons a us)
  then show ?case by (cases us; cases vs) auto
qed simp

lemma chain_split: "chain h (us @ a # vs) \<longleftrightarrow> chain h (us @ [a]) \<and> chain h (a # vs)"
  using next_path_append [of h us a vs] prev_path_append [of h us a vs] by (auto simp: chain_def)

lemma chain_Cons: "chain h (a # vs) \<longleftrightarrow> chain h vs \<and> (vs \<noteq> [] \<longrightarrow> link h a (hd vs))"
  by (cases vs) auto

lemma chain_cong:
  assumes "\<forall>q\<in>set (butlast xs). next_of h' q = next_of h q" "\<forall>q\<in>set (tl xs). prev_of h' q = prev_of h q"
  shows "chain h' xs = chain h xs"
  using assms next_path_cong [of xs h' h] prev_path_cong [of xs h' h] by (simp add: chain_def)

lemma chain_upd [simp]:
  "p \<in> dom h \<Longrightarrow> p \<notin> set (butlast xs) \<Longrightarrow> chain (upd_next p v h) xs = chain h xs"
  "p \<in> dom h \<Longrightarrow> p \<notin> set (tl xs) \<Longrightarrow> chain (upd_prev p v h) xs = chain h xs"
  by (simp_all add: chain_def)

lemma is_list_chain: "is_list h head xs \<longleftrightarrow> distinct (head # xs) \<and> chain h (head # xs @ [head])"
  by (simp add: is_list_def chain_def)

text \<open>The parts of a list with entries, from its head.\<close>

lemma is_list_ends:
  assumes "is_list h head xs" "xs \<noteq> []"
  shows "chain h xs" "next_of h head = Some (hd xs)" "prev_of h (hd xs) = Some head" "next_of h (last xs) = Some head"
    "prev_of h head = Some (last xs)"
  using assms by (auto simp: is_list_chain chain_append chain_Cons link_def)

lemma last_butlast: "distinct xs \<Longrightarrow> xs \<noteq> [] \<Longrightarrow> last xs \<notin> set (butlast xs) \<and> hd xs \<notin> set (tl xs)"
proof (intro conjI)
  assume a: "distinct xs" "xs \<noteq> []"
  show "last xs \<notin> set (butlast xs)" using a by (cases xs rule: rev_cases) auto
  show "hd xs \<notin> set (tl xs)" using a by (cases xs) auto
qed

lemma set_butlast_tl: "set (butlast xs) \<subseteq> set xs" "set (tl xs) \<subseteq> set xs"
  by (auto dest: in_set_butlastD) (cases xs; simp)

section \<open>Splicing\<close>

text \<open>The entries \<open>xs\<close> of one list go between two neighbours of the list \<open>ys @ zs\<close>.\<close>

lemma raw_list_splice_spec:
  assumes l: "is_list h list xs" "xs \<noteq> []" and t: "is_list h head (ys @ zs)" and dis: "set (list # xs) \<inter> set (head # ys @ zs) = {}"
  shows "\<exists>h'. raw_list_splice list (last (head # ys)) (hd (zs @ [head])) h = Some h' \<and> is_list h' head (ys @ xs @ zs) \<and>
    dom h' = dom h \<and> (\<forall>q. q \<notin> set (head # xs @ ys @ zs) \<longrightarrow> h' q = h q)"
proof -
  define a b where "a = last (head # ys)" and "b = hd (zs @ [head])"
  note E = is_list_ends [OF l]
  have mem: "a \<in> set (head # ys)" "b \<in> set (zs @ [head])" "hd xs \<in> set xs" "last xs \<in> set xs"
    unfolding a_def b_def using l(2) by (simp_all only: last_in_set hd_in_set list.distinct append_is_Nil_conv not_False_eq_True simp_thms)
  have dom: "a \<in> dom h" "b \<in> dom h" "hd xs \<in> dom h" "last xs \<in> dom h"
    using is_list_dom [OF l(1)] is_list_dom [OF t] mem by auto
  have T: "distinct (head # ys)" "distinct (zs @ [head])" "chain h (head # ys)" "chain h (zs @ [head])"
    using t by (auto simp: is_list_chain chain_append chain_Cons)
  have n: "last xs \<notin> set (butlast xs)" "hd xs \<notin> set (tl xs)" "a \<notin> set (butlast (head # ys))" "b \<notin> set (tl (zs @ [head]))"
    using last_butlast [of xs] last_butlast [OF T(1)] last_butlast [OF T(2)] l by (simp_all add: a_def b_def is_list_chain)
  have sub: "set (butlast xs) \<subseteq> set xs" "set (tl xs) \<subseteq> set xs" "set (butlast (head # ys)) \<subseteq> set (head # ys)" "set (tl (head # ys)) \<subseteq> set ys"
    "set (butlast (zs @ [head])) = set zs" "set (tl (zs @ [head])) \<subseteq> set (zs @ [head])"
    using set_butlast_tl [of xs] set_butlast_tl [of "head # ys"] set_butlast_tl [of "zs @ [head]"] by simp_all
  define h' where "h' = upd_prev b (last xs) (upd_next (last xs) b (upd_next a (hd xs) (upd_prev (hd xs) a h)))"
  have run: "raw_list_splice list a b h = Some h'"
    using E dom by (simp add: raw_list_splice_def h'_def)
  have "distinct (head # ys @ zs)" using t by (simp add: is_list_chain)
  then have out: "a \<notin> set zs" "b \<notin> set ys" using mem by auto
  have x: "last xs \<notin> set (head # ys @ zs)" "hd xs \<notin> set (head # ys @ zs)" "a \<notin> set xs" "b \<notin> set xs"
    using dis mem by auto
  have N: "next_of h' q = (if q = last xs then Some b else if q = a then Some (hd xs) else next_of h q)"
    and P: "prev_of h' q = (if q = b then Some (last xs) else if q = hd xs then Some a else prev_of h q)" for q
    using dom by (simp_all add: h'_def)
  have c: "chain h' xs" "chain h' (head # ys)" "chain h' (zs @ [head])"
  proof -
    have "\<forall>q\<in>set (butlast xs). q \<noteq> last xs \<and> q \<noteq> a" "\<forall>q\<in>set (tl xs). q \<noteq> b \<and> q \<noteq> hd xs"
      using n x sub by blast+
    then show "chain h' xs" using E(1) chain_cong [of xs h' h] by (simp add: N P)
    have "\<forall>q\<in>set (butlast (head # ys)). q \<noteq> last xs \<and> q \<noteq> a" "\<forall>q\<in>set ys. q \<noteq> b \<and> q \<noteq> hd xs"
      using n x sub out by (simp_all del: butlast.simps) blast+
    then show "chain h' (head # ys)" using T(3) chain_cong [of "head # ys" h' h] by (simp add: N P del: butlast.simps)
    have "\<forall>q\<in>set zs. q \<noteq> last xs \<and> q \<noteq> a" "\<forall>q\<in>set (tl (zs @ [head])). q \<noteq> b \<and> q \<noteq> hd xs"
      using n x sub out by auto
    then show "chain h' (zs @ [head])" using T(4) chain_cong [of "zs @ [head]" h' h] by (simp add: N P sub(5) del: tl_append2)
  qed
  have k: "link h' a (hd xs)" "link h' (last xs) b" unfolding h'_def link_def using dom x mem by auto
  have "chain h' ((head # ys) @ xs @ (zs @ [head]))"
    using c k l(2) chain_append [of h' "head # ys" "xs @ zs @ [head]"] chain_append [of h' xs "zs @ [head]"]
    by (simp add: a_def b_def)
  then have "is_list h' head (ys @ xs @ zs)" using l(1) t dis by (auto simp: is_list_chain)
  moreover have "dom h' = dom h" using dom by (auto simp: h'_def)
  moreover have "h' q = h q" if "q \<notin> set (head # xs @ ys @ zs)" for q using that mem by (auto simp: h'_def)
  ultimately show ?thesis using run unfolding a_def b_def by blast
qed

lemma list_splice_spec:
  assumes l: "is_list h list xs" and t: "is_list h head ys" and dis: "set (list # xs) \<inter> set (head # ys) = {}"
  shows "\<exists>h'. list_splice list head h = Some h' \<and> is_list h' head (xs @ ys) \<and> dom h' = dom h \<and>
    (\<forall>q. q \<notin> set (head # xs @ ys) \<longrightarrow> h' q = h q)"
proof (cases "xs = []")
  case True
  then show ?thesis using t list_empty_spec [OF l] by (simp add: list_splice_def)
next
  case False
  then show ?thesis
    using raw_list_splice_spec [OF l False, of head "[]" ys] t dis list_empty_spec [OF l] is_list_next [of h head "[]" ys]
    by (simp add: list_splice_def)
qed

lemma list_splice_tail_spec:
  assumes l: "is_list h list xs" and t: "is_list h head ys" and dis: "set (list # xs) \<inter> set (head # ys) = {}"
  shows "\<exists>h'. list_splice_tail list head h = Some h' \<and> is_list h' head (ys @ xs) \<and> dom h' = dom h \<and>
    (\<forall>q. q \<notin> set (head # xs @ ys) \<longrightarrow> h' q = h q)"
proof (cases "xs = []")
  case True
  then show ?thesis using t list_empty_spec [OF l] by (simp add: list_splice_tail_def)
next
  case False
  have "prev_of h head = Some (last (head # ys))" using is_list_prev [of h head ys "[]"] t by simp
  then show ?thesis
    using raw_list_splice_spec [OF l False, of head ys "[]"] t dis list_empty_spec [OF l] False
    by (simp add: list_splice_tail_def del: last.simps)
qed

text \<open>Making the list that was emptied a list again touches nothing of the joined one.\<close>

lemma INIT_LIST_HEAD_apart:
  assumes "is_list h head xs" and "list \<in> dom h" and "list \<notin> set (head # xs)"
  shows "\<exists>h'. INIT_LIST_HEAD list h = Some h' \<and> is_list h' list [] \<and> is_list h' head xs \<and> dom h' = dom h \<and>
    (\<forall>q. q \<noteq> list \<longrightarrow> h' q = h q)"
proof -
  obtain h' where h': "INIT_LIST_HEAD list h = Some h'" "is_list h' list []" "dom h' = dom h" "\<forall>q. q \<noteq> list \<longrightarrow> h' q = h q"
    using INIT_LIST_HEAD_spec [OF assms(2)] by blast
  moreover have "is_list h' head xs" using h'(4) assms by (subst is_list_cong [of _ _ _ h]) auto
  ultimately show ?thesis by blast
qed

lemma list_splice_init_spec:
  assumes l: "is_list h list xs" and t: "is_list h head ys" and dis: "set (list # xs) \<inter> set (head # ys) = {}"
  shows "\<exists>h'. list_splice_init list head h = Some h' \<and> is_list h' head (xs @ ys) \<and> is_list h' list [] \<and> dom h' = dom h \<and>
    (\<forall>q. q \<notin> set (list # head # xs @ ys) \<longrightarrow> h' q = h q)"
proof (cases "xs = []")
  case True
  then show ?thesis using t l list_empty_spec [OF l] by (simp add: list_splice_init_def)
next
  case False
  obtain h1 where h1: "list_splice list head h = Some h1" "is_list h1 head (xs @ ys)" "dom h1 = dom h"
    "\<forall>q. q \<notin> set (head # xs @ ys) \<longrightarrow> h1 q = h q" using list_splice_spec [OF assms] by blast
  have i: "list \<in> dom h1" "list \<notin> set (head # xs @ ys)" using is_list_dom [OF l] h1(3) dis l by (auto simp: is_list_def)
  obtain h2 where h2: "INIT_LIST_HEAD list h1 = Some h2" "is_list h2 list []" "is_list h2 head (xs @ ys)" "dom h2 = dom h1"
    "\<forall>q. q \<noteq> list \<longrightarrow> h2 q = h1 q" using INIT_LIST_HEAD_apart [OF h1(2) i] by blast
  have "next_of h head = Some (hd (ys @ [head]))" using is_list_next [of h head "[]" ys] t by simp
  then have "list_splice_init list head h = Some h2" using h1(1) h2(1) list_empty_spec [OF l] False
    by (simp add: list_splice_init_def list_splice_def)
  then show ?thesis using h1 h2 by (intro exI [of _ h2]) simp
qed

lemma list_splice_tail_init_spec:
  assumes l: "is_list h list xs" and t: "is_list h head ys" and dis: "set (list # xs) \<inter> set (head # ys) = {}"
  shows "\<exists>h'. list_splice_tail_init list head h = Some h' \<and> is_list h' head (ys @ xs) \<and> is_list h' list [] \<and> dom h' = dom h \<and>
    (\<forall>q. q \<notin> set (list # head # xs @ ys) \<longrightarrow> h' q = h q)"
proof (cases "xs = []")
  case True
  then show ?thesis using t l list_empty_spec [OF l] by (simp add: list_splice_tail_init_def)
next
  case False
  obtain h1 where h1: "list_splice_tail list head h = Some h1" "is_list h1 head (ys @ xs)" "dom h1 = dom h"
    "\<forall>q. q \<notin> set (head # xs @ ys) \<longrightarrow> h1 q = h q" using list_splice_tail_spec [OF assms] by blast
  have i: "list \<in> dom h1" "list \<notin> set (head # ys @ xs)" using is_list_dom [OF l] h1(3) dis l by (auto simp: is_list_def)
  obtain h2 where h2: "INIT_LIST_HEAD list h1 = Some h2" "is_list h2 list []" "is_list h2 head (ys @ xs)" "dom h2 = dom h1"
    "\<forall>q. q \<noteq> list \<longrightarrow> h2 q = h1 q" using INIT_LIST_HEAD_apart [OF h1(2) i] by blast
  have "prev_of h head = Some (last (head # ys))" using is_list_prev [of h head ys "[]"] t by simp
  then have "list_splice_tail_init list head h = Some h2" using h1(1) h2(1) list_empty_spec [OF l] False
    by (simp add: list_splice_tail_init_def list_splice_tail_def)
  then show ?thesis using h1 h2 by (intro exI [of _ h2]) simp
qed

section \<open>Cutting\<close>

lemma raw_list_cut_position_spec:
  assumes l: "is_list h head (ms @ ys)" "ms \<noteq> []" and d: "list \<in> dom h" "list \<notin> set (head # ms @ ys)"
  shows "\<exists>h'. raw_list_cut_position list head (last ms) h = Some h' \<and> is_list h' list ms \<and> is_list h' head ys \<and>
    dom h' = dom h \<and> (\<forall>q. q \<notin> set (list # head # ms @ ys) \<longrightarrow> h' q = h q)"
proof -
  define b where "b = hd (ys @ [head])"
  have C: "chain h ms" "chain h (ys @ [head])" "link h head (hd ms)" "link h (last ms) b"
    using l by (auto simp: is_list_chain chain_append chain_Cons b_def)
  have mem: "b \<in> set (ys @ [head])" "hd ms \<in> set ms" "last ms \<in> set ms"
    unfolding b_def using l(2) by (simp_all only: last_in_set hd_in_set append_is_Nil_conv list.distinct not_False_eq_True simp_thms)
  have dist: "distinct ms" "distinct (ys @ [head])" "distinct (head # ms @ ys)" using l by (auto simp: is_list_chain)
  have dom: "head \<in> dom h" "b \<in> dom h" "hd ms \<in> dom h" "last ms \<in> dom h" using is_list_dom [OF l(1)] mem by auto
  note n = last_butlast [OF dist(1) l(2)] last_butlast [OF dist(2), folded b_def]
  have ne: "head \<noteq> hd ms" "head \<noteq> last ms" "head \<noteq> list" "list \<noteq> hd ms" "list \<noteq> last ms" "list \<noteq> b" "b \<noteq> hd ms" "b \<noteq> last ms"
    "b \<notin> set ms" "list \<notin> set ms" "head \<notin> set ms" "list \<notin> set ys" "last ms \<notin> set ys" "hd ms \<notin> set ys" "head \<notin> set ys"
    using mem d dist by auto
  define h' where "h' = upd_prev b head (upd_next head b (upd_next (last ms) list (upd_prev list (last ms)
    (upd_prev (hd ms) list (upd_next list (hd ms) h)))))"
  have run: "raw_list_cut_position list head (last ms) h = Some h'"
    using C(3,4) dom d(1) ne by (simp add: raw_list_cut_position_def h'_def link_def)
  have N: "next_of h' q = (if q = head then Some b else if q = last ms then Some list else if q = list then Some (hd ms) else next_of h q)"
    and P: "prev_of h' q = (if q = b then Some head else if q = list then Some (last ms) else if q = hd ms then Some list else prev_of h q)" for q
    using dom d(1) by (simp_all add: h'_def)
  have "\<forall>q\<in>set (butlast ms). q \<noteq> head \<and> q \<noteq> last ms \<and> q \<noteq> list" "\<forall>q\<in>set (tl ms). q \<noteq> b \<and> q \<noteq> list \<and> q \<noteq> hd ms"
    using n ne set_butlast_tl [of ms] by blast+
  then have c1: "chain h' ms" using C(1) chain_cong [of ms h' h] by (simp add: N P)
  have "\<forall>q\<in>set ys. q \<noteq> head \<and> q \<noteq> last ms \<and> q \<noteq> list" "\<forall>q\<in>set (tl (ys @ [head])). q \<noteq> b \<and> q \<noteq> list \<and> q \<noteq> hd ms"
    using n ne set_butlast_tl [of "ys @ [head]"] by auto
  then have c2: "chain h' (ys @ [head])" using C(2) chain_cong [of "ys @ [head]" h' h] by (simp add: N P del: tl_append2)
  have k: "link h' list (hd ms)" "link h' (last ms) list" "link h' head b" using ne by (simp_all add: link_def N P)
  have "is_list h' list ms" using c1 k l(2) dist ne by (simp add: is_list_chain chain_append chain_Cons)
  moreover have "is_list h' head ys" using c2 k dist by (simp add: is_list_chain chain_Cons b_def)
  moreover have "dom h' = dom h" using dom d(1) by (auto simp: h'_def)
  moreover have "h' q = h q" if "q \<notin> set (list # head # ms @ ys)" for q using that mem by (auto simp: h'_def)
  ultimately show ?thesis using run by blast
qed

lemma list_is_singular_spec: "is_list h head xs \<Longrightarrow> list_is_singular head h = Some (length xs = 1)"
  by (cases xs; cases "tl xs" rule: rev_cases)
    (auto simp: list_is_singular_def list_empty_def is_list_chain chain_append chain_Cons link_def)

lemma list_cut_position_spec:
  assumes l: "is_list h head (ms @ ys)" "ms \<noteq> []" and d: "list \<in> dom h" "list \<notin> set (head # ms @ ys)"
  shows "\<exists>h'. list_cut_position list head (last ms) h = Some h' \<and> is_list h' list ms \<and> is_list h' head ys \<and>
    dom h' = dom h \<and> (\<forall>q. q \<notin> set (list # head # ms @ ys) \<longrightarrow> h' q = h q)"
proof -
  have "last ms \<noteq> head" using l by (auto simp: is_list_def)
  moreover have "next_of h head = Some (hd ms)" using is_list_ends(2) [OF l(1)] l(2) by simp
  moreover have "length (ms @ ys) = 1 \<Longrightarrow> hd ms = last ms" using l(2) by (cases ms) auto
  ultimately show ?thesis
    using raw_list_cut_position_spec [OF assms] list_empty_spec [OF l(1)] list_is_singular_spec [OF l(1)] l(2)
    by (auto simp: list_cut_position_def)
qed

lemma list_cut_position_head:
  assumes l: "is_list h head xs" "xs \<noteq> []" and d: "list \<in> dom h" "list \<notin> set (head # xs)"
  shows "\<exists>h'. list_cut_position list head head h = Some h' \<and> is_list h' list [] \<and> is_list h' head xs \<and>
    dom h' = dom h \<and> (\<forall>q. q \<noteq> list \<longrightarrow> h' q = h q)"
  using INIT_LIST_HEAD_apart [OF l(1) d] list_empty_spec [OF l(1)] list_is_singular_spec [OF l(1)] is_list_ends(2) [OF l] l(2)
  by (simp add: list_cut_position_def)

text \<open>Cutting before an entry is cutting at its predecessor; before the head it takes everything.\<close>

lemma list_cut_before_spec:
  assumes l: "is_list h head (ms @ ys)" and d: "list \<in> dom h" "list \<notin> set (head # ms @ ys)"
  shows "\<exists>h'. list_cut_before list head (hd (ys @ [head])) h = Some h' \<and> is_list h' list ms \<and> is_list h' head ys \<and>
    dom h' = dom h \<and> (\<forall>q. q \<notin> set (list # head # ms @ ys) \<longrightarrow> h' q = h q)"
proof (cases "ms = []")
  case True
  then show ?thesis using INIT_LIST_HEAD_apart [of h head ys list] assms is_list_next [of h head "[]" ys]
    by (auto simp: list_cut_before_def)
next
  case False
  define b where "b = hd (ys @ [head])"
  have mem: "b \<in> set (ys @ [head])" "hd ms \<in> set ms" "last ms \<in> set ms"
    unfolding b_def using False by (simp_all only: last_in_set hd_in_set append_is_Nil_conv list.distinct not_False_eq_True simp_thms)
  have k: "next_of h head = Some (hd ms)" "prev_of h b = Some (last ms)" "next_of h (last ms) = Some b"
    using is_list_next [of h head "[]" "ms @ ys"] is_list_next [of h head ms ys] is_list_prev [OF l] l False by (simp_all add: b_def)
  have dom: "head \<in> dom h" "b \<in> dom h" "hd ms \<in> dom h" "last ms \<in> dom h" using is_list_dom [OF l] mem by auto
  have ne: "hd ms \<noteq> b" "list \<noteq> hd ms" "list \<noteq> last ms" "list \<noteq> b" "last ms \<noteq> head" "b \<noteq> last ms" "head \<noteq> list"
    using mem d l by (auto simp: is_list_def)
  have "list_cut_before list head b h = raw_list_cut_position list head (last ms) h"
    using k dom d(1) ne by (auto simp: list_cut_before_def raw_list_cut_position_def intro!: lheap_eqI)
  then show ?thesis using raw_list_cut_position_spec [OF l False d] by (simp add: b_def)
qed

section \<open>Moving and rotating\<close>

text \<open>A circular list can be read from any of its elements.\<close>

lemma is_list_turn: "is_list h head (ys @ e # zs) \<longleftrightarrow> is_list h e (zs @ head # ys)"
proof -
  have "chain h (head # ys @ e # zs @ [head]) \<longleftrightarrow> chain h (e # zs @ head # ys @ [e])"
    using chain_split [of h "head # ys" e "zs @ [head]"] chain_split [of h "e # zs" head "ys @ [e]"] by auto
  then show ?thesis by (auto simp: is_list_chain)
qed

lemma list_move_spec:
  assumes "is_list h head (ys @ e # zs)"
  shows "\<exists>h'. list_move e head h = Some h' \<and> is_list h' head (e # ys @ zs) \<and> dom h' = dom h \<and>
    (\<forall>q. q \<notin> set (e # head # ys @ zs) \<longrightarrow> h' q = h q)"
proof -
  obtain h1 where h1: "raw_list_del_entry e h = Some h1" "is_list h1 head ([] @ ys @ zs)" "dom h1 = dom h"
    "\<forall>q. q \<notin> set (head # ys @ zs) \<longrightarrow> h1 q = h q" using raw_list_del_entry_spec [OF assms] by auto
  have "e \<in> dom h1" "e \<notin> set (head # [] @ ys @ zs)" using is_list_dom [OF assms] h1(3) assms by (auto simp: is_list_def)
  from list_add_spec [OF h1(2) this] h1 show ?thesis by (auto simp: list_move_def)
qed

lemma list_move_tail_spec:
  assumes "is_list h head (ys @ e # zs)"
  shows "\<exists>h'. list_move_tail e head h = Some h' \<and> is_list h' head (ys @ zs @ [e]) \<and> dom h' = dom h \<and>
    (\<forall>q. q \<notin> set (e # head # ys @ zs) \<longrightarrow> h' q = h q)"
proof -
  obtain h1 where h1: "raw_list_del_entry e h = Some h1" "is_list h1 head ((ys @ zs) @ [])" "dom h1 = dom h"
    "\<forall>q. q \<notin> set (head # ys @ zs) \<longrightarrow> h1 q = h q" using raw_list_del_entry_spec [OF assms] by auto
  have "e \<in> dom h1" "e \<notin> set (head # (ys @ zs) @ [])" using is_list_dom [OF assms] h1(3) assms by (auto simp: is_list_def)
  from list_add_tail_spec [OF h1(2) this] h1 show ?thesis by (auto simp: list_move_tail_def)
qed

lemma list_rotate_left_spec:
  assumes "is_list h head xs"
  shows "\<exists>h'. list_rotate_left head h = Some h' \<and> is_list h' head (rotate1 xs) \<and> dom h' = dom h \<and>
    (\<forall>q. q \<notin> set (head # xs) \<longrightarrow> h' q = h q)"
proof (cases xs)
  case Nil
  then show ?thesis using assms list_empty_spec [OF assms] by (simp add: list_rotate_left_def)
next
  case (Cons x zs)
  then show ?thesis using list_move_tail_spec [of h head "[]" x zs] assms list_empty_spec [OF assms] is_list_ends(2) [OF assms]
    by (auto simp: list_rotate_left_def)
qed

lemma list_rotate_to_front_spec:
  assumes "is_list h head (ys @ e # zs)"
  shows "\<exists>h'. list_rotate_to_front e head h = Some h' \<and> is_list h' head (e # zs @ ys) \<and> dom h' = dom h \<and>
    (\<forall>q. q \<notin> set (e # head # ys @ zs) \<longrightarrow> h' q = h q)"
  using list_move_tail_spec [of h e zs head ys] assms is_list_turn [of h head ys e zs] is_list_turn [of _ e "zs @ ys" head "[]"]
  by (auto simp: list_rotate_to_front_def)

lemma list_bulk_move_tail_spec:
  assumes l: "is_list h head (ys @ ms @ zs)" "ms \<noteq> []"
  shows "\<exists>h'. list_bulk_move_tail head (hd ms) (last ms) h = Some h' \<and> is_list h' head (ys @ zs @ ms) \<and>
    dom h' = dom h \<and> (\<forall>q. q \<notin> set (head # ys @ ms @ zs) \<longrightarrow> h' q = h q)"
proof -
  define a b p where "a = last (head # ys)" and "b = hd (zs @ [head])" and "p = last (a # zs)"
  have mem: "a \<in> set (head # ys)" "b \<in> set (zs @ [head])" "hd ms \<in> set ms" "last ms \<in> set ms" "p \<in> set (a # zs)"
    unfolding a_def b_def p_def using l(2) by (simp_all only: last_in_set hd_in_set append_is_Nil_conv list.distinct not_False_eq_True simp_thms)
  have dist: "distinct (head # ys)" "distinct ms" "distinct zs" "distinct (a # zs)" "distinct (zs @ [head])" "distinct (head # ys @ ms @ zs)"
    using l mem(1) by (auto simp: is_list_chain)
  have C: "chain h (head # ys)" "chain h ms" "chain h zs" "link h a (hd ms)" "link h (last ms) b"
    using l by (auto simp: is_list_chain chain_append chain_Cons a_def b_def)
  have p: "prev_of h head = Some (if zs = [] then last ms else p)"
    using l by (auto simp: is_list_chain chain_append chain_Cons p_def link_def)
  have dom: "head \<in> dom h" "a \<in> dom h" "b \<in> dom h" "hd ms \<in> dom h" "last ms \<in> dom h" "p \<in> dom h"
    using is_list_dom [OF l(1)] mem by auto
  have b: "b = head \<longleftrightarrow> zs = []" using dist(5) by (cases zs) (auto simp: b_def)
  have ne: "last ms \<noteq> a" "last ms \<noteq> p" "hd ms \<noteq> b" "hd ms \<noteq> head" "last ms \<noteq> head" "a \<notin> set ms" "p \<notin> set ms" "b \<notin> set ms"
    "head \<notin> set ms" "a \<notin> set zs" "last ms \<notin> set zs" "hd ms \<notin> set zs" "head \<notin> set zs" "p \<notin> set ys - {a}" "b \<notin> set ys"
    "hd ms \<notin> set ys" "last ms \<notin> set ys" "head \<notin> set ys"
    using mem dist by auto
  have px: "zs = [] \<Longrightarrow> p = a" "zs \<noteq> [] \<Longrightarrow> p = last zs" by (simp_all add: p_def)
  define h' where "h' = upd_prev head (last ms) (upd_next (last ms) head (upd_prev (hd ms) p (upd_next p (hd ms)
    (upd_prev b a (upd_next a b h)))))"
  have run: "list_bulk_move_tail head (hd ms) (last ms) h = Some h'"
    using C(4,5) dom ne p b px by (cases "zs = []") (simp_all add: list_bulk_move_tail_def h'_def link_def)
  have N: "next_of h' q = (if q = last ms then Some head else if q = p then Some (hd ms) else if q = a then Some b else next_of h q)"
    and P: "prev_of h' q = (if q = head then Some (last ms) else if q = hd ms then Some p else if q = b then Some a else prev_of h q)" for q
    using dom by (simp_all add: h'_def)
  note n = last_butlast [OF dist(1), folded a_def] last_butlast [OF dist(2) l(2)] set_butlast_tl [of ms] set_butlast_tl [of zs]
    set_butlast_tl [of "head # ys"]
  have z: "zs \<noteq> [] \<Longrightarrow> p \<notin> set (butlast zs) \<and> b \<notin> set (tl zs)" using last_butlast [OF dist(3)] px by (simp add: b_def)
  have "\<forall>q\<in>set (butlast (head # ys)). q \<noteq> last ms \<and> q \<noteq> p \<and> q \<noteq> a"
    using n ne mem(5) by (auto simp del: butlast.simps)
  moreover have "\<forall>q\<in>set ys. q \<noteq> head \<and> q \<noteq> hd ms \<and> q \<noteq> b" using ne by blast
  ultimately have c1: "chain h' (head # ys)" using C(1) chain_cong [of "head # ys" h' h] by (simp add: N P del: butlast.simps)
  have "\<forall>q\<in>set (butlast ms). q \<noteq> last ms \<and> q \<noteq> p \<and> q \<noteq> a" "\<forall>q\<in>set (tl ms). q \<noteq> head \<and> q \<noteq> hd ms \<and> q \<noteq> b"
    using n l(2) ne by blast+
  then have c2: "chain h' ms" using C(2) chain_cong [of ms h' h] by (simp add: N P)
  have c3: "chain h' zs"
  proof (cases "zs = []")
    case False
    have "\<forall>q\<in>set (butlast zs). q \<noteq> last ms \<and> q \<noteq> p \<and> q \<noteq> a" "\<forall>q\<in>set (tl zs). q \<noteq> head \<and> q \<noteq> hd ms \<and> q \<noteq> b"
      using n z [OF False] ne by blast+
    then show ?thesis using C(3) chain_cong [of zs h' h] by (simp add: N P)
  qed simp
  have k: "link h' (last ms) head" "link h' p (hd ms)" "zs \<noteq> [] \<Longrightarrow> link h' a (hd zs)"
    using ne b px mem(5) by (auto simp: link_def N P b_def)
  have "chain h' ((head # ys) @ zs @ ms @ [head])"
    using c1 c2 c3 k l(2) px unfolding chain_append
    by (cases "zs = []") (simp_all add: a_def [symmetric] hd_append del: last.simps)
  then have "is_list h' head (ys @ zs @ ms)" using dist(6) by (auto simp: is_list_chain)
  moreover have "dom h' = dom h" using dom by (auto simp: h'_def)
  moreover have "h' q = h q" if "q \<notin> set (head # ys @ ms @ zs)" for q using that mem by (auto simp: h'_def)
  ultimately show ?thesis using run by blast
qed

section \<open>Replacing and swapping\<close>

lemma list_replace_spec:
  assumes l: "is_list h head (ys @ old # zs)" and n: "new \<in> dom h" "new \<notin> set (head # ys @ old # zs)"
  shows "\<exists>h'. list_replace old new h = Some h' \<and> is_list h' head (ys @ new # zs) \<and> dom h' = dom h \<and> h' old = h old \<and>
    (\<forall>q. q \<notin> set (new # head # ys @ zs) \<longrightarrow> h' q = h q)"
proof -
  define a b where "a = last (head # ys)" and "b = hd (zs @ [head])"
  have mem: "a \<in> set (head # ys)" "b \<in> set (zs @ [head])"
    unfolding a_def b_def by (simp_all only: last_in_set hd_in_set append_is_Nil_conv list.distinct not_False_eq_True simp_thms)
  have dist: "distinct (head # ys)" "distinct (zs @ [head])" "distinct (head # ys @ old # zs)" using l by (auto simp: is_list_chain)
  have C: "chain h (head # ys)" "chain h (zs @ [head])" "link h a old" "link h old b"
    using l by (auto simp: is_list_chain chain_append chain_Cons a_def b_def)
  have dom: "a \<in> dom h" "b \<in> dom h" "old \<in> dom h" using is_list_dom [OF l] mem by auto
  have ne: "a \<noteq> old" "b \<noteq> old" "new \<noteq> old" "a \<noteq> new" "b \<noteq> new" "a \<notin> set zs" "b \<notin> set ys" "new \<notin> set ys" "new \<notin> set zs" "new \<noteq> head"
    using mem n dist by auto
  define h' where "h' = upd_next a new (upd_prev new a (upd_prev b new (upd_next new b h)))"
  have run: "list_replace old new h = Some h'" using C(3,4) dom n(1) ne by (simp add: list_replace_def h'_def link_def)
  have N: "next_of h' q = (if q = a then Some new else if q = new then Some b else next_of h q)"
    and P: "prev_of h' q = (if q = new then Some a else if q = b then Some new else prev_of h q)" for q
    using dom n(1) by (simp_all add: h'_def)
  note k = last_butlast [OF dist(1), folded a_def] last_butlast [OF dist(2), folded b_def] set_butlast_tl [of "head # ys"]
    set_butlast_tl [of "zs @ [head]"]
  have "\<forall>q\<in>set (butlast (head # ys)). q \<noteq> a \<and> q \<noteq> new" "\<forall>q\<in>set ys. q \<noteq> new \<and> q \<noteq> b"
    using k ne by (auto simp del: butlast.simps)
  then have c1: "chain h' (head # ys)" using C(1) chain_cong [of "head # ys" h' h] by (simp add: N P del: butlast.simps)
  have "\<forall>q\<in>set zs. q \<noteq> a \<and> q \<noteq> new" "\<forall>q\<in>set (tl (zs @ [head])). q \<noteq> new \<and> q \<noteq> b"
    using k ne by auto
  then have c2: "chain h' (zs @ [head])" using C(2) chain_cong [of "zs @ [head]" h' h] by (simp add: N P del: tl_append2)
  have "link h' a new" "link h' new b" using ne by (auto simp: link_def N P)
  then have "is_list h' head (ys @ new # zs)"
    using c1 c2 chain_append [of h' "head # ys" "new # zs @ [head]"] chain_Cons [of h' new "zs @ [head]"] dist n(2)
    by (auto simp: is_list_chain a_def b_def)
  moreover have "dom h' = dom h" "h' old = h old" using dom n(1) ne by (auto simp: h'_def)
  moreover have "h' q = h q" if "q \<notin> set (new # head # ys @ zs)" for q using that mem by (auto simp: h'_def)
  ultimately show ?thesis using run by blast
qed

lemma list_replace_init_spec:
  assumes l: "is_list h head (ys @ old # zs)" and n: "new \<in> dom h" "new \<notin> set (head # ys @ old # zs)"
  shows "\<exists>h'. list_replace_init old new h = Some h' \<and> is_list h' head (ys @ new # zs) \<and> is_list h' old [] \<and> dom h' = dom h \<and>
    (\<forall>q. q \<notin> set (new # head # ys @ old # zs) \<longrightarrow> h' q = h q)"
proof -
  obtain h1 where h1: "list_replace old new h = Some h1" "is_list h1 head (ys @ new # zs)" "dom h1 = dom h"
    "\<forall>q. q \<notin> set (new # head # ys @ zs) \<longrightarrow> h1 q = h q" using list_replace_spec [OF assms] by blast
  have i: "old \<in> dom h1" "old \<notin> set (head # ys @ new # zs)" using is_list_dom [OF l] h1(3) l n by (auto simp: is_list_def)
  obtain h2 where h2: "INIT_LIST_HEAD old h1 = Some h2" "is_list h2 old []" "is_list h2 head (ys @ new # zs)" "dom h2 = dom h1"
    "\<forall>q. q \<noteq> old \<longrightarrow> h2 q = h1 q" using INIT_LIST_HEAD_apart [OF h1(2) i] by blast
  then show ?thesis using h1 by (intro exI [of _ h2]) (simp add: list_replace_init_def)
qed

lemma list_del_init_spec:
  assumes l: "is_list h head (ys @ e # zs)"
  shows "\<exists>h'. list_del_init e h = Some h' \<and> is_list h' head (ys @ zs) \<and> is_list h' e [] \<and> dom h' = dom h \<and>
    (\<forall>q. q \<notin> set (e # head # ys @ zs) \<longrightarrow> h' q = h q)"
proof -
  obtain h1 where h1: "raw_list_del_entry e h = Some h1" "is_list h1 head (ys @ zs)" "dom h1 = dom h"
    "\<forall>q. q \<notin> set (head # ys @ zs) \<longrightarrow> h1 q = h q" using raw_list_del_entry_spec [OF assms] by auto
  have i: "e \<in> dom h1" "e \<notin> set (head # ys @ zs)" using is_list_dom [OF l] h1(3) l by (auto simp: is_list_def)
  obtain h2 where h2: "INIT_LIST_HEAD e h1 = Some h2" "is_list h2 e []" "is_list h2 head (ys @ zs)" "dom h2 = dom h1"
    "\<forall>q. q \<noteq> e \<longrightarrow> h2 q = h1 q" using INIT_LIST_HEAD_apart [OF h1(2) i] by blast
  then show ?thesis using h1 by (intro exI [of _ h2]) (simp add: list_del_init_def)
qed

lemma raw_list_del_clearprev_spec:
  assumes l: "is_list h head (ys @ e # zs)"
  shows "\<exists>h'. raw_list_del_clearprev e h = Some h' \<and> is_list h' head (ys @ zs) \<and> dom h' = dom h \<and>
    prev_of h' e = Some NULL \<and> next_of h' e = next_of h e \<and> (\<forall>q. q \<notin> set (e # head # ys @ zs) \<longrightarrow> h' q = h q)"
proof -
  obtain h1 where h1: "raw_list_del_entry e h = Some h1" "is_list h1 head (ys @ zs)" "dom h1 = dom h" "h1 e = h e"
    "\<forall>q. q \<notin> set (head # ys @ zs) \<longrightarrow> h1 q = h q" using raw_list_del_entry_spec [OF assms] by auto
  have i: "e \<in> dom h1" "e \<notin> set (head # ys @ zs)" using is_list_dom [OF l] h1(3) l by (auto simp: is_list_def)
  have eq: "raw_list_del_clearprev e h = Option.bind (raw_list_del_entry e h) (set_prev e NULL)"
    by (cases "prev_of h e"; cases "next_of h e") (simp_all add: raw_list_del_clearprev_def raw_list_del_entry_def)
  have "is_list (upd_prev e NULL h1) head (ys @ zs)" using h1(2) i by (subst is_list_cong [of _ _ _ h1]) auto
  then show ?thesis using h1 i eq
    by (intro exI [of _ "upd_prev e NULL h1"]) (auto simp: next_of_def)
qed

text \<open>Swapping works in both orders, neighbours included.\<close>

lemma list_swap_spec:
  assumes l: "is_list h head (ys @ e1 # ms @ e2 # zs)"
  shows "\<exists>h'. list_swap e1 e2 h = Some h' \<and> is_list h' head (ys @ e2 # ms @ e1 # zs) \<and> dom h' = dom h \<and>
    (\<forall>q. q \<notin> set (head # ys @ e1 # ms @ e2 # zs) \<longrightarrow> h' q = h q)"
proof -
  have pos: "prev_of h e2 = Some (last (e1 # ms))" using is_list_prev [of h head "ys @ e1 # ms" "e2 # zs"] l by simp
  obtain h1 where h1: "list_del e2 h = Some h1" "is_list h1 head (ys @ e1 # ms @ zs)" "dom h1 = dom h"
    "\<forall>q. q \<notin> set (e2 # head # ys @ e1 # ms @ zs) \<longrightarrow> h1 q = h q" using list_del_spec [of h head "ys @ e1 # ms" e2 zs] l by auto
  have i: "e2 \<in> dom h1" "e2 \<notin> set (head # ys @ e1 # ms @ zs)" using is_list_dom [OF l] h1(3) l by (auto simp: is_list_def)
  obtain h2 where h2: "list_replace e1 e2 h1 = Some h2" "is_list h2 head ((ys @ e2 # ms) @ zs)" "dom h2 = dom h1"
    "\<forall>q. q \<notin> set (e2 # head # ys @ ms @ zs) \<longrightarrow> h2 q = h1 q" using list_replace_spec [OF h1(2) i] by auto
  have j: "e1 \<in> dom h2" "e1 \<notin> set (head # (ys @ e2 # ms) @ zs)" using is_list_dom [OF l] h1(3) h2(3) l by (auto simp: is_list_def)
  obtain h3 where h3: "list_add e1 (last (e2 # ms)) h2 = Some h3" "is_list h3 head (ys @ e2 # ms @ e1 # zs)" "dom h3 = dom h2"
    "\<forall>q. q \<notin> set (e1 # head # (ys @ e2 # ms) @ zs) \<longrightarrow> h3 q = h2 q" using list_add_spec [OF h2(2) j] by auto
  have "(if last (e1 # ms) = e1 then e2 else last (e1 # ms)) = last (e2 # ms)"
    using l by (cases ms rule: rev_cases) (auto simp: is_list_def)
  then have "list_swap e1 e2 h = Some h3" using pos h1(1) h2(1) h3(1) by (simp add: list_swap_def Let_def del: last.simps)
  then show ?thesis using h1 h2 h3 by (intro exI [of _ h3]) simp
qed

lemma list_swap_spec':
  assumes l: "is_list h head (ys @ e2 # ms @ e1 # zs)"
  shows "\<exists>h'. list_swap e1 e2 h = Some h' \<and> is_list h' head (ys @ e1 # ms @ e2 # zs) \<and> dom h' = dom h \<and>
    (\<forall>q. q \<notin> set (head # ys @ e2 # ms @ e1 # zs) \<longrightarrow> h' q = h q)"
proof -
  have pos: "prev_of h e2 = Some (last (head # ys))" using is_list_prev [of h head ys "e2 # ms @ e1 # zs"] l by simp
  obtain h1 where h1: "list_del e2 h = Some h1" "is_list h1 head ((ys @ ms) @ e1 # zs)" "dom h1 = dom h"
    "\<forall>q. q \<notin> set (e2 # head # ys @ ms @ e1 # zs) \<longrightarrow> h1 q = h q" using list_del_spec [OF l] by auto
  have i: "e2 \<in> dom h1" "e2 \<notin> set (head # (ys @ ms) @ e1 # zs)" using is_list_dom [OF l] h1(3) l by (auto simp: is_list_def)
  obtain h2 where h2: "list_replace e1 e2 h1 = Some h2" "is_list h2 head (ys @ ms @ e2 # zs)" "dom h2 = dom h1"
    "\<forall>q. q \<notin> set (e2 # head # (ys @ ms) @ zs) \<longrightarrow> h2 q = h1 q" using list_replace_spec [OF h1(2) i] by auto
  have j: "e1 \<in> dom h2" "e1 \<notin> set (head # ys @ ms @ e2 # zs)" using is_list_dom [OF l] h1(3) h2(3) l by (auto simp: is_list_def)
  obtain h3 where h3: "list_add e1 (last (head # ys)) h2 = Some h3" "is_list h3 head (ys @ e1 # ms @ e2 # zs)" "dom h3 = dom h2"
    "\<forall>q. q \<notin> set (e1 # head # ys @ ms @ e2 # zs) \<longrightarrow> h3 q = h2 q" using list_add_spec [OF h2(2) j] by auto
  have "last (head # ys) \<noteq> e1" using l by (auto simp: is_list_def)
  then have "list_swap e1 e2 h = Some h3" using pos h1(1) h2(1) h3(1) by (simp add: list_swap_def Let_def)
  then show ?thesis using h1 h2 h3 by (intro exI [of _ h3]) simp
qed

section \<open>Tests\<close>

lemma list_is_first_spec: "is_list h head (ys @ e # zs) \<Longrightarrow> list_is_first e head h = Some (ys = [])"
  using is_list_prev [of h head ys "e # zs"] last_in_set [of ys] by (cases "ys = []") (auto simp: list_is_first_def is_list_chain)

lemma list_is_last_spec: "is_list h head (ys @ e # zs) \<Longrightarrow> list_is_last e head h = Some (zs = [])"
  using is_list_next [of h head "ys @ [e]" zs] by (cases zs) (simp_all add: list_is_last_def is_list_def, blast)

lemma list_empty_careful_spec: "is_list h head xs \<Longrightarrow> list_empty_careful head h = Some (xs = [])"
proof (cases "xs = []")
  case False
  then show "list_empty_careful head h = Some (xs = [])" if "is_list h head xs"
    using is_list_ends [OF that False] that hd_in_set [OF False] by (auto simp: list_empty_careful_def is_list_def)
qed (simp add: list_empty_careful_def is_list_def)

section \<open>Properties\<close>

text \<open>The entries of a list determine the links of every element of it.\<close>

lemma is_list_links:
  assumes "is_list h head xs" "is_list h' head xs" "q \<in> set (head # xs)"
  shows "h q = h' q"
proof -
  have "next_of k q = Some (hd (zs @ [head])) \<and> prev_of k q = Some (last (if ys = [] then xs else butlast (head # ys)))"
    if k: "is_list k head xs" and s: "head # xs = butlast (head # ys) @ q # zs" and y: "q = last (head # ys)" "xs \<noteq> []" for k ys zs
  proof (cases "ys = []")
    case True
    then show ?thesis using s y is_list_ends [OF k y(2)] by (cases zs) auto
  next
    case False
    then have x: "xs = butlast ys @ q # zs" using s by simp
    have "(if butlast ys = [] then head else last (butlast ys)) = last (butlast (head # ys))" using False by simp
    then show ?thesis
      using is_list_next [of k head "butlast ys @ [q]" zs] is_list_prev [of k head "butlast ys" "q # zs"] k x False by simp
  qed
  moreover have "\<exists>ys zs. head # xs = butlast (head # ys) @ q # zs \<and> q = last (head # ys)"
  proof -
    obtain us vs where u: "head # xs = us @ q # vs" using split_list [OF assms(3)] by blast
    show ?thesis
    proof (cases us)
      case Nil
      then show ?thesis using u by (intro exI [of _ "[]"] exI [of _ vs]) simp
    next
      case (Cons a us')
      then show ?thesis using u by (intro exI [of _ "us' @ [q]"] exI [of _ vs]) (simp add: butlast_append)
    qed
  qed
  ultimately have "xs \<noteq> [] \<Longrightarrow> next_of h q = next_of h' q \<and> prev_of h q = prev_of h' q" using assms(1,2) by metis
  moreover have "xs = [] \<Longrightarrow> next_of h q = next_of h' q \<and> prev_of h q = prev_of h' q" using assms by (auto simp: is_list_def)
  ultimately have "next_of h q = next_of h' q" "prev_of h q = prev_of h' q" by blast+
  then show ?thesis by (cases "h q"; cases "h' q") (auto simp: next_of_def prev_of_def)
qed

text \<open>C37: \<open>list_cut_position\<close> at an entry of a list moves the entries up to that one onto the other list, in
  order, and leaves the rest; \<open>list_splice\<close> of the part that was cut onto the front of the rest then
  restores every link of the original list, and of every other object but the head of the cut part.\<close>

theorem list_splice_undoes_cut:
  assumes "is_list h head (ms @ ys)" and "ms \<noteq> []" and "list \<in> dom h" and "list \<notin> set (head # ms @ ys)"
  shows "\<exists>h1 h2. list_cut_position list head (last ms) h = Some h1 \<and> is_list h1 list ms \<and> is_list h1 head ys \<and>
    list_splice list head h1 = Some h2 \<and> (\<forall>q. q \<noteq> list \<longrightarrow> h2 q = h q)"
proof -
  obtain h1 where h1: "list_cut_position list head (last ms) h = Some h1" "is_list h1 list ms" "is_list h1 head ys"
    "\<forall>q. q \<notin> set (list # head # ms @ ys) \<longrightarrow> h1 q = h q" using list_cut_position_spec [OF assms] by blast
  have "set (list # ms) \<inter> set (head # ys) = {}" using assms by (auto simp: is_list_def)
  from list_splice_spec [OF h1(2,3) this] obtain h2 where h2: "list_splice list head h1 = Some h2" "is_list h2 head (ms @ ys)"
    "\<forall>q. q \<notin> set (head # ms @ ys) \<longrightarrow> h2 q = h1 q" by blast
  have "h2 q = h q" if "q \<noteq> list" for q
    using that h1(4) h2(3) is_list_links [OF h2(2) assms(1), of q] by (cases "q \<in> set (head # ms @ ys)") auto
  then show ?thesis using h1 h2(1) by blast
qed

theorem list_splice_undoes_cut_witness:
  "\<exists>h1 h2. list_cut_position 64 16 32 example_list = Some h1 \<and> is_list h1 64 [32] \<and> is_list h1 16 [48] \<and>
    list_splice 64 16 h1 = Some h2 \<and> (\<forall>q. q \<noteq> (64 :: addr) \<longrightarrow> h2 q = example_list q)"
  using list_splice_undoes_cut [of example_list 16 "[32]" "[48]" 64] example_list_is_list by simp

text \<open>C38: \<open>list_swap\<close> of two entries of a list, in either order and also when they are neighbours, exchanges
  their places, keeps the place of every other entry and writes nothing outside the list.\<close>

theorem list_swap_exchanges:
  assumes "is_list h head (ys @ e1 # ms @ e2 # zs)"
  shows "(\<exists>h'. list_swap e1 e2 h = Some h' \<and> is_list h' head (ys @ e2 # ms @ e1 # zs) \<and>
      (\<forall>q. q \<notin> set (head # ys @ e1 # ms @ e2 # zs) \<longrightarrow> h' q = h q)) \<and>
    (\<exists>h'. list_swap e2 e1 h = Some h' \<and> is_list h' head (ys @ e2 # ms @ e1 # zs) \<and>
      (\<forall>q. q \<notin> set (head # ys @ e1 # ms @ e2 # zs) \<longrightarrow> h' q = h q))"
  using list_swap_spec [OF assms] list_swap_spec' [OF assms] by blast

theorem list_swap_exchanges_witness:
  "(\<exists>h'. list_swap 32 48 example_list = Some h' \<and> is_list h' 16 [48, 32] \<and>
      (\<forall>q. q \<notin> set [16, 32, 48 :: addr] \<longrightarrow> h' q = example_list q)) \<and>
    (\<exists>h'. list_swap 48 32 example_list = Some h' \<and> is_list h' 16 [48, 32] \<and>
      (\<forall>q. q \<notin> set [16, 32, 48 :: addr] \<longrightarrow> h' q = example_list q))"
  using list_swap_exchanges [of example_list 16 "[]" 32 "[]" 48 "[]"] example_list_is_list by simp

end
