(* ===== verification/Drm_Mm_Replace.thy ===== *)
theory Drm_Mm_Replace
  imports Drm_Mm_Memory Linux_List_Ops
begin

text \<open>
  \<open>drm_mm_replace_node\<close>: the new node takes the place of the old one in every structure, with its
  block and the hole behind it.
\<close>

section \<open>The trees\<close>

lemma rb_store_dom: "rb_store p f s = Some s' \<Longrightarrow> dom (rb_mem s') = dom (rb_mem s)"
  by (auto simp: rb_store_def bind_eq_Some_conv split: if_splits)

lemma rb_replace_node_dom:
  assumes "rb_replace_node x y s = Some s'"
  shows "dom (rb_mem s') = dom (rb_mem s)"
proof -
  have w: "dom (rb_mem s2) = dom (rb_mem s1)" if "c_when c (rb_set_parent p q) s1 = Some s2" for c p q and s1 s2 :: "'a rb_tree_scheme"
    using that by (auto simp: c_when_def rb_set_parent_def dest!: rb_store_dom split: if_splits)
  have c: "dom (rb_mem s2) = dom (rb_mem s1)" if "rb_change_child a b p s1 = Some s2" for a b p and s1 s2 :: "'a rb_tree_scheme"
    using that by (auto simp: rb_change_child_def rb_set_left_def rb_set_right_def bind_eq_Some_conv dest!: rb_store_dom split: if_splits)
  obtain vn s1 s2 s3 where r: "rb_store y (\<lambda>_. vn) s = Some s1" "c_when (rb_left vn \<noteq> NULL) (rb_set_parent (rb_left vn) y) s1 = Some s2"
    "c_when (rb_right vn \<noteq> NULL) (rb_set_parent (rb_right vn) y) s2 = Some s3" "rb_change_child x y (rb_parent vn) s3 = Some s'"
    using assms by (auto simp: rb_replace_node_def Let_def bind_eq_Some_conv)
  show ?thesis using rb_store_dom [OF r(1)] w [OF r(2)] w [OF r(3)] c [OF r(4)] by simp
qed

lemma rb_replace_node_cached_dom:
  "rb_replace_node_cached x y s = Some s' \<Longrightarrow> dom (rb_mem s') = dom (rb_mem s)"
  using rb_replace_node_dom [of x y "if rb_leftmost s = x then s\<lparr>rb_leftmost := y\<rparr> else s" s']
  by (simp add: rb_replace_node_cached_def split: if_splits)

lemma it_seq_replace:
  assumes seq: "it_seq itlast t (us @ x # vs)" and y: "rb_mem t y \<noteq> None" "y \<notin> set (us @ x # vs)" "valid_ptr y"
    and same: "it_subtree t y = it_subtree t x" "itlast y = itlast x"
  shows "\<exists>t'. rb_replace_node_cached x y t = Some t' \<and> it_seq itlast t' (us @ y # vs) \<and> it_subtree t' = it_subtree t"
proof -
  obtain T where T: "it_tree itlast t T" "inorder T = us @ x # vs" using seq by (auto simp: it_seq_def)
  then have t: "cached_rep t T" "is_rbt T" "aug_ok (it_comb itlast) (it_good itlast) (it_subtree t) T" by (simp_all add: it_tree_def)
  have d: "distinct (inorder T)" using t by (simp add: cached_rep_def rb_rep_def)
  obtain c l r k where p: "T = plug (Node c l x r) k" "zleft k @ inorder l = us" "inorder r @ zright k = vs"
    using inorder_position [OF d T(2)] by blast
  define t1 where "t1 = (if rb_leftmost t = x then t\<lparr>rb_leftmost := y\<rparr> else t)"
  have rep: "zip_rep t1 (Node c l x r) k" using t(1) p by (simp add: t1_def cached_rep_def rb_rep_plug zip_rep_def)
  have yT: "y \<notin> set_rbt (plug (Node c l x r) k)" using y(2) T(2) p(1) by simp
  obtain m where m: "rb_replace_node x y t1 = Some (t1\<lparr>rb_mem := m, rb_root := zip_root y k (rb_root t1)\<rparr>)"
    "rb_rep (t1\<lparr>rb_mem := m, rb_root := zip_root y k (rb_root t1)\<rparr>) (plug (Node c l y r) k)"
  proof -
    have "rb_mem t1 y \<noteq> None" using y(1) by (simp add: t1_def)
    from rb_replace_node_zip [OF rep this yT y(3)] show ?thesis using that by blast
  qed
  let ?t' = "t1\<lparr>rb_mem := m, rb_root := zip_root y k (rb_root t1)\<rparr>"
  have lf: "rb_leftmost t1 = first_of (us @ y # vs)"
    using t(1) T(2) d by (cases us) (auto simp: t1_def cached_rep_def first_of_def)
  have sub: "it_subtree ?t' = it_subtree t" by (simp add: t1_def)
  have ok: "it_subtree t x = Some (it_comb itlast x (aug_of (it_comb itlast) l) (aug_of (it_comb itlast) r))" "it_good itlast x"
    using t(3) p(1) by (simp_all add: aug_ok_plug)
  have comb: "it_comb itlast y = it_comb itlast x" by (simp add: it_comb_def same(2) fun_eq_iff)
  have "aug_ok (it_comb itlast) (it_good itlast) (it_subtree t) (plug (Node c l y r) k)"
    by (rule aug_plug_replace [OF t(3) [unfolded p(1)] yT])
      (use ok same comb in \<open>simp_all add: it_good_def\<close>)
  moreover have "inorder (plug (Node c l y r) k) = us @ y # vs" using p by (auto simp: inorder_plug)
  moreover have "is_rbt (plug (Node c l y r) k)" using is_rbt_rename t(2) p(1) by blast
  ultimately have "it_seq itlast ?t' (us @ y # vs)"
    using m(2) lf sub unfolding it_seq_def it_tree_def cached_rep_def by (intro exI [of _ "plug (Node c l y r) k"]) simp
  then show ?thesis using m(1) sub by (intro exI [of _ ?t']) (simp add: rb_replace_node_cached_def t1_def)
qed

section \<open>Renaming the node\<close>

definition renamed :: "addr \<Rightarrow> addr \<Rightarrow> addr \<Rightarrow> addr" where
  "renamed x y a = (if a = x then y else a)"

lemma renamed_simps [simp]: "renamed x y x = y" "a \<noteq> x \<Longrightarrow> renamed x y a = a"
  by (simp_all add: renamed_def)

lemma map_renamed [simp]:
  "x \<notin> set xs \<Longrightarrow> map (renamed x y) xs = xs"
  by (induction xs) auto

text \<open>The holes: the node is renamed in each of the three structures, if it has a hole behind it.\<close>

lemma holes_replaced:
  assumes rep: "holes_rep s hs ss xs" and x: "x \<in> set xs" and y: "y \<notin> set xs" "live s y"
  shows "\<exists>hl hz ha. do {
      s \<leftarrow> on_hole_list (list_replace x y) s;
      s \<leftarrow> on_holes_size (rb_replace_node_cached x y) s;
      on_holes_addr (rb_replace_node x y) s } = Some (s\<lparr>mm_hole_list := hl, mm_holes_size := hz, mm_holes_addr := ha\<rparr>) \<and>
    is_list hl (mm_hole_stack s) (map (renamed x y) hs) \<and> rb_seq hz (map (renamed x y) ss) \<and> plain_seq ha (map (renamed x y) xs) \<and>
    dom hl = dom (mm_hole_list s) \<and> dom (rb_mem hz) = dom (rb_mem (mm_holes_size s)) \<and> dom (rb_mem ha) = dom (rb_mem (mm_holes_addr s))"
proof -
  have sets: "set hs = set xs" "set ss = set xs" and l: "is_list (mm_hole_list s) (mm_hole_stack s) hs"
    and z: "rb_seq (mm_holes_size s) ss" and a: "plain_seq (mm_holes_addr s) xs" using rep by (simp_all add: holes_rep_def)
  obtain hu hv su sv xu xv where e: "hs = hu @ x # hv" "ss = su @ x # sv" "xs = xu @ x # xv"
    using x sets by (metis split_list)
  have d: "distinct hs" "distinct ss" "distinct xs"
    using l rb_seq_distinct [OF z] plain_seq_distinct [OF a] by (simp_all add: is_list_def)
  have m: "map (renamed x y) hs = hu @ y # hv" "map (renamed x y) ss = su @ y # sv" "map (renamed x y) xs = xu @ y # xv"
    using d e by simp_all
  have ys: "y \<notin> set (hu @ x # hv)" "y \<notin> set (su @ x # sv)" "y \<notin> set (xu @ x # xv)" using y(1) sets e by simp_all
  have yl: "y \<in> dom (mm_hole_list s)" "y \<noteq> mm_hole_stack s" "rb_mem (mm_holes_size s) y \<noteq> None" "rb_mem (mm_holes_addr s) y \<noteq> None" "valid_ptr y"
    using y(2) by (simp_all add: live_def)
  have yh: "y \<notin> set (mm_hole_stack s # hu @ x # hv)" using ys(1) yl(2) by simp
  obtain hl where hl: "list_replace x y (mm_hole_list s) = Some hl" "is_list hl (mm_hole_stack s) (hu @ y # hv)" "dom hl = dom (mm_hole_list s)"
    using list_replace_spec [OF l [unfolded e] yl(1) yh] by blast
  obtain hz where hz: "rb_replace_node_cached x y (mm_holes_size s) = Some hz" "rb_seq hz (su @ y # sv)"
    using rb_replace_node_cached_spec [OF z [unfolded e] yl(3) ys(2) yl(5)] by blast
  obtain ha where ha: "rb_replace_node x y (mm_holes_addr s) = Some ha" "plain_seq ha (xu @ y # xv)"
    using rb_replace_node_seq [OF a [unfolded e] yl(4) ys(3) yl(5)] by blast
  show ?thesis
    using hl hz ha rb_replace_node_cached_dom [OF hz(1)] rb_replace_node_dom [OF ha(1)] unfolding m
    by (intro exI [of _ hl] exI [of _ hz] exI [of _ ha]) (simp add: on_eqs)
qed

lemma live_cong:
  assumes "dom (mm_nodes s') = dom (mm_nodes s)" "dom (mm_node_list s') = dom (mm_node_list s)" "dom (mm_hole_list s') = dom (mm_hole_list s)"
    "dom (rb_mem (mm_interval_tree s')) = dom (rb_mem (mm_interval_tree s))" "it_subtree (mm_interval_tree s') = it_subtree (mm_interval_tree s)"
    "dom (rb_mem (mm_holes_size s')) = dom (rb_mem (mm_holes_size s))" "dom (rb_mem (mm_holes_addr s')) = dom (rb_mem (mm_holes_addr s))"
    "mm_hole_stack s' = mm_hole_stack s"
  shows "live s' b = live s b"
  using assms unfolding live_def domIff [symmetric] by simp

lemma holes_replaced_when:
  assumes rep: "holes_rep s hs ss xs" and f: "f = (x \<in> set xs)" and y: "y \<notin> set xs" "live s y"
  shows "\<exists>hl hz ha. c_when f (\<lambda>s. do {
      s \<leftarrow> on_hole_list (list_replace x y) s;
      s \<leftarrow> on_holes_size (rb_replace_node_cached x y) s;
      on_holes_addr (rb_replace_node x y) s }) s = Some (s\<lparr>mm_hole_list := hl, mm_holes_size := hz, mm_holes_addr := ha\<rparr>) \<and>
    is_list hl (mm_hole_stack s) (map (renamed x y) hs) \<and> rb_seq hz (map (renamed x y) ss) \<and> plain_seq ha (map (renamed x y) xs) \<and>
    dom hl = dom (mm_hole_list s) \<and> dom (rb_mem hz) = dom (rb_mem (mm_holes_size s)) \<and> dom (rb_mem ha) = dom (rb_mem (mm_holes_addr s))"
proof (cases f)
  case True
  then have x: "x \<in> set xs" using f by simp
  show ?thesis unfolding eqTrueI [OF True] c_when_def if_True by (rule holes_replaced [OF rep x y])
next
  case False
  then have "x \<notin> set hs" "x \<notin> set ss" "x \<notin> set xs" using rep f by (simp_all add: holes_rep_def)
  then show ?thesis using rep False
    by (intro exI [of _ "mm_hole_list s"] exI [of _ "mm_holes_size s"] exI [of _ "mm_holes_addr s"]) (simp add: c_when_def holes_rep_def)
qed

text \<open>\<open>*new = *old\<close>: every entry of the old node, links included, is copied to the new one.\<close>

definition copied :: "addr \<Rightarrow> addr \<Rightarrow> drm_mm \<Rightarrow> drm_mm \<Rightarrow> bool" where
  "copied x y s s1 \<longleftrightarrow> mm_nodes s1 = (mm_nodes s)(y := mm_nodes s x) \<and>
     it_subtree (mm_interval_tree s1) y = it_subtree (mm_interval_tree s1) x \<and>
     mm_self s1 = mm_self s \<and> mm_color_adjust s1 = mm_color_adjust s \<and> mm_hole_stack s1 = mm_hole_stack s \<and>
     mm_head_node s1 = mm_head_node s \<and> mm_scan_active s1 = mm_scan_active s \<and> (\<forall>b. live s1 b = live s b)"

lemma copy_node_spec:
  assumes inv: "mm_inv s ns hs" and x: "live s x" and y: "live s y" "y \<notin> set (mm_head_node s # ns)"
  shows "\<exists>s1. copy_node x y s = Some s1 \<and> copied x y s s1 \<and> mm_inv s1 ns hs"
proof -
  obtain nx where nx: "mm_nodes s x = Some nx" using x by (auto simp: live_def)
  obtain s1 where c: "copy_node x y s = Some s1" and s1: "mm_nodes s1 = (mm_nodes s)(y \<mapsto> nx)"
    "mm_node_list s1 = (mm_node_list s)(y := mm_node_list s x)" "mm_hole_list s1 = (mm_hole_list s)(y := mm_hole_list s x)"
    "mm_interval_tree s1 = (mm_interval_tree s)\<lparr>rb_mem := (rb_mem (mm_interval_tree s))(y := rb_mem (mm_interval_tree s) x),
       it_subtree := (it_subtree (mm_interval_tree s))(y := it_subtree (mm_interval_tree s) x)\<rparr>"
    "mm_holes_size s1 = (mm_holes_size s)\<lparr>rb_mem := (rb_mem (mm_holes_size s))(y := rb_mem (mm_holes_size s) x)\<rparr>"
    "mm_holes_addr s1 = (mm_holes_addr s)\<lparr>rb_mem := (rb_mem (mm_holes_addr s))(y := rb_mem (mm_holes_addr s) x)\<rparr>"
    "mm_self s1 = mm_self s" "mm_color_adjust s1 = mm_color_adjust s" "mm_hole_stack s1 = mm_hole_stack s"
    "mm_head_node s1 = mm_head_node s" "mm_scan_active s1 = mm_scan_active s"
    using nx x y(1) by (fastforce simp: copy_node_def copy_entry_def live_def)
  have "live s1 b = live s b" for b using x y(1) nx by (auto simp: live_def s1)
  then have "copied x y s s1" using nx by (simp add: copied_def s1)
  moreover have "same_roots s s1" using y(1) by (auto simp: same_roots_def s1 live_def)
  moreover have "\<forall>b\<in>set (mm_head_node s # ns). same_at b s s1" using y(2) by (auto simp: same_at_def s1)
  ultimately show ?thesis using c mm_inv_cong [OF inv] by blast
qed

text \<open>The list of the nodes and the interval tree: the new node takes the place of its copy.\<close>

lemma nodes_replaced:
  assumes inv: "mm_inv s (us @ x # vs) hs" and y: "live s y" "y \<notin> set (mm_head_node s # us @ x # vs)"
    and same: "it_subtree (mm_interval_tree s) y = it_subtree (mm_interval_tree s) x" "mm_nodes s y = mm_nodes s x"
  shows "\<exists>nl it. do { s \<leftarrow> on_node_list (list_replace x y) s; on_interval_tree (rb_replace_node_cached x y) s } =
      Some (s\<lparr>mm_node_list := nl, mm_interval_tree := it\<rparr>) \<and>
    is_list nl (mm_head_node s) (us @ y # vs) \<and> it_seq (LAST s) it (us @ y # vs) \<and>
    (\<forall>b. live (s\<lparr>mm_node_list := nl, mm_interval_tree := it\<rparr>) b = live s b)"
proof -
  have "is_list (mm_node_list s) (mm_head_node s) (us @ x # vs)" "y \<in> dom (mm_node_list s)" using inv y(1) by (auto simp: mm_inv_def live_def)
  then obtain nl where nl: "list_replace x y (mm_node_list s) = Some nl" "is_list nl (mm_head_node s) (us @ y # vs)" "dom nl = dom (mm_node_list s)"
    using list_replace_spec y(2) by blast
  have "it_seq (LAST s) (mm_interval_tree s) (us @ x # vs)" "rb_mem (mm_interval_tree s) y \<noteq> None" "valid_ptr y"
    "y \<notin> set (us @ x # vs)" "LAST s y = LAST s x"
    using inv y same(2) by (auto simp: mm_inv_def live_def LAST_def)
  from it_seq_replace [OF this(1,2,4,3) same(1) this(5)]
  obtain it where it: "rb_replace_node_cached x y (mm_interval_tree s) = Some it" "it_seq (LAST s) it (us @ y # vs)"
    "it_subtree it = it_subtree (mm_interval_tree s)" by blast
  have "live (s\<lparr>mm_node_list := nl, mm_interval_tree := it\<rparr>) b = live s b" for b
    by (rule live_cong) (use nl(3) rb_replace_node_cached_dom [OF it(1)] it(3) in simp_all)
  then show ?thesis using nl(1,2) it(1,2) by (intro exI [of _ nl] exI [of _ it]) (simp add: on_eqs)
qed

text \<open>What the whole operation does.\<close>

definition replaced :: "addr \<Rightarrow> addr \<Rightarrow> drm_mm \<Rightarrow> drm_mm \<Rightarrow> bool" where
  "replaced x y s s' \<longleftrightarrow> mm_self s' = mm_self s \<and> mm_color_adjust s' = mm_color_adjust s \<and>
     mm_hole_stack s' = mm_hole_stack s \<and> mm_head_node s' = mm_head_node s \<and> mm_scan_active s' = mm_scan_active s \<and>
     (\<forall>b. live s' b = live s b) \<and>
     mm_nodes s' = (mm_nodes s)(x \<mapsto> (the (mm_nodes s x))\<lparr>nd_allocated := False\<rparr>, y \<mapsto> the (mm_nodes s x))"

lemma drm_mm_replace_node_run:
  assumes inv: "mm_inv s (us @ x # vs) hs" and y: "live s y" "y \<notin> set (mm_head_node s # us @ x # vs)"
  defines "xs \<equiv> hole_nodes (mm_nodes s) (mm_head_node s # us @ x # vs)"
  shows "\<exists>s' ss. drm_mm_replace_node x y s = Some s' \<and> replaced x y s s' \<and>
    is_list (mm_node_list s') (mm_head_node s) (us @ y # vs) \<and> it_seq (LAST s') (mm_interval_tree s') (us @ y # vs) \<and>
    is_list (mm_hole_list s') (mm_hole_stack s) (map (renamed x y) hs) \<and> rb_seq (mm_holes_size s') (map (renamed x y) ss) \<and>
    plain_seq (mm_holes_addr s') (map (renamed x y) xs) \<and> set hs = set xs \<and> set ss = set xs \<and>
    sorted_wrt (\<lambda>a b. n_hole (mm_nodes s) a \<ge> n_hole (mm_nodes s) b) ss"
proof -
  let ?H = "mm_head_node s" and ?L = "mm_head_node s # us @ x # vs"
  have "block_ok s x" using inv by (auto simp: mm_inv_def)
  then have xl: "live s x" "nd_mm (the (mm_nodes s x)) = mm_self s" "nd_allocated (the (mm_nodes s x))" by (simp_all add: block_ok_def node_ok_def)
  obtain nx where nx: "mm_nodes s x = Some nx" using xl(1) by (auto simp: live_def)
  have xy: "x \<noteq> y" using y(2) by auto
  (* the copy *)
  obtain s1 where s1: "copy_node x y s = Some s1" "copied x y s s1" "mm_inv s1 (us @ x # vs) hs" using copy_node_spec [OF inv xl(1) y] by blast
  have k1: "mm_nodes s1 = (mm_nodes s)(y \<mapsto> nx)" "it_subtree (mm_interval_tree s1) y = it_subtree (mm_interval_tree s1) x"
    "mm_self s1 = mm_self s" "mm_color_adjust s1 = mm_color_adjust s" "mm_hole_stack s1 = mm_hole_stack s" "mm_head_node s1 = ?H"
    "mm_scan_active s1 = mm_scan_active s" and live1: "\<And>b. live s1 b = live s b"
    using s1(2) nx by (simp_all add: copied_def)
  have n1: "n_hole (mm_nodes s1) b = n_hole (mm_nodes s) b" if "b \<in> set ?L" for b using that y(2) by (auto simp: n_hole_def k1)
  have hn: "hole_nodes (mm_nodes s1) ?L = xs" unfolding xs_def by (rule hole_nodes_cong) (use n1 in auto)
  (* the list and the interval tree *)
  have "\<exists>nl it. do { s \<leftarrow> on_node_list (list_replace x y) s1; on_interval_tree (rb_replace_node_cached x y) s } =
      Some (s1\<lparr>mm_node_list := nl, mm_interval_tree := it\<rparr>) \<and>
    is_list nl (mm_head_node s1) (us @ y # vs) \<and> it_seq (LAST s1) it (us @ y # vs) \<and>
    (\<forall>b. live (s1\<lparr>mm_node_list := nl, mm_interval_tree := it\<rparr>) b = live s1 b)"
    by (rule nodes_replaced [OF s1(3)]) (use y live1 k1 nx xy in simp_all)
  then obtain nl it where t: "do { s \<leftarrow> on_node_list (list_replace x y) s1; on_interval_tree (rb_replace_node_cached x y) s } =
      Some (s1\<lparr>mm_node_list := nl, mm_interval_tree := it\<rparr>)" "is_list nl ?H (us @ y # vs)" "it_seq (LAST s1) it (us @ y # vs)"
    "\<And>b. live (s1\<lparr>mm_node_list := nl, mm_interval_tree := it\<rparr>) b = live s b" using live1 unfolding k1(6) by blast
  define s3 where "s3 = s1\<lparr>mm_node_list := nl, mm_interval_tree := it\<rparr>"
  have live3: "live s3 b = live s b" for b using t(4) by (simp only: s3_def)
  (* the holes *)
  obtain ss where rep1: "holes_rep s1 hs ss xs" using s1(3) hn unfolding mm_inv_def k1(6) by metis
  then have rep3: "holes_rep s3 hs ss xs" using live1 live3 by (simp add: holes_rep_def s3_def)
  have sets: "set hs = set xs" "set ss = set xs" using rep1 by (simp_all add: holes_rep_def)
  have yxs: "y \<notin> set xs" using y(2) unfolding xs_def in_hole_nodes by blast
  have xxs: "(nd_hole_size nx \<noteq> 0) = (x \<in> set xs)" by (simp add: xs_def in_hole_nodes n_hole_def nx del: hole_nodes_simps)
  have sorted: "sorted_wrt (\<lambda>a b. n_hole (mm_nodes s) a \<ge> n_hole (mm_nodes s) b) ss"
  proof (rule sorted_wrt_mono_rel)
    show "sorted_wrt (\<lambda>a b. n_hole (mm_nodes s1) a \<ge> n_hole (mm_nodes s1) b) ss" using rep1 by (simp add: holes_rep_def)
    show "n_hole (mm_nodes s) b \<le> n_hole (mm_nodes s) a" if "a \<in> set ss" "b \<in> set ss" "n_hole (mm_nodes s1) b \<le> n_hole (mm_nodes s1) a" for a b
    proof -
      have "a \<in> set ?L" "b \<in> set ?L" using that(1,2) sets(2) by (simp_all only: xs_def in_hole_nodes)
      then show ?thesis using that(3) n1 by metis
    qed
  qed
  have st: "mm_hole_stack s3 = mm_hole_stack s" by (simp add: s3_def k1)
  have "live s3 y" using live3 y(1) by simp
  from holes_replaced_when [OF rep3 xxs yxs this, unfolded st] obtain hl hz ha where h: "c_when (nd_hole_size nx \<noteq> 0) (\<lambda>s. do {
      s \<leftarrow> on_hole_list (list_replace x y) s;
      s \<leftarrow> on_holes_size (rb_replace_node_cached x y) s;
      on_holes_addr (rb_replace_node x y) s }) s3 = Some (s3\<lparr>mm_hole_list := hl, mm_holes_size := hz, mm_holes_addr := ha\<rparr>)"
    "is_list hl (mm_hole_stack s) (map (renamed x y) hs)" "rb_seq hz (map (renamed x y) ss)" "plain_seq ha (map (renamed x y) xs)"
    "dom hl = dom (mm_hole_list s3)" "dom (rb_mem hz) = dom (rb_mem (mm_holes_size s3))" "dom (rb_mem ha) = dom (rb_mem (mm_holes_addr s3))"
    by blast
  define s4 where "s4 = s3\<lparr>mm_hole_list := hl, mm_holes_size := hz, mm_holes_addr := ha\<rparr>"
  (* the flags *)
  define s' where "s' = s4\<lparr>mm_nodes := (mm_nodes s)(x \<mapsto> nx\<lparr>nd_allocated := False\<rparr>, y \<mapsto> nx)\<rparr>"
  have nodes: "mm_nodes s4 = (mm_nodes s)(y \<mapsto> nx)" "mm_nodes s3 = (mm_nodes s)(y \<mapsto> nx)" by (simp_all add: s4_def s3_def k1)
  have alloc: "nx\<lparr>nd_allocated := True\<rparr> = nx" "nd_allocated nx" "nd_mm nx = mm_self s" using xl nx by simp_all
  have w: "nd_write x (\<lambda>n. n\<lparr>nd_allocated := False\<rparr>) s4 \<bind> nd_write y (\<lambda>n. n\<lparr>nd_allocated := True\<rparr>) = Some s'"
    using nx xy by (simp add: nd_write_def nodes s'_def alloc(1) fun_upd_twist [OF xy])
  have f: "drm_mm_hole_follows x s3 = Some (nd_hole_size nx \<noteq> 0)" using nx xy by (simp add: drm_mm_hole_follows_def nodes)
  have "drm_mm_replace_node x y s = do {
      s3 \<leftarrow> do { s \<leftarrow> on_node_list (list_replace x y) s1; on_interval_tree (rb_replace_node_cached x y) s };
      f \<leftarrow> drm_mm_hole_follows x s3;
      s4 \<leftarrow> c_when f (\<lambda>s. do {
        s \<leftarrow> on_hole_list (list_replace x y) s;
        s \<leftarrow> on_holes_size (rb_replace_node_cached x y) s;
        on_holes_addr (rb_replace_node x y) s }) s3;
      nd_write x (\<lambda>n. n\<lparr>nd_allocated := False\<rparr>) s4 \<bind> nd_write y (\<lambda>n. n\<lparr>nd_allocated := True\<rparr>) }"
    using nx alloc(2,3) s1(1) by (simp add: drm_mm_replace_node_def deref_mm_def)
  also have "\<dots> = Some s'" unfolding t(1) using f h(1) w by (simp flip: s3_def s4_def)
  finally have run: "drm_mm_replace_node x y s = Some s'" .
  have live': "live s' b = live s b" for b
  proof -
    have "mm_nodes s y \<noteq> None" using y(1) by (simp add: live_def)
    then have "live s' b = live s3 b" by (intro live_cong) (use h(5-7) nx in \<open>auto simp: s'_def s4_def s3_def k1\<close>)
    then show ?thesis using live3 by simp
  qed
  have last: "LAST s' b = LAST s1 b" for b using nx xy by (simp add: LAST_def s'_def k1(1))
  have "replaced x y s s'" using live' nx by (simp add: replaced_def s'_def s4_def s3_def k1)
  moreover have "it_seq (LAST s') (mm_interval_tree s') (us @ y # vs)"
    using it_seq_cong [OF t(3), of "LAST s'"] last by (simp add: s'_def s4_def s3_def)
  moreover have "mm_node_list s' = nl" "mm_hole_list s' = hl" "mm_holes_size s' = hz" "mm_holes_addr s' = ha"
    by (simp_all add: s'_def s4_def s3_def)
  ultimately show ?thesis using run t(2) h(2-4) sets sorted by metis
qed

section \<open>The invariant\<close>

lemma laid_map:
  assumes "\<forall>a\<in>set xs. n_end m' (f a) = n_end m a \<and> n_start m' (f a) = n_start m a \<and> n_hole m' (f a) = n_hole m a"
  shows "laid m' (map f xs) = laid m xs"
  using assms by (induction m xs rule: laid.induct) auto

lemma hole_nodes_map:
  assumes "\<forall>a\<in>set xs. n_hole m' (f a) = n_hole m a"
  shows "hole_nodes m' (map f xs) = map f (hole_nodes m xs)"
  using assms by (induction xs) auto

lemma replaced_fields:
  assumes "replaced x y s s'" and "mm_nodes s x \<noteq> None" and "x \<noteq> y" and "a \<noteq> y"
  shows "n_end (mm_nodes s') (renamed x y a) = n_end (mm_nodes s) a" "n_start (mm_nodes s') (renamed x y a) = n_start (mm_nodes s) a"
    "n_hole (mm_nodes s') (renamed x y a) = n_hole (mm_nodes s) a" "n_size (mm_nodes s') (renamed x y a) = n_size (mm_nodes s) a"
    "nd_color (the (mm_nodes s' (renamed x y a))) = nd_color (the (mm_nodes s a))"
    "nd_mm (the (mm_nodes s' (renamed x y a))) = nd_mm (the (mm_nodes s a))"
    "nd_allocated (the (mm_nodes s' (renamed x y a))) = nd_allocated (the (mm_nodes s a))"
    "nd_scanned_block (the (mm_nodes s' (renamed x y a))) = nd_scanned_block (the (mm_nodes s a))"
  using assms by (auto simp: replaced_def renamed_def n_end_def n_start_def n_hole_def n_size_def)

lemma drm_mm_replace_node_spec:
  assumes inv: "mm_inv s (us @ x # vs) hs" and y: "live s y" "y \<notin> set (mm_head_node s # us @ x # vs)"
  shows "\<exists>s'. drm_mm_replace_node x y s = Some s' \<and> mm_inv s' (us @ y # vs) (map (renamed x y) hs) \<and> replaced x y s s'"
proof -
  let ?H = "mm_head_node s" and ?f = "renamed x y" and ?L = "mm_head_node s # us @ x # vs"
  define xs where "xs = hole_nodes (mm_nodes s) ?L"
  obtain s' ss where s': "drm_mm_replace_node x y s = Some s'" "replaced x y s s'"
    "is_list (mm_node_list s') ?H (us @ y # vs)" "it_seq (LAST s') (mm_interval_tree s') (us @ y # vs)"
    "is_list (mm_hole_list s') (mm_hole_stack s) (map ?f hs)" "rb_seq (mm_holes_size s') (map ?f ss)"
    "plain_seq (mm_holes_addr s') (map ?f xs)" "set hs = set xs" "set ss = set xs"
    "sorted_wrt (\<lambda>a b. n_hole (mm_nodes s) a \<ge> n_hole (mm_nodes s) b) ss"
    using drm_mm_replace_node_run [OF inv y] unfolding xs_def replaced_def by metis
  have d: "distinct ?L" using mm_inv_distinct [OF inv] .
  have xy: "x \<noteq> y" "?H \<noteq> x" "?H \<noteq> y" using y(2) d by auto
  have blocks: "\<forall>a\<in>set (us @ x # vs). block_ok s a" and H: "head_ok s" using inv by (simp_all add: mm_inv_def)
  then have xn: "mm_nodes s x \<noteq> None" and xl: "live s x" by (simp_all add: block_ok_def node_ok_def live_def)
  note f = replaced_fields [OF s'(2) xn xy(1)]
  have k: "mm_self s' = mm_self s" "mm_hole_stack s' = mm_hole_stack s" "mm_head_node s' = ?H" "mm_scan_active s' = mm_scan_active s"
    "live s' b = live s b" for b using s'(2) by (simp_all add: replaced_def)
  have L': "?H # us @ y # vs = map ?f ?L" using d xy by simp
  have ny: "a \<noteq> y" if "a \<in> set ?L" for a using that y(2) by auto
  have live: "live s a \<longleftrightarrow> live s (?f a)" if "a \<in> set ?L" for a using xl y(1) by (simp add: renamed_def)
  have "head_ok s'" using H f [of ?H] xy k by (simp add: head_ok_def node_ok_def)
  moreover have "block_ok s' (?f a)" if "a \<in> set (us @ x # vs)" for a
    using blocks that f [of a] ny [of a] k live [of a] by (auto simp: block_ok_def node_ok_def)
  then have "\<forall>b\<in>set (us @ y # vs). block_ok s' b" using d by (metis (no_types, lifting) L' list.sel(3) list.simps(9) list.set_map imageE)
  moreover have "laid (mm_nodes s') (?H # (us @ y # vs) @ [?H])"
  proof -
    have "laid (mm_nodes s') (map ?f (?L @ [?H])) = laid (mm_nodes s) (?L @ [?H])"
    proof (rule laid_map)
      have "\<forall>a\<in>set (?L @ [?H]). a \<noteq> y" using ny by auto
      then show "\<forall>a\<in>set (?L @ [?H]). n_end (mm_nodes s') (?f a) = n_end (mm_nodes s) a \<and>
          n_start (mm_nodes s') (?f a) = n_start (mm_nodes s) a \<and> n_hole (mm_nodes s') (?f a) = n_hole (mm_nodes s) a"
        using f(1-3) by blast
    qed
    moreover have "laid (mm_nodes s) (?L @ [?H])" using inv by (simp add: mm_inv_def)
    ultimately show ?thesis using L' xy by simp
  qed
  moreover have "hole_nodes (mm_nodes s') (?H # us @ y # vs) = map ?f xs"
    unfolding L' xs_def by (rule hole_nodes_map) (use f ny in blast)
  moreover have "holes_rep s' (map ?f hs) (map ?f ss) (map ?f xs)"
  proof -
    have sub: "set xs \<subseteq> set ?L" by (rule subsetI) (simp only: xs_def in_hole_nodes)
    have "\<forall>a\<in>set xs. live s a" using inv unfolding mm_inv_def holes_rep_def xs_def by blast
    then have "\<forall>a\<in>set (map ?f xs). live s' a" using y(1) k(5) by (auto simp: renamed_def)
    moreover have "sorted_wrt (\<lambda>a b. n_hole (mm_nodes s') a \<ge> n_hole (mm_nodes s') b) (map ?f ss)"
      unfolding sorted_wrt_map
    proof (rule sorted_wrt_mono_rel [OF _ s'(10)])
      fix a b assume ab: "a \<in> set ss" "b \<in> set ss" "n_hole (mm_nodes s) b \<le> n_hole (mm_nodes s) a"
      then have "a \<noteq> y" "b \<noteq> y" using s'(9) sub ny by blast+
      then show "n_hole (mm_nodes s') (?f b) \<le> n_hole (mm_nodes s') (?f a)" using f(3) ab(3) by simp
    qed
    ultimately show ?thesis using s'(5-9) k(2) by (simp add: holes_rep_def)
  qed
  moreover have "mm_scan_active s' = 0" using inv k(4) by (simp add: mm_inv_def)
  ultimately have "mm_inv s' (us @ y # vs) (map ?f hs)"
    using s'(3,4) unfolding mm_inv_def k(3) by metis
  then show ?thesis using s'(1,2) by blast
qed

end
