(* ===== verification/Drm_Mm_Api.thy ===== *)
theory Drm_Mm_Api
  imports Drm_Mm_Memory Drm_Mm_Replace
begin

text \<open>
  What the allocator promises its callers, operation by operation, and what holds in every state
  that a sequence of its operations can reach.
\<close>

section \<open>Consequences of the invariant\<close>

text \<open>Blocks, including the head node that stands for everything outside the range, are disjoint.\<close>

lemma mm_inv_disjoint:
  assumes inv: "mm_inv s ns hs" and ab: "a \<in> set ns" "b \<in> set ns" "a \<noteq> b"
  shows "n_end (mm_nodes s) a \<le> n_start (mm_nodes s) b \<or> n_end (mm_nodes s) b \<le> n_start (mm_nodes s) a"
proof -
  have "sorted_wrt (\<lambda>c d. n_end (mm_nodes s) c \<le> n_start (mm_nodes s) d) ns"
    using mm_inv_order [OF inv] by (simp add: sorted_wrt_append)
  moreover obtain us vs where "ns = us @ a # vs" using ab(1) by (meson split_list)
  ultimately show ?thesis using ab by (auto simp: sorted_wrt_append)
qed

lemma mm_inv_in_range:
  assumes inv: "mm_inv s ns hs" and a: "a \<in> set ns"
  shows "n_end (mm_nodes s) (mm_head_node s) \<le> n_start (mm_nodes s) a" "n_start (mm_nodes s) a < n_end (mm_nodes s) a"
    "n_end (mm_nodes s) a \<le> n_start (mm_nodes s) (mm_head_node s)"
  using mm_inv_order [OF inv] a inv by (auto simp: sorted_wrt_append mm_inv_def block_ok_def)

text \<open>An interval of the range that meets no block lies in one hole.\<close>

lemma laid_gap:
  assumes "laid m (a # xs @ [z])" and "n_end m a \<le> p" "p < q" "q \<le> n_start m z"
    and "\<forall>b\<in>set xs. n_start m b < n_end m b \<and> (n_end m b \<le> p \<or> q \<le> n_start m b)"
  shows "\<exists>c\<in>set (a # xs). n_end m c \<le> p \<and> q \<le> n_end m c + n_hole m c"
  using assms
proof (induction xs arbitrary: a)
  case (Cons b xs)
  show ?case
  proof (cases "n_end m b \<le> p")
    case True
    have "\<exists>c\<in>set (b # xs). n_end m c \<le> p \<and> q \<le> n_end m c + n_hole m c"
      by (rule Cons.IH) (use Cons.prems True in auto)
    then show ?thesis by auto
  qed (use Cons.prems in auto)
qed auto

lemma mm_inv_gap:
  assumes inv: "mm_inv s ns hs" and pq: "n_end (mm_nodes s) (mm_head_node s) \<le> p" "p < q" "q \<le> n_start (mm_nodes s) (mm_head_node s)"
    and free: "\<forall>b\<in>set ns. n_end (mm_nodes s) b \<le> p \<or> q \<le> n_start (mm_nodes s) b"
  shows "\<exists>c\<in>set (mm_head_node s # ns). n_end (mm_nodes s) c \<le> p \<and> q \<le> n_end (mm_nodes s) c + n_hole (mm_nodes s) c"
  by (rule laid_gap) (use assms in \<open>auto simp: mm_inv_def block_ok_def\<close>)

text \<open>The size of a hole is determined by the blocks around it.\<close>

lemma laid_holes:
  assumes "laid m (a # xs @ [z])" "laid m' (a # xs @ [z])"
    and "n_end m' a = n_end m a" "n_start m' z = n_start m z"
    and "\<forall>b\<in>set xs. n_start m' b = n_start m b \<and> n_end m' b = n_end m b"
  shows "\<forall>b\<in>set (a # xs). n_hole m' b = n_hole m b"
  using assms by (induction xs arbitrary: a) auto

lemma mm_inv_holes:
  assumes inv: "mm_inv s ns hs" "mm_inv s' ns hs'" and f: "mm_frame A s s'" "A \<inter> set (mm_head_node s # ns) = {}"
  shows "\<forall>b\<in>set (mm_head_node s # ns). n_hole (mm_nodes s') b = n_hole (mm_nodes s) b"
proof (rule laid_holes [where z = "mm_head_node s"])
  have H: "mm_head_node s' = mm_head_node s" using f(1) by (simp add: mm_frame_def)
  have out: "b \<notin> A" if "b \<in> set (mm_head_node s # ns)" for b using f(2) that by blast
  note g = mm_frame_fields [OF f(1) out]
  show "laid (mm_nodes s) (mm_head_node s # ns @ [mm_head_node s])" "laid (mm_nodes s') (mm_head_node s # ns @ [mm_head_node s])"
    using inv H by (simp_all add: mm_inv_def)
  show "n_end (mm_nodes s') (mm_head_node s) = n_end (mm_nodes s) (mm_head_node s)"
    "n_start (mm_nodes s') (mm_head_node s) = n_start (mm_nodes s) (mm_head_node s)" using g by simp_all
  show "\<forall>b\<in>set ns. n_start (mm_nodes s') b = n_start (mm_nodes s) b \<and> n_end (mm_nodes s') b = n_end (mm_nodes s) b"
    using g by simp
qed

section \<open>Insertion\<close>

lemma block_inserted_place:
  assumes "block_inserted s ns x a p sz color s' ns'"
  obtains us vs where "a \<in> set (mm_head_node s # ns)" "ns = us @ vs" "ns' = us @ x # vs"
proof -
  obtain us vs where L: "mm_head_node s # ns = us @ a # vs" "mm_head_node s # ns' = us @ a # x # vs"
    using assms unfolding block_inserted_def by auto
  then have "a \<in> set (mm_head_node s # ns)" by (metis in_set_conv_decomp)
  moreover have "ns = tl (us @ [a]) @ vs" "ns' = tl (us @ [a]) @ x # vs" using L by (cases us; simp)+
  ultimately show ?thesis by (rule that)
qed

lemma insert_places:
  assumes inv: "mm_inv s ns hs" and cn: "colour_narrows s" and range: "rs \<le> re" and once: "mode AND DRM_MM_INSERT_ONCE = 0"
    and x: "live s x" "x \<notin> set (mm_head_node s # ns)" "\<not> nd_scanned_block (the (mm_nodes s x))"
  shows "if \<exists>c\<in>set (mm_head_node s # ns). \<exists>q. place_in s color rs re sz al c q
    then \<exists>s' ns' a p. drm_mm_insert_node_in_range x sz al color rs re mode s = Some (0, s') \<and>
      block_inserted s ns x a p sz color s' ns' \<and> place_in s color rs re sz al a p
    else drm_mm_insert_node_in_range x sz al color rs re mode s = Some (- ENOSPC, s)"
proof (cases "drm_mm_insert_node_in_range x sz al color rs re mode s = Some (- ENOSPC, s)")
  case True
  have "ENOSPC \<noteq> 0" by (simp add: ENOSPC_def)
  then have "no_place s color rs re sz al (mm_head_node s # ns)"
    using drm_mm_insert_node_in_range_spec [OF inv cn range x, of sz al color mode] True once by auto
  then show ?thesis using True unfolding no_place_def by auto
next
  case False
  then obtain s' ns' a p where r: "drm_mm_insert_node_in_range x sz al color rs re mode s = Some (0, s')"
    "block_inserted s ns x a p sz color s' ns'" "place_in s color rs re sz al a p"
    using drm_mm_insert_node_in_range_spec [OF inv cn range x, of sz al color mode] by blast
  have "a \<in> set (mm_head_node s # ns)" by (rule block_inserted_place [OF r(2)])
  then show ?thesis using r by auto
qed

section \<open>Every state the operations can reach\<close>

text \<open>
  The callers of the allocator: they initialise it once, allocate nodes, fill in the block they
  want to reserve, insert and reserve nodes that are not allocated, remove those that are, replace
  one that is by one that is not, and free nodes that are not.
\<close>

definition idle :: "drm_mm \<Rightarrow> addr \<Rightarrow> bool" where
  "idle s x \<longleftrightarrow> live s x \<and> x \<noteq> mm_head_node s \<and> \<not> nd_allocated (the (mm_nodes s x))"

definition busy :: "drm_mm \<Rightarrow> addr \<Rightarrow> bool" where
  "busy s x \<longleftrightarrow> live s x \<and> nd_allocated (the (mm_nodes s x))"

inductive mm_reach :: "u64 \<Rightarrow> u64 \<Rightarrow> drm_mm \<Rightarrow> bool" for start sz where
  init: "\<lbrakk>live s (mm_head_node s); mm_hole_stack s \<in> dom (mm_hole_list s);
     \<forall>x. live s x \<longrightarrow> \<not> nd_allocated (the (mm_nodes s x)) \<and> \<not> nd_scanned_block (the (mm_nodes s x));
     drm_mm_init start sz s = Some s'\<rbrakk> \<Longrightarrow> mm_reach start sz s'"
| calloc: "\<lbrakk>mm_reach start sz s; \<not> live s a; valid_ptr a; a \<noteq> mm_hole_stack s\<rbrakk> \<Longrightarrow> mm_reach start sz (node_calloc a s)"
| free: "\<lbrakk>mm_reach start sz s; idle s a\<rbrakk> \<Longrightarrow> mm_reach start sz (node_free a s)"
| fill: "\<lbrakk>mm_reach start sz s; idle s a; nd_write a (\<lambda>n. n\<lparr>nd_start := b, nd_size := l, nd_color := c\<rparr>) s = Some s'\<rbrakk>
    \<Longrightarrow> mm_reach start sz s'"
| insert: "\<lbrakk>mm_reach start sz s; idle s x; rs \<le> re; drm_mm_insert_node_in_range x l al color rs re mode s = Some (r, s')\<rbrakk>
    \<Longrightarrow> mm_reach start sz s'"
| reserve: "\<lbrakk>mm_reach start sz s; idle s x; drm_mm_reserve_node x s = Some (r, s')\<rbrakk>
    \<Longrightarrow> mm_reach start sz s'"
| remove: "\<lbrakk>mm_reach start sz s; busy s x; drm_mm_remove_node x s = Some s'\<rbrakk> \<Longrightarrow> mm_reach start sz s'"
| replace: "\<lbrakk>mm_reach start sz s; busy s x; idle s y; drm_mm_replace_node x y s = Some s'\<rbrakk> \<Longrightarrow> mm_reach start sz s'"

inductive_cases mm_reachE: "mm_reach start sz s"

definition mm_ok :: "u64 \<Rightarrow> u64 \<Rightarrow> drm_mm \<Rightarrow> addr list \<Rightarrow> bool" where
  "mm_ok start sz s ns \<longleftrightarrow> (\<exists>hs. mm_inv s ns hs) \<and> mm_color_adjust s = None \<and>
     n_end (mm_nodes s) (mm_head_node s) = start \<and> n_start (mm_nodes s) (mm_head_node s) = start + sz \<and>
     (\<forall>x. live s x \<and> x \<notin> set (mm_head_node s # ns) \<longrightarrow>
        \<not> nd_allocated (the (mm_nodes s x)) \<and> \<not> nd_scanned_block (the (mm_nodes s x)))"

lemma mm_ok_busy:
  assumes "mm_ok start sz s ns"
  shows "busy s x \<longleftrightarrow> x \<in> set ns" "idle s x \<longleftrightarrow> live s x \<and> x \<notin> set (mm_head_node s # ns)"
    "idle s x \<Longrightarrow> \<not> nd_scanned_block (the (mm_nodes s x))"
proof -
  obtain hs where inv: "mm_inv s ns hs" using assms by (auto simp: mm_ok_def)
  have b: "live s y \<and> nd_allocated (the (mm_nodes s y))" if "y \<in> set ns" for y
    using inv that by (auto simp: mm_inv_def block_ok_def node_ok_def)
  have h: "mm_head_node s \<notin> set ns" using mm_inv_distinct [OF inv] by simp
  have "\<not> nd_allocated (the (mm_nodes s (mm_head_node s)))" using inv by (simp add: mm_inv_def head_ok_def)
  then show "busy s x \<longleftrightarrow> x \<in> set ns" using assms b by (auto simp: mm_ok_def busy_def)
  show idle: "idle s x \<longleftrightarrow> live s x \<and> x \<notin> set (mm_head_node s # ns)" using assms b by (auto simp: mm_ok_def idle_def)
  show "idle s x \<Longrightarrow> \<not> nd_scanned_block (the (mm_nodes s x))" using assms idle by (auto simp: mm_ok_def)
qed

lemma mm_ok_colour: "mm_ok start sz s ns \<Longrightarrow> colour_narrows s"
  by (simp add: mm_ok_def colour_narrows_def adjust_colour_def)

lemma mm_ok_inv: "mm_ok start sz s ns \<Longrightarrow> (\<And>hs. mm_inv s ns hs \<Longrightarrow> thesis) \<Longrightarrow> thesis"
  by (auto simp: mm_ok_def)

lemma mm_ok_frame:
  assumes ok: "mm_ok start sz s ns" and inv: "mm_inv s' ns' hs'" and f: "mm_frame A s s'"
    and A: "mm_head_node s \<notin> A" "set ns \<subseteq> A \<union> set ns'"
    and x: "\<forall>x\<in>A. x \<notin> set ns' \<longrightarrow> \<not> nd_allocated (the (mm_nodes s' x)) \<and> \<not> nd_scanned_block (the (mm_nodes s' x))"
  shows "mm_ok start sz s' ns'"
proof -
  note g = mm_frame_fields [OF f]
  have "\<not> nd_allocated (the (mm_nodes s' y)) \<and> \<not> nd_scanned_block (the (mm_nodes s' y))" if y: "live s' y" "y \<notin> set (mm_head_node s # ns')" for y
  proof (cases "y \<in> A")
    case False
    then have "live s y" "y \<notin> set (mm_head_node s # ns)" using f y A by (auto simp: mm_frame_def)
    then show ?thesis using ok g(6,7) [OF False] by (simp add: mm_ok_def)
  qed (use x y in auto)
  then show ?thesis using ok inv g(1,3) [OF A(1)] f by (auto simp: mm_ok_def mm_frame_def)
qed

lemma mm_ok_inserted:
  assumes ok: "mm_ok start sz s ns" and b: "block_inserted s ns x a p l color s' ns'" and x: "idle s x"
  shows "mm_ok start sz s' ns'"
proof -
  obtain us vs where "ns = us @ vs" "ns' = us @ x # vs" by (rule block_inserted_place [OF b])
  moreover obtain hs' where "mm_inv s' ns' hs'" "mm_frame {x} s s'" using b by (auto simp: block_inserted_def)
  moreover have "x \<noteq> mm_head_node s" using x by (simp add: idle_def)
  ultimately show ?thesis by (intro mm_ok_frame [OF ok, where A = "{x}"]) auto
qed

lemma mm_ok_same:
  assumes ok: "mm_ok start sz s ns" and roots: "same_roots s s'" and inv: "mm_inv s' ns hs'"
    and at: "\<forall>b. b \<noteq> a \<longrightarrow> same_at b s s'" and a: "a \<notin> set (mm_head_node s # ns)"
    and new: "live s' a \<Longrightarrow> \<not> nd_allocated (the (mm_nodes s' a)) \<and> \<not> nd_scanned_block (the (mm_nodes s' a))"
  shows "mm_ok start sz s' ns"
proof -
  have "mm_nodes s' (mm_head_node s) = mm_nodes s (mm_head_node s)" using at a by (auto simp: same_at_def)
  then have "n_end (mm_nodes s') (mm_head_node s) = n_end (mm_nodes s) (mm_head_node s)"
    "n_start (mm_nodes s') (mm_head_node s) = n_start (mm_nodes s) (mm_head_node s)" by (simp_all add: n_end_def n_start_def)
  moreover have "\<not> nd_allocated (the (mm_nodes s' y)) \<and> \<not> nd_scanned_block (the (mm_nodes s' y))" if y: "live s' y" "y \<notin> set (mm_head_node s # ns)" for y
  proof (cases "y = a")
    case False
    then have "live s y" "mm_nodes s' y = mm_nodes s y" using at y same_live [OF _ roots] by (auto simp: same_at_def)
    then show ?thesis using ok y(2) by (simp add: mm_ok_def)
  qed (use new y in blast)
  ultimately show ?thesis using ok inv roots by (auto simp: mm_ok_def same_roots_def)
qed

lemma zero_mm_live:
  assumes "valid_ptr head" "hole_stack \<noteq> head"
  shows "live (zero_mm self hole_stack head) b \<longleftrightarrow> b = head"
  using assms by (auto simp: zero_mm_def live_def)

lemma init_ok:
  assumes head: "live s (mm_head_node s)" "mm_hole_stack s \<in> dom (mm_hole_list s)"
    and idle: "\<forall>x. live s x \<longrightarrow> \<not> nd_allocated (the (mm_nodes s x)) \<and> \<not> nd_scanned_block (the (mm_nodes s x))"
    and run: "drm_mm_init start sz s = Some s'"
  shows "mm_ok start sz s' []"
proof -
  have "start < start + sz" using run by (auto simp: drm_mm_init_def not_le split: bind_splits)
  then have "\<exists>s'. drm_mm_init start sz s = Some s' \<and> mm_inv s' [] [mm_head_node s] \<and> mm_color_adjust s' = None \<and>
    mm_head_node s' = mm_head_node s \<and> mm_hole_stack s' = mm_hole_stack s \<and>
    n_end (mm_nodes s') (mm_head_node s) = start \<and> n_start (mm_nodes s') (mm_head_node s) = start + sz \<and>
    (\<forall>b. live s' b = live s b) \<and> (\<forall>b. b \<noteq> mm_head_node s \<longrightarrow> mm_nodes s' b = mm_nodes s b)"
    by (intro drm_mm_init_spec) (use head idle in auto)
  then show ?thesis using run idle by (auto simp: mm_ok_def)
qed

lemma mm_ok_calloc:
  assumes ok: "mm_ok start sz s ns" and a: "a \<notin> set (mm_head_node s # ns)" "valid_ptr a" "a \<noteq> mm_hole_stack s"
  shows "mm_ok start sz (node_calloc a s) ns"
proof -
  obtain hs where inv: "mm_inv s ns hs" using ok by (auto simp: mm_ok_def)
  note c = node_calloc_inv [OF inv a(1,3,2)]
  show ?thesis
    by (rule mm_ok_same [OF ok same_roots_calloc [OF a(3)] c(1) _ a(1)]) (use same_at_calloc c(4) in \<open>auto simp: zero_node_def\<close>)
qed

lemma mm_ok_free:
  assumes ok: "mm_ok start sz s ns" and a: "a \<notin> set (mm_head_node s # ns)" "a \<noteq> mm_hole_stack s"
  shows "mm_ok start sz (node_free a s) ns"
proof -
  obtain hs where inv: "mm_inv s ns hs" using ok by (auto simp: mm_ok_def)
  show ?thesis
    by (rule mm_ok_same [OF ok same_roots_free [OF a(2)] node_free_inv(1) [OF inv a] _ a(1)])
      (auto simp: same_at_def live_def node_free_def)
qed

text \<open>A block and a node that is free to take its place.\<close>

lemma mm_ok_replaced:
  assumes ok: "mm_ok start sz s (us @ x # vs)" and y: "idle s y"
  shows "\<exists>s'. drm_mm_replace_node x y s = Some s' \<and> replaced x y s s' \<and> mm_ok start sz s' (us @ y # vs)"
proof -
  obtain hs where inv: "mm_inv s (us @ x # vs) hs" using ok by (rule mm_ok_inv)
  have yl: "live s y" "y \<notin> set (mm_head_node s # us @ x # vs)" using mm_ok_busy(2) [OF ok] y by auto
  have xn: "mm_nodes s x \<noteq> None" "\<not> nd_scanned_block (the (mm_nodes s x))" "mm_head_node s \<noteq> x" "x \<noteq> y"
    using inv yl(2) mm_inv_distinct [OF inv] by (auto simp: mm_inv_def block_ok_def node_ok_def live_def)
  obtain s' where s': "drm_mm_replace_node x y s = Some s'" "mm_inv s' (us @ y # vs) (map (renamed x y) hs)" "replaced x y s s'"
    using drm_mm_replace_node_spec [OF inv yl] by blast
  have f: "mm_frame {x, y} s s'" using s'(3) by (simp add: replaced_def mm_frame_def)
  have "mm_ok start sz s' (us @ y # vs)"
  proof (rule mm_ok_frame [OF ok s'(2) f])
    show "\<forall>a\<in>{x, y}. a \<notin> set (us @ y # vs) \<longrightarrow> \<not> nd_allocated (the (mm_nodes s' a)) \<and> \<not> nd_scanned_block (the (mm_nodes s' a))"
      using s'(3) xn by (simp add: replaced_def)
  qed (use xn yl(2) in auto)
  then show ?thesis using s' by blast
qed

lemma mm_reach_ok: "mm_reach start sz s \<Longrightarrow> \<exists>ns. mm_ok start sz s ns"
proof (induction rule: mm_reach.induct)
  case (init s s')
  then show ?case using init_ok by blast
next
  case (calloc s a)
  then obtain ns hs where ok: "mm_ok start sz s ns" and inv: "mm_inv s ns hs" by (auto simp: mm_ok_def)
  have "a \<notin> set (mm_head_node s # ns)" using inv calloc.hyps(2) by (auto simp: mm_inv_def head_ok_def block_ok_def node_ok_def)
  then show ?case using mm_ok_calloc [OF ok] calloc.hyps(3,4) by blast
next
  case (free s a)
  then obtain ns where ok: "mm_ok start sz s ns" by blast
  have "a \<notin> set (mm_head_node s # ns)" "live s a" using mm_ok_busy(2) [OF ok] free.hyps(2) by auto
  then show ?case using mm_ok_free [OF ok] by (auto simp: live_def)
next
  case (fill s a c l b s')
  then obtain ns hs where ok: "mm_ok start sz s ns" and inv: "mm_inv s ns hs" by (auto simp: mm_ok_def)
  have a: "a \<notin> set (mm_head_node s # ns)" "live s a" "\<not> nd_scanned_block (the (mm_nodes s a))" "\<not> nd_allocated (the (mm_nodes s a))"
    using mm_ok_busy(2,3) [OF ok] fill.hyps(2) by (auto simp: idle_def)
  obtain n where n: "mm_nodes s a = Some n" "s' = s\<lparr>mm_nodes := (mm_nodes s)(a \<mapsto> n\<lparr>nd_start := b, nd_size := l, nd_color := c\<rparr>)\<rparr>"
    using fill.hyps(3) a(2) by (auto simp: nd_write_def live_def)
  have at: "\<forall>d. d \<noteq> a \<longrightarrow> same_at d s s'" "same_roots s s'" using n by (simp_all add: same_at_def same_roots_def)
  have "mm_inv s' ns hs" by (rule mm_inv_cong [OF inv _ at(2)]) (use at(1) a(1) in metis)
  then have "mm_ok start sz s' ns"
    by (rule mm_ok_same [OF ok at(2) _ at(1) a(1)]) (use a n in auto)
  then show ?case ..
next
  case (insert s x rs re l al color mode r s')
  then obtain ns hs where ok: "mm_ok start sz s ns" and inv: "mm_inv s ns hs" by (auto simp: mm_ok_def)
  have x: "live s x" "x \<notin> set (mm_head_node s # ns)" "\<not> nd_scanned_block (the (mm_nodes s x))"
    using mm_ok_busy(2,3) [OF ok] insert.hyps(2) by auto
  have "s' = s \<or> (\<exists>ns' a p. block_inserted s ns x a p l color s' ns')"
    using drm_mm_insert_node_in_range_spec [OF inv mm_ok_colour [OF ok] insert.hyps(3) x, of l al color mode] insert.hyps(4) by auto
  then show ?case using ok mm_ok_inserted [OF ok _ insert.hyps(2)] by blast
next
  case (reserve s x r s')
  then obtain ns hs where ok: "mm_ok start sz s ns" and inv: "mm_inv s ns hs" by (auto simp: mm_ok_def)
  have x: "live s x" "x \<notin> set (mm_head_node s # ns)" "\<not> nd_scanned_block (the (mm_nodes s x))"
    using mm_ok_busy(2,3) [OF ok] reserve.hyps(2) by auto
  have "s' = s \<or> (\<exists>ns' a. block_inserted s ns x a (n_start (mm_nodes s) x) (n_size (mm_nodes s) x) (nd_color (the (mm_nodes s x))) s' ns')"
    using drm_mm_reserve_node_spec [OF inv mm_ok_colour [OF ok] x] reserve.hyps(3) by auto
  then show ?case using ok mm_ok_inserted [OF ok _ reserve.hyps(2)] by blast
next
  case (remove s x s')
  then obtain ns hs where ok: "mm_ok start sz s ns" and inv: "mm_inv s ns hs" by (auto simp: mm_ok_def)
  have "x \<in> set ns" using mm_ok_busy(1) [OF ok] remove.hyps(2) by blast
  then obtain us vs where ns: "ns = us @ x # vs" by (meson split_list)
  then obtain hs' where "mm_inv s' (us @ vs) hs'" "mm_frame {x} s s'" "\<not> nd_allocated (the (mm_nodes s' x))"
     "\<not> nd_scanned_block (the (mm_nodes s' x))"
    using drm_mm_remove_node_spec [of s us x vs hs] inv remove.hyps(3) by auto
  moreover have "mm_head_node s \<noteq> x" using mm_inv_distinct [OF inv] ns by auto
  ultimately have "mm_ok start sz s' (us @ vs)" by (intro mm_ok_frame [OF ok, where A = "{x}"]) (auto simp: ns)
  then show ?case ..
next
  case (replace s x y s')
  then obtain ns where ok: "mm_ok start sz s ns" by blast
  have "x \<in> set ns" using mm_ok_busy(1) [OF ok] replace.hyps(2) by blast
  then obtain us vs where ns: "ns = us @ x # vs" by (meson split_list)
  show ?case using mm_ok_replaced [of start sz s us x vs y] ok replace.hyps(3,4) by (auto simp: ns)
qed

section \<open>Properties\<close>

text \<open>C40: \<open>drm_mm_init\<close> on zeroed memory returns for every range that does not wrap, and sets up an
  allocator without blocks whose only hole is the whole range.\<close>

theorem drm_mm_init_one_hole:
  assumes "valid_ptr head" "hole_stack \<noteq> head" "start < start + sz"
  shows "\<exists>s. drm_mm_init start sz (zero_mm self hole_stack head) = Some s \<and> mm_inv s [] [head] \<and>
    n_end (mm_nodes s) head = start \<and> n_hole (mm_nodes s) head = sz"
proof -
  have "\<exists>s. drm_mm_init start sz (zero_mm self hole_stack head) = Some s \<and> mm_inv s [] [head] \<and>
    mm_head_node s = head \<and> n_end (mm_nodes s) head = start \<and> n_start (mm_nodes s) head = start + sz"
    using drm_mm_init_spec [of "zero_mm self hole_stack head" start sz] assms zero_mm_live [OF assms(1,2)]
    by (auto simp: zero_mm_def zero_node_def)
  then obtain s where "drm_mm_init start sz (zero_mm self hole_stack head) = Some s" "mm_inv s [] [head]"
    "mm_head_node s = head" "n_end (mm_nodes s) head = start" "n_start (mm_nodes s) head = start + sz" by auto
  moreover from this have "n_hole (mm_nodes s) head = sz" by (simp add: mm_inv_def)
  ultimately show ?thesis by blast
qed

theorem drm_mm_init_one_hole_witness:
  "\<exists>s. drm_mm_init 0 0x8000000 (zero_mm 16 24 32) = Some s \<and> mm_inv s [] [32] \<and>
    n_end (mm_nodes s) 32 = 0 \<and> n_hole (mm_nodes s) 32 = 0x8000000"
  by (rule drm_mm_init_one_hole) (simp_all add: valid_ptr_def aligned_def)

text \<open>C6: \<open>drm_mm_insert_node_in_range\<close>, in any mode without \<open>DRM_MM_INSERT_ONCE\<close>, inserts the node
  exactly when some hole has room for an aligned block of that size inside the range; it then
  keeps the invariant, changes no other block, and puts the block into such a place. Otherwise it
  returns \<open>-ENOSPC\<close> and changes nothing.\<close>

theorem drm_mm_insert_iff_room:
  assumes "mm_inv s ns hs" and "colour_narrows s" and "rs \<le> re" and "mode AND DRM_MM_INSERT_ONCE = 0"
    and "live s x" "x \<notin> set (mm_head_node s # ns)" "\<not> nd_scanned_block (the (mm_nodes s x))"
  shows "if \<exists>c\<in>set (mm_head_node s # ns). \<exists>q. place_in s color rs re sz al c q
    then \<exists>s' ns' a p. drm_mm_insert_node_in_range x sz al color rs re mode s = Some (0, s') \<and>
      block_inserted s ns x a p sz color s' ns' \<and> place_in s color rs re sz al a p
    else drm_mm_insert_node_in_range x sz al color rs re mode s = Some (- ENOSPC, s)"
  by (rule insert_places [OF assms])

theorem drm_mm_insert_iff_room_witness:
  "(\<exists>s' ns' a p. drm_mm_insert_node_in_range 48 0x2000 0x1000 0 0 U64_MAX DRM_MM_INSERT_BEST example_mm = Some (0, s') \<and>
      block_inserted example_mm [] 48 a p 0x2000 0 s' ns' \<and> place_in example_mm 0 0 U64_MAX 0x2000 0x1000 a p) \<and>
   drm_mm_insert_node_in_range 48 0x8000001 0 0 0 U64_MAX DRM_MM_INSERT_LOW example_mm = Some (- ENOSPC, example_mm)"
proof (rule conjI)
  have l: "live example_mm 48" by (rule example_mm(8)) simp
  have n: "\<not> nd_scanned_block (the (mm_nodes example_mm 48))"
    using example_mm(9) [of 48] by (simp add: zero_node_def)
  have m: "DRM_MM_INSERT_BEST AND DRM_MM_INSERT_ONCE = 0" "DRM_MM_INSERT_LOW AND DRM_MM_INSERT_ONCE = 0"
    by (simp_all add: mode_defs)
  have x: "48 \<notin> set (mm_head_node example_mm # [])" by (simp add: example_mm)
  note inst = drm_mm_insert_iff_room [OF example_mm(2) example_mm_colour _ _ l x n]
  have p: "place_in example_mm 0 0 U64_MAX 0x2000 0x1000 32 0"
    by (simp add: place_in_def place_ok_def hole_window_def adjust_colour_def example_mm)
  then show "\<exists>s' ns' a p. drm_mm_insert_node_in_range 48 0x2000 0x1000 0 0 U64_MAX DRM_MM_INSERT_BEST example_mm = Some (0, s') \<and>
      block_inserted example_mm [] 48 a p 0x2000 0 s' ns' \<and> place_in example_mm 0 0 U64_MAX 0x2000 0x1000 a p"
    using inst [OF _ m(1), of 0 U64_MAX 0 "0x2000" "0x1000"] unfolding example_mm(4) if_bool_eq_conj by auto
  have "\<not> place_in example_mm 0 0 U64_MAX 0x8000001 0 32 q" for q
  proof
    assume "place_in example_mm 0 0 U64_MAX 0x8000001 0 32 q"
    from u64_fits [OF place_in_hole(1-3) [OF example_mm_colour this]] show False by (simp add: example_mm)
  qed
  then show "drm_mm_insert_node_in_range 48 0x8000001 0 0 0 U64_MAX DRM_MM_INSERT_LOW example_mm = Some (- ENOSPC, example_mm)"
    using inst [of 0 U64_MAX DRM_MM_INSERT_LOW 0 "0x8000001" 0] m(2) by (auto simp: example_mm)
qed

text \<open>A state with two holes: a block at \<open>0x1000\<close>, and a node that is not in use.\<close>

lemma example_two_holes:
  "\<exists>s hs. mm_inv s [48] hs \<and> colour_narrows s \<and> mm_color_adjust s = None \<and> mm_head_node s = 32 \<and> live s 64 \<and>
    \<not> nd_scanned_block (the (mm_nodes s 64)) \<and> n_end (mm_nodes s) 32 = 0 \<and> n_hole (mm_nodes s) 32 = 0x1000 \<and>
    n_end (mm_nodes s) 48 = 0x3000 \<and> n_hole (mm_nodes s) 48 = 0x7FFD000"
proof -
  have l: "live example_mm 48" by (rule example_mm(8)) simp
  have x: "48 \<notin> set (mm_head_node example_mm # [])" "\<not> nd_scanned_block (the (mm_nodes example_mm 48))"
    using example_mm(9) [of 48] by (simp_all add: zero_node_def example_mm(4))
  have m: "DRM_MM_INSERT_LOW AND DRM_MM_INSERT_ONCE = 0" "DRM_MM_INSERT_LOW AND NOT DRM_MM_INSERT_ONCE = DRM_MM_INSERT_LOW"
    by (simp_all add: mode_defs)
  have p: "place_in example_mm 0 0x1000 U64_MAX 0x2000 0 32 0x1000"
    by (simp add: place_in_def place_ok_def hole_window_def adjust_colour_def example_mm)
  then have "\<not> no_place example_mm 0 0x1000 U64_MAX 0x2000 0 [32]" by (auto simp: no_place_def)
  then obtain s ns a q where s: "block_inserted example_mm [] 48 a q 0x2000 0 s ns" "place_in example_mm 0 0x1000 U64_MAX 0x2000 0 a q"
    "mode_best DRM_MM_INSERT_LOW example_mm 0 0x1000 U64_MAX 0x2000 0 [32] a q"
    using drm_mm_insert_node_in_range_spec [OF example_mm(2) example_mm_colour _ l x, of "0x1000" U64_MAX "0x2000" 0 0 DRM_MM_INSERT_LOW] m
    by (simp add: example_mm(4)) blast
  have "q \<le> 0x1000" using s(3) p by (simp add: mode_best_def)
  moreover have "0x1000 \<le> q" by (rule place_in_hole(4) [OF example_mm_colour s(2)])
  ultimately have q: "q = 0x1000" by simp
  have ns: "ns = [48]" using s(1) by (elim block_inserted_place) simp
  obtain hs where inv: "mm_inv s [48] hs" and f: "mm_frame {48} example_mm s" and n: "n_start (mm_nodes s) 48 = 0x1000" "n_size (mm_nodes s) 48 = 0x2000"
    using s(1) unfolding block_inserted_def ns q by blast
  have h: "mm_head_node s = 32" "mm_color_adjust s = None" "live s 64" using f example_mm(3,4) example_mm(8) [of 64] by (simp_all add: mm_frame_def)
  have e: "n_end (mm_nodes s) 48 = 0x3000" using n by (simp add: n_start_def n_end_def n_size_def)
  note g = mm_frame_fields [OF f, of 32] mm_frame_fields [OF f, of 64]
  have diff: "h = b - a" if "a + h = b" for a b h :: u64 using that by auto
  have "n_hole (mm_nodes s) 32 = n_start (mm_nodes s) 48 - n_end (mm_nodes s) 32"
    "n_hole (mm_nodes s) 48 = n_start (mm_nodes s) 32 - n_end (mm_nodes s) 48"
    using mm_inv_at(2) [OF inv, of "[]" 32 "[48]"] mm_inv_at(2) [OF inv, of "[32]" 48 "[]"] h(1) by (simp_all add: diff)
  then have holes: "n_hole (mm_nodes s) 32 = 0x1000" "n_hole (mm_nodes s) 48 = 0x8000000 - 0x3000"
    using g(1,3) e n(1) example_mm(5,6) by simp_all
  have "\<not> nd_scanned_block (the (mm_nodes s 64))" using g(15) example_mm(9) [of 64] by (simp add: zero_node_def)
  moreover have "colour_narrows s" using h(2) by (simp add: colour_narrows_def adjust_colour_def)
  ultimately show ?thesis using inv h g(3) e holes example_mm(5) by (intro exI [of _ s] exI [of _ hs]) simp
qed

text \<open>C7: What \<open>drm_mm_insert_node_in_range\<close> does in every mode. The holes it tries are all holes, or with
  \<open>DRM_MM_INSERT_ONCE\<close> just the one that comes first for the mode. When one of these has a place for the
  block, it inserts the block, otherwise it returns \<open>-ENOSPC\<close> and changes nothing. The block goes to the
  lowest place there is for \<open>DRM_MM_INSERT_LOW\<close>, to the highest for \<open>DRM_MM_INSERT_HIGH\<close>, to the lowest
  place in the topmost hole of the hole stack that has one for \<open>DRM_MM_INSERT_EVICT\<close>, and else to the
  lowest place in a smallest hole that has one.\<close>

theorem drm_mm_insert_best_place:
  assumes "mm_inv s ns hs" and "colour_narrows s" and "rs \<le> re"
    and "live s x" "x \<notin> set (mm_head_node s # ns)" "\<not> nd_scanned_block (the (mm_nodes s x))"
  shows "\<exists>tried. holes_tried (mode AND NOT DRM_MM_INSERT_ONCE) (mode AND DRM_MM_INSERT_ONCE \<noteq> 0) rs re sz s hs
      (hole_nodes (mm_nodes s) (mm_head_node s # ns)) tried \<and>
    (if no_place s color rs re sz al tried
     then drm_mm_insert_node_in_range x sz al color rs re mode s = Some (- ENOSPC, s)
     else \<exists>s' ns' a p. a \<in> set tried \<and> drm_mm_insert_node_in_range x sz al color rs re mode s = Some (0, s') \<and>
       block_inserted s ns x a p sz color s' ns' \<and> place_in s color rs re sz al a p \<and>
       mode_best (mode AND NOT DRM_MM_INSERT_ONCE) s color rs re sz al (mm_head_node s # ns) a p \<and>
       hole_choice (mode AND NOT DRM_MM_INSERT_ONCE) s color rs re sz al hs a p)"
  by (rule drm_mm_insert_node_in_range_exact [OF assms])

theorem drm_mm_insert_best_place_witness:
  "\<exists>s hs t. mm_inv s [48] hs \<and>
    drm_mm_insert_node_in_range 64 0x2000 0 0 0 U64_MAX DRM_MM_INSERT_LOWEST s = Some (- ENOSPC, s) \<and>
    drm_mm_insert_node_in_range 64 0x2000 0x1000 0 0 U64_MAX DRM_MM_INSERT_HIGHEST s = Some (0, t) \<and>
    n_start (mm_nodes t) 64 = 0x7FFE000"
proof -
  obtain s hs where inv: "mm_inv s [48] hs" and cn: "colour_narrows s" and none: "mm_color_adjust s = None" and H: "mm_head_node s = 32"
    and x: "live s 64" "\<not> nd_scanned_block (the (mm_nodes s 64))"
    and n: "n_end (mm_nodes s) 32 = 0" "n_hole (mm_nodes s) 32 = 0x1000" "n_end (mm_nodes s) 48 = 0x3000" "n_hole (mm_nodes s) 48 = 0x7FFD000"
    using example_two_holes by blast
  have m: "DRM_MM_INSERT_LOWEST AND NOT DRM_MM_INSERT_ONCE = DRM_MM_INSERT_LOW" "DRM_MM_INSERT_LOWEST AND DRM_MM_INSERT_ONCE \<noteq> 0"
    "DRM_MM_INSERT_HIGHEST AND NOT DRM_MM_INSERT_ONCE = DRM_MM_INSERT_HIGH" "DRM_MM_INSERT_HIGHEST AND DRM_MM_INSERT_ONCE \<noteq> 0"
    "DRM_MM_INSERT_HIGH \<noteq> DRM_MM_INSERT_LOW" by (simp_all add: mode_defs)
  have x': "64 \<notin> set (mm_head_node s # [48])" by (simp add: H)
  have xs: "hole_nodes (mm_nodes s) [32, 48] = [32, 48]" using n by simp
  have low: "tried = [32]" if "holes_tried DRM_MM_INSERT_LOW True 0 U64_MAX 0x2000 s hs [32, 48] tried" for tried
    using that n by (auto simp: holes_tried_def comes_first_def nearest_def)
  have high: "tried = [48]" if "holes_tried DRM_MM_INSERT_HIGH True 0 U64_MAX 0x2000 s hs [32, 48] tried" for tried
    using that n m(5) by (auto simp: holes_tried_def comes_first_def nearest_def)
  have "\<not> place_in s 0 0 U64_MAX 0x2000 0 32 q" for q
  proof
    assume "place_in s 0 0 U64_MAX 0x2000 0 32 q"
    from u64_fits [OF place_in_hole(1-3) [OF cn this]] show False by (simp add: n)
  qed
  then have full: "no_place s 0 0 U64_MAX 0x2000 0 [32]" by (simp add: no_place_def)
  have refused: "drm_mm_insert_node_in_range 64 0x2000 0 0 0 U64_MAX DRM_MM_INSERT_LOWEST s = Some (- ENOSPC, s)"
  proof -
    obtain tried where "holes_tried DRM_MM_INSERT_LOW True 0 U64_MAX 0x2000 s hs [32, 48] tried"
      "no_place s 0 0 U64_MAX 0x2000 0 tried \<Longrightarrow> drm_mm_insert_node_in_range 64 0x2000 0 0 0 U64_MAX DRM_MM_INSERT_LOWEST s = Some (- ENOSPC, s)"
      using drm_mm_insert_best_place [OF inv cn _ x(1) x' x(2), of 0 U64_MAX DRM_MM_INSERT_LOWEST "0x2000" 0 0] m(2)
      unfolding H xs m(1) by (auto split: if_splits)
    then show ?thesis using low full by simp
  qed
  have p: "place_in s 0 0 U64_MAX 0x2000 0x1000 48 0x7FFE000"
    using none n by (simp add: place_in_def place_ok_def hole_window_def adjust_colour_def)
  then have room: "\<not> no_place s 0 0 U64_MAX 0x2000 0x1000 [48]" by (auto simp: no_place_def)
  obtain tried where tried: "holes_tried DRM_MM_INSERT_HIGH True 0 U64_MAX 0x2000 s hs [32, 48] tried" and
    r: "if no_place s 0 0 U64_MAX 0x2000 0x1000 tried
      then drm_mm_insert_node_in_range 64 0x2000 0x1000 0 0 U64_MAX DRM_MM_INSERT_HIGHEST s = Some (- ENOSPC, s)
      else \<exists>s' ns' a p. a \<in> set tried \<and> drm_mm_insert_node_in_range 64 0x2000 0x1000 0 0 U64_MAX DRM_MM_INSERT_HIGHEST s = Some (0, s') \<and>
        block_inserted s [48] 64 a p 0x2000 0 s' ns' \<and> place_in s 0 0 U64_MAX 0x2000 0x1000 a p \<and>
        mode_best DRM_MM_INSERT_HIGH s 0 0 U64_MAX 0x2000 0x1000 [32, 48] a p \<and>
        hole_choice DRM_MM_INSERT_HIGH s 0 0 U64_MAX 0x2000 0x1000 hs a p"
    using drm_mm_insert_best_place [OF inv cn _ x(1) x' x(2), of 0 U64_MAX DRM_MM_INSERT_HIGHEST "0x2000" 0 "0x1000"] m(4)
    unfolding H xs m(3) by auto
  obtain t ns' q where t: "drm_mm_insert_node_in_range 64 0x2000 0x1000 0 0 U64_MAX DRM_MM_INSERT_HIGHEST s = Some (0, t)"
    "block_inserted s [48] 64 48 q 0x2000 0 t ns'" "place_in s 0 0 U64_MAX 0x2000 0x1000 48 q"
    "hole_choice DRM_MM_INSERT_HIGH s 0 0 U64_MAX 0x2000 0x1000 hs 48 q"
    using r room unfolding high [OF tried] by auto
  have "0x7FFE000 \<le> q" using t(4) p by (simp add: hole_choice_def)
  moreover have "q < q + 0x2000" "q + 0x2000 \<le> 0x8000000" using place_in_hole(2,3) [OF cn t(3)] n by simp_all
  ultimately have "q = 0x7FFE000" by (simp add: word_less_nat_alt word_le_nat_alt unat_word_ariths word_unat_eq_iff) (use unsigned_less [of q, where ?'a = nat] in \<open>auto simp: mod_if split: if_splits\<close>)
  then show ?thesis using inv refused t(1,2) by (auto simp: block_inserted_def)
qed

text \<open>C12: \<open>drm_mm_remove_node\<close> of a block returns, keeps the invariant, takes exactly this block out and
  changes no other block; the hole before it then reaches to the next block.\<close>

theorem drm_mm_remove_merges_holes:
  assumes "mm_inv s (us @ x # vs) hs"
  shows "\<exists>s' hs'. drm_mm_remove_node x s = Some s' \<and> mm_inv s' (us @ vs) hs' \<and> mm_frame {x} s s' \<and>
    \<not> nd_allocated (the (mm_nodes s' x)) \<and>
    n_end (mm_nodes s) (last (mm_head_node s # us)) + n_hole (mm_nodes s') (last (mm_head_node s # us)) =
      n_start (mm_nodes s) (hd (vs @ [mm_head_node s]))"
proof -
  let ?H = "mm_head_node s" and ?a = "last (mm_head_node s # us)" and ?b = "hd (vs @ [mm_head_node s])"
  obtain s' hs' where s': "drm_mm_remove_node x s = Some s'" "mm_inv s' (us @ vs) hs'" "mm_frame {x} s s'"
    "\<not> nd_allocated (the (mm_nodes s' x))" using drm_mm_remove_node_spec [OF assms] by blast
  have d: "distinct (?H # us @ x # vs)" by (rule mm_inv_distinct [OF assms])
  have ab: "?a \<notin> {x}" "?b \<notin> {x}" using d last_in_set [of "?H # us"] by (auto simp: hd_append split: if_splits)
  have H': "mm_head_node s' = ?H" using s'(3) by (simp add: mm_frame_def)
  have L: "mm_head_node s' # us @ vs = butlast (?H # us) @ ?a # vs" unfolding H' by (simp del: last.simps butlast.simps)
  have "n_end (mm_nodes s') ?a + n_hole (mm_nodes s') ?a = n_start (mm_nodes s') ?b"
    using mm_inv_at(2) [OF s'(2) L] unfolding H' .
  then show ?thesis using s' mm_frame_fields(1,3) [OF s'(3)] ab by (metis (no_types))
qed

lemma example_used:
  "\<exists>s hs. drm_mm_insert_node_in_range 48 0x2000 0x1000 0 0 U64_MAX DRM_MM_INSERT_LOW example_mm = Some (0, s) \<and>
     mm_inv s [48] hs \<and> mm_head_node s = 32 \<and> n_start (mm_nodes s) 48 = 0 \<and> n_size (mm_nodes s) 48 = 0x2000 \<and> mm_frame {48} example_mm s"
proof -
  have l: "live example_mm 48" by (rule example_mm(8)) simp
  have x: "\<not> nd_scanned_block (the (mm_nodes example_mm 48))" "48 \<notin> set (mm_head_node example_mm # [])"
    using example_mm(9) [of 48] by (simp_all add: zero_node_def example_mm(4))
  have m: "DRM_MM_INSERT_LOW AND DRM_MM_INSERT_ONCE = 0" "DRM_MM_INSERT_LOW AND NOT DRM_MM_INSERT_ONCE = DRM_MM_INSERT_LOW"
    by (simp_all add: mode_defs)
  have p: "place_in example_mm 0 0 U64_MAX 0x2000 0x1000 32 0"
    by (simp add: place_in_def place_ok_def hole_window_def adjust_colour_def example_mm)
  obtain s' ns' a q where s': "drm_mm_insert_node_in_range 48 0x2000 0x1000 0 0 U64_MAX DRM_MM_INSERT_LOW example_mm = Some (0, s')"
    "block_inserted example_mm [] 48 a q 0x2000 0 s' ns'" "mode_best DRM_MM_INSERT_LOW example_mm 0 0 U64_MAX 0x2000 0x1000 [32] a q"
  proof -
    have "\<not> no_place example_mm 0 0 U64_MAX 0x2000 0x1000 [32]" using p by (auto simp: no_place_def)
    then show ?thesis
      using drm_mm_insert_node_in_range_spec [OF example_mm(2) example_mm_colour _ l x(2,1), of 0 U64_MAX "0x2000" "0x1000" 0 DRM_MM_INSERT_LOW]
        m that by (simp add: example_mm(4)) blast
  qed
  have "q = 0" using s'(3) p by (simp add: mode_best_def) (metis word_le_0_iff)
  moreover have "ns' = [48]" using s'(2) by (elim block_inserted_place) simp
  moreover have "mm_head_node s' = 32" using s'(2) by (auto simp: block_inserted_def mm_frame_def example_mm(4))
  ultimately show ?thesis using s'(1,2) by (auto simp: block_inserted_def)
qed

text \<open>The initial state of the examples is one that callers can reach.\<close>

lemma example_mm_ok: "mm_ok 0 0x8000000 example_mm []"
  by (rule init_ok [OF _ _ _ example_mm(1)])
    (use example_memory_simps example_memory_live in \<open>auto simp: live_def zero_node_def split: if_splits\<close>)

lemma example_mm_reach: "mm_reach 0 0x8000000 example_mm"
proof (rule mm_reach.init [OF _ _ _ example_mm(1)])
  show "live example_memory (mm_head_node example_memory)" by (simp add: example_memory_live example_memory_simps)
  show "mm_hole_stack example_memory \<in> dom (mm_hole_list example_memory)" by (simp only: example_memory_simps)
  show "\<forall>x. live example_memory x \<longrightarrow> \<not> nd_allocated (the (mm_nodes example_memory x)) \<and> \<not> nd_scanned_block (the (mm_nodes example_memory x))"
    by (auto simp: live_def example_memory_simps zero_node_def split: if_splits)
qed

text \<open>The same state, seen from outside: one block, and a node that is not in use.\<close>

lemma example_block:
  "\<exists>s. mm_ok 0 0x8000000 s [48] \<and> n_start (mm_nodes s) 48 = 0 \<and> n_end (mm_nodes s) 48 = 0x2000 \<and> idle s 64 \<and>
    mm_head_node s = 32 \<and> mm_reach 0 0x8000000 s"
proof -
  obtain s hs where s: "mm_inv s [48] hs" "n_start (mm_nodes s) 48 = 0" "n_size (mm_nodes s) 48 = 0x2000" "mm_frame {48} example_mm s"
    and run: "drm_mm_insert_node_in_range 48 0x2000 0x1000 0 0 U64_MAX DRM_MM_INSERT_LOW example_mm = Some (0, s)"
    using example_used by blast
  have ok: "mm_ok 0 0x8000000 s [48]"
    by (rule mm_ok_frame [OF example_mm_ok s(1,4)]) (simp_all add: example_mm(4))
  have "live s 64" using s(4) example_mm(8) [of 64] by (simp add: mm_frame_def)
  moreover have head: "mm_head_node s = 32" using s(4) example_mm(4) by (simp add: mm_frame_def)
  ultimately have "idle s 64" using mm_ok_busy(2) [OF ok, of 64] by simp
  moreover have "n_end (mm_nodes s) 48 = 0x2000" using s(2,3) by (simp add: n_start_def n_end_def n_size_def)
  moreover have "idle example_mm 48"
    using example_mm(8) [of 48] example_mm(9) [of 48] by (simp add: idle_def example_mm(4) zero_node_def)
  then have "mm_reach 0 0x8000000 s" using mm_reach.insert [OF example_mm_reach _ _ run] by simp
  ultimately show ?thesis using ok s(2) head by blast
qed

theorem drm_mm_remove_merges_holes_witness:
  "\<exists>s s' hs'. drm_mm_insert_node_in_range 48 0x2000 0x1000 0 0 U64_MAX DRM_MM_INSERT_LOW example_mm = Some (0, s) \<and>
    drm_mm_remove_node 48 s = Some s' \<and> mm_inv s' [] hs' \<and> n_hole (mm_nodes s') 32 = 0x8000000"
proof -
  obtain s hs where s: "drm_mm_insert_node_in_range 48 0x2000 0x1000 0 0 U64_MAX DRM_MM_INSERT_LOW example_mm = Some (0, s)"
    "mm_inv s ([] @ 48 # []) hs" "mm_head_node s = 32" "mm_frame {48} example_mm s" using example_used by auto
  have "n_start (mm_nodes s) 32 = 0x8000000" "n_end (mm_nodes s) 32 = 0"
    using mm_frame_fields(1,3) [OF s(4), of 32] example_mm(5,6) by simp_all
  then show ?thesis using drm_mm_remove_merges_holes [OF s(2)] s(1,3) by auto
qed

text \<open>C11: Inserting a node and removing it again brings the allocator back: the same blocks in the same
  order, with the same bounds, flags and colours, and the same holes behind them.\<close>

theorem drm_mm_insert_remove_restores:
  assumes "mm_inv s ns hs" and "colour_narrows s" and "rs \<le> re"
    and "live s x" "x \<notin> set (mm_head_node s # ns)" "\<not> nd_scanned_block (the (mm_nodes s x))"
    and "drm_mm_insert_node_in_range x sz al color rs re mode s = Some (0, s1)"
  shows "\<exists>s' hs'. drm_mm_remove_node x s1 = Some s' \<and> mm_inv s' ns hs' \<and> mm_frame {x} s s' \<and>
    (\<forall>b\<in>set (mm_head_node s # ns). n_hole (mm_nodes s') b = n_hole (mm_nodes s) b)"
proof -
  have "(0 :: int) \<noteq> - ENOSPC" by (simp add: ENOSPC_def)
  then obtain ns' a p where b: "block_inserted s ns x a p sz color s1 ns'"
    using drm_mm_insert_node_in_range_spec [OF assms(1-6), of sz al color mode] assms(7) by auto
  obtain us vs where ns: "ns = us @ vs" "ns' = us @ x # vs" by (rule block_inserted_place [OF b])
  obtain hs1 where "mm_inv s1 (us @ x # vs) hs1" and f1: "mm_frame {x} s s1"
    using b ns by (auto simp: block_inserted_def)
  then obtain s' hs' where s': "drm_mm_remove_node x s1 = Some s'" "mm_inv s' ns hs'" "mm_frame {x} s1 s'"
    using drm_mm_remove_node_spec ns(1) by blast
  have f: "mm_frame {x} s s'" by (rule mm_frame_trans [OF f1 s'(3)]) simp
  have "\<forall>b\<in>set (mm_head_node s # ns). n_hole (mm_nodes s') b = n_hole (mm_nodes s) b"
    by (rule mm_inv_holes [OF assms(1) s'(2) f]) (use assms(5) in blast)
  then show ?thesis using s' f by blast
qed

theorem drm_mm_insert_remove_restores_witness:
  "\<exists>s1 s' hs'. drm_mm_insert_node_in_range 48 0x2000 0x1000 0 0 U64_MAX DRM_MM_INSERT_LOW example_mm = Some (0, s1) \<and>
    drm_mm_remove_node 48 s1 = Some s' \<and> mm_inv s' [] hs' \<and> mm_frame {48} example_mm s' \<and>
    n_hole (mm_nodes s') 32 = 0x8000000"
proof -
  obtain s1 where s1: "drm_mm_insert_node_in_range 48 0x2000 0x1000 0 0 U64_MAX DRM_MM_INSERT_LOW example_mm = Some (0, s1)"
    using example_used by blast
  have l: "live example_mm 48" by (rule example_mm(8)) simp
  have x: "48 \<notin> set (mm_head_node example_mm # [])" "\<not> nd_scanned_block (the (mm_nodes example_mm 48))"
    using example_mm(9) [of 48] by (simp_all add: zero_node_def example_mm(4))
  have "\<exists>s' hs'. drm_mm_remove_node 48 s1 = Some s' \<and> mm_inv s' [] hs' \<and> mm_frame {48} example_mm s' \<and>
    (\<forall>b\<in>set (mm_head_node example_mm # []). n_hole (mm_nodes s') b = n_hole (mm_nodes example_mm) b)"
    by (rule drm_mm_insert_remove_restores [OF example_mm(2) example_mm_colour _ l x s1]) simp
  then show ?thesis using s1 example_mm(4,7) by auto
qed

text \<open>C13: \<open>drm_mm_replace_node\<close> of a block by a node that is not in use always returns. The new node has the
  block, the colour and the hole of the old one, and its place among the blocks; the old node is
  not in use any more, and every other block and hole stays as it was.\<close>

theorem drm_mm_replace_hands_over:
  assumes "mm_ok start sz s (us @ x # vs)" and "idle s y"
  shows "\<exists>s'. drm_mm_replace_node x y s = Some s' \<and> mm_ok start sz s' (us @ y # vs) \<and> idle s' x \<and>
    n_start (mm_nodes s') y = n_start (mm_nodes s) x \<and> n_end (mm_nodes s') y = n_end (mm_nodes s) x \<and>
    nd_color (the (mm_nodes s' y)) = nd_color (the (mm_nodes s x)) \<and> n_hole (mm_nodes s') y = n_hole (mm_nodes s) x \<and>
    (\<forall>b\<in>set (mm_head_node s # us @ vs). mm_nodes s' b = mm_nodes s b)"
proof -
  obtain s' where s': "drm_mm_replace_node x y s = Some s'" "replaced x y s s'" "mm_ok start sz s' (us @ y # vs)"
    using mm_ok_replaced [OF assms] by blast
  obtain hs where inv: "mm_inv s (us @ x # vs) hs" using assms(1) by (rule mm_ok_inv)
  have out: "y \<notin> set (mm_head_node s # us @ x # vs)" using mm_ok_busy(2) [OF assms(1)] assms(2) by blast
  moreover have "x \<notin> set (mm_head_node s # us @ vs)" using mm_inv_distinct [OF inv] by auto
  ultimately have rest: "\<forall>b\<in>set (mm_head_node s # us @ vs). mm_nodes s' b = mm_nodes s b"
    using s'(2) by (auto simp: replaced_def)
  have "live s' x" "mm_head_node s' = mm_head_node s"
    using mm_ok_busy(1) [OF assms(1), of x] s'(2) by (simp_all add: busy_def replaced_def)
  then have "idle s' x" using mm_ok_busy(2) [OF s'(3), of x] out mm_inv_distinct [OF inv] by auto
  then show ?thesis using s' rest by (simp add: replaced_def n_start_def n_end_def n_hole_def)
qed

theorem drm_mm_replace_hands_over_witness:
  "\<exists>s s'. drm_mm_replace_node 48 64 s = Some s' \<and> mm_ok 0 0x8000000 s' [64] \<and> idle s' 48 \<and>
    n_start (mm_nodes s') 64 = 0 \<and> n_end (mm_nodes s') 64 = 0x2000"
proof -
  obtain s where s: "mm_ok 0 0x8000000 s ([] @ 48 # [])" "n_start (mm_nodes s) 48 = 0" "n_end (mm_nodes s) 48 = 0x2000" "idle s 64"
    using example_block by auto
  show ?thesis using drm_mm_replace_hands_over [OF s(1,4)] s(2,3) by - (rule exI [of _ s], auto)
qed

text \<open>C14: \<open>drm_mm_reserve_node\<close> succeeds exactly when the block the caller wrote into the node does not
  wrap and lies, after colour adjustment, in one hole. It then enters the allocator at the place
  asked for; otherwise the call returns \<open>-ENOSPC\<close> and changes nothing.\<close>

theorem drm_mm_reserve_iff_free:
  assumes "mm_inv s ns hs" and "colour_narrows s"
    and "live s x" "x \<notin> set (mm_head_node s # ns)" "\<not> nd_scanned_block (the (mm_nodes s x))"
  shows "if \<exists>c\<in>set (mm_head_node s # ns). reservable s x c
    then \<exists>s' ns' a. drm_mm_reserve_node x s = Some (0, s') \<and>
      block_inserted s ns x a (n_start (mm_nodes s) x) (n_size (mm_nodes s) x) (nd_color (the (mm_nodes s x))) s' ns'
    else drm_mm_reserve_node x s = Some (- ENOSPC, s)"
proof (cases "drm_mm_reserve_node x s = Some (- ENOSPC, s)")
  case True
  have "ENOSPC \<noteq> 0" by (simp add: ENOSPC_def)
  then have "\<forall>c\<in>set (mm_head_node s # ns). \<not> reservable s x c"
    using drm_mm_reserve_node_spec [OF assms] True by auto
  then show ?thesis using True by auto
next
  case False
  then obtain s' ns' a where r: "drm_mm_reserve_node x s = Some (0, s')" "reservable s x a"
    "block_inserted s ns x a (n_start (mm_nodes s) x) (n_size (mm_nodes s) x) (nd_color (the (mm_nodes s x))) s' ns'"
    using drm_mm_reserve_node_spec [OF assms] by blast
  have "a \<in> set (mm_head_node s # ns)" by (rule block_inserted_place [OF r(3)])
  then show ?thesis using r by auto
qed

text \<open>A node filled in with the block \<open>[0x3000; 0x5000)\<close>.\<close>

definition example_filled :: drm_mm where
  "example_filled = the (nd_write 64 (\<lambda>n. n\<lparr>nd_start := 0x3000, nd_size := 0x2000, nd_color := 7\<rparr>) example_mm)"

lemma example_filled:
  "mm_inv example_filled [] [32]" "colour_narrows example_filled" "live example_filled 64" "mm_head_node example_filled = 32"
  "mm_nodes example_filled 64 = Some (zero_node\<lparr>nd_start := 0x3000, nd_size := 0x2000, nd_color := 7\<rparr>)"
  "n_hole (mm_nodes example_filled) 32 = 0x8000000" "n_end (mm_nodes example_filled) 32 = 0" "mm_color_adjust example_filled = None"
proof -
  have e: "example_filled = example_mm\<lparr>mm_nodes := (mm_nodes example_mm)(64 \<mapsto> zero_node\<lparr>nd_start := 0x3000, nd_size := 0x2000, nd_color := 7\<rparr>)\<rparr>"
    using example_mm(9) [of 64] by (simp add: example_filled_def nd_write_def)
  have r: "same_roots example_mm example_filled" and a: "\<And>b. b \<noteq> 64 \<Longrightarrow> same_at b example_mm example_filled"
    by (simp_all add: e same_roots_def same_at_def)
  have at: "\<forall>b\<in>set (mm_head_node example_mm # []). same_at b example_mm example_filled" using a by (simp add: example_mm(4))
  show "mm_inv example_filled [] [32]" by (rule mm_inv_cong [OF example_mm(2) at r])
  show "colour_narrows example_filled" "mm_head_node example_filled = 32" "mm_color_adjust example_filled = None"
    using example_mm(3,4) by (simp_all add: e colour_narrows_def adjust_colour_def)
  have "live example_mm 64" by (rule example_mm(8)) simp
  then show "live example_filled 64" by (simp add: e live_def)
  show "mm_nodes example_filled 64 = Some (zero_node\<lparr>nd_start := 0x3000, nd_size := 0x2000, nd_color := 7\<rparr>)" by (simp add: e)
  show "n_hole (mm_nodes example_filled) 32 = 0x8000000" "n_end (mm_nodes example_filled) 32 = 0"
    using example_mm(5,7) by (simp_all add: e n_hole_def n_end_def)
qed

theorem drm_mm_reserve_iff_free_witness:
  "\<exists>s' ns' a. drm_mm_reserve_node 64 example_filled = Some (0, s') \<and>
    block_inserted example_filled [] 64 a 0x3000 0x2000 7 s' ns'"
proof -
  have f: "n_start (mm_nodes example_filled) 64 = 0x3000" "n_size (mm_nodes example_filled) 64 = 0x2000"
    "nd_color (the (mm_nodes example_filled 64)) = 7" "\<not> nd_scanned_block (the (mm_nodes example_filled 64))" "64 \<notin> set (mm_head_node example_filled # [])"
    by (simp_all add: n_start_def n_size_def n_hole_def example_filled zero_node_def)
  have "\<exists>c\<in>set (mm_head_node example_filled # []). reservable example_filled 64 c"
    by (simp add: reservable_def hole_window_def adjust_colour_def example_filled n_start_def n_end_def [of _ 64] n_end_def)
      (simp add: example_filled(6,7) [unfolded n_end_def] n_hole_def)
  then show ?thesis
    using drm_mm_reserve_iff_free [OF example_filled(1,2,3) f(5,4)] unfolding f by simp
qed

text \<open>C15: The computation both the insertion and the scan make in a hole: it never divides by zero, and
  returns the lowest (for \<open>DRM_MM_INSERT_HIGH\<close> the highest) aligned place for the block in the hole
  and the range, or nothing when there is none, whatever wraps around in between.\<close>

theorem fit_in_hole_exact:
  assumes "sz \<noteq> 0" and "al \<noteq> 1"
  shows "\<exists>r. fit_in_hole col_start col_end range_start range_end sz al (hole_remainder_mask al) mode = Some r \<and>
    best_place (max col_start range_start) (min col_end range_end) sz al (mode = DRM_MM_INSERT_HIGH) r"
  by (rule fit_in_hole_spec [OF assms])

theorem fit_in_hole_exact_witness:
  "\<exists>r. fit_in_hole 0x1800 0x9000 0 0x8000 0x2000 0x3000 (hole_remainder_mask 0x3000) DRM_MM_INSERT_HIGH = Some r \<and>
    best_place (max 0x1800 0) (min 0x9000 0x8000) 0x2000 0x3000 (DRM_MM_INSERT_HIGH = DRM_MM_INSERT_HIGH) r \<and> r = Some 0x6000"
proof -
  have "fit_in_hole 0x1800 0x9000 0 0x8000 0x2000 0x3000 (hole_remainder_mask 0x3000) DRM_MM_INSERT_HIGH = Some (Some 0x6000)"
    by (simp add: fit_in_hole_def hole_remainder_mask_def is_power_of_2_def mode_defs c_max_def c_min_def div64_u64_rem_def Let_def)
  then show ?thesis
    using fit_in_hole_exact [of "0x2000" "0x3000" "0x1800" "0x9000" 0 "0x8000" DRM_MM_INSERT_HIGH] by simp
qed

text \<open>C4: In every state the operations can reach from \<open>drm_mm_init\<close>, in whatever order callers use
  them, the allocated blocks are pairwise disjoint, not empty and inside the managed range, and
  \<open>drm_mm_remove_node\<close> of any of them returns.\<close>

theorem mm_reach_safe:
  assumes "mm_reach start sz s" and "busy s a"
  shows "start \<le> n_start (mm_nodes s) a \<and> n_start (mm_nodes s) a < n_end (mm_nodes s) a \<and> n_end (mm_nodes s) a \<le> start + sz \<and>
    (\<forall>b. busy s b \<and> b \<noteq> a \<longrightarrow>
       n_end (mm_nodes s) a \<le> n_start (mm_nodes s) b \<or> n_end (mm_nodes s) b \<le> n_start (mm_nodes s) a) \<and>
    (\<exists>s'. drm_mm_remove_node a s = Some s')"
proof -
  obtain ns hs where ok: "mm_ok start sz s ns" and inv: "mm_inv s ns hs" using mm_reach_ok [OF assms(1)] by (auto simp: mm_ok_def)
  have a: "a \<in> set ns" using mm_ok_busy(1) [OF ok] assms(2) by blast
  then have "\<exists>s'. drm_mm_remove_node a s = Some s'" using inv drm_mm_remove_node_spec by (metis split_list)
  moreover have "\<forall>b. busy s b \<and> b \<noteq> a \<longrightarrow>
      n_end (mm_nodes s) a \<le> n_start (mm_nodes s) b \<or> n_end (mm_nodes s) b \<le> n_start (mm_nodes s) a"
    using mm_inv_disjoint [OF inv a] mm_ok_busy(1) [OF ok] by blast
  ultimately show ?thesis using mm_inv_in_range [OF inv a] ok by (simp add: mm_ok_def)
qed

theorem mm_reach_safe_witness:
  "\<exists>s. mm_reach 0 0x8000000 s \<and> busy s 48 \<and> n_end (mm_nodes s) 48 \<le> 0x8000000 \<and> (\<exists>s'. drm_mm_remove_node 48 s = Some s')"
proof -
  obtain s where s: "mm_ok 0 0x8000000 s [48]" "mm_reach 0 0x8000000 s" using example_block by blast
  have b: "busy s 48" using mm_ok_busy(1) [OF s(1)] by simp
  show ?thesis using mm_reach_safe [OF s(2) b] s(2) b by auto
qed

end
