(* ===== verification/Drm_Mm_Scan.thy ===== *)
theory Drm_Mm_Scan
  imports Drm_Mm_Api
begin

text \<open>
  The eviction scan. \<open>drm_mm_scan_add_block\<close> takes blocks out of the node list without poisoning
  their links, and \<open>drm_mm_scan_remove_block\<close> puts them back in the reverse order. In between the
  allocator is in a state that the relation \<open>scan_steps\<close> describes: which blocks are on the roster
  and which remain in the list.
\<close>

section \<open>The states of a scan\<close>

text \<open>What adding a block to the roster does to the allocator.\<close>

definition scan_out :: "addr \<Rightarrow> drm_mm \<Rightarrow> drm_mm option" where
  "scan_out x s = do {
     s \<leftarrow> nd_write x (\<lambda>n. n\<lparr>nd_scanned_block := True\<rparr>) s;
     on_node_list (raw_list_del_entry x) (s\<lparr>mm_scan_active := mm_scan_active s + 1\<rparr>)
   }"

text \<open>
  \<open>scan_steps s0 ns roster rest s\<close>: from \<open>s0\<close>, with the blocks \<open>ns\<close>, the blocks of \<open>roster\<close> were added,
  the last one first, and \<open>rest\<close> remains in the list.
\<close>

inductive scan_steps :: "drm_mm \<Rightarrow> addr list \<Rightarrow> addr list \<Rightarrow> addr list \<Rightarrow> drm_mm \<Rightarrow> bool" for s0 ns where
  scan_start: "scan_steps s0 ns [] ns s0"
| scan_add: "scan_steps s0 ns roster (us @ x # vs) s \<Longrightarrow> scan_out x s = Some s' \<Longrightarrow> scan_steps s0 ns (x # roster) (us @ vs) s'"

inductive_cases scan_steps_NilE: "scan_steps s0 ns [] rest s"
inductive_cases scan_steps_ConsE: "scan_steps s0 ns (x # roster) rest s"

definition scan_marked :: "drm_mm \<Rightarrow> addr list \<Rightarrow> drm_mm_node store" where
  "scan_marked s0 roster = (\<lambda>b. if b \<in> set roster then map_option (nd_scanned_block_update (\<lambda>_. True)) (mm_nodes s0 b) else mm_nodes s0 b)"

lemma scan_out_eq:
  assumes l: "is_list (mm_node_list s) H (us @ x # vs)" and n: "mm_nodes s x = Some n"
  shows "\<exists>h. raw_list_del_entry x (mm_node_list s) = Some h \<and> is_list h H (us @ vs) \<and> prev_of h x = Some (last (H # us)) \<and>
    next_of h x = Some (hd (vs @ [H])) \<and> list_add x (last (H # us)) h = Some (mm_node_list s) \<and>
    scan_out x s = Some (s\<lparr>mm_nodes := (mm_nodes s)(x \<mapsto> n\<lparr>nd_scanned_block := True\<rparr>),
      mm_scan_active := mm_scan_active s + 1, mm_node_list := h\<rparr>)"
proof -
  obtain h where h: "raw_list_del_entry x (mm_node_list s) = Some h" "is_list h H (us @ vs)" "h x = mm_node_list s x"
    "prev_of (mm_node_list s) x = Some (last (H # us))" "next_of (mm_node_list s) x = Some (hd (vs @ [H]))"
    "list_add x (last (H # us)) h = Some (mm_node_list s)"
    using raw_list_del_entry_spec [OF l] by blast
  then have "prev_of h x = Some (last (H # us))" "next_of h x = Some (hd (vs @ [H]))" by (simp_all add: prev_of_def next_of_def)
  then show ?thesis using h n by (simp add: scan_out_def nd_write_def on_eqs)
qed

text \<open>What stays the same all along a scan.\<close>

definition scan_frame :: "drm_mm \<Rightarrow> addr list \<Rightarrow> drm_mm \<Rightarrow> bool" where
  "scan_frame s0 roster s \<longleftrightarrow> mm_nodes s = scan_marked s0 roster \<and> mm_scan_active s = of_nat (length roster) \<and>
     mm_head_node s = mm_head_node s0 \<and> mm_self s = mm_self s0 \<and> mm_color_adjust s = mm_color_adjust s0"

lemma scan_steps_facts:
  assumes "scan_steps s0 ns roster rest s" and inv: "mm_inv s0 ns hs"
  shows "is_list (mm_node_list s) (mm_head_node s0) rest \<and> scan_frame s0 roster s \<and>
    rest = filter (\<lambda>b. b \<notin> set roster) ns \<and> set roster \<subseteq> set ns \<and> distinct roster"
  using assms(1)
proof induction
  case scan_start
  then show ?case using inv by (simp add: scan_frame_def scan_marked_def mm_inv_def)
next
  case (scan_add roster us x vs s s')
  then have IH: "is_list (mm_node_list s) (mm_head_node s0) (us @ x # vs)" "scan_frame s0 roster s"
    "us @ x # vs = filter (\<lambda>b. b \<notin> set roster) ns" "set roster \<subseteq> set ns" "distinct roster" by blast+
  have d: "distinct (us @ x # vs)" using IH(1) by (simp add: is_list_def)
  have x: "x \<in> set ns" "x \<notin> set roster" using arg_cong [OF IH(3), of set] by auto
  then have "block_ok s0 x" using inv by (simp add: mm_inv_def)
  then obtain n where n: "mm_nodes s0 x = Some n" "mm_nodes s x = Some n"
    using IH(2) x(2) by (auto simp: block_ok_def node_ok_def live_def scan_frame_def scan_marked_def)
  obtain h where h: "is_list h (mm_head_node s0) (us @ vs)"
    "s' = s\<lparr>mm_nodes := (mm_nodes s)(x \<mapsto> n\<lparr>nd_scanned_block := True\<rparr>), mm_scan_active := mm_scan_active s + 1, mm_node_list := h\<rparr>"
    using scan_out_eq [OF IH(1) n(2)] scan_add.hyps(2) by auto
  have "(mm_nodes s)(x \<mapsto> n\<lparr>nd_scanned_block := True\<rparr>) = scan_marked s0 (x # roster)"
    using IH(2) n(1) by (auto simp: scan_frame_def scan_marked_def)
  then have "scan_frame s0 (x # roster) s'" using IH(2) h(2) by (simp add: scan_frame_def)
  moreover have "us @ vs = filter (\<lambda>b. b \<notin> set (x # roster)) ns"
  proof -
    have "filter (\<lambda>b. b \<notin> set (x # roster)) ns = filter (\<lambda>b. b \<noteq> x) (filter (\<lambda>b. b \<notin> set roster) ns)"
      by (simp add: conj_commute)
    also have "\<dots> = filter (\<lambda>b. b \<noteq> x) (us @ x # vs)" unfolding IH(3) ..
    also have "\<dots> = us @ vs"
    proof -
      have "filter (\<lambda>b. b \<noteq> x) us = us" "filter (\<lambda>b. b \<noteq> x) vs = vs" by (rule filter_True; use d in auto)+
      then show ?thesis by simp
    qed
    finally show ?thesis ..
  qed
  ultimately show ?case using h IH x by simp
qed

lemma scan_marked_fields [simp]:
  "n_start (scan_marked s0 roster) b = n_start (mm_nodes s0) b" "n_size (scan_marked s0 roster) b = n_size (mm_nodes s0) b"
  "n_end (scan_marked s0 roster) b = n_end (mm_nodes s0) b" "scan_marked s0 roster b = None \<longleftrightarrow> mm_nodes s0 b = None"
  by (cases "mm_nodes s0 b"; simp add: scan_marked_def n_start_def n_size_def n_end_def)+

section \<open>Adding a block\<close>

definition scan_ok :: "drm_mm_scan \<Rightarrow> drm_mm \<Rightarrow> bool" where
  "scan_ok scan s \<longleftrightarrow> sc_mm scan = mm_self s \<and> sc_size scan \<noteq> 0 \<and> sc_alignment scan \<noteq> 1 \<and>
     sc_remainder_mask scan = hole_remainder_mask (sc_alignment scan)"

text \<open>Whatever the memory, the callback restricts a hole.\<close>

definition colour_safe :: "drm_mm \<Rightarrow> bool" where
  "colour_safe s0 \<longleftrightarrow> (\<forall>s. mm_color_adjust s = mm_color_adjust s0 \<longrightarrow> colour_narrows s)"

definition scan_hit :: "drm_mm_scan \<Rightarrow> u64 option \<Rightarrow> drm_mm_scan" where
  "scan_hit scan r = (case r of None \<Rightarrow> scan | Some p \<Rightarrow> scan\<lparr>sc_hit_start := p, sc_hit_end := p + sc_size scan\<rparr>)"

text \<open>What fits between \<open>a\<close> and \<open>b\<close>.\<close>

definition scan_fits :: "drm_mm_scan \<Rightarrow> drm_mm \<Rightarrow> addr \<Rightarrow> addr \<Rightarrow> u64 option \<Rightarrow> bool" where
  "scan_fits scan s a b r \<longleftrightarrow> (let w = adjust_colour a (sc_color scan) (n_end (mm_nodes s) a, n_start (mm_nodes s) b) s in
     best_place (max (fst w) (sc_range_start scan)) (min (snd w) (sc_range_end scan)) (sc_size scan) (sc_alignment scan)
       (sc_mode scan = DRM_MM_INSERT_HIGH) r)"

lemma scan_add_spec:
  assumes inv: "mm_inv s0 ns hs" and st: "scan_steps s0 ns roster (us @ x # vs) s"
    and scan: "scan_ok scan s0" and cs: "colour_safe s0"
  shows "\<exists>s' r. drm_mm_scan_add_block x (scan, s) = Some (r \<noteq> None, scan_hit scan r, s') \<and>
    scan_steps s0 ns (x # roster) (us @ vs) s' \<and>
    scan_fits scan s' (last (mm_head_node s0 # us)) (hd (vs @ [mm_head_node s0])) r"
proof -
  let ?H = "mm_head_node s0"
  define a where "a = last (?H # us)"
  define b where "b = hd (vs @ [?H])"
  have F: "is_list (mm_node_list s) ?H (us @ x # vs)" "scan_frame s0 roster s"
    "us @ x # vs = filter (\<lambda>b. b \<notin> set roster) ns" using scan_steps_facts [OF st inv] by blast+
  have x: "x \<in> set ns" "x \<notin> set roster" using arg_cong [OF F(3), of set] by auto
  then have bx: "block_ok s0 x" using inv by (simp add: mm_inv_def)
  then obtain n where n0: "mm_nodes s0 x = Some n" by (auto simp: block_ok_def node_ok_def live_def)
  then have n: "mm_nodes s x = Some n" using F(2) x(2) by (simp add: scan_frame_def scan_marked_def)
  have chk: "nd_mm n = sc_mm scan" "nd_allocated n" "\<not> nd_scanned_block n"
    using bx scan n0 by (simp_all add: block_ok_def node_ok_def scan_ok_def)
  obtain h where h: "raw_list_del_entry x (mm_node_list s) = Some h" "is_list h ?H (us @ vs)"
    "scan_out x s = Some (s\<lparr>mm_nodes := (mm_nodes s)(x \<mapsto> n\<lparr>nd_scanned_block := True\<rparr>), mm_scan_active := mm_scan_active s + 1, mm_node_list := h\<rparr>)"
    using scan_out_eq [OF F(1) n] by blast
  define s' where "s' = s\<lparr>mm_nodes := (mm_nodes s)(x \<mapsto> n\<lparr>nd_scanned_block := True\<rparr>), mm_scan_active := mm_scan_active s + 1, mm_node_list := h\<rparr>"
  have st': "scan_steps s0 ns (x # roster) (us @ vs) s'" using scan_steps.scan_add [OF st h(3)] unfolding s'_def .
  have F': "scan_frame s0 (x # roster) s'" using scan_steps_facts [OF st' inv] by blast
  have ends: "prev_of (mm_node_list s) x = Some a" "next_of (mm_node_list s) a = Some x" "next_of h a = Some b"
    using is_list_prev [OF F(1)] is_list_next [OF F(1)] is_list_next [OF h(2)] by (simp_all add: a_def b_def)
  have sub: "set (us @ vs) \<subseteq> set ns" using arg_cong [OF F(3), of set] by auto
  have ab: "a \<in> set (?H # us)" "b \<in> set (vs @ [?H])" unfolding a_def b_def by (rule last_in_set hd_in_set; simp)+
  have "mm_nodes s0 c \<noteq> None" if "c \<in> set (?H # ns)" for c
    using inv that by (auto simp: mm_inv_def head_ok_def block_ok_def node_ok_def live_def)
  then have dom: "mm_nodes s' a \<noteq> None" "mm_nodes s' b \<noteq> None" using ab sub F' by (auto simp: scan_frame_def)
  obtain u w where uw: "adjust_colour a (sc_color scan) (n_end (mm_nodes s') a, n_start (mm_nodes s') b) s' = (u, w)" by fastforce
  have "colour_narrows s'" using cs F' by (simp add: colour_safe_def scan_frame_def)
  then have uw2: "n_end (mm_nodes s') a \<le> u" "w \<le> n_start (mm_nodes s') b"
    using uw unfolding colour_narrows_def by (metis fst_conv snd_conv)+
  obtain r where r: "fit_in_hole u w (sc_range_start scan) (sc_range_end scan) (sc_size scan)
        (sc_alignment scan) (sc_remainder_mask scan) (sc_mode scan) = Some r"
    "best_place (max u (sc_range_start scan)) (min w (sc_range_end scan)) (sc_size scan) (sc_alignment scan) (sc_mode scan = DRM_MM_INSERT_HIGH) r"
    using fit_in_hole_spec [of "sc_size scan" "sc_alignment scan"] scan by (fastforce simp: scan_ok_def)
  have fits: "scan_fits scan s' a b r" using r(2) uw by (simp add: scan_fits_def)
  have run: "drm_mm_scan_add_block x (scan, s) = (case r of None \<Rightarrow> Some (False, scan, s')
     | Some adj_start \<Rightarrow> do {
         let scan = scan\<lparr>sc_hit_start := adj_start, sc_hit_end := adj_start + sc_size scan\<rparr>;
         _ \<leftarrow> BUG_ON (sc_hit_start scan \<ge> sc_hit_end scan);
         _ \<leftarrow> BUG_ON (sc_hit_start scan < n_end (mm_nodes s') a);
         _ \<leftarrow> BUG_ON (sc_hit_end scan > n_start (mm_nodes s') b);
         Some (True, scan, s')
       })"
  proof -
    define s1 where "s1 = s\<lparr>mm_nodes := (mm_nodes s)(x \<mapsto> n\<lparr>nd_scanned_block := True\<rparr>), mm_scan_active := mm_scan_active s + 1\<rparr>"
    have k: "nd_write x (\<lambda>n. n\<lparr>nd_scanned_block := True\<rparr>) s = Some (s\<lparr>mm_nodes := (mm_nodes s)(x \<mapsto> n\<lparr>nd_scanned_block := True\<rparr>)\<rparr>)"
      "mm_node_list s1 = mm_node_list s" "on_node_list (raw_list_del_entry x) s1 = Some s'"
      using n h(1) by (simp_all add: nd_write_def on_eqs s1_def s'_def)
    have e: "raw_hole_node_start a s' = Some (n_end (mm_nodes s') a)" "raw_hole_node_end a s' = Some (n_start (mm_nodes s') b)"
      using node_reads(1) [OF dom(1)] dom(2) ends(3) by (auto simp: raw_hole_node_end_def n_start_def s'_def)
    show ?thesis
      using n chk ends(1,2) k e uw r(1)
      by (cases r) (simp_all add: drm_mm_scan_add_block_def Let_def s1_def)
  qed
  show ?thesis unfolding a_def [symmetric] b_def [symmetric]
  proof (intro exI conjI)
    show "drm_mm_scan_add_block x (scan, s) = Some (r \<noteq> None, scan_hit scan r, s')"
    proof (cases r)
      case (Some p)
      have "place_ok (max u (sc_range_start scan)) (min w (sc_range_end scan)) (sc_size scan) (sc_alignment scan) p"
        using r(2) Some by (simp add: best_place_def)
      then have "p < p + sc_size scan" "n_end (mm_nodes s') a \<le> p" "p + sc_size scan \<le> n_start (mm_nodes s') b"
        using uw2 by (auto simp: place_ok_def)
      then show ?thesis using run Some by (simp add: scan_hit_def Let_def not_le not_less)
    qed (use run in \<open>simp add: scan_hit_def\<close>)
  qed (use st' fits in simp_all)
qed

section \<open>Putting a block back\<close>

definition scan_overlaps :: "drm_mm_scan \<Rightarrow> drm_mm \<Rightarrow> addr \<Rightarrow> bool" where
  "scan_overlaps scan s x \<longleftrightarrow> n_end (mm_nodes s) x > sc_hit_start scan \<and> n_start (mm_nodes s) x < sc_hit_end scan"

lemma of_nat_roster:
  fixes xs :: "addr list"
  assumes "distinct xs" "NULL \<notin> set xs" "xs \<noteq> []"
  shows "(of_nat (length xs) :: u64) \<noteq> 0"
proof
  assume z: "(of_nat (length xs) :: u64) = 0"
  have "card (set xs) < card (UNIV :: addr set)" by (rule psubset_card_mono) (use assms(2) in auto)
  then have "length xs < 2 ^ 64" using distinct_card [OF assms(1)] by (simp add: card_word)
  then have "unat (of_nat (length xs) :: u64) = length xs" by (simp add: unsigned_of_nat take_bit_nat_eq_self)
  then show False using z assms(3) by simp
qed

lemma scan_remove_spec:
  assumes inv: "mm_inv s0 ns hs" and st': "scan_steps s0 ns (x # roster) rest s'" and mm: "sc_mm scan = mm_self s0"
  shows "\<exists>us vs s. rest = us @ vs \<and> scan_steps s0 ns roster (us @ x # vs) s \<and>
    drm_mm_scan_remove_block x (scan, s') = Some (scan_overlaps scan s0 x, s)"
proof -
  let ?H = "mm_head_node s0"
  from st' obtain us vs s where rest: "rest = us @ vs" and st: "scan_steps s0 ns roster (us @ x # vs) s" and out: "scan_out x s = Some s'"
    by (rule scan_steps_ConsE)
  have F: "is_list (mm_node_list s) ?H (us @ x # vs)" "scan_frame s0 roster s"
    "us @ x # vs = filter (\<lambda>b. b \<notin> set roster) ns" using scan_steps_facts [OF st inv] by blast+
  have F': "scan_frame s0 (x # roster) s'" "set (x # roster) \<subseteq> set ns" "distinct (x # roster)"
    using scan_steps_facts [OF st' inv] by blast+
  have x: "x \<in> set ns" "x \<notin> set roster" using arg_cong [OF F(3), of set] by auto
  then have bx: "block_ok s0 x" using inv by (simp add: mm_inv_def)
  then obtain n where n0: "mm_nodes s0 x = Some n" by (auto simp: block_ok_def node_ok_def live_def)
  then have n: "mm_nodes s x = Some n" using F(2) x(2) by (simp add: scan_frame_def scan_marked_def)
  have chk: "nd_mm n = mm_self s0" "\<not> nd_scanned_block n" "mm_self s = mm_self s0"
    using bx n0 F(2) by (simp_all add: block_ok_def node_ok_def scan_frame_def)
  obtain h where h: "prev_of h x = Some (last (?H # us))" "next_of h x = Some (hd (vs @ [?H]))" "is_list h ?H (us @ vs)"
    "list_add x (last (?H # us)) h = Some (mm_node_list s)"
    "s' = s\<lparr>mm_nodes := (mm_nodes s)(x \<mapsto> n\<lparr>nd_scanned_block := True\<rparr>), mm_scan_active := mm_scan_active s + 1, mm_node_list := h\<rparr>"
    using scan_out_eq [OF F(1) n] out by auto
  have pn: "next_of h (last (?H # us)) = Some (hd (vs @ [?H]))" by (rule is_list_next [OF h(3)])
  have "NULL \<notin> set (x # roster)"
    using F'(2) inv by (auto simp: mm_inv_def block_ok_def node_ok_def live_def valid_ptr_def)
  then have active: "mm_scan_active s + 1 \<noteq> 0"
    using of_nat_roster [OF F'(3)] F'(1) h(5) by (simp add: scan_frame_def add.commute)
  have clear: "n\<lparr>nd_scanned_block := False\<rparr> = n" using chk(2) by (cases n) simp
  have "(mm_nodes s)(x \<mapsto> n) = mm_nodes s" using n by (simp add: map_upd_triv)
  then have w: "nd_write x (\<lambda>n. n\<lparr>nd_scanned_block := False\<rparr>) s' = Some (s\<lparr>mm_scan_active := mm_scan_active s + 1, mm_node_list := h\<rparr>)"
    using clear by (simp add: nd_write_def h(5))
  have "drm_mm_scan_remove_block x (scan, s') = Some (scan_overlaps scan s0 x, s)"
    using w active h(1,2,4) pn n n0 chk mm
    by (simp add: drm_mm_scan_remove_block_def on_eqs deref_mm_def scan_overlaps_def n_end_def n_start_def)
      (simp add: h(5))
  then show ?thesis using rest st by blast
qed

lemma scan_steps_back: "scan_steps s0 ns [] rest s \<Longrightarrow> s = s0 \<and> rest = ns"
  by (erule scan_steps_NilE) simp

section \<open>Whole scans\<close>

text \<open>
  The driver's side of the protocol: blocks are added in the order of \<open>xs\<close>, put back in an order
  given, collecting those to evict, and evicted.
\<close>

fun scan_add_all :: "addr list \<Rightarrow> drm_mm_scan \<times> drm_mm \<Rightarrow> (bool list \<times> drm_mm_scan \<times> drm_mm) option" where
  "scan_add_all [] st = Some ([], st)"
| "scan_add_all (x # xs) st = do {
     (hit, st) \<leftarrow> drm_mm_scan_add_block x st;
     (hits, st) \<leftarrow> scan_add_all xs st;
     Some (hit # hits, st)
   }"

fun scan_remove_all :: "addr list \<Rightarrow> drm_mm_scan \<times> drm_mm \<Rightarrow> (addr list \<times> drm_mm) option" where
  "scan_remove_all [] (scan, s) = Some ([], s)"
| "scan_remove_all (x # xs) (scan, s) = do {
     (evict, s) \<leftarrow> drm_mm_scan_remove_block x (scan, s);
     (es, s) \<leftarrow> scan_remove_all xs (scan, s);
     Some (if evict then x # es else es, s)
   }"

fun evict_all :: "addr list \<Rightarrow> drm_mm \<Rightarrow> drm_mm option" where
  "evict_all [] s = Some s"
| "evict_all (x # xs) s = do { s \<leftarrow> drm_mm_remove_node x s; evict_all xs s }"

lemma scan_hit_simps [simp]:
  "scan_ok (scan_hit scan r) s = scan_ok scan s" "sc_mm (scan_hit scan r) = sc_mm scan" "sc_size (scan_hit scan r) = sc_size scan"
  "sc_alignment (scan_hit scan r) = sc_alignment scan" "sc_range_start (scan_hit scan r) = sc_range_start scan"
  "sc_range_end (scan_hit scan r) = sc_range_end scan" "sc_color (scan_hit scan r) = sc_color scan" "sc_mode (scan_hit scan r) = sc_mode scan"
  by (simp_all add: scan_hit_def scan_ok_def split: option.split)

text \<open>The parameters of the scan, without the hit.\<close>

definition scan_params :: "drm_mm_scan \<Rightarrow> drm_mm_scan" where
  "scan_params scan = scan\<lparr>sc_hit_start := 0, sc_hit_end := 0\<rparr>"

lemma scan_params_hit [simp]: "scan_params (scan_hit scan r) = scan_params scan"
  by (simp add: scan_hit_def scan_params_def split: option.split)

lemma scan_params_eq:
  assumes "scan_params scan' = scan_params scan"
  shows "scan_ok scan' s = scan_ok scan s" "sc_mm scan' = sc_mm scan" "sc_size scan' = sc_size scan" "sc_alignment scan' = sc_alignment scan"
    "sc_range_start scan' = sc_range_start scan" "sc_range_end scan' = sc_range_end scan" "sc_color scan' = sc_color scan" "sc_mode scan' = sc_mode scan"
  using assms by (cases scan; cases scan'; simp add: scan_params_def scan_ok_def)+

lemma scan_rest_split:
  assumes st: "scan_steps s0 ns roster rest s" and inv: "mm_inv s0 ns hs" and x: "x \<in> set ns" "x \<notin> set roster"
  obtains us vs where "rest = us @ x # vs"
proof -
  have "x \<in> set rest" using scan_steps_facts [OF st inv] x by auto
  then show ?thesis using that by (meson split_list)
qed

lemma scan_add_all_spec:
  assumes inv: "mm_inv s0 ns hs" and cs: "colour_safe s0"
  shows "scan_ok scan s0 \<Longrightarrow> scan_steps s0 ns roster rest s \<Longrightarrow> distinct (rev xs @ roster) \<Longrightarrow> set xs \<subseteq> set ns \<Longrightarrow>
    \<exists>hits scan' rest' s'. scan_add_all xs (scan, s) = Some (hits, scan', s') \<and> scan_steps s0 ns (rev xs @ roster) rest' s' \<and>
      scan_params scan' = scan_params scan \<and> length hits = length xs"
proof (induction xs arbitrary: scan roster rest s)
  case (Cons x xs)
  obtain us vs where rest: "rest = us @ x # vs"
    using scan_rest_split [OF Cons.prems(2) inv, of x] Cons.prems(3,4) by auto
  obtain s1 r where s1: "drm_mm_scan_add_block x (scan, s) = Some (r \<noteq> None, scan_hit scan r, s1)" "scan_steps s0 ns (x # roster) (us @ vs) s1"
    using scan_add_spec [OF inv Cons.prems(2) [unfolded rest] Cons.prems(1) cs] by blast
  have "\<exists>hits scan' rest' s'. scan_add_all xs (scan_hit scan r, s1) = Some (hits, scan', s') \<and> scan_steps s0 ns (rev xs @ x # roster) rest' s' \<and>
      scan_params scan' = scan_params (scan_hit scan r) \<and> length hits = length xs"
    by (rule Cons.IH [OF _ s1(2)]) (use Cons.prems in auto)
  then show ?case using s1(1) by auto
qed auto

lemma scan_remove_all_spec:
  assumes inv: "mm_inv s0 ns hs" and mm: "sc_mm scan = mm_self s0"
  shows "scan_steps s0 ns (xs @ roster) rest s \<Longrightarrow>
    \<exists>rest' s'. scan_remove_all xs (scan, s) = Some (filter (scan_overlaps scan s0) xs, s') \<and> scan_steps s0 ns roster rest' s'"
proof (induction xs arbitrary: rest s)
  case (Cons x xs)
  obtain us vs s1 where "scan_steps s0 ns (xs @ roster) (us @ x # vs) s1" "drm_mm_scan_remove_block x (scan, s) = Some (scan_overlaps scan s0 x, s1)"
    using scan_remove_spec [OF inv _ mm, of x "xs @ roster" rest s] Cons.prems by auto
  then show ?case using Cons.IH by fastforce
qed auto

lemma evict_all_spec:
  assumes "mm_inv s ns hs" "distinct es" "set es \<subseteq> set ns"
  shows "\<exists>s' hs'. evict_all es s = Some s' \<and> mm_inv s' (filter (\<lambda>b. b \<notin> set es) ns) hs' \<and> mm_frame (set es) s s' \<and>
    (\<forall>x\<in>set es. \<not> nd_allocated (the (mm_nodes s' x)) \<and> \<not> nd_scanned_block (the (mm_nodes s' x)))"
  using assms
proof (induction es arbitrary: s ns hs)
  case Nil
  then show ?case using mm_frame_refl by auto
next
  case (Cons x es)
  then obtain us vs where ns: "ns = us @ x # vs" by (auto dest: split_list)
  obtain s1 hs1 where s1: "drm_mm_remove_node x s = Some s1" "mm_inv s1 (us @ vs) hs1" "mm_frame {x} s s1"
    "\<not> nd_allocated (the (mm_nodes s1 x))" "\<not> nd_scanned_block (the (mm_nodes s1 x))"
    using drm_mm_remove_node_spec Cons.prems(1) ns by blast
  have d: "x \<notin> set us" "x \<notin> set vs" using mm_inv_distinct [OF Cons.prems(1)] ns by auto
  obtain s' hs' where s': "evict_all es s1 = Some s'" "mm_inv s' (filter (\<lambda>b. b \<notin> set es) (us @ vs)) hs'" "mm_frame (set es) s1 s'"
    "\<forall>x\<in>set es. \<not> nd_allocated (the (mm_nodes s' x)) \<and> \<not> nd_scanned_block (the (mm_nodes s' x))"
    using Cons.IH [OF s1(2)] Cons.prems ns by auto
  have "filter (\<lambda>b. b \<notin> set es) (us @ vs) = filter (\<lambda>b. b \<notin> set (x # es)) ns"
  proof -
    have "filter (\<lambda>b. b \<notin> set (x # es)) us = filter (\<lambda>b. b \<notin> set es) us" "filter (\<lambda>b. b \<notin> set (x # es)) vs = filter (\<lambda>b. b \<notin> set es) vs"
      by (rule filter_cong [OF refl]; use d in auto)+
    then show ?thesis unfolding ns by simp
  qed
  moreover have "mm_frame (set (x # es)) s s'" by (rule mm_frame_trans [OF s1(3) s'(3)]) simp
  moreover have "x \<notin> set es" using Cons.prems(2) by simp
  ultimately show ?case using s' s1 mm_frame_fields(6,7) [OF s'(3), of x] by auto
qed

section \<open>Where a hit lies\<close>

lemma rest_around:
  assumes inv: "mm_inv s ns hs" and rest: "us @ vs = filter P ns"
  defines "m \<equiv> mm_nodes s" and "a \<equiv> last (mm_head_node s # us)" and "b \<equiv> hd (vs @ [mm_head_node s])"
  shows "\<forall>y\<in>set us. n_end m y \<le> n_end m a" "\<forall>y\<in>set vs. n_start m b \<le> n_start m y"
    "n_end m (mm_head_node s) \<le> n_end m a" "n_start m b \<le> n_start m (mm_head_node s)"
proof -
  let ?H = "mm_head_node s" and ?R = "\<lambda>c d. n_end m c \<le> n_start m d"
  have sub: "set us \<subseteq> set ns" "set vs \<subseteq> set ns" using arg_cong [OF rest, of set] by auto
  have pos: "n_start m y < n_end m y" if "y \<in> set ns" for y using inv that by (simp add: m_def mm_inv_def block_ok_def)
  have all: "sorted_wrt ?R (?H # ns @ [?H])" unfolding m_def by (rule mm_inv_order [OF inv])
  then have "sorted_wrt ?R (filter P ns)" by (simp add: sorted_wrt_append sorted_wrt_filter)
  then have so: "sorted_wrt ?R (us @ vs)" using rest by simp
  have H: "n_end m ?H \<le> n_start m y" "n_end m y \<le> n_start m ?H" if "y \<in> set ns" for y
    using all that by (auto simp: sorted_wrt_append)
  show "\<forall>y\<in>set us. n_end m y \<le> n_end m a"
  proof
    fix y assume y: "y \<in> set us"
    obtain w where u: "us = w @ [a]" using y by (cases us rule: rev_cases) (auto simp: a_def)
    then have "y = a \<or> n_end m y \<le> n_start m a" "a \<in> set ns" using y so sub by (auto simp: sorted_wrt_append)
    then show "n_end m y \<le> n_end m a" using pos [of a] by auto
  qed
  show "\<forall>y\<in>set vs. n_start m b \<le> n_start m y"
  proof
    fix y assume y: "y \<in> set vs"
    then obtain w where w: "vs = b # w" by (cases vs) (auto simp: b_def)
    then have "y = b \<or> n_end m b \<le> n_start m y" "b \<in> set ns" using y so sub by (auto simp: sorted_wrt_append)
    then show "n_start m b \<le> n_start m y" using pos [of b] by auto
  qed
  show "n_end m ?H \<le> n_end m a"
  proof (cases us rule: rev_cases)
    case (snoc w z)
    then have "z \<in> set ns" using sub by simp
    then show ?thesis using H(1) [of z] pos [of z] by (simp add: a_def snoc)
  qed (simp add: a_def)
  show "n_start m b \<le> n_start m ?H"
  proof (cases vs)
    case (Cons z w)
    then have "z \<in> set ns" using sub by simp
    then show ?thesis using H(2) [of z] pos [of z] by (simp add: b_def Cons)
  qed (simp add: b_def)
qed

lemma scan_fits_plain:
  assumes "mm_color_adjust s0 = None" and "scan_frame s0 roster s"
  shows "scan_fits scan s a b r \<longleftrightarrow> best_place (max (n_end (mm_nodes s0) a) (sc_range_start scan))
    (min (n_start (mm_nodes s0) b) (sc_range_end scan)) (sc_size scan) (sc_alignment scan) (sc_mode scan = DRM_MM_INSERT_HIGH) r"
  using assms by (simp add: scan_fits_def adjust_colour_def scan_frame_def)

text \<open>No block that stays meets the hit.\<close>

lemma scan_hit_free:
  assumes inv: "mm_inv s0 ns hs" and none: "mm_color_adjust s0 = None"
    and st: "scan_steps s0 ns (x # roster) (us @ vs) s"
    and fits: "scan_fits scan s (last (mm_head_node s0 # us)) (hd (vs @ [mm_head_node s0])) (Some p)"
  defines "hit \<equiv> scan_hit scan (Some p)" and "m \<equiv> mm_nodes s0"
  shows "p < p + sc_size scan" "n_end m (mm_head_node s0) \<le> p" "p + sc_size scan \<le> n_start m (mm_head_node s0)"
    "sc_range_start scan \<le> p" "p + sc_size scan \<le> sc_range_end scan" "1 < sc_alignment scan \<longrightarrow> p mod sc_alignment scan = 0"
    "\<forall>y\<in>set ns. n_end m y \<le> p \<or> p + sc_size scan \<le> n_start m y \<or> y \<in> set (x # roster) \<and> scan_overlaps hit s0 y"
proof -
  have F: "scan_frame s0 (x # roster) s" "us @ vs = filter (\<lambda>b. b \<notin> set (x # roster)) ns"
    using scan_steps_facts [OF st inv] by blast+
  note g = rest_around [OF inv F(2)]
  have "place_ok (max (n_end m (last (mm_head_node s0 # us))) (sc_range_start scan))
      (min (n_start m (hd (vs @ [mm_head_node s0]))) (sc_range_end scan)) (sc_size scan) (sc_alignment scan) p"
    using fits unfolding scan_fits_plain [OF none F(1)] by (simp add: best_place_def m_def)
  then have P: "n_end m (last (mm_head_node s0 # us)) \<le> p" "p + sc_size scan \<le> n_start m (hd (vs @ [mm_head_node s0]))"
    "p < p + sc_size scan" "sc_range_start scan \<le> p" "p + sc_size scan \<le> sc_range_end scan"
    "1 < sc_alignment scan \<longrightarrow> p mod sc_alignment scan = 0" by (auto simp: place_ok_def)
  then show "p < p + sc_size scan" "sc_range_start scan \<le> p" "p + sc_size scan \<le> sc_range_end scan"
    "1 < sc_alignment scan \<longrightarrow> p mod sc_alignment scan = 0" by blast+
  show "n_end m (mm_head_node s0) \<le> p" "p + sc_size scan \<le> n_start m (mm_head_node s0)"
    using order_trans [OF g(3) P(1) [unfolded m_def]] order_trans [OF P(2) [unfolded m_def] g(4)] unfolding m_def .
  show "\<forall>y\<in>set ns. n_end m y \<le> p \<or> p + sc_size scan \<le> n_start m y \<or> y \<in> set (x # roster) \<and> scan_overlaps hit s0 y"
  proof
    fix y assume y: "y \<in> set ns"
    show "n_end m y \<le> p \<or> p + sc_size scan \<le> n_start m y \<or> y \<in> set (x # roster) \<and> scan_overlaps hit s0 y"
    proof (cases "y \<in> set (x # roster)")
      case True
      then show ?thesis by (auto simp: scan_overlaps_def hit_def scan_hit_def m_def)
    next
      case False
      then have "y \<in> set (us @ vs)" using y unfolding F(2) by simp
      then have "n_end m y \<le> n_end m (last (mm_head_node s0 # us)) \<or> n_start m (hd (vs @ [mm_head_node s0])) \<le> n_start m y"
        using g(1,2) by (auto simp: m_def)
      then show ?thesis using P(1,2) by (meson order_trans)
    qed
  qed
qed

text \<open>After the eviction the hit is free, so an insertion that may use it succeeds.\<close>

lemma scan_evict_room:
  assumes inv: "mm_inv s0 ns hs" and none: "mm_color_adjust s0 = None"
    and st: "scan_steps s0 ns (x # roster) (us @ vs) s"
    and fits: "scan_fits scan s (last (mm_head_node s0 # us)) (hd (vs @ [mm_head_node s0])) (Some p)"
    and es: "es = filter (scan_overlaps (scan_hit scan (Some p)) s0) (x # roster)"
    and ev: "mm_inv s3 (filter (\<lambda>b. b \<notin> set es) ns) hs3" "mm_frame (set es) s0 s3"
    and range: "rs \<le> sc_range_start scan" "sc_range_end scan \<le> re"
  shows "\<exists>c\<in>set (mm_head_node s3 # filter (\<lambda>b. b \<notin> set es) ns). place_in s3 color rs re (sc_size scan) (sc_alignment scan) c p"
proof -
  let ?H = "mm_head_node s0" and ?q = "p + sc_size scan" and ?ns3 = "filter (\<lambda>b. b \<notin> set es) ns"
  note hit = scan_hit_free [OF inv none st fits]
  have H: "mm_head_node s3 = ?H" "mm_color_adjust s3 = None" using ev(2) none by (simp_all add: mm_frame_def)
  have "set (x # roster) \<subseteq> set ns" using scan_steps_facts [OF st inv] by blast
  then have "set es \<subseteq> set ns" unfolding es by auto
  moreover have "?H \<notin> set ns" using mm_inv_distinct [OF inv] by simp
  ultimately have h: "?H \<notin> set es" by blast
  note f = mm_frame_fields(1,3) [OF ev(2)]
  have "\<exists>c\<in>set (mm_head_node s3 # ?ns3). n_end (mm_nodes s3) c \<le> p \<and> ?q \<le> n_end (mm_nodes s3) c + n_hole (mm_nodes s3) c"
  proof (rule mm_inv_gap [OF ev(1)], unfold H)
    show "n_end (mm_nodes s3) ?H \<le> p" "p < ?q" "?q \<le> n_start (mm_nodes s3) ?H" using hit(1-3) f [OF h] by simp_all
    show "\<forall>b\<in>set ?ns3. n_end (mm_nodes s3) b \<le> p \<or> ?q \<le> n_start (mm_nodes s3) b"
    proof
      fix b assume b: "b \<in> set ?ns3"
      then have b: "b \<notin> set es" "b \<in> set ns" by auto
      then have "\<not> (b \<in> set (x # roster) \<and> scan_overlaps (scan_hit scan (Some p)) s0 b)" unfolding es set_filter by blast
      then show "n_end (mm_nodes s3) b \<le> p \<or> ?q \<le> n_start (mm_nodes s3) b"
        using bspec [OF hit(7) b(2)] f [OF b(1)] by metis
    qed
  qed
  then obtain c where "c \<in> set (mm_head_node s3 # ?ns3)" "n_end (mm_nodes s3) c \<le> p" "?q \<le> n_end (mm_nodes s3) c + n_hole (mm_nodes s3) c" by blast
  then show ?thesis using hit(1,4-6) range H(2)
    by (intro bexI [of _ c]) (auto simp: place_in_def place_ok_def hole_window_def adjust_colour_def)
qed

section \<open>When no block hits\<close>

text \<open>No block of the size fits between two neighbours of the list \<open>L\<close>.\<close>

fun no_gap :: "drm_mm_node store \<Rightarrow> u64 \<Rightarrow> u64 \<Rightarrow> u64 \<Rightarrow> u64 \<Rightarrow> addr list \<Rightarrow> bool" where
  "no_gap m rs re sz al (a # b # L) \<longleftrightarrow>
     (\<forall>q. \<not> place_ok (max (n_end m a) rs) (min (n_start m b) re) sz al q) \<and> no_gap m rs re sz al (b # L)"
| "no_gap m rs re sz al L \<longleftrightarrow> True"

lemma no_gap_append:
  "no_gap m rs re sz al (us @ a # vs) \<longleftrightarrow> no_gap m rs re sz al (us @ [a]) \<and> no_gap m rs re sz al (a # vs)"
  by (induction m rs re sz al us rule: no_gap.induct) auto

lemma no_gap_cong:
  assumes "\<And>a. a \<in> set L \<Longrightarrow> n_end m' a = n_end m a \<and> n_start m' a = n_start m a"
  shows "no_gap m' rs re sz al L = no_gap m rs re sz al L"
  using assms by (induction m rs re sz al L rule: no_gap.induct) auto

lemma no_gap_no_place:
  assumes "laid (mm_nodes s) (L @ [z])" and "mm_color_adjust s = None"
  shows "no_gap (mm_nodes s) rs re sz al (L @ [z]) \<longleftrightarrow> no_place s color rs re sz al L"
  using assms
proof (induction L)
  case (Cons a L)
  obtain b w where b: "L @ [z] = b # w" by (cases L) auto
  have l: "n_hole (mm_nodes s) a = n_start (mm_nodes s) b - n_end (mm_nodes s) a" "laid (mm_nodes s) (L @ [z])"
    using Cons.prems(1) b by simp_all
  have "place_in s color rs re sz al a q \<longleftrightarrow> place_ok (max (n_end (mm_nodes s) a) rs) (min (n_start (mm_nodes s) b) re) sz al q" for q
    using l(1) Cons.prems(2) by (simp add: place_in_def hole_window_def adjust_colour_def)
  then show ?case using Cons.IH [OF l(2) Cons.prems(2)] b by (simp add: no_place_def)
qed (simp add: no_place_def)

lemma mm_inv_no_gap:
  assumes "mm_inv s ns hs" and "mm_color_adjust s = None"
  shows "no_gap (mm_nodes s) rs re sz al (mm_head_node s # ns @ [mm_head_node s]) \<longleftrightarrow> no_place s color rs re sz al (mm_head_node s # ns)"
  using no_gap_no_place [of s "mm_head_node s # ns" "mm_head_node s" rs re sz al color] assms by (simp add: mm_inv_def)

lemma no_gap_join:
  assumes "no_gap m rs re sz al (H # us @ x # vs @ [H])"
    and "\<forall>q. \<not> place_ok (max (n_end m (last (H # us))) rs) (min (n_start m (hd (vs @ [H]))) re) sz al q"
  shows "no_gap m rs re sz al (H # (us @ vs) @ [H])"
proof -
  obtain w where w: "H # us = w @ [last (H # us)]" by (metis append_butlast_last_id list.distinct(1))
  obtain b z where b: "vs @ [H] = b # z" by (cases vs) auto
  have "no_gap m rs re sz al ((w @ [last (H # us)]) @ x # b # z)"
    using assms(1) unfolding w [symmetric] b by simp
  then have "no_gap m rs re sz al (w @ [last (H # us)])" "no_gap m rs re sz al (b # z)"
    using no_gap_append [of m rs re sz al "w @ [last (H # us)]" x "b # z"] no_gap_append [of m rs re sz al w "last (H # us)" "[x]"] by simp_all
  then have "no_gap m rs re sz al (w @ last (H # us) # b # z)"
    using assms(2) b no_gap_append [of m rs re sz al w "last (H # us)" "b # z"] by simp
  moreover have "H # (us @ vs) @ [H] = w @ last (H # us) # b # z" using w b by (metis append_Cons append_assoc append_Nil)
  ultimately show ?thesis by simp
qed

lemma scan_miss:
  assumes inv: "mm_inv s0 ns hs" and none: "mm_color_adjust s0 = None"
    and st: "scan_steps s0 ns (x # roster) (us @ vs) s"
    and fits: "scan_fits scan s (last (mm_head_node s0 # us)) (hd (vs @ [mm_head_node s0])) None"
    and ng: "no_gap (mm_nodes s0) (sc_range_start scan) (sc_range_end scan) (sc_size scan) (sc_alignment scan)
      (mm_head_node s0 # us @ x # vs @ [mm_head_node s0])"
  shows "no_gap (mm_nodes s0) (sc_range_start scan) (sc_range_end scan) (sc_size scan) (sc_alignment scan)
      (mm_head_node s0 # (us @ vs) @ [mm_head_node s0])"
proof (rule no_gap_join [OF ng])
  have F: "scan_frame s0 (x # roster) s" using scan_steps_facts [OF st inv] by blast
  show "\<forall>q. \<not> place_ok (max (n_end (mm_nodes s0) (last (mm_head_node s0 # us))) (sc_range_start scan))
      (min (n_start (mm_nodes s0) (hd (vs @ [mm_head_node s0]))) (sc_range_end scan)) (sc_size scan) (sc_alignment scan) q"
    using fits unfolding scan_fits_plain [OF none F] by (simp add: best_place_def)
qed

lemma scan_add_all_miss:
  assumes inv: "mm_inv s0 ns hs" and none: "mm_color_adjust s0 = None" and scan: "scan_ok scan s0"
  shows "scan_steps s0 ns roster rest s \<Longrightarrow> distinct (rev xs @ roster) \<Longrightarrow> set xs \<subseteq> set ns \<Longrightarrow>
    no_gap (mm_nodes s0) (sc_range_start scan) (sc_range_end scan) (sc_size scan) (sc_alignment scan) (mm_head_node s0 # rest @ [mm_head_node s0]) \<Longrightarrow>
    scan_add_all xs (scan, s) = Some (hits, scan', s') \<Longrightarrow> True \<notin> set hits \<Longrightarrow>
    scan' = scan \<and> (\<exists>rest'. scan_steps s0 ns (rev xs @ roster) rest' s' \<and>
      no_gap (mm_nodes s0) (sc_range_start scan) (sc_range_end scan) (sc_size scan) (sc_alignment scan) (mm_head_node s0 # rest' @ [mm_head_node s0]))"
proof (induction xs arbitrary: roster rest s hits)
  case (Cons x xs)
  obtain us vs where rest: "rest = us @ x # vs"
    using scan_rest_split [OF Cons.prems(1) inv, of x] Cons.prems(2,3) by auto
  have cs: "colour_safe s0" using none by (simp add: colour_safe_def colour_narrows_def adjust_colour_def)
  obtain s1 r where s1: "drm_mm_scan_add_block x (scan, s) = Some (r \<noteq> None, scan_hit scan r, s1)" "scan_steps s0 ns (x # roster) (us @ vs) s1"
    "scan_fits scan s1 (last (mm_head_node s0 # us)) (hd (vs @ [mm_head_node s0])) r"
    using scan_add_spec [OF inv Cons.prems(1) [unfolded rest] scan cs] by blast
  obtain hits1 where h1: "scan_add_all xs (scan_hit scan r, s1) = Some (hits1, scan', s')" "hits = (r \<noteq> None) # hits1"
    using Cons.prems(5) s1(1) by (auto split: bind_splits)
  then have r: "r = None" "True \<notin> set hits1" using Cons.prems(6) by auto
  have n: "no_gap (mm_nodes s0) (sc_range_start scan) (sc_range_end scan) (sc_size scan) (sc_alignment scan)
      (mm_head_node s0 # (us @ vs) @ [mm_head_node s0])"
    by (rule scan_miss [OF inv none s1(2) s1(3) [unfolded r]]) (use Cons.prems(4) rest in simp)
  have "scan_add_all xs (scan, s1) = Some (hits1, scan', s')" using h1(1) r(1) by (simp add: scan_hit_def)
  from Cons.IH [OF s1(2) _ _ n this r(2)] Cons.prems(2,3) show ?case by simp
qed auto

lemma scan_init_eq:
  "drm_mm_scan_init_with_range sz al color start end mode s = Some scan \<longleftrightarrow>
     start < end \<and> sz \<noteq> 0 \<and> sz \<le> end - start \<and> mm_scan_active s = 0 \<and>
     scan = \<lparr>sc_mm = mm_self s, sc_size = sz, sc_alignment = (if al \<le> 1 then 0 else al),
       sc_remainder_mask = hole_remainder_mask (if al \<le> 1 then 0 else al), sc_range_start = start, sc_range_end = end,
       sc_hit_start = U64_MAX, sc_hit_end = 0, sc_color = color, sc_mode = mode\<rparr>"
  by (auto simp: drm_mm_scan_init_with_range_def Let_def BUG_ON_def not_le not_less split: bind_splits if_splits)

lemma scan_init_ok: "drm_mm_scan_init_with_range sz al color start end mode s = Some scan \<Longrightarrow> scan_ok scan s"
  by (auto simp: scan_init_eq scan_ok_def)

lemma no_hit_no_overlap: "sc_hit_start scan = U64_MAX \<Longrightarrow> sc_hit_end scan = 0 \<Longrightarrow> \<not> scan_overlaps scan s x"
  by (simp add: scan_overlaps_def)

text \<open>The whole of an eviction that found a hit.\<close>

lemma evict_and_insert:
  assumes inv: "mm_inv s ns hs" and none: "mm_color_adjust s = None"
    and st: "scan_steps s ns roster (us @ x # vs) s1" and scan: "scan_ok scan s"
    and hit: "drm_mm_scan_add_block x (scan, s1) = Some (True, scan2, s2)"
    and y: "live s y" "y \<notin> set (mm_head_node s # ns)" "\<not> nd_scanned_block (the (mm_nodes s y))"
    and range: "rs \<le> sc_range_start scan" "sc_range_end scan \<le> re" "rs \<le> re" and mode: "mode AND DRM_MM_INSERT_ONCE = 0"
    and al: "sc_alignment scan = (if al \<le> 1 then 0 else al)"
  shows "\<exists>es s3 hs3 s4. es = filter (scan_overlaps scan2 s) (x # roster) \<and> scan_remove_all (x # roster) (scan2, s2) = Some (es, s) \<and>
    evict_all es s = Some s3 \<and> mm_inv s3 (filter (\<lambda>b. b \<notin> set es) ns) hs3 \<and> mm_frame (set es) s s3 \<and>
    drm_mm_insert_node_in_range y (sc_size scan) al color rs re mode s3 = Some (0, s4)"
proof -
  have cs: "colour_safe s" using none by (simp add: colour_safe_def colour_narrows_def adjust_colour_def)
  obtain r where r: "r \<noteq> None" "scan2 = scan_hit scan r" "scan_steps s ns (x # roster) (us @ vs) s2"
    "scan_fits scan s2 (last (mm_head_node s # us)) (hd (vs @ [mm_head_node s])) r"
    using scan_add_spec [OF inv st scan cs] hit by auto
  then obtain p where p: "r = Some p" by blast
  have "sc_mm scan2 = mm_self s" using scan r(2) by (simp add: scan_ok_def)
  from scan_remove_all_spec [OF inv this, of "x # roster" "[]" "us @ vs" s2] r(3) obtain rest' s'' where
    rem: "scan_remove_all (x # roster) (scan2, s2) = Some (filter (scan_overlaps scan2 s) (x # roster), s'')"
    "scan_steps s ns [] rest' s''" by (auto simp del: scan_remove_all.simps filter.simps)
  then have restored: "s'' = s" using scan_steps_back by blast
  define es where "es = filter (scan_overlaps scan2 s) (x # roster)"
  have "set (x # roster) \<subseteq> set ns" "distinct (x # roster)" using scan_steps_facts [OF r(3) inv] by blast+
  then have e: "distinct es" "set es \<subseteq> set ns" unfolding es_def by (auto simp del: filter.simps)
  from evict_all_spec [OF inv e] obtain s3 hs3 where s3: "evict_all es s = Some s3"
    "mm_inv s3 (filter (\<lambda>b. b \<notin> set es) ns) hs3" "mm_frame (set es) s s3" by blast
  have H: "mm_head_node s3 = mm_head_node s" "mm_color_adjust s3 = None" "live s3 y = live s y" using s3(3) none by (simp_all add: mm_frame_def)
  have ye: "y \<notin> set es" using e(2) y(2) by auto
  have y3: "live s3 y" "y \<notin> set (mm_head_node s3 # filter (\<lambda>b. b \<notin> set es) ns)" "\<not> nd_scanned_block (the (mm_nodes s3 y))"
    using y H mm_frame_fields(7) [OF s3(3) ye] by auto
  have "\<exists>c\<in>set (mm_head_node s3 # filter (\<lambda>b. b \<notin> set es) ns). place_in s3 color rs re (sc_size scan) (sc_alignment scan) c p"
    by (rule scan_evict_room [OF inv none r(3) r(4) [unfolded p] _ s3(2,3) range(1,2)]) (simp only: es_def r(2) p)
  then have room: "\<exists>c\<in>set (mm_head_node s3 # filter (\<lambda>b. b \<notin> set es) ns). \<exists>q. place_in s3 color rs re (sc_size scan) al c q"
    unfolding al place_in_align by blast
  have cn: "colour_narrows s3" using H(2) by (simp add: colour_narrows_def adjust_colour_def)
  obtain s4 where "drm_mm_insert_node_in_range y (sc_size scan) al color rs re mode s3 = Some (0, s4)"
    using insert_places [OF s3(2) cn range(3) mode y3, of color "sc_size scan" al] room unfolding if_bool_eq_conj by blast
  then show ?thesis using rem(1) restored s3 es_def by blast
qed

section \<open>An example with two blocks\<close>

text \<open>A pool of 128 MB that holds two blocks of 64 MB.\<close>

lemma example_insert:
  assumes inv: "mm_inv s ns hs" and none: "mm_color_adjust s = None" and x: "live s x" "x \<notin> set (mm_head_node s # ns)"
    "\<not> nd_scanned_block (the (mm_nodes s x))"
    and c: "c \<in> set (mm_head_node s # ns)" "n_end (mm_nodes s) c \<le> q" "q < q + sz" "q + sz \<le> n_end (mm_nodes s) c + n_hole (mm_nodes s) c"
  shows "\<exists>s' ns' us vs hs'. mm_inv s' ns' hs' \<and> ns = us @ vs \<and> ns' = us @ x # vs \<and> mm_frame {x} s s' \<and>
    n_size (mm_nodes s') x = sz \<and> n_start (mm_nodes s') x \<le> q"
proof -
  have cn: "colour_narrows s" using none by (simp add: colour_narrows_def adjust_colour_def)
  have m: "DRM_MM_INSERT_LOW AND DRM_MM_INSERT_ONCE = 0" "DRM_MM_INSERT_LOW AND NOT DRM_MM_INSERT_ONCE = DRM_MM_INSERT_LOW"
    by (simp_all add: mode_defs)
  have q: "place_in s 0 0 U64_MAX sz 0 c q"
    using c none by (simp add: place_in_def place_ok_def hole_window_def adjust_colour_def)
  then have "\<not> no_place s 0 0 U64_MAX sz 0 (mm_head_node s # ns)" using c(1) unfolding no_place_def by blast
  with drm_mm_insert_node_in_range_spec [OF inv cn _ x, of 0 U64_MAX sz 0 0 DRM_MM_INSERT_LOW] m
  obtain s' ns' a p where b: "block_inserted s ns x a p sz 0 s' ns'" and best: "mode_best DRM_MM_INSERT_LOW s 0 0 U64_MAX sz 0 (mm_head_node s # ns) a p"
    by auto
  have "p \<le> q" using best q c(1) unfolding mode_best_def by (simp only: if_True refl)
  moreover obtain us vs where "ns = us @ vs" "ns' = us @ x # vs" by (rule block_inserted_place [OF b])
  ultimately show ?thesis using b by (fastforce simp: block_inserted_def)
qed

lemma example_full:
  "\<exists>s hs. mm_inv s [48, 64] hs \<and> mm_color_adjust s = None \<and> live s 72 \<and> mm_head_node s = 32 \<and>
    \<not> nd_scanned_block (the (mm_nodes s 72)) \<and> n_hole (mm_nodes s) 32 = 0 \<and> n_hole (mm_nodes s) 48 = 0 \<and> n_hole (mm_nodes s) 64 = 0 \<and>
    n_end (mm_nodes s) 32 = 0 \<and> n_start (mm_nodes s) 64 = 0x4000000"
proof -
  have l: "live example_mm 48" "live example_mm 64" "live example_mm 72" by (rule example_mm(8); simp)+
  have u: "\<not> nd_scanned_block (the (mm_nodes example_mm a))" if "a \<in> {48, 64, 72}" for a
    using example_mm(9) [OF that] by (simp add: zero_node_def)
  obtain s1 us vs hs1 where s1: "mm_inv s1 (us @ 48 # vs) hs1" "[] = us @ vs" "mm_frame {48} example_mm s1"
    "n_size (mm_nodes s1) 48 = 0x4000000" "n_start (mm_nodes s1) 48 \<le> 0"
    using example_insert [OF example_mm(2,3) l(1) _ _, of 32 0 "0x4000000"] u by (auto simp: example_mm)
  have H1: "mm_head_node s1 = 32" "mm_color_adjust s1 = None" "n_end (mm_nodes s1) 32 = 0" "n_start (mm_nodes s1) 32 = 0x8000000"
    "live s1 64" "live s1 72" "\<not> nd_scanned_block (the (mm_nodes s1 64))" "\<not> nd_scanned_block (the (mm_nodes s1 72))"
    using s1(3) l u mm_frame_fields [OF s1(3)] example_mm(3-6) by (simp_all add: mm_frame_def)
  have inv1: "mm_inv s1 [48] hs1" using s1(1,2) by simp
  have e1: "n_end (mm_nodes s1) 48 = 0x4000000" using s1(4,5) by (simp add: n_end_def n_start_def n_size_def)
  then have h1: "n_hole (mm_nodes s1) 48 = 0x4000000" using inv1 H1(1,4) by (simp add: mm_inv_def)
  obtain s2 us vs hs2 where s2: "mm_inv s2 (us @ 64 # vs) hs2" "[48] = us @ vs" "mm_frame {64} s1 s2"
    "n_size (mm_nodes s2) 64 = 0x4000000" "n_start (mm_nodes s2) 64 \<le> 0x4000000"
    using example_insert [OF inv1 H1(2) H1(5) _ H1(7), of 48 "0x4000000" "0x4000000"] e1 h1 by (auto simp: H1(1))
  note f = mm_frame_fields [OF s2(3)]
  have H2: "mm_head_node s2 = 32" "mm_color_adjust s2 = None" "n_end (mm_nodes s2) 32 = 0" "n_start (mm_nodes s2) 32 = 0x8000000"
    "live s2 72" "\<not> nd_scanned_block (the (mm_nodes s2 72))" "n_start (mm_nodes s2) 48 = 0" "n_end (mm_nodes s2) 48 = 0x4000000"
    using s2(3) H1 f s1(5) e1 by (simp_all add: mm_frame_def)
  have e2: "n_end (mm_nodes s2) 64 = n_start (mm_nodes s2) 64 + 0x4000000" using s2(4) by (simp add: n_end_def n_start_def n_size_def)
  have "us = [48] \<and> vs = []"
  proof (rule ccontr)
    assume "\<not> (us = [48] \<and> vs = [])"
    then have "us = []" "vs = [48]" using s2(2) by (cases us; auto simp: Cons_eq_append_conv)+
    then have "n_end (mm_nodes s2) 64 \<le> n_start (mm_nodes s2) 48" "n_start (mm_nodes s2) 64 < n_end (mm_nodes s2) 64"
      using s2(1) by (simp_all add: mm_inv_def block_ok_def)
    then show False using H2(7) by simp
  qed
  then have inv2: "mm_inv s2 [48, 64] hs2" using s2(1) by simp
  then have "0x4000000 \<le> n_start (mm_nodes s2) 64" using H2(1,8) by (simp add: mm_inv_def)
  then have s64: "n_start (mm_nodes s2) 64 = 0x4000000" using s2(5) by (rule antisym [rotated])
  then have "n_hole (mm_nodes s2) 32 = 0" "n_hole (mm_nodes s2) 48 = 0" "n_hole (mm_nodes s2) 64 = 0"
    using inv2 H2 e2 by (simp_all add: mm_inv_def)
  then show ?thesis using inv2 H2 s64 by blast
qed

section \<open>Properties\<close>

text \<open>C9: A scan leaves no trace: whatever blocks are added to the roster, in whatever order, and whether
  or not they hit, every call returns, and putting them back in the reverse order restores the
  allocator exactly, every field of every node included. The blocks it tells the driver to evict
  are those of the roster that meet the last hit.\<close>

theorem scan_restores:
  assumes "mm_inv s ns hs" and "colour_safe s" and "distinct xs" "set xs \<subseteq> set ns"
    and "drm_mm_scan_init_with_range sz al color start end mode s = Some scan"
  shows "\<exists>hits scan' s'. scan_add_all xs (scan, s) = Some (hits, scan', s') \<and>
    scan_remove_all (rev xs) (scan', s') = Some (filter (scan_overlaps scan' s) (rev xs), s)"
proof -
  have ok: "scan_ok scan s" by (rule scan_init_ok [OF assms(5)])
  obtain hits scan' rest' s' where add: "scan_add_all xs (scan, s) = Some (hits, scan', s')"
    "scan_steps s ns (rev xs) rest' s'" "scan_params scan' = scan_params scan"
    using scan_add_all_spec [OF assms(1,2) ok scan_start, of xs] assms(3,4) by auto
  have "sc_mm scan' = mm_self s" using ok scan_params_eq(2) [OF add(3)] by (simp add: scan_ok_def)
  then obtain rest s'' where "scan_remove_all (rev xs) (scan', s') = Some (filter (scan_overlaps scan' s) (rev xs), s'')"
    "scan_steps s ns [] rest s''"
    using scan_remove_all_spec [OF assms(1), of scan' "rev xs" "[]" rest' s'] add(2) unfolding append_Nil2 by blast
  then show ?thesis using add(1) scan_steps_back by blast
qed

theorem scan_restores_witness:
  "\<exists>s hs scan hits scan' s' es. mm_inv s [48, 64] hs \<and> drm_mm_scan_init_with_range 0x5000000 0x1000 0 0 0x8000000 DRM_MM_INSERT_BEST s = Some scan \<and>
    scan_add_all [64, 48] (scan, s) = Some (hits, scan', s') \<and> scan_remove_all [48, 64] (scan', s') = Some (es, s)"
proof -
  obtain s hs where s: "mm_inv s [48, 64] hs" "mm_color_adjust s = None" using example_full by blast
  have cs: "colour_safe s" using s(2) by (simp add: colour_safe_def colour_narrows_def adjust_colour_def)
  obtain scan where scan: "drm_mm_scan_init_with_range 0x5000000 0x1000 0 0 0x8000000 DRM_MM_INSERT_BEST s = Some scan"
    using s(1) by (simp add: scan_init_eq mm_inv_def)
  show ?thesis using scan_restores [OF s(1) cs _ _ scan, of "[64, 48]"] s(1) scan by fastforce
qed

text \<open>C8: After a scan whose last block hits (in an allocator without \<open>color_adjust\<close>), putting the roster
  back and evicting the blocks it selected makes room: inserting a block with the parameters of
  the scan, in any mode that tries every hole, then succeeds.\<close>

theorem scan_makes_room:
  assumes "mm_inv s ns hs" and "mm_color_adjust s = None" and "distinct (xs @ [x])" "set (xs @ [x]) \<subseteq> set ns"
    and "drm_mm_scan_init_with_range sz al color start end mode s = Some scan"
    and "scan_add_all xs (scan, s) = Some (hits, scan1, s1)" and "drm_mm_scan_add_block x (scan1, s1) = Some (True, scan2, s2)"
    and "live s y" "y \<notin> set (mm_head_node s # ns)" "\<not> nd_scanned_block (the (mm_nodes s y))"
    and "mode' AND DRM_MM_INSERT_ONCE = 0"
  shows "\<exists>es s3 s4. scan_remove_all (x # rev xs) (scan2, s2) = Some (es, s) \<and> set es \<subseteq> set (x # xs) \<and>
    evict_all es s = Some s3 \<and> drm_mm_insert_node_in_range y sz al color start end mode' s3 = Some (0, s4)"
proof -
  have ok: "scan_ok scan s" by (rule scan_init_ok [OF assms(5)])
  have cs: "colour_safe s" using assms(2) by (simp add: colour_safe_def colour_narrows_def adjust_colour_def)
  obtain rest where st: "scan_steps s ns (rev xs) rest s1" and par: "scan_params scan1 = scan_params scan"
    using scan_add_all_spec [OF assms(1) cs ok scan_start, of xs] assms(3,4,6) by auto
  obtain us vs where rest: "rest = us @ x # vs" using scan_rest_split [OF st assms(1), of x] assms(3,4) by auto
  note p = scan_params_eq [OF par]
  have q: "sc_size scan1 = sz" "sc_alignment scan1 = (if al \<le> 1 then 0 else al)" "start \<le> sc_range_start scan1" "sc_range_end scan1 \<le> end" "start \<le> end"
    using p assms(5) by (auto simp: scan_init_eq)
  have ok1: "scan_ok scan1 s" using ok p(1) by simp
  obtain es s3 s4 where es: "es = filter (scan_overlaps scan2 s) (x # rev xs)" "scan_remove_all (x # rev xs) (scan2, s2) = Some (es, s)"
    "evict_all es s = Some s3" "drm_mm_insert_node_in_range y sz al color start end mode' s3 = Some (0, s4)"
    using evict_and_insert [OF assms(1,2) st [unfolded rest] ok1 assms(7,8,9,10) q(3,4,5) assms(11) q(2), of color, unfolded q(1)]
    by (elim exE conjE) (rule that; assumption)
  have "set es \<subseteq> set (x # xs)" unfolding es(1) by auto
  then show ?thesis using es(2-4) by blast
qed

theorem scan_makes_room_witness:
  "\<exists>s hs scan scan2 s2 es s3 s4. mm_inv s [48, 64] hs \<and>
    drm_mm_scan_init_with_range 0x3000000 0x1000 0 0 0x8000000 DRM_MM_INSERT_BEST s = Some scan \<and>
    drm_mm_scan_add_block 48 (scan, s) = Some (True, scan2, s2) \<and> scan_remove_all [48] (scan2, s2) = Some (es, s) \<and>
    evict_all es s = Some s3 \<and> drm_mm_insert_node_in_range 72 0x3000000 0x1000 0 0 0x8000000 DRM_MM_INSERT_EVICT s3 = Some (0, s4)"
proof -
  obtain s hs where s: "mm_inv s [48, 64] hs" "mm_color_adjust s = None" "live s 72" "mm_head_node s = 32"
    "\<not> nd_scanned_block (the (mm_nodes s 72))" "n_end (mm_nodes s) 32 = 0" "n_start (mm_nodes s) 64 = 0x4000000" using example_full by blast
  have cs: "colour_safe s" using s(2) by (simp add: colour_safe_def colour_narrows_def adjust_colour_def)
  obtain scan where scan: "drm_mm_scan_init_with_range 0x3000000 0x1000 0 0 0x8000000 DRM_MM_INSERT_BEST s = Some scan"
    using s(1) by (simp add: scan_init_eq mm_inv_def)
  have st: "scan_steps s [48, 64] [] ([] @ 48 # [64]) s" using scan_start [of s "[48, 64]"] by simp
  obtain s2 r where r: "drm_mm_scan_add_block 48 (scan, s) = Some (r \<noteq> None, scan_hit scan r, s2)"
    "scan_steps s [48, 64] [48] ([] @ [64]) s2" "scan_fits scan s2 32 64 r"
    using scan_add_spec [OF s(1) st scan_init_ok [OF scan] cs] by (auto simp: s(4))
  have F: "scan_frame s [48] s2" using scan_steps_facts [OF r(2) s(1)] by blast
  have "r \<noteq> None"
  proof
    assume "r = None"
    then have "\<not> place_ok (max (n_end (mm_nodes s) 32) 0) (min (n_start (mm_nodes s) 64) 0x8000000) 0x3000000 0x1000 0"
      using r(3) scan unfolding scan_fits_plain [OF s(2) F] by (auto simp: best_place_def scan_init_eq word_le_nat_alt)
    then show False by (simp add: s(6,7) place_ok_def)
  qed
  then have hit: "drm_mm_scan_add_block 48 (scan, s) = Some (True, scan_hit scan r, s2)" using r(1) by simp
  have "\<exists>es s3 s4. scan_remove_all (48 # rev []) (scan_hit scan r, s2) = Some (es, s) \<and> set es \<subseteq> set [48] \<and>
    evict_all es s = Some s3 \<and> drm_mm_insert_node_in_range 72 0x3000000 0x1000 0 0 0x8000000 DRM_MM_INSERT_EVICT s3 = Some (0, s4)"
    by (rule scan_makes_room [OF s(1,2) _ _ scan _ hit s(3) _ s(5)]) (simp_all add: s(4) mode_defs)
  then show ?thesis using s(1) scan hit by simp blast
qed

text \<open>C10: A scan that hits nothing selects nothing, and it is right not to: when no hole had room before
  it, then even with every block of the roster evicted none would have. This is for an allocator without
  colour adjustment, and for insertion in a mode without \<open>DRM_MM_INSERT_ONCE\<close>.\<close>

theorem scan_misses_nothing:
  assumes "mm_inv s ns hs" and "mm_color_adjust s = None" and "distinct xs" "set xs \<subseteq> set ns"
    and "drm_mm_scan_init_with_range sz al color start end mode s = Some scan"
    and "scan_add_all xs (scan, s) = Some (hits, scan', s')" and "True \<notin> set hits"
    and "live s y" "y \<notin> set (mm_head_node s # ns)" "\<not> nd_scanned_block (the (mm_nodes s y))"
    and "mode' AND DRM_MM_INSERT_ONCE = 0" and "drm_mm_insert_node_in_range y sz al color start end mode' s = Some (- ENOSPC, s)"
  shows "scan_remove_all (rev xs) (scan', s') = Some ([], s) \<and>
    (\<exists>s3. evict_all xs s = Some s3 \<and> drm_mm_insert_node_in_range y sz al color start end mode' s3 = Some (- ENOSPC, s3))"
proof -
  let ?ng = "\<lambda>m. no_gap m (sc_range_start scan) (sc_range_end scan) (sc_size scan) (sc_alignment scan)"
  have ok: "scan_ok scan s" by (rule scan_init_ok [OF assms(5)])
  have q: "sc_size scan = sz" "sc_alignment scan = (if al \<le> 1 then 0 else al)" "sc_range_start scan = start" "sc_range_end scan = end" "start \<le> end"
    "sc_hit_start scan = U64_MAX" "sc_hit_end scan = 0"
    using assms(5) by (auto simp: scan_init_eq)
  have no: "?ng (mm_nodes t) (mm_head_node t # ms @ [mm_head_node t]) \<longleftrightarrow> no_place t color start end sz al (mm_head_node t # ms)"
    if "mm_inv t ms ks" "mm_color_adjust t = None" for t ms ks
    unfolding mm_inv_no_gap [OF that, of _ _ _ _ color] q no_place_align ..
  have cn: "colour_narrows t" if "mm_color_adjust t = None" for t using that by (simp add: colour_narrows_def adjust_colour_def)
  have "ENOSPC \<noteq> 0" by (simp add: ENOSPC_def)
  then have "no_place s color start end sz al (mm_head_node s # ns)"
    using insert_places [OF assms(1) cn [OF assms(2)] q(5) assms(11,8,9,10), of color sz al] assms(12)
    unfolding no_place_def if_bool_eq_conj by auto
  then have "?ng (mm_nodes s) (mm_head_node s # ns @ [mm_head_node s])" unfolding no [OF assms(1,2)] .
  with scan_add_all_miss [OF assms(1,2) ok scan_start _ assms(4) _ assms(6,7)] assms(3) obtain rest where
    st: "scan' = scan" "scan_steps s ns (rev xs) rest s'" "?ng (mm_nodes s) (mm_head_node s # rest @ [mm_head_node s])" by auto
  have "sc_mm scan = mm_self s" using ok by (simp add: scan_ok_def)
  with scan_remove_all_spec [OF assms(1) this, of "rev xs" "[]" rest s'] st(2) obtain rest' s'' where
    rem: "scan_remove_all (rev xs) (scan, s') = Some (filter (scan_overlaps scan s) (rev xs), s'')" "scan_steps s ns [] rest' s''" by auto
  have "filter (scan_overlaps scan s) (rev xs) = []" using no_hit_no_overlap [OF q(6,7)] by simp
  then have 1: "scan_remove_all (rev xs) (scan', s') = Some ([], s)" using rem scan_steps_back st(1) by metis
  have rest: "rest = filter (\<lambda>b. b \<notin> set xs) ns" using scan_steps_facts [OF st(2) assms(1)] by simp
  from evict_all_spec [OF assms(1,3,4)] obtain s3 hs3 where s3: "evict_all xs s = Some s3"
    "mm_inv s3 rest hs3" "mm_frame (set xs) s s3" unfolding rest by blast
  have H: "mm_head_node s3 = mm_head_node s" "mm_color_adjust s3 = None" "live s3 y = live s y" using s3(3) assms(2) by (simp_all add: mm_frame_def)
  have hx: "mm_head_node s \<notin> set xs" "y \<notin> set xs" using mm_inv_distinct [OF assms(1)] assms(4,9) by auto
  have "?ng (mm_nodes s3) (mm_head_node s # rest @ [mm_head_node s])"
  proof (subst no_gap_cong)
    fix a assume "a \<in> set (mm_head_node s # rest @ [mm_head_node s])"
    then have "a \<notin> set xs" using hx(1) by (auto simp: rest)
    then show "n_end (mm_nodes s3) a = n_end (mm_nodes s) a \<and> n_start (mm_nodes s3) a = n_start (mm_nodes s) a"
      using mm_frame_fields(1,3) [OF s3(3)] by simp
  qed (rule st(3))
  then have "no_place s3 color start end sz al (mm_head_node s3 # rest)" using no [OF s3(2) H(2)] H(1) by simp
  moreover have "live s3 y" "y \<notin> set (mm_head_node s3 # rest)" "\<not> nd_scanned_block (the (mm_nodes s3 y))"
    using assms(8-10) H hx(2) mm_frame_fields(7) [OF s3(3) hx(2)] by (auto simp: rest)
  ultimately have "drm_mm_insert_node_in_range y sz al color start end mode' s3 = Some (- ENOSPC, s3)"
    using insert_places [OF s3(2) cn [OF H(2)] q(5) assms(11), of y color sz al] unfolding no_place_def by simp
  then show ?thesis using 1 s3(1) by blast
qed

theorem scan_misses_nothing_witness:
  "\<exists>s hs scan hits scan' s' s3. mm_inv s [48, 64] hs \<and>
    drm_mm_scan_init_with_range 0x6000000 0x1000 0 0 0x8000000 DRM_MM_INSERT_BEST s = Some scan \<and>
    scan_add_all [48] (scan, s) = Some (hits, scan', s') \<and> scan_remove_all [48] (scan', s') = Some ([], s) \<and>
    evict_all [48] s = Some s3 \<and> drm_mm_insert_node_in_range 72 0x6000000 0x1000 0 0 0x8000000 DRM_MM_INSERT_BEST s3 = Some (- ENOSPC, s3)"
proof -
  obtain s hs where s: "mm_inv s [48, 64] hs" "mm_color_adjust s = None" "live s 72" "mm_head_node s = 32"
    "\<not> nd_scanned_block (the (mm_nodes s 72))" "n_end (mm_nodes s) 32 = 0" "n_start (mm_nodes s) 64 = 0x4000000"
    "n_hole (mm_nodes s) 32 = 0" "n_hole (mm_nodes s) 48 = 0" "n_hole (mm_nodes s) 64 = 0" using example_full by blast
  have cn: "colour_narrows s" and cs: "colour_safe s" using s(2) by (simp_all add: colour_safe_def colour_narrows_def adjust_colour_def)
  obtain scan where scan: "drm_mm_scan_init_with_range 0x6000000 0x1000 0 0 0x8000000 DRM_MM_INSERT_BEST s = Some scan"
    using s(1) by (simp add: scan_init_eq mm_inv_def)
  have st: "scan_steps s [48, 64] [] ([] @ 48 # [64]) s" using scan_start [of s "[48, 64]"] by simp
  obtain s2 r where r: "drm_mm_scan_add_block 48 (scan, s) = Some (r \<noteq> None, scan_hit scan r, s2)"
    "scan_steps s [48, 64] [48] ([] @ [64]) s2" "scan_fits scan s2 32 64 r"
    using scan_add_spec [OF s(1) st scan_init_ok [OF scan] cs] by (auto simp: s(4))
  have F: "scan_frame s [48] s2" using scan_steps_facts [OF r(2) s(1)] by blast
  have "r = None"
  proof (rule ccontr)
    assume "r \<noteq> None"
    then obtain p where "p < p + 0x6000000" "p + 0x6000000 \<le> (0x4000000 :: u64)"
      using r(3) scan unfolding scan_fits_plain [OF s(2) F] by (auto simp: best_place_def scan_init_eq place_ok_def s(7))
    from u64_fits [OF word_zero_le this(1), of "0x4000000"] this(2) show False by simp
  qed
  then have add: "scan_add_all [48] (scan, s) = Some ([False], scan, s2)" using r(1) by (simp add: scan_hit_def)
  have full: "drm_mm_insert_node_in_range 72 0x6000000 0x1000 0 0 0x8000000 DRM_MM_INSERT_BEST s = Some (- ENOSPC, s)"
  proof -
    have "\<not> place_in s 0 0 0x8000000 0x6000000 0x1000 c q" if "c \<in> {32, 48, 64}" for c q
    proof
      assume "place_in s 0 0 0x8000000 0x6000000 0x1000 c q"
      then have "n_hole (mm_nodes s) c \<ge> 0x6000000" using place_in_hole_size(1) [OF cn s(1)] that s(4) by auto
      then show False using that s(8-10) by auto
    qed
    then show ?thesis
      using insert_places [OF s(1) cn _ _ s(3) _ s(5), of 0 "0x8000000" DRM_MM_INSERT_BEST 0 "0x6000000" "0x1000"]
      by (auto simp: s(4) mode_defs)
  qed
  have "scan_remove_all (rev [48]) (scan, s2) = Some ([], s) \<and>
    (\<exists>s3. evict_all [48] s = Some s3 \<and> drm_mm_insert_node_in_range 72 0x6000000 0x1000 0 0 0x8000000 DRM_MM_INSERT_BEST s3 = Some (- ENOSPC, s3))"
    by (rule scan_misses_nothing [OF s(1,2) _ _ scan add _ s(3) _ s(5) _ full]) (simp_all add: s(4) mode_defs)
  then show ?thesis using s(1) scan add by simp blast
qed

end
