(* ===== verification/C_Stdlib.thy ===== *)
theory C_Stdlib
  imports Prelude
begin

text \<open>
  What main.c uses of the C library, on C strings given as their characters without the closing
  NUL: character classes, searching, \<open>sscanf\<close> conversions, decimal output and \<open>fgets\<close>.
\<close>

section \<open>ctype.h and string.h\<close>

definition isspace :: "char \<Rightarrow> bool" where
  "isspace c \<longleftrightarrow> c \<in> {CHR '' '', CHR 0x09, CHR 0x0A, CHR 0x0B, CHR 0x0C, CHR 0x0D}"

text \<open>\<open>strchr\<close>: the characters before the first \<open>c\<close> and the string that starts behind it.\<close>

fun strchr :: "char \<Rightarrow> string \<Rightarrow> (string \<times> string) option" where
  "strchr c [] = None"
| "strchr c (d # s) = (if d = c then Some ([], s) else map_option (\<lambda>(pre, post). (d # pre, post)) (strchr c s))"

text \<open>\<open>strncmp (s, t, strlen (t)) = 0\<close>, with what follows.\<close>

fun strip_prefix :: "string \<Rightarrow> string \<Rightarrow> string option" where
  "strip_prefix [] s = Some s"
| "strip_prefix (c # cs) [] = None"
| "strip_prefix (c # cs) (d # s) = (if c = d then strip_prefix cs s else None)"

text \<open>\<open>strstr\<close>: what follows the first occurrence of the marker.\<close>

fun strstr_after :: "string \<Rightarrow> string \<Rightarrow> string option" where
  "strstr_after m [] = strip_prefix m []"
| "strstr_after m (c # s) = (case strip_prefix m (c # s) of Some t \<Rightarrow> Some t | None \<Rightarrow> strstr_after m s)"

section \<open>sscanf\<close>

definition digit_value :: "char \<Rightarrow> nat option" where
  "digit_value c = (let n = of_char c in
     if 48 \<le> n \<and> n \<le> 57 then Some (n - 48)
     else if 97 \<le> n \<and> n \<le> 102 then Some (n - 87)
     else if 65 \<le> n \<and> n \<le> 70 then Some (n - 55)
     else None)"

definition is_digit :: "nat \<Rightarrow> char \<Rightarrow> bool" where
  "is_digit base c \<longleftrightarrow> (case digit_value c of None \<Rightarrow> False | Some d \<Rightarrow> d < base)"

definition digits_value :: "nat \<Rightarrow> string \<Rightarrow> nat" where
  "digits_value base ds = foldl (\<lambda>v c. v * base + the (digit_value c)) 0 ds"

definition scan_sign :: "string \<Rightarrow> bool \<times> string" where
  "scan_sign s = (case s of [] \<Rightarrow> (False, [])
     | c # r \<Rightarrow> if c = CHR ''-'' then (True, r) else if c = CHR ''+'' then (False, r) else (False, s))"

definition scan_prefix :: "nat \<Rightarrow> string \<Rightarrow> string" where
  "scan_prefix base s = (if base = 16 then
     (case s of c # x # r \<Rightarrow> if c = CHR ''0'' \<and> (x = CHR ''x'' \<or> x = CHR ''X'') then r else s | _ \<Rightarrow> s) else s)"

text \<open>
  A numeric conversion followed by \<open>%n\<close>: the value and what the conversion leaves of the string.
  The value is that of \<open>strtoul\<close>: reduced to 64 bits after the sign, and all ones when the
  digits do not fit.
\<close>

definition scan_number :: "nat \<Rightarrow> string \<Rightarrow> (u64 \<times> string) option" where
  "scan_number base s = (
     let (neg, s1) = scan_sign (dropWhile isspace s);
         s2 = scan_prefix base s1;
         ds = takeWhile (is_digit base) s2;
         v = digits_value base ds
     in if ds = [] then None
        else Some (if v \<ge> 2 ^ 64 then U64_MAX else if neg then - of_nat v else of_nat v, dropWhile (is_digit base) s2))"

definition sscanf_zu :: "string \<Rightarrow> (u64 \<times> string) option" where
  "sscanf_zu s = scan_number 10 s"

definition sscanf_x32 :: "string \<Rightarrow> (u32 \<times> string) option" where
  "sscanf_x32 s = map_option (\<lambda>(v, r). (ucast v, r)) (scan_number 16 s)"

section \<open>printf\<close>

definition digit_char :: "nat \<Rightarrow> char" where
  "digit_char d = char_of (48 + d)"

fun show_nat :: "nat \<Rightarrow> string" where
  "show_nat n = (if n < 10 then [digit_char n] else show_nat (n div 10) @ [digit_char (n mod 10)])"

declare show_nat.simps [simp del]

definition show_u64 :: "u64 \<Rightarrow> string" where
  "show_u64 v = show_nat (unat v)"

definition show_u32 :: "u32 \<Rightarrow> string" where
  "show_u32 v = show_nat (unat v)"

section \<open>fgets\<close>

text \<open>The next line of a file, newline included, of at most \<open>n\<close> characters, and the rest.\<close>

fun read_line :: "nat \<Rightarrow> string \<Rightarrow> string \<times> string" where
  "read_line 0 f = ([], f)"
| "read_line (Suc n) [] = ([], [])"
| "read_line (Suc n) (c # f) = (if c = CHR 0x0A then ([c], f) else (let (l, r) = read_line n f in (c # l, r)))"

text \<open>The C string in the buffer ends at the first NUL.\<close>

definition c_string :: "string \<Rightarrow> string" where
  "c_string s = takeWhile (\<lambda>c. c \<noteq> CHR 0x00) s"

lemma read_line_length: "length (snd (read_line n f)) \<le> length f"
  by (induction n f rule: read_line.induct) (auto split: prod.splits)

lemma read_line_append: "fst (read_line n f) @ snd (read_line n f) = f"
  by (induction n f rule: read_line.induct) (auto split: prod.splits)

lemma read_line_less: "f \<noteq> [] \<Longrightarrow> length (snd (read_line (Suc n) f)) < length f"
proof (cases f)
  case (Cons c g)
  then show ?thesis using read_line_length [of n g] by (auto split: prod.splits)
qed simp

section \<open>Reading what was printed\<close>

lemma digit_value_char: "d < 10 \<Longrightarrow> digit_value (digit_char d) = Some d"
  by (simp add: digit_value_def digit_char_def Let_def)

lemma is_digit_char: "d < 10 \<Longrightarrow> is_digit 10 (digit_char d)"
  by (simp add: is_digit_def digit_value_char)

lemma show_nat_digits: "\<forall>c\<in>set (show_nat n). is_digit 10 c"
proof (induction n rule: show_nat.induct)
  case (1 n)
  then show ?case by (subst show_nat.simps) (auto simp: is_digit_char)
qed

lemma show_nat_not_Nil: "show_nat n \<noteq> []"
  by (subst show_nat.simps) auto

lemma digits_value_append: "digits_value b (xs @ [c]) = digits_value b xs * b + the (digit_value c)"
  by (simp add: digits_value_def)

lemma digits_value_show: "digits_value 10 (show_nat n) = n"
proof (induction n rule: show_nat.induct)
  case (1 n)
  show ?case
  proof (cases "n < 10")
    case True
    then show ?thesis by (subst show_nat.simps) (simp add: digits_value_def digit_value_char)
  next
    case False
    then have "digits_value 10 (show_nat n) = digits_value 10 (show_nat (n div 10)) * 10 + the (digit_value (digit_char (n mod 10)))"
      by (subst show_nat.simps) (simp add: digits_value_append)
    then show ?thesis using 1 False by (simp add: digit_value_char)
  qed
qed

lemma is_digit_not_space: "is_digit b c \<Longrightarrow> \<not> isspace c \<and> c \<noteq> CHR ''-'' \<and> c \<noteq> CHR ''+''"
  by (auto simp: is_digit_def digit_value_def isspace_def Let_def split: if_splits)

lemma scan_number_show:
  assumes "n < 2 ^ 64" and "rest = [] \<or> \<not> is_digit 10 (hd rest)"
  shows "scan_number 10 (show_nat n @ rest) = Some (of_nat n, rest)"
proof -
  obtain c ds where s: "show_nat n = c # ds" using show_nat_not_Nil [of n] by (cases "show_nat n") auto
  have c: "is_digit 10 c" using show_nat_digits [of n] by (simp add: s)
  have "dropWhile isspace (show_nat n @ rest) = show_nat n @ rest" using is_digit_not_space [OF c] by (simp add: s)
  moreover have "scan_sign (show_nat n @ rest) = (False, show_nat n @ rest)"
    using is_digit_not_space [OF c] by (simp add: s scan_sign_def)
  moreover have "takeWhile (is_digit 10) (show_nat n @ rest) = show_nat n" "dropWhile (is_digit 10) (show_nat n @ rest) = rest"
    using show_nat_digits [of n] assms(2) by (cases rest; simp)+
  ultimately show ?thesis
    using assms(1) show_nat_not_Nil [of n] by (simp add: scan_number_def scan_prefix_def digits_value_show)
qed

end
