(* ===== verification/Pool.thy ===== *)
theory Pool
  imports Drm_Mm_Scan C_Stdlib
begin

text \<open>
  main.c: the simulation of the CMA pool. \<open>struct data\<close> and the \<open>struct buffer\<close>s are the record
  \<open>pool\<close>. \<open>mm_node\<close> is the first member of a buffer, so the address of the buffer is that of its
  node, and the allocator record \<open>p_mm\<close> holds the memory of the nodes. The plain fields of the
  buffers and their three list heads each have a store of their own. What is written to standard
  error and standard output is collected in \<open>p_stderr\<close> (one constructor per message, with the
  values printed) and \<open>p_stdout\<close>. \<open>p_evict_head\<close> is the address of the local list head in
  \<open>page_out_buffers_for_insertion\<close>, which starts to exist when the function is entered.
  The line number is a C \<open>int\<close>: 32 bits, and \<open>line_num++\<close> is addition on them. C leaves the step past
  \<open>2 ^ 31 - 1\<close> undefined; here it wraps to the negative numbers, as the machine instruction does.
\<close>

definition VC4_CMA_POOL_SIZE :: u64 where "VC4_CMA_POOL_SIZE = 128 * 1024 * 1024"
definition PAGE_SIZE :: u64 where "PAGE_SIZE = push_bit 12 1"

datatype madv = MADV_WILLNEED | MADV_DONTNEED

record buffer =
  b_name :: u32
  b_paged_in :: bool
  b_unmoveable :: bool
  b_in_use :: bool
  b_madv :: madv
  b_size :: u64

datatype message =
    Unknown_buffer i32 u32
  | No_insertion_point u64
  | Unexpected_args i32
  | Already_in_use i32 u32
  | Not_in_use i32 u32
  | Already_exists i32 u32
  | Bad_buffer_size i32
  | Invalid_madv i32 string
  | Invalid_address i32
  | Unknown_command string i32
  | Cannot_open string
  | Not_clean

record pool =
  p_bufs :: "buffer store"
  p_all_head :: addr
  p_all_list :: lheap
  p_mru_head :: addr
  p_mru_list :: lheap
  p_evict_head :: addr
  p_evict_list :: lheap
  p_mm :: drm_mm
  p_line_num :: i32
  p_overflow :: u64
  p_stderr :: "message list"
  p_stdout :: string

section \<open>Accesses\<close>

definition b_write :: "addr \<Rightarrow> (buffer \<Rightarrow> buffer) \<Rightarrow> pool \<Rightarrow> pool option" where
  "b_write a f s = do { b \<leftarrow> p_bufs s a; Some (s\<lparr>p_bufs := (p_bufs s)(a \<mapsto> f b)\<rparr>) }"

definition on_all :: "(lheap \<Rightarrow> lheap option) \<Rightarrow> pool \<Rightarrow> pool option" where
  "on_all f s = do { h \<leftarrow> f (p_all_list s); Some (s\<lparr>p_all_list := h\<rparr>) }"

definition on_mru :: "(lheap \<Rightarrow> lheap option) \<Rightarrow> pool \<Rightarrow> pool option" where
  "on_mru f s = do { h \<leftarrow> f (p_mru_list s); Some (s\<lparr>p_mru_list := h\<rparr>) }"

definition on_evict :: "(lheap \<Rightarrow> lheap option) \<Rightarrow> pool \<Rightarrow> pool option" where
  "on_evict f s = do { h \<leftarrow> f (p_evict_list s); Some (s\<lparr>p_evict_list := h\<rparr>) }"

definition on_mm :: "(drm_mm \<Rightarrow> drm_mm option) \<Rightarrow> pool \<Rightarrow> pool option" where
  "on_mm f s = do { m \<leftarrow> f (p_mm s); Some (s\<lparr>p_mm := m\<rparr>) }"

definition warn :: "message \<Rightarrow> pool \<Rightarrow> pool" where
  "warn m s = s\<lparr>p_stderr := p_stderr s @ [m]\<rparr>"

section \<open>Finding and freeing buffers\<close>

definition find_buffer_body :: "u32 \<Rightarrow> addr \<Rightarrow> pool \<Rightarrow> (pool + addr) option" where
  "find_buffer_body name buf s = do {
     b \<leftarrow> p_bufs s buf;
     Some (if b_name b = name then Inr buf else Inl s)
   }"

definition find_buffer :: "u32 \<Rightarrow> pool \<Rightarrow> addr option" where
  "find_buffer name s = do {
     r \<leftarrow> list_for_each_entry p_all_list (p_all_head s) (find_buffer_body name) s;
     Some (case r of Inr buf \<Rightarrow> buf | Inl _ \<Rightarrow> NULL)
   }"

definition find_buffer_or_error :: "u32 \<Rightarrow> pool \<Rightarrow> (addr \<times> pool) option" where
  "find_buffer_or_error name s = do {
     buf \<leftarrow> find_buffer name s;
     Some (buf, if buf = NULL then warn (Unknown_buffer (p_line_num s) name) s else s)
   }"

definition remove_buffer_from_pool :: "addr \<Rightarrow> pool \<Rightarrow> pool option" where
  "remove_buffer_from_pool buf s = do {
     s \<leftarrow> on_mm (drm_mm_remove_node buf) s;
     s \<leftarrow> on_mru (list_del buf) s;
     s \<leftarrow> b_write buf (\<lambda>b. b\<lparr>b_paged_in := False\<rparr>) s;
     b \<leftarrow> p_bufs s buf;
     Some (s\<lparr>p_overflow := p_overflow s + b_size b\<rparr>)
   }"

text \<open>\<open>free\<close> takes every member of the object out of memory.\<close>

definition buffer_free :: "addr \<Rightarrow> pool \<Rightarrow> pool" where
  "buffer_free a s = s\<lparr>p_bufs := (p_bufs s)(a := None), p_all_list := (p_all_list s)(a := None),
     p_mru_list := (p_mru_list s)(a := None), p_evict_list := (p_evict_list s)(a := None),
     p_mm := node_free a (p_mm s)\<rparr>"

definition free_buffer :: "addr \<Rightarrow> pool \<Rightarrow> pool option" where
  "free_buffer buf s = do {
     b \<leftarrow> p_bufs s buf;
     s \<leftarrow> c_when (b_paged_in b) (remove_buffer_from_pool buf) s;
     s \<leftarrow> on_all (list_del buf) s;
     b \<leftarrow> p_bufs s buf;
     let s = s\<lparr>p_overflow := p_overflow s - b_size b\<rparr>;
     Some (buffer_free buf s)
   }"

definition free_buffers :: "pool \<Rightarrow> pool option" where
  "free_buffers s = do {
     r \<leftarrow> list_for_each_entry_safe p_all_list (p_all_head s)
            (\<lambda>buf s. map_option (Inl :: pool \<Rightarrow> pool + unit) (free_buffer buf s)) s;
     case r of Inl s \<Rightarrow> Some s | Inr _ \<Rightarrow> None
   }"

section \<open>Making room\<close>

text \<open>The first loop of \<open>page_out_buffers_for_insertion\<close>; \<open>Inr\<close> is \<open>goto found\<close>.\<close>

definition page_out_scan_body ::
  "addr \<Rightarrow> drm_mm_scan \<times> pool \<Rightarrow> (drm_mm_scan \<times> pool + drm_mm_scan \<times> pool) option" where
  "page_out_scan_body buffer = (\<lambda>(scan, s). do {
     b \<leftarrow> p_bufs s buffer;
     if b_in_use b \<or> b_unmoveable b then Some (Inl (scan, s))
     else do {
       s \<leftarrow> on_evict (list_add buffer (p_evict_head s)) s;
       (found, scan, m) \<leftarrow> drm_mm_scan_add_block buffer (scan, p_mm s);
       let s = s\<lparr>p_mm := m\<rparr>;
       Some (if found then Inr (scan, s) else Inl (scan, s))
     }
   })"

text \<open>The loop that cleans up when nothing was found.\<close>

definition page_out_undo_body :: "drm_mm_scan \<Rightarrow> addr \<Rightarrow> pool \<Rightarrow> (pool + unit) option" where
  "page_out_undo_body scan buffer s = do {
     (ret, m) \<leftarrow> drm_mm_scan_remove_block buffer (scan, p_mm s);
     let s = s\<lparr>p_mm := m\<rparr>;
     _ \<leftarrow> BUG_ON ret;
     Some (Inl s)
   }"

text \<open>The loop that keeps those to evict in the eviction list.\<close>

definition page_out_select_body :: "drm_mm_scan \<Rightarrow> addr \<Rightarrow> pool \<Rightarrow> (pool + unit) option" where
  "page_out_select_body scan buffer s = do {
     (ret, m) \<leftarrow> drm_mm_scan_remove_block buffer (scan, p_mm s);
     let s = s\<lparr>p_mm := m\<rparr>;
     s \<leftarrow> c_when (\<not> ret) (on_evict (list_del buffer)) s;
     Some (Inl s)
   }"

definition page_out_remove_body :: "addr \<Rightarrow> pool \<Rightarrow> (pool + unit) option" where
  "page_out_remove_body buffer s = map_option Inl (remove_buffer_from_pool buffer s)"

definition page_out_buffers_for_insertion :: "u64 \<Rightarrow> pool \<Rightarrow> (bool \<times> pool) option" where
  "page_out_buffers_for_insertion sz s = do {
     scan \<leftarrow> drm_mm_scan_init_with_range sz PAGE_SIZE 0 0 VC4_CMA_POOL_SIZE DRM_MM_INSERT_BEST (p_mm s);
     let s = s\<lparr>p_evict_list := (p_evict_list s)(p_evict_head s \<mapsto> zero_list_head)\<rparr>;
     s \<leftarrow> on_evict (INIT_LIST_HEAD (p_evict_head s)) s;
     r \<leftarrow> list_for_each_entry_safe_reverse (\<lambda>(scan, s). p_mru_list s) (p_mru_head s) page_out_scan_body (scan, s);
     case r of
       Inl (scan, s) \<Rightarrow> do {
         r \<leftarrow> list_for_each_entry p_evict_list (p_evict_head s) (page_out_undo_body scan) s;
         case r of Inl s \<Rightarrow> Some (False, s) | Inr _ \<Rightarrow> None
       }
     | Inr (scan, s) \<Rightarrow> do {
         r \<leftarrow> list_for_each_entry_safe p_evict_list (p_evict_head s) (page_out_select_body scan) s;
         case r of Inr _ \<Rightarrow> None | Inl s \<Rightarrow> do {
           r \<leftarrow> list_for_each_entry p_evict_list (p_evict_head s) page_out_remove_body s;
           case r of Inl s \<Rightarrow> Some (True, s) | Inr _ \<Rightarrow> None
         }
       }
   }"

definition purge_body :: "addr \<Rightarrow> pool \<Rightarrow> (pool + unit) option" where
  "purge_body buf s = do {
     b \<leftarrow> p_bufs s buf;
     s \<leftarrow> c_when (b_madv b = MADV_DONTNEED \<and> \<not> b_in_use b \<and> \<not> b_unmoveable b) (remove_buffer_from_pool buf) s;
     Some (Inl s)
   }"

definition userspace_cache_purge :: "pool \<Rightarrow> pool option" where
  "userspace_cache_purge s = do {
     r \<leftarrow> list_for_each_entry_safe p_mru_list (p_mru_head s) purge_body s;
     case r of Inl s \<Rightarrow> Some s | Inr _ \<Rightarrow> None
   }"

section \<open>Paging in\<close>

definition insert_buffer_in_cma_pool :: "addr \<Rightarrow> u32 \<Rightarrow> pool \<Rightarrow> (bool \<times> pool) option" where
  "insert_buffer_in_cma_pool buf mode s = do {
     b \<leftarrow> p_bufs s buf;
     (ret, m) \<leftarrow> drm_mm_insert_node_generic buf (b_size b) PAGE_SIZE 0 mode (p_mm s);
     let s = s\<lparr>p_mm := m\<rparr>;
     if ret \<noteq> 0 then Some (False, s)
     else do {
       s \<leftarrow> on_mru (list_add buf (p_mru_head s)) s;
       s \<leftarrow> b_write buf (\<lambda>b. b\<lparr>b_paged_in := True\<rparr>) s;
       Some (True, s\<lparr>p_overflow := p_overflow s - b_size b\<rparr>)
     }
   }"

definition page_in_buffer :: "addr \<Rightarrow> pool \<Rightarrow> (bool \<times> pool) option" where
  "page_in_buffer buf s = do {
     (done, s) \<leftarrow> insert_buffer_in_cma_pool buf DRM_MM_INSERT_BEST s;
     if done then Some (True, s)
     else do {
       s \<leftarrow> userspace_cache_purge s;
       (done, s) \<leftarrow> insert_buffer_in_cma_pool buf DRM_MM_INSERT_BEST s;
       if done then Some (True, s)
       else do {
         b \<leftarrow> p_bufs s buf;
         (paged_out, s) \<leftarrow> page_out_buffers_for_insertion (b_size b) s;
         (done, s) \<leftarrow> (if paged_out then insert_buffer_in_cma_pool buf DRM_MM_INSERT_EVICT s else Some (False, s));
         if done then Some (True, s)
         else do {
           b \<leftarrow> p_bufs s buf;
           Some (False, warn (No_insertion_point (b_size b)) s)
         }
       }
     }
   }"

section \<open>The commands\<close>

definition check_no_args :: "string \<Rightarrow> pool \<Rightarrow> bool \<times> pool" where
  "check_no_args args s = (if args \<noteq> [] then (True, warn (Unexpected_args (p_line_num s)) s) else (False, s))"

definition buf_destroy :: "u32 \<Rightarrow> string \<Rightarrow> pool \<Rightarrow> pool option" where
  "buf_destroy buf_name args s = (let (bad, s) = check_no_args args s in
     if bad then Some s
     else do {
       (buf, s) \<leftarrow> find_buffer_or_error buf_name s;
       if buf = NULL then Some s else free_buffer buf s
     })"

definition buf_add_usecnt :: "u32 \<Rightarrow> string \<Rightarrow> pool \<Rightarrow> pool option" where
  "buf_add_usecnt buf_name args s = (let (bad, s) = check_no_args args s in
     if bad then Some s
     else do {
       (buf, s) \<leftarrow> find_buffer_or_error buf_name s;
       if buf = NULL then Some s
       else do {
         b \<leftarrow> p_bufs s buf;
         let s = (if b_in_use b then warn (Already_in_use (p_line_num s) buf_name) s else s);
         b_write buf (\<lambda>b. b\<lparr>b_in_use := True\<rparr>) s
       }
     })"

definition buf_remove_usecnt :: "u32 \<Rightarrow> string \<Rightarrow> pool \<Rightarrow> pool option" where
  "buf_remove_usecnt buf_name args s = (let (bad, s) = check_no_args args s in
     if bad then Some s
     else do {
       (buf, s) \<leftarrow> find_buffer_or_error buf_name s;
       if buf = NULL then Some s
       else do {
         b \<leftarrow> p_bufs s buf;
         let s = (if \<not> b_in_use b then warn (Not_in_use (p_line_num s) buf_name) s else s);
         b_write buf (\<lambda>b. b\<lparr>b_in_use := False\<rparr>) s
       }
     })"

text \<open>The loop that looks for anything but white space behind the size.\<close>

fun more_args :: "string \<Rightarrow> bool" where
  "more_args [] = False"
| "more_args (c # cs) = (if \<not> isspace c then True else more_args cs)"

definition zero_buffer :: buffer where
  "zero_buffer = \<lparr>b_name = 0, b_paged_in = False, b_unmoveable = False, b_in_use = False,
     b_madv = MADV_WILLNEED, b_size = 0\<rparr>"

text \<open>The zeroed object that \<open>calloc\<close> returned at \<open>a\<close>.\<close>

definition buffer_calloc :: "addr \<Rightarrow> pool \<Rightarrow> pool" where
  "buffer_calloc a s = s\<lparr>p_bufs := (p_bufs s)(a \<mapsto> zero_buffer), p_all_list := (p_all_list s)(a \<mapsto> zero_list_head),
     p_mru_list := (p_mru_list s)(a \<mapsto> zero_list_head), p_evict_list := (p_evict_list s)(a \<mapsto> zero_list_head),
     p_mm := node_calloc a (p_mm s)\<rparr>"

text \<open>
  \<open>calloc\<close> gives the address it returns in each state; the result is not checked, so NULL is
  dereferenced.
\<close>

definition buf_create :: "(pool \<Rightarrow> addr) \<Rightarrow> u32 \<Rightarrow> string \<Rightarrow> pool \<Rightarrow> pool option" where
  "buf_create calloc buf_name args s = do {
     buf \<leftarrow> find_buffer buf_name s;
     if buf \<noteq> NULL then Some (warn (Already_exists (p_line_num s) buf_name) s)
     else (case sscanf_zu args of
         None \<Rightarrow> Some (warn (Bad_buffer_size (p_line_num s)) s)
       | Some (buf_size, rest) \<Rightarrow> do {
           let unmoveable = more_args rest;
           let buf = calloc s;
           if buf = NULL then None
           else do {
             let s = buffer_calloc buf s;
             s \<leftarrow> b_write buf (\<lambda>b. b\<lparr>b_name := buf_name, b_size := buf_size, b_madv := MADV_WILLNEED,
                    b_unmoveable := unmoveable\<rparr>) s;
             s \<leftarrow> on_all (list_add buf (p_all_head s)) s;
             let s = s\<lparr>p_overflow := p_overflow s + buf_size\<rparr>;
             (_, s) \<leftarrow> page_in_buffer buf s;
             Some s
           }
         })
   }"

definition buf_use :: "u32 \<Rightarrow> string \<Rightarrow> pool \<Rightarrow> pool option" where
  "buf_use buf_name args s = (let (bad, s) = check_no_args args s in
     if bad then Some s
     else do {
       (buf, s) \<leftarrow> find_buffer_or_error buf_name s;
       if buf = NULL then Some s
       else do {
         b \<leftarrow> p_bufs s buf;
         if b_paged_in b then do {
           s \<leftarrow> on_mru (list_del buf) s;
           on_mru (list_add buf (p_mru_head s)) s
         } else do {
           (_, s) \<leftarrow> page_in_buffer buf s;
           Some s
         }
       }
     })"

definition madv_map :: "(string \<times> madv) list" where
  "madv_map = [(''willneed'', MADV_WILLNEED), (''dontneed'', MADV_DONTNEED)]"

text \<open>
  The loop over \<open>madv_map\<close>: its body ends with an unconditional \<open>return\<close>, so \<open>Inr\<close> is what
  the first entry gives, and \<open>Inl\<close> the empty table.
\<close>

definition madv_loop :: "addr \<Rightarrow> string \<Rightarrow> (string \<times> madv) list \<Rightarrow> pool \<Rightarrow> (pool + pool) option" where
  "madv_loop buf word tab s = (case tab of
       [] \<Rightarrow> Some (Inl s)
     | (name, value) # _ \<Rightarrow> do {
         s \<leftarrow> c_when (name = word) (b_write buf (\<lambda>b. b\<lparr>b_madv := value\<rparr>)) s;
         Some (Inr s)
       })"

definition buf_madv :: "u32 \<Rightarrow> string \<Rightarrow> pool \<Rightarrow> pool option" where
  "buf_madv buf_name args s = do {
     (buf, s) \<leftarrow> find_buffer_or_error buf_name s;
     if buf = NULL then Some s
     else do {
       let word = takeWhile (\<lambda>c. \<not> isspace c) args;
       r \<leftarrow> madv_loop buf word madv_map s;
       case r of Inr s \<Rightarrow> Some s
       | Inl s \<Rightarrow> Some (warn (Invalid_madv (p_line_num s) args) s)
     }
   }"

definition commands :: "(pool \<Rightarrow> addr) \<Rightarrow> (string \<times> (u32 \<Rightarrow> string \<Rightarrow> pool \<Rightarrow> pool option)) list" where
  "commands calloc = [(''destroy'', buf_destroy), (''add_usecnt'', buf_add_usecnt), (''remove_usecnt'', buf_remove_usecnt),
     (''create'', buf_create calloc), (''use'', buf_use), (''madv'', buf_madv)]"

text \<open>The message for an unknown command prints everything from the command on.\<close>

fun run_command ::
  "string \<Rightarrow> string \<Rightarrow> (string \<times> (u32 \<Rightarrow> string \<Rightarrow> pool \<Rightarrow> pool option)) list \<Rightarrow> u32 \<Rightarrow> string \<Rightarrow> pool \<Rightarrow> pool option" where
  "run_command word start [] buf_name args s = Some (warn (Unknown_command start (p_line_num s)) s)"
| "run_command word start ((name, func) # tab) buf_name args s =
     (if name = word then func buf_name args s else run_command word start tab buf_name args s)"

definition process_command :: "(pool \<Rightarrow> addr) \<Rightarrow> string \<Rightarrow> pool \<Rightarrow> pool option" where
  "process_command calloc command_start s = (case strchr (CHR '' '') command_start of
       None \<Rightarrow> Some s
     | Some (word, args) \<Rightarrow>
         (case sscanf_x32 args of
            None \<Rightarrow> Some (warn (Invalid_address (p_line_num s)) s)
          | Some (buf_name, rest) \<Rightarrow> run_command word command_start (commands calloc) buf_name (dropWhile isspace rest) s))"

section \<open>Output\<close>

definition bool_str :: "bool \<Rightarrow> string" where
  "bool_str val = (if val then ''true'' else ''false'')"

fun madv_str :: "madv \<Rightarrow> string" where
  "madv_str MADV_DONTNEED = ''dontneed''"
| "madv_str MADV_WILLNEED = ''willneed''"

definition quoted :: "string \<Rightarrow> string" where
  "quoted s = CHR 0x22 # s @ [CHR 0x22]"

definition newline :: string where
  "newline = [CHR 0x0A]"

text \<open>The text \<open>dump_data\<close> prints for one buffer, after the comma.\<close>

definition dump_buffer :: "buffer \<Rightarrow> u64 \<Rightarrow> string" where
  "dump_buffer b offset = newline @ ''      { '' @ quoted ''name'' @ '': '' @ show_u32 (b_name b) @ '', '' @
     quoted ''size'' @ '': '' @ show_u64 (b_size b) @ '', '' @
     quoted ''unmoveable'' @ '': '' @ bool_str (b_unmoveable b) @ '', '' @
     quoted ''in_use'' @ '': '' @ bool_str (b_in_use b) @ '', '' @
     quoted ''madv'' @ '': '' @ quoted (madv_str (b_madv b)) @ '', '' @
     quoted ''offset'' @ '': '' @ show_u64 offset @ '' }''"

definition dump_body :: "addr \<Rightarrow> pool \<Rightarrow> (pool + unit) option" where
  "dump_body buf s = do {
     p \<leftarrow> prev_of (p_mru_list s) buf;
     b \<leftarrow> p_bufs s buf;
     start \<leftarrow> START (p_mm s) buf;
     Some (Inl (s\<lparr>p_stdout := p_stdout s @ (if p \<noteq> p_mru_head s then '','' else []) @ dump_buffer b start\<rparr>))
   }"

definition dump_data :: "pool \<Rightarrow> pool option" where
  "dump_data s = do {
     let s = s\<lparr>p_stdout := p_stdout s @ ''{'' @ newline @ ''   '' @ quoted ''overflow'' @ '': '' @ show_u64 (p_overflow s) @
       '','' @ newline @ ''   '' @ quoted ''buffers'' @ '': [''\<rparr>;
     r \<leftarrow> list_for_each_entry p_mru_list (p_mru_head s) dump_body s;
     case r of Inr _ \<Rightarrow> None
     | Inl s \<Rightarrow> Some (s\<lparr>p_stdout := p_stdout s @ newline @ ''   ]'' @ newline @ ''}'' @ newline\<rparr>)
   }"

section \<open>Reading the log\<close>

definition command_marker :: string where
  "command_marker = ''] @@@ ''"

definition process_line :: "(pool \<Rightarrow> addr) \<Rightarrow> string \<Rightarrow> pool \<Rightarrow> pool option" where
  "process_line calloc line s = (case strstr_after command_marker line of
       Some command \<Rightarrow> process_command calloc command s
     | None \<Rightarrow>
         (case strip_prefix ''dump'' (dropWhile isspace line) of
            None \<Rightarrow> Some s
          | Some rest \<Rightarrow> if more_args rest then Some s else dump_data s))"

function process_lines :: "(pool \<Rightarrow> addr) \<Rightarrow> string \<Rightarrow> pool \<Rightarrow> pool option" where
  "process_lines calloc file s =
     (if file = [] then Some s
      else do {
        let (line, file') = read_line 1023 file;
        s \<leftarrow> process_line calloc (c_string line) s;
        process_lines calloc file' (s\<lparr>p_line_num := p_line_num s + 1\<rparr>)
      })"
  by pat_completeness auto

termination
  by (relation "measure (\<lambda>(_, file, _). length file)") (simp_all, metis numeral_eq_Suc read_line_less snd_conv)

declare process_lines.simps [simp del]

definition process_file :: "(pool \<Rightarrow> addr) \<Rightarrow> string \<Rightarrow> pool \<Rightarrow> pool option" where
  "process_file calloc file s = process_lines calloc file (s\<lparr>p_line_num := 1\<rparr>)"

text \<open>The file system gives the content of the files that can be opened.\<close>

definition process_filename :: "(pool \<Rightarrow> addr) \<Rightarrow> (string \<rightharpoonup> string) \<Rightarrow> string \<Rightarrow> pool \<Rightarrow> pool option" where
  "process_filename calloc files filename s = (case files filename of
       None \<Rightarrow> Some (warn (Cannot_open filename) s)
     | Some file \<Rightarrow> process_file calloc file s)"

text \<open>
  \<open>struct data\<close> zeroed at \<open>d\<close>, with its members at their offsets; the list head of
  \<open>page_out_buffers_for_insertion\<close> at \<open>e\<close>.
\<close>

definition zero_pool :: "addr \<Rightarrow> addr \<Rightarrow> pool" where
  "zero_pool d e = \<lparr>p_bufs = Map.empty, p_all_head = d, p_all_list = [d \<mapsto> zero_list_head],
     p_mru_head = d + 16, p_mru_list = [d + 16 \<mapsto> zero_list_head], p_evict_head = e, p_evict_list = Map.empty,
     p_mm = zero_mm (d + 32) (d + 40) (d + 56), p_line_num = 0, p_overflow = 0, p_stderr = [], p_stdout = []\<rparr>"

definition pool_main ::
  "(pool \<Rightarrow> addr) \<Rightarrow> (string \<rightharpoonup> string) \<Rightarrow> string \<Rightarrow> string list \<Rightarrow> addr \<Rightarrow> addr \<Rightarrow> pool option" where
  "pool_main calloc files stdin argv d e = do {
     let s = zero_pool d e;
     s \<leftarrow> on_all (INIT_LIST_HEAD (p_all_head s)) s;
     s \<leftarrow> on_mru (INIT_LIST_HEAD (p_mru_head s)) s;
     s \<leftarrow> on_mm (drm_mm_init 0 VC4_CMA_POOL_SIZE) s;
     s \<leftarrow> (if length argv > 1 then process_filename calloc files (argv ! 1) s else process_file calloc stdin s);
     s \<leftarrow> free_buffers s;
     unclean \<leftarrow> drm_mm_takedown (p_mm s);
     Some (if unclean then warn Not_clean s else s)
   }"

end
