(* ===== verification/Pool_Inv.thy ===== *)
theory Pool_Inv
  imports Pool
begin

text \<open>
  The invariant of the simulation between two commands, and the two steps that every command is
  made of: a buffer leaves the pool, and a buffer enters it.
\<close>

section \<open>The invariant\<close>

abbreviation buf :: "pool \<Rightarrow> addr \<Rightarrow> buffer" where
  "buf s a \<equiv> the (p_bufs s a)"

text \<open>\<open>a\<close> is a whole buffer; \<open>ms\<close> are the buffers in the pool.\<close>

definition buffer_ok :: "pool \<Rightarrow> addr list \<Rightarrow> addr \<Rightarrow> bool" where
  "buffer_ok s ms a \<longleftrightarrow> p_bufs s a \<noteq> None \<and> (b_paged_in (buf s a) \<longleftrightarrow> a \<in> set ms) \<and>
     a \<in> dom (p_mru_list s) \<and> a \<in> dom (p_evict_list s) \<and> live (p_mm s) a \<and> a \<noteq> mm_head_node (p_mm s) \<and>
     (a \<in> set ms \<longrightarrow> n_size (mm_nodes (p_mm s)) a = b_size (buf s a) \<and> n_start (mm_nodes (p_mm s)) a mod PAGE_SIZE = 0)"

text \<open>The bytes of the buffers that are not in the pool.\<close>

definition paged_out_bytes :: "pool \<Rightarrow> addr list \<Rightarrow> addr list \<Rightarrow> u64" where
  "paged_out_bytes s as ms = (\<Sum>a\<leftarrow>as. if a \<in> set ms then 0 else b_size (buf s a))"

text \<open>\<open>as\<close> are all the buffers and \<open>ms\<close> those in the pool, most recently used first.\<close>

definition pool_inv :: "pool \<Rightarrow> addr list \<Rightarrow> addr list \<Rightarrow> bool" where
  "pool_inv s as ms \<longleftrightarrow> is_list (p_all_list s) (p_all_head s) as \<and> is_list (p_mru_list s) (p_mru_head s) ms \<and>
     (\<exists>ns. mm_ok 0 VC4_CMA_POOL_SIZE (p_mm s) ns \<and> set ns = set ms) \<and> set ms \<subseteq> set as \<and>
     dom (p_bufs s) = set as \<and> (\<forall>a\<in>set as. buffer_ok s ms a) \<and>
     p_mru_head s \<notin> set as \<and> p_evict_head s \<notin> set as \<and>
     distinct (map (\<lambda>a. b_name (buf s a)) as) \<and> p_overflow s = paged_out_bytes s as ms"

text \<open>What paging buffers in and out leaves alone.\<close>

definition pool_frame :: "pool \<Rightarrow> pool \<Rightarrow> bool" where
  "pool_frame s s' \<longleftrightarrow> p_all_head s' = p_all_head s \<and> p_all_list s' = p_all_list s \<and> p_mru_head s' = p_mru_head s \<and>
     p_evict_head s' = p_evict_head s \<and> p_line_num s' = p_line_num s \<and> p_stderr s' = p_stderr s \<and> p_stdout s' = p_stdout s \<and>
     mm_head_node (p_mm s') = mm_head_node (p_mm s) \<and> mm_hole_stack (p_mm s') = mm_hole_stack (p_mm s) \<and>
     (\<forall>a. map_option (b_paged_in_update (\<lambda>_. False)) (p_bufs s' a) = map_option (b_paged_in_update (\<lambda>_. False)) (p_bufs s a))"

lemma pool_frame_refl: "pool_frame s s"
  by (simp add: pool_frame_def)

lemma pool_frame_trans: "pool_frame s s1 \<Longrightarrow> pool_frame s1 s2 \<Longrightarrow> pool_frame s s2"
  by (simp add: pool_frame_def)

lemma same_but_paged:
  "b_paged_in_update (\<lambda>_. False) x = b_paged_in_update (\<lambda>_. False) y \<Longrightarrow> b_name x = b_name y \<and> b_size x = b_size y \<and>
     b_unmoveable x = b_unmoveable y \<and> b_in_use x = b_in_use y \<and> b_madv x = b_madv y"
  by (cases x; cases y) simp

lemma pool_frame_fields:
  assumes "pool_frame s s'"
  shows "b_name (buf s' a) = b_name (buf s a)" "b_size (buf s' a) = b_size (buf s a)" "b_unmoveable (buf s' a) = b_unmoveable (buf s a)"
    "b_in_use (buf s' a) = b_in_use (buf s a)" "b_madv (buf s' a) = b_madv (buf s a)" "p_bufs s' a = None \<longleftrightarrow> p_bufs s a = None"
proof -
  have "map_option (b_paged_in_update (\<lambda>_. False)) (p_bufs s' a) = map_option (b_paged_in_update (\<lambda>_. False)) (p_bufs s a)"
    using assms by (simp add: pool_frame_def)
  then show "b_name (buf s' a) = b_name (buf s a)" "b_size (buf s' a) = b_size (buf s a)" "b_unmoveable (buf s' a) = b_unmoveable (buf s a)"
    "b_in_use (buf s' a) = b_in_use (buf s a)" "b_madv (buf s' a) = b_madv (buf s a)" "p_bufs s' a = None \<longleftrightarrow> p_bufs s a = None"
    by (cases "p_bufs s a"; cases "p_bufs s' a"; auto dest!: same_but_paged)+
qed

lemma pool_inv_parts:
  assumes "pool_inv s as ms"
  shows "is_list (p_all_list s) (p_all_head s) as" "is_list (p_mru_list s) (p_mru_head s) ms" "set ms \<subseteq> set as"
    "dom (p_bufs s) = set as" "\<forall>a\<in>set as. buffer_ok s ms a" "p_evict_head s \<notin> set as"
    "distinct (map (\<lambda>a. b_name (buf s a)) as)" "p_overflow s = paged_out_bytes s as ms" "distinct as" "distinct ms"
    "p_mru_head s \<notin> set as"
  using assms by (auto simp: pool_inv_def is_list_def)

lemma pool_inv_mm:
  assumes "pool_inv s as ms"
  obtains ns hs where "mm_ok 0 VC4_CMA_POOL_SIZE (p_mm s) ns" "mm_inv (p_mm s) ns hs" "set ns = set ms"
    "mm_color_adjust (p_mm s) = None"
proof -
  obtain ns where ok: "mm_ok 0 VC4_CMA_POOL_SIZE (p_mm s) ns" "set ns = set ms" using assms by (auto simp: pool_inv_def)
  then obtain hs where "mm_inv (p_mm s) ns hs" "mm_color_adjust (p_mm s) = None" by (auto simp: mm_ok_def)
  then show ?thesis using ok that by blast
qed

lemma bytes_swap:
  assumes "distinct as" "a \<in> set as" "a \<notin> set ms"
    and "\<And>b. b_size (buf s' b) = b_size (buf s b)" "set ms' = insert a (set ms)"
  shows "paged_out_bytes s as ms = paged_out_bytes s' as ms' + b_size (buf s a)"
proof -
  obtain us vs where as: "as = us @ a # vs" using assms(2) by (meson split_list)
  have "(\<Sum>b\<leftarrow>xs. if b \<in> set ms then 0 else b_size (buf s b)) = (\<Sum>b\<leftarrow>xs. if b \<in> set ms' then 0 else b_size (buf s' b))"
    if "a \<notin> set xs" for xs
  proof -
    have "map (\<lambda>b. if b \<in> set ms then 0 else b_size (buf s b)) xs = map (\<lambda>b. if b \<in> set ms' then 0 else b_size (buf s' b)) xs"
      by (rule map_cong) (use that assms(4,5) in auto)
    then show ?thesis by (rule arg_cong [where f = sum_list])
  qed
  then show ?thesis using assms(1,3,5) unfolding paged_out_bytes_def as by simp
qed

text \<open>The buffers of \<open>ms\<close> have not moved.\<close>

definition stay :: "addr list \<Rightarrow> pool \<Rightarrow> pool \<Rightarrow> bool" where
  "stay ms s s' \<longleftrightarrow> (\<forall>b\<in>set ms. n_start (mm_nodes (p_mm s')) b = n_start (mm_nodes (p_mm s)) b \<and>
     n_end (mm_nodes (p_mm s')) b = n_end (mm_nodes (p_mm s)) b)"

lemma stay_refl: "stay ms s s"
  by (simp add: stay_def)

lemma stay_trans: "stay ms s s1 \<Longrightarrow> stay ms1 s1 s2 \<Longrightarrow> set ms1 \<subseteq> set ms \<Longrightarrow> stay ms1 s s2"
  by (auto simp: stay_def)

lemma stay_mono: "stay ms s s' \<Longrightarrow> set ms1 \<subseteq> set ms \<Longrightarrow> stay ms1 s s'"
  by (auto simp: stay_def)

lemma mm_frame_stay: "mm_frame A (p_mm s) (p_mm s') \<Longrightarrow> A \<inter> set ms = {} \<Longrightarrow> stay ms s s'"
  unfolding stay_def using mm_frame_fields(1,3) by blast

lemma page_size_gt: "1 < PAGE_SIZE"
  by (simp add: PAGE_SIZE_def)

section \<open>A buffer leaves the pool\<close>

lemma remove_buffer_spec:
  assumes inv: "pool_inv s as (us @ a # vs)"
  shows "\<exists>s'. remove_buffer_from_pool a s = Some s' \<and> pool_inv s' as (us @ vs) \<and> pool_frame s s' \<and>
    drm_mm_remove_node a (p_mm s) = Some (p_mm s') \<and> p_evict_list s' = p_evict_list s \<and> stay (us @ vs) s s'"
proof -
  let ?ms = "us @ a # vs"
  note P = pool_inv_parts [OF inv]
  obtain ns hs where ok: "mm_ok 0 VC4_CMA_POOL_SIZE (p_mm s) ns" and mm: "mm_inv (p_mm s) ns hs" and ns: "set ns = set ?ms"
    by (rule pool_inv_mm [OF inv])
  have a: "a \<in> set as" "buffer_ok s ?ms a" using P(3,5) by auto
  obtain b where b: "p_bufs s a = Some b" using a(2) by (auto simp: buffer_ok_def)
  obtain us1 vs1 where n: "ns = us1 @ a # vs1" using ns by (metis in_set_conv_decomp)
  have d: "distinct (us @ a # vs)" using P(10) .
  have d1: "distinct (mm_head_node (p_mm s) # us1 @ a # vs1)" using mm_inv_distinct [OF mm] by (simp add: n)
  obtain m hs' where m: "drm_mm_remove_node a (p_mm s) = Some m" "mm_inv m (us1 @ vs1) hs'" "mm_frame {a} (p_mm s) m"
    "\<not> nd_allocated (the (mm_nodes m a))" "\<not> nd_scanned_block (the (mm_nodes m a))"
    using drm_mm_remove_node_spec mm n by blast
  have okm: "mm_ok 0 VC4_CMA_POOL_SIZE m (us1 @ vs1)"
    by (rule mm_ok_frame [OF ok m(2,3)]) (use m(4,5) d1 in \<open>auto simp: n\<close>)
  obtain l where l: "list_del a (p_mru_list s) = Some l" "is_list l (p_mru_head s) (us @ vs)" "dom l = dom (p_mru_list s)"
    using list_del_spec [OF P(2)] by auto
  define s' where "s' = s\<lparr>p_mm := m, p_mru_list := l, p_bufs := (p_bufs s)(a \<mapsto> b\<lparr>b_paged_in := False\<rparr>), p_overflow := p_overflow s + b_size b\<rparr>"
  have run: "remove_buffer_from_pool a s = Some s'"
    using m(1) l(1) b by (simp add: remove_buffer_from_pool_def on_mm_def on_mru_def b_write_def s'_def)
  have frame: "pool_frame s s'" using m(3) b by (simp add: pool_frame_def s'_def mm_frame_def)
  note F = pool_frame_fields [OF frame]
  have "set ns = set us1 \<union> insert a (set vs1)" by (auto simp: n)
  then have set: "set (us1 @ vs1) = set (us @ vs)" using ns d d1 by auto
  have "buffer_ok s' (us @ vs) c" if "c \<in> set as" for c
  proof -
    have ok: "buffer_ok s ?ms c" using P(5) that by blast
    have "live m c = live (p_mm s) c" "mm_head_node m = mm_head_node (p_mm s)" using m(3) by (simp_all add: mm_frame_def)
    moreover have "c \<noteq> a \<Longrightarrow> n_size (mm_nodes m) c = n_size (mm_nodes (p_mm s)) c \<and> n_start (mm_nodes m) c = n_start (mm_nodes (p_mm s)) c"
      using mm_frame_fields(1,2) [OF m(3)] by simp
    ultimately show ?thesis using ok d l(3) F(1-5) [of c] b by (auto simp: buffer_ok_def s'_def)
  qed
  moreover have "p_overflow s' = paged_out_bytes s' as (us @ vs)"
  proof -
    have "paged_out_bytes s' as (us @ vs) = paged_out_bytes s as ?ms + b_size (buf s' a)"
      by (rule bytes_swap) (use P(9) a(1) d F in auto)
    then show ?thesis using P(8) b by (simp add: s'_def)
  qed
  ultimately have "pool_inv s' as (us @ vs)"
    using P okm set l(2) F(1) b a(1) by (auto simp: pool_inv_def s'_def insert_absorb)
  moreover have "stay (us @ vs) s s'" by (rule mm_frame_stay [of "{a}"]) (use m(3) d in \<open>simp_all add: s'_def\<close>)
  ultimately show ?thesis using run frame m(1) by (auto simp: s'_def)
qed

section \<open>A buffer enters the pool\<close>

text \<open>A hole of the pool has room for an aligned block of \<open>sz\<close> bytes.\<close>

definition has_room :: "pool \<Rightarrow> addr list \<Rightarrow> u64 \<Rightarrow> bool" where
  "has_room s ms sz \<longleftrightarrow> (\<exists>c\<in>set (mm_head_node (p_mm s) # ms). \<exists>q. place_in (p_mm s) 0 0 U64_MAX sz PAGE_SIZE c q)"

lemma insert_buffer_spec:
  assumes inv: "pool_inv s as ms" and a: "a \<in> set as" "a \<notin> set ms" and mode: "mode AND DRM_MM_INSERT_ONCE = 0"
  shows "\<exists>s'. insert_buffer_in_cma_pool a mode s = Some (has_room s ms (b_size (buf s a)), s') \<and>
    (if has_room s ms (b_size (buf s a)) then pool_inv s' as (a # ms) \<and> pool_frame s s' \<and> p_evict_list s' = p_evict_list s \<and> stay ms s s'
     else s' = s)"
proof -
  note P = pool_inv_parts [OF inv]
  obtain ns hs where ok: "mm_ok 0 VC4_CMA_POOL_SIZE (p_mm s) ns" and mm: "mm_inv (p_mm s) ns hs" and ns: "set ns = set ms"
    by (rule pool_inv_mm [OF inv])
  have ba: "buffer_ok s ms a" using P(5) a(1) by blast
  obtain b where b: "p_bufs s a = Some b" using ba by (auto simp: buffer_ok_def)
  have idle: "idle (p_mm s) a" using mm_ok_busy(2) [OF ok] ba a(2) ns by (auto simp: buffer_ok_def)
  have x: "live (p_mm s) a" "a \<notin> set (mm_head_node (p_mm s) # ns)" "\<not> nd_scanned_block (the (mm_nodes (p_mm s) a))"
    using mm_ok_busy(2,3) [OF ok] idle by blast+
  have room: "(\<exists>c\<in>set (mm_head_node (p_mm s) # ns). \<exists>q. place_in (p_mm s) 0 0 U64_MAX (b_size b) PAGE_SIZE c q) \<longleftrightarrow>
      has_room s ms (b_size b)" using ns by (simp add: has_room_def)
  note ins = insert_places [OF mm mm_ok_colour [OF ok] word_zero_le mode x, of 0 U64_MAX "b_size b" PAGE_SIZE, unfolded room]
  have gen: "drm_mm_insert_node_generic a (b_size b) PAGE_SIZE 0 mode (p_mm s) =
      drm_mm_insert_node_in_range a (b_size b) PAGE_SIZE 0 0 U64_MAX mode (p_mm s)" by (simp add: drm_mm_insert_node_generic_def)
  show ?thesis
  proof (cases "has_room s ms (b_size b)")
    case False
    have "- ENOSPC \<noteq> 0" by (simp add: ENOSPC_def)
    then show ?thesis using ins False b gen by (simp add: insert_buffer_in_cma_pool_def)
  next
    case True
    then obtain m ns' c p where m: "drm_mm_insert_node_in_range a (b_size b) PAGE_SIZE 0 0 U64_MAX mode (p_mm s) = Some (0, m)"
      "block_inserted (p_mm s) ns a c p (b_size b) 0 m ns'" "place_in (p_mm s) 0 0 U64_MAX (b_size b) PAGE_SIZE c p" using ins by auto
    have okm: "mm_ok 0 VC4_CMA_POOL_SIZE m ns'" by (rule mm_ok_inserted [OF ok m(2) idle])
    have set: "set ns' = set (a # ms)" using m(2) ns by (elim block_inserted_place) auto
    have f: "mm_frame {a} (p_mm s) m" "n_size (mm_nodes m) a = b_size b" "n_start (mm_nodes m) a = p" using m(2) by (auto simp: block_inserted_def)
    have al: "p mod PAGE_SIZE = 0" using m(3) page_size_gt by (auto simp: place_in_def place_ok_def)
    have "p_mru_head s \<noteq> a"  "a \<in> dom (p_mru_list s)" using P(11) a(1) ba by (auto simp: buffer_ok_def)
    then obtain l where l: "list_add a (p_mru_head s) (p_mru_list s) = Some l" "is_list l (p_mru_head s) (a # ms)" "dom l = dom (p_mru_list s)"
      using list_add_front [OF P(2), of a] a(2) by auto
    define s' where "s' = s\<lparr>p_mm := m, p_mru_list := l, p_bufs := (p_bufs s)(a \<mapsto> b\<lparr>b_paged_in := True\<rparr>), p_overflow := p_overflow s - b_size b\<rparr>"
    have run: "insert_buffer_in_cma_pool a mode s = Some (True, s')"
      using m(1) l(1) b gen by (simp add: insert_buffer_in_cma_pool_def on_mru_def b_write_def s'_def)
    have frame: "pool_frame s s'" using f(1) b by (simp add: pool_frame_def s'_def mm_frame_def)
    note F = pool_frame_fields [OF frame]
    have "buffer_ok s' (a # ms) c" if "c \<in> set as" for c
    proof -
      have ok: "buffer_ok s ms c" using P(5) that by blast
      have "live m c = live (p_mm s) c" "mm_head_node m = mm_head_node (p_mm s)" using f(1) by (simp_all add: mm_frame_def)
      moreover have "c \<noteq> a \<Longrightarrow> n_size (mm_nodes m) c = n_size (mm_nodes (p_mm s)) c \<and> n_start (mm_nodes m) c = n_start (mm_nodes (p_mm s)) c"
        using mm_frame_fields(1,2) [OF f(1)] by simp
      ultimately show ?thesis using ok f(2,3) al l(3) F(1-5) [of c] b by (auto simp: buffer_ok_def s'_def)
    qed
    moreover have "p_overflow s' = paged_out_bytes s' as (a # ms)"
    proof -
      have "paged_out_bytes s as ms = paged_out_bytes s' as (a # ms) + b_size (buf s a)"
        by (rule bytes_swap) (use P(9) a F in auto)
      moreover have "p_overflow s' = paged_out_bytes s as ms - b_size (buf s a)" using P(8) b by (simp add: s'_def)
      ultimately show ?thesis by simp
    qed
    ultimately have "pool_inv s' as (a # ms)"
      using P okm set l(2) F(1) b a(1) by (auto simp: pool_inv_def s'_def insert_absorb)
    moreover have "stay ms s s'" by (rule mm_frame_stay [of "{a}"]) (use f(1) a(2) in \<open>simp_all add: s'_def\<close>)
    ultimately show ?thesis using run frame True b by (auto simp: s'_def)
  qed
qed

section \<open>Room in the pool\<close>

text \<open>
  The abstract view of room: a page-aligned interval of the pool that meets none of the buffers \<open>xs\<close>.
\<close>

definition free_place :: "pool \<Rightarrow> addr list \<Rightarrow> u64 \<Rightarrow> u64 \<Rightarrow> bool" where
  "free_place s xs sz q \<longleftrightarrow> q mod PAGE_SIZE = 0 \<and> q < q + sz \<and> q + sz \<le> VC4_CMA_POOL_SIZE \<and>
     (\<forall>b\<in>set xs. n_end (mm_nodes (p_mm s)) b \<le> q \<or> q + sz \<le> n_start (mm_nodes (p_mm s)) b)"

lemma free_place_stay: "stay xs s s' \<Longrightarrow> free_place s' xs sz q = free_place s xs sz q"
  by (simp add: free_place_def stay_def)

lemma free_place_mono: "free_place s xs sz q \<Longrightarrow> set ys \<subseteq> set xs \<Longrightarrow> free_place s ys sz q"
  by (auto simp: free_place_def)

lemma has_room_iff:
  assumes inv: "pool_inv s as ms"
  shows "has_room s ms sz \<longleftrightarrow> (\<exists>q. free_place s ms sz q)"
proof -
  obtain ns hs where ok: "mm_ok 0 VC4_CMA_POOL_SIZE (p_mm s) ns" and mm: "mm_inv (p_mm s) ns hs" and ns: "set ns = set ms"
    and none: "mm_color_adjust (p_mm s) = None" by (rule pool_inv_mm [OF inv])
  let ?H = "mm_head_node (p_mm s)" and ?m = "mm_nodes (p_mm s)"
  have H: "n_end ?m ?H = 0" "n_start ?m ?H = VC4_CMA_POOL_SIZE" using ok by (simp_all add: mm_ok_def)
  have place: "place_in (p_mm s) 0 0 U64_MAX sz PAGE_SIZE c q \<longleftrightarrow>
      n_end ?m c \<le> q \<and> q < q + sz \<and> q + sz \<le> n_end ?m c + n_hole ?m c \<and> q mod PAGE_SIZE = 0" for c q
    using none page_size_gt by (auto simp: place_in_def place_ok_def hole_window_def adjust_colour_def)
  show ?thesis
  proof
    assume "has_room s ms sz"
    then have "\<exists>c\<in>set (?H # ns). \<exists>q. n_end ?m c \<le> q \<and> q < q + sz \<and> q + sz \<le> n_end ?m c + n_hole ?m c \<and> q mod PAGE_SIZE = 0"
      using ns unfolding has_room_def place by simp
    then obtain c q where c: "c \<in> set (?H # ns)" and q: "n_end ?m c \<le> q" "q < q + sz" "q + sz \<le> n_end ?m c + n_hole ?m c" "q mod PAGE_SIZE = 0"
      by (elim bexE exE conjE) (rule that; assumption)
    obtain us vs where L: "?H # ns = us @ c # vs" using c by (meson split_list)
    note at = mm_inv_at [OF mm L]
    have "q + sz \<le> VC4_CMA_POOL_SIZE" using q(3) at(3) H(2) by (auto intro: order_trans)
    moreover have "n_end ?m b \<le> q \<or> q + sz \<le> n_start ?m b" if "b \<in> set ms" for b
    proof -
      have "b \<in> set us \<or> b = c \<or> b \<in> set vs" using that ns arg_cong [OF L, of set] by auto
      then show ?thesis using at(3,4) q(1,3) by (auto intro: order_trans)
    qed
    ultimately have "free_place s ms sz q" using q by (simp add: free_place_def)
    then show "\<exists>q. free_place s ms sz q" ..
  next
    assume "\<exists>q. free_place s ms sz q"
    then obtain q where q: "free_place s ms sz q" ..
    have "\<exists>c\<in>set (?H # ns). n_end ?m c \<le> q \<and> q + sz \<le> n_end ?m c + n_hole ?m c"
      by (rule mm_inv_gap [OF mm]) (use q H ns in \<open>auto simp: free_place_def\<close>)
    then obtain c where "c \<in> set (?H # ns)" "n_end ?m c \<le> q" "q + sz \<le> n_end ?m c + n_hole ?m c" by blast
    moreover have "q < q + sz" "q mod PAGE_SIZE = 0" using q by (simp_all add: free_place_def)
    ultimately have "\<exists>c\<in>set (?H # ns). \<exists>q. n_end ?m c \<le> q \<and> q < q + sz \<and> q + sz \<le> n_end ?m c + n_hole ?m c \<and> q mod PAGE_SIZE = 0"
      by metis
    then show "has_room s ms sz" using ns unfolding has_room_def place by simp
  qed
qed

text \<open>A gap between two neighbours is all that is needed.\<close>

lemma gap_pair:
  assumes "no_gap m rs re sz al (a # xs @ [z])" and "place_ok rs re sz al q" and "n_end m a \<le> q" "q + sz \<le> n_start m z"
    and "\<forall>b\<in>set xs. n_end m b \<le> q \<or> q + sz \<le> n_start m b"
  shows False
  using assms
proof (induction xs arbitrary: a)
  case (Cons b xs)
  show ?case
  proof (cases "n_end m b \<le> q")
    case True
    then show ?thesis using Cons by auto
  next
    case False
    then have "place_ok (max (n_end m a) rs) (min (n_start m b) re) sz al q" using Cons.prems by (auto simp: place_ok_def)
    then show ?thesis using Cons.prems(1) by simp
  qed
next
  case Nil
  then have "place_ok (max (n_end m a) rs) (min (n_start m z) re) sz al q" by (simp add: place_ok_def)
  then show ?case using Nil.prems(1) by simp
qed

end
