(* ===== verification/Pool_Evict.thy ===== *)
theory Pool_Evict
  imports Pool_Inv
begin

text \<open>
  How main.c makes room in the pool: \<open>userspace_cache_purge\<close> and
  \<open>page_out_buffers_for_insertion\<close>, which runs the scan protocol of the allocator over the buffers
  in the order of their last use.
\<close>

lemma is_list_tail: "is_list h head (us @ ys) \<Longrightarrow> next_path h (ys @ [head]) \<and> head \<in> dom h"
proof -
  assume l: "is_list h head (us @ ys)"
  have "next_path h ((head # us) @ (ys @ [head]))" using l by (simp add: is_list_def)
  then have "next_path h (ys @ [head])"
    using next_path_append [of h "head # us" "hd (ys @ [head])" "tl (ys @ [head])"] by simp
  then show ?thesis using is_list_dom [OF l] by simp
qed

lemma prev_path_prefix: "prev_path h (xs @ ys) \<Longrightarrow> prev_path h xs"
  by (induction h xs rule: prev_path.induct) auto

lemma loop_ends:
  assumes "\<exists>r. f = Some r \<and> (case r of Inl s \<Rightarrow> P s | Inr v \<Rightarrow> Q v)"
  obtains s where "f = Some (Inl s)" "P s" | v where "f = Some (Inr v)" "Q v"
proof -
  obtain r where r: "f = Some r" "case r of Inl s \<Rightarrow> P s | Inr v \<Rightarrow> Q v" using assms by blast
  show thesis
  proof (cases r)
    case (Inl s)
    then show ?thesis using that(1) r by simp
  next
    case (Inr v)
    then show ?thesis using that(2) r by simp
  qed
qed

section \<open>Purging the cache\<close>

definition purgeable :: "pool \<Rightarrow> addr \<Rightarrow> bool" where
  "purgeable s a \<longleftrightarrow> b_madv (buf s a) = MADV_DONTNEED \<and> \<not> b_in_use (buf s a) \<and> \<not> b_unmoveable (buf s a)"

lemma userspace_cache_purge_spec:
  assumes inv: "pool_inv s as ms"
  shows "\<exists>s'. userspace_cache_purge s = Some s' \<and> pool_inv s' as (filter (\<lambda>a. \<not> purgeable s a) ms) \<and> pool_frame s s' \<and>
    stay (filter (\<lambda>a. \<not> purgeable s a) ms) s s'"
proof -
  let ?k = "\<lambda>a. \<not> purgeable s a"
  define I where "I = (\<lambda>xs s'. \<exists>pre. ms = pre @ xs \<and> pool_inv s' as (filter ?k pre @ xs) \<and> pool_frame s s' \<and> stay (filter ?k pre @ xs) s s')"
  have loop: "\<exists>r. list_for_each_entry_safe p_mru_list (p_mru_head s) purge_body s = Some r \<and>
      (case r of Inl s' \<Rightarrow> I [] s' | Inr v \<Rightarrow> False)"
  proof (rule list_for_each_entry_safe_rule [where I = I and xs = ms])
    show "I ms s" using inv pool_frame_refl stay_refl by (auto simp: I_def)
    show "is_list (p_mru_list s) (p_mru_head s) ms" by (rule pool_inv_parts(2) [OF inv])
    fix x ys t
    assume "I (x # ys) t"
    then obtain pre where I: "ms = pre @ x # ys" "pool_inv t as (filter ?k pre @ x # ys)" "pool_frame s t" "stay (filter ?k pre @ x # ys) s t" by (auto simp: I_def)
    have "buffer_ok t (filter ?k pre @ x # ys) x" using pool_inv_parts(3,5) [OF I(2)] by auto
    then obtain b where b: "p_bufs t x = Some b" by (auto simp: buffer_ok_def)
    have pb: "b_madv b = MADV_DONTNEED \<and> \<not> b_in_use b \<and> \<not> b_unmoveable b \<longleftrightarrow> purgeable s x"
      using pool_frame_fields(3-5) [OF I(3), of x] b by (simp add: purgeable_def)
    obtain t' where t': "c_when (purgeable s x) (remove_buffer_from_pool x) t = Some t'"
      "pool_inv t' as (filter ?k (pre @ [x]) @ ys)" "pool_frame t t'" "stay (filter ?k (pre @ [x]) @ ys) t t'"
    proof (cases "purgeable s x")
      case True
      then show ?thesis using remove_buffer_spec [OF I(2)] that by (auto simp: c_when_def)
    next
      case False
      then show ?thesis using that [of t] I(2) pool_frame_refl stay_refl by (simp add: c_when_def)
    qed
    have h: "p_mru_head t' = p_mru_head s" using pool_frame_trans [OF I(3) t'(3)] by (simp add: pool_frame_def)
    have "purge_body x t = Some (Inl t')" using b t'(1) unfolding purge_body_def by (simp add: pb)
    moreover have "I ys t'" unfolding I_def using I(1) t'(2) pool_frame_trans [OF I(3) t'(3)] stay_trans [OF I(4) t'(4)]
      by (intro exI [of _ "pre @ [x]"]) fastforce
    moreover have "next_path (p_mru_list t') (ys @ [p_mru_head s]) \<and> p_mru_head s \<in> dom (p_mru_list t')"
      using is_list_tail [OF pool_inv_parts(2) [OF t'(2), unfolded h]] .
    ultimately show "\<exists>r. purge_body x t = Some r \<and> (case r of Inl s' \<Rightarrow> I ys s' \<and> next_path (p_mru_list s') (ys @ [p_mru_head s]) \<and>
        p_mru_head s \<in> dom (p_mru_list s') | Inr v \<Rightarrow> False)" by simp
  qed
  show ?thesis by (rule loop_ends [OF loop]) (auto simp: userspace_cache_purge_def I_def)
qed

section \<open>Scanning the buffers\<close>

definition evictable :: "pool \<Rightarrow> addr \<Rightarrow> bool" where
  "evictable s a \<longleftrightarrow> \<not> b_in_use (buf s a) \<and> \<not> b_unmoveable (buf s a)"

text \<open>While a scan is on, the pool is as it was but for the allocator and the eviction list.\<close>

definition in_scan :: "pool \<Rightarrow> drm_mm \<Rightarrow> lheap \<Rightarrow> pool" where
  "in_scan s m h = s\<lparr>p_mm := m, p_evict_list := h\<rparr>"

lemma in_scan_simps [simp]:
  "p_bufs (in_scan s m h) = p_bufs s" "p_all_head (in_scan s m h) = p_all_head s" "p_all_list (in_scan s m h) = p_all_list s"
  "p_mru_head (in_scan s m h) = p_mru_head s" "p_mru_list (in_scan s m h) = p_mru_list s" "p_evict_head (in_scan s m h) = p_evict_head s"
  "p_evict_list (in_scan s m h) = h" "p_mm (in_scan s m h) = m" "p_line_num (in_scan s m h) = p_line_num s"
  "p_overflow (in_scan s m h) = p_overflow s" "p_stderr (in_scan s m h) = p_stderr s" "p_stdout (in_scan s m h) = p_stdout s"
  "in_scan (in_scan s m h) m' h' = in_scan s m' h'" "(in_scan s m h)\<lparr>p_mm := m'\<rparr> = in_scan s m' h"
  "(in_scan s m h)\<lparr>p_evict_list := h'\<rparr> = in_scan s m h'"
  by (simp_all add: in_scan_def)

lemma in_scan_self: "in_scan s (p_mm s) (p_evict_list s) = s"
  by (simp add: in_scan_def)

lemma pool_inv_evict_list:
  assumes "pool_inv s as ms" and "\<forall>a\<in>set as. a \<in> dom h"
  shows "pool_inv (in_scan s (p_mm s) h) as ms"
proof -
  have "paged_out_bytes (in_scan s (p_mm s) h) as ms = paged_out_bytes s as ms" by (simp add: paged_out_bytes_def cong: if_cong)
  then show ?thesis using assms by (auto simp: pool_inv_def buffer_ok_def)
qed

text \<open>
  The situation of a scan over the pool \<open>s\<close>: which allocator it started from, and that no hole had
  room for what it looks for.
\<close>

definition scan_set_up :: "pool \<Rightarrow> addr list \<Rightarrow> addr list \<Rightarrow> addr list \<Rightarrow> addr list \<Rightarrow> drm_mm_scan \<Rightarrow> lheap \<Rightarrow> bool" where
  "scan_set_up s as ms ns hs scan h \<longleftrightarrow> pool_inv s as ms \<and> mm_inv (p_mm s) ns hs \<and> mm_color_adjust (p_mm s) = None \<and>
     set ns = set ms \<and> scan_ok scan (p_mm s) \<and> set as \<subseteq> dom h"

definition no_gap_left :: "pool \<Rightarrow> drm_mm_scan \<Rightarrow> addr list \<Rightarrow> bool" where
  "no_gap_left s scan rest \<longleftrightarrow> no_gap (mm_nodes (p_mm s)) (sc_range_start scan) (sc_range_end scan) (sc_size scan) (sc_alignment scan)
     (mm_head_node (p_mm s) # rest @ [mm_head_node (p_mm s)])"

lemma scan_one_buffer:
  assumes up: "scan_set_up s as ms ns hs scan h" and x: "x \<in> set ms" "x \<notin> set roster" "evictable s x"
    and l: "is_list h (p_evict_head s) roster" and st: "scan_steps (p_mm s) ns roster rest m" and ng: "no_gap_left s scan rest"
  shows "\<exists>r. page_out_scan_body x (scan, in_scan s m h) = Some r \<and> (case r of
     Inl (scan', s') \<Rightarrow> scan' = scan \<and> (\<exists>m' h' rest'. s' = in_scan s m' h' \<and> dom h' = dom h \<and> is_list h' (p_evict_head s) (x # roster) \<and>
       scan_steps (p_mm s) ns (x # roster) rest' m' \<and> no_gap_left s scan rest')
   | Inr (scan', s') \<Rightarrow> \<exists>m' h' us vs. s' = in_scan s m' h' \<and> dom h' = dom h \<and> is_list h' (p_evict_head s) (x # roster) \<and>
       rest = us @ x # vs \<and> drm_mm_scan_add_block x (scan, m) = Some (True, scan', m'))"
proof -
  have inv: "pool_inv s as ms" and mm: "mm_inv (p_mm s) ns hs" and none: "mm_color_adjust (p_mm s) = None"
    and ns: "set ns = set ms" and ok: "scan_ok scan (p_mm s)" and dom: "set as \<subseteq> dom h"
    using up by (simp_all add: scan_set_up_def)
  note P = pool_inv_parts [OF inv]
  have cs: "colour_safe (p_mm s)" using none by (simp add: colour_safe_def colour_narrows_def adjust_colour_def)
  have xa: "x \<in> set as" using P(3) x(1) by blast
  then have "x \<in> dom h" "x \<notin> set (p_evict_head s # roster)" using dom P(6) x(2) by auto
  then obtain h' where h': "list_add x (p_evict_head s) h = Some h'" "is_list h' (p_evict_head s) (x # roster)" "dom h' = dom h"
    using list_add_front [OF l] by auto
  obtain us vs where rest: "rest = us @ x # vs" using scan_rest_split [OF st mm] x(1,2) ns by auto
  obtain m' r where m': "drm_mm_scan_add_block x (scan, m) = Some (r \<noteq> None, scan_hit scan r, m')"
    "scan_steps (p_mm s) ns (x # roster) (us @ vs) m'"
    "scan_fits scan m' (last (mm_head_node (p_mm s) # us)) (hd (vs @ [mm_head_node (p_mm s)])) r"
    using scan_add_spec [OF mm st [unfolded rest] ok cs] by blast
  obtain b where b: "p_bufs s x = Some b" using P(4) xa by auto
  have nb: "\<not> (b_in_use b \<or> b_unmoveable b)" using x(3) b by (simp add: evictable_def)
  have run: "page_out_scan_body x (scan, in_scan s m h) =
      Some (if r \<noteq> None then Inr (scan_hit scan r, in_scan s m' h') else Inl (scan_hit scan r, in_scan s m' h'))"
    using b nb h'(1) m'(1) by (simp add: page_out_scan_body_def on_evict_def)
  show ?thesis
  proof (cases r)
    case None
    have "no_gap_left s scan (us @ vs)" unfolding no_gap_left_def
      by (rule scan_miss [OF mm none m'(2) m'(3) [unfolded None]]) (use ng in \<open>simp add: no_gap_left_def rest\<close>)
    then show ?thesis using run None h' m'(2) by (auto simp: scan_hit_def)
  next
    case (Some p)
    then show ?thesis using run h' m'(1) rest by auto
  qed
qed

lemma page_out_scan:
  assumes up: "scan_set_up s as ms ns hs scan h" and h: "is_list h (p_evict_head s) []" and ng: "no_gap_left s scan ns"
  shows "\<exists>r. list_for_each_entry_safe_reverse (\<lambda>(scan, s). p_mru_list s) (p_mru_head s) page_out_scan_body (scan, in_scan s (p_mm s) h) = Some r \<and>
    (case r of
       Inl (scan', s') \<Rightarrow> scan' = scan \<and> (\<exists>m h' rest. s' = in_scan s m h' \<and> dom h' = dom h \<and>
         is_list h' (p_evict_head s) (filter (evictable s) ms) \<and>
         scan_steps (p_mm s) ns (filter (evictable s) ms) rest m \<and> no_gap_left s scan rest)
     | Inr (scan', s') \<Rightarrow> \<exists>m' h' x roster us vs m. s' = in_scan s m' h' \<and> dom h' = dom h \<and> is_list h' (p_evict_head s) (x # roster) \<and>
         set (x # roster) \<subseteq> set (filter (evictable s) ms) \<and>
         scan_steps (p_mm s) ns roster (us @ x # vs) m \<and> drm_mm_scan_add_block x (scan, m) = Some (True, scan', m'))"
proof -
  let ?ev = "filter (evictable s)"
  have inv: "pool_inv s as ms" using up by (simp add: scan_set_up_def)
  note P = pool_inv_parts [OF inv]
  define I where "I = (\<lambda>xs (sc :: drm_mm_scan, t :: pool). \<exists>pre m h' rest. rev ms = pre @ xs \<and> sc = scan \<and> t = in_scan s m h' \<and> dom h' = dom h \<and>
    is_list h' (p_evict_head s) (rev (?ev pre)) \<and> scan_steps (p_mm s) ns (rev (?ev pre)) rest m \<and> no_gap_left s scan rest)"
  define Q where "Q = (\<lambda>(scan', s'). \<exists>m' h' x roster us vs m. s' = in_scan s m' h' \<and> dom h' = dom h \<and> is_list h' (p_evict_head s) (x # roster) \<and>
         set (x # roster) \<subseteq> set (?ev ms) \<and>
         scan_steps (p_mm s) ns roster (us @ x # vs) m \<and> drm_mm_scan_add_block x (scan, m) = Some (True, scan', m'))"
  have "\<exists>r. list_for_each_entry_safe_reverse (\<lambda>(scan, s). p_mru_list s) (p_mru_head s) page_out_scan_body (scan, in_scan s (p_mm s) h) = Some r \<and>
    (case r of Inl st \<Rightarrow> I [] st | Inr v \<Rightarrow> Q v)"
  proof (rule list_for_each_entry_safe_reverse_rule [where xs = ms])
    show "I (rev ms) (scan, in_scan s (p_mm s) h)" unfolding I_def using h scan_start ng by fastforce
    show "is_list (case (scan, in_scan s (p_mm s) h) of (scan, s) \<Rightarrow> p_mru_list s) (p_mru_head s) ms" using P(2) by simp
    fix x ys st
    assume I: "I (x # ys) st" and path: "prev_path (case st of (scan, s) \<Rightarrow> p_mru_list s) (p_mru_head s # rev ys @ [x])"
    obtain pre m h' rest where J: "rev ms = pre @ x # ys" "st = (scan, in_scan s m h')" "dom h' = dom h"
      "is_list h' (p_evict_head s) (rev (?ev pre))" "scan_steps (p_mm s) ns (rev (?ev pre)) rest m" "no_gap_left s scan rest"
      using I unfolding I_def by auto
    have "set ms = set pre \<union> insert x (set ys)" using arg_cong [OF J(1), of set] by simp
    moreover have "distinct (pre @ x # ys)" unfolding J(1) [symmetric] using P(10) by simp
    ultimately have e: "set pre \<subseteq> set ms" "x \<in> set ms" "x \<notin> set pre" by auto
    have links: "prev_path (p_mru_list s) (p_mru_head s # rev ys) \<and> p_mru_head s \<in> dom (p_mru_list s)"
    proof -
      have "prev_path (p_mru_list s) ((p_mru_head s # rev ys) @ [x])" using path J(2) by simp
      then have "prev_path (p_mru_list s) (p_mru_head s # rev ys)" by (rule prev_path_prefix)
      then show ?thesis using is_list_dom [OF P(2)] by simp
    qed
    have up': "scan_set_up s as ms ns hs scan h'" using up J(3) by (simp add: scan_set_up_def)
    have "\<exists>r. page_out_scan_body x st = Some r \<and> (case r of Inl s' \<Rightarrow> I ys s' \<and> (\<exists>m h. snd s' = in_scan s m h) | Inr v \<Rightarrow> Q v)"
    proof (cases "evictable s x")
      case False
      obtain b where b: "p_bufs s x = Some b" using P(3,4) e(2) by auto
      have "I ys st" unfolding I_def J(2) using J False by (intro case_prodI exI [of _ "pre @ [x]"] exI [of _ m] exI [of _ h'] exI [of _ rest]) auto
      then show ?thesis using b False by (simp add: page_out_scan_body_def J(2) evictable_def) blast
    next
      case True
      obtain r where r: "page_out_scan_body x (scan, in_scan s m h') = Some r" and cases: "case r of
          Inl (scan', s') \<Rightarrow> scan' = scan \<and> (\<exists>m' h'' rest'. s' = in_scan s m' h'' \<and> dom h'' = dom h' \<and> is_list h'' (p_evict_head s) (x # rev (?ev pre)) \<and>
             scan_steps (p_mm s) ns (x # rev (?ev pre)) rest' m' \<and> no_gap_left s scan rest')
        | Inr (scan', s') \<Rightarrow> \<exists>m' h'' us vs. s' = in_scan s m' h'' \<and> dom h'' = dom h' \<and> is_list h'' (p_evict_head s) (x # rev (?ev pre)) \<and>
             rest = us @ x # vs \<and> drm_mm_scan_add_block x (scan, m) = Some (True, scan', m')"
        using scan_one_buffer [OF up' e(2) _ True J(4,5,6)] e(3) by auto
      show ?thesis
      proof (cases r)
        case (Inl st')
        then obtain m' h'' rest' where st': "st' = (scan, in_scan s m' h'')" "dom h'' = dom h" "is_list h'' (p_evict_head s) (x # rev (?ev pre))"
          "scan_steps (p_mm s) ns (x # rev (?ev pre)) rest' m'" "no_gap_left s scan rest'" using cases J(3) by auto
        have "I ys st'" unfolding I_def st'(1)
          by (intro case_prodI exI [of _ "pre @ [x]"] exI [of _ m'] exI [of _ h''] exI [of _ rest']) (use J(1) True st' in simp)
        then show ?thesis using r Inl J(2) st'(1) by auto
      next
        case (Inr v)
        then obtain scan' m' h'' us vs where v: "v = (scan', in_scan s m' h'')" "dom h'' = dom h" "is_list h'' (p_evict_head s) (x # rev (?ev pre))"
          "rest = us @ x # vs" "drm_mm_scan_add_block x (scan, m) = Some (True, scan', m')" using cases J(3) by auto
        have "Q v" unfolding Q_def v(1)
          by (intro case_prodI exI [of _ m'] exI [of _ h''] exI [of _ x] exI [of _ "rev (?ev pre)"] exI [of _ us] exI [of _ vs] exI [of _ m])
            (use v J(5) e True in auto)
        then show ?thesis using r Inr J(2) by auto
      qed
    qed
    then obtain r where r: "page_out_scan_body x st = Some r" "case r of Inl s' \<Rightarrow> I ys s' \<and> (\<exists>m h. snd s' = in_scan s m h) | Inr v \<Rightarrow> Q v" by blast
    then show "\<exists>r. page_out_scan_body x st = Some r \<and> (case r of
        Inl s' \<Rightarrow> I ys s' \<and> prev_path (case s' of (scan, s) \<Rightarrow> p_mru_list s) (p_mru_head s # rev ys) \<and>
          p_mru_head s \<in> dom (case s' of (scan, s) \<Rightarrow> p_mru_list s) | Inr v \<Rightarrow> Q v)"
      using links by (intro exI [of _ r]) (auto split: sum.splits)
  qed
  then show ?thesis
  proof (rule loop_ends)
    fix st assume "list_for_each_entry_safe_reverse (\<lambda>(scan, s). p_mru_list s) (p_mru_head s) page_out_scan_body (scan, in_scan s (p_mm s) h) = Some (Inl st)"
      "I [] st"
    moreover have "rev (?ev (rev ms)) = ?ev ms" by (simp add: rev_filter)
    ultimately show ?thesis unfolding I_def by fastforce
  next
    fix v assume "list_for_each_entry_safe_reverse (\<lambda>(scan, s). p_mru_list s) (p_mru_head s) page_out_scan_body (scan, in_scan s (p_mm s) h) = Some (Inr v)"
      "Q v"
    then show ?thesis unfolding Q_def by auto
  qed
qed

section \<open>Ending a scan\<close>

lemma page_out_undo:
  assumes mm: "mm_inv (p_mm s) ns hs" and ok: "sc_mm scan = mm_self (p_mm s)" and st: "scan_steps (p_mm s) ns roster rest m"
    and h: "is_list h (p_evict_head s) roster" and miss: "\<And>x. \<not> scan_overlaps scan (p_mm s) x"
  shows "list_for_each_entry p_evict_list (p_evict_head s) (page_out_undo_body scan) (in_scan s m h) = Some (Inl (in_scan s (p_mm s) h))"
proof -
  define I where "I = (\<lambda>xs t. \<exists>m rest. t = in_scan s m h \<and> scan_steps (p_mm s) ns xs rest m)"
  have loop: "\<exists>r. list_for_each_entry p_evict_list (p_evict_head s) (page_out_undo_body scan) (in_scan s m h) = Some r \<and>
      (case r of Inl t \<Rightarrow> I [] t | Inr v \<Rightarrow> False)"
  proof (rule list_for_each_entry_rule [where xs = roster])
    show "I roster (in_scan s m h)" "is_list (p_evict_list (in_scan s m h)) (p_evict_head s) roster" using st h by (auto simp: I_def)
    fix x ys t assume "I (x # ys) t" and path: "next_path (p_evict_list t) (x # ys @ [p_evict_head s])"
    then obtain m rest where t: "t = in_scan s m h" "scan_steps (p_mm s) ns (x # ys) rest m" by (auto simp: I_def)
    obtain us vs m' where m': "scan_steps (p_mm s) ns ys (us @ x # vs) m'" "drm_mm_scan_remove_block x (scan, m) = Some (False, m')"
      using scan_remove_spec [OF mm t(2) ok] miss by auto
    then have "page_out_undo_body scan x t = Some (Inl (in_scan s m' h))" by (simp add: page_out_undo_body_def t(1))
    then show "\<exists>r. page_out_undo_body scan x t = Some r \<and> (case r of Inl s' \<Rightarrow> I ys s' \<and>
        next_path (p_evict_list s') (x # ys @ [p_evict_head s]) | Inr v \<Rightarrow> False)"
      using m'(1) path t(1) by (auto simp: I_def)
  qed
  show ?thesis by (rule loop_ends [OF loop]) (auto simp: I_def dest!: scan_steps_back)
qed

lemma page_out_select:
  assumes mm: "mm_inv (p_mm s) ns hs" and ok: "sc_mm scan = mm_self (p_mm s)" and st: "scan_steps (p_mm s) ns roster rest m"
    and h: "is_list h (p_evict_head s) roster"
  shows "\<exists>h'. list_for_each_entry_safe p_evict_list (p_evict_head s) (page_out_select_body scan) (in_scan s m h) =
      Some (Inl (in_scan s (p_mm s) h')) \<and> dom h' = dom h \<and> is_list h' (p_evict_head s) (filter (scan_overlaps scan (p_mm s)) roster)"
proof -
  let ?f = "filter (scan_overlaps scan (p_mm s))"
  define I where "I = (\<lambda>xs t. \<exists>pre m h' rest. roster = pre @ xs \<and> t = in_scan s m h' \<and> dom h' = dom h \<and>
    scan_steps (p_mm s) ns xs rest m \<and> is_list h' (p_evict_head s) (?f pre @ xs))"
  have loop: "\<exists>r. list_for_each_entry_safe p_evict_list (p_evict_head s) (page_out_select_body scan) (in_scan s m h) = Some r \<and>
      (case r of Inl t \<Rightarrow> I [] t | Inr v \<Rightarrow> False)"
  proof (rule list_for_each_entry_safe_rule [where xs = roster])
    show "I roster (in_scan s m h)" unfolding I_def using st h by (intro exI [of _ "[]"] exI [of _ m] exI [of _ h] exI [of _ rest]) simp
    show "is_list (p_evict_list (in_scan s m h)) (p_evict_head s) roster" using h by simp
    fix x ys t assume "I (x # ys) t"
    then obtain pre m h' rest where t: "roster = pre @ x # ys" "t = in_scan s m h'" "dom h' = dom h"
      "scan_steps (p_mm s) ns (x # ys) rest m" "is_list h' (p_evict_head s) (?f pre @ x # ys)" by (auto simp: I_def)
    let ?o = "scan_overlaps scan (p_mm s) x"
    obtain us vs m' where m': "scan_steps (p_mm s) ns ys (us @ x # vs) m'" "drm_mm_scan_remove_block x (scan, m) = Some (?o, m')"
      using scan_remove_spec [OF mm t(4) ok] by auto
    obtain h'' where h'': "c_when (\<not> ?o) (on_evict (list_del x)) (in_scan s m' h') = Some (in_scan s m' h'')" "dom h'' = dom h"
      "is_list h'' (p_evict_head s) (?f (pre @ [x]) @ ys)"
    proof (cases ?o)
      case True
      then show ?thesis using that [of h'] t(3,5) by (simp add: c_when_def)
    next
      case False
      obtain h'' where "list_del x h' = Some h''" "is_list h'' (p_evict_head s) (?f pre @ ys)" "dom h'' = dom h'"
        using list_del_spec [OF t(5)] by auto
      then show ?thesis using that [of h''] False t(3) by (simp add: c_when_def on_evict_def)
    qed
    have "page_out_select_body scan x t = Some (Inl (in_scan s m' h''))"
      using m'(2) h''(1) by (simp add: page_out_select_body_def t(2))
    moreover have "I ys (in_scan s m' h'')" unfolding I_def
      by (intro exI [of _ "pre @ [x]"] exI [of _ m'] exI [of _ h''] exI [of _ "us @ x # vs"]) (use t(1) m'(1) h'' in simp)
    ultimately show "\<exists>r. page_out_select_body scan x t = Some r \<and> (case r of Inl s' \<Rightarrow> I ys s' \<and>
        next_path (p_evict_list s') (ys @ [p_evict_head s]) \<and> p_evict_head s \<in> dom (p_evict_list s') | Inr v \<Rightarrow> False)"
      using is_list_tail [OF h''(3)] by simp
  qed
  show ?thesis by (rule loop_ends [OF loop]) (auto simp: I_def dest!: scan_steps_back)
qed

lemma evict_all_append: "evict_all (xs @ ys) s = do { s \<leftarrow> evict_all xs s; evict_all ys s }"
proof (induction xs arbitrary: s)
  case (Cons a xs)
  then show ?case by (cases "drm_mm_remove_node a s") simp_all
qed simp

lemma page_out_remove:
  assumes inv: "pool_inv s as ms" and l: "is_list (p_evict_list s) (p_evict_head s) es" and sub: "set es \<subseteq> set ms"
  shows "\<exists>s'. list_for_each_entry p_evict_list (p_evict_head s) page_out_remove_body s = Some (Inl s') \<and>
    pool_inv s' as (filter (\<lambda>b. b \<notin> set es) ms) \<and> pool_frame s s' \<and> stay (filter (\<lambda>b. b \<notin> set es) ms) s s' \<and>
    evict_all es (p_mm s) = Some (p_mm s')"
proof -
  let ?k = "\<lambda>pre. filter (\<lambda>b. b \<notin> set pre) ms"
  have d: "distinct es" using l by (simp add: is_list_def)
  define I where "I = (\<lambda>xs t. \<exists>pre. es = pre @ xs \<and> pool_inv t as (?k pre) \<and> pool_frame s t \<and> stay (?k pre) s t \<and>
    evict_all pre (p_mm s) = Some (p_mm t) \<and> p_evict_list t = p_evict_list s)"
  have loop: "\<exists>r. list_for_each_entry p_evict_list (p_evict_head s) page_out_remove_body s = Some r \<and>
      (case r of Inl t \<Rightarrow> I [] t | Inr v \<Rightarrow> False)"
  proof (rule list_for_each_entry_rule [where xs = es])
    show "I es s" unfolding I_def by (rule exI [of _ "[]"]) (simp add: inv pool_frame_refl stay_refl)
    show "is_list (p_evict_list s) (p_evict_head s) es" by (rule l)
    fix x ys t assume "I (x # ys) t" and path: "next_path (p_evict_list t) (x # ys @ [p_evict_head s])"
    then obtain pre where t: "es = pre @ x # ys" "pool_inv t as (?k pre)" "pool_frame s t" "stay (?k pre) s t"
      "evict_all pre (p_mm s) = Some (p_mm t)" "p_evict_list t = p_evict_list s" by (auto simp: I_def)
    have "x \<in> set (?k pre)" using sub d t(1) by auto
    then obtain us vs where k: "?k pre = us @ x # vs" by (meson split_list)
    have "distinct (?k pre)" using pool_inv_parts(10) [OF inv] by simp
    then have "x \<notin> set us" "x \<notin> set vs" unfolding k by auto
    then have "filter (\<lambda>b. b \<noteq> x) us = us" "filter (\<lambda>b. b \<noteq> x) vs = vs" by (auto simp: filter_id_conv)
    moreover have "?k (pre @ [x]) = filter (\<lambda>b. b \<noteq> x) (?k pre)" by (simp add: conj_commute)
    ultimately have "?k (pre @ [x]) = us @ vs" unfolding k by simp
    then have k': "filter (\<lambda>b. b \<noteq> x \<and> b \<notin> set pre) ms = us @ vs" by simp
    obtain t' where t': "remove_buffer_from_pool x t = Some t'" "pool_inv t' as (us @ vs)" "pool_frame t t'"
      "drm_mm_remove_node x (p_mm t) = Some (p_mm t')" "p_evict_list t' = p_evict_list t" "stay (us @ vs) t t'"
      using remove_buffer_spec [OF t(2) [unfolded k]] by blast
    have "stay (us @ vs) s t'" by (rule stay_trans [OF t(4) t'(6)]) (auto simp: k)
    moreover have "evict_all (pre @ [x]) (p_mm s) = Some (p_mm t')" using t(5) t'(4) by (simp add: evict_all_append)
    ultimately have "I ys t'" unfolding I_def
      using t(1,6) t'(2,5) pool_frame_trans [OF t(3) t'(3)] by (intro exI [of _ "pre @ [x]"]) (simp add: k' del: filter_append)
    moreover have "page_out_remove_body x t = Some (Inl t')" using t'(1) by (simp add: page_out_remove_body_def)
    ultimately show "\<exists>r. page_out_remove_body x t = Some r \<and> (case r of Inl s' \<Rightarrow> I ys s' \<and>
        next_path (p_evict_list s') (x # ys @ [p_evict_head s]) | Inr v \<Rightarrow> False)"
      using path t(6) t'(5) by simp
  qed
  show ?thesis by (rule loop_ends [OF loop]) (auto simp: I_def)
qed

section \<open>page_out_buffers_for_insertion\<close>

lemma evict_mode: "DRM_MM_INSERT_EVICT AND DRM_MM_INSERT_ONCE = 0" "DRM_MM_INSERT_BEST AND DRM_MM_INSERT_ONCE = 0"
  by (simp_all add: mode_defs)

lemma no_room_no_gap:
  assumes inv: "pool_inv s as ms" and mm: "mm_inv (p_mm s) ns hs" "mm_color_adjust (p_mm s) = None" "set ns = set ms"
    and full: "\<not> has_room s ms (sc_size scan)"
    and scan: "sc_alignment scan = PAGE_SIZE"
  shows "no_gap_left s scan ns"
proof -
  have "no_place (p_mm s) 0 (sc_range_start scan) (sc_range_end scan) (sc_size scan) PAGE_SIZE (mm_head_node (p_mm s) # ns)"
    unfolding no_place_def
  proof (intro ballI allI notI)
    fix c q assume c: "c \<in> set (mm_head_node (p_mm s) # ns)"
      and "place_in (p_mm s) 0 (sc_range_start scan) (sc_range_end scan) (sc_size scan) PAGE_SIZE c q"
    then have "place_in (p_mm s) 0 0 U64_MAX (sc_size scan) PAGE_SIZE c q" by (simp add: place_in_def place_ok_def)
    then show False using full c mm(3) unfolding has_room_def by auto
  qed
  then show ?thesis unfolding no_gap_left_def scan mm_inv_no_gap [OF mm(1,2), of _ _ _ _ 0] .
qed

lemma no_gap_no_free_place:
  assumes inv: "pool_inv s as ms" and ng: "no_gap_left s scan rest"
    and scan: "sc_alignment scan = PAGE_SIZE" "sc_range_start scan = 0" "sc_range_end scan = VC4_CMA_POOL_SIZE"
  shows "\<not> free_place s rest (sc_size scan) q"
proof
  assume q: "free_place s rest (sc_size scan) q"
  obtain ns where ok: "mm_ok 0 VC4_CMA_POOL_SIZE (p_mm s) ns" by (rule pool_inv_mm [OF inv])
  show False
    by (rule gap_pair [OF ng [unfolded no_gap_left_def], of q]) (use q ok scan in \<open>auto simp: place_ok_def free_place_def mm_ok_def\<close>)
qed

text \<open>The scan as \<open>page_out_buffers_for_insertion\<close> starts it.\<close>

lemma page_out_scan_init:
  assumes mm: "mm_inv m ns hs" and bs: "sz \<noteq> 0" "sz \<le> VC4_CMA_POOL_SIZE"
  shows "\<exists>scan. drm_mm_scan_init_with_range sz PAGE_SIZE 0 0 VC4_CMA_POOL_SIZE DRM_MM_INSERT_BEST m = Some scan \<and> scan_ok scan m \<and>
    sc_size scan = sz \<and> sc_alignment scan = PAGE_SIZE \<and> sc_range_start scan = 0 \<and> sc_range_end scan = VC4_CMA_POOL_SIZE \<and>
    sc_hit_start scan = U64_MAX \<and> sc_hit_end scan = 0 \<and> sc_mm scan = mm_self m"
proof -
  obtain scan where scan: "drm_mm_scan_init_with_range sz PAGE_SIZE 0 0 VC4_CMA_POOL_SIZE DRM_MM_INSERT_BEST m = Some scan"
    using bs mm by (auto simp: scan_init_eq mm_inv_def VC4_CMA_POOL_SIZE_def)
  moreover have "scan_ok scan m" by (rule scan_init_ok [OF scan])
  ultimately show ?thesis using page_size_gt by (auto simp: scan_init_eq)
qed

text \<open>The scan found a hole: once the buffers that overlap it are gone, the new one fits.\<close>

lemma evicted_has_room:
  assumes a: "a \<in> set as" "a \<notin> set ms'" "live (p_mm s) a" "a \<notin> set (mm_head_node (p_mm s) # ns)" "\<not> nd_scanned_block (the (mm_nodes (p_mm s) a))"
    and mm: "mm_inv (p_mm s) ns hs" "mm_color_adjust (p_mm s) = None"
    and scan: "scan_ok scan (p_mm s)" "sc_alignment scan = PAGE_SIZE" "sc_size scan = b_size (buf s a)"
    and st: "scan_steps (p_mm s) ns roster (us @ x # vs) m" "drm_mm_scan_add_block x (scan, m) = Some (True, scan', m')"
    and s': "evict_all (filter (scan_overlaps scan' (p_mm s)) (x # roster)) (p_mm s) = Some (p_mm s')" "pool_inv s' as ms'" "pool_frame s s'"
  shows "has_room s' ms' (b_size (buf s a))"
proof -
  have "sc_alignment scan = (if PAGE_SIZE \<le> 1 then 0 else PAGE_SIZE)"
    unfolding scan(2) using not_le [THEN iffD2, OF page_size_gt] by (rule if_not_P [symmetric])
  from evict_and_insert [OF mm st(1) scan(1) st(2) a(3-5) _ _ _ evict_mode(1) this, of 0 U64_MAX 0]
  obtain s4 where "drm_mm_insert_node_in_range a (b_size (buf s a)) PAGE_SIZE 0 0 U64_MAX DRM_MM_INSERT_EVICT (p_mm s') = Some (0, s4)"
    using s'(1) scan(3) by (auto simp del: filter.simps)
  then have "drm_mm_insert_node_generic a (b_size (buf s a)) PAGE_SIZE 0 DRM_MM_INSERT_EVICT (p_mm s') = Some (0, s4)"
    by (simp add: drm_mm_insert_node_generic_def)
  moreover have "b_size (buf s' a) = b_size (buf s a)" using pool_frame_fields(2) [OF s'(3)] by simp
  moreover obtain t where "insert_buffer_in_cma_pool a DRM_MM_INSERT_EVICT s' = Some (has_room s' ms' (b_size (buf s' a)), t)"
    using insert_buffer_spec [OF s'(2) a(1,2) evict_mode(1)] by blast
  ultimately show ?thesis by (auto simp: insert_buffer_in_cma_pool_def split: bind_splits)
qed

text \<open>The two ways the scan can end, and what the rest of the function makes of each.\<close>

lemma page_out_none:
  assumes up: "scan_set_up s as ms ns hs scan h" and st: "scan_steps (p_mm s) ns (filter (evictable s) ms) rest m" "no_gap_left s scan rest"
    and h': "dom h' = dom h" "is_list h' (p_evict_head s) (filter (evictable s) ms)" and ns: "set ns = set ms"
    and sc: "sc_alignment scan = PAGE_SIZE" "sc_range_start scan = 0" "sc_range_end scan = VC4_CMA_POOL_SIZE"
      "sc_hit_start scan = U64_MAX" "sc_hit_end scan = 0" "sc_mm scan = mm_self (p_mm s)"
  shows "list_for_each_entry p_evict_list (p_evict_head s) (page_out_undo_body scan) (in_scan s m h') = Some (Inl (in_scan s (p_mm s) h'))"
    and "pool_inv (in_scan s (p_mm s) h') as ms"
    and "\<not> free_place s (filter (\<lambda>b. \<not> evictable s b) ms) (sc_size scan) q"
proof -
  have inv: "pool_inv s as ms" and mm: "mm_inv (p_mm s) ns hs" and dom: "set as \<subseteq> dom h" using up by (simp_all add: scan_set_up_def)
  show "list_for_each_entry p_evict_list (p_evict_head s) (page_out_undo_body scan) (in_scan s m h') = Some (Inl (in_scan s (p_mm s) h'))"
    by (rule page_out_undo [OF mm sc(6) st(1) h'(2)]) (rule no_hit_no_overlap [OF sc(4,5)])
  show "pool_inv (in_scan s (p_mm s) h') as ms" by (rule pool_inv_evict_list [OF inv]) (use dom h'(1) in auto)
  have "set rest = set (filter (\<lambda>b. \<not> evictable s b) ms)" using scan_steps_facts [OF st(1) mm] ns by auto
  then have "free_place s (filter (\<lambda>b. \<not> evictable s b) ms) (sc_size scan) q = free_place s rest (sc_size scan) q" by (simp add: free_place_def)
  then show "\<not> free_place s (filter (\<lambda>b. \<not> evictable s b) ms) (sc_size scan) q" using no_gap_no_free_place [OF inv st(2) sc(1-3)] by simp
qed

lemma page_out_some:
  assumes up: "scan_set_up s as ms ns hs scan h" and sub: "set (x # roster) \<subseteq> set ms"
    and h': "dom h' = dom h" "is_list h' (p_evict_head s) (x # roster)"
    and st: "scan_steps (p_mm s) ns roster (us @ x # vs) m" "drm_mm_scan_add_block x (scan, m) = Some (True, scan', m')"
    and mine: "sc_mm scan = mm_self (p_mm s)"
  defines "es \<equiv> filter (scan_overlaps scan' (p_mm s)) (x # roster)"
  shows "\<exists>h'' s'. list_for_each_entry_safe p_evict_list (p_evict_head s) (page_out_select_body scan') (in_scan s m' h') =
      Some (Inl (in_scan s (p_mm s) h'')) \<and>
    list_for_each_entry p_evict_list (p_evict_head s) page_out_remove_body (in_scan s (p_mm s) h'') = Some (Inl s') \<and>
    pool_inv s' as (filter (\<lambda>b. b \<notin> set es) ms) \<and> pool_frame s s' \<and> stay (filter (\<lambda>b. b \<notin> set es) ms) s s' \<and>
    evict_all es (p_mm s) = Some (p_mm s')"
proof -
  have inv: "pool_inv s as ms" and mm: "mm_inv (p_mm s) ns hs" and none: "mm_color_adjust (p_mm s) = None" and sok: "scan_ok scan (p_mm s)"
    and dom: "set as \<subseteq> dom h" using up by (simp_all add: scan_set_up_def)
  have cs: "colour_safe (p_mm s)" using none by (simp add: colour_safe_def colour_narrows_def adjust_colour_def)
  have st': "scan_steps (p_mm s) ns (x # roster) (us @ vs) m'" "sc_mm scan' = mm_self (p_mm s)"
    using scan_add_spec [OF mm st(1) sok cs] st(2) mine by auto
  obtain h'' where sel: "list_for_each_entry_safe p_evict_list (p_evict_head s) (page_out_select_body scan') (in_scan s m' h') =
      Some (Inl (in_scan s (p_mm s) h''))" "dom h'' = dom h'" "is_list h'' (p_evict_head s) es"
    using page_out_select [OF mm st'(2,1) h'(2)] unfolding es_def by blast
  have es: "set es \<subseteq> set ms" using sub unfolding es_def by auto
  have inv': "pool_inv (in_scan s (p_mm s) h'') as ms" by (rule pool_inv_evict_list [OF inv]) (use dom h'(1) sel(2) in auto)
  obtain s' where s': "list_for_each_entry p_evict_list (p_evict_head s) page_out_remove_body (in_scan s (p_mm s) h'') = Some (Inl s')"
    "pool_inv s' as (filter (\<lambda>b. b \<notin> set es) ms)" "pool_frame (in_scan s (p_mm s) h'') s'"
    "stay (filter (\<lambda>b. b \<notin> set es) ms) (in_scan s (p_mm s) h'') s'" "evict_all es (p_mm s) = Some (p_mm s')"
    using page_out_remove [OF inv', of es] sel(3) es by auto
  have "pool_frame s s'" by (rule pool_frame_trans [OF _ s'(3)]) (simp add: pool_frame_def)
  moreover have "stay (filter (\<lambda>b. b \<notin> set es) ms) s s'" using s'(4) by (simp add: stay_def)
  ultimately show ?thesis using sel(1) s'(1,2,5) by blast
qed

lemma page_out_spec:
  assumes inv: "pool_inv s as ms" and a: "a \<in> set as" "a \<notin> set ms" and sz: "sz = b_size (buf s a)" and full: "\<not> has_room s ms sz"
    and bs: "sz \<noteq> 0" "sz \<le> VC4_CMA_POOL_SIZE"
  shows "\<exists>found s'. page_out_buffers_for_insertion sz s = Some (found, s') \<and> pool_frame s s' \<and>
    (found \<longleftrightarrow> (\<exists>q. free_place s (filter (\<lambda>b. \<not> evictable s b) ms) sz q)) \<and>
    (if found then \<exists>es. set es \<subseteq> set (filter (evictable s) ms) \<and> pool_inv s' as (filter (\<lambda>b. b \<notin> set es) ms) \<and>
        stay (filter (\<lambda>b. b \<notin> set es) ms) s s' \<and> has_room s' (filter (\<lambda>b. b \<notin> set es) ms) sz
     else pool_inv s' as ms \<and> p_mm s' = p_mm s)"
proof -
  let ?ev = "filter (evictable s) ms" and ?E = "p_evict_head s"
  note P = pool_inv_parts [OF inv]
  obtain ns hs where ok: "mm_ok 0 VC4_CMA_POOL_SIZE (p_mm s) ns" and mm: "mm_inv (p_mm s) ns hs" and ns: "set ns = set ms"
    and none: "mm_color_adjust (p_mm s) = None" by (rule pool_inv_mm [OF inv])
  obtain scan where scan: "drm_mm_scan_init_with_range sz PAGE_SIZE 0 0 VC4_CMA_POOL_SIZE DRM_MM_INSERT_BEST (p_mm s) = Some scan"
    "scan_ok scan (p_mm s)"
    and sc: "sc_size scan = sz" "sc_alignment scan = PAGE_SIZE" "sc_range_start scan = 0" "sc_range_end scan = VC4_CMA_POOL_SIZE"
      "sc_hit_start scan = U64_MAX" "sc_hit_end scan = 0" "sc_mm scan = mm_self (p_mm s)" using page_out_scan_init [OF mm bs] by blast
  obtain h where h: "INIT_LIST_HEAD ?E ((p_evict_list s)(?E \<mapsto> zero_list_head)) = Some h" "is_list h ?E []"
    "dom h = insert ?E (dom (p_evict_list s))"
    using INIT_LIST_HEAD_spec [of ?E "(p_evict_list s)(?E \<mapsto> zero_list_head)"] by auto
  have "set as \<subseteq> dom h" using h(3) P(5) by (auto simp: buffer_ok_def)
  then have up: "scan_set_up s as ms ns hs scan h" using inv mm none ns scan(2) by (simp add: scan_set_up_def)
  have ng: "no_gap_left s scan ns" by (rule no_room_no_gap [OF inv mm none ns _ sc(2)]) (use full sc(1) in simp)
  have run: "page_out_buffers_for_insertion sz s = do {
     r \<leftarrow> list_for_each_entry_safe_reverse (\<lambda>(scan, s). p_mru_list s) (p_mru_head s) page_out_scan_body (scan, in_scan s (p_mm s) h);
     case r of
       Inl (scan, s) \<Rightarrow> do {
         r \<leftarrow> list_for_each_entry p_evict_list (p_evict_head s) (page_out_undo_body scan) s;
         case r of Inl s \<Rightarrow> Some (False, s) | Inr _ \<Rightarrow> None
       }
     | Inr (scan, s) \<Rightarrow> do {
         r \<leftarrow> list_for_each_entry_safe p_evict_list (p_evict_head s) (page_out_select_body scan) s;
         case r of Inr _ \<Rightarrow> None | Inl s \<Rightarrow> do {
           r \<leftarrow> list_for_each_entry p_evict_list (p_evict_head s) page_out_remove_body s;
           case r of Inl s \<Rightarrow> Some (True, s) | Inr _ \<Rightarrow> None
         }
       }
    }"
    using scan(1) h(1) by (simp add: page_out_buffers_for_insertion_def on_evict_def in_scan_def)
  show ?thesis
  proof (rule loop_ends [OF page_out_scan [OF up h(2) ng]])
    fix st assume loop: "list_for_each_entry_safe_reverse (\<lambda>(scan, s). p_mru_list s) (p_mru_head s) page_out_scan_body (scan, in_scan s (p_mm s) h) = Some (Inl st)"
      and "case st of (scan', s') \<Rightarrow> scan' = scan \<and> (\<exists>m h' rest. s' = in_scan s m h' \<and> dom h' = dom h \<and>
         is_list h' ?E ?ev \<and> scan_steps (p_mm s) ns ?ev rest m \<and> no_gap_left s scan rest)"
    then obtain m h' rest where st: "st = (scan, in_scan s m h')" "dom h' = dom h" "is_list h' ?E ?ev" "scan_steps (p_mm s) ns ?ev rest m"
      "no_gap_left s scan rest" by (cases st) auto
    note n = page_out_none [OF up st(4,5,2,3) ns sc(2-7)]
    have "page_out_buffers_for_insertion sz s = Some (False, in_scan s (p_mm s) h')" using run loop st(1) n(1) by simp
    moreover have "pool_frame s (in_scan s (p_mm s) h')" by (simp add: pool_frame_def)
    ultimately show ?thesis using n(2,3) sc(1) by (intro exI [of _ False] exI [of _ "in_scan s (p_mm s) h'"]) simp
  next
    fix v assume loop: "list_for_each_entry_safe_reverse (\<lambda>(scan, s). p_mru_list s) (p_mru_head s) page_out_scan_body (scan, in_scan s (p_mm s) h) = Some (Inr v)"
      and "case v of (scan', s') \<Rightarrow> \<exists>m' h' x roster us vs m. s' = in_scan s m' h' \<and> dom h' = dom h \<and> is_list h' ?E (x # roster) \<and>
         set (x # roster) \<subseteq> set ?ev \<and> scan_steps (p_mm s) ns roster (us @ x # vs) m \<and> drm_mm_scan_add_block x (scan, m) = Some (True, scan', m')"
    then obtain scan' m' h' x roster us vs m where v: "v = (scan', in_scan s m' h')" "dom h' = dom h" "is_list h' ?E (x # roster)"
      "set (x # roster) \<subseteq> set ?ev" "scan_steps (p_mm s) ns roster (us @ x # vs) m" "drm_mm_scan_add_block x (scan, m) = Some (True, scan', m')"
      by (cases v) auto
    define es where "es = filter (scan_overlaps scan' (p_mm s)) (x # roster)"
    let ?ms = "filter (\<lambda>b. b \<notin> set es) ms"
    have es: "set es \<subseteq> set ?ev" using v(4) unfolding es_def by auto
    obtain h'' s' where s': "list_for_each_entry_safe p_evict_list ?E (page_out_select_body scan') (in_scan s m' h') = Some (Inl (in_scan s (p_mm s) h''))"
      "list_for_each_entry p_evict_list ?E page_out_remove_body (in_scan s (p_mm s) h'') = Some (Inl s')"
      "pool_inv s' as ?ms" "pool_frame s s'" "stay ?ms s s'" "evict_all es (p_mm s) = Some (p_mm s')"
      using page_out_some [OF up _ v(2,3,5,6) sc(7)] v(4) unfolding es_def by fastforce
    have r: "page_out_buffers_for_insertion sz s = Some (True, s')" using run loop v(1) s'(1,2) by simp
    have "idle (p_mm s) a" using mm_ok_busy(2) [OF ok] P(5) a ns by (auto simp: buffer_ok_def)
    note idle = mm_ok_busy(2,3) [OF ok] this
    have room: "has_room s' ?ms sz" unfolding sz
      by (rule evicted_has_room [OF a(1) _ _ _ _ mm none scan(2) sc(2) _ v(5,6) s'(6) [unfolded es_def] s'(3,4)])
        (use idle a(2) sc(1) sz in auto)
    then obtain q where "free_place s' ?ms sz q" using has_room_iff [OF s'(3)] by blast
    then have "free_place s ?ms sz q" using free_place_stay [OF s'(5)] by simp
    then have "free_place s (filter (\<lambda>b. \<not> evictable s b) ms) sz q" by (rule free_place_mono) (use es in auto)
    then show ?thesis using r es s'(3-5) room by auto
  qed
qed

end
