(* ===== verification/Pool_Page.thy ===== *)
theory Pool_Page
  imports Pool_Evict
begin

text \<open>
  What \<open>page_in_buffer\<close> promises, over the abstract view of the pool: the buffers in it and the
  intervals they occupy.
\<close>

section \<open>Small facts on messages and evictable buffers\<close>

lemma warn_simps [simp]:
  "p_bufs (warn m s) = p_bufs s" "p_all_head (warn m s) = p_all_head s" "p_all_list (warn m s) = p_all_list s"
  "p_mru_head (warn m s) = p_mru_head s" "p_mru_list (warn m s) = p_mru_list s" "p_evict_head (warn m s) = p_evict_head s"
  "p_evict_list (warn m s) = p_evict_list s" "p_mm (warn m s) = p_mm s" "p_line_num (warn m s) = p_line_num s"
  "p_overflow (warn m s) = p_overflow s" "p_stderr (warn m s) = p_stderr s @ [m]" "p_stdout (warn m s) = p_stdout s"
  by (simp_all add: warn_def)

lemma pool_inv_outside:
  assumes "pool_inv s as ms" and "p_bufs t = p_bufs s" "p_all_head t = p_all_head s" "p_all_list t = p_all_list s"
    "p_mru_head t = p_mru_head s" "p_mru_list t = p_mru_list s" "p_evict_head t = p_evict_head s"
    "p_evict_list t = p_evict_list s" "p_mm t = p_mm s" "p_overflow t = p_overflow s"
  shows "pool_inv t as ms"
proof -
  have "paged_out_bytes t as ms = paged_out_bytes s as ms" by (simp add: paged_out_bytes_def assms(2) cong: if_cong)
  then show ?thesis using assms by (simp add: pool_inv_def buffer_ok_def)
qed

lemma pool_inv_warn: "pool_inv s as ms \<Longrightarrow> pool_inv (warn m s) as ms"
  by (rule pool_inv_outside) simp_all

lemma purgeable_evictable: "purgeable s a \<Longrightarrow> evictable s a"
  by (simp add: purgeable_def evictable_def)

lemma evictable_frame: "pool_frame s s' \<Longrightarrow> evictable s' a = evictable s a"
  using pool_frame_fields(3,4) by (simp add: evictable_def)

section \<open>page_in_buffer\<close>

lemma page_in_spec:
  assumes inv: "pool_inv s as ms" and a: "a \<in> set as" "a \<notin> set ms" and sz: "sz = b_size (buf s a)"
    and bs: "sz \<noteq> 0" "sz \<le> VC4_CMA_POOL_SIZE"
  shows "\<exists>r es t. page_in_buffer a s = Some (r, if r then t else warn (No_insertion_point sz) t) \<and>
    pool_frame s t \<and> stay (filter (\<lambda>b. b \<notin> es) ms) s t \<and>
    es \<subseteq> {b \<in> set ms. evictable s b} \<and> (has_room s ms sz \<longrightarrow> es = {}) \<and>
    (r \<longleftrightarrow> (\<exists>q. free_place s (filter (\<lambda>b. \<not> evictable s b) ms) sz q)) \<and>
    (if r then pool_inv t as (a # filter (\<lambda>b. b \<notin> es) ms)
     else es = {b \<in> set ms. purgeable s b} \<and> pool_inv t as (filter (\<lambda>b. b \<notin> es) ms))"
proof (cases "has_room s ms sz")
  case True
  obtain t where t: "insert_buffer_in_cma_pool a DRM_MM_INSERT_BEST s = Some (True, t)" "pool_inv t as (a # ms)" "pool_frame s t" "stay ms s t"
    using insert_buffer_spec [OF inv a evict_mode(2)] True sz by auto
  obtain q where "free_place s ms sz q" using True has_room_iff [OF inv] by blast
  then have "free_place s (filter (\<lambda>b. \<not> evictable s b) ms) sz q" by (rule free_place_mono) auto
  then show ?thesis using t by (intro exI [of _ True] exI [of _ "{}"] exI [of _ t]) (auto simp: page_in_buffer_def)
next
  case full: False
  let ?ms1 = "filter (\<lambda>b. \<not> purgeable s b) ms" and ?p = "{b \<in> set ms. purgeable s b}"
  have i0: "insert_buffer_in_cma_pool a DRM_MM_INSERT_BEST s = Some (False, s)"
    using insert_buffer_spec [OF inv a evict_mode(2)] full sz by auto
  obtain s1 where s1: "userspace_cache_purge s = Some s1" "pool_inv s1 as ?ms1" "pool_frame s s1" "stay ?ms1 s s1"
    using userspace_cache_purge_spec [OF inv] by blast
  have sz1: "b_size (buf s1 a) = sz" using pool_frame_fields(2) [OF s1(3)] sz by simp
  have a1: "a \<notin> set ?ms1" using a(2) by simp
  have p: "filter (\<lambda>b. b \<notin> ?p) ms = ?ms1" by (rule filter_cong) simp_all
  have kept: "set (filter (\<lambda>b. \<not> evictable s b) ms) \<subseteq> set ?ms1" using purgeable_evictable by auto
  show ?thesis
  proof (cases "has_room s1 ?ms1 sz")
    case True
    obtain t where t: "insert_buffer_in_cma_pool a DRM_MM_INSERT_BEST s1 = Some (True, t)" "pool_inv t as (a # ?ms1)" "pool_frame s1 t" "stay ?ms1 s1 t"
      using insert_buffer_spec [OF s1(2) a(1) a1 evict_mode(2)] True sz1 by auto
    obtain q where "free_place s1 ?ms1 sz q" using True has_room_iff [OF s1(2)] by blast
    then have q: "free_place s (filter (\<lambda>b. \<not> evictable s b) ms) sz q"
      using free_place_mono kept free_place_stay [OF s1(4)] by blast
    have "page_in_buffer a s = Some (True, t)" using i0 s1(1) t(1) by (simp add: page_in_buffer_def)
    moreover have "stay ?ms1 s t" using stay_trans [OF s1(4) t(4)] by simp
    moreover have "?p \<subseteq> {b \<in> set ms. evictable s b}" using purgeable_evictable by auto
    moreover have "\<exists>q. free_place s (filter (\<lambda>b. \<not> evictable s b) ms) sz q" using q ..
    ultimately show ?thesis using t(2) pool_frame_trans [OF s1(3) t(3)] full
      by (intro exI [of _ True] exI [of _ ?p] exI [of _ t]) (simp only: p if_True simp_thms)
  next
    case False
    have i1: "insert_buffer_in_cma_pool a DRM_MM_INSERT_BEST s1 = Some (False, s1)"
      using insert_buffer_spec [OF s1(2) a(1) a1 evict_mode(2)] False sz1 by auto
    have ev: "evictable s1 = evictable s" using evictable_frame [OF s1(3)] by blast
    have same: "filter (\<lambda>b. \<not> evictable s1 b) ?ms1 = filter (\<lambda>b. \<not> evictable s b) ms"
      unfolding ev filter_filter by (rule filter_cong) (use purgeable_evictable in auto)
    have st: "stay (filter (\<lambda>b. \<not> evictable s b) ms) s s1" by (rule stay_mono [OF s1(4) kept])
    obtain found s2 where s2: "page_out_buffers_for_insertion sz s1 = Some (found, s2)" "pool_frame s1 s2"
      and iff: "found \<longleftrightarrow> (\<exists>q. free_place s (filter (\<lambda>b. \<not> evictable s b) ms) sz q)"
      and out: "if found then \<exists>es. set es \<subseteq> set (filter (evictable s1) ?ms1) \<and> pool_inv s2 as (filter (\<lambda>b. b \<notin> set es) ?ms1) \<and>
          stay (filter (\<lambda>b. b \<notin> set es) ?ms1) s1 s2 \<and> has_room s2 (filter (\<lambda>b. b \<notin> set es) ?ms1) sz
        else pool_inv s2 as ?ms1 \<and> p_mm s2 = p_mm s1"
      using page_out_spec [OF s1(2) a(1) a1 sz1 [symmetric] False bs] unfolding same free_place_stay [OF st] by blast
    obtain b where b: "p_bufs s1 a = Some b" using pool_inv_parts(4) [OF s1(2)] a(1) by auto
    have b1: "b_size b = sz" using sz1 b by simp
    have b2: "\<exists>b'. p_bufs s2 a = Some b' \<and> b_size b' = sz"
      using pool_frame_fields(2,6) [OF s2(2), of a] sz1 b by (cases "p_bufs s2 a") auto
    show ?thesis
    proof (cases found)
      case True
      then obtain es where es: "set es \<subseteq> set (filter (evictable s1) ?ms1)" "pool_inv s2 as (filter (\<lambda>b. b \<notin> set es) ?ms1)"
        "stay (filter (\<lambda>b. b \<notin> set es) ?ms1) s1 s2" "has_room s2 (filter (\<lambda>b. b \<notin> set es) ?ms1) sz" using out by auto
      let ?ms2 = "filter (\<lambda>b. b \<notin> set es) ?ms1" and ?E = "?p \<union> set es"
      have E: "filter (\<lambda>b. b \<notin> ?E) ms = ?ms2" unfolding filter_filter by (rule filter_cong) auto
      obtain t where t: "insert_buffer_in_cma_pool a DRM_MM_INSERT_EVICT s2 = Some (True, t)" "pool_inv t as (a # ?ms2)" "pool_frame s2 t" "stay ?ms2 s2 t"
        using insert_buffer_spec [OF es(2) a(1) _ evict_mode(1)] es(4) a1 b2 by auto
      have "page_in_buffer a s = Some (True, t)" using i0 s1(1) i1 s2(1) t(1) b b1 True by (simp add: page_in_buffer_def)
      moreover have "stay ?ms2 s t" using stay_trans [OF s1(4) stay_trans [OF es(3) t(4)]] by auto
      moreover have "pool_frame s t" using pool_frame_trans [OF s1(3) pool_frame_trans [OF s2(2) t(3)]] .
      moreover have "?E \<subseteq> {b \<in> set ms. evictable s b}" using es(1) purgeable_evictable by (auto simp: ev)
      moreover have "\<exists>q. free_place s (filter (\<lambda>b. \<not> evictable s b) ms) sz q" using iff True by simp
      ultimately show ?thesis using t(2) full
        by (intro exI [of _ True] exI [of _ ?E] exI [of _ t]) (simp only: E if_True simp_thms)
    next
      case False
      then have o: "pool_inv s2 as ?ms1" "p_mm s2 = p_mm s1" using out by auto
      have "page_in_buffer a s = Some (False, warn (No_insertion_point sz) s2)"
        using i0 s1(1) i1 s2(1) b b1 b2 False by (auto simp: page_in_buffer_def)
      moreover have "stay ?ms1 s s2" using s1(4) o(2) by (simp add: stay_def)
      moreover have "?p \<subseteq> {b \<in> set ms. evictable s b}" using purgeable_evictable by auto
      moreover have "\<not> (\<exists>q. free_place s (filter (\<lambda>b. \<not> evictable s b) ms) sz q)" using iff False by simp
      ultimately show ?thesis using o(1) full pool_frame_trans [OF s1(3) s2(2)]
        by (intro exI [of _ False] exI [of _ ?p] exI [of _ s2]) (simp only: p if_False simp_thms)
    qed
  qed
qed

end
