(* ===== verification/Pool_Commands.thy ===== *)
theory Pool_Commands
  imports Pool_Page
begin

text \<open>
  The commands of the log: what each does to the pool, for every argument.
\<close>

section \<open>The pool between two commands\<close>

definition size_ok :: "u64 \<Rightarrow> bool" where
  "size_ok sz \<longleftrightarrow> sz \<noteq> 0 \<and> sz \<le> VC4_CMA_POOL_SIZE"

definition pool_ok :: "pool \<Rightarrow> addr list \<Rightarrow> addr list \<Rightarrow> bool" where
  "pool_ok s as ms \<longleftrightarrow> pool_inv s as ms \<and> (\<forall>a\<in>set as. size_ok (b_size (buf s a)) \<and> b_madv (buf s a) = MADV_WILLNEED)"

lemma pool_ok_inv: "pool_ok s as ms \<Longrightarrow> pool_inv s as ms"
  by (simp add: pool_ok_def)

lemma pool_ok_frame: "pool_ok s as ms \<Longrightarrow> pool_frame s s' \<Longrightarrow> pool_inv s' as ms' \<Longrightarrow> pool_ok s' as ms'"
  using pool_frame_fields(2,5) by (simp add: pool_ok_def)

lemma pool_ok_warn: "pool_ok s as ms \<Longrightarrow> pool_ok (warn m s) as ms"
  using pool_inv_warn by (simp add: pool_ok_def)

lemma pool_inv_alive:
  assumes "pool_inv s as ms" "a \<in> set as"
  shows "a \<noteq> NULL" "\<exists>b. p_bufs s a = Some b" "live (p_mm s) a" "a \<noteq> mm_head_node (p_mm s)" "a \<noteq> mm_hole_stack (p_mm s)"
    "b_paged_in (buf s a) \<longleftrightarrow> a \<in> set ms"
proof -
  have b: "buffer_ok s ms a" using pool_inv_parts(5) [OF assms(1)] assms(2) by blast
  then show "\<exists>b. p_bufs s a = Some b" "live (p_mm s) a" "a \<noteq> mm_head_node (p_mm s)" "b_paged_in (buf s a) \<longleftrightarrow> a \<in> set ms"
    by (auto simp: buffer_ok_def)
  then show "a \<noteq> NULL" "a \<noteq> mm_hole_stack (p_mm s)" by (auto simp: live_def valid_ptr_def)
qed

text \<open>What a command leaves alone but for the buffers in \<open>A\<close>, the messages and where buffers are.\<close>

definition cmd_frame :: "addr set \<Rightarrow> pool \<Rightarrow> pool \<Rightarrow> bool" where
  "cmd_frame A s t \<longleftrightarrow> p_all_head t = p_all_head s \<and> p_mru_head t = p_mru_head s \<and> p_evict_head t = p_evict_head s \<and>
     p_line_num t = p_line_num s \<and> p_stdout t = p_stdout s \<and>
     mm_head_node (p_mm t) = mm_head_node (p_mm s) \<and> mm_hole_stack (p_mm t) = mm_hole_stack (p_mm s) \<and>
     (\<forall>a. a \<notin> A \<longrightarrow> map_option (b_paged_in_update (\<lambda>_. False)) (p_bufs t a) = map_option (b_paged_in_update (\<lambda>_. False)) (p_bufs s a))"

lemma cmd_frame_pool: "pool_frame s t \<Longrightarrow> cmd_frame {} s t"
  by (simp add: pool_frame_def cmd_frame_def)

lemma cmd_frame_refl: "cmd_frame A s s"
  by (simp add: cmd_frame_def)

lemma cmd_frame_warn: "cmd_frame A s (warn m t) = cmd_frame A s t"
  by (simp add: cmd_frame_def)

lemma cmd_frame_trans: "cmd_frame A s t \<Longrightarrow> cmd_frame B t u \<Longrightarrow> A \<subseteq> C \<Longrightarrow> B \<subseteq> C \<Longrightarrow> cmd_frame C s u"
  unfolding cmd_frame_def by (metis subsetD)

lemma cmd_frame_fields:
  assumes "cmd_frame A s t" "a \<notin> A"
  shows "b_name (buf t a) = b_name (buf s a)" "b_size (buf t a) = b_size (buf s a)" "b_unmoveable (buf t a) = b_unmoveable (buf s a)"
    "b_in_use (buf t a) = b_in_use (buf s a)" "b_madv (buf t a) = b_madv (buf s a)" "p_bufs t a = None \<longleftrightarrow> p_bufs s a = None"
proof -
  have "map_option (b_paged_in_update (\<lambda>_. False)) (p_bufs t a) = map_option (b_paged_in_update (\<lambda>_. False)) (p_bufs s a)"
    using assms by (simp add: cmd_frame_def)
  then show "b_name (buf t a) = b_name (buf s a)" "b_size (buf t a) = b_size (buf s a)" "b_unmoveable (buf t a) = b_unmoveable (buf s a)"
    "b_in_use (buf t a) = b_in_use (buf s a)" "b_madv (buf t a) = b_madv (buf s a)" "p_bufs t a = None \<longleftrightarrow> p_bufs s a = None"
    by (cases "p_bufs s a"; cases "p_bufs t a"; auto dest!: same_but_paged)+
qed

lemma filter_without: "a \<notin> set xs \<Longrightarrow> filter (\<lambda>b. b \<noteq> a) xs = xs"
  by (induction xs) auto

lemma is_list_forget: "is_list h head xs \<Longrightarrow> a \<notin> set (head # xs) \<Longrightarrow> is_list (h(a := None)) head xs"
  using is_list_cong [of head xs "h(a := None)" h] by (metis fun_upd_other)

section \<open>Finding a buffer\<close>

lemma find_buffer_spec:
  assumes inv: "pool_inv s as ms"
  shows "find_buffer name s = Some (case find (\<lambda>a. b_name (buf s a) = name) as of Some a \<Rightarrow> a | None \<Rightarrow> NULL)"
proof -
  let ?P = "\<lambda>a. b_name (buf s a) = name"
  note P = pool_inv_parts [OF inv]
  define I where "I = (\<lambda>xs t. t = s \<and> set xs \<subseteq> set as \<and> find ?P as = find ?P xs)"
  have loop: "\<exists>r. list_for_each_entry p_all_list (p_all_head s) (find_buffer_body name) s = Some r \<and>
      (case r of Inl t \<Rightarrow> I [] t | Inr a \<Rightarrow> find ?P as = Some a)"
  proof (rule list_for_each_entry_rule [where xs = as])
    show "I as s" by (simp add: I_def)
    show "is_list (p_all_list s) (p_all_head s) as" by (rule P(1))
    fix x ys t assume I: "I (x # ys) t" and path: "next_path (p_all_list t) (x # ys @ [p_all_head s])"
    then obtain b where b: "p_bufs s x = Some b" using pool_inv_alive(2) [OF inv, of x] by (auto simp: I_def)
    then have "find_buffer_body name x t = Some (if b_name b = name then Inr x else Inl t)"
      using I by (simp add: find_buffer_body_def I_def)
    then show "\<exists>r. find_buffer_body name x t = Some r \<and> (case r of Inl s' \<Rightarrow> I ys s' \<and>
        next_path (p_all_list s') (x # ys @ [p_all_head s]) | Inr a \<Rightarrow> find ?P as = Some a)"
      using I path b by (auto simp: I_def)
  qed
  show ?thesis by (rule loop_ends [OF loop]) (auto simp: find_buffer_def I_def)
qed

lemma find_buffer_cases:
  assumes inv: "pool_inv s as ms"
  obtains (found) a b where "a \<in> set as" "p_bufs s a = Some b" "b_name b = name" "a \<noteq> NULL" "find_buffer name s = Some a"
    "find_buffer_or_error name s = Some (a, s)"
  | (missing) "\<forall>a\<in>set as. b_name (buf s a) \<noteq> name" "find_buffer name s = Some NULL"
    "find_buffer_or_error name s = Some (NULL, warn (Unknown_buffer (p_line_num s) name) s)"
proof (cases "find (\<lambda>a. b_name (buf s a) = name) as")
  case None
  have f: "find_buffer name s = Some NULL" using find_buffer_spec [OF inv, of name] None by simp
  then have "find_buffer_or_error name s = Some (NULL, warn (Unknown_buffer (p_line_num s) name) s)" by (simp add: find_buffer_or_error_def)
  moreover have "\<forall>a\<in>set as. b_name (buf s a) \<noteq> name" using None by (simp add: find_None_iff)
  ultimately show ?thesis using missing f by blast
next
  case (Some a)
  then have a: "a \<in> set as" "b_name (buf s a) = name" by (auto simp: find_Some_iff)
  then obtain b where "p_bufs s a = Some b" using pool_inv_alive(2) [OF inv] by blast
  then show ?thesis using found [of a b] a pool_inv_alive(1) [OF inv a(1)] find_buffer_spec [OF inv, of name] Some
    by (simp add: find_buffer_or_error_def)
qed

lemma name_unique:
  assumes "pool_inv s as ms" "a \<in> set as" "c \<in> set as" "b_name (buf s a) = b_name (buf s c)"
  shows "a = c"
  using pool_inv_parts(7) [OF assms(1)] assms(2-4) by (auto simp: distinct_map dest: inj_onD)

section \<open>Flags\<close>

text \<open>Writing the flags of a buffer keeps the invariant.\<close>

lemma b_write_inv:
  assumes inv: "pool_inv s as ms" and a: "p_bufs s a = Some b"
    and f: "b_name (f b) = b_name b" "b_paged_in (f b) = b_paged_in b" "b_size (f b) = b_size b"
  shows "b_write a f s = Some (s\<lparr>p_bufs := (p_bufs s)(a \<mapsto> f b)\<rparr>)" "pool_inv (s\<lparr>p_bufs := (p_bufs s)(a \<mapsto> f b)\<rparr>) as ms"
proof -
  let ?t = "s\<lparr>p_bufs := (p_bufs s)(a \<mapsto> f b)\<rparr>"
  show "b_write a f s = Some ?t" using a by (simp add: b_write_def)
  have g: "b_name (buf ?t c) = b_name (buf s c)" "b_paged_in (buf ?t c) = b_paged_in (buf s c)" "b_size (buf ?t c) = b_size (buf s c)" for c
    using a f by simp_all
  have ok: "buffer_ok ?t ms c = buffer_ok s ms c" for c using g [of c] a by (simp add: buffer_ok_def)
  have "a \<in> set as" using pool_inv_parts(4) [OF inv] a by auto
  then have "dom (p_bufs ?t) = dom (p_bufs s)" using pool_inv_parts(4) [OF inv] by auto
  moreover have "paged_out_bytes ?t as ms = paged_out_bytes s as ms" by (simp only: paged_out_bytes_def g)
  ultimately show "pool_inv ?t as ms" using inv unfolding pool_inv_def ok by (simp only: g) simp
qed

section \<open>Using a buffer that is in the pool\<close>

lemma move_to_front:
  assumes inv: "pool_inv s as ms" and a: "a \<in> set ms"
  shows "\<exists>l s1. on_mru (list_del a) s = Some s1 \<and> on_mru (list_add a (p_mru_head s1)) s1 = Some (s\<lparr>p_mru_list := l\<rparr>) \<and>
    pool_inv (s\<lparr>p_mru_list := l\<rparr>) as (a # filter (\<lambda>b. b \<noteq> a) ms)"
proof -
  note P = pool_inv_parts [OF inv]
  obtain us vs where ms: "ms = us @ a # vs" using a by (meson split_list)
  have d: "a \<notin> set us" "a \<notin> set vs" using P(10) by (auto simp: ms)
  have m: "filter (\<lambda>b. b \<noteq> a) ms = us @ vs" using d by (simp add: ms filter_without)
  obtain l1 where l1: "list_del a (p_mru_list s) = Some l1" "is_list l1 (p_mru_head s) (us @ vs)" "dom l1 = dom (p_mru_list s)"
    using list_del_spec [OF P(2) [unfolded ms]] by auto
  have aa: "a \<in> set as" using P(3) a by blast
  have "a \<in> dom l1" "p_mru_head s \<noteq> a" using is_list_dom [OF P(2)] a P(11) aa l1(3) by auto
  then obtain l where l: "list_add a (p_mru_head s) l1 = Some l" "is_list l (p_mru_head s) (a # us @ vs)" "dom l = dom l1"
    using list_add_front [OF l1(2), of a] d by auto
  let ?t = "s\<lparr>p_mru_list := l\<rparr>" and ?ms = "a # filter (\<lambda>b. b \<noteq> a) ms"
  have set: "set ?ms = set ms" using a by auto
  have "buffer_ok ?t ?ms c = buffer_ok s ms c" for c using set l(3) l1(3) by (simp add: buffer_ok_def)
  moreover have "paged_out_bytes ?t as ?ms = paged_out_bytes s as ms" unfolding paged_out_bytes_def set by (simp cong: if_cong)
  ultimately have "pool_inv ?t as ?ms" using inv l(2) unfolding pool_inv_def set by (simp add: m)
  moreover have "on_mru (list_del a) s = Some (s\<lparr>p_mru_list := l1\<rparr>)" using l1(1) by (simp add: on_mru_def)
  ultimately show ?thesis using l(1) by (intro exI [of _ l] exI [of _ "s\<lparr>p_mru_list := l1\<rparr>"]) (simp add: on_mru_def)
qed

section \<open>Freeing a buffer\<close>

lemma paged_out_drop:
  assumes "distinct as" "a \<in> set as" "a \<notin> set ms" and "\<And>c. c \<noteq> a \<Longrightarrow> b_size (buf t c) = b_size (buf s c)"
  shows "paged_out_bytes s as ms = paged_out_bytes t (filter (\<lambda>c. c \<noteq> a) as) ms + b_size (buf s a)"
proof -
  obtain us vs where as: "as = us @ a # vs" using assms(2) by (meson split_list)
  then have d: "a \<notin> set us" "a \<notin> set vs" using assms(1) by auto
  have "(\<Sum>c\<leftarrow>xs. if c \<in> set ms then 0 else b_size (buf t c)) = (\<Sum>c\<leftarrow>xs. if c \<in> set ms then 0 else b_size (buf s c))"
    if "a \<notin> set xs" for xs
  proof -
    have "map (\<lambda>c. if c \<in> set ms then 0 else b_size (buf t c)) xs = map (\<lambda>c. if c \<in> set ms then 0 else b_size (buf s c)) xs"
      by (rule map_cong [OF refl]) (metis that assms(4))
    then show ?thesis by (rule arg_cong [where f = sum_list])
  qed
  then show ?thesis using d assms(3) by (simp add: paged_out_bytes_def as filter_without)
qed

text \<open>What is left of a buffer of the pool when its memory is freed.\<close>

lemma free_buffer_memory:
  assumes inv: "pool_inv s as ms" and a: "a \<in> set as" "a \<notin> set ms"
    and l: "list_del a (p_all_list s) = Some l"
    and t: "t = buffer_free a (s\<lparr>p_all_list := l, p_overflow := p_overflow s - b_size (buf s a)\<rparr>)"
  shows "pool_inv t (filter (\<lambda>c. c \<noteq> a) as) ms"
proof -
  let ?as = "filter (\<lambda>c. c \<noteq> a) as"
  note P = pool_inv_parts [OF inv]
  note A = pool_inv_alive [OF inv a(1)]
  obtain us vs where as: "as = us @ a # vs" using a(1) by (meson split_list)
  have d: "a \<notin> set us" "a \<notin> set vs" using P(9) by (auto simp: as)
  have as': "?as = us @ vs" using d by (simp add: as filter_without)
  have l': "is_list l (p_all_head s) ?as" using list_del_spec [OF P(1) [unfolded as]] l by (auto simp: as')
  have h: "p_all_head s \<noteq> a" using P(1) a(1) by (auto simp: is_list_def)
  obtain ns where ok: "mm_ok 0 VC4_CMA_POOL_SIZE (p_mm s) ns" and ns: "set ns = set ms" by (rule pool_inv_mm [OF inv])
  have an: "a \<notin> set (mm_head_node (p_mm s) # ns)" using A(4) a(2) ns by simp
  have ok': "mm_ok 0 VC4_CMA_POOL_SIZE (p_mm t) ns" using mm_ok_free [OF ok an A(5)] by (simp add: t buffer_free_def)
  have rest: "p_bufs t = (p_bufs s)(a := None)" "p_all_head t = p_all_head s" "p_all_list t = l(a := None)" "p_mru_head t = p_mru_head s"
    "p_mru_list t = (p_mru_list s)(a := None)" "p_evict_head t = p_evict_head s" "p_evict_list t = (p_evict_list s)(a := None)"
    "p_mm t = node_free a (p_mm s)" "p_overflow t = p_overflow s - b_size (buf s a)"
    by (simp_all add: t buffer_free_def)
  have bufs: "buf t c = buf s c" if "c \<noteq> a" for c using that rest(1) by simp
  have nodes: "mm_nodes (p_mm t) c = mm_nodes (p_mm s) c" "live (p_mm t) c = live (p_mm s) c" if "c \<noteq> a" for c
    using same_at_free [OF that, of "p_mm s"] same_live [OF same_at_free [OF that, of "p_mm s"] same_roots_free [OF A(5)]] rest(8)
    by (simp_all add: same_at_def)
  have "buffer_ok t ms c" if "c \<in> set ?as" for c
  proof -
    have c: "c \<noteq> a" "buffer_ok s ms c" using that P(5) by auto
    have "mm_head_node (p_mm t) = mm_head_node (p_mm s)" using rest(8) by (simp add: node_free_def)
    then show ?thesis using c(2) nodes [OF c(1)] bufs [OF c(1)] c(1) rest by (simp add: buffer_ok_def n_size_def n_start_def)
  qed
  moreover have "is_list (p_all_list t) (p_all_head t) ?as"
    using is_list_forget [OF l'] h rest by simp
  moreover have "is_list (p_mru_list t) (p_mru_head t) ms"
    using is_list_forget [OF P(2), of a] P(11) a rest by auto
  moreover have "distinct (map (\<lambda>c. b_name (buf t c)) ?as)"
  proof -
    have "map (\<lambda>c. b_name (buf t c)) ?as = map (\<lambda>c. b_name (buf s c)) ?as" by (rule map_cong) (use bufs in auto)
    then show ?thesis using distinct_map_filter [OF P(7)] by (simp only:)
  qed
  moreover have "p_overflow t = paged_out_bytes t ?as ms"
    using paged_out_drop [OF P(9) a, of t s] bufs P(8) rest(9) by simp
  moreover have "dom (p_bufs t) = set ?as" using P(4) rest(1) by auto
  ultimately show ?thesis using P(3,6,11) a(2) ok' ns rest unfolding pool_inv_def by auto
qed

lemma free_buffer_spec:
  assumes inv: "pool_inv s as ms" and a: "a \<in> set as"
  shows "\<exists>t. free_buffer a s = Some t \<and> pool_inv t (filter (\<lambda>c. c \<noteq> a) as) (filter (\<lambda>c. c \<noteq> a) ms) \<and>
    cmd_frame {a} s t \<and> p_stderr t = p_stderr s \<and> stay (filter (\<lambda>c. c \<noteq> a) ms) s t"
proof -
  let ?ms = "filter (\<lambda>c. c \<noteq> a) ms"
  obtain b where b: "p_bufs s a = Some b" using pool_inv_alive(2) [OF inv a] by blast
  have pg: "b_paged_in b \<longleftrightarrow> a \<in> set ms" using pool_inv_alive(6) [OF inv a] b by simp
  obtain s1 where s1: "c_when (b_paged_in b) (remove_buffer_from_pool a) s = Some s1" "pool_inv s1 as ?ms" "pool_frame s s1" "stay ?ms s s1"
  proof (cases "a \<in> set ms")
    case True
    then obtain us vs where ms: "ms = us @ a # vs" by (meson split_list)
    then have "a \<notin> set us" "a \<notin> set vs" using pool_inv_parts(10) [OF inv] by auto
    then have f: "?ms = us @ vs" by (simp add: ms filter_without)
    have r: "\<exists>s1. remove_buffer_from_pool a s = Some s1 \<and> pool_inv s1 as ?ms \<and> pool_frame s s1 \<and> stay ?ms s s1"
      using remove_buffer_spec [OF inv [unfolded ms]] unfolding f by blast
    show ?thesis using r that pg True by (auto simp: c_when_def)
  next
    case False
    then show ?thesis using that [of s] inv pg pool_frame_refl stay_refl by (simp add: c_when_def filter_without)
  qed
  obtain us vs where as: "as = us @ a # vs" using a by (meson split_list)
  obtain l where l: "list_del a (p_all_list s1) = Some l"
    using list_del_spec pool_inv_parts(1) [OF s1(2)] unfolding as by blast
  obtain b1 where b1: "p_bufs s1 a = Some b1" using pool_inv_alive(2) [OF s1(2) a] by blast
  define t where "t = buffer_free a (s1\<lparr>p_all_list := l, p_overflow := p_overflow s1 - b_size (buf s1 a)\<rparr>)"
  have run: "free_buffer a s = Some t" using b s1(1) l b1 by (simp add: free_buffer_def on_all_def t_def Let_def)
  have inv': "pool_inv t (filter (\<lambda>c. c \<noteq> a) as) ?ms" by (rule free_buffer_memory [OF s1(2) a _ l t_def]) simp
  have f1: "cmd_frame {a} s1 t" "p_stderr t = p_stderr s1"
    by (simp_all add: t_def cmd_frame_def buffer_free_def node_free_def)
  have "mm_nodes (p_mm t) c = mm_nodes (p_mm s1) c" if "c \<noteq> a" for c using that by (simp add: t_def buffer_free_def node_free_def)
  then have "stay ?ms s1 t" by (simp add: stay_def n_start_def n_end_def)
  then have "stay ?ms s t" using stay_trans [OF s1(4)] by blast
  moreover have "cmd_frame {a} s t" by (rule cmd_frame_trans [OF cmd_frame_pool [OF s1(3)] f1(1)]) simp_all
  ultimately show ?thesis using run inv' f1(2) s1(3) by (auto simp: pool_frame_def)
qed

section \<open>Creating a buffer\<close>

definition fresh :: "pool \<Rightarrow> addr \<Rightarrow> bool" where
  "fresh s a \<longleftrightarrow> valid_ptr a \<and> p_bufs s a = None \<and> a \<noteq> p_all_head s \<and> a \<noteq> p_mru_head s \<and> a \<noteq> p_evict_head s \<and>
     a \<noteq> mm_head_node (p_mm s) \<and> a \<noteq> mm_hole_stack (p_mm s)"

text \<open>The pool when \<open>buf_create\<close> starts to page the new buffer in.\<close>

definition created :: "addr \<Rightarrow> u32 \<Rightarrow> u64 \<Rightarrow> bool \<Rightarrow> lheap \<Rightarrow> pool \<Rightarrow> pool" where
  "created a name sz unmoveable l s = (buffer_calloc a s)\<lparr>p_bufs := (p_bufs s)(a \<mapsto> zero_buffer\<lparr>b_name := name, b_size := sz,
     b_madv := MADV_WILLNEED, b_unmoveable := unmoveable\<rparr>), p_all_list := l, p_overflow := p_overflow s + sz\<rparr>"

lemma created_fields:
  "p_bufs (created a name sz un l s) = (p_bufs s)(a \<mapsto> zero_buffer\<lparr>b_name := name, b_size := sz, b_madv := MADV_WILLNEED, b_unmoveable := un\<rparr>)"
  "p_all_head (created a name sz un l s) = p_all_head s" "p_all_list (created a name sz un l s) = l"
  "p_mru_head (created a name sz un l s) = p_mru_head s"
  "p_mru_list (created a name sz un l s) = (p_mru_list s)(a \<mapsto> zero_list_head)"
  "p_evict_head (created a name sz un l s) = p_evict_head s"
  "p_evict_list (created a name sz un l s) = (p_evict_list s)(a \<mapsto> zero_list_head)"
  "p_mm (created a name sz un l s) = node_calloc a (p_mm s)" "p_overflow (created a name sz un l s) = p_overflow s + sz"
  "p_line_num (created a name sz un l s) = p_line_num s" "p_stderr (created a name sz un l s) = p_stderr s"
  "p_stdout (created a name sz un l s) = p_stdout s"
  by (simp_all add: created_def buffer_calloc_def)

lemma is_list_remember: "is_list h head xs \<Longrightarrow> a \<notin> set (head # xs) \<Longrightarrow> is_list (h(a \<mapsto> v)) head xs"
  using is_list_cong [of head xs "h(a \<mapsto> v)" h] by (metis fun_upd_other)

lemma create_memory:
  assumes inv: "pool_inv s as ms" and a: "fresh s a" and name: "\<forall>c\<in>set as. b_name (buf s c) \<noteq> name"
  shows "\<exists>l. list_add a (p_all_head s) ((p_all_list s)(a \<mapsto> zero_list_head)) = Some l \<and> pool_inv (created a name sz un l s) (a # as) ms"
proof -
  note P = pool_inv_parts [OF inv]
  have aa: "a \<notin> set as" using a P(4) by (auto simp: fresh_def)
  have am: "a \<notin> set ms" using aa P(3) by blast
  have "is_list ((p_all_list s)(a \<mapsto> zero_list_head)) (p_all_head s) as" using is_list_remember [OF P(1)] a aa by (simp add: fresh_def)
  then obtain l where l: "list_add a (p_all_head s) ((p_all_list s)(a \<mapsto> zero_list_head)) = Some l" "is_list l (p_all_head s) (a # as)"
    using list_add_front [of "(p_all_list s)(a \<mapsto> zero_list_head)" "p_all_head s" as a] aa a by (auto simp: fresh_def)
  let ?t = "created a name sz un l s"
  note F = created_fields [of a name sz un l s]
  obtain ns where ok: "mm_ok 0 VC4_CMA_POOL_SIZE (p_mm s) ns" and mm: "\<exists>hs. mm_inv (p_mm s) ns hs" and ns: "set ns = set ms"
    by (rule pool_inv_mm [OF inv]) (auto simp: mm_ok_def)
  have an: "a \<notin> set (mm_head_node (p_mm s) # ns)" "a \<noteq> mm_hole_stack (p_mm s)" "valid_ptr a" using a am ns by (auto simp: fresh_def)
  obtain hs where hs: "mm_inv (p_mm s) ns hs" using mm by blast
  note C = node_calloc_inv [OF hs an]
  have ok': "mm_ok 0 VC4_CMA_POOL_SIZE (p_mm ?t) ns" using mm_ok_calloc [OF ok an(1,3,2)] by (simp add: F)
  have bufs: "buf ?t c = buf s c" if "c \<noteq> a" for c using that by (simp add: F)
  have nodes: "mm_nodes (p_mm ?t) c = mm_nodes (p_mm s) c" "live (p_mm ?t) c = live (p_mm s) c" if "c \<noteq> a" for c
    using same_at_calloc [OF that, of "p_mm s"] C(3) [OF that] by (simp_all add: F same_at_def)
  have "buffer_ok ?t ms c" if "c \<in> set (a # as)" for c
  proof (cases "c = a")
    case True
    then show ?thesis using am C(2,5) an(1) by (simp add: buffer_ok_def F zero_buffer_def)
  next
    case False
    then have "buffer_ok s ms c" using that P(5) by auto
    then show ?thesis using nodes [OF False] bufs [OF False] False C(5) by (simp add: buffer_ok_def F n_size_def n_start_def)
  qed
  moreover have "is_list (p_mru_list ?t) (p_mru_head ?t) ms" using is_list_remember [OF P(2)] a am by (simp add: F fresh_def)
  moreover have "distinct (map (\<lambda>c. b_name (buf ?t c)) (a # as))"
  proof -
    have "map (\<lambda>c. b_name (buf ?t c)) as = map (\<lambda>c. b_name (buf s c)) as" by (rule map_cong [OF refl]) (metis bufs aa)
    moreover have "b_name (buf ?t a) = name" by (simp add: F)
    ultimately have "map (\<lambda>c. b_name (buf ?t c)) (a # as) = name # map (\<lambda>c. b_name (buf s c)) as" by (simp only: list.map)
    moreover have "distinct (name # map (\<lambda>c. b_name (buf s c)) as)" using P(7) name by auto
    ultimately show ?thesis by (simp only:)
  qed
  moreover have "p_overflow ?t = paged_out_bytes ?t (a # as) ms"
  proof -
    have "filter (\<lambda>c. c \<noteq> a) (a # as) = as" using aa by (simp add: filter_without)
    then have "paged_out_bytes ?t (a # as) ms = paged_out_bytes s as ms + b_size (buf ?t a)"
      using paged_out_drop [of "a # as" a ms s ?t] P(9) aa am bufs by simp
    then show ?thesis using P(8) by (simp add: F)
  qed
  ultimately have "pool_inv ?t (a # as) ms"
    using P(3,4,6,11) ok' ns a l(2) unfolding pool_inv_def by (auto simp: F fresh_def)
  then show ?thesis using l(1) by blast
qed

end
