(* ===== verification/Pool_Cache.thy ===== *)
theory Pool_Cache
  imports Pool_Commands
begin

text \<open>
  What main.c simulates, without memory: a cache of named buffers. A command of the log is a step
  of this machine. Which buffers leave the pool to make room is left open, but not whether some do,
  whether the command succeeds, nor which are never touched.
\<close>

section \<open>The abstract machine\<close>

record entry =
  e_size :: u64
  e_unmoveable :: bool
  e_in_use :: bool

text \<open>The buffers by name, and those in the pool with their offsets, last used first.\<close>

record cache =
  c_entries :: "u32 \<rightharpoonup> entry"
  c_pool :: "(u32 \<times> u64) list"

definition pinned :: "entry \<Rightarrow> bool" where
  "pinned e \<longleftrightarrow> e_in_use e \<or> e_unmoveable e"

definition room :: "(u32 \<rightharpoonup> entry) \<Rightarrow> (u32 \<times> u64) list \<Rightarrow> u64 \<Rightarrow> u64 \<Rightarrow> bool" where
  "room es pl sz off \<longleftrightarrow> off mod PAGE_SIZE = 0 \<and> off < off + sz \<and> off + sz \<le> VC4_CMA_POOL_SIZE \<and>
     (\<forall>(m, o')\<in>set pl. o' + e_size (the (es m)) \<le> off \<or> off + sz \<le> o')"

definition drop_names :: "u32 set \<Rightarrow> (u32 \<times> u64) list \<Rightarrow> (u32 \<times> u64) list" where
  "drop_names ns pl = filter (\<lambda>(m, _). m \<notin> ns) pl"

definition unpinned :: "cache \<Rightarrow> u32 set" where
  "unpinned c = {m. \<exists>e. c_entries c m = Some e \<and> \<not> pinned e}"

text \<open>Buffers leave the pool only when no offset is free, and then only such that are not pinned.\<close>

inductive page_in :: "u32 \<Rightarrow> cache \<Rightarrow> bool \<Rightarrow> cache \<Rightarrow> bool" for name c where
  fits: "\<lbrakk>c_entries c name = Some e; out \<subseteq> unpinned c \<inter> fst ` set (c_pool c);
     (\<exists>q. room (c_entries c) (c_pool c) (e_size e) q) \<longrightarrow> out = {};
     room (c_entries c) (drop_names out (c_pool c)) (e_size e) off\<rbrakk>
    \<Longrightarrow> page_in name c True (c\<lparr>c_pool := (name, off) # drop_names out (c_pool c)\<rparr>)"
| full: "\<lbrakk>c_entries c name = Some e; \<forall>q. \<not> room (c_entries c) (drop_names (unpinned c) (c_pool c)) (e_size e) q\<rbrakk>
    \<Longrightarrow> page_in name c False c"

datatype command = Nothing | Destroy u32 | Set_usecnt u32 bool | Create u32 u64 bool | Use u32

inductive cache_step :: "command \<Rightarrow> cache \<Rightarrow> cache \<Rightarrow> bool" for cmd c where
  nothing: "cmd = Nothing \<Longrightarrow> cache_step cmd c c"
| unknown: "c_entries c name = None \<Longrightarrow> cmd \<in> {Destroy name, Set_usecnt name u, Use name} \<Longrightarrow> cache_step cmd c c"
| destroy: "cmd = Destroy name \<Longrightarrow> c_entries c name = Some e
    \<Longrightarrow> cache_step cmd c \<lparr>c_entries = (c_entries c)(name := None), c_pool = drop_names {name} (c_pool c)\<rparr>"
| set_usecnt: "cmd = Set_usecnt name u \<Longrightarrow> c_entries c name = Some e
    \<Longrightarrow> cache_step cmd c (c\<lparr>c_entries := (c_entries c)(name \<mapsto> e\<lparr>e_in_use := u\<rparr>)\<rparr>)"
| exists: "cmd = Create name sz un \<Longrightarrow> c_entries c name = Some e \<Longrightarrow> cache_step cmd c c"
| create: "\<lbrakk>cmd = Create name sz un; c_entries c name = None;
     page_in name (c\<lparr>c_entries := (c_entries c)(name \<mapsto> \<lparr>e_size = sz, e_unmoveable = un, e_in_use = False\<rparr>)\<rparr>) r c'\<rbrakk>
    \<Longrightarrow> cache_step cmd c c'"
| hit: "\<lbrakk>cmd = Use name; c_entries c name = Some e; (name, off) \<in> set (c_pool c)\<rbrakk>
    \<Longrightarrow> cache_step cmd c (c\<lparr>c_pool := (name, off) # drop_names {name} (c_pool c)\<rparr>)"
| miss: "\<lbrakk>cmd = Use name; c_entries c name = Some e; name \<notin> fst ` set (c_pool c); page_in name c r c'\<rbrakk> \<Longrightarrow> cache_step cmd c c'"

inductive cache_run :: "command list \<Rightarrow> cache \<Rightarrow> cache \<Rightarrow> bool" where
  stop: "cache_run [] c c"
| step: "\<lbrakk>cache_step cmd c c1; cache_run cmds c1 c'\<rbrakk> \<Longrightarrow> cache_run (cmd # cmds) c c'"

inductive_cases cache_run_NilE: "cache_run [] c c'"
inductive_cases cache_run_ConsE: "cache_run (cmd # cmds) c c'"

section \<open>What the machine guarantees\<close>

text \<open>Every buffer in the pool is known, once, and its block meets no other.\<close>

definition cache_ok :: "cache \<Rightarrow> bool" where
  "cache_ok c \<longleftrightarrow> distinct (map fst (c_pool c)) \<and> fst ` set (c_pool c) \<subseteq> dom (c_entries c) \<and>
     (\<forall>(n, off)\<in>set (c_pool c). room (c_entries c) (drop_names {n} (c_pool c)) (e_size (the (c_entries c n))) off)"

lemma drop_names_set: "x \<in> set (drop_names ns pl) \<longleftrightarrow> x \<in> set pl \<and> fst x \<notin> ns"
  by (auto simp: drop_names_def)

lemma drop_names_drop: "drop_names A (drop_names B pl) = drop_names (A \<union> B) pl"
  unfolding drop_names_def filter_filter by (rule filter_cong) auto

lemma page_in_pinned:
  assumes "page_in name c r c'" and "(n, off) \<in> set (c_pool c)" "c_entries c n = Some e" "pinned e"
  shows "(n, off) \<in> set (c_pool c') \<and> c_entries c' n = Some e"
  using assms by (cases rule: page_in.cases) (auto simp: drop_names_set unpinned_def)

text \<open>A pinned buffer in the pool stays where it is until it is destroyed or its use ends.\<close>

lemma step_pinned:
  assumes "cache_step cmd c c'" and "cmd \<noteq> Destroy n" "cmd \<noteq> Set_usecnt n False" and at: "(n, off) \<in> set (c_pool c)"
    and e: "c_entries c n = Some e" "pinned e" and ok: "distinct (map fst (c_pool c))"
  shows "(n, off) \<in> set (c_pool c') \<and> (\<exists>e'. c_entries c' n = Some e' \<and> pinned e')"
  using assms(1)
proof (cases rule: cache_step.cases)
  case (set_usecnt name u e1)
  then show ?thesis using at e assms(3) by (cases "name = n"; cases u) (auto simp: pinned_def)
next
  case (create name sz un r)
  then have "name \<noteq> n" using e by auto
  then show ?thesis using page_in_pinned [OF create(3), of n off e] at e by simp
next
  case (hit name e1 off1)
  have "off1 = off" if "name = n" using ok hit(4) at that eq_key_imp_eq_value by metis
  then show ?thesis using hit at e by (auto simp: drop_names_set)
next
  case (miss name e1 r)
  then show ?thesis using page_in_pinned [OF miss(4) at e] e by auto
next
  case (destroy name e1)
  then show ?thesis using assms(2) at e by (auto simp: drop_names_set)
qed (use at e in auto)

lemma drop_names_distinct: "distinct (map fst pl) \<Longrightarrow> distinct (map fst (drop_names ns pl))"
  by (simp add: drop_names_def distinct_map_filter)

lemma page_in_distinct:
  assumes "page_in name c r c'" and "distinct (map fst (c_pool c))" "name \<notin> fst ` set (c_pool c)"
  shows "distinct (map fst (c_pool c'))"
  using assms by (cases rule: page_in.cases) (auto simp: drop_names_set intro: drop_names_distinct)

lemma room_entries:
  assumes "\<forall>x\<in>set pl. e_size (the (es' (fst x))) = e_size (the (es (fst x)))"
  shows "room es' pl sz off = room es pl sz off"
proof -
  have "(\<forall>(m, o')\<in>set pl. o' + e_size (the (es' m)) \<le> off \<or> off + sz \<le> o') \<longleftrightarrow>
      (\<forall>(m, o')\<in>set pl. o' + e_size (the (es m)) \<le> off \<or> off + sz \<le> o')"
    by (rule ball_cong [OF refl]) (use assms in \<open>simp add: split_def\<close>)
  then show ?thesis by (simp only: room_def)
qed

lemma room_mono: "room es pl sz off \<Longrightarrow> set pl' \<subseteq> set pl \<Longrightarrow> room es pl' sz off"
  by (auto simp: room_def)

lemma room_Cons:
  "room es ((n, o') # pl) sz off \<longleftrightarrow> room es pl sz off \<and> (o' + e_size (the (es n)) \<le> off \<or> off + sz \<le> o')"
  unfolding room_def by simp blast

lemma drop_names_Cons: "drop_names ns ((n, off) # pl) = (if n \<in> ns then drop_names ns pl else (n, off) # drop_names ns pl)"
  by (simp add: drop_names_def)

lemma cache_ok_known: "cache_ok c \<Longrightarrow> x \<in> set (c_pool c) \<Longrightarrow> fst x \<in> dom (c_entries c)"
  by (auto simp: cache_ok_def)

text \<open>Fewer buffers in the pool, and other entries that agree on those.\<close>

lemma cache_ok_less:
  assumes ok: "cache_ok c" and pool: "c_pool c' = drop_names ns (c_pool c)"
    and es: "\<forall>x\<in>set (c_pool c'). fst x \<in> dom (c_entries c') \<and> e_size (the (c_entries c' (fst x))) = e_size (the (c_entries c (fst x)))"
  shows "cache_ok c'"
proof -
  have "room (c_entries c') (drop_names {n} (c_pool c')) (e_size (the (c_entries c' n))) off" if x: "(n, off) \<in> set (c_pool c')" for n off
  proof -
    have "room (c_entries c) (drop_names {n} (c_pool c)) (e_size (the (c_entries c n))) off"
      using ok x by (auto simp: cache_ok_def pool drop_names_set)
    then have "room (c_entries c) (drop_names {n} (c_pool c')) (e_size (the (c_entries c n))) off"
      by (rule room_mono) (auto simp: pool drop_names_set)
    moreover have "e_size (the (c_entries c' n)) = e_size (the (c_entries c n))" using es x by force
    ultimately show ?thesis using room_entries [of "drop_names {n} (c_pool c')" "c_entries c'" "c_entries c"] es
      by (auto simp: drop_names_set)
  qed
  then show ?thesis using ok es unfolding cache_ok_def pool by (auto intro: drop_names_distinct)
qed

text \<open>One more buffer, at an offset with room.\<close>

lemma cache_ok_more:
  assumes ok: "cache_ok c" and e: "c_entries c n = Some e" and n: "n \<notin> fst ` set (c_pool c)"
    and room: "room (c_entries c) (c_pool c) (e_size e) off"
  shows "cache_ok (c\<lparr>c_pool := (n, off) # c_pool c\<rparr>)"
proof -
  have self: "drop_names {n} (c_pool c) = c_pool c" unfolding drop_names_def by (rule filter_True) (use n in force)
  have "room (c_entries c) (drop_names {m} ((n, off) # c_pool c)) (e_size (the (c_entries c m))) o'" if x: "(m, o') \<in> set (c_pool c)" for m o'
  proof -
    have "m \<noteq> n" using n x by force
    moreover have "room (c_entries c) (drop_names {m} (c_pool c)) (e_size (the (c_entries c m))) o'" using ok x by (auto simp: cache_ok_def)
    moreover have "o' + e_size (the (c_entries c m)) \<le> off \<or> off + e_size e \<le> o'" using room x by (auto simp: room_def)
    ultimately show ?thesis using e by (auto simp: drop_names_Cons room_Cons)
  qed
  then show ?thesis using ok e n room unfolding cache_ok_def by (auto simp: drop_names_Cons self)
qed

lemma page_in_ok:
  assumes "page_in n c r c'" and ok: "cache_ok c" and n: "n \<notin> fst ` set (c_pool c)"
  shows "cache_ok c'"
  using assms(1)
proof (cases rule: page_in.cases)
  case (fits e out off)
  let ?c = "c\<lparr>c_pool := drop_names out (c_pool c)\<rparr>"
  have "cache_ok ?c" by (rule cache_ok_less [OF ok]) (use cache_ok_known [OF ok] in \<open>simp_all add: drop_names_set\<close>)
  then have "cache_ok (?c\<lparr>c_pool := (n, off) # c_pool ?c\<rparr>)"
    by (rule cache_ok_more) (use fits n in \<open>auto simp: drop_names_set\<close>)
  then show ?thesis using fits(2) by simp
qed (use ok in simp)

lemma cache_step_ok: "cache_step cmd c c' \<Longrightarrow> cache_ok c \<Longrightarrow> cache_ok c'"
proof (induction rule: cache_step.induct)
  case (destroy name e)
  have "\<exists>e'. c_entries c (fst x) = Some e'" if "x \<in> set (c_pool c)" for x
    using cache_ok_known [OF destroy(3) that] by auto
  then show ?case by (intro cache_ok_less [OF destroy(3), where ns = "{name}"]) (simp_all add: drop_names_set domIff)
next
  case (set_usecnt name u e)
  have "drop_names {} (c_pool c) = c_pool c" by (simp add: drop_names_def split_def)
  moreover have "\<exists>e'. c_entries c (fst x) = Some e'" if "x \<in> set (c_pool c)" for x
    using cache_ok_known [OF set_usecnt(3) that] by auto
  ultimately show ?case using set_usecnt(2) by (intro cache_ok_less [OF set_usecnt(3), where ns = "{}"]) (simp_all add: domIff)
next
  case (create name sz un r c')
  let ?c = "c\<lparr>c_entries := (c_entries c)(name \<mapsto> \<lparr>e_size = sz, e_unmoveable = un, e_in_use = False\<rparr>)\<rparr>"
  have n: "name \<notin> fst ` set (c_pool c)" using create by (auto simp: cache_ok_def)
  have "drop_names {} (c_pool c) = c_pool c" by (simp add: drop_names_def split_def)
  moreover have "fst x \<noteq> name \<and> (\<exists>e. c_entries c (fst x) = Some e)" if "x \<in> set (c_pool c)" for x
    using n that cache_ok_known [OF create(4) that] by auto
  ultimately have "cache_ok ?c" by (intro cache_ok_less [OF create(4), where ns = "{}"]) (simp_all add: domIff)
  then show ?case by (rule page_in_ok [OF create(3)]) (use n in simp)
next
  case (hit name e off)
  let ?c = "c\<lparr>c_pool := drop_names {name} (c_pool c)\<rparr>"
  have "cache_ok ?c" by (rule cache_ok_less [OF hit(4)]) (use cache_ok_known [OF hit(4)] in \<open>simp_all add: drop_names_set\<close>)
  then have "cache_ok (?c\<lparr>c_pool := (name, off) # c_pool ?c\<rparr>)"
  proof (rule cache_ok_more)
    show "room (c_entries ?c) (c_pool ?c) (e_size e) off" using hit by (auto simp: cache_ok_def)
  qed (use hit in \<open>auto simp: drop_names_set\<close>)
  then show ?case by simp
next
  case (miss name e r c')
  then show ?case using page_in_ok by blast
qed simp_all

lemma cache_run_ok: "cache_run cmds c c' \<Longrightarrow> cache_ok c \<Longrightarrow> cache_ok c'"
  by (induction rule: cache_run.induct) (auto intro: cache_step_ok)

lemma cache_run_pinned:
  assumes "cache_run cmds c c'" and "Destroy n \<notin> set cmds" "Set_usecnt n False \<notin> set cmds" and "cache_ok c"
    and "(n, off) \<in> set (c_pool c)" "c_entries c n = Some e" "pinned e"
  shows "(n, off) \<in> set (c_pool c') \<and> (\<exists>e'. c_entries c' n = Some e' \<and> pinned e')"
  using assms
proof (induction arbitrary: e rule: cache_run.induct)
  case (step cmd c c1 cmds c')
  have "(n, off) \<in> set (c_pool c1) \<and> (\<exists>e'. c_entries c1 n = Some e' \<and> pinned e')"
    by (rule step_pinned [OF step(1)]) (use step.prems in \<open>auto simp: cache_ok_def\<close>)
  then show ?case using step cache_step_ok by auto
qed auto

lemma cache_run_append: "cache_run xs c c1 \<Longrightarrow> cache_run ys c1 c' \<Longrightarrow> cache_run (xs @ ys) c c'"
  by (induction rule: cache_run.induct) (auto intro: cache_run.step)

end
