(* ===== verification/Pool_View.thy ===== *)
theory Pool_View
  imports Pool_Cache
begin

text \<open>
  The abstraction from the memory of main.c to the abstract machine of \<open>Pool_Cache\<close>, and paging in
  as a step of that machine.
\<close>

section \<open>The view of a pool\<close>

definition entry_of :: "buffer \<Rightarrow> entry" where
  "entry_of b = \<lparr>e_size = b_size b, e_unmoveable = b_unmoveable b, e_in_use = b_in_use b\<rparr>"

definition pool_place :: "pool \<Rightarrow> addr \<Rightarrow> u32 \<times> u64" where
  "pool_place s a = (b_name (buf s a), n_start (mm_nodes (p_mm s)) a)"

definition pool_entries :: "pool \<Rightarrow> addr list \<Rightarrow> (u32 \<rightharpoonup> entry)" where
  "pool_entries s as = map_of (map (\<lambda>a. (b_name (buf s a), entry_of (buf s a))) as)"

definition view :: "pool \<Rightarrow> addr list \<Rightarrow> addr list \<Rightarrow> cache" where
  "view s as ms = \<lparr>c_entries = pool_entries s as, c_pool = map (pool_place s) ms\<rparr>"

lemma pool_entries_Some:
  assumes "pool_inv s as ms"
  shows "pool_entries s as n = Some e \<longleftrightarrow> (\<exists>a\<in>set as. b_name (buf s a) = n \<and> e = entry_of (buf s a))"
proof -
  have "distinct (map fst (map (\<lambda>a. (b_name (buf s a), entry_of (buf s a))) as))"
    using pool_inv_parts(7) [OF assms] by (simp add: comp_def)
  then show ?thesis unfolding pool_entries_def by (subst map_of_eq_Some_iff) auto
qed

lemma pool_entries_at: "pool_inv s as ms \<Longrightarrow> a \<in> set as \<Longrightarrow> pool_entries s as (b_name (buf s a)) = Some (entry_of (buf s a))"
  by (auto simp: pool_entries_Some)

lemma pool_entries_None: "pool_entries s as n = None \<longleftrightarrow> (\<forall>a\<in>set as. b_name (buf s a) \<noteq> n)"
  by (force simp: pool_entries_def map_of_eq_None_iff)

lemma map_eqI: "(\<And>n e. m n = Some e \<longleftrightarrow> m' n = Some e) \<Longrightarrow> m = m'"
  by (rule ext) (metis not_None_eq)

lemma pool_entries_frame:
  assumes "cmd_frame A s t" "A \<inter> set as = {}"
  shows "pool_entries t as = pool_entries s as"
proof -
  have "(b_name (buf t a), entry_of (buf t a)) = (b_name (buf s a), entry_of (buf s a))" if "a \<in> set as" for a
    using cmd_frame_fields [OF assms(1), of a] assms(2) that by (auto simp: entry_of_def)
  then show ?thesis unfolding pool_entries_def by (intro arg_cong [where f = map_of] map_cong) simp_all
qed

lemma pool_place_frame:
  assumes "cmd_frame A s t" "A \<inter> set ms = {}" "stay ms s t"
  shows "map (pool_place t) ms = map (pool_place s) ms"
proof (rule map_cong [OF refl])
  fix a assume "a \<in> set ms"
  then show "pool_place t a = pool_place s a"
    using cmd_frame_fields(1) [OF assms(1), of a] assms(2,3) by (auto simp: pool_place_def stay_def)
qed

lemma drop_place: "drop_names N (map (pool_place s) ms) = map (pool_place s) (filter (\<lambda>a. b_name (buf s a) \<notin> N) ms)"
  by (induction ms) (simp_all add: drop_names_def pool_place_def)

lemma names_inj:
  assumes "pool_inv s as ms" "a \<in> set as" "E \<subseteq> set as"
  shows "b_name (buf s a) \<in> (\<lambda>b. b_name (buf s b)) ` E \<longleftrightarrow> a \<in> E"
  using name_unique [OF assms(1,2)] assms(3) by auto

lemma drop_place_set:
  assumes "pool_inv s as ms" "E \<subseteq> set as"
  shows "drop_names ((\<lambda>b. b_name (buf s b)) ` E) (map (pool_place s) ms) = map (pool_place s) (filter (\<lambda>a. a \<notin> E) ms)"
proof -
  have "filter (\<lambda>a. b_name (buf s a) \<notin> (\<lambda>b. b_name (buf s b)) ` E) ms = filter (\<lambda>a. a \<notin> E) ms"
    by (rule filter_cong [OF refl]) (use names_inj [OF assms(1) _ assms(2)] pool_inv_parts(3) [OF assms(1)] in blast)
  then show ?thesis unfolding drop_place by (rule arg_cong)
qed

section \<open>Room, seen from both sides\<close>

lemma block_end:
  assumes "pool_inv s as ms" "a \<in> set ms"
  shows "n_end (mm_nodes (p_mm s)) a = n_start (mm_nodes (p_mm s)) a + b_size (buf s a)"
proof -
  have "a \<in> set as" "buffer_ok s ms a" using pool_inv_parts(3,5) [OF assms(1)] assms(2) by auto
  then show ?thesis using assms(2) by (simp add: buffer_ok_def n_end_def n_start_def n_size_def)
qed

lemma room_view:
  assumes inv: "pool_inv s as ms" and xs: "set xs \<subseteq> set ms"
  shows "room (pool_entries s as) (map (pool_place s) xs) sz off \<longleftrightarrow> free_place s xs sz off"
proof -
  have "n_end (mm_nodes (p_mm s)) a = n_start (mm_nodes (p_mm s)) a + e_size (the (pool_entries s as (b_name (buf s a))))"
    if "a \<in> set xs" for a
  proof -
    have "a \<in> set ms" "a \<in> set as" using pool_inv_parts(3) [OF inv] xs that by auto
    then show ?thesis using block_end [OF inv] pool_entries_at [OF inv] by (simp add: entry_of_def)
  qed
  then show ?thesis by (auto simp: room_def free_place_def pool_place_def)
qed

text \<open>The block of each buffer in the pool meets no other.\<close>

lemma placed_free:
  assumes inv: "pool_inv s as ms" and a: "a \<in> set ms"
  shows "free_place s (filter (\<lambda>b. b \<noteq> a) ms) (b_size (buf s a)) (n_start (mm_nodes (p_mm s)) a)"
proof -
  obtain ns hs where ok: "mm_ok 0 VC4_CMA_POOL_SIZE (p_mm s) ns" and mm: "mm_inv (p_mm s) ns hs" and ns: "set ns = set ms"
    by (rule pool_inv_mm [OF inv])
  have e: "n_end (mm_nodes (p_mm s)) a = n_start (mm_nodes (p_mm s)) a + b_size (buf s a)" by (rule block_end [OF inv a])
  have "n_start (mm_nodes (p_mm s)) a mod PAGE_SIZE = 0" using pool_inv_parts(3,5) [OF inv] a by (auto simp: buffer_ok_def)
  moreover have "n_start (mm_nodes (p_mm s)) a < n_end (mm_nodes (p_mm s)) a" "n_end (mm_nodes (p_mm s)) a \<le> VC4_CMA_POOL_SIZE"
    using mm_inv_in_range(2,3) [OF mm, of a] a ns ok by (auto simp: mm_ok_def)
  moreover have "n_end (mm_nodes (p_mm s)) b \<le> n_start (mm_nodes (p_mm s)) a \<or> n_end (mm_nodes (p_mm s)) a \<le> n_start (mm_nodes (p_mm s)) b"
    if "b \<in> set ms" "b \<noteq> a" for b
    using mm_inv_disjoint [OF mm, of b a] that a ns by auto
  ultimately show ?thesis by (simp add: free_place_def e)
qed

lemma view_ok:
  assumes inv: "pool_inv s as ms"
  shows "cache_ok (view s as ms)"
proof -
  note P = pool_inv_parts [OF inv]
  have "distinct (map (\<lambda>a. b_name (buf s a)) ms)"
    using P(3,7,10) by (auto simp: distinct_map intro: inj_on_subset)
  then have "distinct (map fst (map (pool_place s) ms))" by (simp add: comp_def pool_place_def)
  moreover have "fst ` set (map (pool_place s) ms) \<subseteq> dom (pool_entries s as)"
    using pool_entries_at [OF inv] P(3) by (auto simp: pool_place_def)
  moreover have room: "room (pool_entries s as) (drop_names {n} (map (pool_place s) ms)) (e_size (the (pool_entries s as n))) off"
    if x: "(n, off) \<in> set (map (pool_place s) ms)" for n off
  proof -
    obtain a where a: "a \<in> set ms" "n = b_name (buf s a)" "off = n_start (mm_nodes (p_mm s)) a" using x by (auto simp: pool_place_def)
    have aa: "{a} \<subseteq> set as" using a(1) P(3) by auto
    have "drop_names {n} (map (pool_place s) ms) = map (pool_place s) (filter (\<lambda>b. b \<noteq> a) ms)"
      using drop_place_set [OF inv aa] by (simp add: a(2))
    moreover have "e_size (the (pool_entries s as n)) = b_size (buf s a)" using pool_entries_at [OF inv, of a] aa a(2) by (simp add: entry_of_def)
    moreover have "room (pool_entries s as) (map (pool_place s) (filter (\<lambda>b. b \<noteq> a) ms)) (b_size (buf s a)) off"
      using placed_free [OF inv a(1)] room_view [OF inv, of "filter (\<lambda>b. b \<noteq> a) ms"] a(3) by auto
    ultimately show ?thesis by simp
  qed
  moreover have "case x of (n, off) \<Rightarrow> room (pool_entries s as) (drop_names {n} (map (pool_place s) ms)) (e_size (the (pool_entries s as n))) off"
    if "x \<in> set (map (pool_place s) ms)" for x
    using room that by (cases x) (simp only: prod.case)
  ultimately show ?thesis unfolding cache_ok_def view_def cache.select_convs by blast
qed

section \<open>Paging in\<close>

lemma view_warn: "view (warn m s) as ms = view s as ms"
proof -
  have "pool_place (warn m s) = pool_place s" by (rule ext) (simp add: pool_place_def)
  then show ?thesis by (simp add: view_def pool_entries_def)
qed

lemma evictable_unpinned:
  assumes inv: "pool_inv s as ms" and a: "a \<in> set as"
  shows "b_name (buf s a) \<in> unpinned (view s as ms) \<longleftrightarrow> evictable s a"
  using pool_entries_at [OF inv a] by (simp add: unpinned_def view_def pinned_def evictable_def entry_of_def)

lemma page_in_refines:
  assumes ok: "pool_ok s as ms" and a: "a \<in> set as" "a \<notin> set ms"
  shows "\<exists>r t ms'. page_in_buffer a s = Some (r, t) \<and> pool_ok t as ms' \<and> cmd_frame {} s t \<and>
    page_in (b_name (buf s a)) (view s as ms) r (view t as ms')"
proof -
  define sz where "sz = b_size (buf s a)"
  have inv: "pool_inv s as ms" and bs: "sz \<noteq> 0" "sz \<le> VC4_CMA_POOL_SIZE"
    using ok a(1) by (auto simp: pool_ok_def size_ok_def sz_def)
  note P = pool_inv_parts [OF inv]
  have none: "{b \<in> set ms. purgeable s b} = {}" using ok P(3) by (auto simp: pool_ok_def purgeable_def)
  let ?un = "filter (\<lambda>b. \<not> evictable s b) ms"
  obtain r es t where run: "page_in_buffer a s = Some (r, if r then t else warn (No_insertion_point sz) t)"
    and t: "pool_frame s t" "stay (filter (\<lambda>b. b \<notin> es) ms) s t" "es \<subseteq> {b \<in> set ms. evictable s b}"
      "has_room s ms sz \<longrightarrow> es = {}" "r \<longleftrightarrow> (\<exists>q. free_place s ?un sz q)"
    and res: "if r then pool_inv t as (a # filter (\<lambda>b. b \<notin> es) ms)
       else es = {b \<in> set ms. purgeable s b} \<and> pool_inv t as (filter (\<lambda>b. b \<notin> es) ms)"
    using page_in_spec [OF inv a sz_def bs] by (elim exE conjE) (rule that)
  have frame: "cmd_frame {} s t" by (rule cmd_frame_pool [OF t(1)])
  have ents: "pool_entries t as = pool_entries s as" by (rule pool_entries_frame [OF frame]) simp
  have ent: "pool_entries s as (b_name (buf s a)) = Some (entry_of (buf s a))" "e_size (entry_of (buf s a)) = sz"
    using pool_entries_at [OF inv a(1)] by (simp_all add: entry_of_def sz_def)
  have esa: "es \<subseteq> set as" using t(3) P(3) by auto
  let ?kept = "filter (\<lambda>b. b \<notin> es) ms" and ?N = "(\<lambda>b. b_name (buf s b)) ` es"
  have kept: "map (pool_place t) ?kept = map (pool_place s) ?kept" by (rule pool_place_frame [OF frame _ t(2)]) simp
  have drop: "drop_names ?N (map (pool_place s) ms) = map (pool_place s) ?kept" by (rule drop_place_set [OF inv esa])
  show ?thesis
  proof (cases r)
    case True
    define off where "off = n_start (mm_nodes (p_mm t)) a"
    have inv': "pool_inv t as (a # ?kept)" using res True by simp
    have "a \<notin> set ?kept" using a(2) by simp
    then have "filter (\<lambda>b. b \<noteq> a) (a # ?kept) = ?kept" by (simp only: filter.simps not_True_eq_False simp_thms if_False filter_without)
    moreover have "b_size (buf t a) = sz" using pool_frame_fields(2) [OF t(1)] by (simp add: sz_def)
    ultimately have "free_place t ?kept sz off" using placed_free [OF inv', of a] by (simp add: off_def)
    then have "free_place s ?kept sz off" by (simp only: free_place_stay [OF t(2)])
    then have room: "room (pool_entries s as) (map (pool_place s) ?kept) sz off" using room_view [OF inv, of ?kept] by auto
    have "?N \<subseteq> unpinned (view s as ms) \<inter> fst ` set (c_pool (view s as ms))"
    proof
      fix n assume "n \<in> ?N"
      then obtain b where b: "b \<in> es" "n = b_name (buf s b)" by blast
      then have "b \<in> set ms" "evictable s b" "b \<in> set as" using t(3) P(3) by auto
      then show "n \<in> unpinned (view s as ms) \<inter> fst ` set (c_pool (view s as ms))"
        using evictable_unpinned [OF inv, of b] b(2) by (auto simp: view_def pool_place_def intro!: image_eqI [where x = "pool_place s b"])
    qed
    moreover have "(\<exists>q. room (c_entries (view s as ms)) (c_pool (view s as ms)) sz q) \<longrightarrow> ?N = {}"
      using t(4) has_room_iff [OF inv, of sz] room_view [OF inv, of ms] by (auto simp: view_def)
    ultimately have "page_in (b_name (buf s a)) (view s as ms) True
        ((view s as ms)\<lparr>c_pool := (b_name (buf s a), off) # drop_names ?N (c_pool (view s as ms))\<rparr>)"
      by (intro page_in.fits [where e = "entry_of (buf s a)"]) (use ent room drop in \<open>simp_all add: view_def\<close>)
    moreover have "(view s as ms)\<lparr>c_pool := (b_name (buf s a), off) # drop_names ?N (c_pool (view s as ms))\<rparr> = view t as (a # ?kept)"
      using kept drop ents cmd_frame_fields(1) [OF frame, of a] by (simp add: view_def pool_place_def off_def)
    moreover have "pool_ok t as (a # ?kept)" by (rule pool_ok_frame [OF ok t(1) inv'])
    ultimately show ?thesis using run True frame by (auto simp del: filter.simps)
  next
    case False
    have es: "es = {}" using res False unfolding none by simp
    have "pool_inv t as (filter (\<lambda>b. b \<notin> es) ms)" using res unfolding if_not_P [OF False] by (rule conjunct2)
    then have inv': "pool_inv t as ms" by (simp add: es)
    have "\<not> free_place s ?un sz q" for q using t(5) False by auto
    moreover have "drop_names (unpinned (view s as ms)) (map (pool_place s) ms) = map (pool_place s) ?un"
    proof -
      have "filter (\<lambda>b. b_name (buf s b) \<notin> unpinned (view s as ms)) ms = ?un"
        by (rule filter_cong [OF refl]) (use evictable_unpinned [OF inv] P(3) in blast)
      then show ?thesis unfolding drop_place by (rule arg_cong)
    qed
    ultimately have "\<forall>q. \<not> room (c_entries (view s as ms)) (drop_names (unpinned (view s as ms)) (c_pool (view s as ms))) sz q"
      using room_view [OF inv, of ?un] by (auto simp: view_def)
    then have "page_in (b_name (buf s a)) (view s as ms) False (view s as ms)"
      by (intro page_in.full [where e = "entry_of (buf s a)"]) (use ent in \<open>simp_all add: view_def\<close>)
    moreover have "view (warn (No_insertion_point sz) t) as ms = view s as ms"
      unfolding view_warn using kept ents es by (simp add: view_def)
    moreover have "pool_ok (warn (No_insertion_point sz) t) as ms" by (rule pool_ok_warn [OF pool_ok_frame [OF ok t(1) inv']])
    moreover have "cmd_frame {} s (warn (No_insertion_point sz) t)" using frame by (simp add: cmd_frame_warn)
    moreover have "page_in_buffer a s = Some (False, warn (No_insertion_point sz) t)" using run False by (simp del: not_None_eq)
    ultimately show ?thesis
      by (intro exI [of _ False] exI [of _ "warn (No_insertion_point sz) t"] exI [of _ ms]) (simp only: simp_thms)
  qed
qed

end
