(* ===== verification/Pool_Refine.thy ===== *)
theory Pool_Refine
  imports Pool_View
begin

text \<open>
  Every command of the log, whatever its text, is a step of the abstract machine. This fixes what a
  command does, that it returns, and that it keeps the invariant.
\<close>

section \<open>What a line asks for\<close>

definition parse_args :: "string \<Rightarrow> u32 \<Rightarrow> string \<Rightarrow> command" where
  "parse_args word name args =
     (if word = ''create'' then (case sscanf_zu args of None \<Rightarrow> Nothing | Some (sz, rest) \<Rightarrow> Create name sz (more_args rest))
      else if args \<noteq> [] then Nothing
      else if word = ''destroy'' then Destroy name
      else if word = ''add_usecnt'' then Set_usecnt name True
      else if word = ''remove_usecnt'' then Set_usecnt name False
      else if word = ''use'' then Use name
      else Nothing)"

definition parse_command :: "string \<Rightarrow> command" where
  "parse_command s = (case strchr (CHR '' '') s of None \<Rightarrow> Nothing
     | Some (word, args) \<Rightarrow> (case sscanf_x32 args of None \<Rightarrow> Nothing
         | Some (name, rest) \<Rightarrow> parse_args word name (dropWhile isspace rest)))"

definition parse_line :: "string \<Rightarrow> command" where
  "parse_line line = (case strstr_after command_marker line of None \<Rightarrow> Nothing | Some s \<Rightarrow> parse_command s)"

text \<open>The one thing that aborts: a new buffer of no size, or of more than the pool.\<close>

definition command_ok :: "command \<Rightarrow> bool" where
  "command_ok cmd \<longleftrightarrow> (case cmd of Create name sz un \<Rightarrow> size_ok sz | _ \<Rightarrow> True)"

section \<open>Refinement of one command\<close>

definition refines :: "(pool \<Rightarrow> pool option) \<Rightarrow> command \<Rightarrow> pool \<Rightarrow> addr list \<Rightarrow> addr list \<Rightarrow> bool" where
  "refines f cmd s as ms \<longleftrightarrow> (\<exists>t as' ms'. f s = Some t \<and> pool_ok t as' ms' \<and> cache_step cmd (view s as ms) (view t as' ms') \<and>
     cmd_frame UNIV s t \<and> length as' \<le> Suc (length as))"

lemma refinesI:
  assumes "f s = Some t" "pool_ok t as' ms'" "cache_step cmd (view s as ms) (view t as' ms')" "cmd_frame A s t" "length as' \<le> Suc (length as)"
  shows "refines f cmd s as ms"
proof -
  have "cmd_frame UNIV s t" using assms(4) by (simp add: cmd_frame_def)
  then show ?thesis using assms unfolding refines_def by blast
qed

lemma refines_warn:
  assumes "f s = Some (warn m s)" "pool_ok s as ms" "cache_step cmd (view s as ms) (view s as ms)"
  shows "refines f cmd s as ms"
  by (rule refinesI [where A = "{}" and t = "warn m s" and ms' = ms and as' = as])
    (use assms pool_ok_warn [OF assms(2)] in \<open>simp_all add: view_warn cmd_frame_warn cmd_frame_refl\<close>)

lemma view_missing:
  "\<forall>a\<in>set as. b_name (buf s a) \<noteq> name \<Longrightarrow> c_entries (view s as ms) name = None"
  by (simp add: view_def pool_entries_None)

lemma view_found:
  "pool_inv s as ms \<Longrightarrow> a \<in> set as \<Longrightarrow> p_bufs s a = Some b \<Longrightarrow> c_entries (view s as ms) (b_name b) = Some (entry_of b)"
  using pool_entries_at [of s as ms a] by (simp add: view_def)

subsection \<open>destroy\<close>

lemma entries_drop:
  assumes inv: "pool_inv s as ms" and inv': "pool_inv t (filter (\<lambda>c. c \<noteq> a) as) ms'" and f: "cmd_frame {a} s t" and a: "a \<in> set as"
  shows "pool_entries t (filter (\<lambda>c. c \<noteq> a) as) = (pool_entries s as)(b_name (buf s a) := None)"
proof (rule map_eqI)
  fix n e
  have u: "b_name (buf s c) = b_name (buf s a) \<longleftrightarrow> c = a" if "c \<in> set as" for c using name_unique [OF inv that a] by blast
  have same: "b_name (buf t c) = b_name (buf s c)" "entry_of (buf t c) = entry_of (buf s c)" if "c \<noteq> a" for c
    using cmd_frame_fields [OF f, of c] that by (simp_all add: entry_of_def)
  have "pool_entries t (filter (\<lambda>c. c \<noteq> a) as) n = Some e \<longleftrightarrow> (\<exists>c\<in>set as. c \<noteq> a \<and> b_name (buf s c) = n \<and> e = entry_of (buf s c))"
    unfolding pool_entries_Some [OF inv'] using same by auto
  also have "\<dots> \<longleftrightarrow> n \<noteq> b_name (buf s a) \<and> (\<exists>c\<in>set as. b_name (buf s c) = n \<and> e = entry_of (buf s c))"
    using u by auto
  finally show "pool_entries t (filter (\<lambda>c. c \<noteq> a) as) n = Some e \<longleftrightarrow> ((pool_entries s as)(b_name (buf s a) := None)) n = Some e"
    by (auto simp: pool_entries_Some [OF inv])
qed

lemma free_buffer_refines:
  assumes ok: "pool_ok s as ms" and a: "a \<in> set as"
  shows "refines (free_buffer a) (Destroy (b_name (buf s a))) s as ms"
proof -
  have inv: "pool_inv s as ms" by (rule pool_ok_inv [OF ok])
  let ?as = "filter (\<lambda>c. c \<noteq> a) as" and ?ms = "filter (\<lambda>c. c \<noteq> a) ms" and ?n = "b_name (buf s a)"
  obtain t where t: "free_buffer a s = Some t" "pool_inv t ?as ?ms" "cmd_frame {a} s t" "stay ?ms s t"
    using free_buffer_spec [OF inv a] by blast
  have "size_ok (b_size (buf t c)) \<and> b_madv (buf t c) = MADV_WILLNEED" if "c \<in> set ?as" for c
    using cmd_frame_fields(2,5) [OF t(3), of c] ok that by (auto simp: pool_ok_def)
  then have ok': "pool_ok t ?as ?ms" using t(2) by (simp add: pool_ok_def)
  have "map (pool_place t) ?ms = map (pool_place s) ?ms" by (rule pool_place_frame [OF t(3) _ t(4)]) auto
  also have "\<dots> = drop_names {?n} (map (pool_place s) ms)" using drop_place_set [OF inv, of "{a}"] a by simp
  finally have "view t ?as ?ms = \<lparr>c_entries = (c_entries (view s as ms))(?n := None), c_pool = drop_names {?n} (c_pool (view s as ms))\<rparr>"
    using entries_drop [OF inv t(2,3) a] by (simp add: view_def)
  moreover have "c_entries (view s as ms) ?n = Some (entry_of (buf s a))" using pool_entries_at [OF inv a] by (simp add: view_def)
  ultimately have "cache_step (Destroy ?n) (view s as ms) (view t ?as ?ms)" by (simp only: cache_step.destroy)
  then show ?thesis by (intro refinesI [where f = "free_buffer a" and s = s and t = t, OF t(1) ok' _ t(3)]) (simp_all add: le_SucI)
qed

lemma buf_destroy_refines:
  assumes ok: "pool_ok s as ms"
  shows "refines (buf_destroy name args) (parse_args ''destroy'' name args) s as ms"
proof (cases "args = []")
  case False
  then show ?thesis by (intro refines_warn [OF _ ok]) (simp_all add: buf_destroy_def check_no_args_def parse_args_def cache_step.nothing)
next
  case True
  then have p: "parse_args ''destroy'' name args = Destroy name" by (simp add: parse_args_def)
  from pool_ok_inv [OF ok] show ?thesis
  proof (cases rule: find_buffer_cases [where name = name])
    case (found a b)
    have "buf_destroy name args s = free_buffer a s" using found True by (simp add: buf_destroy_def check_no_args_def)
    then show ?thesis using free_buffer_refines [OF ok found(1)] found(2,3) p by (simp add: refines_def)
  next
    case missing
    then have "cache_step (Destroy name) (view s as ms) (view s as ms)" using view_missing by (intro cache_step.unknown) auto
    then show ?thesis using missing True p by (intro refines_warn [OF _ ok]) (simp_all add: buf_destroy_def check_no_args_def)
  qed
qed

subsection \<open>add_usecnt and remove_usecnt\<close>

lemma entries_write:
  assumes inv: "pool_inv s as ms" and inv': "pool_inv (s\<lparr>p_bufs := (p_bufs s)(a \<mapsto> c)\<rparr>) as ms" and a: "a \<in> set as"
    and c: "b_name c = b_name (buf s a)"
  shows "pool_entries (s\<lparr>p_bufs := (p_bufs s)(a \<mapsto> c)\<rparr>) as = (pool_entries s as)(b_name (buf s a) \<mapsto> entry_of c)"
proof (rule map_eqI)
  fix n e
  have u: "b_name (buf s d) = b_name (buf s a) \<longleftrightarrow> d = a" if "d \<in> set as" for d using name_unique [OF inv that a] by blast
  have "pool_entries (s\<lparr>p_bufs := (p_bufs s)(a \<mapsto> c)\<rparr>) as n = Some e \<longleftrightarrow>
      (n = b_name (buf s a) \<and> e = entry_of c) \<or> (\<exists>d\<in>set as. d \<noteq> a \<and> b_name (buf s d) = n \<and> e = entry_of (buf s d))"
    unfolding pool_entries_Some [OF inv'] using a c by auto
  also have "\<dots> \<longleftrightarrow> ((pool_entries s as)(b_name (buf s a) \<mapsto> entry_of c)) n = Some e"
    using u by (auto simp: pool_entries_Some [OF inv])
  finally show "pool_entries (s\<lparr>p_bufs := (p_bufs s)(a \<mapsto> c)\<rparr>) as n = Some e \<longleftrightarrow>
      ((pool_entries s as)(b_name (buf s a) \<mapsto> entry_of c)) n = Some e" .
qed

lemma set_in_use:
  assumes ok: "pool_ok s as ms" and a: "a \<in> set as" "p_bufs s a = Some b"
  shows "refines (b_write a (\<lambda>b. b\<lparr>b_in_use := u\<rparr>)) (Set_usecnt (b_name b) u) s as ms"
proof -
  have inv: "pool_inv s as ms" by (rule pool_ok_inv [OF ok])
  let ?t = "s\<lparr>p_bufs := (p_bufs s)(a \<mapsto> b\<lparr>b_in_use := u\<rparr>)\<rparr>"
  have w: "b_write a (\<lambda>b. b\<lparr>b_in_use := u\<rparr>) s = Some ?t" "pool_inv ?t as ms"
    using b_write_inv [OF inv a(2), of "\<lambda>b. b\<lparr>b_in_use := u\<rparr>"] by simp_all
  have ok': "pool_ok ?t as ms" using ok w(2) a(2) by (auto simp: pool_ok_def)
  have "pool_entries ?t as = (pool_entries s as)(b_name b \<mapsto> entry_of (b\<lparr>b_in_use := u\<rparr>))"
    using entries_write [OF inv w(2) a(1)] a(2) by simp
  moreover have "pool_place ?t = pool_place s" by (rule ext) (use a(2) in \<open>simp add: pool_place_def\<close>)
  moreover have "entry_of (b\<lparr>b_in_use := u\<rparr>) = (entry_of b)\<lparr>e_in_use := u\<rparr>" by (simp add: entry_of_def)
  ultimately have "view ?t as ms = (view s as ms)\<lparr>c_entries := (c_entries (view s as ms))(b_name b \<mapsto> (entry_of b)\<lparr>e_in_use := u\<rparr>)\<rparr>"
    by (simp add: view_def)
  then have "cache_step (Set_usecnt (b_name b) u) (view s as ms) (view ?t as ms)"
    using view_found [OF inv a] by (simp add: cache_step.set_usecnt)
  moreover have "cmd_frame {a} s ?t" by (simp add: cmd_frame_def)
  ultimately show ?thesis by (intro refinesI [where f = "b_write a (\<lambda>b. b\<lparr>b_in_use := u\<rparr>)" and s = s and t = ?t, OF w(1) ok']) simp_all
qed

lemma refines_after_warn:
  assumes "refines f cmd (warn m s) as ms" "g s = f (warn m s)"
  shows "refines g cmd s as ms"
  using assms by (simp add: refines_def view_warn cmd_frame_def)

lemma buf_add_usecnt_refines:
  assumes ok: "pool_ok s as ms"
  shows "refines (buf_add_usecnt name args) (parse_args ''add_usecnt'' name args) s as ms"
proof (cases "args = []")
  case False
  then show ?thesis by (intro refines_warn [OF _ ok]) (simp_all add: buf_add_usecnt_def check_no_args_def parse_args_def cache_step.nothing)
next
  case True
  then have p: "parse_args ''add_usecnt'' name args = Set_usecnt name True" by (simp add: parse_args_def)
  from pool_ok_inv [OF ok] show ?thesis
  proof (cases rule: find_buffer_cases [where name = name])
    case (found a b)
    let ?w = "b_write a (\<lambda>b. b\<lparr>b_in_use := True\<rparr>)" and ?m = "Already_in_use (p_line_num s) name"
    have run: "buf_add_usecnt name args s = ?w (if b_in_use b then warn ?m s else s)"
      using found True by (simp add: buf_add_usecnt_def check_no_args_def)
    show ?thesis
    proof (cases "b_in_use b")
      case True
      have "refines ?w (Set_usecnt (b_name b) True) (warn ?m s) as ms"
        by (rule set_in_use [OF pool_ok_warn [OF ok] found(1)]) (use found(2) in simp)
      then show ?thesis unfolding p found(3) by (rule refines_after_warn) (use run True in simp)
    next
      case False
      then show ?thesis using set_in_use [OF ok found(1,2)] run found(3) by (simp add: p refines_def)
    qed
  next
    case missing
    then have "cache_step (Set_usecnt name True) (view s as ms) (view s as ms)" using view_missing by (intro cache_step.unknown) auto
    then show ?thesis using missing True p by (intro refines_warn [OF _ ok]) (simp_all add: buf_add_usecnt_def check_no_args_def)
  qed
qed

lemma buf_remove_usecnt_refines:
  assumes ok: "pool_ok s as ms"
  shows "refines (buf_remove_usecnt name args) (parse_args ''remove_usecnt'' name args) s as ms"
proof (cases "args = []")
  case False
  then show ?thesis by (intro refines_warn [OF _ ok]) (simp_all add: buf_remove_usecnt_def check_no_args_def parse_args_def cache_step.nothing)
next
  case True
  then have p: "parse_args ''remove_usecnt'' name args = Set_usecnt name False" by (simp add: parse_args_def)
  from pool_ok_inv [OF ok] show ?thesis
  proof (cases rule: find_buffer_cases [where name = name])
    case (found a b)
    let ?w = "b_write a (\<lambda>b. b\<lparr>b_in_use := False\<rparr>)" and ?m = "Not_in_use (p_line_num s) name"
    have run: "buf_remove_usecnt name args s = ?w (if \<not> b_in_use b then warn ?m s else s)"
      using found True by (simp add: buf_remove_usecnt_def check_no_args_def)
    show ?thesis
    proof (cases "b_in_use b")
      case False
      have "refines ?w (Set_usecnt (b_name b) False) (warn ?m s) as ms"
        by (rule set_in_use [OF pool_ok_warn [OF ok] found(1)]) (use found(2) in simp)
      then show ?thesis unfolding p found(3) by (rule refines_after_warn) (use run False in simp)
    next
      case True
      then show ?thesis using set_in_use [OF ok found(1,2)] run found(3) by (simp add: p refines_def)
    qed
  next
    case missing
    then have "cache_step (Set_usecnt name False) (view s as ms) (view s as ms)" using view_missing by (intro cache_step.unknown) auto
    then show ?thesis using missing True p by (intro refines_warn [OF _ ok]) (simp_all add: buf_remove_usecnt_def check_no_args_def)
  qed
qed

subsection \<open>use\<close>

lemma hit_refines:
  assumes ok: "pool_ok s as ms" and a: "a \<in> set ms" and s1: "on_mru (list_del a) s = Some s1"
  shows "refines (\<lambda>s. on_mru (list_add a (p_mru_head s1)) s1) (Use (b_name (buf s a))) s as ms"
proof -
  have inv: "pool_inv s as ms" by (rule pool_ok_inv [OF ok])
  let ?ms = "a # filter (\<lambda>b. b \<noteq> a) ms" and ?n = "b_name (buf s a)"
  obtain l where l: "on_mru (list_add a (p_mru_head s1)) s1 = Some (s\<lparr>p_mru_list := l\<rparr>)" "pool_inv (s\<lparr>p_mru_list := l\<rparr>) as ?ms"
    using move_to_front [OF inv a] s1 by auto
  let ?t = "s\<lparr>p_mru_list := l\<rparr>"
  have aa: "a \<in> set as" using pool_inv_parts(3) [OF inv] a by blast
  have "drop_names {?n} (map (pool_place s) ms) = map (pool_place s) (filter (\<lambda>b. b \<noteq> a) ms)"
    using drop_place_set [OF inv, of "{a}"] aa by simp
  moreover have "pool_place ?t = pool_place s" by (rule ext) (simp add: pool_place_def)
  ultimately have "view ?t as ?ms = (view s as ms)\<lparr>c_pool := (?n, n_start (mm_nodes (p_mm s)) a) # drop_names {?n} (c_pool (view s as ms))\<rparr>"
    by (simp add: view_def pool_entries_def) (simp add: pool_place_def)
  moreover have "c_entries (view s as ms) ?n = Some (entry_of (buf s a))" using pool_entries_at [OF inv aa] by (simp add: view_def)
  moreover have "(?n, n_start (mm_nodes (p_mm s)) a) \<in> set (c_pool (view s as ms))" using a by (auto simp: view_def pool_place_def)
  ultimately have "cache_step (Use ?n) (view s as ms) (view ?t as ?ms)" by (simp only: cache_step.hit)
  moreover have "pool_ok ?t as ?ms" using ok l(2) by (simp add: pool_ok_def)
  ultimately show ?thesis
    by (intro refinesI [where t = ?t and A = "{}" and as' = as and ms' = ?ms]) (use l(1) in \<open>simp_all add: cmd_frame_def\<close>)
qed

lemma miss_refines:
  assumes ok: "pool_ok s as ms" and a: "a \<in> set as" "a \<notin> set ms"
  shows "refines (\<lambda>s. map_option snd (page_in_buffer a s)) (Use (b_name (buf s a))) s as ms"
proof -
  have inv: "pool_inv s as ms" by (rule pool_ok_inv [OF ok])
  let ?n = "b_name (buf s a)"
  obtain r t ms' where t: "page_in_buffer a s = Some (r, t)" "pool_ok t as ms'" "cmd_frame {} s t" "page_in ?n (view s as ms) r (view t as ms')"
    using page_in_refines [OF ok a] by blast
  have "c_entries (view s as ms) ?n = Some (entry_of (buf s a))" using pool_entries_at [OF inv a(1)] by (simp add: view_def)
  moreover have "?n \<notin> fst ` set (c_pool (view s as ms))"
  proof
    assume "?n \<in> fst ` set (c_pool (view s as ms))"
    then obtain b where "b \<in> set ms" "b_name (buf s b) = ?n" by (auto simp: view_def pool_place_def)
    then show False using name_unique [OF inv a(1), of b] pool_inv_parts(3) [OF inv] a(2) by auto
  qed
  ultimately have "cache_step (Use ?n) (view s as ms) (view t as ms')" using t(4) cache_step.miss [OF refl] by blast
  then show ?thesis
    by (intro refinesI [where t = t and A = "{}" and as' = as and ms' = ms']) (use t in simp_all)
qed

lemma buf_use_refines:
  assumes ok: "pool_ok s as ms"
  shows "refines (buf_use name args) (parse_args ''use'' name args) s as ms"
proof (cases "args = []")
  case False
  then show ?thesis by (intro refines_warn [OF _ ok]) (simp_all add: buf_use_def check_no_args_def parse_args_def cache_step.nothing)
next
  case True
  then have p: "parse_args ''use'' name args = Use name" by (simp add: parse_args_def)
  have inv: "pool_inv s as ms" by (rule pool_ok_inv [OF ok])
  from inv show ?thesis
  proof (cases rule: find_buffer_cases [where name = name])
    case (found a b)
    have pg: "b_paged_in b \<longleftrightarrow> a \<in> set ms" using pool_inv_alive(6) [OF inv found(1)] found(2) by simp
    have n: "b_name (buf s a) = name" using found(2,3) by simp
    show ?thesis
    proof (cases "a \<in> set ms")
      case True
      obtain s1 where s1: "on_mru (list_del a) s = Some s1" using move_to_front [OF inv True] by blast
      have "buf_use name args s = on_mru (list_add a (p_mru_head s1)) s1"
        using found \<open>args = []\<close> pg True s1 by (simp add: buf_use_def check_no_args_def)
      then show ?thesis using hit_refines [OF ok True s1] n p by (simp add: refines_def)
    next
      case False
      have "buf_use name args s = map_option snd (page_in_buffer a s)"
        using found \<open>args = []\<close> pg False by (cases "page_in_buffer a s") (auto simp: buf_use_def check_no_args_def)
      then show ?thesis using miss_refines [OF ok found(1) False] n p by (simp add: refines_def)
    qed
  next
    case missing
    then have "cache_step (Use name) (view s as ms) (view s as ms)" using view_missing by (intro cache_step.unknown) auto
    then show ?thesis using missing True p by (intro refines_warn [OF _ ok]) (simp_all add: buf_use_def check_no_args_def)
  qed
qed

subsection \<open>create\<close>

lemma view_created:
  assumes inv: "pool_inv s as ms" and a: "a \<notin> set as"
  shows "view (created a name sz un l s) (a # as) ms =
    (view s as ms)\<lparr>c_entries := (c_entries (view s as ms))(name \<mapsto> \<lparr>e_size = sz, e_unmoveable = un, e_in_use = False\<rparr>)\<rparr>"
proof -
  let ?t = "created a name sz un l s"
  have f: "cmd_frame {a} s ?t" by (simp add: cmd_frame_def created_fields node_calloc_def)
  have "pool_entries ?t as = pool_entries s as" by (rule pool_entries_frame [OF f]) (use a in simp)
  moreover have "pool_entries ?t (a # as) = (pool_entries ?t as)(name \<mapsto> \<lparr>e_size = sz, e_unmoveable = un, e_in_use = False\<rparr>)"
    by (simp add: pool_entries_def) (simp add: created_fields entry_of_def zero_buffer_def)
  moreover have "map (pool_place ?t) ms = map (pool_place s) ms"
  proof (rule map_cong [OF refl])
    fix b assume "b \<in> set ms"
    then have "b \<noteq> a" using a pool_inv_parts(3) [OF inv] by auto
    then show "pool_place ?t b = pool_place s b" by (simp add: pool_place_def created_fields node_calloc_def n_start_def)
  qed
  ultimately show ?thesis by (simp add: view_def)
qed

lemma buf_create_refines:
  assumes ok: "pool_ok s as ms" and cal: "fresh s (calloc s)" and cmd: "command_ok (parse_args ''create'' name args)"
  shows "refines (buf_create calloc name args) (parse_args ''create'' name args) s as ms"
proof -
  have inv: "pool_inv s as ms" by (rule pool_ok_inv [OF ok])
  from inv show ?thesis
  proof (cases rule: find_buffer_cases [where name = name])
    case (found a b)
    have "cache_step (parse_args ''create'' name args) (view s as ms) (view s as ms)"
    proof (cases "sscanf_zu args")
      case None
      then show ?thesis by (simp add: parse_args_def cache_step.nothing)
    next
      case (Some v)
      then show ?thesis using view_found [OF inv found(1,2)] found(3) by (cases v) (auto simp: parse_args_def intro: cache_step.exists)
    qed
    then show ?thesis using found by (intro refines_warn [OF _ ok]) (simp_all add: buf_create_def)
  next
    case missing
    show ?thesis
    proof (cases "sscanf_zu args")
      case None
      then show ?thesis using missing by (intro refines_warn [OF _ ok]) (simp_all add: buf_create_def parse_args_def cache_step.nothing)
    next
      case (Some v)
      then obtain sz rest where v: "sscanf_zu args = Some (sz, rest)" by (cases v) auto
      let ?un = "more_args rest" and ?a = "calloc s"
      have p: "parse_args ''create'' name args = Create name sz ?un" using v by (simp add: parse_args_def)
      have sz: "size_ok sz" using cmd by (simp add: p command_ok_def)
      have a: "?a \<noteq> NULL" "?a \<notin> set as" using cal pool_inv_parts(4) [OF inv] by (auto simp: fresh_def valid_ptr_def)
      obtain l where l: "list_add ?a (p_all_head s) ((p_all_list s)(?a \<mapsto> zero_list_head)) = Some l"
        "pool_inv (created ?a name sz ?un l s) (?a # as) ms" using create_memory [OF inv cal missing(1)] by blast
      let ?t = "created ?a name sz ?un l s"
      have f: "cmd_frame {?a} s ?t" by (simp add: cmd_frame_def created_fields node_calloc_def)
      have "size_ok (b_size (buf ?t c)) \<and> b_madv (buf ?t c) = MADV_WILLNEED" if "c \<in> set (?a # as)" for c
        using that sz ok by (auto simp: pool_ok_def created_fields)
      then have okt: "pool_ok ?t (?a # as) ms" using l(2) by (simp add: pool_ok_def)
      have am: "?a \<notin> set ms" using a(2) pool_inv_parts(3) [OF inv] by blast
      obtain r u ms' where u: "page_in_buffer ?a ?t = Some (r, u)" "pool_ok u (?a # as) ms'" "cmd_frame {} ?t u"
        "page_in (b_name (buf ?t ?a)) (view ?t (?a # as) ms) r (view u (?a # as) ms')"
        using page_in_refines [OF okt _ am] by auto
      have "b_name (buf ?t ?a) = name" by (simp add: created_fields)
      then have "cache_step (Create name sz ?un) (view s as ms) (view u (?a # as) ms')"
        using cache_step.create [OF refl view_missing [OF missing(1)]] u(4) view_created [OF inv a(2)] by simp
      moreover have "buf_create calloc name args s = Some u"
        using missing(2) v a(1) l(1) u(1)
        by (simp add: buf_create_def b_write_def on_all_def buffer_calloc_def created_def Let_def)
      moreover have "cmd_frame {?a} s u" by (rule cmd_frame_trans [OF f u(3)]) simp_all
      ultimately show ?thesis unfolding p
        by (intro refinesI [where t = u and A = "{?a}" and as' = "?a # as" and ms' = ms']) (use u(2) in simp_all)
    qed
  qed
qed

subsection \<open>madv\<close>

text \<open>The loop over the table returns in its first round, so no advice is ever taken and none refused.\<close>

lemma buf_madv_spec:
  assumes ok: "pool_ok s as ms"
  shows "buf_madv name args s = Some (if \<exists>a\<in>set as. b_name (buf s a) = name then s else warn (Unknown_buffer (p_line_num s) name) s)"
  using pool_ok_inv [OF ok]
proof (cases rule: find_buffer_cases [where name = name])
  case (found a b)
  have "b\<lparr>b_madv := MADV_WILLNEED\<rparr> = b" using ok found(1,2) by (cases b) (auto simp: pool_ok_def)
  moreover have "(p_bufs s)(a \<mapsto> b) = p_bufs s" using found(2) by (simp add: fun_upd_idem)
  ultimately have "c_when w (b_write a (\<lambda>b. b\<lparr>b_madv := MADV_WILLNEED\<rparr>)) s = Some s" for w
    using found(2) by (simp add: c_when_def b_write_def)
  then show ?thesis using found by (auto simp: buf_madv_def madv_map_def madv_loop_def)
next
  case missing
  then show ?thesis by (auto simp: buf_madv_def)
qed

lemma buf_madv_refines:
  assumes ok: "pool_ok s as ms"
  shows "refines (buf_madv name args) Nothing s as ms"
proof (cases "\<exists>a\<in>set as. b_name (buf s a) = name")
  case True
  then have "buf_madv name args s = Some s" using buf_madv_spec [OF ok] by simp
  then show ?thesis
    by (intro refinesI [where t = s and A = "{}" and as' = as and ms' = ms]) (use ok in \<open>simp_all add: cache_step.nothing cmd_frame_refl\<close>)
next
  case False
  then show ?thesis using buf_madv_spec [OF ok] by (intro refines_warn [OF _ ok]) (simp_all add: cache_step.nothing)
qed

end
