(* ===== verification/Pool_Log.thy ===== *)
theory Pool_Log
  imports Pool_Refine
begin

text \<open>
  The log: its lines, the dump, the whole file and the whole program.
\<close>

section \<open>Commands and lines\<close>

lemma run_command_refines:
  assumes ok: "pool_ok s as ms" and cal: "fresh s (calloc s)" and cmd: "command_ok (parse_args word name args)"
  shows "refines (run_command word start (commands calloc) name args) (parse_args word name args) s as ms"
proof -
  consider "word = ''destroy''" | "word = ''add_usecnt''" | "word = ''remove_usecnt''" | "word = ''create''" | "word = ''use''"
    | "word = ''madv''" | "word \<notin> {''destroy'', ''add_usecnt'', ''remove_usecnt'', ''create'', ''use'', ''madv''}"
    unfolding insert_iff empty_iff by argo
  then show ?thesis
  proof cases
    case 1
    then show ?thesis using buf_destroy_refines [OF ok] by (simp add: commands_def refines_def)
  next
    case 2
    then show ?thesis using buf_add_usecnt_refines [OF ok] by (simp add: commands_def refines_def)
  next
    case 3
    then show ?thesis using buf_remove_usecnt_refines [OF ok] by (simp add: commands_def refines_def)
  next
    case 4
    then show ?thesis using buf_create_refines [where calloc = calloc, OF ok cal] cmd by (simp add: commands_def refines_def)
  next
    case 5
    then show ?thesis using buf_use_refines [OF ok] by (simp add: commands_def refines_def)
  next
    case 6
    then have "parse_args word name args = Nothing" by (simp add: parse_args_def)
    then show ?thesis using buf_madv_refines [OF ok] 6 by (simp add: commands_def refines_def)
  next
    case 7
    then have "parse_args word name args = Nothing" by (simp add: parse_args_def)
    moreover have "run_command word start (commands calloc) name args s = Some (warn (Unknown_command start (p_line_num s)) s)"
      using 7 by (auto simp: commands_def)
    ultimately show ?thesis by (intro refines_warn [OF _ ok]) (simp_all add: cache_step.nothing)
  qed
qed

lemma refines_idle:
  assumes "f s = Some s" "pool_ok s as ms"
  shows "refines f Nothing s as ms"
  by (rule refinesI [where t = s and A = "{}" and as' = as and ms' = ms]) (use assms in \<open>simp_all add: cache_step.nothing cmd_frame_refl\<close>)

lemma process_command_refines:
  assumes ok: "pool_ok s as ms" and cal: "fresh s (calloc s)" and cmd: "command_ok (parse_command str)"
  shows "refines (process_command calloc str) (parse_command str) s as ms"
proof (cases "strchr (CHR '' '') str")
  case None
  then show ?thesis using refines_idle [OF _ ok] by (simp add: process_command_def parse_command_def)
next
  case (Some v)
  then obtain word args where v: "strchr (CHR '' '') str = Some (word, args)" by (cases v) auto
  show ?thesis
  proof (cases "sscanf_x32 args")
    case None
    then show ?thesis using v by (intro refines_warn [OF _ ok]) (simp_all add: process_command_def parse_command_def cache_step.nothing)
  next
    case (Some w)
    then obtain name rest where w: "sscanf_x32 args = Some (name, rest)" by (cases w) auto
    have "process_command calloc str s = run_command word str (commands calloc) name (dropWhile isspace rest) s"
      using v w by (simp add: process_command_def)
    moreover have p: "parse_command str = parse_args word name (dropWhile isspace rest)" using v w by (simp add: parse_command_def)
    ultimately show ?thesis using run_command_refines [where calloc = calloc, OF ok cal, of word name "dropWhile isspace rest" str] cmd by (simp add: refines_def)
  qed
qed

section \<open>The dump\<close>

fun commas :: "string list \<Rightarrow> string" where
  "commas [] = []"
| "commas [x] = x"
| "commas (x # y # xs) = x @ '','' @ commas (y # xs)"

text \<open>The dump as a function of what the pool holds: the buffers in it, last used first.\<close>

definition dump_text :: "pool \<Rightarrow> addr list \<Rightarrow> string" where
  "dump_text s ms = ''{'' @ newline @ ''   '' @ quoted ''overflow'' @ '': '' @ show_u64 (p_overflow s) @ '','' @ newline @
     ''   '' @ quoted ''buffers'' @ '': ['' @ commas (map (\<lambda>a. dump_buffer (buf s a) (n_start (mm_nodes (p_mm s)) a)) ms) @
     newline @ ''   ]'' @ newline @ ''}'' @ newline"

lemma commas_snoc: "commas (xs @ [x]) = (if xs = [] then x else commas xs @ '','' @ x)"
  by (induction xs rule: commas.induct) simp_all

lemma dump_data_spec:
  assumes inv: "pool_inv s as ms"
  shows "dump_data s = Some (s\<lparr>p_stdout := p_stdout s @ dump_text s ms\<rparr>)"
proof -
  note P = pool_inv_parts [OF inv]
  let ?rec = "\<lambda>a. dump_buffer (buf s a) (n_start (mm_nodes (p_mm s)) a)"
  define hd1 where "hd1 = p_stdout s @ ''{'' @ newline @ ''   '' @ quoted ''overflow'' @ '': '' @ show_u64 (p_overflow s) @ '','' @ newline @
     ''   '' @ quoted ''buffers'' @ '': [''"
  define I where "I = (\<lambda>xs t. \<exists>pre. ms = pre @ xs \<and> t = s\<lparr>p_stdout := hd1 @ commas (map ?rec pre)\<rparr>)"
  have loop: "\<exists>r. list_for_each_entry p_mru_list (p_mru_head s) dump_body (s\<lparr>p_stdout := hd1\<rparr>) = Some r \<and>
      (case r of Inl t \<Rightarrow> I [] t | Inr v \<Rightarrow> False)"
  proof (rule list_for_each_entry_rule [where xs = ms])
    show "I ms (s\<lparr>p_stdout := hd1\<rparr>)" by (simp add: I_def)
    show "is_list (p_mru_list (s\<lparr>p_stdout := hd1\<rparr>)) (p_mru_head s) ms" using P(2) by simp
    fix x ys t assume "I (x # ys) t" and path: "next_path (p_mru_list t) (x # ys @ [p_mru_head s])"
    then obtain pre where t: "ms = pre @ x # ys" "t = s\<lparr>p_stdout := hd1 @ commas (map ?rec pre)\<rparr>" by (auto simp: I_def)
    have x: "x \<in> set as" using t(1) P(3) by auto
    obtain b where b: "p_bufs s x = Some b" using pool_inv_alive(2) [OF inv x] by blast
    have "mm_nodes (p_mm s) x \<noteq> None" using pool_inv_alive(3) [OF inv x] by (simp add: live_def)
    then have st: "START (p_mm s) x = Some (n_start (mm_nodes (p_mm s)) x)" by (rule node_reads(4))
    have pv: "prev_of (p_mru_list s) x = Some (last (p_mru_head s # pre))" using is_list_prev [of "p_mru_list s" "p_mru_head s" pre "x # ys"] P(2) t(1) by simp
    have "p_mru_head s \<notin> set pre" using P(3,11) t(1) by auto
    then have first: "last pre \<noteq> p_mru_head s" if "pre \<noteq> []" using last_in_set [OF that] by metis
    have "dump_body x t = Some (Inl (s\<lparr>p_stdout := hd1 @ commas (map ?rec (pre @ [x]))\<rparr>))"
      using b st pv by (cases "pre = []") (simp_all add: dump_body_def t(2) first commas_snoc)
    moreover have "I ys (s\<lparr>p_stdout := hd1 @ commas (map ?rec (pre @ [x]))\<rparr>)" unfolding I_def
      by (rule exI [of _ "pre @ [x]"]) (simp add: t(1))
    ultimately show "\<exists>r. dump_body x t = Some r \<and> (case r of Inl s' \<Rightarrow> I ys s' \<and>
        next_path (p_mru_list s') (x # ys @ [p_mru_head s]) | Inr v \<Rightarrow> False)"
      using path by (simp add: t(2))
  qed
  show ?thesis
  proof (rule loop_ends [OF loop])
    fix t assume "list_for_each_entry p_mru_list (p_mru_head s) dump_body (s\<lparr>p_stdout := hd1\<rparr>) = Some (Inl t)" "I [] t"
    then show ?thesis by (simp add: dump_data_def I_def dump_text_def hd1_def)
  qed simp
qed

lemma pool_ok_stdout: "pool_ok s as ms \<Longrightarrow> pool_ok (s\<lparr>p_stdout := x\<rparr>) as ms"
  using pool_inv_outside [of s as ms "s\<lparr>p_stdout := x\<rparr>"] by (simp add: pool_ok_def)

lemma view_stdout: "view (s\<lparr>p_stdout := x\<rparr>) as ms = view s as ms"
proof -
  have "pool_place (s\<lparr>p_stdout := x\<rparr>) = pool_place s" by (rule ext) (simp add: pool_place_def)
  then show ?thesis by (simp add: view_def pool_entries_def)
qed

section \<open>One line\<close>

definition is_dump :: "string \<Rightarrow> bool" where
  "is_dump line \<longleftrightarrow> strstr_after command_marker line = None \<and>
     (case strip_prefix ''dump'' (dropWhile isspace line) of None \<Rightarrow> False | Some rest \<Rightarrow> \<not> more_args rest)"

text \<open>Where the structures of the program are does not change.\<close>

definition same_layout :: "pool \<Rightarrow> pool \<Rightarrow> bool" where
  "same_layout s t \<longleftrightarrow> p_all_head t = p_all_head s \<and> p_mru_head t = p_mru_head s \<and> p_evict_head t = p_evict_head s \<and>
     mm_head_node (p_mm t) = mm_head_node (p_mm s) \<and> mm_hole_stack (p_mm t) = mm_hole_stack (p_mm s)"

lemma process_line_spec:
  assumes ok: "pool_ok s as ms" and cal: "fresh s (calloc s)" and cmd: "command_ok (parse_line line)"
  shows "\<exists>t as' ms'. process_line calloc line s = Some t \<and> pool_ok t as' ms' \<and>
    cache_step (parse_line line) (view s as ms) (view t as' ms') \<and> same_layout s t \<and> p_line_num t = p_line_num s \<and>
    p_stdout t = p_stdout s @ (if is_dump line then dump_text s ms else []) \<and> length as' \<le> Suc (length as)"
proof (cases "strstr_after command_marker line")
  case (Some c)
  have "refines (process_command calloc c) (parse_command c) s as ms"
    by (rule process_command_refines [where calloc = calloc, OF ok cal]) (use cmd Some in \<open>simp add: parse_line_def\<close>)
  then obtain t as' ms' where t: "process_command calloc c s = Some t" "pool_ok t as' ms'"
    "cache_step (parse_command c) (view s as ms) (view t as' ms')" "cmd_frame UNIV s t" "length as' \<le> Suc (length as)"
    by (auto simp: refines_def)
  have "same_layout s t" "p_line_num t = p_line_num s" "p_stdout t = p_stdout s" using t(4) by (simp_all add: cmd_frame_def same_layout_def)
  then show ?thesis using t Some
    by (intro exI [of _ t] exI [of _ as'] exI [of _ ms']) (simp add: process_line_def parse_line_def is_dump_def)
next
  case None
  then have p: "parse_line line = Nothing" by (simp add: parse_line_def)
  show ?thesis
  proof (cases "is_dump line")
    case True
    let ?t = "s\<lparr>p_stdout := p_stdout s @ dump_text s ms\<rparr>"
    have "process_line calloc line s = Some ?t"
      using True None dump_data_spec [OF pool_ok_inv [OF ok]] by (auto simp: process_line_def is_dump_def split: option.splits)
    then show ?thesis using True p pool_ok_stdout [OF ok]
      by (intro exI [of _ ?t] exI [of _ as] exI [of _ ms]) (simp add: view_stdout cache_step.nothing same_layout_def)
  next
    case False
    have "process_line calloc line s = Some s" using False None by (auto simp: process_line_def is_dump_def split: option.splits)
    then show ?thesis using False p ok
      by (intro exI [of _ s] exI [of _ as] exI [of _ ms]) (simp add: cache_step.nothing same_layout_def)
  qed
qed

section \<open>The file\<close>

text \<open>The strings that successive calls of \<open>fgets\<close> leave in the buffer.\<close>

function log_lines :: "string \<Rightarrow> string list" where
  "log_lines file = (if file = [] then [] else (let (line, file') = read_line 1023 file in c_string line # log_lines file'))"
  by pat_completeness auto

termination
  by (relation "measure length") (simp_all, metis numeral_eq_Suc read_line_less snd_conv)

declare log_lines.simps [simp del]

text \<open>\<open>calloc\<close> succeeds while there are fewer than \<open>n\<close> buffers, with memory that is in no use.\<close>

definition calloc_ok :: "nat \<Rightarrow> (pool \<Rightarrow> addr) \<Rightarrow> bool" where
  "calloc_ok n calloc \<longleftrightarrow> (\<forall>s. card (dom (p_bufs s)) < n \<longrightarrow> fresh s (calloc s))"

lemma calloc_ok_fresh: "calloc_ok n calloc \<Longrightarrow> pool_ok s as ms \<Longrightarrow> length as < n \<Longrightarrow> fresh s (calloc s)"
  using pool_inv_parts(4,9) [OF pool_ok_inv] by (auto simp: calloc_ok_def distinct_card)

lemma process_lines_spec:
  assumes "pool_ok s as ms" and "calloc_ok n calloc" and "\<forall>line\<in>set (log_lines str). command_ok (parse_line line)"
    and "length as + length (log_lines str) \<le> n"
  shows "\<exists>t as' ms'. process_lines calloc str s = Some t \<and> pool_ok t as' ms' \<and>
    cache_run (map parse_line (log_lines str)) (view s as ms) (view t as' ms') \<and> same_layout s t \<and>
    p_line_num t = p_line_num s + word_of_nat (length (log_lines str))"
  using assms(1,3,4)
proof (induction str arbitrary: s "as" ms rule: log_lines.induct)
  case (1 str)
  show ?case
  proof (cases "str = []")
    case True
    then show ?thesis using 1(2) by (intro exI [of _ s] exI [of _ as] exI [of _ ms])
      (simp add: process_lines.simps log_lines.simps cache_run.stop same_layout_def)
  next
    case False
    obtain line str' where rl: "read_line 1023 str = (line, str')" by fastforce
    have L: "log_lines str = c_string line # log_lines str'" using False rl by (subst log_lines.simps) simp
    have "length as < n" using 1(4) L by simp
    then have cal: "fresh s (calloc s)" using calloc_ok_fresh assms(2) 1(2) by blast
    obtain t as' ms' where t: "process_line calloc (c_string line) s = Some t" "pool_ok t as' ms'"
      "cache_step (parse_line (c_string line)) (view s as ms) (view t as' ms')" "same_layout s t" "p_line_num t = p_line_num s"
      "length as' \<le> Suc (length as)"
      using process_line_spec [where calloc = calloc, OF 1(2) cal, of "c_string line"] 1(3) L by auto
    let ?t = "t\<lparr>p_line_num := p_line_num t + 1\<rparr>"
    have ok: "pool_ok ?t as' ms'" using t(2) pool_inv_outside [of t as' ms' ?t] by (simp add: pool_ok_def)
    have "pool_place ?t = pool_place t" by (rule ext) (simp add: pool_place_def)
    then have v: "view ?t as' ms' = view t as' ms'" by (simp add: view_def pool_entries_def)
    obtain u as'' ms'' where u: "process_lines calloc str' ?t = Some u" "pool_ok u as'' ms''"
      "cache_run (map parse_line (log_lines str')) (view t as' ms') (view u as'' ms'')" "same_layout ?t u"
      "p_line_num u = p_line_num ?t + word_of_nat (length (log_lines str'))"
      using 1(1) [OF False rl [symmetric] refl ok, unfolded v] 1(3,4) t(6) L by auto
    have "process_lines calloc str s = Some u" using False rl t(1) u(1) by (subst process_lines.simps) simp
    moreover have "cache_run (map parse_line (log_lines str)) (view s as ms) (view u as'' ms'')"
      using cache_run.step [OF t(3) u(3)] by (simp add: L)
    moreover have "same_layout s u" using t(4) u(4) by (simp add: same_layout_def)
    ultimately show ?thesis using u(2,5) t(5) L by (intro exI [of _ u] exI [of _ as''] exI [of _ ms'']) simp
  qed
qed

end
