(* ===== verification/Pool_Main.thy ===== *)
theory Pool_Main
  imports Pool_Log
begin

text \<open>
  The whole program: from the zeroed structures to the end of \<open>main\<close>.
\<close>

section \<open>Freeing everything\<close>

lemma free_buffers_spec:
  assumes inv: "pool_inv s as ms"
  shows "\<exists>t. free_buffers s = Some t \<and> pool_inv t [] [] \<and> p_stderr t = p_stderr s \<and> p_stdout t = p_stdout s"
proof -
  let ?body = "\<lambda>buf s. map_option (Inl :: pool \<Rightarrow> pool + unit) (free_buffer buf s)"
  define I where "I = (\<lambda>xs t. (\<exists>ms. pool_inv t xs ms) \<and> p_all_head t = p_all_head s \<and> p_stderr t = p_stderr s \<and> p_stdout t = p_stdout s)"
  have loop: "\<exists>r. list_for_each_entry_safe p_all_list (p_all_head s) ?body s = Some r \<and>
      (case r of Inl t \<Rightarrow> I [] t | Inr v \<Rightarrow> False)"
  proof (rule list_for_each_entry_safe_rule [where xs = "as"])
    show "I as s" using inv by (auto simp: I_def)
    show "is_list (p_all_list s) (p_all_head s) as" by (rule pool_inv_parts(1) [OF inv])
    fix x ys t assume "I (x # ys) t"
    then obtain ms where t: "pool_inv t (x # ys) ms" "p_all_head t = p_all_head s" "p_stderr t = p_stderr s" "p_stdout t = p_stdout s"
      by (auto simp: I_def)
    have d: "x \<notin> set ys" using pool_inv_parts(9) [OF t(1)] by simp
    obtain u where u: "free_buffer x t = Some u" "pool_inv u (filter (\<lambda>c. c \<noteq> x) (x # ys)) (filter (\<lambda>c. c \<noteq> x) ms)"
      "cmd_frame {x} t u" "p_stderr u = p_stderr t"
      using free_buffer_spec [OF t(1), of x] by auto
    have inv': "pool_inv u ys (filter (\<lambda>c. c \<noteq> x) ms)" using u(2) d by (simp add: filter_without)
    have h: "p_all_head u = p_all_head s" "p_stdout u = p_stdout s" using u(3) t by (simp_all add: cmd_frame_def)
    have "next_path (p_all_list u) (ys @ [p_all_head s]) \<and> p_all_head s \<in> dom (p_all_list u)"
      using is_list_tail [of "p_all_list u" "p_all_head s" "[]" ys] pool_inv_parts(1) [OF inv'] h by simp
    moreover have "I ys u" using inv' h u(4) t(3) by (auto simp: I_def)
    ultimately show "\<exists>r. ?body x t = Some r \<and> (case r of Inl s' \<Rightarrow> I ys s' \<and>
        next_path (p_all_list s') (ys @ [p_all_head s]) \<and> p_all_head s \<in> dom (p_all_list s') | Inr v \<Rightarrow> False)"
      using u(1) by simp
  qed
  show ?thesis
  proof (rule loop_ends [OF loop])
    fix t assume t: "list_for_each_entry_safe p_all_list (p_all_head s) ?body s = Some (Inl t)" "I [] t"
    then obtain ms where ms: "pool_inv t [] ms" "p_stderr t = p_stderr s" "p_stdout t = p_stdout s" by (auto simp: I_def)
    then have "ms = []" using pool_inv_parts(3) [OF ms(1)] by simp
    then show ?thesis using t(1) ms by (simp add: free_buffers_def)
  qed simp
qed

lemma empty_pool_clean:
  assumes "pool_inv s [] []"
  shows "drm_mm_takedown (p_mm s) = Some False" "p_bufs s = Map.empty" "p_overflow s = 0"
proof -
  obtain ns hs where "mm_inv (p_mm s) ns hs" "set ns = set ([] :: addr list)" by (rule pool_inv_mm [OF assms])
  then show "drm_mm_takedown (p_mm s) = Some False"
    using list_empty_spec [of "mm_node_list (p_mm s)" "mm_head_node (p_mm s)" "[]"]
    by (simp add: drm_mm_takedown_def drm_mm_clean_def mm_inv_def)
  show "p_bufs s = Map.empty" "p_overflow s = 0" using pool_inv_parts(4,8) [OF assms] by (simp_all add: paged_out_bytes_def)
qed

section \<open>Starting\<close>

definition pool_start :: "addr \<Rightarrow> addr \<Rightarrow> pool option" where
  "pool_start d e = do {
     let s = zero_pool d e;
     s \<leftarrow> on_all (INIT_LIST_HEAD (p_all_head s)) s;
     s \<leftarrow> on_mru (INIT_LIST_HEAD (p_mru_head s)) s;
     on_mm (drm_mm_init 0 VC4_CMA_POOL_SIZE) s
   }"

lemma pool_start_spec:
  assumes "valid_ptr (d + 56)"
  shows "\<exists>s. pool_start d e = Some s \<and> pool_ok s [] [] \<and> view s [] [] = \<lparr>c_entries = Map.empty, c_pool = []\<rparr> \<and>
    p_stderr s = [] \<and> p_stdout s = []"
proof -
  let ?z = "zero_mm (d + 32) (d + 40) (d + 56)"
  have ne: "d + 40 \<noteq> d + 56" by simp
  note live = zero_mm_live [OF assms ne, of "d + 32"]
  have h: "mm_head_node ?z = d + 56" "mm_hole_stack ?z \<in> dom (mm_hole_list ?z)" by (auto simp: zero_mm_def)
  have idle: "\<forall>x. live ?z x \<longrightarrow> \<not> nd_allocated (the (mm_nodes ?z x)) \<and> \<not> nd_scanned_block (the (mm_nodes ?z x))"
    unfolding live by (simp add: zero_mm_def zero_node_def)
  have lv: "live ?z (mm_head_node ?z)" unfolding live h(1) ..
  have "\<exists>m. drm_mm_init 0 VC4_CMA_POOL_SIZE ?z = Some m \<and> mm_inv m [] [mm_head_node ?z] \<and> mm_color_adjust m = None \<and>
    mm_head_node m = mm_head_node ?z \<and> mm_hole_stack m = mm_hole_stack ?z \<and>
    n_end (mm_nodes m) (mm_head_node ?z) = 0 \<and> n_start (mm_nodes m) (mm_head_node ?z) = 0 + VC4_CMA_POOL_SIZE \<and>
    (\<forall>b. live m b = live ?z b) \<and> (\<forall>b. b \<noteq> mm_head_node ?z \<longrightarrow> mm_nodes m b = mm_nodes ?z b)"
    by (rule drm_mm_init_spec [OF lv _ h(2)]) (use idle lv in \<open>auto simp: VC4_CMA_POOL_SIZE_def\<close>)
  then obtain m where m: "drm_mm_init 0 VC4_CMA_POOL_SIZE ?z = Some m" by blast
  have okm: "mm_ok 0 VC4_CMA_POOL_SIZE m []" by (rule init_ok [OF lv h(2) idle m])
  obtain l1 where l1: "INIT_LIST_HEAD d [d \<mapsto> zero_list_head] = Some l1" "is_list l1 d []"
    using INIT_LIST_HEAD_spec [of d "[d \<mapsto> zero_list_head]"] by auto
  obtain l2 where l2: "INIT_LIST_HEAD (d + 16) [d + 16 \<mapsto> zero_list_head] = Some l2" "is_list l2 (d + 16) []"
    using INIT_LIST_HEAD_spec [of "d + 16" "[d + 16 \<mapsto> zero_list_head]"] by auto
  let ?s = "(zero_pool d e)\<lparr>p_all_list := l1, p_mru_list := l2, p_mm := m\<rparr>"
  have "pool_start d e = Some ?s"
    using l1(1) l2(1) m by (simp add: pool_start_def zero_pool_def on_all_def on_mru_def on_mm_def)
  moreover have "pool_ok ?s [] []"
    using l1(2) l2(2) okm by (simp add: pool_ok_def pool_inv_def zero_pool_def paged_out_bytes_def)
  ultimately show ?thesis by (simp add: view_def pool_entries_def) (simp add: zero_pool_def)
qed

section \<open>The whole program\<close>

text \<open>The log the program reads: the file named on the command line, or standard input.\<close>

definition main_log :: "(string \<rightharpoonup> string) \<Rightarrow> string \<Rightarrow> string list \<Rightarrow> string option" where
  "main_log files stdin argv = (if length argv > 1 then files (argv ! 1) else Some stdin)"

lemma pool_main_run:
  "pool_main calloc files stdin argv d e = do {
     s \<leftarrow> pool_start d e;
     s \<leftarrow> (case main_log files stdin argv of None \<Rightarrow> Some (warn (Cannot_open (argv ! 1)) s) | Some text \<Rightarrow> process_file calloc text s);
     s \<leftarrow> free_buffers s;
     unclean \<leftarrow> drm_mm_takedown (p_mm s);
     Some (if unclean then warn Not_clean s else s)
   }"
proof -
  have "(if length argv > 1 then process_filename calloc files (argv ! 1) s else process_file calloc stdin s) =
      (case main_log files stdin argv of None \<Rightarrow> Some (warn (Cannot_open (argv ! 1)) s) | Some text \<Rightarrow> process_file calloc text s)" for s
    by (simp add: main_log_def process_filename_def del: One_nat_def split: option.split)
  then show ?thesis by (simp only: pool_main_def pool_start_def Let_def Option.bind_assoc)
qed

lemma process_file_spec:
  assumes "pool_ok s [] []" and "calloc_ok n calloc" and "\<forall>line\<in>set (log_lines text). command_ok (parse_line line)"
    and "length (log_lines text) \<le> n"
  shows "\<exists>t as ms. process_file calloc text s = Some t \<and> pool_ok t as ms \<and>
    cache_run (map parse_line (log_lines text)) (view s [] []) (view t as ms) \<and> p_line_num t = 1 + word_of_nat (length (log_lines text))"
proof -
  let ?s = "s\<lparr>p_line_num := 1\<rparr>"
  have ok: "pool_ok ?s [] []" using assms(1) pool_inv_outside [of s "[]" "[]" ?s] by (simp add: pool_ok_def)
  have "view ?s [] [] = view s [] []" by (simp add: view_def pool_entries_def)
  then show ?thesis using process_lines_spec [OF ok assms(2,3)] assms(4) by (auto simp: process_file_def)
qed

end
