(* ===== verification/Pool_Spec.thy ===== *)
theory Pool_Spec
  imports Pool_Main
begin

text \<open>
  The properties of main.c, with the states of the examples.
\<close>

section \<open>A memory allocator for the examples\<close>

text \<open>Hands out the first address of a list that is in no use.\<close>

definition first_fresh :: "addr list \<Rightarrow> pool \<Rightarrow> addr" where
  "first_fresh xs s = (case filter (fresh s) xs of [] \<Rightarrow> NULL | a # _ \<Rightarrow> a)"

lemma first_fresh_ok:
  assumes xs: "distinct xs" "\<forall>a\<in>set xs. valid_ptr a" "n + 5 \<le> length xs"
  shows "calloc_ok n (first_fresh xs)"
  unfolding calloc_ok_def
proof (intro allI impI)
  fix s :: pool assume small: "card (dom (p_bufs s)) < n"
  let ?H = "{p_all_head s, p_mru_head s, p_evict_head s, mm_head_node (p_mm s), mm_hole_stack (p_mm s)}"
  have "filter (fresh s) xs \<noteq> []"
  proof
    assume "filter (fresh s) xs = []"
    then have "\<forall>a\<in>set xs. \<not> fresh s a" by (simp add: filter_empty_conv)
    then have "set xs \<subseteq> dom (p_bufs s) \<union> ?H" using xs(2) by (auto simp: fresh_def)
    then have "card (set xs) \<le> card (dom (p_bufs s) \<union> ?H)" by (intro card_mono) simp_all
    also have "\<dots> \<le> card (dom (p_bufs s)) + card ?H" by (rule card_Un_le)
    also have "card ?H \<le> 5" using card_length [of "[p_all_head s, p_mru_head s, p_evict_head s, mm_head_node (p_mm s), mm_hole_stack (p_mm s)]"] by simp
    finally show False using small xs(1,3) by (simp add: distinct_card)
  qed
  then obtain a r where a: "filter (fresh s) xs = a # r" by (cases "filter (fresh s) xs") auto
  then have "fresh s a" using filter_eq_ConsD [of "fresh s" xs a r] by blast
  then show "fresh s (first_fresh xs s)" using a by (simp add: first_fresh_def)
qed

definition example_calloc :: "pool \<Rightarrow> addr" where
  "example_calloc = first_fresh [0x1000, 0x2000, 0x3000, 0x4000, 0x5000, 0x6000, 0x7000, 0x8000]"

lemma example_calloc_ok: "calloc_ok 3 example_calloc"
  unfolding example_calloc_def by (rule first_fresh_ok) (simp_all add: valid_ptr_def aligned_def)

lemma example_start:
  obtains s where "pool_start 0x100 0x200 = Some s" "pool_ok s [] []" "view s [] [] = \<lparr>c_entries = Map.empty, c_pool = []\<rparr>"
proof -
  have "valid_ptr (0x100 + 56)" by (simp add: valid_ptr_def aligned_def)
  then show ?thesis using pool_start_spec [of "0x100" "0x200"] that by blast
qed

section \<open>A size that no pool can hold\<close>

lemma no_room_bad_size:
  assumes inv: "pool_inv s as ms" and sz: "\<not> size_ok sz"
  shows "\<not> has_room s ms sz"
proof
  assume "has_room s ms sz"
  then obtain q where q: "free_place s ms sz q" using has_room_iff [OF inv] by blast
  then have "sz \<noteq> 0" "q < q + sz" "q + sz \<le> VC4_CMA_POOL_SIZE" by (auto simp: free_place_def)
  moreover have "sz \<le> q + sz" using calculation(2) by (metis add.commute less_imp_le olen_add_eqv)
  ultimately show False using sz by (simp add: size_ok_def)
qed

lemma page_in_bad_size:
  assumes inv: "pool_inv s as ms" and a: "a \<in> set as" "a \<notin> set ms" and sz: "\<not> size_ok (b_size (buf s a))"
  shows "page_in_buffer a s = None"
proof -
  let ?ms = "filter (\<lambda>b. \<not> purgeable s b) ms"
  obtain s1 where s1: "userspace_cache_purge s = Some s1" "pool_inv s1 as ?ms" "pool_frame s s1"
    using userspace_cache_purge_spec [OF inv] by blast
  have sz1: "b_size (buf s1 a) = b_size (buf s a)" by (rule pool_frame_fields(2) [OF s1(3)])
  have "insert_buffer_in_cma_pool a DRM_MM_INSERT_BEST s = Some (False, s)"
    using insert_buffer_spec [OF inv a evict_mode(2)] no_room_bad_size [OF inv sz] by auto
  moreover have "insert_buffer_in_cma_pool a DRM_MM_INSERT_BEST s1 = Some (False, s1)"
    using insert_buffer_spec [OF s1(2) a(1) _ evict_mode(2)] a(2) no_room_bad_size [OF s1(2) sz] sz1 by auto
  moreover obtain b where b: "p_bufs s1 a = Some b" using pool_inv_alive(2) [OF s1(2) a(1)] by blast
  moreover have "drm_mm_scan_init_with_range (b_size b) PAGE_SIZE 0 0 VC4_CMA_POOL_SIZE DRM_MM_INSERT_BEST (p_mm s1) = None"
  proof -
    have "b_size b = 0 \<or> VC4_CMA_POOL_SIZE < b_size b" using sz sz1 b by (auto simp: size_ok_def)
    then show ?thesis by (auto simp: drm_mm_scan_init_with_range_def VC4_CMA_POOL_SIZE_def BUG_ON_def)
  qed
  ultimately show ?thesis using s1(1) by (simp add: page_in_buffer_def page_out_buffers_for_insertion_def)
qed

section \<open>The states of the examples\<close>

text \<open>A pool with one buffer of 96 MB in it, in use or not.\<close>

lemma example_one:
  obtains s a where "pool_ok s [a] [a]" "b_name (buf s a) = 1" "b_size (buf s a) = 0x6000000"
    "b_in_use (buf s a) = u" "\<not> b_unmoveable (buf s a)" "fresh s (example_calloc s)"
proof -
  obtain s0 where s0: "pool_ok s0 [] []" "view s0 [] [] = \<lparr>c_entries = Map.empty, c_pool = []\<rparr>" by (rule example_start)
  have f0: "fresh s0 (example_calloc s0)" by (rule calloc_ok_fresh [OF example_calloc_ok s0(1)]) simp
  let ?arg = "show_nat 0x6000000"
  have p: "parse_args ''create'' 1 ?arg = Create 1 0x6000000 False"
    using scan_number_show [of "0x6000000" "[]"] by (simp add: parse_args_def sscanf_zu_def)
  have c: "command_ok (parse_args ''create'' 1 ?arg)" unfolding p by (simp add: command_ok_def size_ok_def VC4_CMA_POOL_SIZE_def)
  obtain s1 as ms where s1: "pool_ok s1 as ms" "cache_step (Create 1 0x6000000 False) (view s0 [] []) (view s1 as ms)"
    "length as \<le> 1"
    using buf_create_refines [where calloc = example_calloc, OF s0(1) f0 c] unfolding refines_def p by auto
  let ?e = "\<lparr>e_size = 0x6000000, e_unmoveable = False, e_in_use = False\<rparr>"
  have r0: "room es [] 0x6000000 0" for es by (simp add: room_def VC4_CMA_POOL_SIZE_def)
  have "\<exists>off. view s1 as ms = \<lparr>c_entries = [1 \<mapsto> ?e], c_pool = [(1, off)]\<rparr>"
    using s1(2) unfolding s0(2)
  proof (cases rule: cache_step.cases)
    case (create name sz un r)
    from create(3) show ?thesis by (cases rule: page_in.cases) (use create in \<open>auto simp: drop_names_def r0 dest: spec [where x = 0]\<close>)
  qed simp_all
  then obtain off where v: "pool_entries s1 as = [1 \<mapsto> ?e]" "map (pool_place s1) ms = [(1, off)]" by (auto simp: view_def)
  obtain a where ms: "ms = [a]" using v(2) by (cases ms) auto
  note inv = pool_ok_inv [OF s1(1)]
  have "a \<in> set as" using pool_inv_parts(3) [OF inv] ms by simp
  then have as: "as = [a]" using s1(3) by (cases "as") auto
  have b: "b_name (buf s1 a) = 1" "entry_of (buf s1 a) = ?e" using v pool_entries_at [OF inv, of a] by (auto simp: ms as pool_place_def)
  obtain b1 where b1: "p_bufs s1 a = Some b1" using pool_inv_alive(2) [OF inv, of a] as by auto
  let ?s = "s1\<lparr>p_bufs := (p_bufs s1)(a \<mapsto> b1\<lparr>b_in_use := u\<rparr>)\<rparr>"
  have "pool_inv ?s [a] [a]" using b_write_inv(2) [OF inv b1, of "\<lambda>b. b\<lparr>b_in_use := u\<rparr>"] by (simp add: as ms)
  then have ok: "pool_ok ?s [a] [a]" using s1(1) b1 by (auto simp: pool_ok_def as)
  have "fresh ?s (example_calloc ?s)" by (rule calloc_ok_fresh [OF example_calloc_ok ok]) simp
  then show ?thesis using that [of ?s a] ok b b1 by (simp add: entry_of_def)
qed

lemma blocks_too_big:
  assumes "p < p + 0x6000000" "p + 0x6000000 \<le> 0x8000000" "q < q + 0x4000000" "q + 0x4000000 \<le> (0x8000000 :: u64)"
  shows "\<not> p + 0x6000000 \<le> q" "\<not> q + 0x4000000 \<le> p"
proof -
  have "unat (p + 0x6000000) = unat p + unat (0x6000000 :: u64)" "unat (q + 0x4000000) = unat q + unat (0x4000000 :: u64)"
    using unat_plus_simple less_imp_le assms(1,3) by blast+
  then show "\<not> p + 0x6000000 \<le> q" "\<not> q + 0x4000000 \<le> p" using assms(2,4) by (auto simp: word_le_nat_alt)
qed

text \<open>The same with a second buffer, of 64 MB, that has not been paged in.\<close>

lemma example_two:
  obtains s a b where "pool_ok s [b, a] [a]" "b \<noteq> a" "b_size (buf s b) = 0x4000000" "b_size (buf s a) = 0x6000000" "b_in_use (buf s a) = u"
    "\<not> b_unmoveable (buf s a)"
proof -
  obtain s a where s: "pool_ok s [a] [a]" "b_name (buf s a) = 1" "b_size (buf s a) = 0x6000000"
    "b_in_use (buf s a) = u" "\<not> b_unmoveable (buf s a)" "fresh s (example_calloc s)" by (rule example_one)
  let ?b = "example_calloc s"
  note inv = pool_ok_inv [OF s(1)]
  obtain l where inv': "pool_inv (created ?b 2 0x4000000 False l s) [?b, a] [a]"
    using create_memory [OF inv s(6), of 2] s(2) by auto
  have ne: "?b \<noteq> a" using pool_inv_parts(9) [OF inv'] by simp
  have "pool_ok (created ?b 2 0x4000000 False l s) [?b, a] [a]"
    using inv' s(1) ne by (simp add: pool_ok_def created_fields size_ok_def VC4_CMA_POOL_SIZE_def zero_buffer_def)
  then show ?thesis using that [of "created ?b 2 0x4000000 False l s" ?b a] ne s by (simp add: created_fields)
qed

section \<open>Properties\<close>

text \<open>C2: \<open>page_in_buffer\<close> on a buffer outside the pool returns, and succeeds exactly when there is a
  page-aligned interval of the pool that meets no buffer that is in use or unmoveable: the eviction
  search never misses such a place. What it pages out is neither in use nor unmoveable, nothing is
  paged out when there was room, and the buffers that stay keep their place and order. On failure a
  message is printed and only buffers that the user does not need have been paged out.\<close>

theorem page_in_buffer_exact:
  assumes "pool_inv s as ms" and "a \<in> set as" "a \<notin> set ms" and "size_ok (b_size (buf s a))"
  shows "\<exists>r es t. page_in_buffer a s = Some (r, if r then t else warn (No_insertion_point (b_size (buf s a))) t) \<and>
    pool_frame s t \<and> stay (filter (\<lambda>b. b \<notin> es) ms) s t \<and>
    es \<subseteq> {b \<in> set ms. evictable s b} \<and> (has_room s ms (b_size (buf s a)) \<longrightarrow> es = {}) \<and>
    (r \<longleftrightarrow> (\<exists>q. free_place s (filter (\<lambda>b. \<not> evictable s b) ms) (b_size (buf s a)) q)) \<and>
    (if r then pool_inv t as (a # filter (\<lambda>b. b \<notin> es) ms)
     else es = {b \<in> set ms. purgeable s b} \<and> pool_inv t as (filter (\<lambda>b. b \<notin> es) ms))"
  using page_in_spec [OF assms(1-3) refl] assms(4) by (simp add: size_ok_def)

theorem page_in_buffer_exact_witness:
  "\<exists>s a b t. pool_inv s [b, a] [a] \<and> evictable s a \<and> page_in_buffer b s = Some (True, t) \<and> pool_inv t [b, a] [b]"
proof -
  obtain s a b where s: "pool_ok s [b, a] [a]" "b \<noteq> a" "b_size (buf s b) = 0x4000000" "b_size (buf s a) = 0x6000000"
    "b_in_use (buf s a) = False" "\<not> b_unmoveable (buf s a)" by (rule example_two)
  note inv = pool_ok_inv [OF s(1)]
  have sz: "size_ok (b_size (buf s b))" using s(3) by (simp add: size_ok_def VC4_CMA_POOL_SIZE_def)
  have ev: "evictable s a" using s(5,6) by (simp add: evictable_def)
  have b: "b \<in> set [b, a]" "b \<notin> set [a]" using s(2) by simp_all
  obtain r es t where t: "page_in_buffer b s = Some (r, if r then t else warn (No_insertion_point (b_size (buf s b))) t)"
    "r \<longleftrightarrow> (\<exists>q. free_place s (filter (\<lambda>b. \<not> evictable s b) [a]) (b_size (buf s b)) q)" "es \<subseteq> {c \<in> set [a]. evictable s c}"
    "if r then pool_inv t [b, a] (b # filter (\<lambda>c. c \<notin> es) [a])
     else es = {c \<in> set [a]. purgeable s c} \<and> pool_inv t [b, a] (filter (\<lambda>c. c \<notin> es) [a])" "pool_frame s t"
    using page_in_buffer_exact [OF inv b sz] by (elim exE conjE) (rule that; assumption)
  have "free_place s [] 0x4000000 0" by (simp add: free_place_def VC4_CMA_POOL_SIZE_def)
  then have r: "r" using t(2) ev s(3) by auto
  have "a \<in> es"
  proof (rule ccontr)
    assume "a \<notin> es"
    then have ok: "pool_inv t [b, a] [b, a]" using t(4) r by simp
    have "b_size (buf t a) = 0x6000000" "b_size (buf t b) = 0x4000000" using pool_frame_fields(2) [OF t(5)] s(3,4) by simp_all
    moreover have "free_place t [b] (b_size (buf t a)) (n_start (mm_nodes (p_mm t)) a)" using placed_free [OF ok, of a] s(2) by simp
    moreover have "free_place t [a] (b_size (buf t b)) (n_start (mm_nodes (p_mm t)) b)" using placed_free [OF ok, of b] s(2) by simp
    moreover have "n_end (mm_nodes (p_mm t)) b = n_start (mm_nodes (p_mm t)) b + b_size (buf t b)"
      "n_end (mm_nodes (p_mm t)) a = n_start (mm_nodes (p_mm t)) a + b_size (buf t a)" using block_end [OF ok] by simp_all
    ultimately show False using blocks_too_big [of "n_start (mm_nodes (p_mm t)) a" "n_start (mm_nodes (p_mm t)) b"]
      by (simp add: free_place_def VC4_CMA_POOL_SIZE_def)
  qed
  then have "pool_inv t [b, a] [b]" using t(4) r by simp
  then show ?thesis using inv ev t(1) r by auto
qed

lemma sint_line_num: "n < 2 ^ 31 - 1 \<Longrightarrow> sint (1 + word_of_nat n :: i32) = 1 + int n"
proof -
  assume "n < 2 ^ 31 - 1"
  then have "signed_take_bit 31 (1 + int n) = 1 + int n" by (intro signed_take_bit_int_eq_self) simp_all
  moreover have "1 + word_of_nat n = (word_of_int (1 + int n) :: i32)" by simp
  ultimately show ?thesis by (simp add: signed_of_int del: of_int_add)
qed

text \<open>C1: The log is processed to its end, whatever its lines are, as long as memory suffices and no line
  creates a buffer of no size or of more than the pool. Line by line it does what the abstract cache
  machine does for the command that line spells, errors included, and the invariant holds at the end.
  The line counter is then one more than the number of lines, in 32 bits; for a log of fewer than
  \<open>2 ^ 31 - 1\<close> lines it has never overflowed and that is its value as an \<open>int\<close>.\<close>

theorem log_refines_cache:
  assumes "pool_start d e = Some s" "valid_ptr (d + 56)" and "calloc_ok n calloc"
    and "\<forall>line\<in>set (log_lines text). command_ok (parse_line line)" "length (log_lines text) \<le> n"
  shows "\<exists>t as ms. process_file calloc text s = Some t \<and> pool_ok t as ms \<and>
    cache_run (map parse_line (log_lines text)) \<lparr>c_entries = Map.empty, c_pool = []\<rparr> (view t as ms) \<and>
    p_line_num t = 1 + word_of_nat (length (log_lines text)) \<and>
    (length (log_lines text) < 2 ^ 31 - 1 \<longrightarrow> sint (p_line_num t) = 1 + int (length (log_lines text)))"
proof -
  have "pool_ok s [] []" "view s [] [] = \<lparr>c_entries = Map.empty, c_pool = []\<rparr>"
    using pool_start_spec [OF assms(2), of e] assms(1) by auto
  then show ?thesis using process_file_spec [OF _ assms(3-5)] sint_line_num by metis
qed

lemma log_lines_step: "text \<noteq> [] \<Longrightarrow> read_line 1023 text = (line, rest) \<Longrightarrow> log_lines text = c_string line # log_lines rest"
  by (subst log_lines.simps) simp

lemmas parse_eval = c_string_def parse_line_def command_marker_def newline_def parse_command_def parse_args_def sscanf_x32_def
  sscanf_zu_def scan_number_def scan_sign_def scan_prefix_def is_digit_def digit_value_def isspace_def digits_value_def Let_def

definition example_log :: string where
  "example_log = ''x] @@@ create 1 4096 u'' @ newline @ ''] @@@ use 1'' @ newline"

lemma example_log_lines: "map parse_line (log_lines example_log) = [Create 1 4096 True, Use 1]"
proof -
  have r1: "read_line 1023 example_log = (''x] @@@ create 1 4096 u'' @ newline, ''] @@@ use 1'' @ newline)"
    by (simp add: example_log_def newline_def numeral_eq_Suc)
  have r2: "read_line 1023 (''] @@@ use 1'' @ newline) = (''] @@@ use 1'' @ newline, [])"
    by (simp add: newline_def numeral_eq_Suc)
  have "log_lines example_log = c_string (''x] @@@ create 1 4096 u'' @ newline) # log_lines (''] @@@ use 1'' @ newline)"
    by (rule log_lines_step [OF _ r1]) (simp add: example_log_def)
  also have "log_lines (''] @@@ use 1'' @ newline) = c_string (''] @@@ use 1'' @ newline) # log_lines []"
    by (rule log_lines_step [OF _ r2]) simp
  finally have "log_lines example_log = [''x] @@@ create 1 4096 u'' @ newline, ''] @@@ use 1'' @ newline]"
    by (simp add: log_lines.simps [of "[]"] c_string_def newline_def)
  moreover have "parse_line (''x] @@@ create 1 4096 u'' @ newline) = Create 1 4096 True"
    by (simp add: parse_eval)
  moreover have "parse_line (''] @@@ use 1'' @ newline) = Use 1"
    by (simp add: parse_eval)
  ultimately show ?thesis by simp
qed

lemma example_log_ok:
  "\<forall>line\<in>set (log_lines example_log). command_ok (parse_line line)" "length (log_lines example_log) = 2"
proof -
  have "length (map parse_line (log_lines example_log)) = 2" by (simp add: example_log_lines)
  then show "length (log_lines example_log) = 2" by simp
  have "\<forall>cmd\<in>set (map parse_line (log_lines example_log)). command_ok cmd"
    unfolding example_log_lines by (simp add: command_ok_def size_ok_def VC4_CMA_POOL_SIZE_def)
  then show "\<forall>line\<in>set (log_lines example_log). command_ok (parse_line line)" by simp
qed

theorem log_refines_cache_witness:
  "\<exists>s t as ms. pool_start 0x100 0x200 = Some s \<and> process_file example_calloc example_log s = Some t \<and>
    cache_run [Create 1 4096 True, Use 1] \<lparr>c_entries = Map.empty, c_pool = []\<rparr> (view t as ms) \<and> sint (p_line_num t) = 3"
proof -
  obtain s where s: "pool_start 0x100 0x200 = Some s" by (rule example_start)
  have v: "valid_ptr (0x100 + 56)" by (simp add: valid_ptr_def aligned_def)
  have l: "length (log_lines example_log) \<le> 3" by (simp add: example_log_ok(2))
  show ?thesis using log_refines_cache [OF s v example_calloc_ok example_log_ok(1) l] s
    unfolding example_log_lines example_log_ok(2) by auto
qed

text \<open>C16: A buffer that is in use or unmoveable stays in the pool, at its place, whatever lines follow,
  until a line destroys it or ends its use.\<close>

theorem pinned_buffer_stays:
  assumes "pool_ok s as ms" and "calloc_ok n calloc" and "length as + length (log_lines text) \<le> n"
    and "\<forall>line\<in>set (log_lines text). command_ok (parse_line line) \<and>
      parse_line line \<notin> {Destroy (b_name (buf s a)), Set_usecnt (b_name (buf s a)) False}"
    and "a \<in> set ms" "\<not> evictable s a"
  shows "\<exists>t as' ms' a'. process_lines calloc text s = Some t \<and> pool_ok t as' ms' \<and> a' \<in> set ms' \<and>
    b_name (buf t a') = b_name (buf s a) \<and> n_start (mm_nodes (p_mm t)) a' = n_start (mm_nodes (p_mm s)) a"
proof -
  note inv = pool_ok_inv [OF assms(1)]
  have a: "a \<in> set as" using pool_inv_parts(3) [OF inv] assms(5) by blast
  obtain t as' ms' where t: "process_lines calloc text s = Some t" "pool_ok t as' ms'"
    "cache_run (map parse_line (log_lines text)) (view s as ms) (view t as' ms')"
    using process_lines_spec [OF assms(1,2) _ assms(3)] assms(4) by blast
  have "pool_place s a \<in> set (c_pool (view s as ms))" using assms(5) by (simp add: view_def)
  moreover have "c_entries (view s as ms) (b_name (buf s a)) = Some (entry_of (buf s a))" using pool_entries_at [OF inv a] by (simp add: view_def)
  moreover have "pinned (entry_of (buf s a))" using assms(6) by (simp add: pinned_def entry_of_def evictable_def)
  moreover have "Destroy (b_name (buf s a)) \<notin> set (map parse_line (log_lines text))"
    "Set_usecnt (b_name (buf s a)) False \<notin> set (map parse_line (log_lines text))" using assms(4) by force+
  ultimately have "pool_place s a \<in> set (c_pool (view t as' ms'))"
    using cache_run_pinned [OF t(3) _ _ view_ok [OF inv], of "b_name (buf s a)" "n_start (mm_nodes (p_mm s)) a"]
    by (simp add: pool_place_def)
  then obtain x where "x \<in> set ms'" "pool_place s a = pool_place t x" by (auto simp: view_def)
  then show ?thesis using t(1,2)
    by (intro exI [of _ t] exI [of _ as'] exI [of _ ms'] exI [of _ x]) (simp add: pool_place_def)
qed

theorem pinned_buffer_stays_witness:
  "\<exists>s a t. pool_ok s [a] [a] \<and> b_in_use (buf s a) \<and> process_lines example_calloc (''] @@@ use 1'' @ newline) s = Some t"
proof -
  obtain s a where s: "pool_ok s [a] [a]" "b_name (buf s a) = 1" "b_in_use (buf s a) = True" by (rule example_one)
  have r: "read_line 1023 (''] @@@ use 1'' @ newline) = (''] @@@ use 1'' @ newline, [])"
    by (simp add: newline_def numeral_eq_Suc)
  have L: "log_lines (''] @@@ use 1'' @ newline) = [c_string (''] @@@ use 1'' @ newline)]"
    using log_lines_step [OF _ r] by (simp add: log_lines.simps [of "[]"])
  have "length [a] + length (log_lines (''] @@@ use 1'' @ newline)) \<le> 3" unfolding L by simp
  moreover have "parse_line (c_string (''] @@@ use 1'' @ newline)) = Use 1"
    by (simp add: parse_eval)
  moreover have "a \<in> set [a]" "\<not> evictable s a" using s(3) by (simp_all add: evictable_def)
  ultimately show ?thesis
    using pinned_buffer_stays [OF s(1) example_calloc_ok, of "''] @@@ use 1'' @ newline" a] s
    unfolding L by (auto simp: command_ok_def)
qed

text \<open>C17: After the log, buffers have distinct names, those in the pool occupy disjoint page-aligned
  blocks of it of their size, and \<open>overflow\<close> is the number of bytes of all the others.\<close>

theorem pool_blocks_disjoint:
  assumes "pool_start d e = Some s" "valid_ptr (d + 56)" and "calloc_ok n calloc"
    and "\<forall>line\<in>set (log_lines text). command_ok (parse_line line)" "length (log_lines text) \<le> n"
  shows "\<exists>t as ms. process_file calloc text s = Some t \<and> dom (p_bufs t) = set as \<and> set ms \<subseteq> set as \<and>
    is_list (p_mru_list t) (p_mru_head t) ms \<and> distinct (map (\<lambda>a. b_name (buf t a)) as) \<and>
    (\<forall>a\<in>set ms. nd_start (the (mm_nodes (p_mm t) a)) mod PAGE_SIZE = 0 \<and>
       nd_start (the (mm_nodes (p_mm t) a)) + b_size (buf t a) \<le> VC4_CMA_POOL_SIZE \<and>
       (\<forall>b\<in>set ms. b \<noteq> a \<longrightarrow> nd_start (the (mm_nodes (p_mm t) b)) + b_size (buf t b) \<le> nd_start (the (mm_nodes (p_mm t) a)) \<or>
          nd_start (the (mm_nodes (p_mm t) a)) + b_size (buf t a) \<le> nd_start (the (mm_nodes (p_mm t) b)))) \<and>
    p_overflow t = (\<Sum>a\<leftarrow>as. if a \<in> set ms then 0 else b_size (buf t a))"
proof -
  have "pool_ok s [] []" using pool_start_spec [OF assms(2), of e] assms(1) by auto
  then obtain t as ms where t: "process_file calloc text s = Some t" "pool_ok t as ms"
    using process_file_spec [OF _ assms(3-5)] by blast
  note inv = pool_ok_inv [OF t(2)]
  note P = pool_inv_parts [OF inv]
  have "nd_start (the (mm_nodes (p_mm t) a)) mod PAGE_SIZE = 0 \<and>
       nd_start (the (mm_nodes (p_mm t) a)) + b_size (buf t a) \<le> VC4_CMA_POOL_SIZE \<and>
       (\<forall>b\<in>set ms. b \<noteq> a \<longrightarrow> nd_start (the (mm_nodes (p_mm t) b)) + b_size (buf t b) \<le> nd_start (the (mm_nodes (p_mm t) a)) \<or>
          nd_start (the (mm_nodes (p_mm t) a)) + b_size (buf t a) \<le> nd_start (the (mm_nodes (p_mm t) b)))" if "a \<in> set ms" for a
    using placed_free [OF inv that] block_end [OF inv] by (simp add: free_place_def n_start_def)
  then show ?thesis using t(1) P(2,3,4,7,8) unfolding paged_out_bytes_def by blast
qed

theorem pool_blocks_disjoint_witness:
  "\<exists>s t as ms. pool_start 0x100 0x200 = Some s \<and> process_file example_calloc example_log s = Some t \<and>
    is_list (p_mru_list t) (p_mru_head t) ms \<and> p_overflow t = (\<Sum>a\<leftarrow>as. if a \<in> set ms then 0 else b_size (buf t a))"
proof -
  obtain s where s: "pool_start 0x100 0x200 = Some s" by (rule example_start)
  have v: "valid_ptr (0x100 + 56)" by (simp add: valid_ptr_def aligned_def)
  have l: "length (log_lines example_log) \<le> 3" by (simp add: example_log_ok(2))
  show ?thesis using pool_blocks_disjoint [OF s v example_calloc_ok example_log_ok(1) l] s by blast
qed

text \<open>C18: The program ends: whatever log it reads (under the same provisos), or none when the file
  cannot be opened, it frees every buffer, \<open>drm_mm_takedown\<close> finds the allocator clean, and no message
  or output comes after the log.\<close>

theorem pool_main_ends_clean:
  assumes "valid_ptr (d + 56)" and "calloc_ok n calloc"
    and "\<forall>text. main_log files stdin argv = Some text \<longrightarrow>
      length (log_lines text) \<le> n \<and> (\<forall>line\<in>set (log_lines text). command_ok (parse_line line))"
  shows "\<exists>s u t. pool_start d e = Some s \<and> pool_main calloc files stdin argv d e = Some t \<and>
    (case main_log files stdin argv of None \<Rightarrow> u = warn (Cannot_open (argv ! 1)) s | Some text \<Rightarrow> process_file calloc text s = Some u) \<and>
    p_stderr t = p_stderr u \<and> p_stdout t = p_stdout u \<and> p_bufs t = Map.empty \<and> p_overflow t = 0 \<and>
    drm_mm_clean (p_mm t) = Some True"
proof -
  obtain s where s: "pool_start d e = Some s" "pool_ok s [] []" using pool_start_spec [OF assms(1), of e] by blast
  let ?read = "case main_log files stdin argv of None \<Rightarrow> Some (warn (Cannot_open (argv ! 1)) s) | Some text \<Rightarrow> process_file calloc text s"
  have "\<exists>u as ms. ?read = Some u \<and> pool_inv u as ms"
  proof (cases "main_log files stdin argv")
    case None
    then show ?thesis using pool_inv_warn [OF pool_ok_inv [OF s(2)]] by auto
  next
    case (Some log)
    then show ?thesis using process_file_spec [OF s(2) assms(2), of log] assms(3) pool_ok_inv by (simp add: Some) blast
  qed
  then obtain u as ms where u: "?read = Some u" "pool_inv u as ms" by blast
  obtain t where t: "free_buffers u = Some t" "pool_inv t [] []" "p_stderr t = p_stderr u" "p_stdout t = p_stdout u"
    using free_buffers_spec [OF u(2)] by blast
  note E = empty_pool_clean [OF t(2)]
  have run: "pool_main calloc files stdin argv d e = Some t"
    using s(1) u(1) t(1) E(1) by (simp add: pool_main_run)
  have "drm_mm_clean (p_mm t) = Some True" using E(1) by (auto simp: drm_mm_takedown_def split: bind_splits)
  moreover have "case main_log files stdin argv of None \<Rightarrow> u = warn (Cannot_open (argv ! 1)) s | Some text \<Rightarrow> process_file calloc text s = Some u"
    using u(1) by (cases "main_log files stdin argv") simp_all
  ultimately show ?thesis using s(1) run t(3,4) E(2,3) by blast
qed

theorem pool_main_ends_clean_witness:
  "\<exists>t. pool_main example_calloc (\<lambda>f. None) example_log [''cma-pool-log''] 0x100 0x200 = Some t \<and> p_bufs t = Map.empty"
proof -
  have v: "valid_ptr (0x100 + 56)" by (simp add: valid_ptr_def aligned_def)
  have m: "main_log (\<lambda>f. None) example_log [''cma-pool-log''] = Some example_log" by (simp add: main_log_def)
  have "\<forall>text. main_log (\<lambda>f. None) example_log [''cma-pool-log''] = Some text \<longrightarrow>
      length (log_lines text) \<le> 3 \<and> (\<forall>line\<in>set (log_lines text). command_ok (parse_line line))"
    unfolding m using example_log_ok by simp
  from pool_main_ends_clean [OF v example_calloc_ok this] show ?thesis by blast
qed

end
