(* ===== verification/Json.thy ===== *)
theory Json
  imports Prelude
begin

text \<open>
  A reader for JSON texts, as far as the dump of the pool needs it: objects, arrays, natural
  numbers, booleans, and strings without escapes. It is the reference the printed text is judged
  by, and shares nothing with the code that prints it.
\<close>

section \<open>Values and tokens\<close>

datatype json =
    Json_object "(string \<times> json) list"
  | Json_array "json list"
  | Json_number nat
  | Json_string string
  | Json_bool bool

datatype json_token =
    Left_brace | Right_brace | Left_bracket | Right_bracket | Colon | Comma
  | Number_token nat | String_token string | Bool_token bool

definition json_space :: "char \<Rightarrow> bool" where
  "json_space c \<longleftrightarrow> c \<in> set [CHR 0x20, CHR 0x09, CHR 0x0A, CHR 0x0D]"

definition json_digit :: "char \<Rightarrow> bool" where
  "json_digit c \<longleftrightarrow> c \<in> set ''0123456789''"

definition json_value :: "string \<Rightarrow> nat" where
  "json_value ds = foldl (\<lambda>v c. 10 * v + length (takeWhile (\<lambda>d. d \<noteq> c) ''0123456789'')) 0 ds"

fun punctuation :: "char \<Rightarrow> json_token option" where
  "punctuation c =
     (if c = CHR 0x7B then Some Left_brace else if c = CHR 0x7D then Some Right_brace
      else if c = CHR 0x5B then Some Left_bracket else if c = CHR 0x5D then Some Right_bracket
      else if c = CHR 0x3A then Some Colon else if c = CHR 0x2C then Some Comma else None)"

declare punctuation.simps [simp del]

section \<open>Splitting the text into tokens\<close>

lemma dropWhile_shorter: "dropWhile P s = d # r \<Longrightarrow> length r < Suc (length s)"
  using length_dropWhile_le [of P s] by simp

function json_lex :: "string \<Rightarrow> json_token list option" where
  "json_lex [] = Some []"
| "json_lex (c # s) =
     (if json_space c then json_lex s
      else case punctuation c of
        Some t \<Rightarrow> map_option ((#) t) (json_lex s)
      | None \<Rightarrow>
          if json_digit c
          then map_option ((#) (Number_token (json_value (takeWhile json_digit (c # s))))) (json_lex (dropWhile json_digit s))
          else if c = CHR 0x22
          then (case dropWhile (\<lambda>d. d \<noteq> CHR 0x22) s of [] \<Rightarrow> None
                | _ # r \<Rightarrow> if CHR 0x5C \<in> set (takeWhile (\<lambda>d. d \<noteq> CHR 0x22) s) then None
                    else map_option ((#) (String_token (takeWhile (\<lambda>d. d \<noteq> CHR 0x22) s))) (json_lex r))
          else if take 4 (c # s) = ''true'' then map_option ((#) (Bool_token True)) (json_lex (drop 3 s))
          else if take 5 (c # s) = ''false'' then map_option ((#) (Bool_token False)) (json_lex (drop 4 s))
          else None)"
  by pat_completeness auto

termination
  by (relation "measure length") (auto simp: dropWhile_shorter le_imp_less_Suc length_dropWhile_le)

declare json_lex.simps(2) [simp del]

section \<open>Parsing the tokens\<close>

text \<open>Each parser takes a bound on the depth of its recursion; the number of tokens is enough.\<close>

fun parse_value :: "nat \<Rightarrow> json_token list \<Rightarrow> (json \<times> json_token list) option"
  and parse_members :: "nat \<Rightarrow> json_token list \<Rightarrow> ((string \<times> json) list \<times> json_token list) option"
  and parse_elements :: "nat \<Rightarrow> json_token list \<Rightarrow> (json list \<times> json_token list) option" where
  "parse_value 0 ts = None"
| "parse_value (Suc n) ts =
     (case ts of
        Number_token k # ts \<Rightarrow> Some (Json_number k, ts)
      | String_token k # ts \<Rightarrow> Some (Json_string k, ts)
      | Bool_token b # ts \<Rightarrow> Some (Json_bool b, ts)
      | Left_brace # ts \<Rightarrow>
          if ts \<noteq> [] \<and> hd ts = Right_brace then Some (Json_object [], tl ts)
          else map_option (\<lambda>(ms, ts). (Json_object ms, ts)) (parse_members n ts)
      | Left_bracket # ts \<Rightarrow>
          if ts \<noteq> [] \<and> hd ts = Right_bracket then Some (Json_array [], tl ts)
          else map_option (\<lambda>(vs, ts). (Json_array vs, ts)) (parse_elements n ts)
      | _ \<Rightarrow> None)"
| "parse_members 0 ts = None"
| "parse_members (Suc n) ts =
     (case ts of
        String_token k # Colon # ts \<Rightarrow>
          (case parse_value n ts of
             Some (v, Comma # ts) \<Rightarrow> map_option (\<lambda>(ms, ts). ((k, v) # ms, ts)) (parse_members n ts)
           | Some (v, Right_brace # ts) \<Rightarrow> Some ([(k, v)], ts)
           | _ \<Rightarrow> None)
      | _ \<Rightarrow> None)"
| "parse_elements 0 ts = None"
| "parse_elements (Suc n) ts =
     (case parse_value n ts of
        Some (v, Comma # ts) \<Rightarrow> map_option (\<lambda>(vs, ts). (v # vs, ts)) (parse_elements n ts)
      | Some (v, Right_bracket # ts) \<Rightarrow> Some ([v], ts)
      | _ \<Rightarrow> None)"

definition read_json :: "string \<Rightarrow> json option" where
  "read_json s = (case json_lex s of None \<Rightarrow> None
     | Some ts \<Rightarrow> (case parse_value (length ts) ts of Some (v, []) \<Rightarrow> Some v | _ \<Rightarrow> None))"

section \<open>The tokens of a value\<close>

fun separated :: "json_token list list \<Rightarrow> json_token list" where
  "separated [] = []"
| "separated [x] = x"
| "separated (x # y # xs) = x @ Comma # separated (y # xs)"

fun json_tokens :: "json \<Rightarrow> json_token list" where
  "json_tokens (Json_object ms) =
     Left_brace # separated (map (\<lambda>(k, v). String_token k # Colon # json_tokens v) ms) @ [Right_brace]"
| "json_tokens (Json_array vs) = Left_bracket # separated (map json_tokens vs) @ [Right_bracket]"
| "json_tokens (Json_number n) = [Number_token n]"
| "json_tokens (Json_string s) = [String_token s]"
| "json_tokens (Json_bool b) = [Bool_token b]"

lemma json_tokens_start: "\<exists>t ts. json_tokens v = t # ts \<and> t \<noteq> Right_bracket"
  by (cases v) auto

lemma separated_Cons: "separated (x # xs) = x @ (if xs = [] then [] else Comma # separated xs)"
  by (cases xs) auto

lemma parse_members_tokens:
  assumes "\<forall>(k, v)\<in>set ms. \<forall>n rest. length (json_tokens v) \<le> n \<longrightarrow> parse_value n (json_tokens v @ rest) = Some (v, rest)"
    and "ms \<noteq> []" and "length (separated (map (\<lambda>(k, v). String_token k # Colon # json_tokens v) ms)) \<le> n"
  shows "parse_members n (separated (map (\<lambda>(k, v). String_token k # Colon # json_tokens v) ms) @ Right_brace # rest) = Some (ms, rest)"
  using assms
proof (induction ms arbitrary: n)
  case (Cons m ms)
  obtain k v where m: "m = (k, v)" by (cases m)
  then obtain n' where n: "n = Suc n'" "length (json_tokens v) \<le> n'" using Cons.prems(3) by (cases n) (auto simp: separated_Cons split: if_splits)
  have v: "parse_value n' (json_tokens v @ rest) = Some (v, rest)" for rest using Cons.prems(1) m n(2) by auto
  show ?case
  proof (cases "ms = []")
    case True
    then show ?thesis using v m n(1) by simp
  next
    case False
    then have "parse_members n' (separated (map (\<lambda>(k, v). String_token k # Colon # json_tokens v) ms) @ Right_brace # rest) = Some (ms, rest)"
      using Cons.IH [of n'] Cons.prems(1,3) m n(1) by (simp add: separated_Cons)
    then show ?thesis using v m n(1) False by (simp add: separated_Cons)
  qed
qed simp

lemma parse_elements_tokens:
  assumes "\<forall>v\<in>set vs. \<forall>n rest. length (json_tokens v) \<le> n \<longrightarrow> parse_value n (json_tokens v @ rest) = Some (v, rest)"
    and "vs \<noteq> []" and "length (separated (map json_tokens vs)) < n"
  shows "parse_elements n (separated (map json_tokens vs) @ Right_bracket # rest) = Some (vs, rest)"
  using assms
proof (induction vs arbitrary: n)
  case (Cons v vs)
  then obtain n' where n: "n = Suc n'" "length (json_tokens v) \<le> n'" by (cases n) (auto simp: separated_Cons split: if_splits)
  have v: "parse_value n' (json_tokens v @ rest) = Some (v, rest)" for rest using Cons.prems(1) n(2) by auto
  show ?case
  proof (cases "vs = []")
    case True
    then show ?thesis using v n(1) by simp
  next
    case False
    then have "parse_elements n' (separated (map json_tokens vs) @ Right_bracket # rest) = Some (vs, rest)"
      using Cons.IH [of n'] Cons.prems(1,3) n(1) by (simp add: separated_Cons)
    then show ?thesis using v n(1) False by (simp add: separated_Cons)
  qed
qed simp

lemma parse_value_tokens: "length (json_tokens v) \<le> n \<Longrightarrow> parse_value n (json_tokens v @ rest) = Some (v, rest)"
proof (induction v arbitrary: n rest)
  case (Json_object ms)
  obtain n' where n: "n = Suc n'" using Json_object.prems by (cases n) auto
  show ?case
  proof (cases "ms = []")
    case False
    then obtain k v ms' where ms: "ms = (k, v) # ms'" by (cases ms) auto
    have "parse_members n' (separated (map (\<lambda>(k, v). String_token k # Colon # json_tokens v) ms) @ Right_brace # rest) = Some (ms, rest)"
      by (rule parse_members_tokens) (use Json_object n False in \<open>auto simp: snds.simps\<close>)
    then show ?thesis using n ms by (simp add: separated_Cons)
  qed (use n in simp)
next
  case (Json_array vs)
  obtain n' where n: "n = Suc n'" using Json_array.prems by (cases n) auto
  show ?case
  proof (cases "vs = []")
    case False
    then obtain v vs' where vs: "vs = v # vs'" by (cases vs) auto
    obtain t ts where t: "json_tokens v = t # ts" "t \<noteq> Right_bracket" using json_tokens_start by blast
    have "parse_elements n' (separated (map json_tokens vs) @ Right_bracket # rest) = Some (vs, rest)"
      by (rule parse_elements_tokens) (use Json_array n False in auto)
    then show ?thesis using n vs t by (simp add: separated_Cons)
  qed (use n in simp)
next
  case (Json_number k)
  then show ?case by (cases n) simp_all
next
  case (Json_string k)
  then show ?case by (cases n) simp_all
next
  case (Json_bool b)
  then show ?case by (cases n) simp_all
qed

lemma read_json_tokens: "json_lex s = Some (json_tokens v) \<Longrightarrow> read_json s = Some v"
  using parse_value_tokens [of v "length (json_tokens v)" "[]"] by (simp add: read_json_def)

lemma read_json_examples:
  "read_json ''[12, true, [ ]]'' = Some (Json_array [Json_number 12, Json_bool True, Json_array []])"
  "read_json ''[12, '' = None" "read_json ''[true false]'' = None" "read_json ''{ true }'' = None"
  by code_simp+

end
