(* ===== verification/Pool_Dump.thy ===== *)
theory Pool_Dump
  imports Pool_Log Json
begin

text \<open>
  What \<open>dump_data\<close> prints, read back: the text is the JSON object of the pool.
\<close>

section \<open>The JSON object of a pool\<close>

definition buffer_json :: "buffer \<Rightarrow> u64 \<Rightarrow> json" where
  "buffer_json b offset = Json_object
     [(''name'', Json_number (unat (b_name b))), (''size'', Json_number (unat (b_size b))),
      (''unmoveable'', Json_bool (b_unmoveable b)), (''in_use'', Json_bool (b_in_use b)),
      (''madv'', Json_string (case b_madv b of MADV_WILLNEED \<Rightarrow> ''willneed'' | MADV_DONTNEED \<Rightarrow> ''dontneed'')),
      (''offset'', Json_number (unat offset))]"

definition pool_json :: "pool \<Rightarrow> addr list \<Rightarrow> json" where
  "pool_json s ms = Json_object
     [(''overflow'', Json_number (unat (p_overflow s))),
      (''buffers'', Json_array (map (\<lambda>a. buffer_json (buf s a) (n_start (mm_nodes (p_mm s)) a)) ms))]"

section \<open>Numbers\<close>

lemma digit_char_simps:
  "digit_char 0 = CHR ''0''" "digit_char 1 = CHR ''1''" "digit_char 2 = CHR ''2''" "digit_char 3 = CHR ''3''" "digit_char 4 = CHR ''4''"
  "digit_char 5 = CHR ''5''" "digit_char 6 = CHR ''6''" "digit_char 7 = CHR ''7''" "digit_char 8 = CHR ''8''" "digit_char 9 = CHR ''9''"
  by code_simp+

lemma digit_char_json:
  assumes "d < 10"
  shows "json_digit (digit_char d)" "json_value (ds @ [digit_char d]) = 10 * json_value ds + d"
proof -
  have "d = 0 \<or> d = 1 \<or> d = 2 \<or> d = 3 \<or> d = 4 \<or> d = 5 \<or> d = 6 \<or> d = 7 \<or> d = 8 \<or> d = 9" using assms by presburger
  then have "json_digit (digit_char d) \<and> json_value (ds @ [digit_char d]) = 10 * json_value ds + d"
    by (elim disjE) (simp_all only: digit_char_simps json_digit_def json_value_def foldl_append, simp_all)
  then show "json_digit (digit_char d)" "json_value (ds @ [digit_char d]) = 10 * json_value ds + d" by simp_all
qed

lemma show_nat_json: "\<forall>c\<in>set (show_nat n). json_digit c" "json_value (show_nat n) = n"
proof -
  have "(\<forall>c\<in>set (show_nat n). json_digit c) \<and> json_value (show_nat n) = n"
  proof (induction n rule: show_nat.induct)
    case (1 n)
    show ?case
    proof (cases "n < 10")
      case True
      then have "show_nat n = [digit_char n]" by (subst show_nat.simps) simp
      then show ?thesis using digit_char_json(1) [OF True] digit_char_json(2) [OF True, of "[]"] by (simp add: json_value_def)
    next
      case False
      then have e: "show_nat n = show_nat (n div 10) @ [digit_char (n mod 10)]" by (subst show_nat.simps) simp
      have d: "n mod 10 < 10" by simp
      show ?thesis using 1 [OF False] digit_char_json [OF d] unfolding e by simp
    qed
  qed
  then show "\<forall>c\<in>set (show_nat n). json_digit c" "json_value (show_nat n) = n" by simp_all
qed

lemma json_digit_first: "json_digit c \<Longrightarrow> \<not> json_space c \<and> punctuation c = None"
  by (auto simp: json_digit_def json_space_def punctuation.simps)

lemma json_lex_number:
  assumes "rest = [] \<or> \<not> json_digit (hd rest)"
  shows "json_lex (show_nat n @ rest) = map_option ((#) (Number_token n)) (json_lex rest)"
proof -
  obtain c ds where s: "show_nat n = c # ds" using show_nat_not_Nil [of n] by (cases "show_nat n") auto
  have c: "json_digit c" "\<forall>d\<in>set ds. json_digit d" using show_nat_json(1) [of n] by (simp_all add: s)
  have "takeWhile json_digit (c # ds @ rest) = c # ds" "dropWhile json_digit (ds @ rest) = rest"
    using c assms by (cases rest; simp)+
  then show ?thesis using json_digit_first [OF c(1)] c(1) show_nat_json(2) [of n]
    unfolding s append_Cons by (subst json_lex.simps(2)) simp
qed

section \<open>The text of a buffer and of the pool\<close>

lemma json_lex_space: "json_space c \<Longrightarrow> json_lex (c # s) = json_lex s"
  by (simp add: json_lex.simps(2))

lemma json_lex_mark: "punctuation c = Some t \<Longrightarrow> json_lex (c # s) = map_option ((#) t) (json_lex s)"
  by (auto simp: json_lex.simps(2) json_space_def punctuation.simps)

lemma json_lex_marks:
  "json_lex (CHR ''{'' # s) = map_option ((#) Left_brace) (json_lex s)" "json_lex (CHR ''}'' # s) = map_option ((#) Right_brace) (json_lex s)"
  "json_lex (CHR ''['' # s) = map_option ((#) Left_bracket) (json_lex s)" "json_lex (CHR '']'' # s) = map_option ((#) Right_bracket) (json_lex s)"
  "json_lex (CHR '':'' # s) = map_option ((#) Colon) (json_lex s)" "json_lex (CHR '','' # s) = map_option ((#) Comma) (json_lex s)"
  by (rule json_lex_mark; simp add: punctuation.simps)+

lemma json_lex_quoted:
  assumes "\<forall>c\<in>set k. c \<noteq> CHR 0x22 \<and> c \<noteq> CHR 0x5C"
  shows "json_lex (quoted k @ s) = map_option ((#) (String_token k)) (json_lex s)"
proof -
  have "takeWhile (\<lambda>c. c \<noteq> CHR 0x22) (k @ CHR 0x22 # s) = k" "dropWhile (\<lambda>c. c \<noteq> CHR 0x22) (k @ CHR 0x22 # s) = CHR 0x22 # s"
    using assms by (auto simp: takeWhile_append2 dropWhile_append2)
  then show ?thesis using assms by (auto simp: quoted_def json_lex.simps(2) json_space_def json_digit_def punctuation.simps)
qed

lemma json_lex_bool: "json_lex (bool_str b @ s) = map_option ((#) (Bool_token b)) (json_lex s)"
  by (cases b) (simp_all add: bool_str_def json_lex.simps(2) json_space_def json_digit_def punctuation.simps)

lemmas lex_text = json_lex_space json_lex_marks json_lex_quoted json_lex_number json_lex_bool

lemma json_lex_buffer:
  "json_lex (dump_buffer b offset @ rest) = map_option ((@) (json_tokens (buffer_json b offset))) (json_lex rest)"
proof -
  have m: "json_lex (quoted (madv_str (b_madv b)) @ s) =
    map_option ((#) (String_token (case b_madv b of MADV_WILLNEED \<Rightarrow> ''willneed'' | MADV_DONTNEED \<Rightarrow> ''dontneed''))) (json_lex s)" for s
    by (cases "b_madv b") (simp_all add: json_lex_quoted)
  show ?thesis
    unfolding dump_buffer_def buffer_json_def show_u32_def show_u64_def newline_def
    by (cases "json_lex rest") (simp_all add: m lex_text json_space_def json_digit_def)
qed

lemma commas_Cons: "commas (x # xs) = x @ (if xs = [] then [] else CHR '','' # commas xs)"
  by (cases xs) simp_all

lemma json_lex_buffers:
  "json_lex (commas (map (\<lambda>a. dump_buffer (f a) (g a)) ms) @ rest) =
    map_option ((@) (separated (map (\<lambda>a. json_tokens (buffer_json (f a) (g a))) ms))) (json_lex rest)"
proof (induction ms)
  case (Cons a ms)
  then show ?case
    by (cases "ms = []") (simp_all add: commas_Cons separated_Cons json_lex_buffer json_lex_marks option.map_comp comp_def)
qed (cases "json_lex rest"; simp)

lemma read_dump: "read_json (dump_text s ms) = Some (pool_json s ms)"
proof (rule read_json_tokens)
  show "json_lex (dump_text s ms) = Some (json_tokens (pool_json s ms))"
    unfolding dump_text_def pool_json_def newline_def show_u64_def
    by (simp add: lex_text json_lex_buffers json_space_def json_digit_def option.map_comp comp_def)
qed

end
