(* ===== verification/Pool_Faults.thy ===== *)
theory Pool_Faults
  imports Pool_Spec Pool_Dump
begin

text \<open>
  What main.c does on the lines it should refuse, where it deviates from what it means to do, and
  what the single operations guarantee.
\<close>

section \<open>Lines with no effect\<close>

definition adds_messages :: "(pool \<Rightarrow> pool option) \<Rightarrow> pool \<Rightarrow> bool" where
  "adds_messages f s \<longleftrightarrow> (\<exists>msgs. length msgs \<le> 1 \<and> f s = Some (s\<lparr>p_stderr := p_stderr s @ msgs\<rparr>))"

lemma adds_none: "f s = Some s \<Longrightarrow> adds_messages f s"
  by (auto simp: adds_messages_def intro: exI [of _ "[]"])

lemma adds_one: "f s = Some (warn m s) \<Longrightarrow> adds_messages f s"
  by (auto simp: adds_messages_def warn_def intro: exI [of _ "[m]"])

lemma adds_cong: "adds_messages f s \<Longrightarrow> g s = f s \<Longrightarrow> adds_messages g s"
  by (simp add: adds_messages_def)

lemma idle_command:
  assumes ok: "pool_ok s as ms" and cmd: "parse_args word name args = Nothing"
  shows "adds_messages (run_command word start (commands calloc) name args) s"
proof -
  have args: "args \<noteq> []" if "word \<in> {''destroy'', ''add_usecnt'', ''remove_usecnt'', ''use''}"
    using cmd that by (auto simp: parse_args_def)
  consider "word \<in> {''destroy'', ''add_usecnt'', ''remove_usecnt'', ''use''}" | "word = ''create''" | "word = ''madv''"
    | "word \<notin> {''destroy'', ''add_usecnt'', ''remove_usecnt'', ''create'', ''use'', ''madv''}"
    unfolding insert_iff empty_iff by argo
  then show ?thesis
  proof cases
    case 1
    then show ?thesis using args
      by (intro adds_one [where m = "Unexpected_args (p_line_num s)"])
        (auto simp: commands_def buf_destroy_def buf_add_usecnt_def buf_remove_usecnt_def buf_use_def check_no_args_def)
  next
    case 2
    then have bad: "sscanf_zu args = None" using cmd by (auto simp: parse_args_def split: option.splits)
    have run: "run_command word start (commands calloc) name args s = buf_create calloc name args s" using 2 by (simp add: commands_def)
    from pool_ok_inv [OF ok] show ?thesis
    proof (cases rule: find_buffer_cases [where name = name])
      case (found a b)
      then show ?thesis using run by (intro adds_one [where m = "Already_exists (p_line_num s) name"]) (simp add: buf_create_def)
    next
      case missing
      then show ?thesis using run bad by (intro adds_one [where m = "Bad_buffer_size (p_line_num s)"]) (simp add: buf_create_def)
    qed
  next
    case 3
    have "run_command word start (commands calloc) name args s = buf_madv name args s" using 3 by (simp add: commands_def)
    then show ?thesis unfolding buf_madv_spec [OF ok]
      by (cases "\<exists>a\<in>set as. b_name (buf s a) = name") (auto intro: adds_none adds_one)
  next
    case 4
    then show ?thesis by (intro adds_one [where m = "Unknown_command start (p_line_num s)"]) (auto simp: commands_def)
  qed
qed

text \<open>C32: A line that does not spell a command, names an unknown command, has no buffer name, has
  arguments it should not have or an unreadable size, or gives an advice, changes nothing: it prints
  at most one message.\<close>

theorem bad_lines_change_nothing:
  assumes "pool_ok s as ms" and "parse_line line = Nothing" "\<not> is_dump line"
  shows "\<exists>msgs. length msgs \<le> 1 \<and> process_line calloc line s = Some (s\<lparr>p_stderr := p_stderr s @ msgs\<rparr>)"
proof -
  have "adds_messages (process_line calloc line) s"
  proof (cases "strstr_after command_marker line")
    case None
    then show ?thesis using assms(3) by (intro adds_none) (auto simp: process_line_def is_dump_def split: option.splits)
  next
    case (Some str)
    have "adds_messages (process_command calloc str) s"
    proof (cases "strchr (CHR '' '') str")
      case None
      then show ?thesis by (intro adds_none) (simp add: process_command_def)
    next
      case (Some v)
      then obtain word args where v: "strchr (CHR '' '') str = Some (word, args)" by (cases v) auto
      show ?thesis
      proof (cases "sscanf_x32 args")
        case None
        then show ?thesis using v by (intro adds_one [where m = "Invalid_address (p_line_num s)"]) (simp add: process_command_def)
      next
        case (Some w)
        then obtain name rest where w: "sscanf_x32 args = Some (name, rest)" by (cases w) auto
        have "parse_args word name (dropWhile isspace rest) = Nothing"
          using assms(2) \<open>strstr_after command_marker line = Some str\<close> v w by (simp add: parse_line_def parse_command_def)
        from idle_command [OF assms(1) this] show ?thesis by (rule adds_cong) (use v w in \<open>simp add: process_command_def\<close>)
      qed
    qed
    then show ?thesis by (rule adds_cong) (use Some in \<open>simp add: process_line_def\<close>)
  qed
  then show ?thesis by (simp add: adds_messages_def)
qed

theorem bad_lines_change_nothing_witness:
  "\<exists>s a msgs. pool_ok s [a] [a] \<and> process_line example_calloc ''] @@@ use zz'' s = Some (s\<lparr>p_stderr := p_stderr s @ msgs\<rparr>)"
proof -
  obtain s a where s: "pool_ok s [a] [a]" by (rule example_one)
  have l: "parse_line ''] @@@ use zz'' = Nothing" "\<not> is_dump ''] @@@ use zz''" by (simp_all add: parse_eval is_dump_def)
  show ?thesis using bad_lines_change_nothing [OF s l, of example_calloc] s by blast
qed

section \<open>Aborts\<close>

text \<open>C20: With memory left, \<open>buf_create\<close> aborts exactly when the name is new and the size that is read
  is 0 or larger than the pool: the assertion in \<open>drm_mm_scan_init_with_range\<close> fails. In every other
  case it returns.\<close>

theorem buf_create_aborts_iff:
  assumes "pool_ok s as ms" and "fresh s (calloc s)"
  shows "buf_create calloc name args s = None \<longleftrightarrow>
    (\<forall>a\<in>set as. b_name (buf s a) \<noteq> name) \<and> (\<exists>sz rest. sscanf_zu args = Some (sz, rest) \<and> \<not> (0 < sz \<and> sz \<le> VC4_CMA_POOL_SIZE))"
proof (cases "command_ok (parse_args ''create'' name args)")
  case True
  then have "buf_create calloc name args s \<noteq> None"
    using buf_create_refines [where calloc = calloc, OF assms True] by (auto simp: refines_def)
  then show ?thesis using True by (auto simp: parse_args_def command_ok_def size_ok_def word_neq_0_conv)
next
  case False
  then obtain sz rest where v: "sscanf_zu args = Some (sz, rest)" and bad: "\<not> size_ok sz"
    by (auto simp: parse_args_def command_ok_def split: option.splits)
  have iff: "(\<exists>sz rest. sscanf_zu args = Some (sz, rest) \<and> \<not> (0 < sz \<and> sz \<le> VC4_CMA_POOL_SIZE)) \<longleftrightarrow> True"
    using v bad by (auto simp: size_ok_def word_neq_0_conv)
  note inv = pool_ok_inv [OF assms(1)]
  from inv show ?thesis unfolding iff
  proof (cases rule: find_buffer_cases [where name = name])
    case (found a b)
    then show "buf_create calloc name args s = None \<longleftrightarrow> (\<forall>a\<in>set as. b_name (buf s a) \<noteq> name) \<and> True"
      by (auto simp: buf_create_def intro!: bexI [of _ a])
  next
    case missing
    let ?a = "calloc s" and ?un = "more_args rest"
    have a: "?a \<noteq> NULL" "?a \<notin> set as" using assms(2) pool_inv_parts(4) [OF inv] by (auto simp: fresh_def valid_ptr_def)
    obtain l where l: "list_add ?a (p_all_head s) ((p_all_list s)(?a \<mapsto> zero_list_head)) = Some l"
      "pool_inv (created ?a name sz ?un l s) (?a # as) ms" using create_memory [OF inv assms(2) missing(1)] by blast
    have "page_in_buffer ?a (created ?a name sz ?un l s) = None"
      by (rule page_in_bad_size [OF l(2)]) (use a(2) pool_inv_parts(3) [OF inv] bad in \<open>auto simp: created_fields\<close>)
    then have "buf_create calloc name args s = None" using missing(2) v a(1) l(1)
      by (simp add: buf_create_def b_write_def on_all_def buffer_calloc_def created_def Let_def)
    then show "buf_create calloc name args s = None \<longleftrightarrow> (\<forall>a\<in>set as. b_name (buf s a) \<noteq> name) \<and> True"
      using missing(1) by simp
  qed
qed

theorem buf_create_aborts_iff_witness:
  "\<exists>s a. pool_ok s [a] [a] \<and> buf_create example_calloc 2 (show_nat 0) s = None"
proof -
  obtain s a where s: "pool_ok s [a] [a]" "b_name (buf s a) = 1" "fresh s (example_calloc s)" by (rule example_one)
  have "sscanf_zu (show_nat 0) = Some (0, [])" using scan_number_show [of 0 "[]"] by (simp add: sscanf_zu_def)
  then have "buf_create example_calloc 2 (show_nat 0) s = None"
    using buf_create_aborts_iff [where calloc = example_calloc, OF s(1,3), of 2 "show_nat 0"] s(2) by simp
  then show ?thesis using s(1) by blast
qed

section \<open>Advice\<close>

text \<open>C21: \<open>buf_madv\<close> never changes a buffer and never refuses an advice: the loop over its table
  returns in the first round, so a buffer stays \<open>MADV_WILLNEED\<close> for ever, and in no pool that the
  log can produce is there anything for \<open>userspace_cache_purge\<close> to page out.\<close>

theorem madv_is_ignored:
  assumes "pool_ok s as ms"
  shows "buf_madv name args s = Some (if \<exists>a\<in>set as. b_name (buf s a) = name then s else warn (Unknown_buffer (p_line_num s) name) s) \<and>
    (\<forall>a\<in>set as. b_madv (buf s a) = MADV_WILLNEED) \<and>
    (\<exists>t. userspace_cache_purge s = Some t \<and> pool_inv t as ms \<and> pool_frame s t)"
proof -
  have "filter (\<lambda>a. \<not> purgeable s a) ms = ms"
    by (rule filter_True) (use assms pool_inv_parts(3) [OF pool_ok_inv [OF assms]] in \<open>auto simp: pool_ok_def purgeable_def\<close>)
  then have "\<exists>t. userspace_cache_purge s = Some t \<and> pool_inv t as ms \<and> pool_frame s t"
    using userspace_cache_purge_spec [OF pool_ok_inv [OF assms]] by auto
  then show ?thesis using buf_madv_spec [OF assms] assms by (simp add: pool_ok_def)
qed

theorem madv_is_ignored_witness:
  "\<exists>s a. pool_ok s [a] [a] \<and> buf_madv 1 ''dontneed'' s = Some s"
proof -
  obtain s a where s: "pool_ok s [a] [a]" "b_name (buf s a) = 1" by (rule example_one)
  then show ?thesis using madv_is_ignored [OF s(1), of 1 "''dontneed''"] by auto
qed

section \<open>Single operations\<close>

text \<open>\<open>find_buffer\<close> returns the one buffer with the name, and NULL exactly when there is none.\<close>

theorem find_buffer_exact:
  assumes "pool_inv s as ms"
  shows "\<exists>r. find_buffer name s = Some r \<and> (\<forall>a\<in>set as. b_name (buf s a) = name \<longleftrightarrow> a = r) \<and> (r = NULL \<or> r \<in> set as)"
  using assms
proof (cases rule: find_buffer_cases [where name = name])
  case (found a b)
  then have "b_name (buf s c) = name \<longleftrightarrow> c = a" if "c \<in> set as" for c using name_unique [OF assms that found(1)] by auto
  then show ?thesis using found by blast
next
  case missing
  then have "b_name (buf s c) = name \<longleftrightarrow> c = NULL" if "c \<in> set as" for c using pool_inv_alive(1) [OF assms that] that by blast
  then show ?thesis using missing(2) by blast
qed

theorem find_buffer_exact_witness:
  "\<exists>s a. pool_inv s [a] [a] \<and> find_buffer 1 s = Some a"
proof -
  obtain s a where s: "pool_ok s [a] [a]" "b_name (buf s a) = 1" by (rule example_one)
  obtain r where "find_buffer 1 s = Some r" "\<forall>c\<in>set [a]. b_name (buf s c) = 1 \<longleftrightarrow> c = r"
    using find_buffer_exact [OF pool_ok_inv [OF s(1)], of 1] by blast
  then have "find_buffer 1 s = Some a" using s(2) by simp
  then show ?thesis using pool_ok_inv [OF s(1)] by blast
qed

text \<open>Using a buffer that is in the pool moves it to the front of the MRU list, keeps the order of
  the others, and touches neither a buffer nor the allocator nor the accounting.\<close>

theorem use_moves_to_front:
  assumes "pool_inv s as ms" and "a \<in> set ms"
  shows "\<exists>l. buf_use (b_name (buf s a)) [] s = Some (s\<lparr>p_mru_list := l\<rparr>) \<and>
    pool_inv (s\<lparr>p_mru_list := l\<rparr>) as (a # filter (\<lambda>b. b \<noteq> a) ms)"
proof -
  have a: "a \<in> set as" using pool_inv_parts(3) [OF assms(1)] assms(2) by blast
  obtain l s1 where l: "on_mru (list_del a) s = Some s1" "on_mru (list_add a (p_mru_head s1)) s1 = Some (s\<lparr>p_mru_list := l\<rparr>)"
    "pool_inv (s\<lparr>p_mru_list := l\<rparr>) as (a # filter (\<lambda>b. b \<noteq> a) ms)" using move_to_front [OF assms] by blast
  from assms(1) show ?thesis
  proof (cases rule: find_buffer_cases [where name = "b_name (buf s a)"])
    case (found c b)
    have "c = a" using name_unique [OF assms(1) found(1) a] found(2,3) by simp
    moreover have "b_paged_in b" using pool_inv_alive(6) [OF assms(1) a] found(2) assms(2) \<open>c = a\<close> by simp
    ultimately have "buf_use (b_name (buf s a)) [] s = Some (s\<lparr>p_mru_list := l\<rparr>)"
      using found(2,4,6) l(1,2) by (simp add: buf_use_def check_no_args_def)
    then show ?thesis using l(3) by blast
  next
    case missing
    then show ?thesis using a by blast
  qed
qed

theorem use_moves_to_front_witness:
  "\<exists>s a t. pool_inv s [a] [a] \<and> buf_use 1 [] s = Some t \<and> pool_inv t [a] [a]"
proof -
  obtain s a where s: "pool_ok s [a] [a]" "b_name (buf s a) = 1" by (rule example_one)
  note inv = pool_ok_inv [OF s(1)]
  have "a \<in> set [a]" by simp
  from use_moves_to_front [OF inv this] show ?thesis using inv s(2) by auto
qed

text \<open>C34: \<open>free_buffer\<close> takes exactly this buffer out: of the list of all buffers, of the pool if it is
  there, of the accounting and of memory. The others keep their fields, their order and their place.\<close>

theorem free_buffer_exact:
  assumes "pool_inv s as ms" and "a \<in> set as"
  shows "\<exists>t. free_buffer a s = Some t \<and> pool_inv t (filter (\<lambda>c. c \<noteq> a) as) (filter (\<lambda>c. c \<noteq> a) ms) \<and>
    cmd_frame {a} s t \<and> p_bufs t a = None \<and> stay (filter (\<lambda>c. c \<noteq> a) ms) s t"
proof -
  obtain t where t: "free_buffer a s = Some t" "pool_inv t (filter (\<lambda>c. c \<noteq> a) as) (filter (\<lambda>c. c \<noteq> a) ms)"
    "cmd_frame {a} s t" "stay (filter (\<lambda>c. c \<noteq> a) ms) s t" using free_buffer_spec [OF assms] by blast
  moreover have "p_bufs t a = None" using pool_inv_parts(4) [OF t(2)] domIff [of a "p_bufs t"] by simp
  ultimately show ?thesis by blast
qed

theorem free_buffer_exact_witness:
  "\<exists>s a t. pool_inv s [a] [a] \<and> free_buffer a s = Some t \<and> pool_inv t [] []"
proof -
  obtain s a where s: "pool_ok s [a] [a]" by (rule example_one)
  have "a \<in> set [a]" by simp
  from free_buffer_exact [OF pool_ok_inv [OF s] this] show ?thesis using pool_ok_inv [OF s] by auto
qed

text \<open>C19: \<open>page_out_buffers_for_insertion\<close>, called when nothing fits, finds something to page out
  exactly when an interval is free once every buffer that is neither in use nor unmoveable is ignored.
  Then it pages some of those out, the rest stays, and the insertion will succeed; otherwise the pool
  and the allocator are as before, to the last field.\<close>

theorem page_out_exact:
  assumes "pool_inv s as ms" and "a \<in> set as" "a \<notin> set ms" and "\<not> has_room s ms (b_size (buf s a))"
    and "b_size (buf s a) \<noteq> 0" "b_size (buf s a) \<le> VC4_CMA_POOL_SIZE"
  shows "\<exists>found t. page_out_buffers_for_insertion (b_size (buf s a)) s = Some (found, t) \<and> pool_frame s t \<and>
    (found \<longleftrightarrow> (\<exists>q. free_place s (filter (\<lambda>b. \<not> evictable s b) ms) (b_size (buf s a)) q)) \<and>
    (if found then \<exists>es. set es \<subseteq> set (filter (evictable s) ms) \<and> pool_inv t as (filter (\<lambda>b. b \<notin> set es) ms) \<and>
        stay (filter (\<lambda>b. b \<notin> set es) ms) s t \<and> has_room t (filter (\<lambda>b. b \<notin> set es) ms) (b_size (buf s a))
     else pool_inv t as ms \<and> p_mm t = p_mm s)"
  using page_out_spec [OF assms(1-3) refl assms(4-6)] .

theorem page_out_exact_witness:
  "\<exists>s a b t. pool_inv s [b, a] [a] \<and> page_out_buffers_for_insertion 0x4000000 s = Some (False, t) \<and> p_mm t = p_mm s"
proof -
  obtain s a b where s: "pool_ok s [b, a] [a]" "b \<noteq> a" "b_size (buf s b) = 0x4000000" "b_size (buf s a) = 0x6000000"
    "b_in_use (buf s a) = True" by (rule example_two)
  note inv = pool_ok_inv [OF s(1)]
  have none: "\<not> free_place s [a] 0x4000000 q" for q
  proof
    assume q: "free_place s [a] 0x4000000 q"
    have "free_place s [] 0x6000000 (n_start (mm_nodes (p_mm s)) a)" using placed_free [OF inv, of a] s(4) by simp
    moreover have "n_end (mm_nodes (p_mm s)) a = n_start (mm_nodes (p_mm s)) a + 0x6000000" using block_end [OF inv, of a] s(4) by simp
    ultimately show False using q blocks_too_big [of "n_start (mm_nodes (p_mm s)) a" q]
      by (simp add: free_place_def VC4_CMA_POOL_SIZE_def)
  qed
  have b: "b \<in> set [b, a]" "b \<notin> set [a]" using s(2) by simp_all
  have full: "\<not> has_room s [a] (b_size (buf s b))" unfolding has_room_iff [OF inv] s(3) using none by blast
  have sz: "b_size (buf s b) \<noteq> 0" "b_size (buf s b) \<le> VC4_CMA_POOL_SIZE" using s(3) by (simp_all add: VC4_CMA_POOL_SIZE_def)
  have "filter (\<lambda>b. \<not> evictable s b) [a] = [a]" using s(5) by (simp add: evictable_def)
  then have "\<exists>t. page_out_buffers_for_insertion 0x4000000 s = Some (False, t) \<and> p_mm t = p_mm s"
    using page_out_exact [OF inv b full sz] none unfolding s(3) by auto
  then show ?thesis using inv by blast
qed

text \<open>C33: What \<open>dump_data\<close> prints is a JSON text, and reading it gives back the pool: the bytes that are
  paged out, and for each buffer in the pool, last used first, its name, size, flags, advice and offset
  under these keys. Nothing but the output changes.\<close>

theorem dump_prints_pool:
  assumes "pool_inv s as ms"
  shows "\<exists>out. dump_data s = Some (s\<lparr>p_stdout := p_stdout s @ out\<rparr>) \<and> read_json out = Some (pool_json s ms)"
  using dump_data_spec [OF assms] read_dump by blast

theorem dump_prints_pool_witness:
  "\<exists>s a out. pool_inv s [a] [a] \<and> dump_data s = Some (s\<lparr>p_stdout := p_stdout s @ out\<rparr>) \<and>
    read_json out = Some (Json_object [(''overflow'', Json_number 0), (''buffers'', Json_array
      [Json_object [(''name'', Json_number 1), (''size'', Json_number 0x6000000), (''unmoveable'', Json_bool False),
        (''in_use'', Json_bool True), (''madv'', Json_string ''willneed''),
        (''offset'', Json_number (unat (n_start (mm_nodes (p_mm s)) a)))]])])"
proof -
  obtain s a where s: "pool_ok s [a] [a]" "b_name (buf s a) = 1" "b_size (buf s a) = 0x6000000" "b_in_use (buf s a) = True"
    "\<not> b_unmoveable (buf s a)" by (rule example_one)
  note inv = pool_ok_inv [OF s(1)]
  have "p_overflow s = 0" using pool_inv_parts(8) [OF inv] by (simp add: paged_out_bytes_def)
  moreover have "b_madv (buf s a) = MADV_WILLNEED" using s(1) by (simp add: pool_ok_def)
  ultimately have "pool_json s [a] = Json_object [(''overflow'', Json_number 0), (''buffers'', Json_array
      [Json_object [(''name'', Json_number 1), (''size'', Json_number 0x6000000), (''unmoveable'', Json_bool False),
        (''in_use'', Json_bool True), (''madv'', Json_string ''willneed''),
        (''offset'', Json_number (unat (n_start (mm_nodes (p_mm s)) a)))]])]"
    using s by (simp add: pool_json_def buffer_json_def)
  then show ?thesis using dump_prints_pool [OF inv] inv by auto
qed

end
