(* ===== verification/Rbtree_Postorder.thy ===== *)
theory Rbtree_Postorder
  imports Rbtree_Walk
begin

text \<open>
  The postorder walk of rbtree.c and linux/rbtree.h: \<open>rb_first_postorder\<close>, \<open>rb_next_postorder\<close> and the
  macro \<open>rbtree_postorder_for_each_entry_safe\<close>, whose body may free the node it is given.

  \<open>postorder t\<close> is the abstract sequence. The lemmas about the next node ask the store to agree with
  the tree only on the nodes still to be visited, which is what makes freeing the others safe.
\<close>

section \<open>The operations\<close>

partial_function (option) rb_left_deepest_node :: "addr \<Rightarrow> 'm rb_tree_scheme \<Rightarrow> addr option" where
  "rb_left_deepest_node node s = do {
     nn \<leftarrow> rb_mem s node;
     if rb_left nn \<noteq> NULL then rb_left_deepest_node (rb_left nn) s
     else if rb_right nn \<noteq> NULL then rb_left_deepest_node (rb_right nn) s
     else Some node
   }"

definition rb_next_postorder :: "addr \<Rightarrow> 'm rb_tree_scheme \<Rightarrow> addr option" where
  "rb_next_postorder node s =
     (if node = NULL then Some NULL
      else do {
        nn \<leftarrow> rb_mem s node;
        let parent = rb_parent nn;
        if parent = NULL then Some parent
        else do {
          pn \<leftarrow> rb_mem s parent;
          if node = rb_left pn \<and> rb_right pn \<noteq> NULL then rb_left_deepest_node (rb_right pn) s
          else Some parent
        }
      })"

definition rb_first_postorder :: "'m rb_tree_scheme \<Rightarrow> addr option" where
  "rb_first_postorder s = (if rb_root s = NULL then Some NULL else rb_left_deepest_node (rb_root s) s)"

text \<open>The macro. The tree is read from the current state through \<open>tr\<close>; the body returns \<open>Inl\<close> of the
  next state, or \<open>Inr\<close> of a value when it leaves the loop.\<close>

partial_function (option) rbtree_postorder_for_each_from ::
  "('s \<Rightarrow> 'm rb_tree_scheme) \<Rightarrow> (addr \<Rightarrow> 's \<Rightarrow> ('s + 'r) option) \<Rightarrow> addr \<Rightarrow> 's \<Rightarrow> ('s + 'r) option" where
  "rbtree_postorder_for_each_from tr body pos s =
     (if pos = NULL then Some (Inl s)
      else do {
        n \<leftarrow> rb_next_postorder pos (tr s);
        r \<leftarrow> body pos s;
        case r of
          Inl s' \<Rightarrow> rbtree_postorder_for_each_from tr body n s'
        | Inr x \<Rightarrow> Some (Inr x)
      })"

definition rbtree_postorder_for_each_entry_safe ::
  "('s \<Rightarrow> 'm rb_tree_scheme) \<Rightarrow> (addr \<Rightarrow> 's \<Rightarrow> ('s + 'r) option) \<Rightarrow> 's \<Rightarrow> ('s + 'r) option" where
  "rbtree_postorder_for_each_entry_safe tr body s = do {
     pos \<leftarrow> rb_first_postorder (tr s);
     rbtree_postorder_for_each_from tr body pos s
   }"

section \<open>The abstract sequence\<close>

fun postorder :: "rbt \<Rightarrow> addr list" where
  "postorder Leaf = []"
| "postorder (Node c l a r) = postorder l @ postorder r @ [a]"

text \<open>The nodes before, and after, the subtree at a position.\<close>

fun zpre :: "zipper \<Rightarrow> addr list" where
  "zpre [] = []"
| "zpre (FL c a r # k) = zpre k"
| "zpre (FR c l a # k) = zpre k @ postorder l"

fun zpost :: "zipper \<Rightarrow> addr list" where
  "zpost [] = []"
| "zpost (FL c a r # k) = postorder r @ a # zpost k"
| "zpost (FR c l a # k) = a # zpost k"

lemma postorder_plug: "postorder (plug t k) = zpre k @ postorder t @ zpost k"
  by (induction t k rule: plug.induct) auto

lemma set_postorder [simp]: "set (postorder t) = set_rbt t"
  by (induction t) auto

lemma distinct_postorder: "distinct (postorder t) \<longleftrightarrow> distinct (inorder t)"
  by (induction t) auto

lemma postorder_Nil [simp]: "postorder t = [] \<longleftrightarrow> t = Leaf"
  by (cases t) auto

lemma postorder_position:
  assumes "distinct (inorder t)" and "postorder t = us @ x # vs"
  shows "\<exists>c l r k. t = plug (Node c l x r) k \<and> zpost k = vs"
proof -
  have "x \<in> set (postorder t)" using assms(2) by simp
  then obtain c l r k where t: "t = plug (Node c l x r) k" using tree_position [of x t] by auto
  then have e: "(zpre k @ postorder l @ postorder r) @ x # zpost k = us @ x # vs" using assms(2) by (simp add: postorder_plug)
  have "distinct ((zpre k @ postorder l @ postorder r) @ x # zpost k)"
    using assms t distinct_postorder [of t] by (simp add: postorder_plug)
  then have "x \<notin> set (zpre k @ postorder l @ postorder r)" "x \<notin> set (zpost k)" by auto
  then have "zpost k = vs" using e append_Cons_eq_iff by metis
  with t show ?thesis by blast
qed

section \<open>The walk\<close>

lemma rb_left_deepest_node_spec:
  "tree_at (rb_mem s) p t \<Longrightarrow> t \<noteq> Leaf \<Longrightarrow> rb_left_deepest_node (rootp t) s = Some (hd (postorder t))"
proof (induction t arbitrary: p)
  case (Node c l a r)
  have l: "rootp l = NULL \<longleftrightarrow> l = Leaf" and r: "rootp r = NULL \<longleftrightarrow> r = Leaf"
    using Node.prems rootp_NULL [of "rb_mem s" a l] rootp_NULL [of "rb_mem s" a r] by simp_all
  show ?case
    using Node.IH(1) [of a] Node.IH(2) [of a] Node.prems l r
    by (cases "l = Leaf"; cases "r = Leaf") (simp_all add: rb_left_deepest_node.simps [of a] hd_append)
qed simp

lemma rb_first_postorder_spec: "rb_rep s t \<Longrightarrow> rb_first_postorder s = Some (first_of (postorder t))"
  using rb_left_deepest_node_spec [of s NULL t] rootp_NULL [of "rb_mem s" NULL t]
  by (auto simp: rb_rep_def rb_first_postorder_def first_of_def)

text \<open>The store \<open>s'\<close> need only agree with the tree on the node and on those after it.\<close>

lemma rb_next_postorder_zip:
  assumes rep: "zip_rep s (Node c l x r) k" and agree: "\<forall>q\<in>set (x # zpost k). rb_mem s' q = rb_mem s q"
  shows "rb_next_postorder x s' = Some (first_of (zpost k))"
proof -
  have z: "valid_ptr x" "zip_at (rb_mem s) (rb_root s) x k" "x \<notin> zset k"
    using rep by (auto simp: zip_rep_def inorder_plug)
  obtain n where at: "rb_mem s' x = Some n" "rb_parent n = zpar k"
    using rep agree zpar_valid [OF z(2)] by (simp add: zip_rep_def)
  show ?thesis
  proof (cases k rule: zpar.cases)
    case 1
    then show ?thesis using at z(1) by (simp add: rb_next_postorder_def first_of_def valid_ptr_def)
  next
    case (2 c' a r' k')
    have a: "rb_mem s' a = Some \<lparr>rb_parent_color = zpar k' OR colbit c', rb_right = rootp r', rb_left = x\<rparr>" "valid_ptr a"
      "tree_at (rb_mem s) a r'"
      using z(2) agree 2 by auto
    have r': "tree_at (rb_mem s') a r'" using a(3) agree 2 by (subst tree_at_cong [where m = "rb_mem s"]) auto
    show ?thesis
      using at a z(1) 2 rb_left_deepest_node_spec [OF r'] rootp_NULL [OF r']
      by (cases "r' = Leaf") (simp_all add: rb_next_postorder_def first_of_def valid_ptr_def hd_append)
  next
    case (3 c' l' a k')
    have a: "rb_mem s' a = Some \<lparr>rb_parent_color = zpar k' OR colbit c', rb_right = x, rb_left = rootp l'\<rparr>" "valid_ptr a"
      using z(2) agree 3 by auto
    have "x \<noteq> rootp l'" using z(1,3) 3 rootp_mem [of l'] by (cases "l' = Leaf") (auto simp: valid_ptr_def)
    then show ?thesis using at a z(1) 3 by (simp add: rb_next_postorder_def first_of_def valid_ptr_def)
  qed
qed

lemma rb_next_postorder_spec:
  assumes "rb_rep s t" and "postorder t = us @ x # vs" and "\<forall>q\<in>set (x # vs). rb_mem s' q = rb_mem s q"
  shows "rb_next_postorder x s' = Some (first_of vs)"
proof -
  obtain c l r k where k: "t = plug (Node c l x r) k" "zpost k = vs"
    using postorder_position [of t us x vs] assms(1,2) by (auto simp: rb_rep_def)
  show ?thesis using rb_next_postorder_zip [of s c l x r k s'] assms(1,3) k by (simp add: rb_rep_plug)
qed

text \<open>The body may change what it likes but the nodes it has not been given yet.\<close>

lemma rbtree_postorder_for_each_from_rule:
  assumes rep: "rb_rep s0 t" and t: "postorder t = us @ vs" and "I vs s" and "\<forall>q\<in>set vs. rb_mem (tr s) q = rb_mem s0 q"
    and step: "\<And>x ys s. \<lbrakk>I (x # ys) s; x \<in> set_rbt t; \<forall>q\<in>set (x # ys). rb_mem (tr s) q = rb_mem s0 q\<rbrakk> \<Longrightarrow>
      \<exists>r. body x s = Some r \<and>
        (case r of Inl s' \<Rightarrow> I ys s' \<and> (\<forall>q\<in>set ys. rb_mem (tr s') q = rb_mem s0 q) | Inr v \<Rightarrow> Q v)"
  shows "\<exists>r. rbtree_postorder_for_each_from tr body (first_of vs) s = Some r \<and>
    (case r of Inl s' \<Rightarrow> I [] s' | Inr v \<Rightarrow> Q v)"
  using t assms(3,4)
proof (induction vs arbitrary: us s)
  case Nil
  then show ?case by (simp add: rbtree_postorder_for_each_from.simps first_of_def)
next
  case (Cons x ys)
  have x: "x \<in> set_rbt t" using Cons.prems(1) set_postorder [of t] by auto
  have "x \<noteq> NULL" using x rep tree_at_valid by (auto simp: rb_rep_def valid_ptr_def)
  moreover have n: "rb_next_postorder x (tr s) = Some (first_of ys)"
    using rb_next_postorder_spec [OF rep Cons.prems(1)] Cons.prems(3) by blast
  moreover obtain r where r: "body x s = Some r"
    "case r of Inl s' \<Rightarrow> I ys s' \<and> (\<forall>q\<in>set ys. rb_mem (tr s') q = rb_mem s0 q) | Inr v \<Rightarrow> Q v"
    using step [OF Cons.prems(2) x Cons.prems(3)] by blast
  moreover have "first_of (x # ys) = x" by (simp add: first_of_def)
  ultimately show ?case
    using Cons.IH [of "us @ [x]"] Cons.prems(1)
    by (cases r) (simp_all add: rbtree_postorder_for_each_from.simps [of _ _ x])
qed

lemma rbtree_postorder_for_each_entry_safe_rule:
  assumes "rb_rep (tr s) t" and "I (postorder t) s"
    and "\<And>x ys s'. \<lbrakk>I (x # ys) s'; x \<in> set_rbt t; \<forall>q\<in>set (x # ys). rb_mem (tr s') q = rb_mem (tr s) q\<rbrakk> \<Longrightarrow>
      \<exists>r. body x s' = Some r \<and>
        (case r of Inl s'' \<Rightarrow> I ys s'' \<and> (\<forall>q\<in>set ys. rb_mem (tr s'') q = rb_mem (tr s) q) | Inr v \<Rightarrow> Q v)"
  shows "\<exists>r. rbtree_postorder_for_each_entry_safe tr body s = Some r \<and> (case r of Inl s' \<Rightarrow> I [] s' | Inr v \<Rightarrow> Q v)"
  using rbtree_postorder_for_each_from_rule [OF assms(1), of "[]" "postorder t" I s tr body Q] assms
    rb_first_postorder_spec [OF assms(1)]
  by (simp add: rbtree_postorder_for_each_entry_safe_def)

section \<open>Properties\<close>

text \<open>C36: \<open>rb_first_postorder\<close> returns the first node of the postorder sequence of the tree and
  \<open>rb_next_postorder\<close> the one after each node, NULL at the end, so that the walk visits every node
  once and each node after all nodes of its two subtrees.\<close>

theorem rb_postorder_walk:
  assumes "rb_rep s t"
  shows "rb_first_postorder s = Some (hd (postorder t @ [NULL])) \<and>
    (\<forall>us x vs. postorder t = us @ x # vs \<longrightarrow> rb_next_postorder x s = Some (hd (vs @ [NULL]))) \<and>
    distinct (postorder t) \<and> set (postorder t) = set_rbt t \<and>
    (\<forall>c l x r k. t = plug (Node c l x r) k \<longrightarrow>
       (\<exists>us vs. postorder t = us @ x # vs \<and> set_rbt l \<union> set_rbt r \<subseteq> set us))"
proof (intro conjI allI impI)
  have f: "first_of xs = hd (xs @ [NULL])" for xs by (cases xs) (simp_all add: first_of_def)
  show "rb_first_postorder s = Some (hd (postorder t @ [NULL]))"
    using rb_first_postorder_spec [OF assms] by (simp add: f)
  show "rb_next_postorder x s = Some (hd (vs @ [NULL]))" if "postorder t = us @ x # vs" for us x vs
    using rb_next_postorder_spec [OF assms that, of s] by (simp add: f)
  show "distinct (postorder t)" using assms by (simp add: distinct_postorder rb_rep_def)
  show "set (postorder t) = set_rbt t" by simp
  show "\<exists>us vs. postorder t = us @ x # vs \<and> set_rbt l \<union> set_rbt r \<subseteq> set us" if "t = plug (Node c l x r) k" for c l x r k
    using that by (intro exI [of _ "zpre k @ postorder l @ postorder r"] exI [of _ "zpost k"]) (simp add: postorder_plug)
qed

lemma example_tree_rep: "rb_rep example_tree (Node Black (Node Red Leaf 16 Leaf) 32 (Node Red Leaf 48 Leaf))"
  using example_tree_cached_rep by (simp add: cached_rep_def)

theorem rb_postorder_walk_witness:
  "rb_first_postorder example_tree = Some 16 \<and> rb_next_postorder 16 example_tree = Some 48 \<and>
    rb_next_postorder 48 example_tree = Some 32 \<and> rb_next_postorder 32 example_tree = Some NULL"
proof -
  note p = rb_postorder_walk [OF example_tree_rep]
  have n: "\<forall>us x vs. [16, 48, 32] = us @ x # vs \<longrightarrow> rb_next_postorder x example_tree = Some (hd (vs @ [NULL]))"
    using p by simp
  show ?thesis
    using p n [rule_format, of "[]" 16 "[48, 32]"] n [rule_format, of "[16]" 48 "[32]"] n [rule_format, of "[16, 48]" 32 "[]"] by simp
qed

text \<open>A loop body that records the node and frees it.\<close>

definition free_and_log :: "addr \<Rightarrow> 'm rb_tree_scheme \<times> addr list \<Rightarrow> ('m rb_tree_scheme \<times> addr list + unit) option" where
  "free_and_log pos = (\<lambda>(s, log). Some (Inl (s\<lparr>rb_mem := (rb_mem s)(pos := None)\<rparr>, log @ [pos])))"

text \<open>C29: \<open>rbtree_postorder_for_each_entry_safe\<close> with a body that frees the node it is given returns,
  having visited the nodes in postorder: no freed node is ever read. Afterwards none of the nodes of
  the tree is left, and every other node is as it was.\<close>

theorem rb_postorder_frees_tree:
  fixes s :: "'m rb_tree_scheme"
  assumes "rb_rep s t"
  shows "\<exists>s'. rbtree_postorder_for_each_entry_safe fst free_and_log (s, []) =
        Some (Inl (s', postorder t)) \<and>
    (\<forall>q. rb_mem s' q = (if q \<in> set_rbt t then None else rb_mem s q))"
proof -
  define I where "I = (\<lambda>vs (s' :: 'm rb_tree_scheme, log). \<exists>us. postorder t = us @ vs \<and> log = us \<and>
    (\<forall>q. rb_mem s' q = (if q \<in> set us then None else rb_mem s q)))"
  have d: "distinct (postorder t)" using assms by (simp add: distinct_postorder rb_rep_def)
  have "\<exists>r. rbtree_postorder_for_each_entry_safe fst free_and_log (s, []) = Some r \<and>
      (case r of Inl s' \<Rightarrow> I [] s' | Inr v \<Rightarrow> False)"
  proof (rule rbtree_postorder_for_each_entry_safe_rule [where I = I])
    show "rb_rep (fst (s, [])) t" using assms by simp
    show "I (postorder t) (s, [])" by (simp add: I_def)
  next
    fix x ys st
    assume "I (x # ys) st" and agree: "\<forall>q\<in>set (x # ys). rb_mem (fst st) q = rb_mem (fst (s, [] :: addr list)) q"
    then obtain s' us where st: "st = (s', us)" "postorder t = us @ x # ys" "\<forall>q. rb_mem s' q = (if q \<in> set us then None else rb_mem s q)"
      by (auto simp: I_def)
    have "x \<notin> set ys" using d st(2) by auto
    then show "\<exists>r. free_and_log x st = Some r \<and>
      (case r of Inl s' \<Rightarrow> I ys s' \<and> (\<forall>q\<in>set ys. rb_mem (fst s') q = rb_mem (fst (s, [])) q) | Inr v \<Rightarrow> False)"
      using st agree by (auto simp: I_def free_and_log_def)
  qed
  then obtain r where r: "rbtree_postorder_for_each_entry_safe fst free_and_log (s, []) = Some r"
    "case r of Inl s' \<Rightarrow> I [] s' | Inr v \<Rightarrow> False" by blast
  then obtain s' log where run: "rbtree_postorder_for_each_entry_safe fst free_and_log (s, []) = Some (Inl (s', log))"
    and "I [] (s', log)" by (cases r) auto
  then have "log = postorder t" "\<forall>q. rb_mem s' q = (if q \<in> set_rbt t then None else rb_mem s q)"
    by (simp_all add: I_def flip: set_postorder)
  then show ?thesis using run by (intro exI [of _ s']) simp
qed

theorem rb_postorder_frees_tree_witness:
  "\<exists>s'. rbtree_postorder_for_each_entry_safe fst free_and_log (example_tree, []) =
        Some (Inl (s', [16, 48, 32])) \<and>
    (\<forall>q. rb_mem s' q = (if q \<in> {16, 32, 48} then None else rb_mem example_tree q))"
  using rb_postorder_frees_tree [OF example_tree_rep] by simp

end
