(* ===== verification/Rbtree_Rcu.thy ===== *)
theory Rbtree_Rcu
  imports Rbtree_Walk
begin

text \<open>
  The RCU variants of rbtree.c and linux/rbtree.h. In this repository \<open>rcu_assign_pointer\<close> of
  linux/rcupdate.h is an assignment, so each variant does the stores of the plain operation, and the
  equations below carry the facts about the plain ones over.
\<close>

definition rcu_assign_pointer :: "(addr \<Rightarrow> 's \<Rightarrow> 's option) \<Rightarrow> addr \<Rightarrow> 's \<Rightarrow> 's option" where
  "rcu_assign_pointer store src s = store src s"

definition rb_link_node_rcu :: "addr \<Rightarrow> addr \<Rightarrow> rb_link \<Rightarrow> 'm rb_tree_scheme \<Rightarrow> 'm rb_tree_scheme option" where
  "rb_link_node_rcu node parent link s = do {
     s \<leftarrow> rb_set_pc node parent s;
     s \<leftarrow> rb_set_right node NULL s;
     s \<leftarrow> rb_set_left node NULL s;
     rcu_assign_pointer (write_link link) node s
   }"

definition rb_change_child_rcu :: "addr \<Rightarrow> addr \<Rightarrow> addr \<Rightarrow> 'm rb_tree_scheme \<Rightarrow> 'm rb_tree_scheme option" where
  "rb_change_child_rcu old new parent s =
     (if parent \<noteq> NULL then do {
        pn \<leftarrow> rb_mem s parent;
        if rb_left pn = old then rcu_assign_pointer (rb_set_left parent) new s
        else rcu_assign_pointer (rb_set_right parent) new s
      } else rcu_assign_pointer (\<lambda>p s. Some (s\<lparr>rb_root := p\<rparr>)) new s)"

definition rb_replace_node_rcu :: "addr \<Rightarrow> addr \<Rightarrow> 'm rb_tree_scheme \<Rightarrow> 'm rb_tree_scheme option" where
  "rb_replace_node_rcu victim new s = do {
     vn \<leftarrow> rb_mem s victim;
     let parent = rb_parent vn;
     s \<leftarrow> rb_store new (\<lambda>_. vn) s;
     s \<leftarrow> c_when (rb_left vn \<noteq> NULL) (rb_set_parent (rb_left vn) new) s;
     s \<leftarrow> c_when (rb_right vn \<noteq> NULL) (rb_set_parent (rb_right vn) new) s;
     rb_change_child_rcu victim new parent s
   }"

lemma rb_link_node_rcu_eq: "rb_link_node_rcu = rb_link_node"
  by (intro ext) (simp add: rb_link_node_rcu_def rb_link_node_def rcu_assign_pointer_def)

lemma rb_change_child_rcu_eq: "rb_change_child_rcu = rb_change_child"
  unfolding rb_change_child_rcu_def [abs_def] rb_change_child_def [abs_def] rcu_assign_pointer_def by (rule refl)

lemma rb_replace_node_rcu_eq: "rb_replace_node_rcu = rb_replace_node"
  by (intro ext) (simp add: rb_replace_node_rcu_def rb_replace_node_def rb_change_child_rcu_eq)

text \<open>While the new node is filled in, a reader that walks down from the root sees the old tree: the
  link to the new node is the last store.\<close>

lemma rb_replace_node_rcu_publishes_last:
  assumes "rb_mem s victim = Some vn" and "rb_replace_node_rcu victim new s = Some s'"
  obtains s1 where "rb_root s1 = rb_root s"
    and "\<And>q n. q \<noteq> new \<Longrightarrow> rb_mem s q = Some n \<Longrightarrow> map_option (\<lambda>n. (rb_left n, rb_right n)) (rb_mem s1 q) = Some (rb_left n, rb_right n)"
    and "rb_change_child_rcu victim new (rb_parent vn) s1 = Some s'"
proof -
  have links: "rb_root s2 = rb_root s1 \<and>
      (\<forall>q n. rb_mem s1 q = Some n \<longrightarrow> map_option (\<lambda>n. (rb_left n, rb_right n)) (rb_mem s2 q) = Some (rb_left n, rb_right n))"
    if "c_when c (rb_set_parent p new) s1 = Some s2" for c p and s1 s2 :: "'a rb_tree_scheme"
    using that by (auto simp: c_when_def rb_set_parent_def rb_store_def bind_eq_Some_conv split: if_splits)
  obtain s1 s2 s3 where r: "rb_store new (\<lambda>_. vn) s = Some s1" "c_when (rb_left vn \<noteq> NULL) (rb_set_parent (rb_left vn) new) s1 = Some s2"
    "c_when (rb_right vn \<noteq> NULL) (rb_set_parent (rb_right vn) new) s2 = Some s3" "rb_change_child_rcu victim new (rb_parent vn) s3 = Some s'"
    using assms by (auto simp: rb_replace_node_rcu_def Let_def bind_eq_Some_conv)
  have "rb_root s1 = rb_root s" "\<And>q. q \<noteq> new \<Longrightarrow> rb_mem s1 q = rb_mem s q" using r(1) by (auto simp: rb_store_def bind_eq_Some_conv)
  then show ?thesis using links [OF r(2)] links [OF r(3)] r(4) by (intro that [of s3]) fastforce+
qed

end
