(* ===== verification/Drm_Mm_Walk.thy ===== *)
theory Drm_Mm_Walk
  imports Drm_Mm_Api
begin

text \<open>
  The iteration macros of drm/drm_mm.h: over all the blocks, over the blocks of a range, over the
  holes. As for the macros of linux/list.h the body maps a block and the loop state to \<open>Inl\<close> of the
  next state, or \<open>Inr\<close> of a value when it leaves the loop; the allocator is read through \<open>mm\<close>.

  The comment of \<open>drm_mm_for_each_node_in_range\<close> warns that beyond the range of the allocator it "may
  even continue indefinitely"; the loop is a \<open>partial_function\<close>, and this is proved as well.
\<close>

section \<open>The macros\<close>

definition drm_mm_nodes :: "drm_mm \<Rightarrow> addr" where
  "drm_mm_nodes s = mm_head_node s"

definition drm_mm_for_each_node ::
  "('s \<Rightarrow> drm_mm) \<Rightarrow> (addr \<Rightarrow> 's \<Rightarrow> ('s + 'r) option) \<Rightarrow> 's \<Rightarrow> ('s + 'r) option" where
  "drm_mm_for_each_node mm body s = list_for_each_entry (\<lambda>s. mm_node_list (mm s)) (drm_mm_nodes (mm s)) body s"

definition drm_mm_for_each_node_safe ::
  "('s \<Rightarrow> drm_mm) \<Rightarrow> (addr \<Rightarrow> 's \<Rightarrow> ('s + 'r) option) \<Rightarrow> 's \<Rightarrow> ('s + 'r) option" where
  "drm_mm_for_each_node_safe mm body s = list_for_each_entry_safe (\<lambda>s. mm_node_list (mm s)) (drm_mm_nodes (mm s)) body s"

partial_function (option) nodes_in_range_from ::
  "('s \<Rightarrow> drm_mm) \<Rightarrow> (addr \<Rightarrow> 's \<Rightarrow> ('s + 'r) option) \<Rightarrow> u64 \<Rightarrow> addr \<Rightarrow> 's \<Rightarrow> ('s + 'r) option" where
  "nodes_in_range_from mm body range_end node s = do {
     start \<leftarrow> START (mm s) node;
     if start < range_end then do {
       r \<leftarrow> body node s;
       case r of
         Inl s' \<Rightarrow> do { node' \<leftarrow> next_of (mm_node_list (mm s')) node; nodes_in_range_from mm body range_end node' s' }
       | Inr x \<Rightarrow> Some (Inr x)
     } else Some (Inl s)
   }"

definition drm_mm_for_each_node_in_range ::
  "('s \<Rightarrow> drm_mm) \<Rightarrow> (addr \<Rightarrow> 's \<Rightarrow> ('s + 'r) option) \<Rightarrow> u64 \<Rightarrow> u64 \<Rightarrow> 's \<Rightarrow> ('s + 'r) option" where
  "drm_mm_for_each_node_in_range mm body start range_end s = do {
     node \<leftarrow> drm_mm_interval_first start (range_end - 1) (mm s);
     nodes_in_range_from mm body range_end node s
   }"

partial_function (option) holes_from ::
  "('s \<Rightarrow> drm_mm) \<Rightarrow> (addr \<Rightarrow> u64 \<Rightarrow> u64 \<Rightarrow> 's \<Rightarrow> ('s + 'r) option) \<Rightarrow> addr \<Rightarrow> 's \<Rightarrow> ('s + 'r) option" where
  "holes_from mm body pos s =
     (if pos \<noteq> mm_hole_stack (mm s) then do {
        hole_start \<leftarrow> drm_mm_hole_node_start pos (mm s);
        n \<leftarrow> mm_nodes (mm s) pos;
        let hole_end = hole_start + nd_hole_size n;
        r \<leftarrow> body pos hole_start hole_end s;
        case r of
          Inl s' \<Rightarrow> do { pos' \<leftarrow> next_of (mm_hole_list (mm s')) pos; holes_from mm body pos' s' }
        | Inr x \<Rightarrow> Some (Inr x)
      } else Some (Inl s))"

definition drm_mm_for_each_hole ::
  "('s \<Rightarrow> drm_mm) \<Rightarrow> (addr \<Rightarrow> u64 \<Rightarrow> u64 \<Rightarrow> 's \<Rightarrow> ('s + 'r) option) \<Rightarrow> 's \<Rightarrow> ('s + 'r) option" where
  "drm_mm_for_each_hole mm body s = do {
     pos \<leftarrow> next_of (mm_hole_list (mm s)) (mm_hole_stack (mm s));
     holes_from mm body pos s
   }"

text \<open>A body that collects what it is given.\<close>

definition collect :: "'a \<Rightarrow> 'a list \<Rightarrow> ('a list + unit) option" where
  "collect x log = Some (Inl (log @ [x]))"

section \<open>The blocks of a range\<close>

lemma node_fields:
  assumes "mm_ok start sz s ns" and "x \<in> set (mm_head_node s # ns)"
  shows "START s x = Some (n_start (mm_nodes s) x)" "LAST s x = Some (n_end (mm_nodes s) x - 1)"
proof -
  have "node_ok s x" using assms by (auto simp: mm_ok_def mm_inv_def head_ok_def block_ok_def)
  then have "mm_nodes s x \<noteq> None" by (simp add: node_ok_def live_def)
  then show "START s x = Some (n_start (mm_nodes s) x)" "LAST s x = Some (n_end (mm_nodes s) x - 1)" by (rule node_reads)+
qed

lemma mm_ok_order:
  assumes "mm_ok start sz s ns"
  shows "sorted_wrt (\<lambda>c d. n_end (mm_nodes s) c \<le> n_start (mm_nodes s) d) ns"
    and "\<forall>c\<in>set ns. n_start (mm_nodes s) c < n_end (mm_nodes s) c \<and> start \<le> n_start (mm_nodes s) c \<and> n_end (mm_nodes s) c \<le> start + sz"
    and "n_start (mm_nodes s) (mm_head_node s) = start + sz" "n_end (mm_nodes s) (mm_head_node s) = start" "start < start + sz"
proof -
  obtain hs where inv: "mm_inv s ns hs" using assms by (auto simp: mm_ok_def)
  show h: "n_start (mm_nodes s) (mm_head_node s) = start + sz" "n_end (mm_nodes s) (mm_head_node s) = start"
    using assms by (simp_all add: mm_ok_def)
  show "sorted_wrt (\<lambda>c d. n_end (mm_nodes s) c \<le> n_start (mm_nodes s) d) ns" using mm_inv_order [OF inv] by (simp add: sorted_wrt_append)
  show "\<forall>c\<in>set ns. n_start (mm_nodes s) c < n_end (mm_nodes s) c \<and> start \<le> n_start (mm_nodes s) c \<and> n_end (mm_nodes s) c \<le> start + sz"
    using mm_inv_in_range [OF inv] h by auto
  show "start < start + sz" using inv h by (simp add: mm_inv_def head_ok_def)
qed

lemma starts_sorted:
  assumes "mm_ok start sz s ns"
  shows "sorted (map (\<lambda>x. the (START s x)) ns)"
proof -
  have "sorted_wrt (\<lambda>c d. the (START s c) \<le> the (START s d)) ns"
  proof (rule sorted_wrt_mono_rel [OF _ mm_ok_order(1) [OF assms]])
    fix c d assume cd: "c \<in> set ns" "d \<in> set ns" "n_end (mm_nodes s) c \<le> n_start (mm_nodes s) d"
    then have "n_start (mm_nodes s) c \<le> n_start (mm_nodes s) d" using mm_ok_order(2) [OF assms] by fastforce
    then show "the (START s c) \<le> the (START s d)" using node_fields [OF assms] cd by simp
  qed
  then show ?thesis by (simp add: sorted_wrt_map)
qed

text \<open>A block meets \<open>[a; b - 1]\<close> as the interval tree sees it, or \<open>[a; b)\<close>.\<close>

lemma overlaps_range:
  assumes ok: "mm_ok start sz s ns" and x: "x \<in> set ns" and ab: "a < b"
  shows "overlaps (START s) (LAST s) a (b - 1) x \<longleftrightarrow> n_start (mm_nodes s) x < b \<and> a < n_end (mm_nodes s) x"
proof -
  have m: "p \<le> q - 1 \<longleftrightarrow> p < q" if "q \<noteq> 0" for p q :: u64 using that unat_gt_0 [of q] by (auto simp: word_le_nat_alt word_less_nat_alt unat_minus_one)
  have "n_end (mm_nodes s) x \<noteq> 0" "b \<noteq> 0" using mm_ok_order(2) [OF ok] x ab by auto
  then show ?thesis using node_fields [OF ok, of x] x m by (simp add: overlaps_def)
qed

lemma drm_mm_interval_first_spec:
  assumes "mm_ok start sz s ns"
  shows "drm_mm_interval_first a l s = Some (hd (filter (overlaps (START s) (LAST s) a l) ns @ [mm_head_node s]))"
proof -
  obtain hs where inv: "mm_inv s ns hs" using assms by (auto simp: mm_ok_def)
  then have seq: "it_seq (LAST s) (mm_interval_tree s) ns" by (simp add: mm_inv_def)
  have "\<forall>x\<in>set ns. START s x \<noteq> None" using node_fields [OF assms] by simp
  note f = interval_tree_iter_first_spec [OF seq this starts_sorted [OF assms], of a l]
  have "x \<noteq> NULL" if "x \<in> set ns" for x using rb_seq_valid [OF it_seq_rb_seq [OF seq] that] by (simp add: valid_ptr_def)
  moreover have "filter (overlaps (START s) (LAST s) a l) ns \<noteq> [] \<Longrightarrow> hd (filter (overlaps (START s) (LAST s) a l) ns) \<in> set ns"
    using hd_in_set [of "filter (overlaps (START s) (LAST s) a l) ns"] by simp
  ultimately show ?thesis
    using f by (cases "filter (overlaps (START s) (LAST s) a l) ns") (auto simp: drm_mm_interval_first_def first_of_def)
qed

text \<open>From a block on, the walk takes the blocks that start before the end.\<close>

lemma nodes_in_range_from_spec:
  assumes ok: "mm_ok start sz s ns" and b: "b \<le> start + sz" and "ns = us @ vs"
  shows "nodes_in_range_from (\<lambda>_. s) collect b (hd (vs @ [mm_head_node s])) log =
    Some (Inl (log @ takeWhile (\<lambda>x. n_start (mm_nodes s) x < b) vs))"
  using assms(3)
proof (induction vs arbitrary: us log)
  case Nil
  then show ?case using node_fields(1) [OF ok, of "mm_head_node s"] mm_ok_order(3) [OF ok] b
    by (subst nodes_in_range_from.simps) (simp add: leD)
next
  case (Cons v vs)
  obtain hs where inv: "mm_inv s ns hs" using ok by (auto simp: mm_ok_def)
  have "next_of (mm_node_list s) v = Some (hd (vs @ [mm_head_node s]))"
    using mm_inv_at(7) [OF inv, of "mm_head_node s # us" v vs] Cons.prems by simp
  then show ?case using Cons.IH [of "us @ [v]"] Cons.prems node_fields(1) [OF ok, of v]
    by (simp add: nodes_in_range_from.simps [of _ _ _ v] collect_def)
qed

lemma filter_range:
  assumes "sorted_wrt (\<lambda>c d. e c \<le> (s d :: u64)) ns" and "\<forall>c\<in>set ns. s c < e c"
  shows "filter (\<lambda>x. s x < b \<and> a < e x) ns = takeWhile (\<lambda>x. s x < b) (dropWhile (\<lambda>x. e x \<le> a) ns)"
  using assms
proof (induction ns)
  case (Cons x ns)
  have p: "\<forall>c\<in>set ns. s c < e c" "\<forall>c\<in>set ns. e x \<le> s c" "s x < e x" using Cons.prems by auto
  show ?case
  proof (cases "e x \<le> a")
    case False
    then have "\<forall>c\<in>set ns. a < e c" using p by (meson less_le_trans less_trans not_le)
    then have d: "\<forall>c\<in>set ns. \<not> e c \<le> a" by (simp add: not_le)
    then have dw: "dropWhile (\<lambda>x. e x \<le> a) ns = ns" by (cases ns) auto
    have "\<not> s x < b \<Longrightarrow> \<forall>c\<in>set ns. \<not> s c < b" using p by fastforce
    then show ?thesis using Cons False d dw by (auto simp: filter_empty_conv)
  qed (use Cons in \<open>simp add: leD\<close>)
qed simp

text \<open>Beyond the range the walk goes round the list of blocks again and again.\<close>

lemma nodes_in_range_from_diverges:
  assumes ok: "mm_ok start sz s ns" and b: "start + sz < b" and x: "x \<in> set (mm_head_node s # ns)"
  shows "nodes_in_range_from (\<lambda>_. s) collect b x log = None"
proof -
  obtain hs where inv: "mm_inv s ns hs" using ok by (auto simp: mm_ok_def)
  have step: "\<exists>y\<in>set (mm_head_node s # ns). next_of (mm_node_list s) x = Some y" "n_start (mm_nodes s) x < b"
    if x: "x \<in> set (mm_head_node s # ns)" for x
  proof -
    obtain us vs where u: "mm_head_node s # ns = us @ x # vs" using split_list [OF x] by blast
    then have "hd (vs @ [mm_head_node s]) \<in> set (mm_head_node s # ns)" by (cases vs; cases us) auto
    then show "\<exists>y\<in>set (mm_head_node s # ns). next_of (mm_node_list s) x = Some y" using mm_inv_at(7) [OF inv u] by blast
    show "n_start (mm_nodes s) x < b" using x mm_ok_order(2,3) [OF ok] b by fastforce
  qed
  have "False" if "nodes_in_range_from mm body b' x log = Some r"
    "mm = (\<lambda>_. s)" "body = collect" "b' = b" "x \<in> set (mm_head_node s # ns)" for mm body b' x log and r :: "addr list + unit"
    using that
  proof (induction mm body b' x log r rule: nodes_in_range_from.raw_induct)
    case (1 f mm body b' x log r)
    obtain y where y: "y \<in> set (mm_head_node s # ns)" "next_of (mm_node_list s) x = Some y" using step(1) [OF 1(7)] by blast
    have "f mm body b' y (log @ [x]) = Some r"
      using 1(2,4-6) y(2) step(2) [OF 1(7)] node_fields(1) [OF ok 1(7)] by (simp add: collect_def)
    moreover have "nodes_in_range_from mm body b' y (log @ [x]) = Some r"
      using 1(3-6) y(2) step(2) [OF 1(7)] node_fields(1) [OF ok 1(7)] nodes_in_range_from.simps [of mm body b' x log]
      by (simp add: collect_def)
    ultimately show ?case using 1(1) 1(4-6) y(1) by blast
  qed (rule that(1))
  then show ?thesis using x by (metis not_None_eq)
qed

section \<open>The holes\<close>

text \<open>The holes, in the order of the list of blocks, as pairs of start and end.\<close>

definition hole_at :: "drm_mm \<Rightarrow> addr \<Rightarrow> u64 \<times> u64" where
  "hole_at s x = (n_end (mm_nodes s) x, n_end (mm_nodes s) x + n_hole (mm_nodes s) x)"

definition collect_hole :: "addr \<Rightarrow> u64 \<Rightarrow> u64 \<Rightarrow> (u64 \<times> u64) list \<Rightarrow> ((u64 \<times> u64) list + unit) option" where
  "collect_hole pos hole_start hole_end = collect (hole_start, hole_end)"

lemma holes_from_spec:
  assumes "is_list (mm_hole_list s) (mm_hole_stack s) (us @ vs)" and "\<forall>x\<in>set vs. mm_nodes s x \<noteq> None \<and> n_hole (mm_nodes s) x \<noteq> 0"
  shows "holes_from (\<lambda>_. s) collect_hole (hd (vs @ [mm_hole_stack s])) log = Some (Inl (log @ map (hole_at s) vs))"
  using assms
proof (induction vs arbitrary: us log)
  case Nil
  then show ?case by (simp add: holes_from.simps)
next
  case (Cons v vs)
  have "next_of (mm_hole_list s) v = Some (hd (vs @ [mm_hole_stack s]))" "v \<noteq> mm_hole_stack s"
    using is_list_next [of "mm_hole_list s" "mm_hole_stack s" "us @ [v]" vs] Cons.prems(1) by (auto simp: is_list_def)
  moreover have "drm_mm_hole_node_start v s = Some (n_end (mm_nodes s) v)" "\<exists>n. mm_nodes s v = Some n \<and> nd_hole_size n = n_hole (mm_nodes s) v"
    using node_reads [of s v] Cons.prems(2) by (auto simp: drm_mm_hole_node_start_def n_hole_def)
  ultimately show ?case using Cons.IH [of "us @ [v]"] Cons.prems
    by (auto simp: holes_from.simps [of _ _ v] collect_hole_def collect_def hole_at_def)
qed

lemma hole_at_facts:
  assumes ok: "mm_ok start sz s ns" and x: "x \<in> set (mm_head_node s # ns)" "n_hole (mm_nodes s) x \<noteq> 0" and h: "hole_at s x = (a, b)"
  shows "start \<le> a" "a < b" "b \<le> start + sz" "\<forall>c\<in>set ns. n_end (mm_nodes s) c \<le> a \<or> b \<le> n_start (mm_nodes s) c"
    and "\<forall>y\<in>set (mm_head_node s # ns). y \<noteq> x \<longrightarrow> snd (hole_at s y) \<le> a \<or> b \<le> fst (hole_at s y)"
proof -
  obtain hs where inv: "mm_inv s ns hs" using ok by (auto simp: mm_ok_def)
  obtain us vs where u: "mm_head_node s # ns = us @ x # vs" using split_list [OF x(1)] by blast
  have ab: "a = n_end (mm_nodes s) x" "b = n_end (mm_nodes s) x + n_hole (mm_nodes s) x" using h by (auto simp: hole_at_def)
  note at = mm_inv_at [OF inv u, folded ab(2), folded ab(1)]
  show "a < b" using at(1) x(2) by (simp add: ab order_less_le)
  have tl: "set ns = set (tl (us @ x # vs))" using u by (metis list.sel(3))
  show "b \<le> start + sz" using at(3) mm_ok_order(3) [OF ok] by auto
  show "start \<le> a"
  proof (cases us)
    case Nil
    then show ?thesis using u mm_ok_order(4) [OF ok] ab(1) by simp
  next
    case (Cons w us')
    then have "x \<in> set ns" using tl by auto
    then show ?thesis using mm_ok_order(2) [OF ok] ab(1) by fastforce
  qed
  show "\<forall>c\<in>set ns. n_end (mm_nodes s) c \<le> a \<or> b \<le> n_start (mm_nodes s) c"
  proof
    fix c assume "c \<in> set ns"
    then have "c \<in> set us \<or> c = x \<or> c \<in> set vs" using tl by (cases us) auto
    then show "n_end (mm_nodes s) c \<le> a \<or> b \<le> n_start (mm_nodes s) c" using at(3,4) ab(1) by auto
  qed
  show "\<forall>y\<in>set (mm_head_node s # ns). y \<noteq> x \<longrightarrow> snd (hole_at s y) \<le> a \<or> b \<le> fst (hole_at s y)"
  proof (intro ballI impI)
    fix y assume "y \<in> set (mm_head_node s # ns)" "y \<noteq> x"
    then consider "y \<in> set us" | "y \<in> set vs" using u by auto
    then show "snd (hole_at s y) \<le> a \<or> b \<le> fst (hole_at s y)"
    proof cases
      case 1
      then obtain us1 us2 where us: "us = us1 @ y # us2" using split_list by metis
      then have y: "mm_head_node s # ns = us1 @ y # us2 @ x # vs" using u by simp
      have "x \<in> set ns" using tl us by (cases us1) auto
      then have "n_start (mm_nodes s) x < n_end (mm_nodes s) x" using mm_ok_order(2) [OF ok] by blast
      then have "n_end (mm_nodes s) y + n_hole (mm_nodes s) y \<le> a" using mm_inv_at(3) [OF inv y] ab(1) by fastforce
      then show ?thesis by (simp add: hole_at_def)
    next
      case 2
      then have "b \<le> n_start (mm_nodes s) y" using at(3) by auto
      moreover have "y \<in> set ns" using tl 2 by (cases us) auto
      ultimately have "b \<le> n_end (mm_nodes s) y" using mm_ok_order(2) [OF ok] by fastforce
      then show ?thesis by (simp add: hole_at_def)
    qed
  qed
qed

lemma hole_covers:
  assumes ok: "mm_ok start sz s ns" and p: "start \<le> p" "p < start + sz" "\<forall>c\<in>set ns. \<not> (n_start (mm_nodes s) c \<le> p \<and> p < n_end (mm_nodes s) c)"
  shows "\<exists>x\<in>set (mm_head_node s # ns). n_hole (mm_nodes s) x \<noteq> 0 \<and> fst (hole_at s x) \<le> p \<and> p < snd (hole_at s x)"
proof -
  obtain hs where inv: "mm_inv s ns hs" using ok by (auto simp: mm_ok_def)
  have q: "p < p + 1" "p + 1 \<le> start + sz" using p(2) inc_le [OF p(2)] inc_less_eq_self_iff_eq [of p] by (auto simp: not_le [symmetric])
  have "\<forall>c\<in>set ns. n_end (mm_nodes s) c \<le> p \<or> p + 1 \<le> n_start (mm_nodes s) c"
    using p(3) by (auto simp: not_le inc_le not_less)
  then obtain x where x: "x \<in> set (mm_head_node s # ns)" "n_end (mm_nodes s) x \<le> p" "p + 1 \<le> n_end (mm_nodes s) x + n_hole (mm_nodes s) x"
    using mm_inv_gap [OF inv _ q(1)] q(2) p(1) mm_ok_order(3,4) [OF ok] by auto
  then have "p < n_end (mm_nodes s) x + n_hole (mm_nodes s) x" using q(1) by simp
  moreover from this have "n_hole (mm_nodes s) x \<noteq> 0" using x(2) by auto
  ultimately show ?thesis using x by (auto simp: hole_at_def)
qed

lemma drm_mm_for_each_node_collect:
  assumes "mm_ok start sz s ns"
  shows "drm_mm_for_each_node (\<lambda>_. s) collect [] = Some (Inl ns)"
proof -
  have l: "is_list (mm_node_list s) (mm_head_node s) ns" using assms by (auto simp: mm_ok_def mm_inv_def)
  have "\<exists>r. list_for_each_entry (\<lambda>_. mm_node_list s) (mm_head_node s) collect [] = Some r \<and>
    (case r of Inl log \<Rightarrow> ns = log @ [] | Inr v \<Rightarrow> False)"
    by (rule list_for_each_entry_rule [where I = "\<lambda>xs log. ns = log @ xs"]) (use l in \<open>auto simp: collect_def\<close>)
  then obtain r where "list_for_each_entry (\<lambda>_. mm_node_list s) (mm_head_node s) collect [] = Some r"
    "case r of Inl log \<Rightarrow> ns = log @ [] | Inr v \<Rightarrow> False" by blast
  then show ?thesis by (cases r) (simp_all add: drm_mm_for_each_node_def drm_mm_nodes_def)
qed

text \<open>The safe variant may remove the block it is at; removing every block gives back one hole.\<close>

lemma drm_mm_for_each_node_safe_removes:
  assumes "mm_inv s ns hs"
  shows "\<exists>s' hs'. drm_mm_for_each_node_safe (\<lambda>s. s) (\<lambda>x s. map_option Inl (drm_mm_remove_node x s)) s =
      Some (Inl s' :: drm_mm + unit) \<and> mm_inv s' [] hs' \<and> mm_head_node s' = mm_head_node s"
proof -
  let ?H = "mm_head_node s" and ?body = "\<lambda>x s. map_option Inl (drm_mm_remove_node x s) :: (drm_mm + unit) option"
  have l: "is_list (mm_node_list s) ?H ns" using assms by (simp add: mm_inv_def)
  have "\<exists>r. list_for_each_entry_safe mm_node_list ?H ?body s = Some r \<and>
    (case r of Inl s' \<Rightarrow> mm_head_node s' = ?H \<and> (\<exists>hs. mm_inv s' [] hs) | Inr v \<Rightarrow> False)"
  proof (rule list_for_each_entry_safe_rule [where I = "\<lambda>xs s'. mm_head_node s' = ?H \<and> (\<exists>hs. mm_inv s' xs hs)" and xs = ns])
    fix x ys t assume "mm_head_node t = ?H \<and> (\<exists>hs. mm_inv t (x # ys) hs)"
    then obtain hs where t: "mm_head_node t = ?H" "mm_inv t ([] @ x # ys) hs" by auto
    obtain t' hs' where t': "drm_mm_remove_node x t = Some t'" "mm_inv t' ys hs'" "mm_head_node t' = ?H"
      using drm_mm_remove_node_spec [OF t(2)] t(1) by (auto simp: mm_frame_def)
    then have n: "is_list (mm_node_list t') ?H ys" by (simp add: mm_inv_def)
    then have "next_path (mm_node_list t') (ys @ [?H])" "?H \<in> dom (mm_node_list t')"
      using is_list_dom [OF n] by (cases ys; simp add: is_list_def)+
    then show "\<exists>r. ?body x t = Some r \<and> (case r of Inl s' \<Rightarrow> (mm_head_node s' = ?H \<and> (\<exists>hs. mm_inv s' ys hs)) \<and>
        next_path (mm_node_list s') (ys @ [?H]) \<and> ?H \<in> dom (mm_node_list s') | Inr v \<Rightarrow> False)"
      using t' by auto
  qed (use assms l in auto)
  then obtain r where "list_for_each_entry_safe mm_node_list ?H ?body s = Some r"
    "case r of Inl s' \<Rightarrow> mm_head_node s' = ?H \<and> (\<exists>hs. mm_inv s' [] hs) | Inr v \<Rightarrow> False" by blast
  then show ?thesis by (cases r) (auto simp: drm_mm_for_each_node_safe_def drm_mm_nodes_def)
qed

lemma distinct_apart: "distinct xs \<Longrightarrow> sorted_wrt (\<lambda>x y. x \<noteq> y) xs"
  by (induction xs) auto

section \<open>Properties\<close>

text \<open>An allocator of 128 MiB with one block of two pages at its start.\<close>

text \<open>C27: \<open>drm_mm_for_each_node_in_range\<close> with \<open>a < b\<close>, as long as \<open>b\<close> is not beyond the end of the range of
  the allocator, ends and visits exactly the blocks that meet \<open>[a; b)\<close>, once each, in the order of
  their addresses. With \<open>b\<close> beyond it the walk never ends: it goes round the list of blocks, the head
  node included, for ever.\<close>

theorem drm_mm_range_walk:
  assumes "mm_ok start sz s ns" and "a < b"
  shows "drm_mm_for_each_node_in_range (\<lambda>_. s) collect a b [] =
    (if b \<le> start + sz then Some (Inl (filter (\<lambda>x. n_start (mm_nodes s) x < b \<and> a < n_end (mm_nodes s) x) ns)) else None)"
proof -
  let ?m = "mm_nodes s" and ?H = "mm_head_node s"
  define ws where "ws = dropWhile (\<lambda>x. n_end ?m x \<le> a) ns"
  have f: "filter (\<lambda>x. n_start ?m x < b \<and> a < n_end ?m x) ns = takeWhile (\<lambda>x. n_start ?m x < b) ws"
    unfolding ws_def using mm_ok_order(1,2) [OF assms(1)] by (intro filter_range) auto
  have "filter (overlaps (START s) (LAST s) a (b - 1)) ns = filter (\<lambda>x. n_start ?m x < b \<and> a < n_end ?m x) ns"
    by (rule filter_cong) (simp_all add: overlaps_range [OF assms(1) _ assms(2)])
  then have first: "drm_mm_interval_first a (b - 1) s = Some (hd (takeWhile (\<lambda>x. n_start ?m x < b) ws @ [?H]))"
    using drm_mm_interval_first_spec [OF assms(1), of a "b - 1"] f by simp
  show ?thesis
  proof (cases "b \<le> start + sz")
    case False
    have "set ws \<subseteq> set ns" unfolding ws_def by (meson set_dropWhileD subsetI)
    then have "hd (takeWhile (\<lambda>x. n_start ?m x < b) ws @ [?H]) \<in> set (?H # ns)" by (cases ws) auto
    then show ?thesis using nodes_in_range_from_diverges [OF assms(1)] first False
      by (simp add: drm_mm_for_each_node_in_range_def)
  next
    case True
    have split: "ns = takeWhile (\<lambda>x. n_end ?m x \<le> a) ns @ ws" unfolding ws_def by simp
    show ?thesis
    proof (cases "takeWhile (\<lambda>x. n_start ?m x < b) ws = []")
      case True
      then show ?thesis using nodes_in_range_from_spec [OF assms(1) \<open>b \<le> start + sz\<close>, of ns "[]" "[]"] first f \<open>b \<le> start + sz\<close>
        by (simp add: drm_mm_for_each_node_in_range_def)
    next
      case False
      then have "hd (takeWhile (\<lambda>x. n_start ?m x < b) ws @ [?H]) = hd (ws @ [?H])" by (cases ws) (auto split: if_splits)
      then show ?thesis using nodes_in_range_from_spec [OF assms(1) True split, of "[]"] first f True
        by (simp add: drm_mm_for_each_node_in_range_def)
    qed
  qed
qed

theorem drm_mm_range_walk_witness:
  "\<exists>s. drm_mm_for_each_node_in_range (\<lambda>_. s) collect 0x1000 0x3000 [] = Some (Inl [48]) \<and>
    drm_mm_for_each_node_in_range (\<lambda>_. s) collect 0x2000 0x3000 [] = Some (Inl []) \<and>
    drm_mm_for_each_node_in_range (\<lambda>_. s) collect 0x1000 0x8000001 [] = None"
proof -
  obtain s where s: "mm_ok 0 0x8000000 s [48]" "n_start (mm_nodes s) 48 = 0" "n_end (mm_nodes s) 48 = 0x2000"
    using example_block by blast
  show ?thesis
    using drm_mm_range_walk [OF s(1), of "0x1000" "0x3000"] drm_mm_range_walk [OF s(1), of "0x2000" "0x3000"]
      drm_mm_range_walk [OF s(1), of "0x1000" "0x8000001"] s(2,3)
    by (intro exI [of _ s]) simp
qed

text \<open>C28: \<open>drm_mm_for_each_hole\<close> ends, its assertion that a hole follows never fails, and the pairs of
  \<open>hole_start\<close> and \<open>hole_end\<close> it gives are the free space: they are not empty, do not overlap, and an
  address of the range is in one of them exactly when it is in no block.\<close>

theorem drm_mm_hole_walk:
  assumes "mm_ok start sz s ns"
  shows "\<exists>log. drm_mm_for_each_hole (\<lambda>_. s) collect_hole [] = Some (Inl log) \<and>
    (\<forall>(a, b)\<in>set log. a < b) \<and>
    sorted_wrt (\<lambda>(a, b) (c, d). b \<le> c \<or> d \<le> a) log \<and>
    (\<forall>p. (\<exists>(a, b)\<in>set log. a \<le> p \<and> p < b) \<longleftrightarrow>
      start \<le> p \<and> p < start + sz \<and> (\<forall>x\<in>set ns. \<not> (n_start (mm_nodes s) x \<le> p \<and> p < n_end (mm_nodes s) x)))"
proof -
  let ?m = "mm_nodes s" and ?H = "mm_head_node s"
  obtain hs where inv: "mm_inv s ns hs" using assms by (auto simp: mm_ok_def)
  then have l: "is_list (mm_hole_list s) (mm_hole_stack s) hs" and hs: "set hs = {x \<in> set (?H # ns). n_hole ?m x \<noteq> 0}"
    and live: "\<forall>x\<in>set hs. live s x"
    by (auto simp: mm_inv_def holes_rep_def)
  note H = hole_at_facts [OF assms]
  have x: "x \<in> set (?H # ns)" "n_hole ?m x \<noteq> 0" if "x \<in> set hs" for x using that hs by auto
  have "\<forall>x\<in>set hs. ?m x \<noteq> None \<and> n_hole ?m x \<noteq> 0" using live x by (auto simp: live_def)
  then have run: "drm_mm_for_each_hole (\<lambda>_. s) collect_hole [] = Some (Inl (map (hole_at s) hs))"
    using holes_from_spec [of s "[]" hs "[]"] l is_list_next [of "mm_hole_list s" "mm_hole_stack s" "[]" hs]
    by (simp add: drm_mm_for_each_hole_def)
  have "sorted_wrt (\<lambda>x y. snd (hole_at s x) \<le> fst (hole_at s y) \<or> snd (hole_at s y) \<le> fst (hole_at s x)) hs"
  proof (rule sorted_wrt_mono_rel [where P = "\<lambda>x y. x \<noteq> y"])
    show "sorted_wrt (\<lambda>x y. x \<noteq> y) hs" using l by (simp add: is_list_def distinct_apart)
    show "snd (hole_at s x) \<le> fst (hole_at s y) \<or> snd (hole_at s y) \<le> fst (hole_at s x)"
      if "x \<in> set hs" "y \<in> set hs" "x \<noteq> y" for x y
      using H(5) [OF x [OF that(1)] prod.collapse [symmetric]] x [OF that(2)] that(3) by auto
  qed
  then have 1: "sorted_wrt (\<lambda>(a, b) (c, d). b \<le> c \<or> d \<le> a) (map (hole_at s) hs)" by (simp add: sorted_wrt_map split_def)
  have "fst (hole_at s x) < snd (hole_at s x)" if "x \<in> set hs" for x
    using H(2) [OF x [OF that] prod.collapse [symmetric]] .
  then have 2: "\<forall>(a, b)\<in>set (map (hole_at s) hs). a < b" by (simp add: split_def)
  have "(\<exists>(a, b)\<in>set (map (hole_at s) hs). a \<le> p \<and> p < b) \<longleftrightarrow>
    start \<le> p \<and> p < start + sz \<and> (\<forall>x\<in>set ns. \<not> (n_start ?m x \<le> p \<and> p < n_end ?m x))" (is "?l \<longleftrightarrow> ?r") for p
  proof
    assume ?l
    then obtain y where y: "y \<in> set hs" "fst (hole_at s y) \<le> p" "p < snd (hole_at s y)" by (auto simp: split_def)
    note f = H [OF x [OF y(1)] prod.collapse [symmetric]]
    have "start \<le> p" "p < start + sz" using f(1,3) y(2,3) by auto
    moreover have "\<not> (n_start ?m c \<le> p \<and> p < n_end ?m c)" if "c \<in> set ns" for c
      using f(4) that y(2,3) by fastforce
    ultimately show ?r by blast
  next
    assume ?r
    then obtain y where "y \<in> set (?H # ns)" "n_hole ?m y \<noteq> 0" "fst (hole_at s y) \<le> p" "p < snd (hole_at s y)"
      using hole_covers [OF assms] by blast
    then have "hole_at s y \<in> set (map (hole_at s) hs)" "fst (hole_at s y) \<le> p \<and> p < snd (hole_at s y)" using hs by auto
    then show ?l by (metis (no_types, lifting) case_prod_beta)
  qed
  then show ?thesis using run 1 2 by blast
qed

theorem drm_mm_hole_walk_witness:
  "\<exists>s log. drm_mm_for_each_hole (\<lambda>_. s) collect_hole [] = Some (Inl log) \<and>
    (\<exists>(a, b)\<in>set log. a \<le> 0x2000 \<and> 0x2000 < b) \<and> \<not> (\<exists>(a, b)\<in>set log. a \<le> 0x1fff \<and> 0x1fff < b)"
proof -
  obtain s where s: "mm_ok 0 0x8000000 s [48]" "n_start (mm_nodes s) 48 = 0" "n_end (mm_nodes s) 48 = 0x2000"
    using example_block by blast
  obtain log where "drm_mm_for_each_hole (\<lambda>_. s) collect_hole [] = Some (Inl log)"
    and p: "\<forall>p. (\<exists>(a, b)\<in>set log. a \<le> p \<and> p < b) \<longleftrightarrow> 0 \<le> p \<and> p < 0 + 0x8000000 \<and>
      (\<forall>x\<in>set [48]. \<not> (n_start (mm_nodes s) x \<le> p \<and> p < n_end (mm_nodes s) x))"
    using drm_mm_hole_walk [OF s(1)] by blast
  then show ?thesis using p [rule_format, of "0x2000"] p [rule_format, of "0x1fff"] s(2,3)
    by (intro exI [of _ s] exI [of _ log]) simp
qed

end
