(* ===== verification/Drm_Mm_Contract.thy ===== *)
theory Drm_Mm_Contract
  imports Drm_Mm_Walk
begin

text \<open>
  The contract of the range allocator as an abstract machine: a partial map from nodes to blocks,
  without lists, trees or holes. Any client that keeps its side of the contract, whatever it makes of
  the results, gets the answers of the abstract machine.
\<close>

section \<open>Clients\<close>

text \<open>A client makes one request after another; which one may depend on the results so far.\<close>

datatype ('r, 'c) client = Stop | Call 'r "'c \<Rightarrow> ('r, 'c) client"

primrec run_client :: "('r \<Rightarrow> 's \<Rightarrow> ('c \<times> 's) option) \<Rightarrow> ('r, 'c) client \<Rightarrow> 's \<Rightarrow> (('r \<times> 'c) list \<times> 's) option" where
  "run_client run Stop = (\<lambda>s. Some ([], s))"
| "run_client run (Call r k) = (\<lambda>s. do {
     (c, s) \<leftarrow> run r s;
     (log, s) \<leftarrow> run_client run (k c) s;
     Some ((r, c) # log, s) })"

text \<open>Every request is allowed in every state in which the abstract machine lets the client make it.\<close>

primrec keeps_contract :: "('r \<Rightarrow> 'a \<Rightarrow> bool) \<Rightarrow> ('r \<Rightarrow> 'a \<Rightarrow> 'c \<Rightarrow> 'a \<Rightarrow> bool) \<Rightarrow> ('r, 'c) client \<Rightarrow> 'a \<Rightarrow> bool" where
  "keeps_contract allowed step Stop = (\<lambda>a. True)"
| "keeps_contract allowed step (Call r k) =
     (\<lambda>a. allowed r a \<and> (\<forall>c a'. step r a c a' \<longrightarrow> keeps_contract allowed step (k c) a'))"

text \<open>A run of the abstract machine with these requests and results.\<close>

fun trace_of :: "('r \<Rightarrow> 'a \<Rightarrow> 'c \<Rightarrow> 'a \<Rightarrow> bool) \<Rightarrow> ('r \<times> 'c) list \<Rightarrow> 'a \<Rightarrow> 'a \<Rightarrow> bool" where
  "trace_of step [] a a' \<longleftrightarrow> a' = a"
| "trace_of step ((r, c) # log) a a' \<longleftrightarrow> (\<exists>b. step r a c b \<and> trace_of step log b a')"

locale simulation =
  fixes inv :: "'s \<Rightarrow> bool" and abs :: "'s \<Rightarrow> 'a" and run :: "'r \<Rightarrow> 's \<Rightarrow> ('c \<times> 's) option"
    and allowed :: "'r \<Rightarrow> 'a \<Rightarrow> bool" and step :: "'r \<Rightarrow> 'a \<Rightarrow> 'c \<Rightarrow> 'a \<Rightarrow> bool"
  assumes simulates: "inv s \<Longrightarrow> allowed r (abs s) \<Longrightarrow> \<exists>c s'. run r s = Some (c, s') \<and> inv s' \<and> step r (abs s) c (abs s')"
begin

lemma client_served:
  assumes "inv s" and "keeps_contract allowed step client (abs s)"
  shows "\<exists>log s'. run_client run client s = Some (log, s') \<and> inv s' \<and> trace_of step log (abs s) (abs s')"
  using assms
proof (induction client arbitrary: s)
  case (Call r k)
  obtain c s1 where 1: "run r s = Some (c, s1)" "inv s1" "step r (abs s) c (abs s1)"
    using simulates [OF Call.prems(1), of r] Call.prems(2) by auto
  then have "keeps_contract allowed step (k c) (abs s1)" using Call.prems(2) by simp
  then obtain log s' where "run_client run (k c) s1 = Some (log, s')" "inv s'" "trace_of step log (abs s1) (abs s')"
    using Call.IH [OF rangeI 1(2)] by blast
  then show ?case using 1 by auto
qed simp

end

section \<open>The abstract allocator\<close>

text \<open>A block: its first address, the address behind its last, its colour.\<close>

type_synonym block = "u64 \<times> u64 \<times> u64"

record layout =
  l_nodes :: "addr set"
  l_blocks :: "addr \<rightharpoonup> block"

datatype request =
    Ask_insert addr u64 u64 u64 u64 u64 u32
  | Ask_reserve addr u64 u64 u64
  | Ask_remove addr
  | Ask_replace addr addr

definition vacant :: "u64 \<Rightarrow> u64 \<Rightarrow> (addr \<rightharpoonup> block) \<Rightarrow> u64 \<Rightarrow> u64 \<Rightarrow> bool" where
  "vacant start sz B p q \<longleftrightarrow> start \<le> p \<and> p < q \<and> q \<le> start + sz \<and> (\<forall>(b, e, _)\<in>ran B. e \<le> p \<or> q \<le> b)"

definition fits :: "u64 \<Rightarrow> u64 \<Rightarrow> (addr \<rightharpoonup> block) \<Rightarrow> u64 \<Rightarrow> u64 \<Rightarrow> u64 \<Rightarrow> u64 \<Rightarrow> u64 \<Rightarrow> bool" where
  "fits start sz B l al rs re p \<longleftrightarrow>
     vacant start sz B p (p + l) \<and> rs \<le> p \<and> p + l \<le> re \<and> (1 < al \<longrightarrow> p mod al = 0)"

fun request_allowed :: "request \<Rightarrow> layout \<Rightarrow> bool" where
  "request_allowed (Ask_insert x l al color rs re mode) L \<longleftrightarrow> x \<in> l_nodes L \<and> l_blocks L x = None \<and> rs \<le> re"
| "request_allowed (Ask_reserve x b l color) L \<longleftrightarrow> x \<in> l_nodes L \<and> l_blocks L x = None"
| "request_allowed (Ask_remove x) L \<longleftrightarrow> l_blocks L x \<noteq> None"
| "request_allowed (Ask_replace x y) L \<longleftrightarrow> l_blocks L x \<noteq> None \<and> y \<in> l_nodes L \<and> l_blocks L y = None"

fun request_step :: "u64 \<Rightarrow> u64 \<Rightarrow> request \<Rightarrow> layout \<Rightarrow> int \<Rightarrow> layout \<Rightarrow> bool" where
  "request_step start sz (Ask_insert x l al color rs re mode) L c L' \<longleftrightarrow>
     (\<exists>p. c = 0 \<and> fits start sz (l_blocks L) l al rs re p \<and>
        L' = L\<lparr>l_blocks := (l_blocks L)(x \<mapsto> (p, p + l, color))\<rparr> \<and>
        (\<forall>q. fits start sz (l_blocks L) l al rs re q \<longrightarrow>
           (mode AND NOT DRM_MM_INSERT_ONCE = DRM_MM_INSERT_LOW \<longrightarrow> p \<le> q) \<and>
           (mode AND NOT DRM_MM_INSERT_ONCE = DRM_MM_INSERT_HIGH \<longrightarrow> q \<le> p))) \<or>
     c = - ENOSPC \<and> L' = L \<and>
       (mode AND DRM_MM_INSERT_ONCE = 0 \<longrightarrow> (\<forall>q. \<not> fits start sz (l_blocks L) l al rs re q))"
| "request_step start sz (Ask_reserve x b l color) L c L' \<longleftrightarrow>
     (if vacant start sz (l_blocks L) b (b + l) then c = 0 \<and> L' = L\<lparr>l_blocks := (l_blocks L)(x \<mapsto> (b, b + l, color))\<rparr>
      else c = - ENOSPC \<and> L' = L)"
| "request_step start sz (Ask_remove x) L c L' \<longleftrightarrow> c = 0 \<and> L' = L\<lparr>l_blocks := (l_blocks L)(x := None)\<rparr>"
| "request_step start sz (Ask_replace x y) L c L' \<longleftrightarrow>
     c = 0 \<and> L' = L\<lparr>l_blocks := (l_blocks L)(y := l_blocks L x, x := None)\<rparr>"

text \<open>The calls that make the requests; the caller writes the block to reserve into the node.\<close>

fun run_request :: "request \<Rightarrow> drm_mm \<Rightarrow> (int \<times> drm_mm) option" where
  "run_request (Ask_insert x l al color rs re mode) s = drm_mm_insert_node_in_range x l al color rs re mode s"
| "run_request (Ask_reserve x b l color) s = do {
     s \<leftarrow> nd_write x (\<lambda>n. n\<lparr>nd_start := b, nd_size := l, nd_color := color\<rparr>) s;
     drm_mm_reserve_node x s }"
| "run_request (Ask_remove x) s = map_option (Pair 0) (drm_mm_remove_node x s)"
| "run_request (Ask_replace x y) s = map_option (Pair 0) (drm_mm_replace_node x y s)"

section \<open>The abstraction\<close>

definition layout_of :: "drm_mm \<Rightarrow> layout" where
  "layout_of s = \<lparr>l_nodes = {x. live s x \<and> x \<noteq> mm_head_node s},
     l_blocks = (\<lambda>x. if busy s x then Some (n_start (mm_nodes s) x, n_end (mm_nodes s) x, nd_color (the (mm_nodes s x))) else None)\<rparr>"

lemma layout_of_simps [simp]:
  "x \<in> l_nodes (layout_of s) \<longleftrightarrow> live s x \<and> x \<noteq> mm_head_node s"
  "l_blocks (layout_of s) x = None \<longleftrightarrow> \<not> busy s x"
  by (simp_all add: layout_of_def)

lemma layout_idle: "x \<in> l_nodes (layout_of s) \<Longrightarrow> l_blocks (layout_of s) x = None \<Longrightarrow> idle s x"
  by (simp add: idle_def busy_def)

lemma vacant_layout:
  assumes "mm_ok start sz s ns"
  shows "vacant start sz (l_blocks (layout_of s)) p q \<longleftrightarrow>
    start \<le> p \<and> p < q \<and> q \<le> start + sz \<and> (\<forall>x\<in>set ns. n_end (mm_nodes s) x \<le> p \<or> q \<le> n_start (mm_nodes s) x)"
proof -
  have "ran (l_blocks (layout_of s)) = (\<lambda>x. (n_start (mm_nodes s) x, n_end (mm_nodes s) x, nd_color (the (mm_nodes s x)))) ` set ns"
    using mm_ok_busy(1) [OF assms] by (auto simp: layout_of_def ran_def)
  then show ?thesis by (simp add: vacant_def)
qed

text \<open>There is a place in a hole exactly when there is one between the blocks.\<close>

lemma place_in_plain:
  "mm_color_adjust s = None \<Longrightarrow> place_in s color rs re l al c q \<longleftrightarrow>
     n_end (mm_nodes s) c \<le> q \<and> q < q + l \<and> q + l \<le> n_end (mm_nodes s) c + n_hole (mm_nodes s) c \<and>
     rs \<le> q \<and> q + l \<le> re \<and> (1 < al \<longrightarrow> q mod al = 0)"
  unfolding place_in_def place_ok_def hole_window_def adjust_colour_def
  by (simp only: fst_conv snd_conv option.case max.bounded_iff min.bounded_iff) argo

lemma hole_vacant:
  assumes ok: "mm_ok start sz s ns"
  shows "vacant start sz (l_blocks (layout_of s)) p q \<longleftrightarrow>
    p < q \<and> (\<exists>c\<in>set (mm_head_node s # ns). n_end (mm_nodes s) c \<le> p \<and> q \<le> n_end (mm_nodes s) c + n_hole (mm_nodes s) c)"
    (is "?v \<longleftrightarrow> ?h")
proof
  obtain hs where inv: "mm_inv s ns hs" using ok by (rule mm_ok_inv)
  show ?h if ?v using mm_inv_gap [OF inv, of p q] that mm_ok_order(3,4) [OF ok] unfolding vacant_layout [OF ok] by auto
  assume ?h
  then obtain c where c: "c \<in> set (mm_head_node s # ns)" "p < q" "n_end (mm_nodes s) c \<le> p" "q \<le> n_end (mm_nodes s) c + n_hole (mm_nodes s) c"
    by blast
  then have "n_hole (mm_nodes s) c \<noteq> 0" by auto
  note f = hole_at_facts [OF ok c(1) this, unfolded hole_at_def, OF refl]
  show ?v unfolding vacant_layout [OF ok] using f(1,3,4) c(2-4) by (meson order_trans)
qed

lemma fits_layout:
  assumes "mm_ok start sz s ns"
  shows "fits start sz (l_blocks (layout_of s)) l al rs re q \<longleftrightarrow> (\<exists>c\<in>set (mm_head_node s # ns). place_in s color rs re l al c q)"
proof -
  have "mm_color_adjust s = None" using assms by (simp add: mm_ok_def)
  note p = place_in_plain [OF this]
  have bex: "((A \<and> (\<exists>c\<in>S. P c \<and> Q c)) \<and> B \<and> C \<and> D) = (\<exists>c\<in>S. P c \<and> A \<and> Q c \<and> B \<and> C \<and> D)" for A B C D :: bool and P Q and S :: "addr set"
    by blast
  show ?thesis unfolding fits_def hole_vacant [OF assms] p by (rule bex)
qed

lemma layout_eqI:
  assumes "\<And>b. live s' b = live s b" and "mm_head_node s' = mm_head_node s"
    and "\<And>b. l_blocks (layout_of s') b = B b"
  shows "layout_of s' = (layout_of s)\<lparr>l_blocks := B\<rparr>"
proof -
  have "l_blocks (layout_of s') = B" using assms(3) by (rule ext)
  then show ?thesis using assms(1,2) by (simp add: layout_of_def)
qed

lemma layout_frame:
  assumes "mm_frame A s s'" and "b \<notin> A"
  shows "l_blocks (layout_of s') b = l_blocks (layout_of s) b"
proof -
  have "live s' b = live s b" using assms(1) by (simp add: mm_frame_def)
  then show ?thesis using mm_frame_fields [OF assms] by (simp add: layout_of_def busy_def)
qed

lemma layout_inserted:
  assumes b: "block_inserted s ns x a p l color s' ns'"
  shows "layout_of s' = (layout_of s)\<lparr>l_blocks := (l_blocks (layout_of s))(x \<mapsto> (p, p + l, color))\<rparr>"
proof -
  obtain hs' where f: "mm_inv s' ns' hs'" "mm_frame {x} s s'" "n_start (mm_nodes s') x = p" "n_size (mm_nodes s') x = l"
    "nd_color (the (mm_nodes s' x)) = color" using b by (auto simp: block_inserted_def)
  obtain us vs where "ns' = us @ x # vs" using b by (rule block_inserted_place)
  then have "busy s' x" using f(1) by (auto simp: mm_inv_def block_ok_def node_ok_def busy_def)
  then have "l_blocks (layout_of s') x = Some (p, p + l, color)"
    using f(3-5) by (simp add: layout_of_def n_start_def n_size_def n_end_def)
  then show ?thesis using f(2) layout_frame [OF f(2)] by (intro layout_eqI) (simp_all add: mm_frame_def)
qed

section \<open>The simulation\<close>

lemma insert_simulates:
  assumes ok: "mm_ok start sz s ns" and x: "idle s x" and range: "rs \<le> re"
  shows "\<exists>c s'. drm_mm_insert_node_in_range x l al color rs re mode s = Some (c, s') \<and>
    request_step start sz (Ask_insert x l al color rs re mode) (layout_of s) c (layout_of s')"
proof -
  obtain hs where inv: "mm_inv s ns hs" using ok by (rule mm_ok_inv)
  have xi: "live s x" "x \<notin> set (mm_head_node s # ns)" "\<not> nd_scanned_block (the (mm_nodes s x))"
    using mm_ok_busy(2,3) [OF ok] x by auto
  note fit = fits_layout [OF ok, where color = color]
  show ?thesis
    using drm_mm_insert_node_in_range_spec [OF inv mm_ok_colour [OF ok] range xi, of l al color mode]
  proof (elim disjE exE conjE)
    assume r: "drm_mm_insert_node_in_range x l al color rs re mode s = Some (- ENOSPC, s)"
      and no: "mode AND DRM_MM_INSERT_ONCE = 0 \<longrightarrow> no_place s color rs re l al (mm_head_node s # ns)"
    have "mode AND DRM_MM_INSERT_ONCE = 0 \<longrightarrow> (\<forall>q. \<not> fits start sz (l_blocks (layout_of s)) l al rs re q)"
      using no unfolding fit no_place_def by blast
    then show ?thesis unfolding request_step.simps using r by blast
  next
    fix s' ns' a p
    assume r: "drm_mm_insert_node_in_range x l al color rs re mode s = Some (0, s')"
      and b: "block_inserted s ns x a p l color s' ns'" and p: "place_in s color rs re l al a p"
      and best: "mode_best (mode AND NOT DRM_MM_INSERT_ONCE) s color rs re l al (mm_head_node s # ns) a p"
    have "a \<in> set (mm_head_node s # ns)" using b by (rule block_inserted_place)
    then have "fits start sz (l_blocks (layout_of s)) l al rs re p" unfolding fit using p by blast
    moreover have "(mode AND NOT DRM_MM_INSERT_ONCE = DRM_MM_INSERT_LOW \<longrightarrow> p \<le> q) \<and>
        (mode AND NOT DRM_MM_INSERT_ONCE = DRM_MM_INSERT_HIGH \<longrightarrow> q \<le> p)"
      if q: "fits start sz (l_blocks (layout_of s)) l al rs re q" for q
    proof -
      obtain c where "c \<in> set (mm_head_node s # ns)" "place_in s color rs re l al c q" using q unfolding fit by blast
      moreover have "DRM_MM_INSERT_HIGH \<noteq> DRM_MM_INSERT_LOW" by (simp add: mode_defs)
      ultimately show ?thesis using best unfolding mode_best_def by metis
    qed
    ultimately show ?thesis unfolding request_step.simps using r layout_inserted [OF b] by blast
  qed
qed

lemma reserve_simulates:
  assumes ok: "mm_ok start sz s ns" and x: "idle s x" "n_start (mm_nodes s) x = b" "n_size (mm_nodes s) x = l"
    "nd_color (the (mm_nodes s x)) = color"
  shows "\<exists>c s'. drm_mm_reserve_node x s = Some (c, s') \<and>
    request_step start sz (Ask_reserve x b l color) (layout_of s) c (layout_of s')"
proof -
  obtain hs where inv: "mm_inv s ns hs" using ok by (rule mm_ok_inv)
  have xi: "live s x" "x \<notin> set (mm_head_node s # ns)" "\<not> nd_scanned_block (the (mm_nodes s x))"
    using mm_ok_busy(2,3) [OF ok] x by auto
  have e: "n_end (mm_nodes s) x = b + l" using x(2,3) by (simp add: n_start_def n_size_def n_end_def)
  have "mm_color_adjust s = None" using ok by (simp add: mm_ok_def)
  then have r: "reservable s x c \<longleftrightarrow> b < b + l \<and> n_end (mm_nodes s) c \<le> b \<and> b + l \<le> n_end (mm_nodes s) c + n_hole (mm_nodes s) c" for c
    by (simp add: reservable_def hole_window_def adjust_colour_def x(2) e)
  have v: "vacant start sz (l_blocks (layout_of s)) b (b + l) \<longleftrightarrow> (\<exists>c\<in>set (mm_head_node s # ns). reservable s x c)"
    unfolding hole_vacant [OF ok] r by blast
  show ?thesis
    using drm_mm_reserve_node_spec [OF inv mm_ok_colour [OF ok] xi]
  proof (elim disjE exE conjE)
    assume "drm_mm_reserve_node x s = Some (- ENOSPC, s)" "\<forall>c\<in>set (mm_head_node s # ns). \<not> reservable s x c"
    then show ?thesis unfolding request_step.simps v by auto
  next
    fix s' ns' a
    assume f: "drm_mm_reserve_node x s = Some (0, s')" "reservable s x a"
      and b: "block_inserted s ns x a (n_start (mm_nodes s) x) (n_size (mm_nodes s) x) (nd_color (the (mm_nodes s x))) s' ns'"
    have "a \<in> set (mm_head_node s # ns)" using b by (rule block_inserted_place)
    then show ?thesis unfolding request_step.simps v using f layout_inserted [OF b, unfolded x(2-4)] by auto
  qed
qed

lemma remove_simulates:
  assumes ok: "mm_ok start sz s ns" and x: "busy s x"
  shows "\<exists>s'. drm_mm_remove_node x s = Some s' \<and>
    layout_of s' = (layout_of s)\<lparr>l_blocks := (l_blocks (layout_of s))(x := None)\<rparr>"
proof -
  obtain hs where inv: "mm_inv s ns hs" using ok by (rule mm_ok_inv)
  have "x \<in> set ns" using mm_ok_busy(1) [OF ok] x by blast
  then obtain us vs where "ns = us @ x # vs" by (meson split_list)
  then obtain s' hs' where s': "drm_mm_remove_node x s = Some s'" "mm_frame {x} s s'" "\<not> nd_allocated (the (mm_nodes s' x))"
    using drm_mm_remove_node_spec inv by blast
  have "l_blocks (layout_of s') x = None" using s'(3) by (simp add: busy_def)
  then have "layout_of s' = (layout_of s)\<lparr>l_blocks := (l_blocks (layout_of s))(x := None)\<rparr>"
    using s'(2) layout_frame [OF s'(2)] by (intro layout_eqI) (simp_all add: mm_frame_def)
  then show ?thesis using s'(1) by blast
qed

lemma replace_simulates:
  assumes ok: "mm_ok start sz s ns" and x: "busy s x" and y: "idle s y"
  shows "\<exists>s'. drm_mm_replace_node x y s = Some s' \<and>
    layout_of s' = (layout_of s)\<lparr>l_blocks := (l_blocks (layout_of s))(y := l_blocks (layout_of s) x, x := None)\<rparr>"
proof -
  have "x \<in> set ns" using mm_ok_busy(1) [OF ok] x by blast
  then obtain us vs where ns: "ns = us @ x # vs" by (meson split_list)
  obtain s' where s': "drm_mm_replace_node x y s = Some s'" "replaced x y s s'"
    using mm_ok_replaced [OF ok [unfolded ns] y] by blast
  have xy: "x \<noteq> y" using x y by (auto simp: busy_def idle_def)
  have l: "live s x" "live s y" using x y by (simp_all add: busy_def idle_def)
  have "layout_of s' = (layout_of s)\<lparr>l_blocks := (l_blocks (layout_of s))(y := l_blocks (layout_of s) x, x := None)\<rparr>"
  proof (rule layout_eqI)
    fix b
    show "live s' b = live s b" using s'(2) by (simp add: replaced_def)
    have n: "mm_nodes s' = (mm_nodes s)(x \<mapsto> (the (mm_nodes s x))\<lparr>nd_allocated := False\<rparr>, y \<mapsto> the (mm_nodes s x))"
      using s'(2) by (simp add: replaced_def)
    have "mm_nodes s x \<noteq> None" using l(1) by (auto simp: live_def)
    then show "l_blocks (layout_of s') b = ((l_blocks (layout_of s))(y := l_blocks (layout_of s) x, x := None)) b"
      using s'(2) l xy by (auto simp: layout_of_def busy_def replaced_def n n_start_def n_end_def)
  qed (use s'(2) in \<open>simp add: replaced_def\<close>)
  then show ?thesis using s'(1) by blast
qed

lemma nd_write_layout:
  assumes x: "idle s x" and w: "nd_write x (\<lambda>n. n\<lparr>nd_start := b, nd_size := l, nd_color := c\<rparr>) s = Some s'"
  shows "idle s' x" "n_start (mm_nodes s') x = b" "n_size (mm_nodes s') x = l" "nd_color (the (mm_nodes s' x)) = c"
    "layout_of s' = layout_of s"
proof -
  obtain n where n: "mm_nodes s x = Some n" "s' = s\<lparr>mm_nodes := (mm_nodes s)(x \<mapsto> n\<lparr>nd_start := b, nd_size := l, nd_color := c\<rparr>)\<rparr>"
    using w by (auto simp: nd_write_def bind_eq_Some_conv)
  have live: "live s' d = live s d" for d using n by (auto simp: live_def)
  show "idle s' x" using x n live [of x] by (simp add: idle_def)
  show "n_start (mm_nodes s') x = b" "n_size (mm_nodes s') x = l" "nd_color (the (mm_nodes s' x)) = c"
    using n by (simp_all add: n_start_def n_size_def)
  have "layout_of s' = (layout_of s)\<lparr>l_blocks := l_blocks (layout_of s)\<rparr>"
  proof (rule layout_eqI)
    show "l_blocks (layout_of s') d = l_blocks (layout_of s) d" for d
      using x n live by (auto simp: layout_of_def busy_def idle_def n_start_def n_end_def)
  qed (use live n(2) in simp_all)
  then show "layout_of s' = layout_of s" by simp
qed

text \<open>The states that callers can reach simulate the abstract machine, so any client is served.\<close>

interpretation mm_client: simulation "mm_reach start sz" layout_of run_request request_allowed "request_step start sz" for start sz
proof
  fix s r assume reach: "mm_reach start sz s" and allowed: "request_allowed r (layout_of s)"
  obtain ns where ok: "mm_ok start sz s ns" using mm_reach_ok [OF reach] by blast
  show "\<exists>c s'. run_request r s = Some (c, s') \<and> mm_reach start sz s' \<and> request_step start sz r (layout_of s) c (layout_of s')"
  proof (cases r)
    case (Ask_insert x l al color rs re mode)
    then have x: "idle s x" and re: "rs \<le> re" using allowed layout_idle by auto
    show ?thesis using insert_simulates [OF ok x re, of l al color mode] mm_reach.insert [OF reach x re] Ask_insert
      by (metis run_request.simps(1))
  next
    case (Ask_reserve x b l color)
    then have x: "idle s x" using allowed layout_idle by auto
    then obtain s1 where w: "nd_write x (\<lambda>n. n\<lparr>nd_start := b, nd_size := l, nd_color := color\<rparr>) s = Some s1"
      by (auto simp: nd_write_def idle_def live_def)
    note s1 = nd_write_layout [OF x w] and reach1 = mm_reach.fill [OF reach x w]
    obtain ns1 where "mm_ok start sz s1 ns1" using mm_reach_ok [OF reach1] by blast
    then obtain c s' where "drm_mm_reserve_node x s1 = Some (c, s')"
      "request_step start sz (Ask_reserve x b l color) (layout_of s) c (layout_of s')"
      using reserve_simulates [OF _ s1(1-4)] s1(5) by metis
    then show ?thesis using mm_reach.reserve [OF reach1 s1(1)] w Ask_reserve by auto
  next
    case (Ask_remove x)
    then have x: "busy s x" using allowed by simp
    obtain s' where "drm_mm_remove_node x s = Some s'"
      "layout_of s' = (layout_of s)\<lparr>l_blocks := (l_blocks (layout_of s))(x := None)\<rparr>"
      using remove_simulates [OF ok x] by blast
    then show ?thesis using mm_reach.remove [OF reach x] Ask_remove by auto
  next
    case (Ask_replace x y)
    then have x: "busy s x" and y: "idle s y" using allowed layout_idle by auto
    obtain s' where "drm_mm_replace_node x y s = Some s'"
      "layout_of s' = (layout_of s)\<lparr>l_blocks := (l_blocks (layout_of s))(y := l_blocks (layout_of s) x, x := None)\<rparr>"
      using replace_simulates [OF ok x y] by blast
    then show ?thesis using mm_reach.replace [OF reach x y] Ask_replace by auto
  qed
qed

section \<open>The property\<close>

text \<open>C3: A client of the allocator that keeps its side of the contract, in any order of insertions in every
  mode, reservations, removals and replacements and with any reaction to their results, is served to
  its end: every call returns, with a result and an effect that the abstract allocator allows. There,
  a block goes to an aligned place between the blocks, to the lowest or the highest when the mode asks
  for it; \<open>-ENOSPC\<close> changes nothing and, but for \<open>DRM_MM_INSERT_ONCE\<close>, says that there is no such place; a
  reservation succeeds exactly when the place is vacant.\<close>

theorem drm_mm_serves_clients:
  assumes "mm_reach start sz s" and "keeps_contract request_allowed (request_step start sz) client (layout_of s)"
  shows "\<exists>log s'. run_client run_request client s = Some (log, s') \<and> mm_reach start sz s' \<and>
    trace_of (request_step start sz) log (layout_of s) (layout_of s')"
  using assms by (rule mm_client.client_served)

text \<open>A client that inserts a block, hands it over to another node and removes it.\<close>

definition example_client :: "(request, int) client" where
  "example_client = Call (Ask_insert 48 0x2000 0x1000 0 0 U64_MAX DRM_MM_INSERT_LOW)
     (\<lambda>c. if c = 0 then Call (Ask_replace 48 64) (\<lambda>_. Call (Ask_remove 64) (\<lambda>_. Stop)) else Stop)"

lemma example_layout:
  "l_blocks (layout_of example_mm) = Map.empty"
  "48 \<in> l_nodes (layout_of example_mm)" "64 \<in> l_nodes (layout_of example_mm)"
proof -
  have "\<not> busy example_mm x" for x
    using example_mm_ok mm_ok_busy(1) [of 0 "0x8000000" example_mm "[]" x] by simp
  then show "l_blocks (layout_of example_mm) = Map.empty"
    by (simp add: layout_of_def)
  show "48 \<in> l_nodes (layout_of example_mm)" "64 \<in> l_nodes (layout_of example_mm)"
    using example_mm(8) [of 48] example_mm(8) [of 64] by (simp_all add: example_mm(4))
qed

lemma example_client_keeps_contract:
  "keeps_contract request_allowed (request_step 0 0x8000000) example_client (layout_of example_mm)"
  using example_layout by (auto simp: example_client_def ENOSPC_def simp del: layout_of_simps)

theorem drm_mm_serves_clients_witness:
  "\<exists>s'. run_client run_request example_client example_mm = Some
      ([(Ask_insert 48 0x2000 0x1000 0 0 U64_MAX DRM_MM_INSERT_LOW, 0), (Ask_replace 48 64, 0), (Ask_remove 64, 0)], s') \<and>
    mm_reach 0 0x8000000 s' \<and> layout_of s' = layout_of example_mm"
proof -
  obtain log s' where run: "run_client run_request example_client example_mm = Some (log, s')" "mm_reach 0 0x8000000 s'"
    and t: "trace_of (request_step 0 0x8000000) log (layout_of example_mm) (layout_of s')"
    using drm_mm_serves_clients [OF example_mm_reach example_client_keeps_contract] by blast
  have room: "fits 0 0x8000000 Map.empty 0x2000 0x1000 0 U64_MAX 0" by (simp add: fits_def vacant_def)
  have once: "DRM_MM_INSERT_LOW AND DRM_MM_INSERT_ONCE = 0" by (simp add: mode_defs)
  have "\<exists>c log'. log = (Ask_insert 48 0x2000 0x1000 0 0 U64_MAX DRM_MM_INSERT_LOW, c) # log'"
    using run(1) by (auto simp: example_client_def bind_eq_Some_conv)
  then obtain c log' where log: "log = (Ask_insert 48 0x2000 0x1000 0 0 U64_MAX DRM_MM_INSERT_LOW, c) # log'" by blast
  have "c = 0" using t room once unfolding log by (auto simp: example_layout(1))
  then have log: "log = [(Ask_insert 48 0x2000 0x1000 0 0 U64_MAX DRM_MM_INSERT_LOW, 0), (Ask_replace 48 64, 0), (Ask_remove 64, 0)]"
    using run(1) unfolding log by (auto simp: example_client_def bind_eq_Some_conv)
  have "layout_of s' = (layout_of example_mm)\<lparr>l_blocks := Map.empty\<rparr>"
    using t unfolding log by (auto simp: example_layout(1))
  then have "layout_of s' = layout_of example_mm" using example_layout(1) by (cases "layout_of example_mm") simp
  then show ?thesis using run unfolding log by blast
qed

end
