(* ===== verification/Drm_Mm_Queries.thy ===== *)
theory Drm_Mm_Queries
  imports Drm_Mm_Contract
begin

text \<open>
  The operations of the allocator that only read it: \<open>drm_mm_print\<close> and \<open>drm_mm_scan_color_evict\<close>.
\<close>

section \<open>Printing\<close>

text \<open>The lines as a function of the blocks, each followed by the hole behind it.\<close>

definition hole_line :: "drm_mm \<Rightarrow> addr \<Rightarrow> mm_line list" where
  "hole_line s x = (if n_hole (mm_nodes s) x = 0 then []
     else [Line_free (n_end (mm_nodes s) x) (n_end (mm_nodes s) x + n_hole (mm_nodes s) x) (n_hole (mm_nodes s) x)])"

definition block_lines :: "drm_mm \<Rightarrow> addr list \<Rightarrow> mm_line list" where
  "block_lines s xs = concat (map (\<lambda>x. Line_used (n_start (mm_nodes s) x) (n_end (mm_nodes s) x) (n_size (mm_nodes s) x) # hole_line s x) xs)"

lemma block_lines_simps [simp]:
  "block_lines s [] = []"
  "block_lines s (x # xs) = Line_used (n_start (mm_nodes s) x) (n_end (mm_nodes s) x) (n_size (mm_nodes s) x) # hole_line s x @ block_lines s xs"
  "block_lines s (xs @ ys) = block_lines s xs @ block_lines s ys"
  by (simp_all add: block_lines_def)

text \<open>What the lines sum up to, and that they cover \<open>[a; b)\<close> without a gap or an overlap.\<close>

fun used_total :: "mm_line list \<Rightarrow> u64" where
  "used_total [] = 0"
| "used_total (Line_used p q n # ls) = n + used_total ls"
| "used_total (l # ls) = used_total ls"

fun free_total :: "mm_line list \<Rightarrow> u64" where
  "free_total [] = 0"
| "free_total (Line_free p q n # ls) = n + free_total ls"
| "free_total (l # ls) = free_total ls"

fun used_blocks :: "mm_line list \<Rightarrow> (u64 \<times> u64) list" where
  "used_blocks [] = []"
| "used_blocks (Line_used p q n # ls) = (p, q) # used_blocks ls"
| "used_blocks (l # ls) = used_blocks ls"

fun tiles :: "u64 \<Rightarrow> mm_line list \<Rightarrow> u64 \<Rightarrow> bool" where
  "tiles a [] b \<longleftrightarrow> a = b"
| "tiles a (Line_used p q n # ls) b \<longleftrightarrow> p = a \<and> p < q \<and> n = q - p \<and> tiles q ls b"
| "tiles a (Line_free p q n # ls) b \<longleftrightarrow> p = a \<and> p < q \<and> n = q - p \<and> tiles q ls b"
| "tiles a (Line_total t u f # ls) b \<longleftrightarrow> False"

lemma totals_append [simp]:
  "used_total (ls @ ms) = used_total ls + used_total ms" "free_total (ls @ ms) = free_total ls + free_total ms"
  "used_blocks (ls @ ms) = used_blocks ls @ used_blocks ms"
  by (induction ls rule: used_total.induct) simp_all

lemma hole_line_totals [simp]:
  "used_total (hole_line s x) = 0" "free_total (hole_line s x) = n_hole (mm_nodes s) x" "used_blocks (hole_line s x) = []"
  by (simp_all add: hole_line_def)

lemma tiles_totals:
  assumes "tiles a ls b"
  shows "a \<le> b \<and> used_total ls + free_total ls = b - a \<and> used_total ls \<le> b - a \<and> free_total ls \<le> b - a"
  using assms
proof (induction a ls b rule: tiles.induct)
  have step: "a \<le> b \<and> x + y \<le> b - a \<and> y \<le> b - a \<and> z \<le> b - a \<and> x + z \<le> b - a"
    if "x = q - a" "a < q" "q \<le> b" "y \<le> b - q" "z \<le> b - q" for x y z q a b :: u64
    using that by (intro conjI; uint_arith)
  have sum: "x + y + z = b - a \<and> y + (x + z) = b - a" if "x = q - a" "y + z = b - q" for x y z q a b :: u64
  proof -
    have "x + (y + z) = b - a" unfolding that by simp
    then show ?thesis by (simp add: ac_simps)
  qed
  {
    case (2 a p q n ls b)
    then show ?case using step [of n q a b "used_total ls" "free_total ls"] sum [of n q a "used_total ls" "free_total ls" b] by auto
  next
    case (3 a p q n ls b)
    then show ?case using step [of n q a b "used_total ls" "free_total ls"] sum [of n q a "used_total ls" "free_total ls" b] by auto
  }
qed simp_all

lemma dump_hole_spec:
  assumes "mm_nodes s x \<noteq> None"
  shows "drm_mm_dump_hole x s = Some (n_hole (mm_nodes s) x, hole_line s x)"
  using node_reads [OF assms] by (simp add: drm_mm_dump_hole_def drm_mm_hole_node_start_def hole_line_def)

lemma drm_mm_print_spec:
  assumes inv: "mm_inv s ns hs"
  defines "ls \<equiv> hole_line s (mm_head_node s) @ block_lines s ns"
  shows "drm_mm_print s = Some (ls @ [Line_total (free_total ls + used_total ls) (used_total ls) (free_total ls)])"
proof -
  let ?H = "mm_head_node s"
  have live: "mm_nodes s x \<noteq> None" if "x \<in> set (?H # ns)" for x
    using inv that by (auto simp: mm_inv_def head_ok_def block_ok_def node_ok_def live_def)
  have l: "is_list (mm_node_list s) ?H ns" using inv by (simp add: mm_inv_def)
  define out where "out = (\<lambda>pre. hole_line s ?H @ block_lines s pre)"
  have dump: "drm_mm_dump_hole x s = Some (n_hole (mm_nodes s) x, hole_line s x)" if "x \<in> set (?H # ns)" for x
    by (rule dump_hole_spec [OF live [OF that]])
  have "\<exists>r. list_for_each_entry (\<lambda>_. mm_node_list s) ?H (print_body s) (0, n_hole (mm_nodes s) ?H, hole_line s ?H) = Some r \<and>
    (case r of Inl t \<Rightarrow> (\<exists>pre. ns = pre @ [] \<and> t = (used_total (out pre), free_total (out pre), out pre)) | Inr v \<Rightarrow> False)"
  proof (rule list_for_each_entry_rule [where xs = ns and I = "\<lambda>xs t. \<exists>pre. ns = pre @ xs \<and> t = (used_total (out pre), free_total (out pre), out pre)"])
    show "\<exists>pre. ns = pre @ ns \<and> (0, n_hole (mm_nodes s) ?H, hole_line s ?H) = (used_total (out pre), free_total (out pre), out pre)"
      by (intro exI [of _ "[]"]) (simp add: out_def)
    fix x ys t assume "\<exists>pre. ns = pre @ x # ys \<and> t = (used_total (out pre), free_total (out pre), out pre)"
      and path: "next_path (mm_node_list s) (x # ys @ [?H])"
    then obtain pre where pre: "ns = pre @ x # ys" "t = (used_total (out pre), free_total (out pre), out pre)" by blast
    obtain n where n: "mm_nodes s x = Some n" using live [of x] pre(1) by auto
    have "print_body s x t = Some (Inl (used_total (out (pre @ [x])), free_total (out (pre @ [x])), out (pre @ [x])))"
      using n dump [of x] pre
      by (simp add: print_body_def out_def n_start_def n_end_def n_size_def)
    then show "\<exists>r. print_body s x t = Some r \<and> (case r of Inl s' \<Rightarrow>
        (\<exists>pre. ns = pre @ ys \<and> s' = (used_total (out pre), free_total (out pre), out pre)) \<and>
        next_path (mm_node_list s) (x # ys @ [?H]) | Inr v \<Rightarrow> False)"
      using path pre(1) by (intro exI [of _ "Inl (used_total (out (pre @ [x])), free_total (out (pre @ [x])), out (pre @ [x]))"])
        (auto intro: exI [of _ "pre @ [x]"])
  qed (rule l)
  then obtain r where r: "list_for_each_entry (\<lambda>_. mm_node_list s) ?H (print_body s) (0, n_hole (mm_nodes s) ?H, hole_line s ?H) = Some r"
    "case r of Inl t \<Rightarrow> (\<exists>pre. ns = pre @ [] \<and> t = (used_total (out pre), free_total (out pre), out pre)) | Inr v \<Rightarrow> False" by blast
  then have "list_for_each_entry (\<lambda>_. mm_node_list s) ?H (print_body s) (0, n_hole (mm_nodes s) ?H, hole_line s ?H) =
      Some (Inl (used_total ls, free_total ls, ls))"
    by (cases r) (simp_all add: out_def ls_def)
  then show ?thesis using dump [of ?H] by (simp add: drm_mm_print_def)
qed

text \<open>The lines cover the range: by induction along the blocks.\<close>

lemma lines_tile:
  assumes "laid (mm_nodes s) (a # xs @ [z])" and "\<forall>x\<in>set xs. n_start (mm_nodes s) x < n_end (mm_nodes s) x"
  shows "tiles (n_end (mm_nodes s) a) (hole_line s a @ block_lines s xs) (n_start (mm_nodes s) z)"
  using assms
proof (induction xs arbitrary: a)
  case Nil
  then show ?case by (auto simp: hole_line_def)
next
  case (Cons x xs)
  have size: "n_size (mm_nodes s) x = n_end (mm_nodes s) x - n_start (mm_nodes s) x"
    by (simp add: n_size_def n_end_def n_start_def)
  show ?case using Cons.IH [of x] Cons.prems size by (auto simp: hole_line_def)
qed

lemma block_lines_blocks:
  "used_blocks (block_lines s xs) = map (\<lambda>x. (n_start (mm_nodes s) x, n_end (mm_nodes s) x)) xs"
  by (induction xs) simp_all

lemma tiles_used: "tiles a ls b \<Longrightarrow> used_total ls = (\<Sum>(p, q)\<leftarrow>used_blocks ls. q - p)"
  by (induction a ls b rule: tiles.induct) simp_all

text \<open>C30: \<open>drm_mm_print\<close> returns and accounts for the whole range: its lines cover the range of the allocator in
  the order of addresses, without a gap or an overlap, the used ones are exactly the blocks, and the
  totals in the last line are the sums of the lines and add up to the size of the range without
  wrapping.\<close>

theorem drm_mm_print_accounts:
  assumes "mm_ok start sz s ns"
  shows "\<exists>ls. drm_mm_print s = Some (ls @ [Line_total sz (used_total ls) (free_total ls)]) \<and>
    tiles start ls (start + sz) \<and> used_blocks ls = map (\<lambda>x. (n_start (mm_nodes s) x, n_end (mm_nodes s) x)) ns \<and>
    used_total ls = (\<Sum>(p, q)\<leftarrow>used_blocks ls. q - p) \<and>
    used_total ls + free_total ls = sz \<and> used_total ls \<le> sz \<and> free_total ls \<le> sz"
proof -
  obtain hs where inv: "mm_inv s ns hs" using assms by (rule mm_ok_inv)
  define ls where "ls = hole_line s (mm_head_node s) @ block_lines s ns"
  have "tiles (n_end (mm_nodes s) (mm_head_node s)) ls (n_start (mm_nodes s) (mm_head_node s))"
    unfolding ls_def by (rule lines_tile) (use inv mm_ok_order(2) [OF assms] in \<open>auto simp: mm_inv_def\<close>)
  then have t: "tiles start ls (start + sz)" using mm_ok_order(3,4) [OF assms] by simp
  then have sum: "used_total ls + free_total ls = sz" "used_total ls \<le> sz" "free_total ls \<le> sz" using tiles_totals [OF t] by simp_all
  moreover have "used_blocks ls = map (\<lambda>x. (n_start (mm_nodes s) x, n_end (mm_nodes s) x)) ns"
    by (simp add: ls_def block_lines_blocks)
  ultimately show ?thesis using t tiles_used [OF t] drm_mm_print_spec [OF inv, folded ls_def]
    by (intro exI [of _ ls]) (simp add: add.commute)
qed

theorem drm_mm_print_accounts_witness:
  "\<exists>s ls. mm_ok 0 0x8000000 s [48] \<and> drm_mm_print s = Some (ls @ [Line_total 0x8000000 0x2000 0x7ffe000]) \<and>
    tiles 0 ls 0x8000000 \<and> used_blocks ls = [(0, 0x2000)]"
proof -
  obtain s where s: "mm_ok 0 0x8000000 s [48]" "n_start (mm_nodes s) 48 = 0" "n_end (mm_nodes s) 48 = 0x2000"
    using example_block by blast
  obtain ls where ls: "drm_mm_print s = Some (ls @ [Line_total 0x8000000 (used_total ls) (free_total ls)])"
    "tiles 0 ls 0x8000000" "used_blocks ls = [(0, 0x2000)]" "used_total ls = 0x2000" "used_total ls + free_total ls = 0x8000000"
    using drm_mm_print_accounts [OF s(1)] s(2,3) by auto
  have "free_total ls = 0x8000000 - used_total ls" using ls(5) by (metis add_diff_cancel_left')
  then have "free_total ls = 0x7ffe000" using ls(4) by simp
  then show ?thesis using s(1) ls by (intro exI [of _ s] exI [of _ ls]) simp
qed

section \<open>Colour eviction\<close>

lemma hole_unique:
  assumes inv: "mm_inv s ns hs" and c: "c \<in> set (mm_head_node s # ns)" and d: "d \<in> set (mm_head_node s # ns)"
    and cov: "n_end (mm_nodes s) c \<le> p" "q \<le> n_end (mm_nodes s) c + n_hole (mm_nodes s) c"
      "n_end (mm_nodes s) d \<le> p" "q \<le> n_end (mm_nodes s) d + n_hole (mm_nodes s) d" and pq: "p < q"
  shows "c = d"
proof (rule ccontr)
  assume "c \<noteq> d"
  have holes: "c \<in> set (hole_nodes (mm_nodes s) (mm_head_node s # ns))" "d \<in> set (hole_nodes (mm_nodes s) (mm_head_node s # ns))"
    unfolding in_hole_nodes using c d cov pq by auto
  obtain us vs where u: "hole_nodes (mm_nodes s) (mm_head_node s # ns) = us @ c # vs" using split_list [OF holes(1)] by blast
  have "d \<in> set us \<or> d \<in> set vs" using holes(2) \<open>c \<noteq> d\<close> unfolding u by auto
  then have "n_end (mm_nodes s) c + n_hole (mm_nodes s) c < n_end (mm_nodes s) d \<or>
      n_end (mm_nodes s) d + n_hole (mm_nodes s) d < n_end (mm_nodes s) c"
    using apart_append [OF mm_inv_apart [OF inv, unfolded u]] by blast
  then show False using cov pq by auto
qed

definition covers_hit :: "drm_mm \<Rightarrow> drm_mm_scan \<Rightarrow> addr \<Rightarrow> bool" where
  "covers_hit s scan c \<longleftrightarrow> n_end (mm_nodes s) c \<le> sc_hit_start scan \<and> sc_hit_end scan \<le> n_end (mm_nodes s) c + n_hole (mm_nodes s) c"

lemma color_evict_spec:
  assumes inv: "mm_inv s ns hs" and hit: "sc_hit_start scan < sc_hit_end scan"
    and L: "mm_head_node s # ns = us @ c # vs" and cov: "covers_hit s scan c" and f: "mm_color_adjust s \<noteq> None"
    and w: "hole_window s (sc_color scan) c = (b, e)"
  shows "drm_mm_scan_color_evict scan s = Some
    (if b > sc_hit_start scan then c else if e < sc_hit_end scan then hd (vs @ [mm_head_node s]) else NULL)"
proof -
  let ?m = "mm_nodes s" and ?H = "mm_head_node s"
  obtain ss where rep: "holes_rep s hs ss (hole_nodes ?m (?H # ns))" using inv by (auto simp: mm_inv_def)
  have l: "is_list (mm_hole_list s) (mm_hole_stack s) hs" and hs: "set hs = set (hole_nodes ?m (?H # ns))"
    and live: "\<forall>x\<in>set hs. live s x" using rep by (simp_all add: holes_rep_def)
  have cL: "c \<in> set (?H # ns)" using L by simp
  have "n_hole ?m c \<noteq> 0" using cov hit by (auto simp: covers_hit_def)
  then have c: "c \<in> set hs" unfolding hs in_hole_nodes using cL by blast
  define v where "v = (c, n_end ?m c, n_end ?m c + n_hole ?m c)"
  have "\<exists>r. list_for_each_entry mm_hole_list (mm_hole_stack s) (color_evict_body scan) s = Some r \<and>
      (case r of Inl t \<Rightarrow> t = s \<and> c \<in> set [] \<and> set [] \<subseteq> set hs | Inr u \<Rightarrow> u = v)"
  proof (rule list_for_each_entry_rule [where xs = hs and I = "\<lambda>xs t. t = s \<and> c \<in> set xs \<and> set xs \<subseteq> set hs"])
    fix x ys t assume I: "t = s \<and> c \<in> set (x # ys) \<and> set (x # ys) \<subseteq> set hs" and path: "next_path (mm_hole_list t) (x # ys @ [mm_hole_stack s])"
    have xh: "x \<in> set hs" using I by simp
    then have xL: "x \<in> set (?H # ns)" unfolding hs in_hole_nodes by blast
    have "mm_nodes s x \<noteq> None" using live xh by (auto simp: live_def)
    then have b: "color_evict_body scan x s = Some (if covers_hit s scan x then Inr (x, n_end ?m x, n_end ?m x + n_hole ?m x) else Inl s)"
      by (simp add: color_evict_body_def node_reads covers_hit_def Let_def)
    show "\<exists>r. color_evict_body scan x t = Some r \<and> (case r of Inl s' \<Rightarrow> (s' = s \<and> c \<in> set ys \<and> set ys \<subseteq> set hs) \<and>
        next_path (mm_hole_list s') (x # ys @ [mm_hole_stack s]) | Inr u \<Rightarrow> u = v)"
    proof (cases "covers_hit s scan x")
      case True
      then have "x = c" using hole_unique [OF inv xL cL _ _ _ _ hit] cov by (simp add: covers_hit_def)
      then show ?thesis using I b True by (simp add: v_def)
    next
      case False
      then have "x \<noteq> c" using cov by blast
      then show ?thesis using I b False path by simp
    qed
  qed (use l c in simp_all)
  then obtain r where r: "list_for_each_entry mm_hole_list (mm_hole_stack s) (color_evict_body scan) s = Some r"
    "case r of Inl t \<Rightarrow> t = s \<and> c \<in> set [] \<and> set [] \<subseteq> set hs | Inr u \<Rightarrow> u = v" by blast
  then have loop: "list_for_each_entry mm_hole_list (mm_hole_stack s) (color_evict_body scan) s = Some (Inr v)" by (cases r) simp_all
  have e: "list_empty (mm_hole_stack s) (mm_hole_list s) = Some False" using list_empty_spec [OF l] c by auto
  obtain g where g: "mm_color_adjust s = Some g" "g ?m (mm_node_list s) c (sc_color scan) (n_end ?m c, n_end ?m c + n_hole ?m c) = (b, e)"
    using f w by (auto simp: hole_window_def adjust_colour_def)
  have "next_of (mm_node_list s) c = Some (hd (vs @ [?H]))" using mm_inv_at(7) [OF inv L] .
  then show ?thesis using e loop g cov by (auto simp: drm_mm_scan_color_evict_def v_def covers_hit_def not_less)
qed

lemma color_evict_none:
  assumes inv: "mm_inv s ns hs" and f: "mm_color_adjust s \<noteq> None" and cov: "\<forall>c\<in>set (mm_head_node s # ns). \<not> covers_hit s scan c"
  shows "drm_mm_scan_color_evict scan s = None"
proof -
  let ?m = "mm_nodes s" and ?H = "mm_head_node s"
  obtain ss where rep: "holes_rep s hs ss (hole_nodes ?m (?H # ns))" using inv by (auto simp: mm_inv_def)
  have l: "is_list (mm_hole_list s) (mm_hole_stack s) hs" and hs: "set hs = set (hole_nodes ?m (?H # ns))"
    and live: "\<forall>x\<in>set hs. live s x" using rep by (simp_all add: holes_rep_def)
  have "\<exists>r. list_for_each_entry mm_hole_list (mm_hole_stack s) (color_evict_body scan) s = Some r \<and>
      (case r of Inl t \<Rightarrow> t = s \<and> set [] \<subseteq> set hs | Inr u \<Rightarrow> False)"
  proof (rule list_for_each_entry_rule [where xs = hs and I = "\<lambda>xs t. t = s \<and> set xs \<subseteq> set hs"])
    fix x ys t assume I: "t = s \<and> set (x # ys) \<subseteq> set hs" and path: "next_path (mm_hole_list t) (x # ys @ [mm_hole_stack s])"
    have xh: "x \<in> set hs" using I by simp
    then have "\<not> covers_hit s scan x" using cov unfolding hs in_hole_nodes by blast
    moreover have "mm_nodes s x \<noteq> None" using live xh by (auto simp: live_def)
    ultimately have "color_evict_body scan x s = Some (Inl s)"
      by (simp add: color_evict_body_def node_reads covers_hit_def Let_def)
    then show "\<exists>r. color_evict_body scan x t = Some r \<and> (case r of Inl s' \<Rightarrow> (s' = s \<and> set ys \<subseteq> set hs) \<and>
        next_path (mm_hole_list s') (x # ys @ [mm_hole_stack s]) | Inr u \<Rightarrow> False)"
      using I path by simp
  qed (use l in simp_all)
  then obtain r where r: "list_for_each_entry mm_hole_list (mm_hole_stack s) (color_evict_body scan) s = Some r"
    "case r of Inl t \<Rightarrow> t = s \<and> set [] \<subseteq> set hs | Inr u \<Rightarrow> False" by blast
  have "list_empty (mm_hole_stack s) (mm_hole_list s) = Some (hs = [])" by (rule list_empty_spec [OF l])
  then show ?thesis using r f by (cases r) (auto simp: drm_mm_scan_color_evict_def BUG_ON_def)
qed

text \<open>C31: After an eviction scan with a hit, on an allocator with colours, \<open>drm_mm_scan_color_evict\<close> returns NULL
  exactly when the hit lies in its hole after colour adjustment; otherwise it names a neighbour of the
  hole to evict, the block before the hole when the adjusted hole starts too late, else the block
  behind it; at an end of the range that neighbour is the head node. When no hole contains the hit, its assertion fails.\<close>

theorem drm_mm_color_evict_exact:
  assumes "mm_inv s ns hs" and "mm_color_adjust s \<noteq> None" and "sc_hit_start scan < sc_hit_end scan"
  shows "if \<exists>c\<in>set (mm_head_node s # ns). covers_hit s scan c
    then \<exists>us c vs. mm_head_node s # ns = us @ c # vs \<and> covers_hit s scan c \<and>
      drm_mm_scan_color_evict scan s = Some (case hole_window s (sc_color scan) c of (b, e) \<Rightarrow>
        if sc_hit_start scan < b then c else if e < sc_hit_end scan then hd (vs @ [mm_head_node s]) else NULL)
    else drm_mm_scan_color_evict scan s = None"
proof (cases "\<exists>c\<in>set (mm_head_node s # ns). covers_hit s scan c")
  case True
  then obtain c us vs where c: "mm_head_node s # ns = us @ c # vs" "covers_hit s scan c" by (metis split_list)
  obtain b e where "hole_window s (sc_color scan) c = (b, e)" by fastforce
  then have "drm_mm_scan_color_evict scan s = Some (case hole_window s (sc_color scan) c of (b, e) \<Rightarrow>
        if sc_hit_start scan < b then c else if e < sc_hit_end scan then hd (vs @ [mm_head_node s]) else NULL)"
    using color_evict_spec [OF assms(1,3) c assms(2)] by simp
  then show ?thesis using True c by auto
next
  case False
  then show ?thesis using color_evict_none [OF assms(1,2)] by auto
qed

text \<open>Colours that keep a page free at both ends of every hole.\<close>

definition example_guard :: color_adjust where
  "example_guard m nl hole color bounds = (fst bounds + 0x1000, snd bounds - 0x1000)"

definition example_hit :: "u64 \<Rightarrow> drm_mm_scan" where
  "example_hit p = \<lparr>sc_mm = 8, sc_size = 0x1000, sc_alignment = 0, sc_remainder_mask = 0, sc_range_start = 0,
     sc_range_end = U64_MAX, sc_hit_start = p, sc_hit_end = p + 0x1000, sc_color = 0, sc_mode = DRM_MM_INSERT_BEST\<rparr>"

lemma mm_inv_colour: "mm_inv (s\<lparr>mm_color_adjust := f\<rparr>) ns hs = mm_inv s ns hs"
proof -
  have "live (s\<lparr>mm_color_adjust := f\<rparr>) = live s" "LAST (s\<lparr>mm_color_adjust := f\<rparr>) = LAST s"
    by (simp_all add: fun_eq_iff live_def LAST_def)
  then show ?thesis by (simp add: mm_inv_def head_ok_def block_ok_def node_ok_def holes_rep_def)
qed

theorem drm_mm_color_evict_exact_witness:
  "\<exists>s hs. mm_inv s [48] hs \<and> mm_color_adjust s = Some example_guard \<and>
    drm_mm_scan_color_evict (example_hit 0x2000) s = Some 48 \<and> drm_mm_scan_color_evict (example_hit 0x3000) s = Some NULL \<and>
    drm_mm_scan_color_evict (example_hit 0x7fff000) s = Some 32 \<and> drm_mm_scan_color_evict (example_hit 0) s = None"
proof -
  obtain s0 where s0: "mm_ok 0 0x8000000 s0 [48]" "n_start (mm_nodes s0) 48 = 0" "n_end (mm_nodes s0) 48 = 0x2000" "mm_head_node s0 = 32"
    using example_block by blast
  obtain hs where inv0: "mm_inv s0 [48] hs" using s0(1) by (rule mm_ok_inv)
  define s where "s = s0\<lparr>mm_color_adjust := Some example_guard\<rparr>"
  have inv: "mm_inv s [48] hs" using inv0 by (simp add: s_def mm_inv_colour)
  have k: "mm_color_adjust s = Some example_guard" "mm_head_node s = 32" "mm_nodes s = mm_nodes s0" using s0(4) by (simp_all add: s_def)
  have laid: "laid (mm_nodes s0) [32, 48, 32]" using inv0 s0(4) by (simp add: mm_inv_def)
  have ends: "n_end (mm_nodes s0) 32 = 0" "n_start (mm_nodes s0) 32 = 0x8000000" using mm_ok_order(3,4) [OF s0(1)] s0(4) by simp_all
  have holes: "n_hole (mm_nodes s0) 32 = 0" "n_hole (mm_nodes s0) 48 = 0x7ffe000" using laid ends s0(2,3) by simp_all
  have cov: "covers_hit s (example_hit p) c \<longleftrightarrow> c = 48 \<and> 0x2000 \<le> p \<and> p + 0x1000 \<le> 0x8000000" if "c \<in> {32, 48}" "p < p + 0x1000" for c p
    using that holes ends s0(3) by (auto simp: covers_hit_def example_hit_def k(3))
  have w: "hole_window s c 48 = (0x3000, 0x7fff000)" for c
    using holes s0(3) by (simp add: hole_window_def adjust_colour_def k example_guard_def)
  have all: "[32, 48] = us @ (48 :: addr) # vs \<Longrightarrow> vs = []" for us vs by (cases us) (auto simp: Cons_eq_append_conv)
  note exact = drm_mm_color_evict_exact [OF inv, unfolded k(2)]
  have hit: "sc_hit_start (example_hit p) = p" "sc_hit_end (example_hit p) = p + 0x1000" "sc_color (example_hit p) = 0" for p
    by (simp_all add: example_hit_def)
  have in_hole: "drm_mm_scan_color_evict (example_hit p) s = Some (if p < 0x3000 then 48 else if 0x7fff000 < p + 0x1000 then 32 else NULL)"
    if p: "p < p + 0x1000" "0x2000 \<le> p" "p + 0x1000 \<le> 0x8000000" for p
  proof -
    have "\<exists>c\<in>set [32, 48]. covers_hit s (example_hit p) c" using cov [of 48 p] p by simp
    then obtain us c vs where c: "[32, 48] = us @ c # vs" "covers_hit s (example_hit p) c"
      "drm_mm_scan_color_evict (example_hit p) s = Some (case hole_window s 0 c of (b, e) \<Rightarrow>
        if p < b then c else if e < p + 0x1000 then hd (vs @ [32]) else NULL)"
      using exact [of "example_hit p", unfolded hit] p(1) by (auto simp: k(1))
    have "c \<in> set [32, 48]" using c(1) by (metis in_set_conv_decomp)
    then have "c = 48" using cov [of c p] c(2) p(1) by simp
    moreover have "vs = []" using all c(1) unfolding \<open>c = 48\<close> .
    ultimately show ?thesis using c(3) w by simp
  qed
  have "\<not> (\<exists>c\<in>set [32, 48]. covers_hit s (example_hit 0) c)" using cov [of 32 0] cov [of 48 0] by simp
  then have "drm_mm_scan_color_evict (example_hit 0) s = None" using exact [of "example_hit 0"] by (simp add: k(1) hit)
  then show ?thesis using inv k(1) in_hole [of "0x2000"] in_hole [of "0x3000"] in_hole [of "0x7fff000"]
    by (intro exI [of _ s] exI [of _ hs]) simp
qed

end
