(* ===== verification/Rbtree_Empty.thy ===== *)
theory Rbtree_Empty
  imports Rbtree_Walk
begin

text \<open>
  Empty trees and nodes that are in no tree: \<open>RB_ROOT\<close>, \<open>RB_ROOT_CACHED\<close>, \<open>RB_EMPTY_ROOT\<close> and \<open>RB_CLEAR_NODE\<close> of
  linux/rbtree.h. A cleared node has itself as its parent, which no node of a tree has.
\<close>

definition RB_ROOT :: "'m rb_tree_scheme \<Rightarrow> 'm rb_tree_scheme" where
  "RB_ROOT s = s\<lparr>rb_root := NULL\<rparr>"

definition RB_ROOT_CACHED :: "'m rb_root_cached_scheme \<Rightarrow> 'm rb_root_cached_scheme" where
  "RB_ROOT_CACHED s = s\<lparr>rb_root := NULL, rb_leftmost := NULL\<rparr>"

definition RB_EMPTY_ROOT :: "'m rb_tree_scheme \<Rightarrow> bool" where
  "RB_EMPTY_ROOT s \<longleftrightarrow> rb_root s = NULL"

definition RB_CLEAR_NODE :: "addr \<Rightarrow> 'm rb_tree_scheme \<Rightarrow> 'm rb_tree_scheme option" where
  "RB_CLEAR_NODE node s = rb_store node (\<lambda>n. n\<lparr>rb_parent_color := node\<rparr>) s"

lemma RB_EMPTY_ROOT_rep:
  assumes "rb_rep s t"
  shows "RB_EMPTY_ROOT s \<longleftrightarrow> t = Leaf"
  using assms by (cases t) (auto simp: rb_rep_def RB_EMPTY_ROOT_def valid_ptr_def)

lemma RB_ROOT_rep: "rb_rep (RB_ROOT s) Leaf" "RB_EMPTY_ROOT (RB_ROOT s)"
  by (simp_all add: RB_ROOT_def rb_rep_def RB_EMPTY_ROOT_def)

lemma RB_ROOT_CACHED_rep: "cached_rep (RB_ROOT_CACHED s) Leaf"
  by (simp add: RB_ROOT_CACHED_def cached_rep_def rb_rep_def first_of_def)

text \<open>The zipper that leads to a node of the tree.\<close>

lemma rb_rep_at:
  assumes "rb_rep s t" and "x \<in> set_rbt t"
  obtains c l r k where "t = plug (Node c l x r) k" "zip_rep s (Node c l x r) k"
proof -
  obtain us vs where "inorder t = us @ x # vs" using assms(2) by (meson split_list)
  then obtain c l r k where "t = plug (Node c l x r) k"
    using inorder_position [of t us x vs] assms(1) by (auto simp: rb_rep_def)
  then show ?thesis using that assms(1) by (simp add: rb_rep_plug)
qed

lemma RB_CLEAR_NODE_outside:
  assumes rep: "rb_rep s t" and x: "x \<notin> set_rbt t" "rb_mem s x \<noteq> None"
  shows "\<exists>s'. RB_CLEAR_NODE x s = Some s' \<and> rb_rep s' t \<and> RB_EMPTY_NODE x s' = Some True \<and>
    rb_next x s' = Some NULL \<and> rb_prev x s' = Some NULL"
proof -
  obtain n where n: "rb_mem s x = Some n" using x(2) by blast
  define s' where "s' = s\<lparr>rb_mem := (rb_mem s)(x \<mapsto> n\<lparr>rb_parent_color := x\<rparr>)\<rparr>"
  have "RB_CLEAR_NODE x s = Some s'" using n by (simp add: RB_CLEAR_NODE_def rb_store_def s'_def)
  moreover have "rb_rep s' t" using rep x(1) by (simp add: rb_rep_def s'_def)
  moreover have "RB_EMPTY_NODE x s' = Some True" by (simp add: RB_EMPTY_NODE_def s'_def)
  ultimately show ?thesis by (simp add: rb_next_def rb_prev_def)
qed

lemma RB_EMPTY_NODE_inside:
  assumes "rb_rep s t" and "x \<in> set_rbt t"
  shows "RB_EMPTY_NODE x s = Some False"
  by (rule rb_rep_at [OF assms]) (rule RB_EMPTY_NODE_False)

text \<open>The links of a node of the tree lead to nodes of the tree.\<close>

definition rb_links :: "'m rb_tree_scheme \<Rightarrow> addr \<Rightarrow> addr set" where
  "rb_links s x = (case rb_mem s x of None \<Rightarrow> {} | Some n \<Rightarrow> {rb_parent n, rb_left n, rb_right n})"

lemma rb_links_inside:
  assumes "rb_rep s t" and "x \<in> set_rbt t"
  shows "rb_links s x \<subseteq> insert NULL (set_rbt t)"
proof (rule rb_rep_at [OF assms])
  fix c l r k assume t: "t = plug (Node c l x r) k" and rep: "zip_rep s (Node c l x r) k"
  then have at: "rb_mem s x = Some \<lparr>rb_parent_color = zpar k OR colbit c, rb_right = rootp r, rb_left = rootp l\<rparr>"
    and k: "zip_at (rb_mem s) (rb_root s) x k" by (simp_all add: zip_rep_def)
  have roots: "rootp u \<in> insert NULL (set_rbt u)" for u by (cases u) auto
  have "rb_parent \<lparr>rb_parent_color = zpar k OR colbit c, rb_right = rootp r, rb_left = rootp l\<rparr> = zpar k"
    using parent_of_or [OF zpar_valid [OF k]] by (simp add: rb_parent_def)
  moreover have "zpar k \<in> insert NULL (zset k)" using zpar_mem [of k] by (cases k) auto
  moreover have "set_rbt t = insert x (set_rbt l \<union> set_rbt r \<union> zset k)" by (auto simp: t inorder_plug)
  ultimately show ?thesis using at roots [of l] roots [of r] by (auto simp: rb_links_def)
qed

end
