(* ===== verification/Linux_List_Walk.thy ===== *)
theory Linux_List_Walk
  imports Linux_List
begin

text \<open>
  The iteration macros of linux/list.h that the program does not use: backwards, and from or after a
  given entry. A body that leaves the list alone is shown to be given exactly the entries the comment
  of each macro names, in that order.
\<close>

section \<open>The macros\<close>

definition list_last_entry :: "addr \<Rightarrow> lheap \<Rightarrow> addr option" where
  "list_last_entry head h = prev_of h head"

definition list_next_entry :: "addr \<Rightarrow> lheap \<Rightarrow> addr option" where
  "list_next_entry pos h = next_of h pos"

definition list_prev_entry :: "addr \<Rightarrow> lheap \<Rightarrow> addr option" where
  "list_prev_entry pos h = prev_of h pos"

definition list_prepare_entry :: "addr \<Rightarrow> addr \<Rightarrow> addr" where
  "list_prepare_entry pos head = (if pos \<noteq> NULL then pos else head)"

partial_function (option) list_for_each_entry_from_reverse ::
  "('s \<Rightarrow> lheap) \<Rightarrow> addr \<Rightarrow> (addr \<Rightarrow> 's \<Rightarrow> ('s + 'r) option) \<Rightarrow> addr \<Rightarrow> 's \<Rightarrow> ('s + 'r) option" where
  "list_for_each_entry_from_reverse lh head body pos s =
     (if pos = head then Some (Inl s)
      else do {
        r \<leftarrow> body pos s;
        case r of
          Inl s' \<Rightarrow> do { pos' \<leftarrow> list_prev_entry pos (lh s'); list_for_each_entry_from_reverse lh head body pos' s' }
        | Inr x \<Rightarrow> Some (Inr x)
      })"

definition list_for_each_entry_reverse ::
  "('s \<Rightarrow> lheap) \<Rightarrow> addr \<Rightarrow> (addr \<Rightarrow> 's \<Rightarrow> ('s + 'r) option) \<Rightarrow> 's \<Rightarrow> ('s + 'r) option" where
  "list_for_each_entry_reverse lh head body s = do {
     pos \<leftarrow> list_last_entry head (lh s);
     list_for_each_entry_from_reverse lh head body pos s
   }"

definition list_for_each_entry_continue ::
  "('s \<Rightarrow> lheap) \<Rightarrow> addr \<Rightarrow> (addr \<Rightarrow> 's \<Rightarrow> ('s + 'r) option) \<Rightarrow> addr \<Rightarrow> 's \<Rightarrow> ('s + 'r) option" where
  "list_for_each_entry_continue lh head body pos s = do {
     pos \<leftarrow> list_next_entry pos (lh s);
     list_for_each_entry_from lh head body pos s
   }"

definition list_for_each_entry_continue_reverse ::
  "('s \<Rightarrow> lheap) \<Rightarrow> addr \<Rightarrow> (addr \<Rightarrow> 's \<Rightarrow> ('s + 'r) option) \<Rightarrow> addr \<Rightarrow> 's \<Rightarrow> ('s + 'r) option" where
  "list_for_each_entry_continue_reverse lh head body pos s = do {
     pos \<leftarrow> list_prev_entry pos (lh s);
     list_for_each_entry_from_reverse lh head body pos s
   }"

definition list_for_each_entry_safe_continue ::
  "('s \<Rightarrow> lheap) \<Rightarrow> addr \<Rightarrow> (addr \<Rightarrow> 's \<Rightarrow> ('s + 'r) option) \<Rightarrow> addr \<Rightarrow> 's \<Rightarrow> ('s + 'r) option" where
  "list_for_each_entry_safe_continue lh head body pos s = do {
     pos \<leftarrow> list_next_entry pos (lh s);
     n \<leftarrow> list_next_entry pos (lh s);
     list_for_each_entry_safe_from lh head body pos n s
   }"

text \<open>The macro \<open>list_for_each_entry_safe_from\<close>, which starts the loop of that name at \<open>pos\<close>.\<close>

definition list_for_each_entry_safe_at ::
  "('s \<Rightarrow> lheap) \<Rightarrow> addr \<Rightarrow> (addr \<Rightarrow> 's \<Rightarrow> ('s + 'r) option) \<Rightarrow> addr \<Rightarrow> 's \<Rightarrow> ('s + 'r) option" where
  "list_for_each_entry_safe_at lh head body pos s = do {
     n \<leftarrow> list_next_entry pos (lh s);
     list_for_each_entry_safe_from lh head body pos n s
   }"

text \<open>
  The macros whose cursor is a plain \<open>list_head\<close>; with \<open>container_of\<close> the identity their loops are
  those of the macros over entries.
\<close>

definition list_first_entry :: "addr \<Rightarrow> lheap \<Rightarrow> addr option" where
  "list_first_entry head h = next_of h head"

definition list_safe_reset_next :: "addr \<Rightarrow> lheap \<Rightarrow> addr option" where
  "list_safe_reset_next pos h = list_next_entry pos h"

definition list_for_each ::
  "('s \<Rightarrow> lheap) \<Rightarrow> addr \<Rightarrow> (addr \<Rightarrow> 's \<Rightarrow> ('s + 'r) option) \<Rightarrow> 's \<Rightarrow> ('s + 'r) option" where
  "list_for_each lh head body s = do {
     pos \<leftarrow> next_of (lh s) head;
     list_for_each_entry_from lh head body pos s
   }"

definition list_for_each_prev ::
  "('s \<Rightarrow> lheap) \<Rightarrow> addr \<Rightarrow> (addr \<Rightarrow> 's \<Rightarrow> ('s + 'r) option) \<Rightarrow> 's \<Rightarrow> ('s + 'r) option" where
  "list_for_each_prev lh head body s = do {
     pos \<leftarrow> prev_of (lh s) head;
     list_for_each_entry_from_reverse lh head body pos s
   }"

definition list_for_each_safe ::
  "('s \<Rightarrow> lheap) \<Rightarrow> addr \<Rightarrow> (addr \<Rightarrow> 's \<Rightarrow> ('s + 'r) option) \<Rightarrow> 's \<Rightarrow> ('s + 'r) option" where
  "list_for_each_safe lh head body s = do {
     pos \<leftarrow> next_of (lh s) head;
     n \<leftarrow> next_of (lh s) pos;
     list_for_each_entry_safe_from lh head body pos n s
   }"

definition list_for_each_prev_safe ::
  "('s \<Rightarrow> lheap) \<Rightarrow> addr \<Rightarrow> (addr \<Rightarrow> 's \<Rightarrow> ('s + 'r) option) \<Rightarrow> 's \<Rightarrow> ('s + 'r) option" where
  "list_for_each_prev_safe lh head body s = do {
     pos \<leftarrow> prev_of (lh s) head;
     n \<leftarrow> prev_of (lh s) pos;
     list_for_each_entry_safe_reverse_from lh head body pos n s
   }"

section \<open>What they visit\<close>

named_theorems still_body \<open>what it means that a loop body leaves the list alone\<close>

text \<open>The body updates the state with \<open>f\<close> and leaves the list \<open>h\<close> alone.\<close>

definition still :: "('s \<Rightarrow> lheap) \<Rightarrow> lheap \<Rightarrow> (addr \<Rightarrow> 's \<Rightarrow> ('s + 'r) option) \<Rightarrow> (addr \<Rightarrow> 's \<Rightarrow> 's) \<Rightarrow> bool" where
  "still lh h body f \<longleftrightarrow> (\<forall>s. lh s = h) \<and> (\<forall>x s. body x s = Some (Inl (f x s)))"

lemma still_run [still_body]:
  "still lh h body f \<Longrightarrow> lh s = h" "still lh h body f \<Longrightarrow> body x s = Some (Inl (f x s))"
  by (simp_all add: still_def)

lemma is_list_around:
  assumes "is_list h head (ys @ e # zs)"
  shows "next_of h e = Some (hd (zs @ [head]))" "prev_of h e = Some (last (head # ys))" "e \<noteq> head"
  using is_list_next [of h head "ys @ [e]" zs] is_list_prev [of h head ys "e # zs"] assms by (auto simp: is_list_def)

lemma list_for_each_entry_from_fold:
  assumes "is_list h head (ys @ zs)" and "still lh h body f"
  shows "list_for_each_entry_from lh head body (hd (zs @ [head])) s = Some (Inl (fold f zs s))"
  using assms(1)
proof (induction zs arbitrary: ys s)
  case Nil
  then show ?case by (simp add: list_for_each_entry_from.simps)
next
  case (Cons z zs)
  then show ?case using is_list_around [OF Cons.prems] Cons.IH [of "ys @ [z]"]
    by (simp add: list_for_each_entry_from.simps [of _ _ _ z] still_body [OF assms(2)])
qed

lemma list_for_each_entry_from_reverse_fold:
  assumes "is_list h head (ys @ zs)" and "still lh h body f"
  shows "list_for_each_entry_from_reverse lh head body (last (head # ys)) s = Some (Inl (fold f (rev ys) s))"
  using assms(1)
proof (induction ys arbitrary: zs s rule: rev_induct)
  case Nil
  then show ?case by (simp add: list_for_each_entry_from_reverse.simps)
next
  case (snoc y ys)
  have y: "last (head # ys @ [y]) = y" by simp
  from snoc show ?case using is_list_around [of h head ys y zs] snoc.IH [of "y # zs"]
    by (simp add: list_for_each_entry_from_reverse.simps [of _ _ _ y] still_body [OF assms(2)] list_prev_entry_def y del: last.simps)
qed

lemma list_for_each_entry_safe_from_fold:
  assumes "is_list h head (ys @ zs)" and "still lh h body f" and "zs \<noteq> [] \<Longrightarrow> n = hd (tl zs @ [head])"
  shows "list_for_each_entry_safe_from lh head body (hd (zs @ [head])) n s = Some (Inl (fold f zs s))"
  using assms(1,3)
proof (induction zs arbitrary: ys n s)
  case Nil
  then show ?case by (simp add: list_for_each_entry_safe_from.simps)
next
  case (Cons z zs)
  have n: "n = hd (zs @ [head])" using Cons.prems(2) by simp
  have "\<exists>n'. next_of h n = Some n' \<and> (zs \<noteq> [] \<longrightarrow> n' = hd (tl zs @ [head]))"
  proof (cases zs)
    case Nil
    then show ?thesis using n is_list_next [of h head "[]" "ys @ z # zs"] Cons.prems(1) by simp
  next
    case (Cons z' zs')
    then show ?thesis using n is_list_around(1) [of h head "ys @ [z]" z' zs'] Cons.prems(1) \<open>is_list h head (ys @ z # zs)\<close> by simp
  qed
  then obtain n' where n': "next_of h n = Some n'" "zs \<noteq> [] \<Longrightarrow> n' = hd (tl zs @ [head])" by blast
  show ?case using is_list_around(3) [OF Cons.prems(1)] Cons.IH [of "ys @ [z]" n'] Cons.prems(1) n' n
    by (simp add: list_for_each_entry_safe_from.simps [of _ _ _ z] still_body [OF assms(2)])
qed

lemma list_walks:
  assumes l: "is_list h head (ys @ e # zs)" and b: "still lh h body f"
  shows "list_for_each_entry_reverse lh head body s = Some (Inl (fold f (rev (ys @ e # zs)) s))"
    "list_for_each_entry_continue lh head body e s = Some (Inl (fold f zs s))"
    "list_for_each_entry_continue lh head body (list_prepare_entry NULL head) s = Some (Inl (fold f (ys @ e # zs) s))"
    "list_for_each_entry_continue_reverse lh head body e s = Some (Inl (fold f (rev ys) s))"
    "list_for_each_entry_from lh head body e s = Some (Inl (fold f (e # zs) s))"
    "list_for_each_entry_from_reverse lh head body e s = Some (Inl (fold f (rev (ys @ [e])) s))"
    "list_for_each_entry_safe_continue lh head body e s = Some (Inl (fold f zs s))"
    "list_for_each_entry_safe_at lh head body e s = Some (Inl (fold f (e # zs) s))"
proof -
  let ?xs = "ys @ e # zs"
  note d = list_for_each_entry_reverse_def list_for_each_entry_continue_def list_for_each_entry_continue_reverse_def
    list_for_each_entry_safe_continue_def list_for_each_entry_safe_at_def list_last_entry_def list_next_entry_def list_prev_entry_def
    list_prepare_entry_def still_body [OF b]
  note a = is_list_around [OF l] and nf = is_list_next [of h head "[]" ?xs] and pl = is_list_prev [of h head ?xs "[]"]
  note F = list_for_each_entry_from_fold [OF _ b, of head] and R = list_for_each_entry_from_reverse_fold [OF _ b, of head]
    and S = list_for_each_entry_safe_from_fold [OF _ b, of head]
  show "list_for_each_entry_reverse lh head body s = Some (Inl (fold f (rev ?xs) s))"
    using R [of ?xs "[]" s] l pl by (simp add: d)
  show "list_for_each_entry_continue lh head body e s = Some (Inl (fold f zs s))"
    using F [of "ys @ [e]" zs s] l a by (simp add: d)
  show "list_for_each_entry_continue lh head body (list_prepare_entry NULL head) s = Some (Inl (fold f ?xs s))"
    using F [of "[]" ?xs s] l nf by (simp add: d)
  show "list_for_each_entry_continue_reverse lh head body e s = Some (Inl (fold f (rev ys) s))"
    using R [of ys "e # zs" s] l a by (simp add: d del: last.simps)
  show "list_for_each_entry_from lh head body e s = Some (Inl (fold f (e # zs) s))"
    using F [of ys "e # zs" s] l by simp
  show "list_for_each_entry_from_reverse lh head body e s = Some (Inl (fold f (rev (ys @ [e])) s))"
    using R [of "ys @ [e]" zs s] l by simp
  show "list_for_each_entry_safe_at lh head body e s = Some (Inl (fold f (e # zs) s))"
    using S [of ys "e # zs" "hd (zs @ [head])" s] l a by (simp add: d)
  obtain n where "next_of h (hd (zs @ [head])) = Some n" "zs \<noteq> [] \<Longrightarrow> n = hd (tl zs @ [head])"
  proof (cases zs)
    case Nil
    then show ?thesis using nf l that by simp
  next
    case (Cons z zs')
    then show ?thesis using is_list_around(1) [of h head "ys @ [e]" z zs'] l that by simp
  qed
  then show "list_for_each_entry_safe_continue lh head body e s = Some (Inl (fold f zs s))"
    using S [of "ys @ [e]" zs n s] l a by (simp add: d)
qed

text \<open>The cursors forward, and backwards; an empty list is not entered.\<close>

lemma list_cursor_walks:
  assumes l: "is_list h head xs" and b: "still lh h body f"
  shows "list_for_each lh head body s = Some (Inl (fold f xs s))"
    "list_for_each_prev lh head body s = Some (Inl (fold f (rev xs) s))"
    "list_for_each_safe lh head body s = Some (Inl (fold f xs s))"
    "list_first_entry head h = Some (hd (xs @ [head]))"
proof -
  have n: "next_of h head = Some (hd (xs @ [head]))" and p: "prev_of h head = Some (last (head # xs))"
    using is_list_next [of h head "[]" xs] is_list_prev [of h head xs "[]"] l by simp_all
  show "list_first_entry head h = Some (hd (xs @ [head]))" using n by (simp add: list_first_entry_def)
  show "list_for_each lh head body s = Some (Inl (fold f xs s))"
    using list_for_each_entry_from_fold [of h head "[]" xs, OF _ b] l n by (simp add: list_for_each_def still_body [OF b])
  show "list_for_each_prev lh head body s = Some (Inl (fold f (rev xs) s))"
    using list_for_each_entry_from_reverse_fold [of h head xs "[]", OF _ b] l p
    by (simp add: list_for_each_prev_def still_body [OF b] del: last.simps)
  have "\<exists>m. next_of h (hd (xs @ [head])) = Some m \<and> (xs \<noteq> [] \<longrightarrow> m = hd (tl xs @ [head]))"
    using n is_list_around(1) [of h head "[]" "hd xs" "tl xs"] l by (cases xs) auto
  then obtain m where "next_of h (hd (xs @ [head])) = Some m" "xs \<noteq> [] \<Longrightarrow> m = hd (tl xs @ [head])" by blast
  then show "list_for_each_safe lh head body s = Some (Inl (fold f xs s))"
    using list_for_each_entry_safe_from_fold [of h head "[]" xs, OF _ b] l n
    by (simp add: list_for_each_safe_def still_body [OF b])
qed

end
