(* ===== verification/Drm_Mm_Closed.thy ===== *)
theory Drm_Mm_Closed
  imports Drm_Mm_Queries Rbtree_Empty Linux_List_Walk
begin

text \<open>
  The types of the pointers of the allocator: in every state that callers can reach, whatever the
  allocator can read through its roots and the links of its lists and trees is NULL, the head of the
  hole stack, the head node, or a block. So a node that is not in use is not pointed to from anywhere.
\<close>

section \<open>Links\<close>

definition list_links :: "lheap \<Rightarrow> addr \<Rightarrow> addr set" where
  "list_links h x = (case h x of None \<Rightarrow> {} | Some e \<Rightarrow> {lh_next e, lh_prev e})"

lemma list_links_exist:
  assumes l: "is_list h head xs" and x: "x \<in> set (head # xs)"
  obtains n p where "next_of h x = Some n" "prev_of h x = Some p" "n \<in> set (head # xs)" "p \<in> set (head # xs)"
proof (cases "x = head")
  case True
  have "next_of h head = Some (hd (xs @ [head]))" "prev_of h head = Some (last (head # xs))"
    using is_list_next [of h head "[]" xs] is_list_prev [of h head xs "[]"] l by simp_all
  moreover have "hd (xs @ [head]) \<in> set (head # xs)" by (cases xs) auto
  moreover have "last (head # xs) \<in> set (head # xs)" by (rule last_in_set) simp
  ultimately show ?thesis using that True by blast
next
  case False
  then obtain ys zs where xs: "xs = ys @ x # zs" using x by (auto dest: split_list)
  have "next_of h x = Some (hd (zs @ [head]))" "prev_of h x = Some (last (head # ys))"
    using is_list_around [OF l [unfolded xs]] by simp_all
  moreover have "hd (zs @ [head]) \<in> set (head # xs)" by (cases zs) (auto simp: xs)
  moreover have "last (head # ys) \<in> set (head # xs)" using last_in_set [of "head # ys"] by (auto simp: xs)
  ultimately show ?thesis using that by blast
qed

lemma list_links_inside:
  assumes "is_list h head xs" and "x \<in> set (head # xs)"
  shows "list_links h x \<subseteq> set (head # xs)"
  by (rule list_links_exist [OF assms]) (auto simp: list_links_def next_of_def prev_of_def)

lemma first_of_in: "first_of xs \<in> insert NULL (set xs)"
  by (cases xs) (simp_all add: first_of_def)

lemma rootp_in: "rb_rep s t \<Longrightarrow> rb_root s \<in> insert NULL (set_rbt t)"
  by (cases t) (simp_all add: rb_rep_def)

lemma plain_seq_links:
  assumes "plain_seq s xs"
  shows "rb_root s \<in> insert NULL (set xs)" "x \<in> set xs \<Longrightarrow> rb_links s x \<subseteq> insert NULL (set xs)"
  using assms rootp_in [of s] rb_links_inside [of s] unfolding plain_seq_def by blast+

lemma rb_seq_links:
  assumes "rb_seq s xs"
  shows "{rb_root s, rb_leftmost s} \<subseteq> insert NULL (set xs)" "x \<in> set xs \<Longrightarrow> rb_links s x \<subseteq> insert NULL (set xs)"
  using assms rootp_in [of s] rb_links_inside [of s] first_of_in [of xs] unfolding rb_seq_def cached_rep_def by auto

lemma it_seq_links:
  assumes "it_seq itlast s xs"
  shows "{rb_root s, rb_leftmost s} \<subseteq> insert NULL (set xs)" "x \<in> set xs \<Longrightarrow> rb_links s x \<subseteq> insert NULL (set xs)"
  using assms rootp_in [of s] rb_links_inside [of s] first_of_in [of xs] unfolding it_seq_def it_tree_def cached_rep_def by auto

section \<open>What the allocator can read\<close>

text \<open>
  The roots: the pointers in \<open>struct drm_mm\<close> itself. The links of a node: those of the structures the
  allocator takes it to be in, by its flag \<open>allocated\<close> and its \<open>hole_size\<close>.
\<close>

definition mm_roots :: "drm_mm \<Rightarrow> addr set" where
  "mm_roots s = {mm_head_node s, mm_hole_stack s, rb_root (mm_interval_tree s), rb_leftmost (mm_interval_tree s),
     rb_root (mm_holes_size s), rb_leftmost (mm_holes_size s), rb_root (mm_holes_addr s)} \<union>
     list_links (mm_hole_list s) (mm_hole_stack s)"

definition mm_links :: "drm_mm \<Rightarrow> addr \<Rightarrow> addr set" where
  "mm_links s x = (if live s x then list_links (mm_node_list s) x \<union>
       (if nd_allocated (the (mm_nodes s x)) then rb_links (mm_interval_tree s) x else {}) \<union>
       (if n_hole (mm_nodes s) x \<noteq> 0
        then list_links (mm_hole_list s) x \<union> rb_links (mm_holes_size s) x \<union> rb_links (mm_holes_addr s) x else {})
     else {})"

inductive mm_tracks :: "drm_mm \<Rightarrow> addr \<Rightarrow> bool" for s where
  root: "y \<in> mm_roots s \<Longrightarrow> mm_tracks s y"
| link: "\<lbrakk>mm_tracks s x; y \<in> mm_links s x\<rbrakk> \<Longrightarrow> mm_tracks s y"

lemma mm_inv_closed:
  assumes inv: "mm_inv s ns hs"
  defines "used \<equiv> insert NULL (insert (mm_hole_stack s) (set (mm_head_node s # ns)))"
  shows "mm_roots s \<subseteq> used" and "x \<in> used \<Longrightarrow> mm_links s x \<subseteq> used"
proof -
  let ?H = "mm_head_node s" and ?m = "mm_nodes s"
  obtain ss where rep: "holes_rep s hs ss (hole_nodes ?m (?H # ns))" using inv by (auto simp: mm_inv_def)
  have nl: "is_list (mm_node_list s) ?H ns" and it: "it_seq (LAST s) (mm_interval_tree s) ns" using inv by (simp_all add: mm_inv_def)
  have hl: "is_list (mm_hole_list s) (mm_hole_stack s) hs" and hz: "rb_seq (mm_holes_size s) ss"
    and ha: "plain_seq (mm_holes_addr s) (hole_nodes ?m (?H # ns))"
    and sets: "set hs = set (hole_nodes ?m (?H # ns))" "set ss = set (hole_nodes ?m (?H # ns))"
    using rep by (simp_all add: holes_rep_def)
  have sub: "set (hole_nodes ?m (?H # ns)) \<subseteq> set (?H # ns)" by (rule subsetI) (simp only: in_hole_nodes)
  show "mm_roots s \<subseteq> used"
  proof -
    have hs: "set hs \<subseteq> used" "set ss \<subseteq> used" "set (hole_nodes ?m (?H # ns)) \<subseteq> used" using sub unfolding sets used_def by blast+
    have N: "NULL \<in> used" "mm_hole_stack s \<in> used" "?H \<in> used" "set ns \<subseteq> used" by (auto simp: used_def)
    have "list_links (mm_hole_list s) (mm_hole_stack s) \<subseteq> used"
      by (rule subset_trans [OF list_links_inside [OF hl]]) (use hs(1) N(2) in simp_all)
    moreover have "{rb_root (mm_holes_size s), rb_leftmost (mm_holes_size s)} \<subseteq> used" 
      by (rule subset_trans [OF rb_seq_links(1) [OF hz]]) (use hs(2) N(1) in simp)
    moreover have "rb_root (mm_holes_addr s) \<in> used" 
      by (rule set_mp [OF _ plain_seq_links(1) [OF ha]]) (use hs(3) N(1) in simp)
    moreover have "{rb_root (mm_interval_tree s), rb_leftmost (mm_interval_tree s)} \<subseteq> used" 
      by (rule subset_trans [OF it_seq_links(1) [OF it]]) (use N(1,4) in simp)
    ultimately show ?thesis using N(2,3) unfolding mm_roots_def by simp
  qed
  show "mm_links s x \<subseteq> used" if x: "x \<in> used"
  proof (cases "live s x")
    case True
    then have "x \<noteq> NULL" "x \<noteq> mm_hole_stack s" by (auto simp: live_def valid_ptr_def)
    then have xL: "x \<in> set (?H # ns)" using x by (auto simp: used_def)
    have "list_links (mm_node_list s) x \<subseteq> used" using list_links_inside [OF nl xL] by (auto simp: used_def)
    moreover have "rb_links (mm_interval_tree s) x \<subseteq> used" if "nd_allocated (the (?m x))"
    proof -
      have "x \<noteq> ?H" using inv that by (auto simp: mm_inv_def head_ok_def)
      then show ?thesis using it_seq_links(2) [OF it, of x] xL by (auto simp: used_def)
    qed
    moreover have "list_links (mm_hole_list s) x \<union> rb_links (mm_holes_size s) x \<union> rb_links (mm_holes_addr s) x \<subseteq> used" if "n_hole ?m x \<noteq> 0"
    proof -
      have h: "x \<in> set (hole_nodes ?m (?H # ns))" unfolding in_hole_nodes using xL that by blast
      then have "list_links (mm_hole_list s) x \<subseteq> insert (mm_hole_stack s) (set (hole_nodes ?m (?H # ns)))"
        using list_links_inside [OF hl, of x] sets(1) by simp
      then show ?thesis using rb_seq_links(2) [OF hz, of x] plain_seq_links(2) [OF ha h] h sub unfolding sets used_def by blast
    qed
    ultimately show ?thesis by (simp add: mm_links_def)
  qed (simp add: mm_links_def)
qed

lemma mm_tracks_closed:
  assumes "mm_tracks s y" and "mm_inv s ns hs"
  shows "y \<in> insert NULL (insert (mm_hole_stack s) (set (mm_head_node s # ns)))"
  using assms(1)
proof induction
  case (root y)
  then show ?case using mm_inv_closed(1) [OF assms(2)] by blast
next
  case (link x y)
  then show ?case using mm_inv_closed(2) [OF assms(2), of x] by blast
qed

section \<open>The property\<close>

text \<open>C5: In every state that callers can reach, every pointer that the allocator can read, from the fields of
  \<open>struct drm_mm\<close> on and through the links of its nodes, is NULL, the head of the hole stack, or the
  address of a live node, and never a node that is not in use: freeing such a node leaves no dangling
  pointer behind.\<close>

theorem mm_reach_no_dangling:
  assumes "mm_reach start sz s" and "mm_tracks s y"
  shows "(y = NULL \<or> y = mm_hole_stack s \<or> live s y) \<and> \<not> idle s y"
proof -
  obtain ns hs where ok: "mm_ok start sz s ns" and inv: "mm_inv s ns hs" using mm_reach_ok [OF assms(1)] by (auto simp: mm_ok_def)
  have y: "y \<in> insert NULL (insert (mm_hole_stack s) (set (mm_head_node s # ns)))" by (rule mm_tracks_closed [OF assms(2) inv])
  have "live s a" if "a \<in> set (mm_head_node s # ns)" for a
    using inv that by (auto simp: mm_inv_def head_ok_def block_ok_def node_ok_def)
  moreover have "\<not> idle s y" using y mm_ok_busy(2) [OF ok, of y] by (auto simp: live_def valid_ptr_def)
  ultimately show ?thesis using y by blast
qed

theorem mm_reach_no_dangling_witness:
  "\<exists>s. mm_reach 0 0x8000000 s \<and> mm_tracks s 48 \<and> live s 48 \<and> live s 64 \<and> \<not> mm_tracks s 64"
proof -
  obtain s where s: "mm_ok 0 0x8000000 s [48]" "mm_reach 0 0x8000000 s" "mm_head_node s = 32" "idle s 64"
    using example_block by blast
  obtain hs where inv: "mm_inv s [48] hs" using s(1) by (rule mm_ok_inv)
  have "mm_node_list s 32 \<noteq> None" "next_of (mm_node_list s) 32 = Some 48" "live s 32"
    using inv s(3) by (auto simp: mm_inv_def is_list_def head_ok_def node_ok_def next_of_def)
  then have "48 \<in> mm_links s 32" by (auto simp: mm_links_def list_links_def next_of_def)
  moreover have "mm_tracks s 32" by (rule mm_tracks.root) (simp add: mm_roots_def s(3))
  ultimately have t: "mm_tracks s 48" by (blast intro: mm_tracks.link)
  have "busy s 48" using mm_ok_busy(1) [OF s(1)] by simp
  moreover have "\<not> mm_tracks s 64" using mm_reach_no_dangling [OF s(2)] s(4) by blast
  ultimately show ?thesis using s(2,4) t by (auto simp: busy_def idle_def)
qed

end
