(* ===== verification/Linux_Hlist.thy ===== *)
theory Linux_Hlist
  imports Linux_List
begin

text \<open>
  linux/list.h: the hash lists, singly headed lists in which each node holds the address of the
  pointer that leads to it.

  \<open>slot\<close> is the type \<open>struct hlist_node **\<close>: the address of the \<open>first\<close> of a head or of the \<open>next\<close> of a
  node, NULL, or the list poison. \<open>is_hlist st head xs\<close> says that the list of \<open>head\<close> holds exactly the
  nodes \<open>xs\<close>, each with the address of the pointer to it.
\<close>

section \<open>State\<close>

datatype slot = Slot_NULL | Slot_poison | Slot_first addr | Slot_next addr

record hlist_node =
  hn_next :: addr
  hn_pprev :: slot

record hlists =
  hl_first :: "addr store"
  hl_nodes :: "hlist_node store"

fun read_slot :: "slot \<Rightarrow> hlists \<Rightarrow> addr option" where
  "read_slot Slot_NULL st = None"
| "read_slot Slot_poison st = None"
| "read_slot (Slot_first h) st = hl_first st h"
| "read_slot (Slot_next n) st = map_option hn_next (hl_nodes st n)"

definition node_write :: "addr \<Rightarrow> (hlist_node \<Rightarrow> hlist_node) \<Rightarrow> hlists \<Rightarrow> hlists option" where
  "node_write p f st = do { n \<leftarrow> hl_nodes st p; Some (st\<lparr>hl_nodes := (hl_nodes st)(p \<mapsto> f n)\<rparr>) }"

definition set_hnext :: "addr \<Rightarrow> addr \<Rightarrow> hlists \<Rightarrow> hlists option" where
  "set_hnext p v = node_write p (\<lambda>n. n\<lparr>hn_next := v\<rparr>)"

definition set_pprev :: "addr \<Rightarrow> slot \<Rightarrow> hlists \<Rightarrow> hlists option" where
  "set_pprev p v = node_write p (\<lambda>n. n\<lparr>hn_pprev := v\<rparr>)"

fun write_slot :: "slot \<Rightarrow> addr \<Rightarrow> hlists \<Rightarrow> hlists option" where
  "write_slot Slot_NULL v st = None"
| "write_slot Slot_poison v st = None"
| "write_slot (Slot_first h) v st = do { _ \<leftarrow> hl_first st h; Some (st\<lparr>hl_first := (hl_first st)(h \<mapsto> v)\<rparr>) }"
| "write_slot (Slot_next n) v st = set_hnext n v st"

section \<open>The operations\<close>

definition INIT_HLIST_HEAD :: "addr \<Rightarrow> hlists \<Rightarrow> hlists option" where
  "INIT_HLIST_HEAD p = write_slot (Slot_first p) NULL"

definition INIT_HLIST_NODE :: "addr \<Rightarrow> hlists \<Rightarrow> hlists option" where
  "INIT_HLIST_NODE h st = do {
     st \<leftarrow> set_hnext h NULL st;
     set_pprev h Slot_NULL st
   }"

definition hlist_unhashed :: "addr \<Rightarrow> hlists \<Rightarrow> bool option" where
  "hlist_unhashed h st = map_option (\<lambda>n. hn_pprev n = Slot_NULL) (hl_nodes st h)"

definition hlist_empty :: "addr \<Rightarrow> hlists \<Rightarrow> bool option" where
  "hlist_empty h st = map_option (\<lambda>f. f = NULL) (hl_first st h)"

text \<open>\<open>raw_hlist_del\<close> is \<open>__hlist_del\<close>.\<close>

definition raw_hlist_del :: "addr \<Rightarrow> hlists \<Rightarrow> hlists option" where
  "raw_hlist_del n st = do {
     nn \<leftarrow> hl_nodes st n;
     let nxt = hn_next nn;
     let pprev = hn_pprev nn;
     st \<leftarrow> write_slot pprev nxt st;
     c_when (nxt \<noteq> NULL) (set_pprev nxt pprev) st
   }"

definition hlist_del :: "addr \<Rightarrow> hlists \<Rightarrow> hlists option" where
  "hlist_del n st = do {
     st \<leftarrow> raw_hlist_del n st;
     st \<leftarrow> set_hnext n LIST_POISON1 st;
     set_pprev n Slot_poison st
   }"

definition hlist_del_init :: "addr \<Rightarrow> hlists \<Rightarrow> hlists option" where
  "hlist_del_init n st = do {
     u \<leftarrow> hlist_unhashed n st;
     if \<not> u then do {
       st \<leftarrow> raw_hlist_del n st;
       INIT_HLIST_NODE n st
     } else Some st
   }"

definition hlist_add_head :: "addr \<Rightarrow> addr \<Rightarrow> hlists \<Rightarrow> hlists option" where
  "hlist_add_head n h st = do {
     first \<leftarrow> hl_first st h;
     st \<leftarrow> set_hnext n first st;
     st \<leftarrow> c_when (first \<noteq> NULL) (set_pprev first (Slot_next n)) st;
     st \<leftarrow> write_slot (Slot_first h) n st;
     set_pprev n (Slot_first h) st
   }"

definition hlist_add_before :: "addr \<Rightarrow> addr \<Rightarrow> hlists \<Rightarrow> hlists option" where
  "hlist_add_before n nxt st = do {
     xn \<leftarrow> hl_nodes st nxt;
     st \<leftarrow> set_pprev n (hn_pprev xn) st;
     st \<leftarrow> set_hnext n nxt st;
     st \<leftarrow> set_pprev nxt (Slot_next n) st;
     nn \<leftarrow> hl_nodes st n;
     write_slot (hn_pprev nn) n st
   }"

definition hlist_add_behind :: "addr \<Rightarrow> addr \<Rightarrow> hlists \<Rightarrow> hlists option" where
  "hlist_add_behind n prev st = do {
     pn \<leftarrow> hl_nodes st prev;
     st \<leftarrow> set_hnext n (hn_next pn) st;
     st \<leftarrow> set_hnext prev n st;
     st \<leftarrow> set_pprev n (Slot_next prev) st;
     nn \<leftarrow> hl_nodes st n;
     c_when (hn_next nn \<noteq> NULL) (set_pprev (hn_next nn) (Slot_next n)) st
   }"

definition hlist_add_fake :: "addr \<Rightarrow> hlists \<Rightarrow> hlists option" where
  "hlist_add_fake n = set_pprev n (Slot_next n)"

definition hlist_fake :: "addr \<Rightarrow> hlists \<Rightarrow> bool option" where
  "hlist_fake h st = map_option (\<lambda>n. hn_pprev n = Slot_next h) (hl_nodes st h)"

definition hlist_is_singular_node :: "addr \<Rightarrow> addr \<Rightarrow> hlists \<Rightarrow> bool option" where
  "hlist_is_singular_node n h st =
     map_option (\<lambda>nn. hn_next nn = NULL \<and> hn_pprev nn = Slot_first h) (hl_nodes st n)"

definition hlist_move_list :: "addr \<Rightarrow> addr \<Rightarrow> hlists \<Rightarrow> hlists option" where
  "hlist_move_list old new st = do {
     first \<leftarrow> hl_first st old;
     st \<leftarrow> write_slot (Slot_first new) first st;
     nf \<leftarrow> hl_first st new;
     st \<leftarrow> c_when (nf \<noteq> NULL) (set_pprev nf (Slot_first new)) st;
     write_slot (Slot_first old) NULL st
   }"

text \<open>The iteration macros; as in the walks over a \<open>list_head\<close>, the body returns \<open>Inl\<close> of the next state
  or \<open>Inr\<close> of a value when it leaves the loop. The safe one reads \<open>next\<close> before the body.\<close>

partial_function (option) hlist_for_each_entry_from ::
  "('s \<Rightarrow> hlists) \<Rightarrow> (addr \<Rightarrow> 's \<Rightarrow> ('s + 'r) option) \<Rightarrow> addr \<Rightarrow> 's \<Rightarrow> ('s + 'r) option" where
  "hlist_for_each_entry_from hl body pos s =
     (if pos = NULL then Some (Inl s)
      else do {
        r \<leftarrow> body pos s;
        case r of
          Inl s' \<Rightarrow> do { n \<leftarrow> hl_nodes (hl s') pos; hlist_for_each_entry_from hl body (hn_next n) s' }
        | Inr x \<Rightarrow> Some (Inr x)
      })"

definition hlist_for_each_entry ::
  "('s \<Rightarrow> hlists) \<Rightarrow> addr \<Rightarrow> (addr \<Rightarrow> 's \<Rightarrow> ('s + 'r) option) \<Rightarrow> 's \<Rightarrow> ('s + 'r) option" where
  "hlist_for_each_entry hl head body s = do { pos \<leftarrow> hl_first (hl s) head; hlist_for_each_entry_from hl body pos s }"

definition hlist_for_each_entry_continue ::
  "('s \<Rightarrow> hlists) \<Rightarrow> (addr \<Rightarrow> 's \<Rightarrow> ('s + 'r) option) \<Rightarrow> addr \<Rightarrow> 's \<Rightarrow> ('s + 'r) option" where
  "hlist_for_each_entry_continue hl body pos s = do { n \<leftarrow> hl_nodes (hl s) pos; hlist_for_each_entry_from hl body (hn_next n) s }"

partial_function (option) hlist_for_each_safe_from ::
  "('s \<Rightarrow> hlists) \<Rightarrow> (addr \<Rightarrow> 's \<Rightarrow> ('s + 'r) option) \<Rightarrow> addr \<Rightarrow> 's \<Rightarrow> ('s + 'r) option" where
  "hlist_for_each_safe_from hl body pos s =
     (if pos = NULL then Some (Inl s)
      else do {
        n \<leftarrow> hl_nodes (hl s) pos;
        r \<leftarrow> body pos s;
        case r of
          Inl s' \<Rightarrow> hlist_for_each_safe_from hl body (hn_next n) s'
        | Inr x \<Rightarrow> Some (Inr x)
      })"

definition hlist_for_each_entry_safe ::
  "('s \<Rightarrow> hlists) \<Rightarrow> addr \<Rightarrow> (addr \<Rightarrow> 's \<Rightarrow> ('s + 'r) option) \<Rightarrow> 's \<Rightarrow> ('s + 'r) option" where
  "hlist_for_each_entry_safe hl head body s = do { pos \<leftarrow> hl_first (hl s) head; hlist_for_each_safe_from hl body pos s }"

text \<open>The macros whose cursor is a plain \<open>hlist_node\<close>: the same loops.\<close>

definition hlist_for_each ::
  "('s \<Rightarrow> hlists) \<Rightarrow> addr \<Rightarrow> (addr \<Rightarrow> 's \<Rightarrow> ('s + 'r) option) \<Rightarrow> 's \<Rightarrow> ('s + 'r) option" where
  "hlist_for_each hl head body s = do { pos \<leftarrow> hl_first (hl s) head; hlist_for_each_entry_from hl body pos s }"

definition hlist_for_each_safe ::
  "('s \<Rightarrow> hlists) \<Rightarrow> addr \<Rightarrow> (addr \<Rightarrow> 's \<Rightarrow> ('s + 'r) option) \<Rightarrow> 's \<Rightarrow> ('s + 'r) option" where
  "hlist_for_each_safe hl head body s = do { pos \<leftarrow> hl_first (hl s) head; hlist_for_each_safe_from hl body pos s }"

section \<open>Executing the accesses symbolically\<close>

text \<open>A state is what its slots and its \<open>pprev\<close> fields read.\<close>

definition pprev_of :: "hlists \<Rightarrow> addr \<Rightarrow> slot option" where
  "pprev_of st q = map_option hn_pprev (hl_nodes st q)"

definition upd_slot :: "slot \<Rightarrow> addr \<Rightarrow> hlists \<Rightarrow> hlists" where
  "upd_slot sl v st = the (write_slot sl v st)"

definition upd_pprev :: "addr \<Rightarrow> slot \<Rightarrow> hlists \<Rightarrow> hlists" where
  "upd_pprev p v st = the (set_pprev p v st)"

lemma write_slot_eq [simp]: "read_slot sl st \<noteq> None \<Longrightarrow> write_slot sl v st = Some (upd_slot sl v st)"
  by (cases sl) (auto simp: upd_slot_def set_hnext_def node_write_def)

lemma set_pprev_eq [simp]: "pprev_of st p \<noteq> None \<Longrightarrow> set_pprev p v st = Some (upd_pprev p v st)"
  by (auto simp: upd_pprev_def set_pprev_def node_write_def pprev_of_def)

lemma set_hnext_eq [simp]: "read_slot (Slot_next p) st \<noteq> None \<Longrightarrow> set_hnext p v st = Some (upd_slot (Slot_next p) v st)"
  using write_slot_eq [of "Slot_next p" st v] by simp

lemma read_upd_slot [simp]:
  "read_slot sl st \<noteq> None \<Longrightarrow> read_slot r (upd_slot sl v st) = (if r = sl then Some v else read_slot r st)"
  by (cases sl; cases r) (auto simp: upd_slot_def set_hnext_def node_write_def)

lemma pprev_upd_slot [simp]: "read_slot sl st \<noteq> None \<Longrightarrow> pprev_of (upd_slot sl v st) q = pprev_of st q"
  by (cases sl) (auto simp: upd_slot_def set_hnext_def node_write_def pprev_of_def)

lemma read_upd_pprev [simp]: "pprev_of st p \<noteq> None \<Longrightarrow> read_slot r (upd_pprev p v st) = read_slot r st"
  by (cases r) (auto simp: upd_pprev_def set_pprev_def node_write_def pprev_of_def)

lemma pprev_upd_pprev [simp]:
  "pprev_of st p \<noteq> None \<Longrightarrow> pprev_of (upd_pprev p v st) q = (if q = p then Some v else pprev_of st q)"
  by (auto simp: upd_pprev_def set_pprev_def node_write_def pprev_of_def)

lemma hlist_node_reads:
  assumes "pprev_of st n = Some sl" and "read_slot (Slot_next n) st = Some v"
  shows "hl_nodes st n = Some \<lparr>hn_next = v, hn_pprev = sl\<rparr>"
  using assms by (auto simp: pprev_of_def)

lemma pprev_read: "pprev_of st n = None \<longleftrightarrow> read_slot (Slot_next n) st = None"
  by (simp add: pprev_of_def)

lemma hlists_eqI:
  assumes "\<And>r. read_slot r st = read_slot r st'" and "\<And>q. pprev_of st q = pprev_of st' q"
  shows "st = (st' :: hlists)"
proof -
  have "hl_first st = hl_first st'" using assms(1) [of "Slot_first _"] by auto
  moreover have "hl_nodes st q = hl_nodes st' q" for q
    using assms(1) [of "Slot_next q"] assms(2) [of q]
    by (cases "hl_nodes st q"; cases "hl_nodes st' q") (auto simp: pprev_of_def)
  ultimately show ?thesis by (cases st; cases st') auto
qed

declare read_slot.simps(3,4) [simp del] write_slot.simps(3,4) [simp del]

section \<open>Which list a head leads to\<close>

fun hseg :: "hlists \<Rightarrow> slot \<Rightarrow> addr list \<Rightarrow> bool" where
  "hseg st sl [] \<longleftrightarrow> True"
| "hseg st sl (x # xs) \<longleftrightarrow> read_slot sl st = Some x \<and> x \<noteq> NULL \<and> pprev_of st x = Some sl \<and> hseg st (Slot_next x) xs"

text \<open>The slot after the nodes \<open>ys\<close> of a list.\<close>

fun slot_after :: "slot \<Rightarrow> addr list \<Rightarrow> slot" where
  "slot_after sl [] = sl"
| "slot_after sl (y # ys) = slot_after (Slot_next y) ys"

definition hpath :: "hlists \<Rightarrow> slot \<Rightarrow> addr list \<Rightarrow> bool" where
  "hpath st sl xs \<longleftrightarrow> hseg st sl xs \<and> read_slot (slot_after sl xs) st = Some NULL"

definition is_hlist :: "hlists \<Rightarrow> addr \<Rightarrow> addr list \<Rightarrow> bool" where
  "is_hlist st head xs \<longleftrightarrow> distinct xs \<and> hpath st (Slot_first head) xs"

lemma slot_after_last: "slot_after sl ys = (if ys = [] then sl else Slot_next (last ys))"
  by (induction ys arbitrary: sl) auto

lemma hseg_append: "hseg st sl (ys @ zs) \<longleftrightarrow> hseg st sl ys \<and> hseg st (slot_after sl ys) zs"
  by (induction ys arbitrary: sl) auto

lemma slot_after_append [simp]: "slot_after sl (ys @ zs) = slot_after (slot_after sl ys) zs"
  by (induction ys arbitrary: sl) auto

lemma hpath_append: "hpath st sl (ys @ zs) \<longleftrightarrow> hseg st sl ys \<and> hpath st (slot_after sl ys) zs"
  by (auto simp: hpath_def hseg_append)

lemma hpath_Cons:
  "hpath st sl (x # xs) \<longleftrightarrow> read_slot sl st = Some x \<and> x \<noteq> NULL \<and> pprev_of st x = Some sl \<and> hpath st (Slot_next x) xs"
  by (auto simp: hpath_def)

lemma hpath_read: "hpath st sl xs \<Longrightarrow> read_slot sl st = Some (hd (xs @ [NULL]))"
  by (cases xs) (auto simp: hpath_def)

text \<open>A segment reads the slots before its nodes and the \<open>pprev\<close> fields of its nodes.\<close>

lemma hseg_cong:
  assumes "\<And>r. r \<in> set (butlast (sl # map Slot_next ys)) \<Longrightarrow> read_slot r st' = read_slot r st"
    and "\<And>q. q \<in> set ys \<Longrightarrow> pprev_of st' q = pprev_of st q"
  shows "hseg st' sl ys = hseg st sl ys"
  using assms
proof (induction ys arbitrary: sl)
  case (Cons y ys)
  have "hseg st' (Slot_next y) ys = hseg st (Slot_next y) ys"
    by (rule Cons.IH) (use Cons.prems in auto)
  moreover have "read_slot sl st' = read_slot sl st" "pprev_of st' y = pprev_of st y" using Cons.prems by auto
  ultimately show ?case by simp
qed simp

lemma hpath_cong:
  assumes "\<And>r. r \<in> set (sl # map Slot_next ys) \<Longrightarrow> read_slot r st' = read_slot r st"
    and "\<And>q. q \<in> set ys \<Longrightarrow> pprev_of st' q = pprev_of st q"
  shows "hpath st' sl ys = hpath st sl ys"
proof -
  have "hseg st' sl ys = hseg st sl ys" by (rule hseg_cong) (use assms(1) [OF in_set_butlastD] assms(2) in blast)+
  moreover have "slot_after sl ys \<in> set (sl # map Slot_next ys)" by (simp add: slot_after_last)
  ultimately show ?thesis using assms(1) by (simp add: hpath_def)
qed

lemma hseg_dom: "hseg st sl ys \<Longrightarrow> q \<in> set ys \<Longrightarrow> q \<noteq> NULL \<and> pprev_of st q \<noteq> None"
  by (induction ys arbitrary: sl) auto

lemma is_hlist_dom:
  assumes "is_hlist st head xs"
  shows "hl_first st head \<noteq> None" "q \<in> set xs \<Longrightarrow> q \<noteq> NULL \<and> pprev_of st q \<noteq> None"
  using assms hpath_read [of st "Slot_first head" xs] hseg_dom [of st "Slot_first head" xs q] by (auto simp: is_hlist_def hpath_def read_slot.simps)

text \<open>The slots of a list are distinct.\<close>

lemma slots_distinct:
  assumes "distinct (ys @ zs)" and "sl = slot_after (Slot_first head) ys"
  shows "sl \<notin> set (butlast (Slot_first head # map Slot_next ys))" "sl \<notin> Slot_next ` set zs" "q \<notin> set ys \<Longrightarrow> sl \<noteq> Slot_next q"
    "h \<noteq> head \<Longrightarrow> sl \<noteq> Slot_first h"
  using assms by (cases ys rule: rev_cases; auto simp: slot_after_last dest: in_set_butlastD)+

section \<open>What each operation does to the list\<close>

text \<open>What an operation on the list of \<open>head\<close> with the nodes \<open>A\<close> leaves alone.\<close>

definition hframe :: "addr set \<Rightarrow> addr set \<Rightarrow> hlists \<Rightarrow> hlists \<Rightarrow> bool" where
  "hframe H A st st' \<longleftrightarrow> (\<forall>h. h \<notin> H \<longrightarrow> hl_first st' h = hl_first st h) \<and> (\<forall>q. q \<notin> A \<longrightarrow> hl_nodes st' q = hl_nodes st q)"

lemma hframeI:
  assumes "\<And>h. h \<notin> H \<Longrightarrow> read_slot (Slot_first h) st' = read_slot (Slot_first h) st"
    and "\<And>q. q \<notin> A \<Longrightarrow> read_slot (Slot_next q) st' = read_slot (Slot_next q) st \<and> pprev_of st' q = pprev_of st q"
  shows "hframe H A st st'"
proof -
  have "hl_nodes st' q = hl_nodes st q" if "q \<notin> A" for q
    using assms(2) [OF that] by (cases "hl_nodes st q"; cases "hl_nodes st' q") (auto simp: pprev_of_def read_slot.simps)
  then show ?thesis using assms(1) by (simp add: hframe_def read_slot.simps)
qed

lemma raw_hlist_del_spec:
  assumes l: "is_hlist st head (ys @ e # zs)"
  shows "\<exists>st'. raw_hlist_del e st = Some st' \<and> is_hlist st' head (ys @ zs) \<and> hframe {head} (set ys \<union> set zs) st st' \<and>
    hl_nodes st' e = hl_nodes st e \<and>
    (\<forall>r. read_slot r st' = (if r = slot_after (Slot_first head) ys then Some (hd (zs @ [NULL])) else read_slot r st)) \<and>
    (\<forall>q. pprev_of st' q = (if hd (zs @ [NULL]) \<noteq> NULL \<and> q = hd (zs @ [NULL]) then Some (slot_after (Slot_first head) ys) else pprev_of st q))"
proof -
  define sl nx where "sl = slot_after (Slot_first head) ys" and "nx = hd (zs @ [NULL])"
  have p: "hseg st (Slot_first head) ys" "read_slot sl st = Some e" "pprev_of st e = Some sl" "hpath st (Slot_next e) zs"
    and d: "distinct (ys @ zs)" "e \<notin> set ys" "e \<notin> set zs" "distinct (ys @ e # zs)" "e \<noteq> NULL"
    using l by (auto simp: is_hlist_def hpath_append hpath_Cons sl_def)
  have e: "read_slot (Slot_next e) st = Some nx" using hpath_read [OF p(4)] by (simp add: nx_def)
  have nd: "nx \<noteq> NULL \<Longrightarrow> nx \<in> set zs \<and> pprev_of st nx \<noteq> None \<and> zs \<noteq> []"
    using is_hlist_dom(2) [OF l, of nx] by (cases zs) (auto simp: nx_def)
  define st' where "st' = (if nx \<noteq> NULL then upd_pprev nx sl (upd_slot sl nx st) else upd_slot sl nx st)"
  have run: "raw_hlist_del e st = Some st'"
    using hlist_node_reads [OF p(3) e] p(2) nd by (simp add: raw_hlist_del_def c_when_def st'_def)
  have R: "read_slot r st' = (if r = sl then Some nx else read_slot r st)" for r using p(2) nd by (simp add: st'_def)
  have P: "pprev_of st' q = (if nx \<noteq> NULL \<and> q = nx then Some sl else pprev_of st q)" for q using p(2) nd by (simp add: st'_def)
  note s = slots_distinct [OF d(1) sl_def] 
  have "hseg st' (Slot_first head) ys = hseg st (Slot_first head) ys"
    by (rule hseg_cong) (use R P s(1) nd d in auto)
  moreover have "hpath st' sl zs"
  proof (cases zs)
    case Nil
    then show ?thesis using R by (simp add: hpath_def nx_def)
  next
    case (Cons z zs')
    have z: "z = nx" using Cons by (simp add: nx_def)
    have "hpath st' (Slot_next z) zs' = hpath st (Slot_next z) zs'"
      by (rule hpath_cong) (use R P s(2) Cons d z in auto)
    then show ?thesis using p(4) Cons R P nd z by (auto simp: hpath_Cons)
  qed
  ultimately have "is_hlist st' head (ys @ zs)" using p(1) d(1) by (simp add: is_hlist_def hpath_append sl_def)
  moreover have "hframe {head} (set ys \<union> set zs) st st'"
    by (rule hframeI) (use R P nd slots_distinct(3,4) [OF d(1) sl_def] in auto)
  moreover have "hl_nodes st' e = hl_nodes st e"
    using calculation(2) d(2,3) by (auto simp: hframe_def)
  ultimately show ?thesis using run R P unfolding sl_def nx_def by blast
qed

text \<open>The three insertions write the same slots.\<close>

lemma hlist_inserted:
  assumes l: "is_hlist st head (ys @ zs)" and n: "n \<noteq> NULL" "n \<notin> set (ys @ zs)"
    and sl: "sl = slot_after (Slot_first head) ys" and nx: "nx = hd (zs @ [NULL])"
    and R: "\<And>r. read_slot r st' = (if r = sl then Some n else if r = Slot_next n then Some nx else read_slot r st)"
    and P: "\<And>q. pprev_of st' q = (if q = n then Some sl else if nx \<noteq> NULL \<and> q = nx then Some (Slot_next n) else pprev_of st q)"
  shows "is_hlist st' head (ys @ n # zs) \<and> hframe {head} (insert n (set ys \<union> set zs)) st st'"
proof -
  have p: "hseg st (Slot_first head) ys" "hpath st sl zs" and d: "distinct (ys @ zs)"
    using l by (auto simp: is_hlist_def hpath_append sl)
  have nd: "nx \<noteq> NULL \<Longrightarrow> nx \<in> set zs" by (cases zs) (auto simp: nx)
  note s = slots_distinct [OF d sl] 
  have sn: "Slot_next n \<notin> set (butlast (Slot_first head # map Slot_next ys))" using n(2) by (auto dest!: in_set_butlastD)
  have nn: "sl \<noteq> Slot_next n" using s(3) n(2) by simp
  have "hseg st' (Slot_first head) ys = hseg st (Slot_first head) ys"
    by (rule hseg_cong) (use R P s(1) sn nd d n in auto)
  moreover have "hpath st' (Slot_next n) zs"
  proof (cases zs)
    case Nil
    then show ?thesis using R nn nx by (simp add: hpath_def)
  next
    case (Cons z zs')
    have z: "z = nx" using Cons by (simp add: nx)
    have "hpath st' (Slot_next z) zs' = hpath st (Slot_next z) zs'"
      by (rule hpath_cong) (use R P s(2) Cons d z n in auto)
    then show ?thesis using p(2) Cons R P nd z nn n by (auto simp: hpath_Cons)
  qed
  ultimately have "is_hlist st' head (ys @ n # zs)" using p(1) d n R P by (simp add: is_hlist_def hpath_append hpath_Cons sl)
  moreover have "hframe {head} (insert n (set ys \<union> set zs)) st st'"
    by (rule hframeI) (use R P nd slots_distinct(3,4) [OF d sl] in auto)
  ultimately show ?thesis by blast
qed

lemma hlist_del_spec:
  assumes l: "is_hlist st head (ys @ e # zs)"
  shows "\<exists>st'. hlist_del e st = Some st' \<and> is_hlist st' head (ys @ zs) \<and> hframe {head} (insert e (set ys \<union> set zs)) st st' \<and>
    hl_nodes st' e = Some \<lparr>hn_next = LIST_POISON1, hn_pprev = Slot_poison\<rparr>"
proof -
  obtain st1 where st1: "raw_hlist_del e st = Some st1" "is_hlist st1 head (ys @ zs)" "hframe {head} (set ys \<union> set zs) st st1"
    "hl_nodes st1 e = hl_nodes st e" using raw_hlist_del_spec [OF l] by blast
  have "pprev_of st1 e \<noteq> None" using is_hlist_dom(2) [OF l, of e] st1(4) by (simp add: pprev_of_def)
  then have e: "pprev_of st1 e \<noteq> None" "read_slot (Slot_next e) st1 \<noteq> None" by (simp_all add: pprev_read)
  define st' where "st' = upd_pprev e Slot_poison (upd_slot (Slot_next e) LIST_POISON1 st1)"
  have R: "read_slot r st' = (if r = Slot_next e then Some LIST_POISON1 else read_slot r st1)"
    and P: "pprev_of st' q = (if q = e then Some Slot_poison else pprev_of st1 q)" for r q using e by (simp_all add: st'_def)
  have "hlist_del e st = Some st'" using st1(1) e by (simp add: hlist_del_def st'_def)
  moreover have "is_hlist st' head (ys @ zs)"
  proof -
    have "hpath st' (Slot_first head) (ys @ zs) = hpath st1 (Slot_first head) (ys @ zs)"
      by (rule hpath_cong) (use R P l in \<open>auto simp: is_hlist_def\<close>)
    then show ?thesis using st1(2) by (simp add: is_hlist_def)
  qed
  moreover have "hframe {head} (insert e (set ys \<union> set zs)) st1 st'" by (rule hframeI) (use R P in auto)
  then have "hframe {head} (insert e (set ys \<union> set zs)) st st'" using st1(3) by (simp add: hframe_def)
  moreover have "hl_nodes st' e = Some \<lparr>hn_next = LIST_POISON1, hn_pprev = Slot_poison\<rparr>"
    using hlist_node_reads [of st' e] R P by simp
  ultimately show ?thesis by blast
qed

lemma hlist_del_init_spec:
  assumes l: "is_hlist st head (ys @ e # zs)"
  shows "\<exists>st'. hlist_del_init e st = Some st' \<and> is_hlist st' head (ys @ zs) \<and> hframe {head} (insert e (set ys \<union> set zs)) st st' \<and>
    hlist_unhashed e st' = Some True \<and> hlist_del_init e st' = Some st'"
proof -
  obtain st1 where st1: "raw_hlist_del e st = Some st1" "is_hlist st1 head (ys @ zs)" "hframe {head} (set ys \<union> set zs) st st1"
    "hl_nodes st1 e = hl_nodes st e" using raw_hlist_del_spec [OF l] by blast
  have "pprev_of st1 e \<noteq> None" using is_hlist_dom(2) [OF l, of e] st1(4) by (simp add: pprev_of_def)
  then have e: "pprev_of st1 e \<noteq> None" "read_slot (Slot_next e) st1 \<noteq> None" by (simp_all add: pprev_read)
  have "pprev_of st e = Some (slot_after (Slot_first head) ys)" using l by (simp add: is_hlist_def hpath_append hpath_Cons)
  then have u: "hlist_unhashed e st = Some False" by (auto simp: hlist_unhashed_def pprev_of_def slot_after_last)
  define st' where "st' = upd_pprev e Slot_NULL (upd_slot (Slot_next e) NULL st1)"
  have R: "read_slot r st' = (if r = Slot_next e then Some NULL else read_slot r st1)"
    and P: "pprev_of st' q = (if q = e then Some Slot_NULL else pprev_of st1 q)" for r q using e by (simp_all add: st'_def)
  have "hlist_del_init e st = Some st'" using st1(1) e u by (simp add: hlist_del_init_def INIT_HLIST_NODE_def st'_def)
  moreover have "is_hlist st' head (ys @ zs)"
  proof -
    have "hpath st' (Slot_first head) (ys @ zs) = hpath st1 (Slot_first head) (ys @ zs)"
      by (rule hpath_cong) (use R P l in \<open>auto simp: is_hlist_def\<close>)
    then show ?thesis using st1(2) by (simp add: is_hlist_def)
  qed
  moreover have "hframe {head} (insert e (set ys \<union> set zs)) st1 st'" by (rule hframeI) (use R P in auto)
  then have "hframe {head} (insert e (set ys \<union> set zs)) st st'" using st1(3) by (simp add: hframe_def)
  moreover have "hlist_unhashed e st' = Some True" using P [of e] by (auto simp: hlist_unhashed_def pprev_of_def)
  moreover from this have "hlist_del_init e st' = Some st'" by (simp add: hlist_del_init_def)
  ultimately show ?thesis by blast
qed

text \<open>The state after an insertion of \<open>n\<close> at the slot \<open>sl\<close>, before the node \<open>nx\<close> or at the end.\<close>

definition inserted :: "hlists \<Rightarrow> slot \<Rightarrow> addr \<Rightarrow> addr \<Rightarrow> hlists \<Rightarrow> bool" where
  "inserted st sl n nx st' \<longleftrightarrow>
    (\<forall>r. read_slot r st' = (if r = sl then Some n else if r = Slot_next n then Some nx else read_slot r st)) \<and>
    (\<forall>q. pprev_of st' q = (if q = n then Some sl else if nx \<noteq> NULL \<and> q = nx then Some (Slot_next n) else pprev_of st q))"

lemma inserted_unique: "inserted st sl n nx st1 \<Longrightarrow> inserted st sl n nx st2 \<Longrightarrow> st1 = st2"
  by (rule hlists_eqI) (simp_all add: inserted_def)

lemma insert_reads:
  assumes l: "is_hlist st head (ys @ zs)" and n: "n \<noteq> NULL" "n \<notin> set (ys @ zs)" "pprev_of st n \<noteq> None"
  defines "sl \<equiv> slot_after (Slot_first head) ys" and "nx \<equiv> hd (zs @ [NULL])"
  shows "read_slot sl st = Some nx" "read_slot (Slot_next n) st \<noteq> None" "nx \<noteq> NULL \<Longrightarrow> pprev_of st nx = Some sl"
    "nx \<noteq> n" "sl \<noteq> Slot_next n" "nx \<noteq> NULL \<Longrightarrow> sl \<noteq> Slot_next nx"
proof -
  have p: "hpath st sl zs" and d: "distinct (ys @ zs)" using l by (auto simp: is_hlist_def hpath_append sl_def)
  show "read_slot sl st = Some nx" using hpath_read [OF p] by (simp add: nx_def)
  show "read_slot (Slot_next n) st \<noteq> None" using n(3) by (simp add: pprev_read)
  show "nx \<noteq> NULL \<Longrightarrow> pprev_of st nx = Some sl" using p by (cases zs) (auto simp: nx_def hpath_Cons)
  show "nx \<noteq> n" using n(1,2) by (cases zs) (auto simp: nx_def)
  show "sl \<noteq> Slot_next n" using slots_distinct(3) [OF d sl_def [THEN meta_eq_to_obj_eq]] n(2) by auto
  show "nx \<noteq> NULL \<Longrightarrow> sl \<noteq> Slot_next nx"
    using slots_distinct(2) [OF d sl_def [THEN meta_eq_to_obj_eq]] by (cases zs) (auto simp: nx_def)
qed

lemma hlist_add_head_spec:
  assumes l: "is_hlist st head ([] @ zs)" and n: "n \<noteq> NULL" "n \<notin> set ([] @ zs)" "pprev_of st n \<noteq> None"
  shows "\<exists>st'. hlist_add_head n head st = Some st' \<and> inserted st (Slot_first head) n (hd (zs @ [NULL])) st'"
proof -
  define nx where "nx = hd (zs @ [NULL])"
  note r = insert_reads [OF l n, folded nx_def, simplified]
  define st1 where "st1 = upd_slot (Slot_next n) nx st"
  define st2 where "st2 = (if nx \<noteq> NULL then upd_pprev nx (Slot_next n) st1 else st1)"
  define st' where "st' = upd_pprev n (Slot_first head) (upd_slot (Slot_first head) n st2)"
  have R2: "read_slot r st2 = (if r = Slot_next n then Some nx else read_slot r st)"
    and P2: "pprev_of st2 q = (if nx \<noteq> NULL \<and> q = nx then Some (Slot_next n) else pprev_of st q)" for r q
    using r by (simp_all add: st2_def st1_def)
  have f2: "read_slot (Slot_first head) st2 \<noteq> None" "pprev_of st2 n \<noteq> None" using R2 P2 r n by auto
  have "hlist_add_head n head st = Some st'"
    using r f2 by (cases "nx = NULL") (simp_all add: hlist_add_head_def c_when_def st'_def st2_def st1_def flip: read_slot.simps(3))
  moreover have "inserted st (Slot_first head) n nx st'" using f2 R2 P2 by (simp add: inserted_def st'_def)
  ultimately show ?thesis unfolding nx_def by blast
qed

lemma hlist_add_behind_spec:
  assumes l: "is_hlist st head (ys @ zs)" and n: "n \<noteq> NULL" "n \<notin> set (ys @ zs)" "pprev_of st n \<noteq> None" and y: "ys \<noteq> []"
  shows "\<exists>st'. hlist_add_behind n (last ys) st = Some st' \<and> inserted st (slot_after (Slot_first head) ys) n (hd (zs @ [NULL])) st'"
proof -
  define nx y where "nx = hd (zs @ [NULL])" and "y = last ys"
  have sl: "slot_after (Slot_first head) ys = Slot_next y" using y by (simp add: slot_after_last y_def)
  note r = insert_reads [OF l n, folded nx_def, unfolded sl]
  obtain sy where "pprev_of st y = Some sy" using is_hlist_dom(2) [OF l, of y] y by (auto simp: y_def)
  note ny = hlist_node_reads [OF this r(1)]
  define st1 where "st1 = upd_slot (Slot_next n) nx st"
  define st2 where "st2 = upd_slot (Slot_next y) n st1"
  define st3 where "st3 = upd_pprev n (Slot_next y) st2"
  have s: "set_hnext n nx st = Some st1" "set_hnext y n st1 = Some st2" "set_pprev n (Slot_next y) st2 = Some st3"
    using r n(3) by (simp_all add: st1_def st2_def st3_def)
  have R3: "read_slot r st3 = (if r = Slot_next y then Some n else if r = Slot_next n then Some nx else read_slot r st)"
    and P3: "pprev_of st3 q = (if q = n then Some (Slot_next y) else pprev_of st q)" for r q
    using r n(3) by (simp_all add: st3_def st2_def st1_def)
  have n3: "hl_nodes st3 n = Some \<lparr>hn_next = nx, hn_pprev = Slot_next y\<rparr>" using hlist_node_reads [of st3 n] R3 P3 r by simp
  have x3: "nx \<noteq> NULL \<Longrightarrow> pprev_of st3 nx \<noteq> None" using P3 r by simp
  define st' where "st' = (if nx \<noteq> NULL then upd_pprev nx (Slot_next n) st3 else st3)"
  have "hlist_add_behind n y st = Some st'" using ny s n3 x3 by (simp add: hlist_add_behind_def c_when_def st'_def)
  moreover have "inserted st (Slot_next y) n nx st'" using R3 P3 x3 r(4) by (auto simp: inserted_def st'_def)
  ultimately show ?thesis unfolding nx_def sl y_def by blast
qed

lemma hlist_add_before_spec:
  assumes l: "is_hlist st head (ys @ zs)" and n: "n \<noteq> NULL" "n \<notin> set (ys @ zs)" "pprev_of st n \<noteq> None" and z: "zs \<noteq> []"
  shows "\<exists>st'. hlist_add_before n (hd zs) st = Some st' \<and> inserted st (slot_after (Slot_first head) ys) n (hd (zs @ [NULL])) st'"
proof -
  define nx sl where "nx = hd (zs @ [NULL])" and "sl = slot_after (Slot_first head) ys"
  note r = insert_reads [OF l n, folded nx_def sl_def]
  have x: "hd zs = nx" "nx \<noteq> NULL" using z is_hlist_dom(2) [OF l, of nx] by (cases zs; simp add: nx_def)+
  obtain v where "read_slot (Slot_next nx) st = Some v" using r(3) x(2) by (metis not_None_eq pprev_read)
  note nn = hlist_node_reads [OF r(3) [OF x(2)] this]
  define st1 where "st1 = upd_pprev n sl st"
  define st2 where "st2 = upd_slot (Slot_next n) nx st1"
  define st3 where "st3 = upd_pprev nx (Slot_next n) st2"
  have s: "set_pprev n sl st = Some st1" "set_hnext n nx st1 = Some st2" "set_pprev nx (Slot_next n) st2 = Some st3"
    using r n(3) x by (simp_all add: st1_def st2_def st3_def)
  have R3: "read_slot r st3 = (if r = Slot_next n then Some nx else read_slot r st)"
    and P3: "pprev_of st3 q = (if q = nx then Some (Slot_next n) else if q = n then Some sl else pprev_of st q)" for r q
    using r n(3) x by (simp_all add: st3_def st2_def st1_def)
  have n3: "hl_nodes st3 n = Some \<lparr>hn_next = nx, hn_pprev = sl\<rparr>" using hlist_node_reads [of st3 n] R3 P3 r by simp
  have r3: "read_slot sl st3 \<noteq> None" using R3 r by simp
  define st' where "st' = upd_slot sl n st3"
  have "hlist_add_before n nx st = Some st'" using nn s n3 r3 by (simp add: hlist_add_before_def st'_def)
  moreover have "inserted st sl n nx st'" using R3 P3 r3 r(4) x by (auto simp: inserted_def st'_def)
  ultimately show ?thesis unfolding nx_def sl_def using x(1) nx_def by auto
qed

lemma hlist_move_list_spec:
  assumes l: "is_hlist st old xs" and new: "hl_first st new \<noteq> None" "new \<noteq> old"
  shows "\<exists>st'. hlist_move_list old new st = Some st' \<and> is_hlist st' new xs \<and> is_hlist st' old [] \<and> hframe {old, new} (set xs) st st'"
proof -
  define nx where "nx = hd (xs @ [NULL])"
  have p: "hpath st (Slot_first old) xs" and d: "distinct xs" using l by (simp_all add: is_hlist_def)
  have o: "read_slot (Slot_first old) st = Some nx" "read_slot (Slot_first new) st \<noteq> None"
    using hpath_read [OF p] new by (simp_all add: nx_def read_slot.simps)
  have nd: "nx \<noteq> NULL \<Longrightarrow> nx \<in> set xs" by (cases xs) (auto simp: nx_def)
  then have pn: "nx \<noteq> NULL \<Longrightarrow> pprev_of st nx \<noteq> None" using is_hlist_dom(2) [OF l] by blast
  define st1 where "st1 = upd_slot (Slot_first new) nx st"
  define st2 where "st2 = (if nx \<noteq> NULL then upd_pprev nx (Slot_first new) st1 else st1)"
  define st' where "st' = upd_slot (Slot_first old) NULL st2"
  have R2: "read_slot r st2 = (if r = Slot_first new then Some nx else read_slot r st)"
    and P2: "pprev_of st2 q = (if nx \<noteq> NULL \<and> q = nx then Some (Slot_first new) else pprev_of st q)" for r q
    using o pn by (simp_all add: st2_def st1_def)
  have R: "read_slot r st' = (if r = Slot_first old then Some NULL else if r = Slot_first new then Some nx else read_slot r st)"
    and P: "pprev_of st' q = (if nx \<noteq> NULL \<and> q = nx then Some (Slot_first new) else pprev_of st q)" for r q
    using o R2 P2 new(2) by (simp_all add: st'_def)
  have f: "read_slot (Slot_first old) st2 \<noteq> None" "read_slot (Slot_first new) st1 = Some nx" using o R2 new(2) by (simp_all add: st1_def)
  have "hlist_move_list old new st = Some st'"
    using o f pn by (cases "nx = NULL") (simp_all add: hlist_move_list_def c_when_def st'_def st2_def st1_def flip: read_slot.simps(3))
  moreover have "hpath st' (Slot_first new) xs"
  proof (cases xs)
    case Nil
    then show ?thesis using R new(2) by (simp add: hpath_def nx_def)
  next
    case (Cons z zs)
    have z: "z = nx" using Cons by (simp add: nx_def)
    have "hpath st' (Slot_next z) zs = hpath st (Slot_next z) zs" by (rule hpath_cong) (use R P Cons d z in auto)
    then show ?thesis using p Cons R P z new(2) by (auto simp: hpath_Cons)
  qed
  moreover have "is_hlist st' old []" using R by (simp add: is_hlist_def hpath_def)
  moreover have "hframe {old, new} (set xs) st st'" by (rule hframeI) (use R P nd in auto)
  ultimately show ?thesis using d by (auto simp: is_hlist_def)
qed

section \<open>Walks\<close>

lemma is_hlist_next:
  "is_hlist st head (ys @ e # zs) \<Longrightarrow> \<exists>n. hl_nodes st e = Some n \<and> hn_next n = hd (zs @ [NULL]) \<and> e \<noteq> NULL"
  using hpath_read [of st "Slot_next e" zs] by (auto simp: is_hlist_def hpath_append hpath_Cons read_slot.simps)

lemma is_hlist_first: "is_hlist st head xs \<Longrightarrow> hl_first st head = Some (hd (xs @ [NULL]))"
  using hpath_read [of st "Slot_first head" xs] by (simp add: is_hlist_def read_slot.simps)

text \<open>A body that leaves the list alone is given the entries from the cursor on, in order.\<close>

lemma hlist_for_each_entry_from_fold:
  assumes "is_hlist st head (ys @ zs)" and "\<forall>s. hl s = st" and "\<forall>x s. body x s = Some (Inl (f x s))"
  shows "hlist_for_each_entry_from hl body (hd (zs @ [NULL])) s = Some (Inl (fold f zs s))"
  using assms(1)
proof (induction zs arbitrary: ys s)
  case Nil
  then show ?case by (simp add: hlist_for_each_entry_from.simps)
next
  case (Cons z zs)
  then show ?case using is_hlist_next [OF Cons.prems] Cons.IH [of "ys @ [z]"] assms(2,3)
    by (auto simp: hlist_for_each_entry_from.simps [of _ _ z])
qed

lemma hlist_for_each_entry_fold:
  assumes "is_hlist st head xs" and "\<forall>s. hl s = st" and "\<forall>x s. body x s = Some (Inl (f x s))"
  shows "hlist_for_each_entry hl head body s = Some (Inl (fold f xs s))"
  using hlist_for_each_entry_from_fold [of st head "[]" xs hl body f s] assms is_hlist_first [OF assms(1)]
  by (simp add: hlist_for_each_entry_def)

lemma hlist_for_each_entry_continue_fold:
  assumes "is_hlist st head (ys @ x # zs)" and "\<forall>s. hl s = st" and "\<forall>x s. body x s = Some (Inl (f x s))"
  shows "hlist_for_each_entry_continue hl body x s = Some (Inl (fold f zs s))"
  using hlist_for_each_entry_from_fold [of st head "ys @ [x]" zs hl body f s] assms is_hlist_next [OF assms(1)]
  by (auto simp: hlist_for_each_entry_continue_def)

lemma hlist_cursors:
  "hlist_for_each hl head body s = hlist_for_each_entry hl head body s"
  "hlist_for_each_safe hl head body s = hlist_for_each_entry_safe hl head body s"
  by (simp_all add: hlist_for_each_def hlist_for_each_entry_def hlist_for_each_safe_def hlist_for_each_entry_safe_def)

text \<open>The body of the safe walk may delete the entry it is given: this empties the list.\<close>

lemma hlist_for_each_entry_safe_del:
  assumes "is_hlist st head xs"
  shows "\<exists>st'. hlist_for_each_entry_safe (\<lambda>st. st) head (\<lambda>x st. map_option Inl (hlist_del x st)) st =
    Some (Inl st' :: hlists + unit) \<and> is_hlist st' head []"
proof -
  have "\<exists>st'. hlist_for_each_safe_from (\<lambda>st. st) (\<lambda>x st. map_option Inl (hlist_del x st)) (hd (xs @ [NULL])) st =
    Some (Inl st' :: hlists + unit) \<and> is_hlist st' head []" if "is_hlist st head xs" for st xs
    using that
  proof (induction xs arbitrary: st)
    case Nil
    then show ?case by (simp add: hlist_for_each_safe_from.simps)
  next
    case (Cons x xs)
    obtain st1 where "hlist_del x st = Some st1" "is_hlist st1 head xs" using hlist_del_spec [of st head "[]" x xs] Cons.prems by auto
    then show ?case using Cons.IH [of st1] is_hlist_next [of st head "[]" x xs] Cons.prems
      by (auto simp: hlist_for_each_safe_from.simps [of _ _ x])
  qed
  from this [OF assms] show ?thesis using is_hlist_first [OF assms] by (simp add: hlist_for_each_entry_safe_def)
qed

section \<open>Tests\<close>

lemma hlist_empty_spec: "is_hlist st head xs \<Longrightarrow> hlist_empty head st = Some (xs = [])"
proof -
  assume l: "is_hlist st head xs"
  then have "hl_first st head = Some (hd (xs @ [NULL]))" using hpath_read [of st "Slot_first head" xs] by (simp add: is_hlist_def read_slot.simps)
  then show ?thesis using is_hlist_dom(2) [OF l, of "hd xs"] by (cases xs) (auto simp: hlist_empty_def)
qed

lemma hlist_is_singular_node_spec:
  assumes l: "is_hlist st head (ys @ e # zs)"
  shows "hlist_is_singular_node e head st = Some (ys = [] \<and> zs = [])"
proof -
  have "pprev_of st e = Some (slot_after (Slot_first head) ys)" "hpath st (Slot_next e) zs"
    using l by (simp_all add: is_hlist_def hpath_append hpath_Cons)
  then have "hl_nodes st e = Some \<lparr>hn_next = hd (zs @ [NULL]), hn_pprev = slot_after (Slot_first head) ys\<rparr>"
    using hlist_node_reads hpath_read by blast
  moreover have "zs \<noteq> [] \<Longrightarrow> hd zs \<noteq> NULL" using is_hlist_dom(2) [OF l, of "hd zs"] by (cases zs) auto
  ultimately show ?thesis by (cases zs) (auto simp: hlist_is_singular_node_def slot_after_last)
qed

text \<open>A node that has been added to a fake list can be deleted, as the comment says, and nothing else changes.\<close>

lemma hlist_add_fake_spec:
  assumes "hl_nodes st n = Some nn" and "hn_next nn = NULL"
  shows "\<exists>st'. hlist_add_fake n st = Some st' \<and> hlist_fake n st' = Some True \<and> hlist_unhashed n st' = Some False \<and>
    raw_hlist_del n st' = Some st'"
proof -
  have r: "pprev_of st n \<noteq> None" "read_slot (Slot_next n) st = Some NULL" using assms by (simp_all add: pprev_of_def read_slot.simps)
  define st' where "st' = upd_pprev n (Slot_next n) st"
  have R: "read_slot r st' = read_slot r st" and P: "pprev_of st' q = (if q = n then Some (Slot_next n) else pprev_of st q)" for r q
    using r by (simp_all add: st'_def)
  have n: "hl_nodes st' n = Some \<lparr>hn_next = NULL, hn_pprev = Slot_next n\<rparr>" using hlist_node_reads [of st' n] R P r by simp
  have "upd_slot (Slot_next n) NULL st' = st'" by (rule hlists_eqI) (use R r in auto)
  then have "raw_hlist_del n st' = Some st'" using n R r by (simp add: raw_hlist_del_def c_when_def)
  then show ?thesis using n r by (simp add: hlist_add_fake_def hlist_fake_def hlist_unhashed_def st'_def)
qed

section \<open>Properties\<close>

text \<open>C39: \<open>hlist_add_head\<close>, \<open>hlist_add_behind\<close> the node before a position and \<open>hlist_add_before\<close> the node
  after it, whichever of them apply, all return the same state, in which the new node is at that
  position; \<open>__hlist_del\<close> of the node then takes it out again, and every head and every other node is as
  it was before.\<close>

theorem hlist_insertions_agree:
  assumes "is_hlist st head (ys @ zs)" and "n \<noteq> NULL" and "n \<notin> set (ys @ zs)" and "hl_nodes st n \<noteq> None"
  shows "\<exists>st1 st2. (ys = [] \<longrightarrow> hlist_add_head n head st = Some st1) \<and>
    (ys \<noteq> [] \<longrightarrow> hlist_add_behind n (last ys) st = Some st1) \<and>
    (zs \<noteq> [] \<longrightarrow> hlist_add_before n (hd zs) st = Some st1) \<and> is_hlist st1 head (ys @ n # zs) \<and>
    raw_hlist_del n st1 = Some st2 \<and> is_hlist st2 head (ys @ zs) \<and>
    hl_first st2 = hl_first st \<and> (\<forall>q. q \<noteq> n \<longrightarrow> hl_nodes st2 q = hl_nodes st q)"
proof -
  let ?sl = "slot_after (Slot_first head) ys" and ?nx = "hd (zs @ [NULL])"
  have n: "pprev_of st n \<noteq> None" using assms(4) by (simp add: pprev_of_def)
  note B = hlist_add_behind_spec [OF assms(1-3) n] and F = hlist_add_before_spec [OF assms(1-3) n]
  have H: "\<exists>st'. hlist_add_head n head st = Some st' \<and> inserted st ?sl n ?nx st'" if "ys = []"
    using hlist_add_head_spec [of st head zs n] assms n that by simp
  obtain st1 where st1: "inserted st ?sl n ?nx st1" using B H by blast
  have "(ys = [] \<longrightarrow> hlist_add_head n head st = Some st1) \<and> (ys \<noteq> [] \<longrightarrow> hlist_add_behind n (last ys) st = Some st1) \<and>
    (zs \<noteq> [] \<longrightarrow> hlist_add_before n (hd zs) st = Some st1)"
    using B F H inserted_unique [OF st1] by blast
  moreover have l1: "is_hlist st1 head (ys @ n # zs)"
    using hlist_inserted [OF assms(1-3) refl refl] st1 by (simp add: inserted_def)
  moreover obtain st2 where st2: "raw_hlist_del n st1 = Some st2" "is_hlist st2 head (ys @ zs)"
    "\<forall>r. read_slot r st2 = (if r = ?sl then Some ?nx else read_slot r st1)"
    "\<forall>q. pprev_of st2 q = (if ?nx \<noteq> NULL \<and> q = ?nx then Some ?sl else pprev_of st1 q)" using raw_hlist_del_spec [OF l1] by blast
  moreover have "hframe {} {n} st st2"
    by (rule hframeI) (use st1 st2(3,4) insert_reads [OF assms(1-3) n] in \<open>auto simp: inserted_def\<close>)
  then have "hl_first st2 = hl_first st \<and> (\<forall>q. q \<noteq> n \<longrightarrow> hl_nodes st2 q = hl_nodes st q)" by (auto simp: hframe_def)
  ultimately show ?thesis by blast
qed

text \<open>A head 8 with the nodes 16 and 32, an empty head 9, and a node 48 in no list.\<close>

definition example_hlists :: hlists where
  "example_hlists = \<lparr>hl_first = [8 \<mapsto> 16, 9 \<mapsto> NULL],
     hl_nodes = [16 \<mapsto> \<lparr>hn_next = 32, hn_pprev = Slot_first 8\<rparr>, 32 \<mapsto> \<lparr>hn_next = NULL, hn_pprev = Slot_next 16\<rparr>,
       48 \<mapsto> \<lparr>hn_next = NULL, hn_pprev = Slot_NULL\<rparr>]\<rparr>"

lemma example_hlists: "is_hlist example_hlists 8 [16, 32]"
  by (simp add: is_hlist_def hpath_def example_hlists_def read_slot.simps pprev_of_def)

theorem hlist_insertions_agree_witness:
  "\<exists>st1 st2. hlist_add_behind 48 16 example_hlists = Some st1 \<and> hlist_add_before 48 32 example_hlists = Some st1 \<and>
    is_hlist st1 8 [16, 48, 32] \<and> raw_hlist_del 48 st1 = Some st2 \<and> is_hlist st2 8 [16, 32]"
  using hlist_insertions_agree [of example_hlists 8 "[16]" "[32]" 48] example_hlists by (auto simp: example_hlists_def)

end
