(* ===== verification/Spec2Isabelle.thy ===== *)
theory Spec2Isabelle
  imports Pool_Faults Rbtree_Postorder Rbtree_Rcu Drm_Mm_Closed Linux_List_Ops Linux_List_Walk Linux_Hlist
begin

text \<open>
  Verification of \<open>test-drm-mm\<close>, the user space simulation of the CMA pool of the vc4 driver in
  \<open>src/test-drm-mm/\<close>. All paths below are relative to that directory.

  \<^bold>\<open>The program.\<close> \<open>main.c\<close> reads a log of buffer operations and replays them on a pool of 128 MB. It
  keeps a list of all buffers and an MRU list of those in the pool, and places them with the range
  allocator of the kernel (\<open>drm_mm.c\<close>, \<open>drm/drm_mm.h\<close>). The allocator keeps its blocks in a list
  (\<open>linux/list.h\<close>) and an interval tree (\<open>linux/interval_tree_generic.h\<close>), and its holes in a stack, a
  tree by size and a tree by address; all trees are the red-black trees of \<open>rbtree.c\<close>,
  \<open>linux/rbtree.h\<close> and \<open>linux/rbtree_augmented.h\<close>. When a buffer does not fit, \<open>main.c\<close> runs the
  eviction scan of the allocator over the buffers, least recently used first.

  \<^bold>\<open>How code becomes definitions.\<close> A pointer is a 64-bit word and NULL is 0. Each embedded structure
  (a \<open>list_head\<close>, an \<open>rb_node\<close>, the plain fields of a node or a buffer) has a store of its own, a map
  from the address of the object that contains it, so \<open>container_of\<close> is the identity. An operation
  takes the state and returns the new one in the option type: None is a failed assertion
  (\<open>BUG_ON\<close> and \<open>DRM_MM_BUG_ON\<close>, which \<open>linux/bug.h\<close> makes \<open>assert\<close>), an access to memory that is not
  there, or a loop that does not end (loops over pointers are \<open>partial_function (option)\<close>). So every
  theorem that says \<open>= Some ...\<close> says that the code returns. Machine integers are words and wrap; this
  includes the line counter, a C \<open>int\<close>, for which C leaves open what comes after \<open>2 ^ 31 - 1\<close> (the
  theorem on logs says up to which length it is exact).
  Loop bodies are definitions of their own; \<open>Inl\<close> goes on and \<open>Inr\<close> leaves the loop.

  \<^bold>\<open>Theories.\<close>
  \<^item> \<open>Prelude\<close>: types, \<open>BUG_ON\<close>, \<open>min\<close>, \<open>max\<close> and division from \<open>linux/kernel.h\<close>, shared lemmas.
  \<^item> \<open>Linux_List\<close>: what the program uses of \<open>linux/list.h\<close>, and rules for the iteration macros over a
    list \<open>is_list h head xs\<close>. \<open>Linux_List_Ops\<close>: the other operations on such lists (swapping, moving,
    rotating, cutting, splicing); \<open>Linux_List_Walk\<close>: the other iteration macros; \<open>Linux_Hlist\<close>: the hash
    lists.
  \<^item> \<open>Rbtree\<close>: \<open>rbtree.c\<close> and its headers. \<open>Rbtree_Rep\<close> relates memory to trees and states what the
    augmentation callbacks owe (locale \<open>rb_augment\<close>, later \<open>rb_callbacks\<close>); \<open>Rbtree_Fun\<close> holds the
    functional red-black tree steps; \<open>Rbtree_Insert\<close>, \<open>Rbtree_Erase\<close> and \<open>Rbtree_Unlink\<close> prove
    insertion and removal, \<open>Rbtree_Walk\<close> the walks, \<open>Rbtree_Search\<close> the descent (locale
    \<open>rb_search\<close>), \<open>Rbtree_Sorted\<close> trees ordered by a key, \<open>Rbtree_Postorder\<close> the postorder walk, \<open>Rbtree_Rcu\<close> the
    RCU variants, \<open>Rbtree_Empty\<close> empty trees and cleared nodes. Insertion and removal are proved once for
    all callbacks and interpreted for the dummy callbacks and for those of the interval tree.
  \<^item> \<open>Interval_Tree\<close>: the template of \<open>linux/interval_tree_generic.h\<close>.
  \<^item> \<open>Drm_Mm\<close>: every operation of \<open>drm_mm.c\<close> and \<open>drm/drm_mm.h\<close>. \<open>Drm_Mm_Holes\<close>, \<open>Drm_Mm_Interval\<close>,
    \<open>Drm_Mm_Inv\<close> (the invariant \<open>mm_inv\<close>: blocks in order, holes exactly between them, every
    structure consistent), \<open>Drm_Mm_Place\<close>, \<open>Drm_Mm_Remove\<close>, \<open>Drm_Mm_Replace\<close>, \<open>Drm_Mm_Fit\<close> (the placement
    arithmetic), \<open>Drm_Mm_Search\<close>, \<open>Drm_Mm_Insert\<close>, \<open>Drm_Mm_Memory\<close>, \<open>Drm_Mm_Api\<close> (every state
    callers can reach, and what they are promised), \<open>Drm_Mm_Walk\<close> (the iteration macros),
    \<open>Drm_Mm_Contract\<close> (the allocator as an abstract machine, a map from nodes to blocks, that any
    client can be written against: locale \<open>simulation\<close>, interpreted for the states callers can reach),
    \<open>Drm_Mm_Queries\<close> (printing and colour eviction), \<open>Drm_Mm_Closed\<close> (no pointer of the allocator
    leads to a node that is not in use) and \<open>Drm_Mm_Scan\<close> (the eviction scan).
  \<^item> \<open>C_Stdlib\<close>: what \<open>main.c\<close> uses of ctype, string and stdio, with the round trip from printing to
    scanning numbers. \<open>Pool\<close>: \<open>main.c\<close>. \<open>Pool_Inv\<close> (the invariant \<open>pool_inv\<close>), \<open>Pool_Evict\<close>,
    \<open>Pool_Page\<close> and \<open>Pool_Commands\<close> specify its functions.
  \<^item> \<open>Json\<close>: a reader of JSON texts, the reference for what \<open>dump_data\<close> prints; \<open>Pool_Dump\<close> proves that
    reading the dump gives back the pool.
  \<^item> \<open>Pool_Cache\<close>: the contract of \<open>main.c\<close> as an abstract machine of named buffers.
    \<open>Pool_View\<close> abstracts memory to it, \<open>Pool_Refine\<close> proves each command a step of it, \<open>Pool_Log\<close>
    and \<open>Pool_Main\<close> lift this to lines, files and \<open>main\<close>. \<open>Pool_Spec\<close> and \<open>Pool_Faults\<close> hold the
    properties and the concrete states of their witnesses.

  \<^bold>\<open>What is shown.\<close> Lists and trees: operations do exactly what they should to the sequence, and keep
  red-black balance and subtree maxima; iteration over intervals is complete, and a postorder walk
  may free what it visits. Allocator: insertion succeeds exactly when a hole that its mode
  lets it try has room and takes the best place for its mode; removal merges holes and undoes insertion; replacement hands a block over
  to another node; reservation, the arithmetic of alignment, safety of every reachable state; any
  client that keeps the contract gets the answers of the abstract allocator; a scan leaves no trace,
  misses no place, and what it selects makes room; the walks over blocks and holes are exact, and
  where the documentation warns that one may not end, it does not; printing accounts for the whole
  range; no pointer leads to a node that is not in use. Pool: every log is
  processed to its end as a run of the abstract machine; a buffer that is in use or unmoveable is
  never moved; paging in succeeds exactly when it can; blocks are disjoint and aligned and the
  accounting is exact; the dump is JSON that says what the pool holds; the program frees everything. Two deviations are proved as theorems:
  \<open>buf_madv\<close> never takes an advice, and a buffer of no size or more than the pool aborts.

  \<^bold>\<open>Hypotheses.\<close> \<open>calloc\<close> is a parameter: \<open>calloc_ok n\<close> says it returns unused, aligned memory while
  there are fewer than \<open>n\<close> buffers, and a log of at most \<open>n\<close> lines needs no more. The content of
  files is a parameter. \<open>command_ok\<close> excludes the sizes that abort.

  \<^bold>\<open>Not modelled.\<close> The stack traces of \<open>CONFIG_DRM_DEBUG_MM\<close>, which is off; locking and \<open>READ_ONCE\<close>,
  as the program has one thread; the text of error messages beyond the values in them; closing
  and flushing files; the script \<open>cma-pool-log.py\<close>, which attaches to a running kernel.
\<close>

end
